(* ===== verification/Mtgo_Prelude.thy ===== *)
theory Mtgo_Prelude
  imports Main "HOL-Library.Word" "HOL-Library.AList" "HOL-Library.Signed_Division"
begin

text \<open>
  Shared vocabulary of the development: the machine integers and byte strings of the Go
  sources, little-endian encoding (the part of Go's encoding/binary the sources use), Go maps
  as association lists behind an interface locale, errors as sums, and the fact collections
  that the component theories extend.
\<close>

section \<open>Fact collections\<close>

named_theorems codec_simps \<open>rewrite rules of the byte codecs\<close>
named_theorems inv_intros \<open>preservation of component invariants\<close>
named_theorems guard_simps \<open>success of computations with early returns\<close>
named_theorems op_defs \<open>definitions of straight-line operations, to be unfolded\<close>

section \<open>Machine integers and byte strings\<close>

text \<open>Go's \<^verbatim>\<open>int32\<close> and \<^verbatim>\<open>uint32\<close> (\<^verbatim>\<open>int64\<close>, \<^verbatim>\<open>uint64\<close>) share one word type; a signed reading is
  \<^const>\<open>sint\<close>, an unsigned one \<^const>\<open>uint\<close> or \<^const>\<open>unat\<close>. Conversions between the signed and
  the unsigned type of one width are the identity on words.\<close>

type_synonym u8 = "8 word"
type_synonym u32 = "32 word"
type_synonym i64 = "64 word"
type_synonym bytes = "u8 list"

unbundle bit_operations_syntax

subsection \<open>Little-endian layout\<close>

text \<open>\<open>le_bytes n w\<close> is what \<^verbatim>\<open>binary.LittleEndian.PutUint32\<close> and \<^verbatim>\<open>PutUint64\<close> store
  (\<^verbatim>\<open>byte(v), byte(v>>8), ...\<close>); \<open>le_word\<close> is \<^verbatim>\<open>Uint32\<close> / \<^verbatim>\<open>Uint64\<close>
  (\<^verbatim>\<open>b[0] | b[1]<<8 | ...\<close>).\<close>

primrec le_bytes :: "nat \<Rightarrow> 'a::len word \<Rightarrow> bytes" where
  "le_bytes 0 w = []"
| "le_bytes (Suc n) w = ucast w # le_bytes n (drop_bit 8 w)"

primrec le_word :: "bytes \<Rightarrow> 'a::len word" where
  "le_word [] = 0"
| "le_word (b # bs) = ucast b OR push_bit 8 (le_word bs)"

lemma length_le_bytes [simp]: "length (le_bytes n w) = n"
  by (induction n arbitrary: w) auto

lemma le_word_le_bytes: "le_word (le_bytes n w) = take_bit (8 * n) w"
proof (induction n arbitrary: w)
  case (Suc n)
  show ?case
    by (rule bit_word_eqI) (auto simp: Suc bit_simps add.commute)
qed simp

lemma le_word_le_bytes_full [codec_simps]:
  "LENGTH('a) \<le> 8 * n \<Longrightarrow> le_word (le_bytes n (w :: 'a::len word)) = w"
  by (simp add: le_word_le_bytes take_bit_word_eq_self)

lemma le_word_le_bytes_32 [simp]: "le_word (le_bytes 4 (w :: u32)) = w"
  by (rule le_word_le_bytes_full) simp

lemma le_word_le_bytes_64 [simp]: "le_word (le_bytes 8 (w :: i64)) = w"
  by (rule le_word_le_bytes_full) simp

lemma ucast_le_word_Cons:
  "8 \<le> LENGTH('a::len) \<Longrightarrow> ucast (ucast b OR push_bit 8 (w :: 'a word)) = (b :: u8)"
  by (rule bit_word_eqI) (auto simp: bit_simps)

lemma bit_le_word_high: "8 * length bs \<le> k \<Longrightarrow> \<not> bit (le_word bs :: 'a::len word) k"
  by (induction bs arbitrary: k) (auto simp: bit_simps dest: bit_imp_le_length)

lemma drop_bit_le_word_Cons:
  "8 * Suc (length bs) \<le> LENGTH('a::len) \<Longrightarrow>
   drop_bit 8 (ucast (b :: u8) OR push_bit 8 (le_word bs :: 'a word)) = (le_word bs :: 'a word)"
  by (rule bit_word_eqI)
    (auto simp: bit_simps bit_le_word_high dest: bit_imp_le_length)

lemma le_bytes_le_word:
  "length bs = n \<Longrightarrow> 8 * n \<le> LENGTH('a::len) \<Longrightarrow> le_bytes n (le_word bs :: 'a word) = bs"
proof (induction bs arbitrary: n)
  case (Cons b bs)
  then show ?case
    using ucast_le_word_Cons [where ?'a = 'a, of b "le_word bs"]
      drop_bit_le_word_Cons [where ?'a = 'a, of bs b]
    by auto
qed simp

lemma take_bit_le_word: "take_bit (8 * length bs) (le_word bs :: 'a::len word) = le_word bs"
  by (rule bit_word_eqI) (metis bit_take_bit_iff bit_le_word_high not_less)

lemma le_word_bound: "unat (le_word bs :: 'a::len word) < 256 ^ length bs"
proof -
  have "take_bit (8 * length bs) (unat (le_word bs :: 'a word)) = unat (le_word bs :: 'a word)"
    by (metis unsigned_take_bit_eq take_bit_le_word)
  then have "unat (le_word bs :: 'a word) < 2 ^ (8 * length bs)"
    by (metis take_bit_nat_less_exp)
  then show ?thesis by (simp add: power_mult)
qed

subsection \<open>Slices\<close>

text \<open>\<open>go_slice xs lo hi\<close> is Go's \<^verbatim>\<open>xs[lo:hi]\<close> where that is in range (\<open>lo \<le> hi \<le> length xs\<close>); the
  models check the range first wherever the source can violate it.\<close>

definition go_slice :: "'a list \<Rightarrow> nat \<Rightarrow> nat \<Rightarrow> 'a list" where
  "go_slice xs lo hi = take (hi - lo) (drop lo xs)"

lemma length_go_slice [simp]: "hi \<le> length xs \<Longrightarrow> length (go_slice xs lo hi) = hi - lo"
  by (simp add: go_slice_def)

lemma go_slice_append_right [codec_simps]:
  "lo = length xs \<Longrightarrow> hi = lo + length ys \<Longrightarrow> go_slice (xs @ ys @ zs) lo hi = ys"
  by (simp add: go_slice_def)

lemma go_slice_0 [simp]: "go_slice xs 0 n = take n xs"
  by (simp add: go_slice_def)

text \<open>A prefix of known length is what \<^const>\<open>take\<close> and \<^const>\<open>drop\<close> split off.\<close>

lemma take_prefix [codec_simps]: "n = length xs \<Longrightarrow> take n (xs @ ys) = xs"
  by simp

lemma drop_prefix [codec_simps]: "n = length xs \<Longrightarrow> drop n (xs @ ys) = ys"
  by simp

lemma set_drop_distinct: "distinct xs \<Longrightarrow> set (drop k xs) = set xs - set (take k xs)"
proof -
  assume "distinct xs"
  then have "set (take k xs) \<inter> set (drop k xs) = {}"
    by (rule set_take_disj_set_drop_if_distinct) simp
  moreover have "set xs = set (take k xs) \<union> set (drop k xs)"
    by (metis append_take_drop_id set_append)
  ultimately show ?thesis by blast
qed

text \<open>Updates by index, read at an index in range; and a field that an update does not change.\<close>

lemma nth_update_read: "j < length xs \<Longrightarrow> xs[i := x] ! j = (if i = j then x else xs ! j)"
  by simp

lemma nth_update_same: "f h = f (xs ! a) \<Longrightarrow> f (xs[a := h] ! b) = f (xs ! b)"
  by (cases "a < length xs") (auto simp: nth_list_update list_update_beyond)

text \<open>Early returns: a guarded computation succeeds when no guard fires.\<close>

lemma guard_Inr [guard_simps]:
  "((if b then Inl e else m) = Inr v) \<longleftrightarrow> \<not> b \<and> m = Inr v"
  "((case x of Inl e1 \<Rightarrow> Inl (f e1) | Inr y \<Rightarrow> g y) = Inr v) \<longleftrightarrow> (\<exists>y. x = Inr y \<and> g y = Inr v)"
  "((case opt of None \<Rightarrow> Inl e | Some y \<Rightarrow> h y) = Inr v) \<longleftrightarrow> (\<exists>y. opt = Some y \<and> h y = Inr v)"
  by (auto split: sum.splits option.splits)

text \<open>Small naturals as signed words.\<close>

lemma sint_of_nat_small: "n < 2 ^ 31 \<Longrightarrow> sint (of_nat n :: u32) = int n"
  by (simp add: signed_of_nat signed_take_bit_int_eq_self)

lemma len_field_iff: "unat (w :: u32) = n \<longleftrightarrow> w = word_of_nat n \<and> n < 2 ^ 32"
proof
  assume "unat w = n"
  then show "w = word_of_nat n \<and> n < 2 ^ 32" using unsigned_less [of w] by auto
next
  assume "w = word_of_nat n \<and> n < 2 ^ 32"
  then show "unat w = n" by (simp add: unsigned_of_nat take_bit_nat_eq_self)
qed

text \<open>Padding to the block size of the cipher.\<close>

lemma pad16_full: "(n + (16 - n mod 16)) mod 16 = (0 :: nat)"
proof -
  define q r where "q = n div 16" and "r = n mod 16"
  have "n = 16 * q + r" "r < 16" by (simp_all add: q_def r_def)
  then have "n + (16 - r) = 16 * (q + 1)" by simp
  then show ?thesis unfolding r_def [symmetric] by (simp only: mod_mult_self1_is_0)
qed

lemma pad16: "(n + (16 - n mod 16) mod 16) mod 16 = (0 :: nat)"
  using pad16_full [of n] by (simp only: mod_add_right_eq)

section \<open>Go maps\<close>

text \<open>
  The interface the components use of a Go map: lookup, store, delete and \<^verbatim>\<open>len\<close>. The laws are
  the language's; the facts about \<^verbatim>\<open>len\<close> that capacity checks need are proved once here.
\<close>

locale go_map =
  fixes get :: "'m \<Rightarrow> 'k \<Rightarrow> 'v option"
    and put :: "'k \<Rightarrow> 'v \<Rightarrow> 'm \<Rightarrow> 'm"
    and del :: "'k \<Rightarrow> 'm \<Rightarrow> 'm"
    and len :: "'m \<Rightarrow> nat"
    and wf :: "'m \<Rightarrow> bool"
  assumes get_put: "get (put k v m) k' = (if k' = k then Some v else get m k')"
    and get_del: "wf m \<Longrightarrow> get (del k m) k' = (if k' = k then None else get m k')"
    and wf_put: "wf m \<Longrightarrow> wf (put k v m)"
    and wf_del: "wf m \<Longrightarrow> wf (del k m)"
    and finite_get: "finite (dom (get m))"
    and len_card: "wf m \<Longrightarrow> len m = card (dom (get m))"
begin

lemma dom_put: "dom (get (put k v m)) = insert k (dom (get m))"
  by (auto simp: get_put dom_def)

lemma dom_del: "wf m \<Longrightarrow> dom (get (del k m)) = dom (get m) - {k}"
  by (auto simp: get_del dom_def)

lemma len_put_new: "wf m \<Longrightarrow> get m k = None \<Longrightarrow> len (put k v m) = Suc (len m)"
  by (simp add: len_card wf_put dom_put finite_get domIff)

lemma len_put_old: "wf m \<Longrightarrow> get m k = Some v' \<Longrightarrow> len (put k v m) = len m"
  by (simp add: len_card wf_put dom_put insert_absorb domI)

lemma len_del_present: "wf m \<Longrightarrow> get m k = Some v \<Longrightarrow> Suc (len (del k m)) = len m"
  using card_Suc_Diff1 [OF finite_get, of k m]
  by (simp only: len_card wf_del dom_del domI not_False_eq_True)

lemma len_del_absent: "wf m \<Longrightarrow> get m k = None \<Longrightarrow> len (del k m) = len m"
  by (simp add: len_card wf_del dom_del domIff)

lemma len_put_le: "wf m \<Longrightarrow> len (put k v m) \<le> Suc (len m)"
  by (cases "get m k") (simp_all add: len_put_new len_put_old)

lemma len_del_le: "wf m \<Longrightarrow> len (del k m) \<le> len m"
  using len_del_present len_del_absent by (cases "get m k") fastforce+

end

text \<open>The model of a Go map: an association list with distinct keys, in some iteration order.\<close>

abbreviation gm_wf :: "('k \<times> 'v) list \<Rightarrow> bool" where
  "gm_wf m \<equiv> distinct (map fst m)"

interpretation gm: go_map map_of AList.update AList.delete length gm_wf
proof unfold_locales
  show "gm_wf m \<Longrightarrow> length m = card (dom (map_of m))" for m :: "('k \<times> 'v) list"
    by (metis dom_map_of_conv_image_fst distinct_card length_map set_map)
qed (auto simp: update_conv' delete_conv' distinct_update distinct_delete finite_dom_map_of)

lemmas gm_simps = gm.get_put gm.get_del gm.wf_put gm.wf_del

lemma gm_in_set: "gm_wf m \<Longrightarrow> (k, v) \<in> set m \<longleftrightarrow> map_of m k = Some v"
  by (rule map_of_eq_Some_iff [symmetric])

lemma gm_put_new: "map_of m k = None \<Longrightarrow> AList.update k v m = m @ [(k, v)]"
  by (induction m) auto

lemma gm_delete_filter: "AList.delete k m = filter (\<lambda>(k', v). k' \<noteq> k) m"
  by (induction m) (auto simp: case_prod_beta)

lemma gm_count_delete:
  assumes "gm_wf m" and "map_of m k = Some v"
  shows "length (filter P (AList.delete k m)) + (if P (k, v) then 1 else 0) = length (filter P m)"
  using assms
proof (induction m)
  case (Cons e m)
  show ?case
  proof (cases "fst e = k")
    case True
    with Cons.prems have "e = (k, v)" and "AList.delete k m = m"
      by (auto simp: prod_eq_iff)
    then show ?thesis by simp
  next
    case False
    with Cons show ?thesis by (cases e) auto
  qed
qed simp

lemma gm_delete_snd_notin:
  assumes "distinct (map snd m)" and "map_of m k = Some v"
  shows "v \<notin> snd ` set (AList.delete k m)"
  using assms by (induction m) (auto simp: gm_delete_filter rev_image_eqI split: if_splits dest: map_of_SomeD)

lemma gm_update_snd_notin:
  assumes "distinct (map snd m)" and "map_of m k = Some v" and "v \<noteq> w"
  shows "v \<notin> snd ` set (AList.update k w m)"
  using assms by (induction m) (auto simp: rev_image_eqI split: if_splits dest: map_of_SomeD)

lemma gm_delete_distinct_snd: "distinct (map snd m) \<Longrightarrow> distinct (map snd (AList.delete k m))"
  by (simp add: gm_delete_filter distinct_map_filter)

lemma gm_delete_subset: "set (AList.delete k m) \<subseteq> set m"
  by (auto simp: gm_delete_filter)

end
