(* ===== verification/TL_Primitives.thy ===== *)
theory TL_Primitives
  imports Mtgo_Prelude
begin

text \<open>
  The primitive TL encoding of \<^verbatim>\<open>src/tg/primitives.go\<close>, the vector guards of \<^verbatim>\<open>src/tg/tl.go\<close> and
  the flag words of \<^verbatim>\<open>src/tg/fields.go\<close>. A \<^verbatim>\<open>bytes.Buffer\<close> is the list of bytes written so far, a
  write returns the longer buffer. The \<^verbatim>\<open>io.Reader\<close> functions ignore read errors: the stream is the
  list of the bytes still to come, and a short read leaves zero bytes, as \<^verbatim>\<open>io.ReadFull\<close> into a
  fresh slice does.
\<close>

section \<open>Errors and guards (tl.go)\<close>

datatype tl_error =
    ErrUnexpectedEOF
  | ErrInvalidVectorConstructor u32
  | ErrVectorTooLarge u32
  | ErrUnknownConstructor u32
  | ErrNilTLObject
  | ErrMessageBodyTooLarge u32
  | ErrDecompressionBomb
  | ErrGzip
  | ErrOutOfFuel

definition maxVectorElements :: u32 where
  "maxVectorElements = 100000"

definition VectorTypeID :: u32 where
  "VectorTypeID = 0x1cb5c415"

definition CheckVectorConstructor :: "u32 \<Rightarrow> tl_error option" where
  "CheckVectorConstructor cid =
     (if cid \<noteq> VectorTypeID then Some (ErrInvalidVectorConstructor cid) else None)"

definition CheckVectorCount :: "u32 \<Rightarrow> tl_error option" where
  "CheckVectorCount count =
     (if count > maxVectorElements then Some (ErrVectorTooLarge count) else None)"

section \<open>Flag words (fields.go)\<close>

type_synonym fields = u32

definition Fields_Has :: "fields \<Rightarrow> nat \<Rightarrow> bool" where
  "Fields_Has f n \<longleftrightarrow> f AND push_bit n 1 \<noteq> 0"

definition Fields_Set :: "fields \<Rightarrow> nat \<Rightarrow> fields" where
  "Fields_Set f n = f OR push_bit n 1"

definition Fields_Unset :: "fields \<Rightarrow> nat \<Rightarrow> fields" where
  "Fields_Unset f n = f AND NOT (push_bit n 1)"

lemma Fields_Has_bit: "Fields_Has f n \<longleftrightarrow> n < 32 \<and> bit f n"
proof -
  have "f AND push_bit n 1 = (if n < 32 \<and> bit f n then push_bit n 1 else 0)"
    by (rule bit_word_eqI) (auto simp: bit_simps)
  moreover have "push_bit n (1 :: u32) \<noteq> 0" if "n < 32"
    using that by (simp add: push_bit_eq_mult)
  ultimately show ?thesis by (auto simp: Fields_Has_def)
qed

section \<open>Writers (primitives.go)\<close>

definition WriteInt :: "bytes \<Rightarrow> u32 \<Rightarrow> bytes" where
  "WriteInt b v = b @ le_bytes 4 v"

definition WriteLong :: "bytes \<Rightarrow> i64 \<Rightarrow> bytes" where
  "WriteLong b v = b @ le_bytes 8 v"

text \<open>\<^verbatim>\<open>[16]byte\<close> and \<^verbatim>\<open>[32]byte\<close> arrays are byte lists of that length; the length is a hypothesis of
  the lemmas about them. A \<^verbatim>\<open>float64\<close> is carried as its bit pattern (\<^verbatim>\<open>math.Float64bits\<close>).\<close>

definition WriteInt128 :: "bytes \<Rightarrow> bytes \<Rightarrow> bytes" where
  "WriteInt128 b v = b @ v"

definition WriteInt256 :: "bytes \<Rightarrow> bytes \<Rightarrow> bytes" where
  "WriteInt256 b v = b @ v"

definition WriteDouble :: "bytes \<Rightarrow> i64 \<Rightarrow> bytes" where
  "WriteDouble b v = b @ le_bytes 8 v"

definition BoolTrueID :: u32 where
  "BoolTrueID = 0x997275B5"

definition BoolFalseID :: u32 where
  "BoolFalseID = 0xBC799737"

definition WriteBool :: "bytes \<Rightarrow> bool \<Rightarrow> bytes" where
  "WriteBool b v = (if v then b @ le_bytes 4 BoolTrueID else b @ le_bytes 4 BoolFalseID)"

text \<open>The zero bytes after a TL string: \<^verbatim>\<open>(4 - (length+headerLen)%4) % 4\<close>.\<close>

definition tl_padding :: "nat \<Rightarrow> nat \<Rightarrow> nat" where
  "tl_padding len headerLen = (4 - (len + headerLen) mod 4) mod 4"

definition WriteBytes :: "bytes \<Rightarrow> bytes \<Rightarrow> bytes" where
  "WriteBytes b v =
     (let len = length v;
          headerLen = (if len \<le> 253 then 1 else 4);
          b1 = (if len \<le> 253 then b @ [word_of_nat len]
                else b @ [254, word_of_nat len, word_of_nat (len div 2 ^ 8),
                          word_of_nat (len div 2 ^ 16)]);
          b2 = (if len > 0 then b1 @ v else b1)
      in b2 @ replicate (tl_padding len headerLen) 0)"

text \<open>A Go string is its bytes.\<close>

definition WriteString :: "bytes \<Rightarrow> bytes \<Rightarrow> bytes" where
  "WriteString b v = WriteBytes b v"

text \<open>The loop \<^verbatim>\<open>for _, item := range v { write(b, item) }\<close>.\<close>

primrec write_items :: "(bytes \<Rightarrow> 'a \<Rightarrow> bytes) \<Rightarrow> bytes \<Rightarrow> 'a list \<Rightarrow> bytes" where
  "write_items wr b [] = b"
| "write_items wr b (x # xs) = write_items wr (wr b x) xs"

text \<open>The four vector writers have one body: constructor, count, items.\<close>

definition write_vector :: "(bytes \<Rightarrow> 'a \<Rightarrow> bytes) \<Rightarrow> bytes \<Rightarrow> 'a list \<Rightarrow> bytes" where
  "write_vector wr b v =
     write_items wr (WriteInt (WriteInt b VectorTypeID) (word_of_nat (length v))) v"

definition WriteVectorInt :: "bytes \<Rightarrow> u32 list \<Rightarrow> bytes" where
  "WriteVectorInt b v = write_vector WriteInt b v"

definition WriteVectorLong :: "bytes \<Rightarrow> i64 list \<Rightarrow> bytes" where
  "WriteVectorLong b v = write_vector WriteLong b v"

definition WriteVectorString :: "bytes \<Rightarrow> bytes list \<Rightarrow> bytes" where
  "WriteVectorString b v = write_vector WriteString b v"

definition WriteVectorBytes :: "bytes \<Rightarrow> bytes list \<Rightarrow> bytes" where
  "WriteVectorBytes b v = write_vector WriteBytes b v"

section \<open>Readers on an io.Reader (primitives.go)\<close>

text \<open>\<^verbatim>\<open>io.ReadFull\<close> into a zeroed slice of \<open>n\<close> bytes, the error dropped: what came is copied,
  the rest stays zero. \<^verbatim>\<open>binary.Read\<close> of a fixed-size integer assigns only on a full read.\<close>

definition ReadFull0 :: "nat \<Rightarrow> bytes \<Rightarrow> bytes \<times> bytes" where
  "ReadFull0 n s = (take n s @ replicate (n - length s) 0, drop n s)"

definition BinaryRead :: "nat \<Rightarrow> bytes \<Rightarrow> 'a::len word \<times> bytes" where
  "BinaryRead n s = (if n \<le> length s then le_word (take n s) else 0, drop n s)"

definition io_ReadInt :: "bytes \<Rightarrow> u32 \<times> bytes" where
  "io_ReadInt s = BinaryRead 4 s"

definition io_ReadIntErr :: "bytes \<Rightarrow> (tl_error + u32) \<times> bytes" where
  "io_ReadIntErr s =
     (if 4 \<le> length s then (Inr (le_word (take 4 s)), drop 4 s) else (Inl ErrUnexpectedEOF, []))"

definition io_ReadLong :: "bytes \<Rightarrow> i64 \<times> bytes" where
  "io_ReadLong s = BinaryRead 8 s"

definition io_ReadInt128 :: "bytes \<Rightarrow> bytes \<times> bytes" where
  "io_ReadInt128 s = ReadFull0 16 s"

definition io_ReadInt256 :: "bytes \<Rightarrow> bytes \<times> bytes" where
  "io_ReadInt256 s = ReadFull0 32 s"

definition io_ReadDouble :: "bytes \<Rightarrow> i64 \<times> bytes" where
  "io_ReadDouble s = BinaryRead 8 s"

definition io_ReadBool :: "bytes \<Rightarrow> bool \<times> bytes" where
  "io_ReadBool s = (let (cid, s') = BinaryRead 4 s in (cid = BoolTrueID, s'))"

text \<open>\<^verbatim>\<open>int(b[0]) | int(b[1])<<8 | int(b[2])<<16\<close>, the three-byte length.\<close>

definition len24 :: "bytes \<Rightarrow> nat" where
  "len24 bs = unat (le_word bs :: u32)"

definition io_ReadBytes :: "bytes \<Rightarrow> bytes \<times> bytes" where
  "io_ReadBytes s =
     (let (first, s1) = ReadFull0 1 s;
          short = unat (hd first) \<le> 253;
          (lo, s2) = (if short then ([], s1) else ReadFull0 3 s1);
          len = (if short then unat (hd first) else len24 lo);
          headerLen = (if short then 1 else 4);
          (data, s3) = ReadFull0 len s2;
          padding = tl_padding len headerLen
      in (data, drop padding s3))"

definition io_ReadString :: "bytes \<Rightarrow> bytes \<times> bytes" where
  "io_ReadString s = io_ReadBytes s"

text \<open>The loop \<^verbatim>\<open>for i := range result { result[i] = read(r) }\<close>.\<close>

primrec io_read_items :: "(bytes \<Rightarrow> 'a \<times> bytes) \<Rightarrow> nat \<Rightarrow> bytes \<Rightarrow> 'a list \<times> bytes" where
  "io_read_items rd 0 s = ([], s)"
| "io_read_items rd (Suc n) s =
     (let (x, s1) = rd s; (xs, s2) = io_read_items rd n s1 in (x # xs, s2))"

text \<open>The vector readers return nil where a guard fails: the model returns the empty list.\<close>

definition io_ReadVector :: "(bytes \<Rightarrow> 'a \<times> bytes) \<Rightarrow> bytes \<Rightarrow> 'a list \<times> bytes" where
  "io_ReadVector rd s =
     (let (cid, s1) = io_ReadInt s
      in if CheckVectorConstructor cid \<noteq> None then ([], s1)
         else let (count, s2) = io_ReadInt s1
              in if CheckVectorCount count \<noteq> None then ([], s2)
                 else io_read_items rd (unat count) s2)"

definition io_ReadVectorInt :: "bytes \<Rightarrow> u32 list \<times> bytes" where
  "io_ReadVectorInt s = io_ReadVector io_ReadInt s"

definition io_ReadVectorLong :: "bytes \<Rightarrow> i64 list \<times> bytes" where
  "io_ReadVectorLong s = io_ReadVector io_ReadLong s"

definition io_ReadVectorString :: "bytes \<Rightarrow> bytes list \<times> bytes" where
  "io_ReadVectorString s = io_ReadVector io_ReadString s"

definition io_ReadVectorBytes :: "bytes \<Rightarrow> bytes list \<times> bytes" where
  "io_ReadVectorBytes s = io_ReadVector io_ReadBytes s"

section \<open>Writers only append\<close>

lemma WriteInt_append: "WriteInt b v = b @ WriteInt [] v"
  by (simp add: WriteInt_def)

lemma WriteLong_append: "WriteLong b v = b @ WriteLong [] v"
  by (simp add: WriteLong_def)

lemma WriteBytes_append: "WriteBytes b v = b @ WriteBytes [] v"
  by (simp add: WriteBytes_def Let_def)

lemma WriteString_append: "WriteString b v = b @ WriteString [] v"
  by (simp only: WriteString_def) (rule WriteBytes_append)

lemma tl_padding_lt4: "tl_padding n h < 4"
  by (simp add: tl_padding_def)

lemma tl_padding_aligns: "(n + h + tl_padding n h) mod 4 = 0"
proof -
  have "m = 0 \<or> m = 1 \<or> m = 2 \<or> m = 3" if "m < 4" for m :: nat
    using that by linarith
  from this [of "(n + h) mod 4"] have "((n + h) mod 4 + tl_padding n h) mod 4 = 0"
    by (auto simp: tl_padding_def)
  then show ?thesis by (simp add: mod_add_left_eq)
qed

text \<open>Every TL string occupies a whole number of 32-bit words.\<close>

lemma WriteBytes_length:
  "length (WriteBytes [] v) =
     (if length v \<le> 253 then 1 + length v + tl_padding (length v) 1
      else 4 + length v + tl_padding (length v) 4)"
  by (simp add: WriteBytes_def Let_def)

lemma le_bytes_word_of_nat_3:
  "n < 2 ^ 24 \<Longrightarrow> le_bytes 3 (word_of_nat n :: u32) =
     [word_of_nat n, word_of_nat (n div 2 ^ 8), word_of_nat (n div 2 ^ 16)]"
proof -
  assume n: "n < 2 ^ 24"
  have ucast: "ucast (word_of_nat m :: u32) = (word_of_nat m :: u8)" if "m < 2 ^ 32" for m
    using that by (simp add: unsigned_of_nat take_bit_nat_eq_self)
  have drop: "drop_bit 8 (word_of_nat m :: u32) = word_of_nat (m div 2 ^ 8)" if "m < 2 ^ 32" for m
    using that
    by (simp add: word_unat_eq_iff unsigned_drop_bit_eq unsigned_of_nat take_bit_nat_eq_self
        drop_bit_eq_div unat_div)
  from n show ?thesis
    by (simp add: numeral_3_eq_3 ucast drop div_mult2_eq [symmetric])
qed

lemma len24_encode:
  "n < 2 ^ 24 \<Longrightarrow>
   len24 [word_of_nat n, word_of_nat (n div 2 ^ 8), word_of_nat (n div 2 ^ 16)] = n"
  unfolding len24_def
  by (subst le_bytes_word_of_nat_3 [symmetric], assumption)
    (simp add: le_word_le_bytes unsigned_take_bit_eq unsigned_of_nat take_bit_nat_eq_self)

end
