(* ===== verification/TL_Reader.thy ===== *)
theory TL_Reader
  imports TL_Primitives
begin

text \<open>
  The bounds-checked cursor of \<^verbatim>\<open>src/tg/reader.go\<close>. A reader is the buffer and the offset; every
  method returns its result or error together with the reader it leaves behind, because a failing
  method may already have moved the offset. \<^verbatim>\<open>ReadBytes\<close> and \<^verbatim>\<open>ReadString\<close> add the padding to the
  offset without a check, so the offset can stand past the end of the buffer.
\<close>

section \<open>The cursor\<close>

record reader =
  rd_b :: bytes
  rd_off :: nat

type_synonym 'a rd = "reader \<Rightarrow> (tl_error + 'a) \<times> reader"

definition NewReader :: "bytes \<Rightarrow> reader" where
  "NewReader data = \<lparr>rd_b = data, rd_off = 0\<rparr>"

definition Len :: "reader \<Rightarrow> int" where
  "Len r = int (length (rd_b r)) - int (rd_off r)"

text \<open>The sequencing \<^verbatim>\<open>v, err := f(r); if err != nil { return err }\<close> and a guard that returns early.\<close>

definition rd_return :: "'a \<Rightarrow> 'a rd" where
  "rd_return x r = (Inr x, r)"

definition rd_fail :: "tl_error \<Rightarrow> 'a rd" where
  "rd_fail e r = (Inl e, r)"

definition rd_bind :: "'a rd \<Rightarrow> ('a \<Rightarrow> 'b rd) \<Rightarrow> 'b rd" where
  "rd_bind m f r = (case m r of (Inl e, r') \<Rightarrow> (Inl e, r') | (Inr x, r') \<Rightarrow> f x r')"

definition rd_check :: "tl_error option \<Rightarrow> 'a rd \<Rightarrow> 'a rd" where
  "rd_check c m = (case c of Some e \<Rightarrow> rd_fail e | None \<Rightarrow> m)"

definition ReadUint32 :: "u32 rd" where
  "ReadUint32 r =
     (if rd_off r + 4 > length (rd_b r) then (Inl ErrUnexpectedEOF, r)
      else (Inr (le_word (go_slice (rd_b r) (rd_off r) (rd_off r + 4))), r\<lparr>rd_off := rd_off r + 4\<rparr>))"

definition ReadInt32 :: "u32 rd" where
  "ReadInt32 r = ReadUint32 r"

definition ReadInt64 :: "i64 rd" where
  "ReadInt64 r =
     (if rd_off r + 8 > length (rd_b r) then (Inl ErrUnexpectedEOF, r)
      else (Inr (le_word (go_slice (rd_b r) (rd_off r) (rd_off r + 8))), r\<lparr>rd_off := rd_off r + 8\<rparr>))"

definition ReadFloat64 :: "i64 rd" where
  "ReadFloat64 r =
     (if rd_off r + 8 > length (rd_b r) then (Inl ErrUnexpectedEOF, r)
      else (Inr (le_word (go_slice (rd_b r) (rd_off r) (rd_off r + 8))), r\<lparr>rd_off := rd_off r + 8\<rparr>))"

definition ReadInt128 :: "bytes rd" where
  "ReadInt128 r =
     (if rd_off r + 16 > length (rd_b r) then (Inl ErrUnexpectedEOF, r)
      else (Inr (go_slice (rd_b r) (rd_off r) (rd_off r + 16)), r\<lparr>rd_off := rd_off r + 16\<rparr>))"

definition ReadInt256 :: "bytes rd" where
  "ReadInt256 r =
     (if rd_off r + 32 > length (rd_b r) then (Inl ErrUnexpectedEOF, r)
      else (Inr (go_slice (rd_b r) (rd_off r) (rd_off r + 32)), r\<lparr>rd_off := rd_off r + 32\<rparr>))"

definition ReadBool :: "bool rd" where
  "ReadBool = rd_bind ReadUint32 (\<lambda>cid. rd_return (cid = BoolTrueID))"

text \<open>\<^verbatim>\<open>ReadRawBytes\<close> aliases the buffer and \<^verbatim>\<open>ReadRawBytesCopy\<close> copies it; on values they agree.\<close>

definition ReadRawBytes :: "nat \<Rightarrow> bytes rd" where
  "ReadRawBytes n r =
     (if rd_off r + n > length (rd_b r) then (Inl ErrUnexpectedEOF, r)
      else (Inr (go_slice (rd_b r) (rd_off r) (rd_off r + n)), r\<lparr>rd_off := rd_off r + n\<rparr>))"

definition ReadRawBytesCopy :: "nat \<Rightarrow> bytes rd" where
  "ReadRawBytesCopy n r =
     (if rd_off r + n > length (rd_b r) then (Inl ErrUnexpectedEOF, r)
      else (Inr (go_slice (rd_b r) (rd_off r) (rd_off r + n)), r\<lparr>rd_off := rd_off r + n\<rparr>))"

text \<open>The data part of \<^verbatim>\<open>ReadBytes\<close>, once the length is known.\<close>

definition read_bytes_data :: "nat \<Rightarrow> nat \<Rightarrow> bytes rd" where
  "read_bytes_data len headerLen r =
     (if len > 0 \<and> rd_off r + len > length (rd_b r) then (Inl ErrUnexpectedEOF, r)
      else (Inr (go_slice (rd_b r) (rd_off r) (rd_off r + len)),
            r\<lparr>rd_off := rd_off r + len + tl_padding len headerLen\<rparr>))"

definition ReadBytes :: "bytes rd" where
  "ReadBytes r =
     (if rd_off r \<ge> length (rd_b r) then (Inl ErrUnexpectedEOF, r)
      else
        let first = unat (rd_b r ! rd_off r);
            r1 = r\<lparr>rd_off := rd_off r + 1\<rparr>
        in if first > 253 then
             (if rd_off r1 + 3 > length (rd_b r) then (Inl ErrUnexpectedEOF, r1)
              else read_bytes_data (len24 (go_slice (rd_b r) (rd_off r1) (rd_off r1 + 3))) 4
                     (r1\<lparr>rd_off := rd_off r1 + 3\<rparr>))
           else read_bytes_data first 1 r1)"

text \<open>\<^verbatim>\<open>ReadString\<close> repeats the body of \<^verbatim>\<open>ReadBytes\<close> and converts to a string.\<close>

definition ReadString :: "bytes rd" where
  "ReadString r =
     (if rd_off r \<ge> length (rd_b r) then (Inl ErrUnexpectedEOF, r)
      else
        let first = unat (rd_b r ! rd_off r);
            r1 = r\<lparr>rd_off := rd_off r + 1\<rparr>
        in if first > 253 then
             (if rd_off r1 + 3 > length (rd_b r) then (Inl ErrUnexpectedEOF, r1)
              else read_bytes_data (len24 (go_slice (rd_b r) (rd_off r1) (rd_off r1 + 3))) 4
                     (r1\<lparr>rd_off := rd_off r1 + 3\<rparr>))
           else read_bytes_data first 1 r1)"

text \<open>The element loop of the vector readers.\<close>

primrec read_items :: "'a rd \<Rightarrow> nat \<Rightarrow> 'a list rd" where
  "read_items rd 0 = rd_return []"
| "read_items rd (Suc n) =
     rd_bind rd (\<lambda>x. rd_bind (read_items rd n) (\<lambda>xs. rd_return (x # xs)))"

text \<open>\<open>esz\<close> is the byte size the reader checks the count against before it allocates:
  4 for \<^verbatim>\<open>ReadVectorInt\<close>, 8 for \<^verbatim>\<open>ReadVectorLong\<close>, no check (0) for strings and bytes.\<close>

definition check_vector_room :: "nat \<Rightarrow> u32 \<Rightarrow> reader \<Rightarrow> tl_error option" where
  "check_vector_room esz count r =
     (if esz > 0 \<and> int (unat count * esz) > Len r then Some ErrUnexpectedEOF else None)"

text \<open>The four vector readers have one body.\<close>

definition read_vector :: "nat \<Rightarrow> 'a rd \<Rightarrow> 'a list rd" where
  "read_vector esz rd =
     rd_bind ReadUint32 (\<lambda>hdr. rd_check (CheckVectorConstructor hdr)
       (rd_bind ReadUint32 (\<lambda>count. rd_check (CheckVectorCount count)
         (\<lambda>r. rd_check (check_vector_room esz count r) (read_items rd (unat count)) r))))"

definition ReadVectorInt :: "u32 list rd" where
  "ReadVectorInt = read_vector 4 ReadInt32"

definition ReadVectorLong :: "i64 list rd" where
  "ReadVectorLong = read_vector 8 ReadInt64"

definition ReadVectorString :: "bytes list rd" where
  "ReadVectorString = read_vector 0 ReadString"

definition ReadVectorBytes :: "bytes list rd" where
  "ReadVectorBytes = read_vector 0 ReadBytes"

lemmas rd_combinators = rd_bind_def rd_return_def rd_fail_def rd_check_def

lemmas fixed_readers =
  ReadUint32_def ReadInt32_def ReadInt64_def ReadFloat64_def ReadInt128_def ReadInt256_def
  ReadRawBytes_def ReadRawBytesCopy_def

section \<open>Monad laws and frame facts\<close>

lemma rd_bind_return [simp]: "rd_bind (rd_return x) f = f x"
  by (simp add: fun_eq_iff rd_combinators)

lemma rd_bind_fail [simp]: "rd_bind (rd_fail e) f = rd_fail e"
  by (simp add: fun_eq_iff rd_combinators)

lemma rd_bind_ok: "m r = (Inr x, r') \<Longrightarrow> rd_bind m f r = f x r'"
  by (simp add: rd_bind_def)

lemma rd_bind_err: "m r = (Inl e, r') \<Longrightarrow> rd_bind m f r = (Inl e, r')"
  by (simp add: rd_bind_def)

text \<open>
  A reader method is well behaved when it leaves the buffer alone, never moves the offset back and
  keeps it at most three bytes (the unchecked padding) past the end.
\<close>

definition rd_safe :: "'a rd \<Rightarrow> bool" where
  "rd_safe m \<longleftrightarrow> (\<forall>r. rd_b (snd (m r)) = rd_b r \<and> rd_off r \<le> rd_off (snd (m r)) \<and>
     (rd_off r \<le> length (rd_b r) + 3 \<longrightarrow> rd_off (snd (m r)) \<le> length (rd_b r) + 3))"

lemma rd_safeD:
  assumes "rd_safe m" "m r = (res, r')"
  shows "rd_b r' = rd_b r" "rd_off r \<le> rd_off r'"
    "rd_off r \<le> length (rd_b r) + 3 \<Longrightarrow> rd_off r' \<le> length (rd_b r) + 3"
  using assms unfolding rd_safe_def by (metis snd_conv)+

lemma rd_safe_return [inv_intros]: "rd_safe (rd_return x)"
  by (simp add: rd_safe_def rd_combinators)

lemma rd_safe_fail [inv_intros]: "rd_safe (rd_fail e)"
  by (simp add: rd_safe_def rd_combinators)

lemma rd_safe_bind [inv_intros]:
  assumes m: "rd_safe m" and f: "\<And>x. rd_safe (f x)"
  shows "rd_safe (rd_bind m f)"
  unfolding rd_safe_def
proof
  fix r
  obtain res r1 where mr: "m r = (res, r1)" by force
  note 1 = rd_safeD [OF m mr]
  show "rd_b (snd (rd_bind m f r)) = rd_b r \<and> rd_off r \<le> rd_off (snd (rd_bind m f r)) \<and>
     (rd_off r \<le> length (rd_b r) + 3 \<longrightarrow> rd_off (snd (rd_bind m f r)) \<le> length (rd_b r) + 3)"
  proof (cases res)
    case (Inl e)
    with mr 1 show ?thesis by (simp add: rd_bind_def)
  next
    case (Inr x)
    obtain res2 r2 where fx: "f x r1 = (res2, r2)" by force
    from mr Inr fx 1 rd_safeD [OF f fx] show ?thesis by (auto simp: rd_bind_def)
  qed
qed

lemma rd_safe_check [inv_intros]: "rd_safe m \<Longrightarrow> rd_safe (rd_check c m)"
  by (cases c) (simp_all add: rd_check_def rd_safe_fail)

lemma rd_safe_check_state [inv_intros]:
  "rd_safe m \<Longrightarrow> rd_safe (\<lambda>r. rd_check (c r) m r)"
  unfolding rd_safe_def by (simp add: rd_check_def rd_fail_def split: option.split)

lemma rd_safe_fixed [inv_intros]:
  "rd_safe ReadUint32" "rd_safe ReadInt32" "rd_safe ReadInt64" "rd_safe ReadFloat64"
  "rd_safe ReadInt128" "rd_safe ReadInt256" "rd_safe (ReadRawBytes n)"
  "rd_safe (ReadRawBytesCopy n)"
  by (simp_all add: rd_safe_def fixed_readers)

lemma read_bytes_data_frame:
  assumes "rd_off r \<le> length (rd_b r)" "read_bytes_data n h r = (res, r')"
  shows "rd_b r' = rd_b r \<and> rd_off r \<le> rd_off r' \<and> rd_off r' \<le> length (rd_b r) + 3"
  using assms tl_padding_lt4 [of n h]
  by (cases "n = 0") (auto simp: read_bytes_data_def split: if_splits)

lemma ReadString_eq_ReadBytes: "ReadString = ReadBytes"
  by (simp add: fun_eq_iff ReadString_def ReadBytes_def)

lemma ReadBytes_frame:
  assumes "ReadBytes r = (res, r')"
  shows "rd_b r' = rd_b r \<and> rd_off r \<le> rd_off r' \<and>
    (rd_off r \<le> length (rd_b r) + 3 \<longrightarrow> rd_off r' \<le> length (rd_b r) + 3)"
proof (cases "rd_off r \<ge> length (rd_b r)")
  case True
  with assms show ?thesis by (simp add: ReadBytes_def)
next
  case False
  let ?r1 = "r\<lparr>rd_off := rd_off r + 1\<rparr>"
  consider (short) "\<not> unat (rd_b r ! rd_off r) > 253"
    | (eof) "unat (rd_b r ! rd_off r) > 253" "rd_off r + 4 > length (rd_b r)"
    | (long) "unat (rd_b r ! rd_off r) > 253" "rd_off r + 4 \<le> length (rd_b r)"
    by linarith
  then show ?thesis
  proof cases
    case short
    with assms False have "read_bytes_data (unat (rd_b r ! rd_off r)) 1 ?r1 = (res, r')"
      by (simp add: ReadBytes_def Let_def)
    from read_bytes_data_frame [OF _ this] False show ?thesis by auto
  next
    case eof
    with assms False show ?thesis by (auto simp: ReadBytes_def Let_def split: if_splits)
  next
    case long
    let ?r2 = "r\<lparr>rd_off := rd_off r + 4\<rparr>"
    from long assms False obtain n where "read_bytes_data n 4 ?r2 = (res, r')"
      by (auto simp: ReadBytes_def Let_def add.commute split: if_splits)
    from read_bytes_data_frame [OF _ this] long show ?thesis by auto
  qed
qed

lemma rd_safe_ReadBytes [inv_intros]: "rd_safe ReadBytes" "rd_safe ReadString"
proof -
  show 1: "rd_safe ReadBytes"
    unfolding rd_safe_def by (metis ReadBytes_frame prod.collapse)
  then show "rd_safe ReadString" by (simp only: ReadString_eq_ReadBytes)
qed

lemma rd_safe_read_items [inv_intros]: "rd_safe rd \<Longrightarrow> rd_safe (read_items rd n)"
  by (induction n) (simp_all add: inv_intros)

lemma rd_safe_read_vector [inv_intros]: "rd_safe rd \<Longrightarrow> rd_safe (read_vector esz rd)"
  unfolding read_vector_def by (intro inv_intros)

section \<open>Codecs: what is written is read back\<close>

text \<open>A reader standing after \<open>pre\<close>, with \<open>rest\<close> still to come.\<close>

definition rd_at :: "bytes \<Rightarrow> bytes \<Rightarrow> reader" where
  "rd_at pre rest = \<lparr>rd_b = pre @ rest, rd_off = length pre\<rparr>"

lemma NewReader_rd_at: "NewReader data = rd_at [] data"
  by (simp add: NewReader_def rd_at_def)

lemma rd_at_step:
  "rd_at pre (ys @ rest) = \<lparr>rd_b = pre @ ys @ rest, rd_off = length pre\<rparr>"
  "rd_at (pre @ ys) rest = \<lparr>rd_b = pre @ ys @ rest, rd_off = length pre + length ys\<rparr>"
  by (simp_all add: rd_at_def)

lemma ReadUint32_WriteInt:
  "ReadUint32 (rd_at pre (WriteInt [] v @ suf)) = (Inr v, rd_at (pre @ WriteInt [] v) suf)"
  by (simp add: ReadUint32_def rd_at_def WriteInt_def codec_simps)

lemma ReadInt64_WriteLong:
  "ReadInt64 (rd_at pre (WriteLong [] v @ suf)) = (Inr v, rd_at (pre @ WriteLong [] v) suf)"
  by (simp add: ReadInt64_def rd_at_def WriteLong_def codec_simps)

text \<open>
  The contract between a writer and the reader method that parses it. Vectors are a client of the
  contract: their round trip is proved once, here, for every element codec.
\<close>

locale tl_codec =
  fixes wr :: "bytes \<Rightarrow> 'a \<Rightarrow> bytes"
    and rd :: "'a rd"
    and ok :: "'a \<Rightarrow> bool"
  assumes wr_append: "wr b x = b @ wr [] x"
    and rd_wr: "ok x \<Longrightarrow> rd (rd_at pre (wr [] x @ suf)) = (Inr x, rd_at (pre @ wr [] x) suf)"
begin

lemma write_items_append: "write_items wr b xs = b @ write_items wr [] xs"
proof (induction xs arbitrary: b)
  case (Cons x xs)
  have "write_items wr b (x # xs) = write_items wr (b @ wr [] x) xs"
    by (simp add: wr_append [of b])
  also have "\<dots> = b @ wr [] x @ write_items wr [] xs"
    by (subst Cons.IH) simp
  also have "\<dots> = b @ write_items wr [] (x # xs)"
    by simp (metis Cons.IH)
  finally show ?case .
qed simp

lemma write_items_Cons: "write_items wr [] (x # xs) = wr [] x @ write_items wr [] xs"
  by simp (metis write_items_append)

lemma read_items_write_items:
  "\<forall>x\<in>set xs. ok x \<Longrightarrow>
   read_items rd (length xs) (rd_at pre (write_items wr [] xs @ suf)) =
     (Inr xs, rd_at (pre @ write_items wr [] xs) suf)"
proof (induction xs arbitrary: pre)
  case (Cons x xs)
  from Cons.prems have "rd (rd_at pre (wr [] x @ write_items wr [] xs @ suf)) =
      (Inr x, rd_at (pre @ wr [] x) (write_items wr [] xs @ suf))"
    by (simp add: rd_wr)
  moreover from Cons.prems have "read_items rd (length xs)
      (rd_at (pre @ wr [] x) (write_items wr [] xs @ suf)) =
      (Inr xs, rd_at ((pre @ wr [] x) @ write_items wr [] xs) suf)"
    by (intro Cons.IH) simp
  ultimately show ?case
    unfolding write_items_Cons by (simp add: rd_bind_ok rd_return_def)
qed (simp add: rd_return_def rd_at_def)

end

text \<open>The fixed-size part of the contract that the allocation guard of the vector readers needs.\<close>

locale tl_vector_codec = tl_codec +
  fixes esz :: nat
  assumes wr_size: "esz \<le> length (wr [] x)"
begin

lemma write_items_size: "length xs * esz \<le> length (write_items wr [] xs)"
proof (induction xs)
  case (Cons x xs)
  with wr_size [of x] show ?case unfolding write_items_Cons by simp
qed simp

lemma write_vector_split:
  "write_vector wr b xs =
     b @ WriteInt [] VectorTypeID @ WriteInt [] (word_of_nat (length xs)) @ write_items wr [] xs"
  unfolding write_vector_def
  by (subst write_items_append) (simp add: WriteInt_def)

lemma read_vector_write_vector:
  assumes ok: "\<forall>x\<in>set xs. ok x" and len: "length xs \<le> 100000"
  shows "read_vector esz rd (rd_at pre (write_vector wr [] xs @ suf)) =
    (Inr xs, rd_at (pre @ write_vector wr [] xs) suf)"
proof -
  let ?n = "word_of_nat (length xs) :: u32"
  have n: "unat ?n = length xs"
    using len by (simp add: unsigned_of_nat take_bit_nat_eq_self)
  have cc: "CheckVectorConstructor VectorTypeID = None"
    by (simp add: CheckVectorConstructor_def)
  have cn: "CheckVectorCount ?n = None"
    using len n by (simp add: CheckVectorCount_def maxVectorElements_def word_less_nat_alt not_less)
  let ?items = "write_items wr [] xs"
  let ?r = "rd_at (pre @ WriteInt [] VectorTypeID @ WriteInt [] ?n) (?items @ suf)"
  have room: "check_vector_room esz ?n ?r = None"
    using write_items_size [of xs]
    by (simp add: check_vector_room_def Len_def rd_at_def n of_nat_mult [symmetric]
        del: of_nat_mult)
  show ?thesis
    unfolding read_vector_def write_vector_split
    using read_items_write_items [OF ok, of "pre @ WriteInt [] VectorTypeID @ WriteInt [] ?n" suf]
    by (simp add: rd_bind_ok [of ReadUint32, OF ReadUint32_WriteInt] rd_check_def cc cn n)
      (simp add: room n)
qed

end

lemma ReadBytes_short:
  assumes "length v \<le> 253"
  shows "ReadBytes (rd_at pre (WriteBytes [] v @ suf)) = (Inr v, rd_at (pre @ WriteBytes [] v) suf)"
proof -
  have "unat (word_of_nat (length v) :: u8) = length v"
    using assms by (simp add: unsigned_of_nat take_bit_nat_eq_self)
  with assms show ?thesis
    by (cases "v = []")
      (simp_all add: ReadBytes_def read_bytes_data_def rd_at_def WriteBytes_def go_slice_def
        nth_append Let_def)
qed

lemma ReadBytes_long:
  assumes "253 < length v" "length v < 2 ^ 24"
  shows "ReadBytes (rd_at pre (WriteBytes [] v @ suf)) = (Inr v, rd_at (pre @ WriteBytes [] v) suf)"
proof -
  let ?hdr = "[word_of_nat (length v), word_of_nat (length v div 2 ^ 8),
    word_of_nat (length v div 2 ^ 16)] :: bytes"
  have hdr: "len24 ?hdr = length v"
    by (rule len24_encode) (rule assms)
  show ?thesis
    using assms hdr
    by (cases v)
      (simp_all add: ReadBytes_def read_bytes_data_def rd_at_def WriteBytes_def go_slice_def
        nth_append Let_def numeral_3_eq_3)
qed

lemma ReadBytes_WriteBytes:
  "length v < 2 ^ 24 \<Longrightarrow>
   ReadBytes (rd_at pre (WriteBytes [] v @ suf)) = (Inr v, rd_at (pre @ WriteBytes [] v) suf)"
  by (cases "length v \<le> 253") (simp_all add: ReadBytes_short ReadBytes_long)

abbreviation tl_string_ok :: "bytes \<Rightarrow> bool" where
  "tl_string_ok v \<equiv> length v < 2 ^ 24"

interpretation int_codec: tl_vector_codec WriteInt ReadInt32 "\<lambda>_. True" 4
  by unfold_locales
    (simp_all add: ReadInt32_def ReadUint32_WriteInt, simp_all add: WriteInt_def)

interpretation long_codec: tl_vector_codec WriteLong ReadInt64 "\<lambda>_. True" 8
  by unfold_locales (simp_all add: ReadInt64_WriteLong, simp_all add: WriteLong_def)

interpretation bytes_codec: tl_vector_codec WriteBytes ReadBytes tl_string_ok 0
  by unfold_locales (auto intro: WriteBytes_append ReadBytes_WriteBytes)

interpretation string_codec: tl_vector_codec WriteString ReadString tl_string_ok 0
  by unfold_locales
    (auto intro: WriteString_append WriteBytes_append
      simp: ReadString_eq_ReadBytes WriteString_def ReadBytes_WriteBytes)

section \<open>The error-free readers agree with the checked ones\<close>

lemma read_bytes_data_io:
  assumes "read_bytes_data n h \<lparr>rd_b = s, rd_off = k\<rparr> = (Inr v, r')"
  shows "ReadFull0 n (drop k s) = (v, drop (k + n) s)" "rd_off r' = k + n + tl_padding n h"
  using assms
  by (cases "n = 0"; auto simp: read_bytes_data_def ReadFull0_def go_slice_def add.commute
      split: if_splits)+

lemma io_ReadBytes_short:
  assumes "s \<noteq> []" "unat (hd s) \<le> 253"
  shows "io_ReadBytes s = (let (data, s3) = ReadFull0 (unat (hd s)) (drop 1 s)
    in (data, drop (tl_padding (unat (hd s)) 1) s3))"
  using assms by (cases s) (simp_all add: io_ReadBytes_def ReadFull0_def [of "Suc 0"] Let_def)

lemma io_ReadBytes_long:
  assumes "4 \<le> length s" "unat (hd s) > 253"
  shows "io_ReadBytes s = (let n = len24 (go_slice s 1 4); (data, s3) = ReadFull0 n (drop 4 s)
    in (data, drop (tl_padding n 4) s3))"
  using assms
  by (cases s)
    (simp_all add: io_ReadBytes_def ReadFull0_def [of "Suc 0"] ReadFull0_def [of 3] Let_def
      go_slice_def)

lemma ReadBytes_io:
  assumes "ReadBytes (NewReader s) = (Inr v, r')"
  shows "io_ReadBytes s = (v, drop (rd_off r') s)"
proof -
  from assms have ne: "s \<noteq> []"
    by (auto simp: ReadBytes_def NewReader_def)
  show ?thesis
  proof (cases "unat (hd s) \<le> 253")
    case True
    with assms ne have "read_bytes_data (unat (hd s)) 1 \<lparr>rd_b = s, rd_off = 1\<rparr> = (Inr v, r')"
      by (auto simp: ReadBytes_def NewReader_def Let_def hd_conv_nth split: if_splits)
    from read_bytes_data_io [OF this] show ?thesis
      by (simp add: io_ReadBytes_short [OF ne True] add.commute)
  next
    case False
    with assms ne have len: "4 \<le> length s"
      and "read_bytes_data (len24 (go_slice s 1 4)) 4 \<lparr>rd_b = s, rd_off = 4\<rparr> = (Inr v, r')"
      by (auto simp: ReadBytes_def NewReader_def Let_def hd_conv_nth split: if_splits)
    from read_bytes_data_io [OF this(2)] False show ?thesis
      by (simp add: io_ReadBytes_long [OF len] Let_def add.commute)
  qed
qed

section \<open>Properties\<close>

text \<open>Any byte string shorter than 2^24 that WriteBytes appends to
  a buffer is returned by ReadBytes, wherever in a buffer it stands, and the cursor is left exactly
  behind its padding.\<close>

theorem tl_bytes_roundtrip:
  "length v < 2 ^ 24 \<Longrightarrow>
   ReadBytes (rd_at pre (WriteBytes [] v @ suf)) = (Inr v, rd_at (pre @ WriteBytes [] v) suf)"
  by (rule ReadBytes_WriteBytes)

theorem tl_bytes_roundtrip_witness:
  "length [1, 2, 3 :: u8] < 2 ^ 24 \<and>
   ReadBytes (rd_at [9] (WriteBytes [] [1, 2, 3] @ [7])) =
     (Inr [1, 2, 3], rd_at ([9] @ WriteBytes [] [1, 2, 3]) [7])"
  using tl_bytes_roundtrip [of "[1, 2, 3]" "[9]" "[7]"] by simp

text \<open>A vector of at most 100000 ints, longs, strings or byte
  strings (strings shorter than 2^24 bytes) that a WriteVector function encodes is read back by
  the matching ReadVector method, which passes its constructor, count and allocation guards and
  consumes exactly the encoding.\<close>

theorem tl_vector_roundtrip:
  "(length is \<le> 100000 \<longrightarrow> ReadVectorInt (rd_at pre (WriteVectorInt [] is @ suf)) =
      (Inr is, rd_at (pre @ WriteVectorInt [] is) suf)) \<and>
   (length ls \<le> 100000 \<longrightarrow> ReadVectorLong (rd_at pre (WriteVectorLong [] ls @ suf)) =
      (Inr ls, rd_at (pre @ WriteVectorLong [] ls) suf)) \<and>
   (length ss \<le> 100000 \<longrightarrow> (\<forall>x\<in>set ss. length x < 2 ^ 24) \<longrightarrow>
      ReadVectorString (rd_at pre (WriteVectorString [] ss @ suf)) =
      (Inr ss, rd_at (pre @ WriteVectorString [] ss) suf) \<and>
      ReadVectorBytes (rd_at pre (WriteVectorBytes [] ss @ suf)) =
      (Inr ss, rd_at (pre @ WriteVectorBytes [] ss) suf))"
  unfolding ReadVectorInt_def WriteVectorInt_def ReadVectorLong_def WriteVectorLong_def
    ReadVectorString_def WriteVectorString_def ReadVectorBytes_def WriteVectorBytes_def
  using int_codec.read_vector_write_vector [of "is" pre suf]
    long_codec.read_vector_write_vector [of ls pre suf]
    string_codec.read_vector_write_vector [of ss pre suf]
    bytes_codec.read_vector_write_vector [of ss pre suf]
  by simp

theorem tl_vector_roundtrip_witness:
  "ReadVectorInt (rd_at [] (WriteVectorInt [] [5, 6] @ [])) =
     (Inr [5, 6], rd_at ([] @ WriteVectorInt [] [5, 6]) []) \<and>
   ReadVectorLong (rd_at [] (WriteVectorLong [] [7] @ [])) =
     (Inr [7], rd_at ([] @ WriteVectorLong [] [7]) []) \<and>
   ReadVectorString (rd_at [] (WriteVectorString [] [[1], [2, 3]] @ [])) =
     (Inr [[1], [2, 3]], rd_at ([] @ WriteVectorString [] [[1], [2, 3]]) []) \<and>
   ReadVectorBytes (rd_at [] (WriteVectorBytes [] [[1], [2, 3]] @ [])) =
     (Inr [[1], [2, 3]], rd_at ([] @ WriteVectorBytes [] [[1], [2, 3]]) [])"
  using tl_vector_roundtrip [of "[5, 6]" "[]" "[]" "[7]" "[[1], [2, 3]]"] by simp

text \<open>No Reader method, vectors included, changes the
  buffer or moves the offset backwards, and none pushes the offset more than three bytes (the
  unchecked string padding) past the end of the buffer.\<close>

theorem reader_methods_in_bounds:
  "rd_safe ReadUint32 \<and> rd_safe ReadInt32 \<and> rd_safe ReadInt64 \<and> rd_safe ReadFloat64 \<and>
   rd_safe ReadInt128 \<and> rd_safe ReadInt256 \<and> rd_safe ReadBool \<and> rd_safe (ReadRawBytes n) \<and>
   rd_safe (ReadRawBytesCopy n) \<and> rd_safe ReadBytes \<and> rd_safe ReadString \<and>
   rd_safe ReadVectorInt \<and> rd_safe ReadVectorLong \<and> rd_safe ReadVectorString \<and>
   rd_safe ReadVectorBytes"
  unfolding ReadBool_def ReadVectorInt_def ReadVectorLong_def ReadVectorString_def
    ReadVectorBytes_def
  by (intro conjI inv_intros)

text \<open>Whenever Reader.ReadBytes accepts a buffer, the
  error-dropping ReadBytes on an io.Reader over the same bytes returns the same string and stops at
  the same place.\<close>

theorem tl_bytes_readers_agree:
  "ReadBytes (NewReader s) = (Inr v, r') \<Longrightarrow> io_ReadBytes s = (v, drop (rd_off r') s)"
  by (rule ReadBytes_io)

theorem tl_bytes_readers_agree_witness:
  "ReadBytes (NewReader [2, 10, 11, 0, 99]) = (Inr [10, 11], \<lparr>rd_b = [2, 10, 11, 0, 99], rd_off = 4\<rparr>)
   \<and> io_ReadBytes [2, 10, 11, 0, 99] = ([10, 11], [99])"
proof -
  have "ReadBytes (NewReader [2, 10, 11, 0, 99]) =
      (Inr [10, 11], \<lparr>rd_b = [2, 10, 11, 0, 99], rd_off = 4\<rparr>)"
    by code_simp
  from this tl_bytes_readers_agree [OF this] show ?thesis by simp
qed

end
