(* ===== verification/TL_Object.thy ===== *)
theory TL_Object
  imports TL_Reader
begin

text \<open>
  Polymorphic TL objects: \<^verbatim>\<open>src/tg/tl.go\<close> (encoding, registry, ReadTLObject), \<^verbatim>\<open>GenericVector\<close> of
  \<^verbatim>\<open>src/tg/primitives.go\<close>, \<^verbatim>\<open>src/tg/message.go\<close>, \<^verbatim>\<open>src/tg/msg_container.go\<close> and \<^verbatim>\<open>src/tg/gzip.go\<close>.
  The decoders of the generated constructors (\<^verbatim>\<open>src/tg/*_gen.go\<close>) are a parameter \<open>reg\<close>, the
  third-party gzip codec is the pair of parameters \<open>gz\<close> and \<open>gun\<close>.
\<close>

section \<open>Objects\<close>

text \<open>A TLObject interface value: \<open>TLNil\<close> is the nil interface, \<open>Generated c p\<close> a value of a
  generated type with constructor \<open>c\<close> whose encoding after the constructor is \<open>p\<close>.\<close>

datatype tl_object =
    TLNil
  | TLBool bool
  | GenericVector "tl_object list"
  | MessageObj mtproto_message
  | MsgContainer "mtproto_message list"
  | GzipPacked tl_object
  | GzipPackedData bytes
  | Generated u32 bytes
and mtproto_message =
    MTProtoMessage (MsgID: i64) (SeqNo: u32) (Body: tl_object)

definition MTProtoMessageID :: u32 where
  "MTProtoMessageID = 0x5BB8E511"

definition MsgContainerID :: u32 where
  "MsgContainerID = 0x73F1F8DC"

definition GzipPackedID :: u32 where
  "GzipPackedID = 0x3072CFA1"

text \<open>\<^verbatim>\<open>ConstructorID()\<close>; calling it on the nil interface panics and is not modelled (\<open>None\<close>).\<close>

fun ConstructorID :: "tl_object \<Rightarrow> u32 option" where
  "ConstructorID TLNil = None"
| "ConstructorID (TLBool v) = Some (if v then BoolTrueID else BoolFalseID)"
| "ConstructorID (GenericVector _) = Some VectorTypeID"
| "ConstructorID (MessageObj _) = Some MTProtoMessageID"
| "ConstructorID (MsgContainer _) = Some MsgContainerID"
| "ConstructorID (GzipPacked _) = Some GzipPackedID"
| "ConstructorID (GzipPackedData _) = Some 0"
| "ConstructorID (Generated c _) = Some c"

section \<open>Encoding\<close>

text \<open>Encode of every type, behind the nil check of EncodeTLObject. The bytes are those appended to
  the buffer; on an error the callers drop the buffer.\<close>

fun EncodeTLObject :: "(bytes \<Rightarrow> bytes) \<Rightarrow> tl_object \<Rightarrow> tl_error + bytes"
  and encode_objs :: "(bytes \<Rightarrow> bytes) \<Rightarrow> tl_object list \<Rightarrow> tl_error + bytes"
  and EncodeMTProtoMessage :: "(bytes \<Rightarrow> bytes) \<Rightarrow> mtproto_message \<Rightarrow> tl_error + bytes"
  and encode_msgs :: "(bytes \<Rightarrow> bytes) \<Rightarrow> mtproto_message list \<Rightarrow> tl_error + bytes"
where
  "EncodeTLObject gz TLNil = Inl ErrNilTLObject"
| "EncodeTLObject gz (TLBool v) = Inr (WriteBool [] v)"
| "EncodeTLObject gz (GenericVector items) =
     (case encode_objs gz items of
        Inl e \<Rightarrow> Inl e
      | Inr b \<Rightarrow> Inr (WriteInt (WriteInt [] VectorTypeID) (word_of_nat (length items)) @ b))"
| "EncodeTLObject gz (MessageObj m) = EncodeMTProtoMessage gz m"
| "EncodeTLObject gz (MsgContainer msgs) =
     (case encode_msgs gz msgs of
        Inl e \<Rightarrow> Inl e
      | Inr b \<Rightarrow> Inr (WriteInt [] (word_of_nat (length msgs)) @ b))"
| "EncodeTLObject gz (GzipPacked d) =
     (case EncodeTLObject gz d of Inl e \<Rightarrow> Inl e | Inr b \<Rightarrow> Inr (WriteString [] (gz b)))"
| "EncodeTLObject gz (GzipPackedData raw) = Inr raw"
| "EncodeTLObject gz (Generated c p) = Inr (WriteInt [] c @ p)"
| "encode_objs gz [] = Inr []"
| "encode_objs gz (x # xs) =
     (case EncodeTLObject gz x of
        Inl e \<Rightarrow> Inl e
      | Inr b \<Rightarrow> (case encode_objs gz xs of Inl e \<Rightarrow> Inl e | Inr bs \<Rightarrow> Inr (b @ bs)))"
| "EncodeMTProtoMessage gz (MTProtoMessage msgID seqNo body) =
     (case EncodeTLObject gz body of
        Inl e \<Rightarrow> Inl e
      | Inr b \<Rightarrow> Inr (WriteInt (WriteInt (WriteLong [] msgID) seqNo) (word_of_nat (length b)) @ b))"
| "encode_msgs gz [] = Inr []"
| "encode_msgs gz (m # ms) =
     (case EncodeMTProtoMessage gz m of
        Inl e \<Rightarrow> Inl e
      | Inr b \<Rightarrow> (case encode_msgs gz ms of Inl e \<Rightarrow> Inl e | Inr bs \<Rightarrow> Inr (b @ bs)))"

section \<open>Gzip\<close>

text \<open>\<open>gun data\<close> is what the gzip reader does with \<open>data\<close>: \<open>None\<close> when the header is rejected
  (Reset fails), otherwise the bytes it yields and whether the stream then ends without an error.\<close>

type_synonym gunzip = "bytes \<Rightarrow> (bytes \<times> bool) option"

definition maxUncompressed :: nat where
  "maxUncompressed = 10 * 1024 * 1024"

definition gzipDecompress :: "gunzip \<Rightarrow> bytes \<Rightarrow> tl_error + bytes" where
  "gzipDecompress gun data =
     (case gun data of
        None \<Rightarrow> Inl ErrGzip
      | Some (out, clean) \<Rightarrow>
          (if length out > maxUncompressed then Inl ErrDecompressionBomb
           else if \<not> clean then Inl ErrGzip
           else Inr out))"

definition DecodeGzipPacked :: "gunzip \<Rightarrow> tl_object rd" where
  "DecodeGzipPacked gun =
     rd_bind ReadString (\<lambda>compressed.
       case gzipDecompress gun compressed of
         Inl e \<Rightarrow> rd_fail e
       | Inr raw \<Rightarrow> rd_return (GzipPacked (GzipPackedData raw)))"

definition readTLBytesView :: "bytes \<Rightarrow> tl_error + bytes" where
  "readTLBytesView data =
     (if length data = 0 then Inl ErrUnexpectedEOF
      else if unat (data ! 0) > 253 \<and> length data < 4 then Inl ErrUnexpectedEOF
      else
        let long = unat (data ! 0) > 253;
            headerLen = (if long then 4 else 1);
            len = (if long then len24 (go_slice data 1 4) else unat (data ! 0));
            end = headerLen + len
        in if end + tl_padding len headerLen > length data then Inl ErrUnexpectedEOF
           else Inr (go_slice data headerLen end))"

definition PeekGzipPackedConstructor :: "gunzip \<Rightarrow> bytes \<Rightarrow> tl_error + u32" where
  "PeekGzipPackedConstructor gun data =
     (case readTLBytesView data of
        Inl e \<Rightarrow> Inl e
      | Inr compressed \<Rightarrow>
          (case gun compressed of
             None \<Rightarrow> Inl ErrGzip
           | Some (out, clean) \<Rightarrow>
               (if length out < 4 then Inl ErrGzip else Inr (le_word (take 4 out)))))"

section \<open>Decoding\<close>

type_synonym registry = "u32 \<Rightarrow> tl_object rd option"

definition maxMessageBodyLen :: u32 where
  "maxMessageBodyLen = 2 ^ 24"

text \<open>The common head of DecodeMTProtoMessage and DecodeMTProtoMessageRaw.\<close>

definition decode_message_head :: "(i64 \<Rightarrow> u32 \<Rightarrow> u32 \<Rightarrow> 'a rd) \<Rightarrow> 'a rd" where
  "decode_message_head k =
     rd_bind ReadInt64 (\<lambda>msgID.
     rd_bind ReadUint32 (\<lambda>seqNo.
     rd_bind ReadUint32 (\<lambda>len.
       if len > maxMessageBodyLen then rd_fail (ErrMessageBodyTooLarge len)
       else k msgID seqNo len)))"

text \<open>\<open>sub\<close> is ReadTLObject, run on a fresh reader over the body bytes.\<close>

definition DecodeMTProtoMessage :: "tl_object rd \<Rightarrow> mtproto_message rd" where
  "DecodeMTProtoMessage sub =
     decode_message_head (\<lambda>msgID seqNo len.
       rd_bind (ReadRawBytes (unat len)) (\<lambda>bodyData r.
         case sub (NewReader bodyData) of
           (Inl e, _) \<Rightarrow> (Inl e, r)
         | (Inr obj, _) \<Rightarrow> (Inr (MTProtoMessage msgID seqNo obj), r)))"

record mtproto_message_raw =
  raw_MsgID :: i64
  raw_SeqNo :: u32
  raw_BodyRaw :: bytes

definition DecodeMTProtoMessageRaw :: "mtproto_message_raw rd" where
  "DecodeMTProtoMessageRaw =
     decode_message_head (\<lambda>msgID seqNo len.
       rd_bind (ReadRawBytesCopy (unat len)) (\<lambda>bodyData.
         rd_return \<lparr>raw_MsgID = msgID, raw_SeqNo = seqNo, raw_BodyRaw = bodyData\<rparr>))"

definition DecodeMsgContainer :: "tl_object rd \<Rightarrow> tl_object rd" where
  "DecodeMsgContainer sub =
     rd_bind ReadUint32 (\<lambda>count. rd_check (CheckVectorCount count)
       (rd_bind (read_items (DecodeMTProtoMessage sub) (unat count)) (\<lambda>msgs.
         rd_return (MsgContainer msgs))))"

text \<open>The vector constructor of the registry; ReadVectorObject additionally checks the count against
  the bytes left.\<close>

definition decode_generic_vector :: "tl_object rd \<Rightarrow> tl_object rd" where
  "decode_generic_vector sub =
     rd_bind ReadUint32 (\<lambda>count. rd_check (CheckVectorCount count)
       (rd_bind (read_items sub (unat count)) (\<lambda>items. rd_return (GenericVector items))))"

definition ReadVectorObject :: "tl_object rd \<Rightarrow> tl_object list rd" where
  "ReadVectorObject sub =
     rd_bind ReadUint32 (\<lambda>count. rd_check (CheckVectorCount count)
       (\<lambda>r. rd_check (check_vector_room 4 count r) (read_items sub (unat count)) r))"

text \<open>The registry entry of a constructor: the hand-written ones first, then the generated ones.\<close>

definition registry_decoder :: "registry \<Rightarrow> gunzip \<Rightarrow> tl_object rd \<Rightarrow> u32 \<Rightarrow> tl_object rd" where
  "registry_decoder reg gun sub cid =
     (if cid = BoolTrueID then rd_return (TLBool True)
      else if cid = BoolFalseID then rd_return (TLBool False)
      else if cid = VectorTypeID then decode_generic_vector sub
      else if cid = MTProtoMessageID then
        rd_bind (DecodeMTProtoMessage sub) (\<lambda>m. rd_return (MessageObj m))
      else if cid = MsgContainerID then DecodeMsgContainer sub
      else if cid = GzipPackedID then DecodeGzipPacked gun
      else (case reg cid of None \<Rightarrow> rd_fail (ErrUnknownConstructor cid) | Some dec \<Rightarrow> dec))"

text \<open>ReadTLObject recurses through the registry, to a depth the data decides: the first argument is
  fuel, and \<open>read_object_enough_fuel\<close> below shows how much is enough.\<close>

primrec ReadTLObject :: "nat \<Rightarrow> registry \<Rightarrow> gunzip \<Rightarrow> tl_object rd" where
  "ReadTLObject 0 reg gun = rd_fail ErrOutOfFuel"
| "ReadTLObject (Suc n) reg gun =
     rd_bind ReadUint32 (registry_decoder reg gun (ReadTLObject n reg gun))"

text \<open>\<^verbatim>\<open>(*GzipPacked).Decode\<close>.\<close>

definition GzipPacked_Decode :: "nat \<Rightarrow> registry \<Rightarrow> gunzip \<Rightarrow> tl_object \<Rightarrow> tl_error + tl_object" where
  "GzipPacked_Decode fuel reg gun g =
     (case g of
        GzipPacked (GzipPackedData raw) \<Rightarrow> fst (ReadTLObject fuel reg gun (NewReader raw))
      | _ \<Rightarrow> Inl (ErrUnknownConstructor GzipPackedID))"

section \<open>Safety and fuel\<close>

text \<open>What is assumed of the generated decoders: they are reader methods like the others, and the
  fuel error is the model's own, so they do not return it.\<close>

definition reg_ok :: "registry \<Rightarrow> bool" where
  "reg_ok reg \<longleftrightarrow>
     (\<forall>cid dec. reg cid = Some dec \<longrightarrow> rd_safe dec \<and> (\<forall>r. fst (dec r) \<noteq> Inl ErrOutOfFuel))"

lemma rd_safe_if [inv_intros]: "rd_safe a \<Longrightarrow> rd_safe b \<Longrightarrow> rd_safe (if c then a else b)"
  by simp

lemma rd_safe_message_head [inv_intros]:
  "(\<And>i q l. rd_safe (k i q l)) \<Longrightarrow> rd_safe (decode_message_head k)"
  unfolding decode_message_head_def by (intro inv_intros)

lemma rd_safe_sub:
  "rd_safe (\<lambda>r. case sub (NewReader d) of (Inl e, _) \<Rightarrow> (Inl e, r) | (Inr x, _) \<Rightarrow> (Inr (f x), r))"
  by (simp add: rd_safe_def split: prod.split sum.split)

lemma rd_safe_DecodeMTProtoMessage [inv_intros]: "rd_safe (DecodeMTProtoMessage sub)"
  unfolding DecodeMTProtoMessage_def by (intro inv_intros rd_safe_sub)

lemma rd_safe_DecodeMTProtoMessageRaw [inv_intros]: "rd_safe DecodeMTProtoMessageRaw"
  unfolding DecodeMTProtoMessageRaw_def by (intro inv_intros)

lemma rd_safe_DecodeMsgContainer [inv_intros]: "rd_safe (DecodeMsgContainer sub)"
  unfolding DecodeMsgContainer_def by (intro inv_intros)

lemma rd_safe_DecodeGzipPacked [inv_intros]: "rd_safe (DecodeGzipPacked gun)"
  unfolding DecodeGzipPacked_def
  by (intro inv_intros) (auto split: sum.split intro: inv_intros)

lemma rd_safe_decode_generic_vector [inv_intros]: "rd_safe sub \<Longrightarrow> rd_safe (decode_generic_vector sub)"
  unfolding decode_generic_vector_def by (intro inv_intros)

lemma rd_safe_registry_decoder:
  "reg_ok reg \<Longrightarrow> rd_safe sub \<Longrightarrow> rd_safe (registry_decoder reg gun sub cid)"
  unfolding registry_decoder_def
  by (intro inv_intros) (auto simp: reg_ok_def split: option.split intro: inv_intros)

lemma rd_safe_ReadTLObject: "reg_ok reg \<Longrightarrow> rd_safe (ReadTLObject n reg gun)"
  by (induction n) (auto intro!: inv_intros rd_safe_registry_decoder)

text \<open>The bytes a reader still has, and decoders that do not run out of fuel on fewer than \<open>k\<close>.\<close>

definition rd_left :: "reader \<Rightarrow> nat" where
  "rd_left r = length (rd_b r) - rd_off r"

definition fuelled :: "nat \<Rightarrow> 'a rd \<Rightarrow> bool" where
  "fuelled k m \<longleftrightarrow> (\<forall>r. rd_left r < k \<longrightarrow> fst (m r) \<noteq> Inl ErrOutOfFuel)"

named_theorems fuel_intros

lemma fuelledD: "fuelled k m \<Longrightarrow> rd_left r < k \<Longrightarrow> m r \<noteq> (Inl ErrOutOfFuel, r')"
  by (auto simp: fuelled_def)

lemma fuelled_return [fuel_intros]: "fuelled k (rd_return x)"
  by (simp add: fuelled_def rd_combinators)

lemma fuelled_fail [fuel_intros]: "e \<noteq> ErrOutOfFuel \<Longrightarrow> fuelled k (rd_fail e)"
  by (simp add: fuelled_def rd_combinators)

lemma fuelled_if [fuel_intros]: "fuelled k a \<Longrightarrow> fuelled k b \<Longrightarrow> fuelled k (if c then a else b)"
  by simp

lemma fuelled_fixed [fuel_intros]:
  "fuelled k ReadUint32" "fuelled k ReadInt64" "fuelled k (ReadRawBytes n)"
  "fuelled k (ReadRawBytesCopy n)"
  by (simp_all add: fuelled_def fixed_readers)

lemma fuelled_ReadBytes [fuel_intros]: "fuelled k ReadString"
  by (auto simp: fuelled_def ReadString_def read_bytes_data_def Let_def)

lemma fuelled_check [fuel_intros]:
  "c \<noteq> Some ErrOutOfFuel \<Longrightarrow> fuelled k m \<Longrightarrow> fuelled k (rd_check c m)"
  by (cases c) (auto simp: fuelled_def rd_check_def rd_fail_def)

lemma rd_left_mono: "rd_safe m \<Longrightarrow> m r = (res, r') \<Longrightarrow> rd_left r' \<le> rd_left r"
  unfolding rd_left_def by (simp add: rd_safeD diff_le_mono2)

lemma fuelled_bind [fuel_intros]:
  assumes "rd_safe m" "fuelled k m" "\<And>x. fuelled k (f x)"
  shows "fuelled k (rd_bind m f)"
  unfolding fuelled_def
proof (intro allI impI)
  fix r assume k: "rd_left r < k"
  obtain res r' where m: "m r = (res, r')" by force
  have "fuelled k (f x)" for x by fact
  with m k assms(2) rd_left_mono [OF assms(1) m] show "fst (rd_bind m f r) \<noteq> Inl ErrOutOfFuel"
    by (cases res) (auto simp: rd_bind_def fuelled_def)
qed

lemma fuelled_items [fuel_intros]:
  "rd_safe m \<Longrightarrow> fuelled k m \<Longrightarrow> fuelled k (read_items m n)"
  by (induction n) (auto intro!: fuel_intros inv_intros)

text \<open>Reading the constructor leaves four bytes fewer: this is where fuel is paid for.\<close>

lemma fuelled_uint32:
  assumes "\<And>x. fuelled (4 * n) (f x)"
  shows "fuelled (4 * Suc n) (rd_bind ReadUint32 f)"
  unfolding fuelled_def
proof (intro allI impI)
  fix r assume r: "rd_left r < 4 * Suc n"
  have "fst (f x (r\<lparr>rd_off := rd_off r + 4\<rparr>)) \<noteq> Inl ErrOutOfFuel"
    if "\<not> length (rd_b r) < rd_off r + 4" for x
    using assms [of x] r that by (auto simp: fuelled_def rd_left_def)
  then show "fst (rd_bind ReadUint32 f r) \<noteq> Inl ErrOutOfFuel"
    by (auto simp: rd_bind_def ReadUint32_def)
qed

lemma fuelled_body:
  assumes "fuelled k sub"
  shows "fuelled k (rd_bind (ReadRawBytes n) (\<lambda>d r.
    case sub (NewReader d) of (Inl e, _) \<Rightarrow> (Inl e, r) | (Inr x, _) \<Rightarrow> (Inr (f x), r)))"
  unfolding fuelled_def
proof (intro allI impI)
  fix r assume k: "rd_left r < k"
  let ?d = "go_slice (rd_b r) (rd_off r) (rd_off r + n)"
  have "rd_left (NewReader ?d) \<le> rd_left r"
    by (simp add: rd_left_def NewReader_def go_slice_def)
  with k assms have "fst (sub (NewReader ?d)) \<noteq> Inl ErrOutOfFuel"
    by (auto simp: fuelled_def)
  then show "fst (rd_bind (ReadRawBytes n) (\<lambda>d r. case sub (NewReader d) of
      (Inl e, _) \<Rightarrow> (Inl e, r) | (Inr x, _) \<Rightarrow> (Inr (f x), r)) r) \<noteq> Inl ErrOutOfFuel"
    by (auto simp: rd_bind_def ReadRawBytes_def split: prod.split sum.split)
qed

lemma fuelled_DecodeMTProtoMessage [fuel_intros]:
  "fuelled k sub \<Longrightarrow> fuelled k (DecodeMTProtoMessage sub)"
  unfolding DecodeMTProtoMessage_def decode_message_head_def
  by (intro fuel_intros inv_intros fuelled_body) simp

lemma check_count_fuel: "CheckVectorCount c \<noteq> Some ErrOutOfFuel"
  by (simp add: CheckVectorCount_def)

lemma fuelled_DecodeMsgContainer [fuel_intros]:
  "fuelled k sub \<Longrightarrow> fuelled k (DecodeMsgContainer sub)"
  unfolding DecodeMsgContainer_def
  by (intro fuel_intros inv_intros) (simp_all add: check_count_fuel)

lemma fuelled_decode_generic_vector [fuel_intros]:
  "rd_safe sub \<Longrightarrow> fuelled k sub \<Longrightarrow> fuelled k (decode_generic_vector sub)"
  unfolding decode_generic_vector_def
  by (intro fuel_intros inv_intros) (simp_all add: check_count_fuel)

lemma gzipDecompress_fuel: "gzipDecompress gun d \<noteq> Inl ErrOutOfFuel"
  by (auto simp: gzipDecompress_def split: option.split)

lemma fuelled_DecodeGzipPacked [fuel_intros]: "fuelled k (DecodeGzipPacked gun)"
  unfolding DecodeGzipPacked_def
proof (intro fuel_intros inv_intros)
  fix d
  show "fuelled k (case gzipDecompress gun d of
      Inl e \<Rightarrow> rd_fail e | Inr raw \<Rightarrow> rd_return (GzipPacked (GzipPackedData raw)))"
    using gzipDecompress_fuel [of gun d] by (auto intro: fuel_intros split: sum.split)
qed

lemma fuelled_registry_decoder:
  "reg_ok reg \<Longrightarrow> rd_safe sub \<Longrightarrow> fuelled k sub \<Longrightarrow> fuelled k (registry_decoder reg gun sub cid)"
  unfolding registry_decoder_def
  by (intro fuel_intros inv_intros)
    (auto simp: reg_ok_def fuelled_def rd_fail_def split: option.split)

lemma read_object_enough_fuel: "reg_ok reg \<Longrightarrow> fuelled (4 * n) (ReadTLObject n reg gun)"
proof (induction n)
  case 0
  show ?case by (simp add: fuelled_def)
next
  case (Suc n)
  then show ?case
    by (simp del: mult_Suc_right)
      (intro fuelled_uint32 fuelled_registry_decoder rd_safe_ReadTLObject)
qed

subsection \<open>More fuel changes nothing\<close>

definition fuel_le :: "'a rd \<Rightarrow> 'a rd \<Rightarrow> bool" where
  "fuel_le m m' \<longleftrightarrow> (\<forall>r. fst (m r) = Inl ErrOutOfFuel \<or> m' r = m r)"

named_theorems fuel_le_intros

lemma fuel_le_refl [fuel_le_intros]: "fuel_le m m"
  by (simp add: fuel_le_def)

lemma fuel_le_bind [fuel_le_intros]:
  assumes "fuel_le m m'" "\<And>x. fuel_le (f x) (f' x)"
  shows "fuel_le (rd_bind m f) (rd_bind m' f')"
  unfolding fuel_le_def
proof
  fix r
  obtain res r1 where m: "m r = (res, r1)" by force
  have f: "fst (f x r1) = Inl ErrOutOfFuel \<or> f' x r1 = f x r1" for x
    using assms(2) by (simp add: fuel_le_def)
  from assms(1) m have "res = Inl ErrOutOfFuel \<or> m' r = (res, r1)"
    unfolding fuel_le_def by (metis fst_conv)
  with m f show "fst (rd_bind m f r) = Inl ErrOutOfFuel \<or> rd_bind m' f' r = rd_bind m f r"
    by (cases res) (auto simp: rd_bind_def)
qed

lemma fuel_le_check [fuel_le_intros]: "fuel_le m m' \<Longrightarrow> fuel_le (rd_check c m) (rd_check c m')"
  by (cases c) (simp_all add: rd_check_def fuel_le_refl)

lemma fuel_le_if [fuel_le_intros]:
  "fuel_le a a' \<Longrightarrow> fuel_le b b' \<Longrightarrow> fuel_le (if c then a else b) (if c then a' else b')"
  by simp

lemma fuel_le_items [fuel_le_intros]: "fuel_le m m' \<Longrightarrow> fuel_le (read_items m n) (read_items m' n)"
  by (induction n) (auto intro!: fuel_le_intros)

lemma fuel_le_body [fuel_le_intros]:
  assumes "fuel_le sub sub'"
  shows "fuel_le
    (\<lambda>r. case sub (NewReader d) of (Inl e, _) \<Rightarrow> (Inl e, r) | (Inr x, _) \<Rightarrow> (Inr (f x), r))
    (\<lambda>r. case sub' (NewReader d) of (Inl e, _) \<Rightarrow> (Inl e, r) | (Inr x, _) \<Rightarrow> (Inr (f x), r))"
proof -
  from assms consider "fst (sub (NewReader d)) = Inl ErrOutOfFuel"
    | "sub' (NewReader d) = sub (NewReader d)"
    by (auto simp: fuel_le_def)
  then show ?thesis
    by cases (auto simp: fuel_le_def split: prod.split sum.split)
qed

lemma fuel_le_registry_decoder [fuel_le_intros]:
  "fuel_le sub sub' \<Longrightarrow> fuel_le (registry_decoder reg gun sub cid) (registry_decoder reg gun sub' cid)"
  unfolding registry_decoder_def decode_generic_vector_def DecodeMTProtoMessage_def
    DecodeMsgContainer_def decode_message_head_def
  by (intro fuel_le_intros)

lemma fuel_le_Suc: "fuel_le (ReadTLObject n reg gun) (ReadTLObject (Suc n) reg gun)"
proof (induction n)
  case 0
  show ?case by (simp add: fuel_le_def rd_fail_def)
next
  case (Suc n)
  then show ?case
    by (subst (1 2) ReadTLObject.simps) (intro fuel_le_intros)
qed

lemma ReadTLObject_more_fuel:
  assumes "reg_ok reg" "rd_left r < 4 * n" "n \<le> k"
  shows "ReadTLObject k reg gun r = ReadTLObject n reg gun r"
  using assms(3)
proof (induction k rule: dec_induct)
  case (step k)
  have "fst (ReadTLObject n reg gun r) \<noteq> Inl ErrOutOfFuel"
    using read_object_enough_fuel [OF assms(1), of n gun] assms(2) by (simp add: fuelled_def)
  with step fuel_le_Suc [of k reg gun] show ?case by (simp add: fuel_le_def del: ReadTLObject.simps) metis
qed simp

section \<open>Round trips\<close>

abbreviation handwritten_ids :: "u32 set" where
  "handwritten_ids \<equiv> {BoolTrueID, BoolFalseID, VectorTypeID, MTProtoMessageID, MsgContainerID, GzipPackedID}"

lemmas id_defs = BoolTrueID_def BoolFalseID_def VectorTypeID_def MTProtoMessageID_def
  MsgContainerID_def GzipPackedID_def

text \<open>Objects whose encoding starts with their constructor: booleans, vectors of such objects, and
  generated values whose decoder inverts their encoding.\<close>

fun boxed :: "registry \<Rightarrow> tl_object \<Rightarrow> bool" where
  "boxed reg (TLBool _) = True"
| "boxed reg (GenericVector xs) = (length xs \<le> 100000 \<and> (\<forall>x\<in>set xs. boxed reg x))"
| "boxed reg (Generated c p) =
     (c \<notin> handwritten_ids \<and>
      (\<exists>dec. reg c = Some dec \<and>
         (\<forall>pre suf. dec (rd_at pre (p @ suf)) = (Inr (Generated c p), rd_at (pre @ p) suf))))"
| "boxed reg _ = False"

lemma encode_objs_Inr:
  "encode_objs gz (x # xs) = Inr b \<longleftrightarrow>
   (\<exists>e bs. EncodeTLObject gz x = Inr e \<and> encode_objs gz xs = Inr bs \<and> b = e @ bs)"
  by (auto split: sum.splits)

lemma read_items_encode_objs:
  assumes "\<And>x e pre suf. x \<in> set xs \<Longrightarrow> EncodeTLObject gz x = Inr e \<Longrightarrow> length e \<le> length b \<Longrightarrow>
      m (rd_at pre (e @ suf)) = (Inr x, rd_at (pre @ e) suf)"
    and "encode_objs gz xs = Inr b"
  shows "read_items m (length xs) (rd_at pre (b @ suf)) = (Inr xs, rd_at (pre @ b) suf)"
  using assms
proof (induction xs arbitrary: b pre)
  case Nil
  then show ?case by (simp add: rd_return_def)
next
  case (Cons x xs)
  from Cons.prems(2) obtain e bs where e: "EncodeTLObject gz x = Inr e"
    and bs: "encode_objs gz xs = Inr bs" and b: "b = e @ bs"
    unfolding encode_objs_Inr by blast
  have "m (rd_at pre (e @ bs @ suf)) = (Inr x, rd_at (pre @ e) (bs @ suf))"
    by (rule Cons.prems(1)) (use e b in auto)
  moreover have "read_items m (length xs) (rd_at (pre @ e) (bs @ suf)) =
      (Inr xs, rd_at ((pre @ e) @ bs) suf)"
    by (rule Cons.IH [OF _ bs], rule Cons.prems(1)) (use b in auto)
  ultimately show ?case
    by (simp add: b rd_bind_ok rd_return_def)
qed

lemma unat_count: "n \<le> 100000 \<Longrightarrow> unat (word_of_nat n :: u32) = n"
  by (simp add: unsigned_of_nat take_bit_nat_eq_self)

lemma CheckVectorCount_ok: "n \<le> 100000 \<Longrightarrow> CheckVectorCount (word_of_nat n) = None"
  using unat_count [of n]
  by (simp add: CheckVectorCount_def maxVectorElements_def word_less_nat_alt)

lemma ReadUint32_bind_WriteInt:
  "rd_bind ReadUint32 f (rd_at pre (WriteInt [] v @ suf)) = f v (rd_at (pre @ WriteInt [] v) suf)"
  by (rule rd_bind_ok) (rule ReadUint32_WriteInt)

lemma ReadInt64_bind_WriteLong:
  "rd_bind ReadInt64 f (rd_at pre (WriteLong [] v @ suf)) = f v (rd_at (pre @ WriteLong [] v) suf)"
  by (rule rd_bind_ok) (rule ReadInt64_WriteLong)

lemma registry_vector: "registry_decoder reg gun sub VectorTypeID = decode_generic_vector sub"
  by (simp add: registry_decoder_def id_defs)

lemma registry_generated:
  "c \<notin> handwritten_ids \<Longrightarrow> reg c = Some dec \<Longrightarrow> registry_decoder reg gun sub c = dec"
  by (simp add: registry_decoder_def)

lemma ReadTLObject_boxed:
  "boxed reg x \<Longrightarrow> EncodeTLObject gz x = Inr e \<Longrightarrow> length e < 4 * n \<Longrightarrow>
   ReadTLObject n reg gun (rd_at pre (e @ suf)) = (Inr x, rd_at (pre @ e) suf)"
proof (induction reg x arbitrary: e n pre suf rule: boxed.induct)
  case (1 reg v)
  then obtain k where n: "n = Suc k" by (cases n) auto
  have e: "e = WriteInt [] (if v then BoolTrueID else BoolFalseID)"
    using "1.prems"(2) by (auto simp: WriteBool_def WriteInt_def)
  show ?case
    unfolding n e ReadTLObject.simps ReadUint32_bind_WriteInt
    by (simp add: registry_decoder_def id_defs rd_return_def)
next
  case (2 reg xs)
  from "2.prems"(2) obtain b where b: "encode_objs gz xs = Inr b"
    and e: "e = WriteInt [] VectorTypeID @ WriteInt [] (word_of_nat (length xs)) @ b"
    by (auto simp: WriteInt_def split: sum.splits)
  from "2.prems"(3) obtain k where n: "n = Suc k" by (cases n) auto
  with "2.prems"(3) e have k: "length b < 4 * k" by (simp add: WriteInt_def)
  let ?m = "ReadTLObject k reg gun"
  have items: "read_items ?m (length xs) (rd_at pre' (b @ suf)) = (Inr xs, rd_at (pre' @ b) suf)"
    for pre'
  proof (rule read_items_encode_objs [OF _ b])
    fix x e' pre'' suf'
    assume "x \<in> set xs" "EncodeTLObject gz x = Inr e'" "length e' \<le> length b"
    with "2.IH" "2.prems"(1) k
    show "?m (rd_at pre'' (e' @ suf')) = (Inr x, rd_at (pre'' @ e') suf')" by auto
  qed
  show ?case
    using "2.prems"(1) items
    by (simp add: n e ReadUint32_bind_WriteInt registry_vector decode_generic_vector_def
        CheckVectorCount_ok unat_count rd_check_def rd_bind_ok rd_return_def)
next
  case (3 reg c p)
  then obtain k where n: "n = Suc k" by (cases n) auto
  from "3.prems"(1) obtain dec where dec: "reg c = Some dec" "c \<notin> handwritten_ids"
    and law: "\<And>pre suf. dec (rd_at pre (p @ suf)) = (Inr (Generated c p), rd_at (pre @ p) suf)"
    by auto
  from "3.prems"(2) have e: "e = WriteInt [] c @ p" by simp
  show ?case
    by (simp add: n e ReadUint32_bind_WriteInt registry_generated [OF dec(2), of reg dec] dec(1) law)
qed auto

lemma encode_message_Inr:
  "EncodeMTProtoMessage gz (MTProtoMessage i q body) = Inr e \<longleftrightarrow>
   (\<exists>b. EncodeTLObject gz body = Inr b \<and>
        e = WriteLong [] i @ WriteInt [] q @ WriteInt [] (word_of_nat (length b)) @ b)"
  by (auto simp: WriteInt_def WriteLong_def split: sum.splits)

lemma unat_body_len: "n \<le> 2 ^ 24 \<Longrightarrow> unat (word_of_nat n :: u32) = n"
  by (simp add: unsigned_of_nat take_bit_nat_eq_self)

text \<open>The envelope of an encoded message, whatever then reads its body.\<close>

lemma decode_head_encoded:
  assumes "length b \<le> 2 ^ 24"
  shows "decode_message_head k (rd_at pre
      (WriteLong [] i @ WriteInt [] q @ WriteInt [] (word_of_nat (length b)) @ rest)) =
    k i q (word_of_nat (length b))
      (rd_at (pre @ WriteLong [] i @ WriteInt [] q @ WriteInt [] (word_of_nat (length b))) rest)"
  using assms unat_body_len [of "length b"]
  by (simp add: decode_message_head_def ReadInt64_bind_WriteLong ReadUint32_bind_WriteInt
      maxMessageBodyLen_def word_less_nat_alt not_less)

lemma ReadRawBytes_at:
  "ReadRawBytes (length b) (rd_at pre (b @ suf)) = (Inr b, rd_at (pre @ b) suf)"
  "ReadRawBytesCopy (length b) (rd_at pre (b @ suf)) = (Inr b, rd_at (pre @ b) suf)"
  by (simp_all add: ReadRawBytes_def ReadRawBytesCopy_def rd_at_def codec_simps)

lemma DecodeMTProtoMessage_encoded:
  assumes "length b \<le> 2 ^ 24"
  shows "DecodeMTProtoMessage sub (rd_at pre
      (WriteLong [] i @ WriteInt [] q @ WriteInt [] (word_of_nat (length b)) @ b @ suf)) =
    (map_sum id (MTProtoMessage i q) (fst (sub (NewReader b))),
     rd_at (pre @ WriteLong [] i @ WriteInt [] q @ WriteInt [] (word_of_nat (length b)) @ b) suf)"
  unfolding DecodeMTProtoMessage_def decode_head_encoded [OF assms]
  using unat_body_len [OF assms]
  by (simp add: rd_bind_ok [of "ReadRawBytes _", OF ReadRawBytes_at(1)]
      split: prod.split sum.split)

lemma DecodeMTProtoMessage_boxed:
  assumes "boxed reg body" and e: "EncodeMTProtoMessage gz (MTProtoMessage i q body) = Inr e"
    and "length e \<le> 2 ^ 24" "length e < 4 * n"
  shows "DecodeMTProtoMessage (ReadTLObject n reg gun) (rd_at pre (e @ suf)) =
    (Inr (MTProtoMessage i q body), rd_at (pre @ e) suf)"
proof -
  from e obtain b where b: "EncodeTLObject gz body = Inr b"
    and e': "e = WriteLong [] i @ WriteInt [] q @ WriteInt [] (word_of_nat (length b)) @ b"
    unfolding encode_message_Inr by blast
  have "fst (ReadTLObject n reg gun (NewReader b)) = Inr body"
    using ReadTLObject_boxed [OF assms(1) b, of n gun "[]" "[]"] assms(4) e'
    by (simp add: NewReader_rd_at)
  with assms(3) e' show ?thesis
    by (simp add: DecodeMTProtoMessage_encoded)
qed

lemma encode_msgs_Inr:
  "encode_msgs gz (m # ms) = Inr b \<longleftrightarrow>
   (\<exists>e bs. EncodeMTProtoMessage gz m = Inr e \<and> encode_msgs gz ms = Inr bs \<and> b = e @ bs)"
  by (auto split: sum.splits)

lemma read_items_encode_msgs:
  assumes "\<And>m. m \<in> set ms \<Longrightarrow> boxed reg (Body m)" "encode_msgs gz ms = Inr b"
    "length b \<le> 2 ^ 24" "length b < 4 * n"
  shows "read_items (DecodeMTProtoMessage (ReadTLObject n reg gun)) (length ms) (rd_at pre (b @ suf))
    = (Inr ms, rd_at (pre @ b) suf)"
  using assms
proof (induction ms arbitrary: b pre)
  case Nil
  then show ?case by (simp add: rd_return_def)
next
  case (Cons m ms)
  from Cons.prems(2) obtain e bs where e: "EncodeMTProtoMessage gz m = Inr e"
    and bs: "encode_msgs gz ms = Inr bs" and b: "b = e @ bs"
    unfolding encode_msgs_Inr by blast
  obtain i q body where m: "m = MTProtoMessage i q body" by (cases m)
  let ?d = "DecodeMTProtoMessage (ReadTLObject n reg gun)"
  have "?d (rd_at pre (e @ bs @ suf)) = (Inr m, rd_at (pre @ e) (bs @ suf))"
    unfolding m
    by (rule DecodeMTProtoMessage_boxed [OF _ e [unfolded m]])
      (use Cons.prems(1) [of m] Cons.prems(3,4) b m in auto)
  moreover have "read_items ?d (length ms) (rd_at (pre @ e) (bs @ suf)) =
      (Inr ms, rd_at ((pre @ e) @ bs) suf)"
    by (rule Cons.IH [OF _ bs]) (use Cons.prems b in auto)
  ultimately show ?case by (simp add: b rd_bind_ok rd_return_def)
qed

lemma read_unregistered:
  assumes "b = WriteInt [] c @ rest" "c \<notin> handwritten_ids" "reg c = None"
  shows "fst (ReadTLObject (Suc n) reg gun (NewReader b)) = Inl (ErrUnknownConstructor c)"
  using assms
  by (simp add: NewReader_rd_at ReadUint32_bind_WriteInt registry_decoder_def rd_fail_def)

lemma small_count_not_handwritten:
  assumes "n \<le> 100000" shows "(word_of_nat n :: u32) \<notin> handwritten_ids"
proof
  assume "(word_of_nat n :: u32) \<in> handwritten_ids"
  then have "n \<in> unat ` handwritten_ids"
    using unat_count [OF assms] by (metis imageI)
  with assms show False by (simp add: id_defs)
qed

section \<open>Properties\<close>

text \<open>ReadTLObject never runs out of recursion depth: on a reader
  with fewer than 4 n bytes left, n levels of nesting are enough for every input, malicious ones
  included, and any larger bound gives the same result and leaves the same reader.\<close>

theorem read_tl_object_terminates:
  assumes "reg_ok reg" "rd_left r < 4 * n" "n \<le> k"
  shows "fst (ReadTLObject n reg gun r) \<noteq> Inl ErrOutOfFuel \<and>
    ReadTLObject k reg gun r = ReadTLObject n reg gun r"
  using read_object_enough_fuel [OF assms(1), of n gun] ReadTLObject_more_fuel [OF assms, of gun]
    assms(2)
  by (simp add: fuelled_def)

theorem read_tl_object_terminates_witness:
  "fst (ReadTLObject 3 (\<lambda>_. None) (\<lambda>_. None) (NewReader [21, 196, 181, 28, 0, 0, 0, 0]))
     \<noteq> Inl ErrOutOfFuel \<and>
   ReadTLObject 5 (\<lambda>_. None) (\<lambda>_. None) (NewReader [21, 196, 181, 28, 0, 0, 0, 0]) =
   ReadTLObject 3 (\<lambda>_. None) (\<lambda>_. None) (NewReader [21, 196, 181, 28, 0, 0, 0, 0])"
  by (rule read_tl_object_terminates)
    (simp_all add: reg_ok_def rd_left_def NewReader_def)

text \<open>The encoding of a msg_container of at most 100000 messages
  whose bodies are boxed objects, of at most 2^24 bytes in all, is decoded by DecodeMsgContainer
  to the same messages in the same order, consuming exactly the encoding.\<close>

theorem msg_container_roundtrip:
  assumes "length ms \<le> 100000" "\<forall>m\<in>set ms. boxed reg (Body m)"
    and "EncodeTLObject gz (MsgContainer ms) = Inr e" "length e \<le> 2 ^ 24" "length e < 4 * n"
  shows "DecodeMsgContainer (ReadTLObject n reg gun) (rd_at pre (e @ suf)) =
    (Inr (MsgContainer ms), rd_at (pre @ e) suf)"
proof -
  from assms(3) obtain b where b: "encode_msgs gz ms = Inr b"
    and e: "e = WriteInt [] (word_of_nat (length ms)) @ b"
    by (auto split: sum.splits)
  have "length b \<le> 2 ^ 24" "length b < 4 * n"
    using assms(4,5) e by simp_all
  with assms(2) b have "read_items (DecodeMTProtoMessage (ReadTLObject n reg gun)) (length ms)
      (rd_at pre' (b @ suf)) = (Inr ms, rd_at (pre' @ b) suf)" for pre'
    by (intro read_items_encode_msgs) auto
  then show ?thesis
    using assms(1)
    by (simp add: e DecodeMsgContainer_def ReadUint32_bind_WriteInt CheckVectorCount_ok unat_count
        rd_check_def rd_bind_ok rd_return_def)
qed

theorem msg_container_roundtrip_witness:
  "\<exists>e. EncodeTLObject id (MsgContainer [MTProtoMessage 4 1 (TLBool True)]) = Inr e \<and>
     DecodeMsgContainer (ReadTLObject 10 (\<lambda>_. None) (\<lambda>_. None)) (rd_at [] (e @ [])) =
       (Inr (MsgContainer [MTProtoMessage 4 1 (TLBool True)]), rd_at ([] @ e) [])"
proof -
  let ?ms = "[MTProtoMessage 4 1 (TLBool True)]"
  obtain e where e: "EncodeTLObject id (MsgContainer ?ms) = Inr e" "length e = 24"
    by (simp add: WriteInt_def WriteLong_def WriteBool_def)
  from e msg_container_roundtrip [of ?ms "\<lambda>_. None" id e 10 "\<lambda>_. None" "[]" "[]"]
  show ?thesis by auto
qed

text \<open>MsgContainer.Encode writes the count
  first and no constructor, so the message the outbound batcher builds (a container as the body of
  an MTProtoMessage) is not what the registry calls a container: decoding it looks the number of
  messages up as a constructor and fails with an unknown-constructor error.\<close>

theorem container_body_lacks_constructor:
  assumes "length ms \<le> 100000" "reg (word_of_nat (length ms)) = None"
    and "EncodeMTProtoMessage gz (MTProtoMessage i q (MsgContainer ms)) = Inr e"
    and "length e \<le> 2 ^ 24"
  shows "fst (DecodeMTProtoMessage (ReadTLObject (Suc n) reg gun) (rd_at pre (e @ suf))) =
    Inl (ErrUnknownConstructor (word_of_nat (length ms)))"
proof -
  from assms(3) obtain b where b: "EncodeTLObject gz (MsgContainer ms) = Inr b"
    and e: "e = WriteLong [] i @ WriteInt [] q @ WriteInt [] (word_of_nat (length b)) @ b"
    unfolding encode_message_Inr by blast
  from b obtain rest where rest: "b = WriteInt [] (word_of_nat (length ms)) @ rest"
    by (auto split: sum.splits)
  from e assms(4) have "length b \<le> 2 ^ 24" by simp
  moreover have "fst (ReadTLObject (Suc n) reg gun (NewReader b)) =
      Inl (ErrUnknownConstructor (word_of_nat (length ms)))"
    using rest small_count_not_handwritten [OF assms(1)] assms(2) by (rule read_unregistered)
  ultimately show ?thesis
    by (simp add: e DecodeMTProtoMessage_encoded del: ReadTLObject.simps)
qed

theorem container_body_lacks_constructor_witness:
  "\<exists>e. EncodeMTProtoMessage id (MTProtoMessage 8 2
       (MsgContainer [MTProtoMessage 4 1 (TLBool True), MTProtoMessage 5 3 (TLBool False)])) = Inr e \<and>
     fst (DecodeMTProtoMessage (ReadTLObject (Suc 9) (\<lambda>_. None) (\<lambda>_. None)) (rd_at [] (e @ []))) =
       Inl (ErrUnknownConstructor 2)"
proof -
  let ?ms = "[MTProtoMessage 4 1 (TLBool True), MTProtoMessage 5 3 (TLBool False)]"
  obtain e where e: "EncodeMTProtoMessage id (MTProtoMessage 8 2 (MsgContainer ?ms)) = Inr e"
    "length e = 60"
    by (simp add: WriteInt_def WriteLong_def WriteBool_def)
  from e container_body_lacks_constructor
    [of ?ms "\<lambda>_. None" id 8 2 e 9 "\<lambda>_. None" "[]" "[]"]
  show ?thesis by (auto simp del: ReadTLObject.simps)
qed

end
