(* ===== verification/Msg_Identifiers.thy ===== *)
theory Msg_Identifiers
  imports Mtgo_Prelude
begin

text \<open>
  Message identifiers and sequence numbers: \<^verbatim>\<open>src/internal/session/msg_id.go\<close>, \<^verbatim>\<open>seq_no.go\<close>,
  \<^verbatim>\<open>msg_factory.go\<close> and the inbound check \<^verbatim>\<open>msg_id_validator.go\<close>. Clock readings
  (\<^verbatim>\<open>time.Now().Unix()\<close>) are arguments. An atomic operation is one step; the compare-and-swap loop of
  \<^verbatim>\<open>Next\<close> is also modelled with its interleavings, as a step relation over any number of goroutines.
\<close>

section \<open>Sequence numbers (seq_no.go)\<close>

record seq_no_gen =
  sn_value :: u32

definition NewSeqNoGenerator :: seq_no_gen where
  "NewSeqNoGenerator = \<lparr>sn_value = 0\<rparr>"

definition SeqNo_Next :: "bool \<Rightarrow> seq_no_gen \<Rightarrow> u32 \<times> seq_no_gen" where
  "SeqNo_Next contentRelated g =
     (if contentRelated
      then let v = sn_value g + 1; n = v - 1 in (n * 2 + 1, g\<lparr>sn_value := v\<rparr>)
      else (sn_value g * 2, g))"

definition SeqNo_Reset :: "seq_no_gen \<Rightarrow> seq_no_gen" where
  "SeqNo_Reset g = g\<lparr>sn_value := 0\<rparr>"

fun seq_run :: "bool list \<Rightarrow> seq_no_gen \<Rightarrow> u32 list \<times> seq_no_gen" where
  "seq_run [] g = ([], g)"
| "seq_run (c # cs) g =
     (let (s, g1) = SeqNo_Next c g; (ss, g2) = seq_run cs g1 in (s # ss, g2))"

section \<open>Message identifiers (msg_id.go)\<close>

record msg_id_gen =
  mg_timeOffset :: i64
  mg_lastID :: i64

definition NewMsgIDGenerator :: "i64 \<Rightarrow> i64 \<Rightarrow> msg_id_gen" where
  "NewMsgIDGenerator serverTime now = \<lparr>mg_timeOffset = serverTime - now, mg_lastID = 0\<rparr>"

definition UpdateServerTime :: "i64 \<Rightarrow> i64 \<Rightarrow> msg_id_gen \<Rightarrow> msg_id_gen" where
  "UpdateServerTime serverT now g = g\<lparr>mg_timeOffset := serverT - now, mg_lastID := 0\<rparr>"

definition AdvanceOffset :: "i64 \<Rightarrow> i64 \<Rightarrow> msg_id_gen \<Rightarrow> msg_id_gen" where
  "AdvanceOffset serverT now g =
     (let newOffset = serverT - now
      in if sint newOffset \<le> sint (mg_timeOffset g) then g else g\<lparr>mg_timeOffset := newOffset\<rparr>)"

definition msg_id_candidate :: "i64 \<Rightarrow> msg_id_gen \<Rightarrow> i64" where
  "msg_id_candidate now g = push_bit 32 (now + mg_timeOffset g)"

text \<open>One pass of the loop body: bump past the last identifier unless the candidate is above it.\<close>

definition msg_id_bump :: "i64 \<Rightarrow> i64 \<Rightarrow> i64" where
  "msg_id_bump candidate prev = (if sint candidate \<le> sint prev then prev + 4 else candidate)"

definition MsgID_Next :: "i64 \<Rightarrow> msg_id_gen \<Rightarrow> i64 \<times> msg_id_gen" where
  "MsgID_Next now g =
     (let candidate = msg_id_bump (msg_id_candidate now g) (mg_lastID g)
      in (candidate, g\<lparr>mg_lastID := candidate\<rparr>))"

section \<open>The factory (msg_factory.go)\<close>

record msg_factory =
  mf_msgIDGen :: msg_id_gen
  mf_seqNoGen :: seq_no_gen

definition NewMsgFactory :: "i64 \<Rightarrow> i64 \<Rightarrow> msg_factory" where
  "NewMsgFactory serverTime now =
     \<lparr>mf_msgIDGen = NewMsgIDGenerator serverTime now, mf_seqNoGen = NewSeqNoGenerator\<rparr>"

definition AllocateMsgID :: "i64 \<Rightarrow> msg_factory \<Rightarrow> i64 \<times> msg_factory" where
  "AllocateMsgID now f =
     (let (i, g) = MsgID_Next now (mf_msgIDGen f) in (i, f\<lparr>mf_msgIDGen := g\<rparr>))"

definition AllocateSeqNo :: "bool \<Rightarrow> msg_factory \<Rightarrow> u32 \<times> msg_factory" where
  "AllocateSeqNo contentRelated f =
     (let (s, g) = SeqNo_Next contentRelated (mf_seqNoGen f) in (s, f\<lparr>mf_seqNoGen := g\<rparr>))"

definition AllocateMsgIDAndSeqNo :: "i64 \<Rightarrow> bool \<Rightarrow> msg_factory \<Rightarrow> (i64 \<times> u32) \<times> msg_factory" where
  "AllocateMsgIDAndSeqNo now contentRelated f =
     (let (i, f1) = AllocateMsgID now f; (s, f2) = AllocateSeqNo contentRelated f1
      in ((i, s), f2))"

definition Factory_UpdateServerTime :: "i64 \<Rightarrow> i64 \<Rightarrow> msg_factory \<Rightarrow> msg_factory" where
  "Factory_UpdateServerTime t now f = f\<lparr>mf_msgIDGen := UpdateServerTime t now (mf_msgIDGen f)\<rparr>"

definition AdvanceServerTime :: "i64 \<Rightarrow> i64 \<Rightarrow> msg_factory \<Rightarrow> msg_factory" where
  "AdvanceServerTime t now f = f\<lparr>mf_msgIDGen := AdvanceOffset t now (mf_msgIDGen f)\<rparr>"

definition ServerTimeOffset :: "msg_factory \<Rightarrow> i64" where
  "ServerTimeOffset f = mg_timeOffset (mf_msgIDGen f)"

text \<open>A run between two clock corrections: allocations and passive offset refinements.\<close>

datatype id_event = EvNext i64 | EvAdvance i64 i64

fun id_run :: "id_event list \<Rightarrow> msg_id_gen \<Rightarrow> i64 list \<times> msg_id_gen" where
  "id_run [] g = ([], g)"
| "id_run (EvNext now # es) g =
     (let (i, g1) = MsgID_Next now g; (is, g2) = id_run es g1 in (i # is, g2))"
| "id_run (EvAdvance serverT now # es) g = id_run es (AdvanceOffset serverT now g)"

text \<open>Every allocation of the run sees a server second from 1970 up to 2038.\<close>

fun id_clock_ok :: "id_event list \<Rightarrow> msg_id_gen \<Rightarrow> bool" where
  "id_clock_ok [] g = True"
| "id_clock_ok (EvNext now # es) g =
     (0 \<le> sint (now + mg_timeOffset g) \<and> sint (now + mg_timeOffset g) \<le> 2 ^ 31 - 2 \<and>
      id_clock_ok es (snd (MsgID_Next now g)))"
| "id_clock_ok (EvAdvance serverT now # es) g = id_clock_ok es (AdvanceOffset serverT now g)"

section \<open>The inbound validator (msg_id_validator.go)\<close>

definition msgIDReplayCapacity :: nat where
  "msgIDReplayCapacity = 256"

datatype reject_reason = EvenMsgID | FromFuture | TooOld | Replayed | NoReason

record msg_id_validator =
  mv_ids :: "i64 list"
  mv_idSet :: "i64 set"

definition newMsgIDValidator :: msg_id_validator where
  "newMsgIDValidator = \<lparr>mv_ids = [], mv_idSet = {}\<rparr>"

text \<open>\<^verbatim>\<open>msgID%2\<close> is the signed remainder of Go, \<^verbatim>\<open>msgID >> 32\<close> the arithmetic shift; \<open>now\<close> is
  \<^verbatim>\<open>serverTS()\<close>, the windows are 60 and 300 seconds.\<close>

definition CheckWithReason ::
  "i64 \<Rightarrow> i64 \<Rightarrow> msg_id_validator \<Rightarrow> (bool \<times> reject_reason) \<times> msg_id_validator" where
  "CheckWithReason now msgID v =
     (if sint msgID smod 2 \<noteq> 1 then ((False, EvenMsgID), v)
      else let msgTime = signed_drop_bit 32 msgID
      in if sint msgTime > sint (now + 60) then ((False, FromFuture), v)
      else if sint msgTime < sint (now - 300) then ((False, TooOld), v)
      else if msgID \<in> mv_idSet v then ((False, Replayed), v)
      else
        let ids = mv_ids v @ [msgID];
            idSet = insert msgID (mv_idSet v)
        in if length ids > msgIDReplayCapacity
           then let k = length ids - msgIDReplayCapacity
                in ((True, NoReason), v\<lparr>mv_ids := drop k ids, mv_idSet := idSet - set (take k ids)\<rparr>)
           else ((True, NoReason), v\<lparr>mv_ids := ids, mv_idSet := idSet\<rparr>))"

definition Check :: "i64 \<Rightarrow> i64 \<Rightarrow> msg_id_validator \<Rightarrow> bool \<times> msg_id_validator" where
  "Check now msgID v = (let ((ok, _), v') = CheckWithReason now msgID v in (ok, v'))"

definition Validator_Reset :: "msg_id_validator \<Rightarrow> msg_id_validator" where
  "Validator_Reset v = v\<lparr>mv_ids := [], mv_idSet := {}\<rparr>"

text \<open>A run of checks, with the identifiers it accepted.\<close>

fun check_run :: "(i64 \<times> i64) list \<Rightarrow> msg_id_validator \<Rightarrow> i64 list \<times> msg_id_validator" where
  "check_run [] v = ([], v)"
| "check_run ((now, m) # ms) v =
     (let (ok, v1) = Check now m v; (acc, v2) = check_run ms v1
      in (if ok then m # acc else acc, v2))"

section \<open>Identifiers increase\<close>

lemma sint_push_bit_32:
  assumes "0 \<le> sint (w :: i64)" "sint w < 2 ^ 31"
  shows "sint (push_bit 32 w) = sint w * 2 ^ 32"
proof -
  have "sint (push_bit 32 w) = signed_take_bit 63 (sint w * 2 ^ 32)"
    by (simp add: push_bit_eq_mult sint_word_ariths)
  also have "\<dots> = sint w * 2 ^ 32"
    using assms by (intro signed_take_bit_int_eq_self) auto
  finally show ?thesis .
qed

lemma sint_plus_4:
  "0 \<le> sint (w :: i64) \<Longrightarrow> sint w < 2 ^ 63 - 4 \<Longrightarrow> sint (w + 4) = sint w + 4"
  by (simp add: sint_word_ariths signed_take_bit_int_eq_self)

lemma msg_id_bump_props:
  assumes "0 \<le> sint p" "sint p < 2 ^ 63 - 4"
  shows "sint p < sint (msg_id_bump c p)"
    and "sint (msg_id_bump c p) \<le> max (sint c) (sint p + 4)"
    and "4 dvd sint c \<Longrightarrow> 4 dvd sint p \<Longrightarrow> 4 dvd sint (msg_id_bump c p)"
  using assms by (auto simp: msg_id_bump_def sint_plus_4)

text \<open>The state between two allocations, with room for \<open>k\<close> more.\<close>

definition id_room :: "nat \<Rightarrow> msg_id_gen \<Rightarrow> bool" where
  "id_room k g \<longleftrightarrow> 0 \<le> sint (mg_lastID g) \<and> 4 dvd sint (mg_lastID g) \<and>
     sint (mg_lastID g) + 4 * int k \<le> 2 ^ 63 - 2 ^ 32 \<and> int k \<le> 2 ^ 29"

lemma MsgID_Next_step:
  assumes g: "id_room (Suc k) g"
    and t: "0 \<le> sint (now + mg_timeOffset g)" "sint (now + mg_timeOffset g) \<le> 2 ^ 31 - 2"
    and n: "MsgID_Next now g = (i, g')"
  shows "sint (mg_lastID g) < sint i" "4 dvd sint i" "mg_lastID g' = i" "id_room k g'"
proof -
  let ?c = "msg_id_candidate now g"
  have c: "sint ?c = sint (now + mg_timeOffset g) * 2 ^ 32"
    unfolding msg_id_candidate_def by (rule sint_push_bit_32) (use t in linarith)+
  then have cb: "sint ?c \<le> (2 ^ 31 - 2) * 2 ^ 32" and c4: "4 dvd sint ?c"
    using t by auto
  from n have i: "i = msg_id_bump ?c (mg_lastID g)" and g': "g' = g\<lparr>mg_lastID := i\<rparr>"
    by (auto simp: MsgID_Next_def Let_def)
  from g have p: "0 \<le> sint (mg_lastID g)" "sint (mg_lastID g) < 2 ^ 63 - 4"
    by (auto simp: id_room_def)
  note b = msg_id_bump_props [OF p, of ?c, folded i]
  show "sint (mg_lastID g) < sint i" by (rule b(1))
  show "4 dvd sint i" using b(3) c4 g by (simp add: id_room_def)
  show "mg_lastID g' = i" by (simp add: g')
  with b g cb c4 show "id_room k g'" by (auto simp: id_room_def)
qed

lemma AdvanceOffset_room: "id_room k (AdvanceOffset t now g) = id_room k g"
  "mg_lastID (AdvanceOffset t now g) = mg_lastID g"
  by (simp_all add: AdvanceOffset_def id_room_def Let_def)

lemma id_room_mono: "id_room (Suc k) g \<Longrightarrow> id_room k g"
  by (simp add: id_room_def)

lemma id_run_increasing:
  "id_room (length es) g \<Longrightarrow> id_clock_ok es g \<Longrightarrow>
   sorted_wrt (<) (map sint (fst (id_run es g))) \<and>
   (\<forall>i\<in>set (fst (id_run es g)). sint (mg_lastID g) < sint i \<and> 4 dvd sint i)"
proof (induction es g rule: id_run.induct)
  case (2 now es g)
  obtain i g1 where n: "MsgID_Next now g = (i, g1)" by force
  obtain "is" g2 where r: "id_run es g1 = (is, g2)" by force
  have t: "0 \<le> sint (now + mg_timeOffset g)" "sint (now + mg_timeOffset g) \<le> 2 ^ 31 - 2"
    and ok: "id_clock_ok es g1"
    using "2.prems"(2) n by simp_all
  note st = MsgID_Next_step [OF _ t n]
  from "2.prems"(1) have room: "id_room (Suc (length es)) g" by simp
  from "2.IH" [OF n [symmetric] refl st(4) [OF room] ok] st(1-3) [OF room] r n show ?case
    by (fastforce)
next
  case (3 serverT now es g)
  then show ?case by (simp add: AdvanceOffset_room id_room_mono)
qed simp

section \<open>Sequence numbers count content-related messages\<close>

lemma seq_run_nth:
  "length (fst (seq_run cs g)) = length cs \<and>
   (\<forall>j < length cs. fst (seq_run cs g) ! j =
      2 * (sn_value g + word_of_nat (length (filter id (take j cs)))) + (if cs ! j then 1 else 0))"
proof (induction cs arbitrary: g)
  case (Cons c cs)
  obtain s g1 where n: "SeqNo_Next c g = (s, g1)" by force
  then have v: "sn_value g1 = sn_value g + (if c then 1 else 0)"
    and s: "s = 2 * sn_value g + (if c then 1 else 0)"
    by (auto simp: SeqNo_Next_def Let_def)
  from Cons.IH [of g1] v s n show ?case
    by (auto simp: nth_Cons algebra_simps split: prod.split nat.split)
qed simp

section \<open>The replay window\<close>

text \<open>
  A bounded first-in first-out window, as a client sees it: an operation \<open>push\<close> and the list of
  remembered elements, oldest first. An element is remembered until \<open>cap\<close> others were pushed.
\<close>

locale fifo_window =
  fixes recent :: "'s \<Rightarrow> 'a list"
    and push :: "'a \<Rightarrow> 's \<Rightarrow> 's"
    and cap :: nat
  assumes recent_push: "recent (push x s) = drop (Suc (length (recent s)) - cap) (recent s @ [x])"
    and cap_pos: "0 < cap"
begin

lemma recent_bounded: "length (recent (push x s)) \<le> cap"
  using cap_pos by (auto simp: recent_push)

lemma remembered:
  "recent s = as @ x # bs \<Longrightarrow> length bs + length xs < cap \<Longrightarrow>
   \<exists>as'. recent (fold push xs s) = as' @ x # bs @ xs"
proof (induction xs arbitrary: s as bs)
  case (Cons y xs)
  let ?j = "Suc (length (recent s)) - cap"
  have "recent (push y s) = drop ?j as @ x # bs @ [y]"
    using Cons.prems by (simp add: recent_push)
  from Cons.IH [OF this] Cons.prems(2) show ?case by simp
qed simp

lemma push_remembered:
  "length xs < cap \<Longrightarrow> x \<in> set (recent (fold push xs (push x s)))"
proof -
  assume len: "length xs < cap"
  have "recent (push x s) = drop (Suc (length (recent s)) - cap) (recent s) @ x # []"
    using cap_pos by (simp add: recent_push)
  from remembered [OF this, of xs] len show ?thesis by fastforce
qed

end

text \<open>The validator's bookkeeping for an accepted identifier is such a window.\<close>

definition validator_push :: "i64 \<Rightarrow> msg_id_validator \<Rightarrow> msg_id_validator" where
  "validator_push m v =
     (let ids = mv_ids v @ [m]; k = length ids - msgIDReplayCapacity
      in v\<lparr>mv_ids := drop k ids, mv_idSet := insert m (mv_idSet v) - set (take k ids)\<rparr>)"

interpretation replay: fifo_window mv_ids validator_push msgIDReplayCapacity
  by unfold_locales (simp_all add: validator_push_def Let_def msgIDReplayCapacity_def)

definition validator_inv :: "msg_id_validator \<Rightarrow> bool" where
  "validator_inv v \<longleftrightarrow>
     distinct (mv_ids v) \<and> set (mv_ids v) = mv_idSet v \<and> length (mv_ids v) \<le> msgIDReplayCapacity"

definition in_window :: "i64 \<Rightarrow> i64 \<Rightarrow> bool" where
  "in_window now m \<longleftrightarrow> sint m smod 2 = 1 \<and> sint (signed_drop_bit 32 m) \<le> sint (now + 60) \<and>
     sint (now - 300) \<le> sint (signed_drop_bit 32 m)"

lemma Check_eq:
  "Check now m v =
     (if in_window now m \<and> m \<notin> mv_idSet v then (True, validator_push m v) else (False, v))"
  by (auto simp: Check_def CheckWithReason_def in_window_def validator_push_def Let_def not_less)

lemma validator_inv_new: "validator_inv newMsgIDValidator"
  by (simp add: validator_inv_def newMsgIDValidator_def)

lemma validator_inv_push:
  assumes "validator_inv v" "m \<notin> mv_idSet v"
  shows "validator_inv (validator_push m v)"
proof -
  let ?ids = "mv_ids v @ [m]"
  let ?k = "length ?ids - msgIDReplayCapacity"
  from assms have d: "distinct ?ids" and s: "set ?ids = insert m (mv_idSet v)"
    by (auto simp: validator_inv_def)
  from d have "set (drop ?k ?ids) = set ?ids - set (take ?k ?ids)"
    by (rule set_drop_distinct)
  with d s show ?thesis
    unfolding validator_inv_def validator_push_def Let_def
    by (simp del: append_Cons take_append drop_append set_append length_append add: distinct_drop)
qed

lemma validator_inv_Check [inv_intros]:
  "validator_inv v \<Longrightarrow> validator_inv (snd (Check now m v))"
  by (simp add: Check_eq validator_inv_push)

lemma validator_inv_Reset [inv_intros]: "validator_inv (Validator_Reset v)"
  by (simp add: validator_inv_def Validator_Reset_def)

lemma check_run_Cons:
  "check_run ((now, m) # ms) v =
     (if in_window now m \<and> m \<notin> mv_idSet v
      then (m # fst (check_run ms (validator_push m v)), snd (check_run ms (validator_push m v)))
      else check_run ms v)"
  by (simp add: Check_eq split: prod.split)

lemma check_run_eq: "snd (check_run ms v) = fold validator_push (fst (check_run ms v)) v"
  by (induction ms arbitrary: v) (auto simp: check_run_Cons simp del: check_run.simps(2))

lemma validator_inv_run: "validator_inv v \<Longrightarrow> validator_inv (snd (check_run ms v))"
  by (induction ms arbitrary: v)
    (auto simp: check_run_Cons validator_inv_push simp del: check_run.simps(2))

lemma no_replay:
  assumes "validator_inv v" "Check t m v = (True, v1)" "check_run ms v1 = (acc, v2)"
    and "length acc < msgIDReplayCapacity"
  shows "Check t' m v2 = (False, v2)"
proof -
  from assms(2) have v1: "v1 = validator_push m v" and "m \<notin> mv_idSet v"
    by (auto simp: Check_eq split: if_splits)
  with assms(1) have inv1: "validator_inv v1" by (simp add: validator_inv_push)
  from check_run_eq [of ms v1] assms(3) v1 have v2: "v2 = fold validator_push acc (validator_push m v)"
    by simp
  have "m \<in> set (mv_ids v2)"
    unfolding v2 by (rule replay.push_remembered) (rule assms(4))
  moreover from validator_inv_run [OF inv1, of ms] assms(3) have "validator_inv v2" by simp
  ultimately show ?thesis by (auto simp: Check_eq validator_inv_def)
qed

section \<open>Concurrent allocation\<close>

text \<open>
  The compare-and-swap loop of Next, run by any number of goroutines. A goroutine that enters has
  computed some candidate (the clock and the offset it read are arbitrary), then repeats: load
  lastID and adjust the candidate, try to swap. \<open>cs_out\<close> is the ghost list of the identifiers
  returned so far, newest first.
\<close>

datatype next_pc = PIdle | PCand i64 | PTry i64 i64

record cas_sys =
  cs_pc :: "nat \<Rightarrow> next_pc"
  cs_lastID :: i64
  cs_out :: "i64 list"

inductive cas_step :: "cas_sys \<Rightarrow> cas_sys \<Rightarrow> bool" where
  enter: "cs_pc s i = PIdle \<Longrightarrow> cas_step s (s\<lparr>cs_pc := (cs_pc s)(i := PCand c)\<rparr>)"
| load: "cs_pc s i = PCand c \<Longrightarrow>
    cas_step s (s\<lparr>cs_pc := (cs_pc s)(i := PTry (msg_id_bump c (cs_lastID s)) (cs_lastID s))\<rparr>)"
| swap: "cs_pc s i = PTry c l \<Longrightarrow> cs_lastID s = l \<Longrightarrow>
    cas_step s (s\<lparr>cs_pc := (cs_pc s)(i := PIdle), cs_lastID := c, cs_out := c # cs_out s\<rparr>)"
| retry: "cs_pc s i = PTry c l \<Longrightarrow> cs_lastID s \<noteq> l \<Longrightarrow>
    cas_step s (s\<lparr>cs_pc := (cs_pc s)(i := PCand c)\<rparr>)"

definition cas_init :: cas_sys where
  "cas_init = \<lparr>cs_pc = (\<lambda>_. PIdle), cs_lastID = 0, cs_out = []\<rparr>"

inductive cas_reachable :: "cas_sys \<Rightarrow> bool" where
  start: "cas_reachable cas_init"
| step: "cas_reachable s \<Longrightarrow> cas_step s t \<Longrightarrow> cas_reachable t"

abbreviation below_max :: "i64 \<Rightarrow> bool" where
  "below_max x \<equiv> sint x < 2 ^ 63 - 4"

definition cas_inv :: "cas_sys \<Rightarrow> bool" where
  "cas_inv s \<longleftrightarrow>
     0 \<le> sint (cs_lastID s) \<and> cs_lastID s = hd (cs_out s @ [0]) \<and>
     sorted_wrt (>) (map sint (cs_out s)) \<and>
     (\<forall>i c l. cs_pc s i = PTry c l \<longrightarrow> 0 \<le> sint l \<longrightarrow> below_max l \<longrightarrow> sint l < sint c)"

lemma cas_inv_init: "cas_inv cas_init"
  by (simp add: cas_inv_def cas_init_def)

lemma cas_step_out: "cas_step s t \<Longrightarrow> \<exists>xs. cs_out t = xs @ cs_out s"
  by (induction rule: cas_step.induct) auto

lemma cas_step_inv:
  assumes "cas_step s t" "cas_inv s" "\<forall>x\<in>set (cs_out t). below_max x"
  shows "cas_inv t"
  using assms
proof (induction rule: cas_step.induct)
  case (swap s i c l)
  then have l: "0 \<le> sint l" and m: "below_max l"
    by (auto simp: cas_inv_def hd_append split: if_splits)
  with swap have "sint l < sint c" by (auto simp: cas_inv_def)
  moreover from swap.prems(1) swap.hyps have "\<forall>x\<in>set (cs_out s). sint x \<le> sint l"
    by (cases "cs_out s") (auto simp: cas_inv_def)
  ultimately show ?case using swap l
    by (fastforce simp: cas_inv_def)
qed (auto simp: cas_inv_def msg_id_bump_props(1))

lemma cas_reachable_inv:
  "cas_reachable s \<Longrightarrow> \<forall>x\<in>set (cs_out s). below_max x \<Longrightarrow> cas_inv s"
proof (induction rule: cas_reachable.induct)
  case (step s t)
  from cas_step_out [OF step.hyps(2)] step.prems have "\<forall>x\<in>set (cs_out s). below_max x"
    by auto
  with step show ?case by (blast intro: cas_step_inv)
qed (rule cas_inv_init)

section \<open>Properties\<close>

text \<open>Property C24 (message identifiers increase). In any run of allocations and passive offset updates
  that starts from a fresh generator, with server seconds between 1970 and 2038 and at most 2^29
  operations, the identifiers MsgIDGenerator.Next returns are positive, divisible by four (the
  client parity) and strictly increasing, whatever the clock does (standing still, jumping back).\<close>

theorem msg_ids_strictly_increase:
  assumes "mg_lastID g = 0" "id_clock_ok es g" "length es \<le> 2 ^ 29"
  shows "sorted_wrt (<) (map sint (fst (id_run es g))) \<and>
    (\<forall>i\<in>set (fst (id_run es g)). 0 < sint i \<and> 4 dvd sint i)"
  using id_run_increasing [of es g] assms by (simp add: id_room_def)

theorem msg_ids_strictly_increase_witness:
  "fst (id_run [EvNext 5, EvNext 5, EvAdvance 9 5, EvNext 4] (NewMsgIDGenerator 5 5)) =
     [21474836480, 21474836484, 34359738368] \<and>
   sorted_wrt (<) (map sint (fst (id_run [EvNext 5, EvNext 5, EvAdvance 9 5, EvNext 4]
     (NewMsgIDGenerator 5 5))))"
proof -
  let ?es = "[EvNext 5, EvNext 5, EvAdvance 9 5, EvNext 4]"
  have "id_clock_ok ?es (NewMsgIDGenerator 5 5)" by code_simp
  moreover have "fst (id_run ?es (NewMsgIDGenerator 5 5)) = [21474836480, 21474836484, 34359738368]"
    by code_simp
  ultimately show ?thesis
    using msg_ids_strictly_increase [of "NewMsgIDGenerator 5 5" ?es]
    by (simp add: NewMsgIDGenerator_def)
qed

text \<open>In every interleaving of any number of
  goroutines inside Next, the identifiers returned so far are strictly increasing in the order of
  their swaps, hence pairwise distinct, as long as none has come within four of the largest
  64-bit integer.\<close>

theorem concurrent_msg_ids_distinct:
  assumes "cas_reachable s" "\<forall>x\<in>set (cs_out s). sint x < 2 ^ 63 - 4"
  shows "sorted_wrt (>) (map sint (cs_out s)) \<and> distinct (cs_out s)"
proof -
  from cas_reachable_inv [OF assms] have s: "sorted_wrt (>) (map sint (cs_out s))"
    by (simp add: cas_inv_def)
  then have "distinct (map sint (cs_out s))"
    by (metis distinct_rev sorted_wrt_rev strict_sorted_iff)
  with s show ?thesis by (simp add: distinct_map)
qed

theorem concurrent_msg_ids_distinct_witness:
  "\<exists>s. cas_reachable s \<and> cs_out s = [8, 4] \<and> distinct (cs_out s)"
proof -
  let ?s0 = cas_init
  let ?s1 = "?s0\<lparr>cs_pc := (cs_pc ?s0)(0 := PCand 4)\<rparr>"
  let ?s2 = "?s1\<lparr>cs_pc := (cs_pc ?s1)(0 := PTry (msg_id_bump 4 (cs_lastID ?s1)) (cs_lastID ?s1))\<rparr>"
  let ?s3 = "?s2\<lparr>cs_pc := (cs_pc ?s2)(0 := PIdle), cs_lastID := 4, cs_out := 4 # cs_out ?s2\<rparr>"
  let ?s4 = "?s3\<lparr>cs_pc := (cs_pc ?s3)(1 := PCand 4)\<rparr>"
  let ?s5 = "?s4\<lparr>cs_pc := (cs_pc ?s4)(1 := PTry (msg_id_bump 4 (cs_lastID ?s4)) (cs_lastID ?s4))\<rparr>"
  let ?s6 = "?s5\<lparr>cs_pc := (cs_pc ?s5)(1 := PIdle), cs_lastID := 8, cs_out := 8 # cs_out ?s5\<rparr>"
  have r1: "cas_reachable ?s1"
    by (rule cas_reachable.step [OF cas_reachable.start], rule cas_step.enter)
      (simp add: cas_init_def)
  have r2: "cas_reachable ?s2"
    by (rule cas_reachable.step [OF r1], rule cas_step.load) simp
  have r3: "cas_reachable ?s3"
    by (rule cas_reachable.step [OF r2], rule cas_step.swap [where l = 0])
      (simp_all add: cas_init_def msg_id_bump_def)
  have r4: "cas_reachable ?s4"
    by (rule cas_reachable.step [OF r3], rule cas_step.enter) (simp add: cas_init_def)
  have r5: "cas_reachable ?s5"
    by (rule cas_reachable.step [OF r4], rule cas_step.load) simp
  have r: "cas_reachable ?s6"
    by (rule cas_reachable.step [OF r5], rule cas_step.swap [where l = 4])
      (simp_all add: msg_id_bump_def)
  have o: "cs_out ?s6 = [8, 4]" by (simp add: cas_init_def)
  have "distinct (cs_out ?s6)"
    using concurrent_msg_ids_distinct [OF r] o by simp
  with r o show ?thesis by blast
qed

text \<open>UpdateServerTime resets the
  monotonicity floor: if the correction confirms the offset in use, the next allocation in the same
  second returns the identifier the previous allocation of that second returned.\<close>

theorem clock_correction_repeats_msg_id:
  assumes "sint (mg_lastID g) < sint (push_bit 32 (now + mg_timeOffset g))"
    and "0 < sint (push_bit 32 (now + mg_timeOffset g))"
  shows "fst (MsgID_Next now (UpdateServerTime (now + mg_timeOffset g) now (snd (MsgID_Next now g))))
    = fst (MsgID_Next now g)"
  using assms
  by (simp add: MsgID_Next_def UpdateServerTime_def msg_id_bump_def msg_id_candidate_def Let_def)

theorem clock_correction_repeats_msg_id_witness:
  "fst (MsgID_Next 5 (UpdateServerTime 5 5 (snd (MsgID_Next 5 (NewMsgIDGenerator 5 5))))) = 21474836480
   \<and> fst (MsgID_Next 5 (NewMsgIDGenerator 5 5)) = 21474836480"
proof -
  have a: "sint (mg_lastID (NewMsgIDGenerator 5 5)) <
      sint (push_bit 32 (5 + mg_timeOffset (NewMsgIDGenerator 5 5)))" by code_simp
  have b: "0 < sint (push_bit 32 (5 + mg_timeOffset (NewMsgIDGenerator 5 5)))" by code_simp
  have c: "fst (MsgID_Next 5 (NewMsgIDGenerator 5 5)) = 21474836480" by code_simp
  have d: "mg_timeOffset (NewMsgIDGenerator 5 5) = 0" by (simp add: NewMsgIDGenerator_def)
  from clock_correction_repeats_msg_id [OF a b] c d show ?thesis by simp
qed

text \<open>Starting from a fresh generator, the j-th sequence number is twice
  the number of content-related messages before it, plus one if the message itself is
  content-related (computed in 32-bit arithmetic): content-related messages get odd numbers in
  order, service messages the even number in between.\<close>

theorem seq_no_counts_content_messages:
  assumes "j < length cs"
  shows "fst (seq_run cs NewSeqNoGenerator) ! j =
    2 * word_of_nat (length (filter id (take j cs))) + (if cs ! j then 1 else 0)"
  using seq_run_nth [of cs NewSeqNoGenerator] assms by (simp add: NewSeqNoGenerator_def)

theorem seq_no_counts_content_messages_witness:
  "fst (seq_run [True, False, True] NewSeqNoGenerator) ! 2 = 3"
  using seq_no_counts_content_messages [of 2 "[True, False, True]"]
  by (simp add: numeral_2_eq_2)

text \<open>Once the validator has accepted an identifier, it
  rejects it at every later time, until 256 further identifiers have been accepted.\<close>

theorem validator_rejects_replay:
  assumes "validator_inv v" "Check t m v = (True, v1)" "check_run ms v1 = (acc, v2)"
    and "length acc < 256"
  shows "Check t' m v2 = (False, v2)"
  using no_replay [OF assms(1-3)] assms(4) by (simp add: msgIDReplayCapacity_def)

theorem validator_rejects_replay_witness:
  "Check 5 21474836481 newMsgIDValidator =
     (True, \<lparr>mv_ids = [21474836481], mv_idSet = {21474836481}\<rparr>) \<and>
   Check 7 21474836481 \<lparr>mv_ids = [21474836481], mv_idSet = {21474836481}\<rparr> =
     (False, \<lparr>mv_ids = [21474836481], mv_idSet = {21474836481}\<rparr>)"
proof -
  have "Check 5 21474836481 newMsgIDValidator =
     (True, \<lparr>mv_ids = [21474836481], mv_idSet = {21474836481}\<rparr>)" by code_simp
  from this validator_rejects_replay [OF validator_inv_new this, of "[]"] show ?thesis by simp
qed

end
