(* ===== verification/Session_Types.thy ===== *)
theory Session_Types
  imports TL_Object
begin

text \<open>
  Errors of the session layer (\<^verbatim>\<open>src/internal/session/errors.go\<close>) with Go's \<^verbatim>\<open>errors.Is\<close> and
  \<^verbatim>\<open>errors.As\<close> on wrapped errors, their classification for reconnects, and the values an RPC caller
  can receive. \<^verbatim>\<open>deliveryFailure\<close> of \<^verbatim>\<open>session.go\<close> is here because it only handles errors.
\<close>

datatype sentinel =
    ErrAuthKeyNotSet | ErrTransportNotSet | ErrSendTimeout | ErrSessionClosed | ErrConnectNoAuthKey
  | ErrDraining | ErrNotConnected | ErrSHA1Mismatch | ErrNonceMismatch | ErrDHParamsFail
  | ErrDHNonceMismatch | ErrNewNonceHashMismatch | ErrDHGenRetry | ErrDHGenFail
  | ErrServerNonceMismatch | ErrDHPrimeInvalid | ErrGAOutOfRange | ErrGBOutOfRange | ErrBusy
  | ErrWriteCircuitOpen | ErrMsgNotReceived | ErrRPCDropped | ErrBatcherClosed | IoEOF | CtxCanceled
  | CtxDeadlineExceeded

datatype delivery_state = DeliveryUnknown | DeliveryReceived

text \<open>An error value: a sentinel, an error wrapping another with \<^verbatim>\<open>%w\<close>, a DeliveryError, the typed
  errors of other packages that the session inspects, a network error with its \<^verbatim>\<open>Timeout()\<close> answer.\<close>

datatype session_error =
    Sentinel sentinel
  | Wrapped session_error
  | DeliveryError delivery_state session_error
  | SecurityCheckMismatch
  | TransportError int
  | NetError bool
  | TLError tl_error
  | InvalidContainer i64
  | OtherError

fun errors_is :: "session_error \<Rightarrow> sentinel \<Rightarrow> bool" where
  "errors_is (Sentinel s) t \<longleftrightarrow> s = t"
| "errors_is (Wrapped e) t \<longleftrightarrow> errors_is e t"
| "errors_is (DeliveryError _ e) t \<longleftrightarrow> errors_is e t"
| "errors_is _ t \<longleftrightarrow> False"

fun errors_as_delivery :: "session_error \<Rightarrow> bool" where
  "errors_as_delivery (DeliveryError _ _) \<longleftrightarrow> True"
| "errors_as_delivery (Wrapped e) \<longleftrightarrow> errors_as_delivery e"
| "errors_as_delivery _ \<longleftrightarrow> False"

datatype error_class =
  ClassTransient | ClassPermanent | ClassClosed | ClassRateLimited | ClassMigrate | ClassUnknown

text \<open>The last test is a type assertion on the error itself, not on what it wraps.\<close>

definition ClassifyError :: "session_error option \<Rightarrow> error_class" where
  "ClassifyError err =
     (case err of
        None \<Rightarrow> ClassUnknown
      | Some e \<Rightarrow>
          if errors_is e ErrSessionClosed \<or> errors_is e ErrDraining then ClassClosed
          else if errors_is e ErrWriteCircuitOpen then ClassPermanent
          else if errors_is e IoEOF then ClassClosed
          else if e = NetError True then ClassTransient
          else ClassUnknown)"

text \<open>\<open>acked\<close> is \<^verbatim>\<open>handle != nil && handle.IsAcked()\<close>.\<close>

definition deliveryFailure :: "bool \<Rightarrow> session_error option \<Rightarrow> session_error option" where
  "deliveryFailure acked err =
     (case err of
        None \<Rightarrow> None
      | Some e \<Rightarrow>
          if errors_is e ErrMsgNotReceived \<or> errors_is e ErrRPCDropped then Some e
          else if errors_as_delivery e then Some e
          else Some (DeliveryError (if acked then DeliveryReceived else DeliveryUnknown) e))"

text \<open>What completes a decoded call: a TL object, or one of the service messages the receive path builds.\<close>

datatype rpc_value =
    ResultObject tl_object
  | ResultPong i64 i64
  | ResultBadMsg i64 u32 u32
  | ResultBadSalt i64 u32 u32 i64

lemma errors_is_delivery [simp]: "errors_is (DeliveryError st e) t = errors_is e t"
  by simp

lemma deliveryFailure_idem: "deliveryFailure a (deliveryFailure b err) = deliveryFailure b err"
  by (auto simp: deliveryFailure_def split: option.split)

lemma deliveryFailure_is:
  "deliveryFailure acked (Some e) = Some e' \<Longrightarrow> errors_is e' t = errors_is e t"
  by (auto simp: deliveryFailure_def split: if_splits)

end
