(* ===== verification/Pending_Calls.thy ===== *)
theory Pending_Calls
  imports Session_Types
begin

text \<open>
  The pending-call table of \<^verbatim>\<open>src/internal/session/pending.go\<close>. Call handles are shared between the
  table and the waiting callers, so they live in an explicit store: \<open>pm_heap\<close> is the list of all
  handles ever allocated and a handle's address is its index. Each operation is one atomic step,
  as its lock makes it; the time source is an argument.
\<close>

section \<open>Handles\<close>

record call_handle =
  ch_done :: bool
  ch_result :: "rpc_value option"
  ch_rawResult :: "bytes option"
  ch_err :: "session_error option"
  ch_isRaw :: bool
  ch_sentAt :: int
  ch_acked :: bool
  ch_payload :: "bytes option"
  ch_resendSeqNo :: u32
  ch_resendBodyRaw :: "bytes option"

definition new_handle :: "bool \<Rightarrow> int \<Rightarrow> call_handle" where
  "new_handle isRaw now =
     \<lparr>ch_done = False, ch_result = None, ch_rawResult = None, ch_err = None, ch_isRaw = isRaw,
      ch_sentAt = now, ch_acked = False, ch_payload = None, ch_resendSeqNo = 0,
      ch_resendBodyRaw = None\<rparr>"

text \<open>A byte slice that may be nil is an option.\<close>

definition StorePayload :: "bytes option \<Rightarrow> call_handle \<Rightarrow> call_handle" where
  "StorePayload p h = h\<lparr>ch_payload := p\<rparr>"

definition StoreResendMessage :: "u32 \<Rightarrow> bytes option \<Rightarrow> call_handle \<Rightarrow> call_handle" where
  "StoreResendMessage seqNo body h = h\<lparr>ch_resendSeqNo := seqNo, ch_resendBodyRaw := body\<rparr>"

definition Handle_GetResendMessage :: "call_handle \<Rightarrow> (u32 \<times> bytes) option" where
  "Handle_GetResendMessage h =
     (case ch_resendBodyRaw h of None \<Rightarrow> None | Some b \<Rightarrow> Some (ch_resendSeqNo h, b))"

definition Result :: "call_handle \<Rightarrow> rpc_value option \<times> bytes option \<times> session_error option" where
  "Result h = (ch_result h, ch_rawResult h, ch_err h)"

text \<open>\<^verbatim>\<open>complete(fn)\<close>: the sync.Once runs \<open>fn\<close> and closes the channel the first time only.\<close>

definition complete :: "(call_handle \<Rightarrow> call_handle) \<Rightarrow> call_handle \<Rightarrow> bool \<times> call_handle" where
  "complete fn h = (if ch_done h then (False, h) else (True, (fn h)\<lparr>ch_done := True\<rparr>))"

section \<open>The manager\<close>

record pending_manager =
  pm_pending :: "(i64 \<times> nat) list"
  pm_maxPending :: int
  pm_totalPending :: int
  pm_rawPending :: int
  pm_decodedPending :: int
  pm_heap :: "call_handle list"

definition NewPendingManager :: pending_manager where
  "NewPendingManager =
     \<lparr>pm_pending = [], pm_maxPending = 1024, pm_totalPending = 0, pm_rawPending = 0,
      pm_decodedPending = 0, pm_heap = []\<rparr>"

definition SetMaxPending :: "int \<Rightarrow> pending_manager \<Rightarrow> pending_manager" where
  "SetMaxPending n pm = pm\<lparr>pm_maxPending := n\<rparr>"

definition Register ::
  "int \<Rightarrow> i64 \<Rightarrow> bool \<Rightarrow> pending_manager \<Rightarrow> (session_error + nat) \<times> pending_manager" where
  "Register now msgID isRaw pm =
     (if pm_maxPending pm > 0 \<and> int (length (pm_pending pm)) \<ge> pm_maxPending pm
      then (Inl (Sentinel ErrBusy), pm)
      else
        let a = length (pm_heap pm);
            pm1 = pm\<lparr>pm_heap := pm_heap pm @ [new_handle isRaw now],
                     pm_pending := AList.update msgID a (pm_pending pm),
                     pm_totalPending := pm_totalPending pm + 1\<rparr>
        in (Inr a,
            if isRaw then pm1\<lparr>pm_rawPending := pm_rawPending pm + 1\<rparr>
            else pm1\<lparr>pm_decodedPending := pm_decodedPending pm + 1\<rparr>))"

definition pm_remove :: "i64 \<Rightarrow> pending_manager \<Rightarrow> nat option \<times> pending_manager" where
  "pm_remove msgID pm =
     (case map_of (pm_pending pm) msgID of
        None \<Rightarrow> (None, pm)
      | Some a \<Rightarrow> (Some a, pm\<lparr>pm_pending := AList.delete msgID (pm_pending pm)\<rparr>))"

definition pm_dec :: "bool \<Rightarrow> pending_manager \<Rightarrow> pending_manager" where
  "pm_dec isRaw pm =
     (let pm1 = pm\<lparr>pm_totalPending := pm_totalPending pm - 1\<rparr>
      in if isRaw then pm1\<lparr>pm_rawPending := pm_rawPending pm - 1\<rparr>
         else pm1\<lparr>pm_decodedPending := pm_decodedPending pm - 1\<rparr>)"

text \<open>Resolve, ResolveRaw and Reject share one body: remove, complete with \<open>fn\<close>, decrement.\<close>

definition pm_finish ::
  "(call_handle \<Rightarrow> call_handle) \<Rightarrow> i64 \<Rightarrow> pending_manager \<Rightarrow> bool \<times> pending_manager" where
  "pm_finish fn msgID pm =
     (case pm_remove msgID pm of
        (None, pm1) \<Rightarrow> (False, pm1)
      | (Some a, pm1) \<Rightarrow>
          let (first, h) = complete fn (pm_heap pm1 ! a);
              pm2 = pm1\<lparr>pm_heap := (pm_heap pm1)[a := h]\<rparr>
          in if first then (True, pm_dec (ch_isRaw h) pm2) else (False, pm2))"

definition Resolve :: "i64 \<Rightarrow> rpc_value \<Rightarrow> pending_manager \<Rightarrow> bool \<times> pending_manager" where
  "Resolve msgID obj pm = pm_finish (\<lambda>h. h\<lparr>ch_result := Some obj\<rparr>) msgID pm"

definition ResolveRaw :: "i64 \<Rightarrow> bytes \<Rightarrow> pending_manager \<Rightarrow> bool \<times> pending_manager" where
  "ResolveRaw msgID data pm = pm_finish (\<lambda>h. h\<lparr>ch_rawResult := Some data\<rparr>) msgID pm"

definition Reject :: "i64 \<Rightarrow> session_error \<Rightarrow> pending_manager \<Rightarrow> bool \<times> pending_manager" where
  "Reject msgID err pm = pm_finish (\<lambda>h. h\<lparr>ch_err := Some err\<rparr>) msgID pm"

definition ResolveRPCResult :: "i64 \<Rightarrow> bytes \<Rightarrow> pending_manager \<Rightarrow> bool \<times> pending_manager" where
  "ResolveRPCResult reqMsgID rawPayload pm =
     (case map_of (pm_pending pm) reqMsgID of
        None \<Rightarrow> (False, pm)
      | Some a \<Rightarrow>
          if ch_isRaw (pm_heap pm ! a)
          then let pm1 = pm\<lparr>pm_pending := AList.delete reqMsgID (pm_pending pm)\<rparr>;
                   (_, h) = complete (\<lambda>h. h\<lparr>ch_rawResult := Some rawPayload\<rparr>) (pm_heap pm1 ! a)
               in (False, pm_dec True (pm1\<lparr>pm_heap := (pm_heap pm1)[a := h]\<rparr>))
          else (True, pm))"

definition Cancel :: "i64 \<Rightarrow> pending_manager \<Rightarrow> bool \<times> pending_manager" where
  "Cancel msgID pm =
     (case pm_remove msgID pm of
        (None, pm1) \<Rightarrow> (False, pm1)
      | (Some a, pm1) \<Rightarrow> (True, pm_dec (ch_isRaw (pm_heap pm1 ! a)) pm1))"

text \<open>The loop of RejectAll over the handles it took out of the map.\<close>

primrec reject_handles :: "session_error \<Rightarrow> nat list \<Rightarrow> call_handle list \<Rightarrow> call_handle list" where
  "reject_handles err [] heap = heap"
| "reject_handles err (a # as) heap =
     reject_handles err as (heap[a := snd (complete (\<lambda>h. h\<lparr>ch_err := Some err\<rparr>) (heap ! a))])"

definition RejectAll :: "session_error \<Rightarrow> pending_manager \<Rightarrow> pending_manager" where
  "RejectAll err pm =
     (let handles = map snd (pm_pending pm);
          total = length handles;
          raw = length (filter (\<lambda>a. ch_isRaw (pm_heap pm ! a)) handles);
          decoded = length (filter (\<lambda>a. \<not> ch_isRaw (pm_heap pm ! a)) handles)
      in pm\<lparr>pm_pending := [],
            pm_heap := reject_handles err handles (pm_heap pm),
            pm_totalPending := pm_totalPending pm - int total,
            pm_rawPending := pm_rawPending pm - int raw,
            pm_decodedPending := pm_decodedPending pm - int decoded\<rparr>)"

definition Pending_Has :: "i64 \<Rightarrow> pending_manager \<Rightarrow> bool" where
  "Pending_Has msgID pm \<longleftrightarrow> map_of (pm_pending pm) msgID \<noteq> None"

definition HasRaw :: "i64 \<Rightarrow> pending_manager \<Rightarrow> bool" where
  "HasRaw msgID pm \<longleftrightarrow>
     (case map_of (pm_pending pm) msgID of None \<Rightarrow> False | Some a \<Rightarrow> ch_isRaw (pm_heap pm ! a))"

definition HasAny :: "pending_manager \<Rightarrow> bool" where
  "HasAny pm \<longleftrightarrow> pm_totalPending pm > 0"

definition HasAnyRaw :: "pending_manager \<Rightarrow> bool" where
  "HasAnyRaw pm \<longleftrightarrow> pm_rawPending pm > 0"

definition HasAnyDecoded :: "pending_manager \<Rightarrow> bool" where
  "HasAnyDecoded pm \<longleftrightarrow> pm_decodedPending pm > 0"

definition pm_update :: "i64 \<Rightarrow> (call_handle \<Rightarrow> call_handle) \<Rightarrow> pending_manager \<Rightarrow> pending_manager" where
  "pm_update msgID fn pm =
     (case map_of (pm_pending pm) msgID of
        None \<Rightarrow> pm
      | Some a \<Rightarrow> pm\<lparr>pm_heap := (pm_heap pm)[a := fn (pm_heap pm ! a)]\<rparr>)"

definition MarkAcked :: "i64 \<Rightarrow> pending_manager \<Rightarrow> pending_manager" where
  "MarkAcked msgID pm = pm_update msgID (\<lambda>h. h\<lparr>ch_acked := True\<rparr>) pm"

definition GetPayload :: "i64 \<Rightarrow> pending_manager \<Rightarrow> bytes option" where
  "GetPayload msgID pm =
     (case map_of (pm_pending pm) msgID of None \<Rightarrow> None | Some a \<Rightarrow> ch_payload (pm_heap pm ! a))"

definition GetResendMessage :: "i64 \<Rightarrow> pending_manager \<Rightarrow> (u32 \<times> bytes) option" where
  "GetResendMessage msgID pm =
     (case map_of (pm_pending pm) msgID of
        None \<Rightarrow> None | Some a \<Rightarrow> Handle_GetResendMessage (pm_heap pm ! a))"

definition OverduePending :: "int \<Rightarrow> int \<Rightarrow> pending_manager \<Rightarrow> i64 list" where
  "OverduePending now threshold pm =
     (let cutoff = now - threshold
      in map fst (filter (\<lambda>(m, a). \<not> ch_acked (pm_heap pm ! a) \<and> \<not> ch_sentAt (pm_heap pm ! a) > cutoff)
           (pm_pending pm)))"

section \<open>Sequences of operations\<close>

text \<open>One operation of the manager or of a handle it gave out (by address).\<close>

datatype pm_op =
    OpSetMax int
  | OpRegister int i64 bool
  | OpResolve i64 rpc_value
  | OpResolveRaw i64 bytes
  | OpReject i64 session_error
  | OpRPCResult i64 bytes
  | OpCancel i64
  | OpRejectAll session_error
  | OpMarkAcked i64
  | OpStorePayload nat "bytes option"
  | OpStoreResend nat u32 "bytes option"

definition heap_update :: "nat \<Rightarrow> (call_handle \<Rightarrow> call_handle) \<Rightarrow> pending_manager \<Rightarrow> pending_manager" where
  "heap_update a fn pm = pm\<lparr>pm_heap := (pm_heap pm)[a := fn (pm_heap pm ! a)]\<rparr>"

fun pm_exec :: "pending_manager \<Rightarrow> pm_op \<Rightarrow> pending_manager" where
  "pm_exec pm (OpSetMax n) = SetMaxPending n pm"
| "pm_exec pm (OpRegister now m isRaw) = snd (Register now m isRaw pm)"
| "pm_exec pm (OpResolve m v) = snd (Resolve m v pm)"
| "pm_exec pm (OpResolveRaw m d) = snd (ResolveRaw m d pm)"
| "pm_exec pm (OpReject m e) = snd (Reject m e pm)"
| "pm_exec pm (OpRPCResult m d) = snd (ResolveRPCResult m d pm)"
| "pm_exec pm (OpCancel m) = snd (Cancel m pm)"
| "pm_exec pm (OpRejectAll e) = RejectAll e pm"
| "pm_exec pm (OpMarkAcked m) = MarkAcked m pm"
| "pm_exec pm (OpStorePayload a p) = heap_update a (StorePayload p) pm"
| "pm_exec pm (OpStoreResend a n b) = heap_update a (StoreResendMessage n b) pm"

text \<open>What the session guarantees: a message id is registered only while it is not in the table.\<close>

fun pm_op_fresh :: "pending_manager \<Rightarrow> pm_op \<Rightarrow> bool" where
  "pm_op_fresh pm (OpRegister now m isRaw) \<longleftrightarrow> \<not> Pending_Has m pm"
| "pm_op_fresh pm _ \<longleftrightarrow> True"

inductive pm_reachable :: "pending_manager \<Rightarrow> bool" where
  init: "pm_reachable NewPendingManager"
| step: "pm_reachable pm \<Longrightarrow> pm_op_fresh pm op \<Longrightarrow> pm_reachable (pm_exec pm op)"

section \<open>The invariant\<close>

definition raw_count :: "bool \<Rightarrow> pending_manager \<Rightarrow> nat" where
  "raw_count r pm = length (filter (\<lambda>e. ch_isRaw (pm_heap pm ! snd e) = r) (pm_pending pm))"

text \<open>A handle whose call is still waiting: not completed, and no outcome stored.\<close>

definition handle_live :: "call_handle \<Rightarrow> bool" where
  "handle_live h \<longleftrightarrow> \<not> ch_done h \<and> Result h = (None, None, None)"

definition pm_inv :: "pending_manager \<Rightarrow> bool" where
  "pm_inv pm \<longleftrightarrow>
     gm_wf (pm_pending pm) \<and>
     distinct (map snd (pm_pending pm)) \<and>
     (\<forall>a \<in> snd ` set (pm_pending pm). a < length (pm_heap pm) \<and> handle_live (pm_heap pm ! a)) \<and>
     pm_totalPending pm = int (length (pm_pending pm)) \<and>
     pm_rawPending pm = int (raw_count True pm) \<and>
     pm_decodedPending pm = int (raw_count False pm)"

lemma pm_inv_entry:
  assumes "pm_inv pm" and "map_of (pm_pending pm) m = Some a"
  shows "a < length (pm_heap pm)" and "handle_live (pm_heap pm ! a)" and "\<not> ch_done (pm_heap pm ! a)"
  using assms by (auto simp: pm_inv_def handle_live_def dest!: map_of_SomeD)

text \<open>Two managers with one table, whose handles agree on the flags the invariant reads.\<close>

definition same_flags :: "call_handle list \<Rightarrow> call_handle list \<Rightarrow> bool" where
  "same_flags hs hs' \<longleftrightarrow>
     length hs' = length hs \<and>
     (\<forall>a. ch_isRaw (hs' ! a) = ch_isRaw (hs ! a) \<and> handle_live (hs' ! a) = handle_live (hs ! a))"

lemma same_flags_update:
  "ch_isRaw h = ch_isRaw (hs ! a) \<Longrightarrow> handle_live h = handle_live (hs ! a) \<Longrightarrow> same_flags hs (hs[a := h])"
  by (simp add: same_flags_def nth_update_same [where f = ch_isRaw] nth_update_same [where f = handle_live])

lemma pm_inv_same_flags:
  assumes "pm_inv pm" and "same_flags (pm_heap pm) hs"
  shows "pm_inv (pm\<lparr>pm_heap := hs\<rparr>)"
  using assms by (simp add: pm_inv_def same_flags_def raw_count_def)

lemma pm_inv_heap_update [inv_intros]:
  "pm_inv pm \<Longrightarrow> (\<And>h. ch_isRaw (fn h) = ch_isRaw h \<and> handle_live (fn h) = handle_live h)
    \<Longrightarrow> pm_inv (heap_update a fn pm)"
  unfolding heap_update_def by (rule pm_inv_same_flags) (auto intro: same_flags_update)

lemma pm_update_heap_update:
  "pm_update m fn pm =
     (case map_of (pm_pending pm) m of None \<Rightarrow> pm | Some a \<Rightarrow> heap_update a fn pm)"
  by (simp add: pm_update_def heap_update_def split: option.split)

lemma pm_inv_MarkAcked [inv_intros]: "pm_inv pm \<Longrightarrow> pm_inv (MarkAcked m pm)"
  by (auto simp: MarkAcked_def pm_update_heap_update handle_live_def Result_def
      split: option.split intro: inv_intros)

lemma pm_inv_New: "pm_inv NewPendingManager"
  by (simp add: pm_inv_def NewPendingManager_def raw_count_def)

lemma pm_inv_SetMax [inv_intros]: "pm_inv pm \<Longrightarrow> pm_inv (SetMaxPending n pm)"
  by (simp add: pm_inv_def SetMaxPending_def raw_count_def)

text \<open>The state after a registration that is not refused.\<close>

definition pm_added :: "i64 \<Rightarrow> call_handle \<Rightarrow> pending_manager \<Rightarrow> pending_manager" where
  "pm_added m h pm = pm\<lparr>
     pm_heap := pm_heap pm @ [h],
     pm_pending := pm_pending pm @ [(m, length (pm_heap pm))],
     pm_totalPending := pm_totalPending pm + 1,
     pm_rawPending := pm_rawPending pm + (if ch_isRaw h then 1 else 0),
     pm_decodedPending := pm_decodedPending pm + (if ch_isRaw h then 0 else 1)\<rparr>"

lemma raw_count_added:
  assumes "pm_inv pm"
  shows "raw_count r (pm_added m h pm) = raw_count r pm + (if ch_isRaw h = r then 1 else 0)"
proof -
  have "filter (\<lambda>e. ch_isRaw ((pm_heap pm @ [h]) ! snd e) = r) (pm_pending pm) =
        filter (\<lambda>e. ch_isRaw (pm_heap pm ! snd e) = r) (pm_pending pm)"
    using assms by (intro filter_cong) (auto simp: pm_inv_def nth_append)
  then show ?thesis by (simp add: raw_count_def pm_added_def)
qed

lemma pm_inv_added:
  assumes "pm_inv pm" and "\<not> Pending_Has m pm" and "handle_live h"
  shows "pm_inv (pm_added m h pm)"
proof -
  let ?p = "pm_pending pm" and ?n = "length (pm_heap pm)"
  have live: "\<forall>a \<in> snd ` set ?p. a < ?n \<and> handle_live (pm_heap pm ! a)"
    using assms(1) by (simp add: pm_inv_def)
  have keys: "m \<notin> fst ` set ?p"
    using assms(2) by (simp add: Pending_Has_def map_of_eq_None_iff)
  have "?n \<notin> snd ` set ?p"
    using live by blast
  moreover have "\<forall>a \<in> snd ` set (?p @ [(m, ?n)]).
      a < Suc ?n \<and> handle_live ((pm_heap pm @ [h]) ! a)"
    using live assms(3) by (simp add: nth_append less_SucI)
  ultimately show ?thesis
    using assms(1) keys unfolding pm_inv_def raw_count_added [OF assms(1)]
    by (simp add: pm_added_def)
qed

lemma Register_cases:
  assumes "\<not> Pending_Has m pm"
  shows "Register now m isRaw pm =
    (if pm_maxPending pm > 0 \<and> int (length (pm_pending pm)) \<ge> pm_maxPending pm
     then (Inl (Sentinel ErrBusy), pm)
     else (Inr (length (pm_heap pm)), pm_added m (new_handle isRaw now) pm))"
  using assms by (simp add: Register_def pm_added_def Pending_Has_def gm_put_new new_handle_def Let_def)

lemma pm_inv_Register [inv_intros]:
  "pm_inv pm \<Longrightarrow> \<not> Pending_Has m pm \<Longrightarrow> pm_inv (snd (Register now m isRaw pm))"
  by (simp add: Register_cases pm_inv_added new_handle_def handle_live_def Result_def)

lemma pm_dec_fields [simp]:
  "pm_pending (pm_dec r pm) = pm_pending pm"
  "pm_heap (pm_dec r pm) = pm_heap pm"
  "pm_maxPending (pm_dec r pm) = pm_maxPending pm"
  "pm_totalPending (pm_dec r pm) = pm_totalPending pm - 1"
  "pm_rawPending (pm_dec r pm) = pm_rawPending pm - (if r then 1 else 0)"
  "pm_decodedPending (pm_dec r pm) = pm_decodedPending pm - (if r then 0 else 1)"
  by (simp_all add: pm_dec_def Let_def)

text \<open>The state after an entry was taken out: its handle replaced, its counters decremented.\<close>

definition pm_taken :: "i64 \<Rightarrow> nat \<Rightarrow> call_handle \<Rightarrow> pending_manager \<Rightarrow> pending_manager" where
  "pm_taken m a h pm =
     pm_dec (ch_isRaw (pm_heap pm ! a))
       (pm\<lparr>pm_pending := AList.delete m (pm_pending pm), pm_heap := (pm_heap pm)[a := h]\<rparr>)"

lemma raw_count_taken:
  assumes "pm_inv pm" and "map_of (pm_pending pm) m = Some a"
    and "ch_isRaw h = ch_isRaw (pm_heap pm ! a)"
  shows "raw_count r (pm_taken m a h pm) + (if ch_isRaw h = r then 1 else 0) = raw_count r pm"
  using gm_count_delete [of "pm_pending pm" m a "\<lambda>e. ch_isRaw (pm_heap pm ! snd e) = r"] assms
  by (simp add: raw_count_def pm_taken_def nth_update_same [where f = ch_isRaw] pm_inv_def)

lemma pm_inv_taken:
  assumes "pm_inv pm" and m: "map_of (pm_pending pm) m = Some a"
    and "ch_isRaw h = ch_isRaw (pm_heap pm ! a)"
  shows "pm_inv (pm_taken m a h pm)"
proof -
  let ?d = "AList.delete m (pm_pending pm)"
  have wf: "gm_wf (pm_pending pm)" "distinct (map snd (pm_pending pm))"
    and live: "\<forall>a \<in> snd ` set (pm_pending pm). a < length (pm_heap pm) \<and> handle_live (pm_heap pm ! a)"
    and counts: "pm_totalPending pm = int (length (pm_pending pm))"
      "pm_rawPending pm = int (raw_count True pm)" "pm_decodedPending pm = int (raw_count False pm)"
    using assms(1) by (simp_all add: pm_inv_def)
  have 1: "b < length (pm_heap pm) \<and> handle_live ((pm_heap pm)[a := h] ! b)"
    if b: "b \<in> snd ` set ?d" for b
  proof -
    have "b \<noteq> a"
      using gm_delete_snd_notin [OF wf(2) m] b by blast
    moreover have "b \<in> snd ` set (pm_pending pm)"
      using b image_mono [OF gm_delete_subset] by (rule rev_subsetD)
    ultimately show ?thesis
      using bspec [OF live] by simp
  qed
  have 2: "Suc (length ?d) = length (pm_pending pm)"
    by (rule gm.len_del_present [OF wf(1) m])
  show ?thesis
    unfolding pm_inv_def
  proof (intro conjI)
    show "gm_wf (pm_pending (pm_taken m a h pm))"
      by (simp add: pm_taken_def distinct_delete wf(1))
    show "distinct (map snd (pm_pending (pm_taken m a h pm)))"
      by (simp add: pm_taken_def gm_delete_distinct_snd wf(2))
    show "pm_totalPending (pm_taken m a h pm) = int (length (pm_pending (pm_taken m a h pm)))"
      using 2 by (simp add: pm_taken_def counts(1))
    show "pm_rawPending (pm_taken m a h pm) = int (raw_count True (pm_taken m a h pm))"
      using raw_count_taken [OF assms, of True] assms(3) counts(2)
      by (simp add: pm_taken_def split: if_splits)
    show "pm_decodedPending (pm_taken m a h pm) = int (raw_count False (pm_taken m a h pm))"
      using raw_count_taken [OF assms, of False] assms(3) counts(3)
      by (simp add: pm_taken_def split: if_splits)
  qed (use 1 in \<open>simp add: pm_taken_def\<close>)
qed

lemma pm_finish_cases:
  assumes "pm_inv pm"
  shows "pm_finish fn m pm =
    (case map_of (pm_pending pm) m of
       None \<Rightarrow> (False, pm)
     | Some a \<Rightarrow>
         let h = (fn (pm_heap pm ! a))\<lparr>ch_done := True\<rparr>
         in (True, pm_dec (ch_isRaw h)
              (pm\<lparr>pm_pending := AList.delete m (pm_pending pm), pm_heap := (pm_heap pm)[a := h]\<rparr>)))"
  using pm_inv_entry [OF assms, of m]
  by (simp add: pm_finish_def pm_remove_def complete_def Let_def split: option.split)

lemma pm_inv_finish [inv_intros]:
  assumes "pm_inv pm" and "\<And>h. ch_isRaw (fn h) = ch_isRaw h"
  shows "pm_inv (snd (pm_finish fn m pm))"
proof (cases "map_of (pm_pending pm) m")
  case (Some a)
  then show ?thesis
    using pm_inv_taken [OF assms(1) Some, of "(fn (pm_heap pm ! a))\<lparr>ch_done := True\<rparr>"] assms
    by (simp add: pm_finish_cases Let_def pm_taken_def)
qed (simp add: pm_finish_cases assms)

lemma pm_inv_RPCResult [inv_intros]:
  assumes "pm_inv pm"
  shows "pm_inv (snd (ResolveRPCResult m d pm))"
proof (cases "map_of (pm_pending pm) m")
  case (Some a)
  then show ?thesis
    using pm_inv_taken [OF assms Some, of "(pm_heap pm ! a)\<lparr>ch_rawResult := Some d, ch_done := True\<rparr>"]
      pm_inv_entry [OF assms Some] assms
    by (auto simp: ResolveRPCResult_def complete_def Let_def pm_taken_def)
qed (simp add: ResolveRPCResult_def assms)

lemma pm_inv_Cancel [inv_intros]:
  assumes "pm_inv pm"
  shows "pm_inv (snd (Cancel m pm))"
proof (cases "map_of (pm_pending pm) m")
  case (Some a)
  then show ?thesis
    using pm_inv_taken [OF assms Some, of "pm_heap pm ! a"]
    by (simp add: Cancel_def pm_remove_def pm_taken_def)
qed (simp add: Cancel_def pm_remove_def assms)

lemma pm_inv_RejectAll [inv_intros]: "pm_inv pm \<Longrightarrow> pm_inv (RejectAll e pm)"
  by (simp add: pm_inv_def RejectAll_def Let_def raw_count_def filter_map comp_def)

lemma pm_inv_exec: "pm_inv pm \<Longrightarrow> pm_op_fresh pm op \<Longrightarrow> pm_inv (pm_exec pm op)"
  by (cases op)
    (auto simp: Resolve_def ResolveRaw_def Reject_def StorePayload_def StoreResendMessage_def
        handle_live_def Result_def
      intro!: inv_intros)

lemma pm_reachable_inv: "pm_reachable pm \<Longrightarrow> pm_inv pm"
  by (induction rule: pm_reachable.induct) (auto intro: pm_inv_New pm_inv_exec)

lemma raw_count_pos: "gm_wf (pm_pending pm) \<Longrightarrow> 0 < raw_count r pm \<longleftrightarrow>
    (\<exists>m a. map_of (pm_pending pm) m = Some a \<and> ch_isRaw (pm_heap pm ! a) = r)"
  by (force simp: raw_count_def filter_empty_conv simp flip: gm_in_set)

section \<open>Single completion\<close>

text \<open>What an operation may do to a handle: a completed one keeps its outcome.\<close>

definition keeps_done :: "call_handle list \<Rightarrow> call_handle list \<Rightarrow> bool" where
  "keeps_done hs hs' \<longleftrightarrow>
     length hs \<le> length hs' \<and>
     (\<forall>a < length hs. ch_done (hs ! a) \<longrightarrow> ch_done (hs' ! a) \<and> Result (hs' ! a) = Result (hs ! a))"

lemma keeps_done_refl [simp]: "keeps_done hs hs"
  by (simp add: keeps_done_def)

lemma keeps_done_trans: "keeps_done hs hs' \<Longrightarrow> keeps_done hs' hs'' \<Longrightarrow> keeps_done hs hs''"
  by (auto simp: keeps_done_def)

lemma keeps_done_append [simp]: "keeps_done hs (hs @ hs')"
  by (simp add: keeps_done_def nth_append)

lemma keeps_done_update:
  "ch_done (hs ! a) \<longrightarrow> ch_done h \<and> Result h = Result (hs ! a) \<Longrightarrow> keeps_done hs (hs[a := h])"
  by (auto simp: keeps_done_def nth_update_read)

lemma keeps_done_complete: "keeps_done hs (hs[a := snd (complete fn (hs ! a))])"
  by (rule keeps_done_update) (simp add: complete_def)

lemma keeps_done_reject_handles: "keeps_done hs (reject_handles e as hs)"
proof (induction as arbitrary: hs)
  case (Cons a as)
  show ?case
    unfolding reject_handles.simps by (rule keeps_done_trans [OF keeps_done_complete Cons.IH])
qed simp

lemma keeps_done_finish: "keeps_done (pm_heap pm) (pm_heap (snd (pm_finish fn m pm)))"
proof (cases "map_of (pm_pending pm) m")
  case (Some a)
  then show ?thesis
    using keeps_done_complete [of "pm_heap pm" a fn]
    by (simp add: pm_finish_def pm_remove_def Let_def case_prod_beta)
qed (simp add: pm_finish_def pm_remove_def)

lemma keeps_done_RPCResult: "keeps_done (pm_heap pm) (pm_heap (snd (ResolveRPCResult m d pm)))"
proof (cases "map_of (pm_pending pm) m")
  case (Some a)
  then show ?thesis
    using keeps_done_complete [of "pm_heap pm" a]
    by (simp add: ResolveRPCResult_def Let_def case_prod_beta)
qed (simp add: ResolveRPCResult_def)

lemma keeps_done_heap_update:
  "(\<And>h. ch_done (fn h) = ch_done h \<and> Result (fn h) = Result h)
    \<Longrightarrow> keeps_done (pm_heap pm) (pm_heap (heap_update a fn pm))"
  by (simp add: heap_update_def keeps_done_update)

lemma keeps_done_exec: "keeps_done (pm_heap pm) (pm_heap (pm_exec pm op))"
proof (cases op)
  case (OpMarkAcked m)
  then show ?thesis
    by (cases "map_of (pm_pending pm) m")
      (simp_all add: MarkAcked_def pm_update_heap_update keeps_done_heap_update Result_def)
qed (simp_all add: SetMaxPending_def Register_def Let_def Resolve_def ResolveRaw_def Reject_def
    keeps_done_finish keeps_done_RPCResult Cancel_def pm_remove_def RejectAll_def
    keeps_done_reject_handles keeps_done_heap_update StorePayload_def StoreResendMessage_def Result_def
    split: option.split)

lemma keeps_done_run: "keeps_done (pm_heap pm) (pm_heap (foldl pm_exec pm ops))"
  by (induction ops arbitrary: pm) (auto intro: keeps_done_trans keeps_done_exec)

lemma run_keeps_done:
  assumes "a < length (pm_heap pm)" and "ch_done (pm_heap pm ! a)"
  shows "ch_done (pm_heap (foldl pm_exec pm ops) ! a)"
    and "Result (pm_heap (foldl pm_exec pm ops) ! a) = Result (pm_heap pm ! a)"
  using keeps_done_run [of pm ops] assms by (auto simp: keeps_done_def)

lemma reject_handles_length [simp]: "length (reject_handles e as hs) = length hs"
  by (induction as arbitrary: hs) auto

lemma reject_handles_nth:
  "distinct as \<Longrightarrow> a < length hs \<Longrightarrow>
   reject_handles e as hs ! a =
     (if a \<in> set as then snd (complete (\<lambda>h. h\<lparr>ch_err := Some e\<rparr>) (hs ! a)) else hs ! a)"
  by (induction as arbitrary: hs) (auto simp: nth_update_read)

section \<open>Handles lost from the table\<close>

text \<open>A handle that is not completed and not in the table any more.\<close>

definition orphan :: "nat \<Rightarrow> pending_manager \<Rightarrow> bool" where
  "orphan a pm \<longleftrightarrow>
     a < length (pm_heap pm) \<and> a \<notin> snd ` set (pm_pending pm) \<and> \<not> ch_done (pm_heap pm ! a)"

lemma orphan_finish: "orphan a pm \<Longrightarrow> orphan a (snd (pm_finish fn m pm))"
  using gm_delete_subset [of m "pm_pending pm"]
  by (auto simp: orphan_def pm_finish_def pm_remove_def complete_def Let_def nth_update_read rev_image_eqI
      split: option.split dest: map_of_SomeD)

lemma update_snd_subset: "snd ` set (AList.update k v m) \<subseteq> insert v (snd ` set m)"
  by (induction m) auto

lemma orphan_exec: "orphan a pm \<Longrightarrow> orphan a (pm_exec pm op)"
proof (cases op)
  case (OpRegister now m isRaw)
  assume "orphan a pm"
  then show ?thesis
    using update_snd_subset [of m "length (pm_heap pm)" "pm_pending pm"]
    by (auto simp: OpRegister orphan_def Register_def Let_def nth_append)
next
  case (OpRPCResult m d)
  assume "orphan a pm"
  then show ?thesis
    using gm_delete_subset [of m "pm_pending pm"]
    by (auto simp: OpRPCResult orphan_def ResolveRPCResult_def complete_def Let_def nth_update_read
        rev_image_eqI split: option.split dest: map_of_SomeD)
next
  case (OpRejectAll e)
  assume "orphan a pm"
  moreover have "a \<notin> set as \<Longrightarrow> reject_handles e as hs ! a = hs ! a" for as hs
    by (induction as arbitrary: hs) auto
  ultimately show ?thesis
    by (simp add: OpRejectAll orphan_def RejectAll_def Let_def)
next
  case (OpCancel m)
  assume "orphan a pm"
  then show ?thesis
    using gm_delete_subset [of m "pm_pending pm"]
    by (auto simp: OpCancel orphan_def Cancel_def pm_remove_def split: option.split)
qed (auto simp: orphan_def SetMaxPending_def MarkAcked_def pm_update_def heap_update_def StorePayload_def
    StoreResendMessage_def nth_update_read Resolve_def ResolveRaw_def Reject_def split: option.split
    intro!: orphan_finish [unfolded orphan_def])

lemma orphan_run: "orphan a pm \<Longrightarrow> orphan a (foldl pm_exec pm ops)"
  by (induction ops arbitrary: pm) (auto intro: orphan_exec)

section \<open>Properties\<close>

lemma pending_nonempty: "0 < length (pm_pending pm) \<longleftrightarrow> (\<exists>m. Pending_Has m pm)"
  by (cases "pm_pending pm") (auto simp: Pending_Has_def)

text \<open>In every state the manager reaches while ids are registered fresh, the
  three counters are the sizes of the table and of its raw and decoded parts, so HasAny, HasAnyRaw and
  HasAnyDecoded, which read only the counters, answer for the table.\<close>

theorem pending_counters_match_table:
  assumes "pm_reachable pm"
  shows "pm_totalPending pm = int (length (pm_pending pm)) \<and>
         (HasAny pm \<longleftrightarrow> (\<exists>m. Pending_Has m pm)) \<and>
         (HasAnyRaw pm \<longleftrightarrow> (\<exists>m. HasRaw m pm)) \<and>
         (HasAnyDecoded pm \<longleftrightarrow> (\<exists>m. Pending_Has m pm \<and> \<not> HasRaw m pm))"
proof -
  have inv: "pm_inv pm" using assms by (rule pm_reachable_inv)
  then have wf: "gm_wf (pm_pending pm)" by (simp add: pm_inv_def)
  have "HasAnyRaw pm \<longleftrightarrow> 0 < raw_count True pm" and "HasAnyDecoded pm \<longleftrightarrow> 0 < raw_count False pm"
    and "HasAny pm \<longleftrightarrow> 0 < length (pm_pending pm)"
    using inv by (simp_all add: pm_inv_def HasAnyRaw_def HasAnyDecoded_def HasAny_def)
  moreover have "pm_totalPending pm = int (length (pm_pending pm))"
    using inv by (simp add: pm_inv_def)
  ultimately show ?thesis
    using raw_count_pos [OF wf] pending_nonempty [of pm]
    by (auto simp: HasRaw_def Pending_Has_def split: option.splits)
qed

lemma pm_reachable_register:
  "pm_reachable pm \<Longrightarrow> \<not> Pending_Has m pm \<Longrightarrow> pm_reachable (snd (Register now m isRaw pm))"
  using pm_reachable.step [of pm "OpRegister now m isRaw"] by simp

text \<open>A small reachable manager for the witnesses: one raw call 5 and one decoded call 9.\<close>

definition two_calls :: pending_manager where
  "two_calls = snd (Register 11 9 False (snd (Register 10 5 True NewPendingManager)))"

lemma two_calls_reachable: "pm_reachable two_calls"
  unfolding two_calls_def
  by (intro pm_reachable_register pm_reachable.init; code_simp)

theorem pending_counters_match_table_witness:
  "pm_reachable two_calls \<and> HasAnyRaw two_calls \<and> HasRaw 5 two_calls \<and>
   (HasAnyRaw two_calls \<longleftrightarrow> (\<exists>m. HasRaw m two_calls))"
proof -
  have "HasRaw 5 two_calls" by code_simp
  then show ?thesis
    using pending_counters_match_table [OF two_calls_reachable] two_calls_reachable by blast
qed

text \<open>Property C2 (safety): a waiting call is completed exactly once. Resolving it succeeds, stores that
  result alone, and nothing that happens to the manager or to any handle afterwards, a second response
  and RejectAll included, changes what the waiter reads.\<close>

theorem resolved_call_keeps_result:
  assumes "pm_reachable pm" and "map_of (pm_pending pm) m = Some a"
  shows "fst (Resolve m v pm) \<and>
         \<not> Pending_Has m (snd (Resolve m v pm)) \<and>
         ch_done (pm_heap (foldl pm_exec (snd (Resolve m v pm)) ops) ! a) \<and>
         Result (pm_heap (foldl pm_exec (snd (Resolve m v pm)) ops) ! a) = (Some v, None, None)"
proof -
  have inv: "pm_inv pm" using assms(1) by (rule pm_reachable_inv)
  note entry = pm_inv_entry [OF inv assms(2)]
  let ?pm = "snd (Resolve m v pm)"
  have res: "fst (Resolve m v pm)" "a < length (pm_heap ?pm)" "ch_done (pm_heap ?pm ! a)"
    "Result (pm_heap ?pm ! a) = (Some v, None, None)" "\<not> Pending_Has m ?pm"
    using entry by (simp_all add: Resolve_def pm_finish_cases [OF inv] assms(2) Let_def Result_def
        handle_live_def Pending_Has_def delete_conv')
  then show ?thesis
    using run_keeps_done [OF res(2,3), of ops] by simp
qed

theorem resolved_call_keeps_result_witness:
  "map_of (pm_pending two_calls) 9 = Some 1 \<and>
   Result (pm_heap (foldl pm_exec (snd (Resolve 9 (ResultPong 9 1) two_calls))
     [OpReject 9 OtherError, OpResolve 9 (ResultPong 9 2), OpRejectAll OtherError]) ! 1)
     = (Some (ResultPong 9 1), None, None)"
proof -
  have m: "map_of (pm_pending two_calls) 9 = Some 1" by code_simp
  show ?thesis
    using resolved_call_keeps_result [OF two_calls_reachable m] m by blast
qed

text \<open>RejectAll leaves the table empty and every counter at zero, and each
  call that was waiting ends with that error, whatever happens later.\<close>

theorem reject_all_fails_every_waiter:
  assumes "pm_reachable pm"
  shows "pm_pending (RejectAll e pm) = [] \<and> \<not> HasAny (RejectAll e pm) \<and>
         \<not> HasAnyRaw (RejectAll e pm) \<and> \<not> HasAnyDecoded (RejectAll e pm) \<and>
         (\<forall>m a ops. map_of (pm_pending pm) m = Some a \<longrightarrow>
            ch_done (pm_heap (foldl pm_exec (RejectAll e pm) ops) ! a) \<and>
            Result (pm_heap (foldl pm_exec (RejectAll e pm) ops) ! a) = (None, None, Some e))"
proof -
  have inv: "pm_inv pm" using assms by (rule pm_reachable_inv)
  have inv': "pm_inv (RejectAll e pm)" using inv by (rule pm_inv_RejectAll)
  have empty: "pm_pending (RejectAll e pm) = []" by (simp add: RejectAll_def Let_def)
  have "ch_done (pm_heap (foldl pm_exec (RejectAll e pm) ops) ! a) \<and>
        Result (pm_heap (foldl pm_exec (RejectAll e pm) ops) ! a) = (None, None, Some e)"
    if m: "map_of (pm_pending pm) m = Some a" for m a ops
  proof -
    let ?pm = "RejectAll e pm"
    note entry = pm_inv_entry [OF inv m]
    have "a \<in> set (map snd (pm_pending pm))"
      using map_of_SomeD [OF m] by force
    moreover have "distinct (map snd (pm_pending pm))"
      using inv by (simp add: pm_inv_def)
    ultimately have "pm_heap ?pm ! a = (pm_heap pm ! a)\<lparr>ch_err := Some e, ch_done := True\<rparr>"
      using entry by (simp add: RejectAll_def Let_def reject_handles_nth complete_def)
    moreover have "a < length (pm_heap ?pm)"
      using entry by (simp add: RejectAll_def Let_def)
    ultimately show ?thesis
      using run_keeps_done [of a ?pm ops] entry by (simp add: handle_live_def Result_def)
  qed
  moreover have "\<not> HasAny (RejectAll e pm)" "\<not> HasAnyRaw (RejectAll e pm)"
    "\<not> HasAnyDecoded (RejectAll e pm)"
    using inv' by (simp_all add: pm_inv_def empty HasAny_def HasAnyRaw_def HasAnyDecoded_def raw_count_def)
  ultimately show ?thesis using empty by blast
qed

theorem reject_all_fails_every_waiter_witness:
  "pm_reachable two_calls \<and> HasAny two_calls \<and>
   \<not> HasAny (RejectAll (Sentinel ErrSessionClosed) two_calls) \<and>
   Result (pm_heap (foldl pm_exec (RejectAll (Sentinel ErrSessionClosed) two_calls) [OpResolveRaw 5 [1]]) ! 0)
     = (None, None, Some (Sentinel ErrSessionClosed))"
proof -
  have m: "map_of (pm_pending two_calls) 5 = Some 0" by code_simp
  have "HasAny two_calls" by code_simp
  then show ?thesis
    using reject_all_fails_every_waiter [OF two_calls_reachable] m two_calls_reachable by blast
qed

text \<open>With a positive limit a registration is refused with ErrBusy, and changes
  nothing, exactly when the table is full; an accepted one adds one waiting handle and the table
  stays within the limit.\<close>

theorem register_respects_limit:
  assumes "pm_reachable pm" and "\<not> Pending_Has m pm" and "0 < pm_maxPending pm"
  shows "(int (length (pm_pending pm)) \<ge> pm_maxPending pm \<and>
          Register now m isRaw pm = (Inl (Sentinel ErrBusy), pm)) \<or>
         (\<exists>a pm'. Register now m isRaw pm = (Inr a, pm') \<and>
            map_of (pm_pending pm') m = Some a \<and> handle_live (pm_heap pm' ! a) \<and>
            length (pm_pending pm') = Suc (length (pm_pending pm)) \<and>
            int (length (pm_pending pm')) \<le> pm_maxPending pm')"
proof (cases "int (length (pm_pending pm)) \<ge> pm_maxPending pm")
  case True
  then show ?thesis using assms by (simp add: Register_cases)
next
  case False
  have "map_of (pm_pending pm) m = None" using assms(2) by (simp add: Pending_Has_def)
  then have "map_of (pm_pending pm @ [(m, a)]) m = Some a" for a
    by (simp add: map_add_def)
  then show ?thesis
    using False assms
    by (simp add: Register_cases pm_added_def handle_live_def Result_def new_handle_def)
qed

theorem register_respects_limit_witness:
  "\<not> Pending_Has 7 (SetMaxPending 2 two_calls) \<and>
   Register 0 7 True (SetMaxPending 2 two_calls) = (Inl (Sentinel ErrBusy), SetMaxPending 2 two_calls)"
proof -
  have r: "pm_reachable (SetMaxPending 2 two_calls)"
    using pm_reachable.step [OF two_calls_reachable, of "OpSetMax 2"] by simp
  have f: "\<not> Pending_Has 7 (SetMaxPending 2 two_calls)" and "0 < pm_maxPending (SetMaxPending 2 two_calls)"
    by code_simp+
  moreover have "length (pm_pending (SetMaxPending 2 two_calls)) = 2" and
    "pm_maxPending (SetMaxPending 2 two_calls) = 2" by code_simp+
  ultimately show ?thesis
    using register_respects_limit [OF r f, of 0 True]
    by (auto simp: Register_def)
qed

text \<open>A defect: registering an id that is still in the table drops the earlier
  handle for good. No sequence of operations completes it, and the counter then exceeds the table.\<close>

theorem duplicate_register_loses_handle:
  assumes "pm_reachable pm" and "map_of (pm_pending pm) m = Some a"
    and "pm_maxPending pm \<le> 0 \<or> int (length (pm_pending pm)) < pm_maxPending pm"
  shows "\<not> ch_done (pm_heap (foldl pm_exec (snd (Register now m isRaw pm)) ops) ! a) \<and>
         pm_totalPending (snd (Register now m isRaw pm)) =
           int (length (pm_pending (snd (Register now m isRaw pm)))) + 1"
proof -
  have inv: "pm_inv pm" using assms(1) by (rule pm_reachable_inv)
  note entry = pm_inv_entry [OF inv assms(2)]
  let ?n = "length (pm_heap pm)" and ?pm = "snd (Register now m isRaw pm)"
  have step: "pm_pending ?pm = AList.update m ?n (pm_pending pm)"
    "pm_heap ?pm = pm_heap pm @ [new_handle isRaw now]"
    "pm_totalPending ?pm = pm_totalPending pm + 1"
    using assms(3) by (auto simp: Register_def Let_def)
  have wf: "gm_wf (pm_pending pm)" "distinct (map snd (pm_pending pm))"
    using inv by (simp_all add: pm_inv_def)
  have "a \<notin> snd ` set (AList.update m ?n (pm_pending pm))"
    using entry(1) by (intro gm_update_snd_notin [OF wf(2) assms(2)]) simp
  then have "orphan a ?pm"
    using entry by (simp add: orphan_def step nth_append)
  then have "orphan a (foldl pm_exec ?pm ops)" by (rule orphan_run)
  moreover have "length (pm_pending ?pm) = length (pm_pending pm)"
    unfolding step using wf(1) assms(2) by (rule gm.len_put_old)
  ultimately show ?thesis
    using inv step by (simp add: orphan_def pm_inv_def)
qed

theorem duplicate_register_loses_handle_witness:
  "map_of (pm_pending two_calls) 9 = Some 1 \<and>
   \<not> ch_done (pm_heap (foldl pm_exec (snd (Register 12 9 False two_calls))
       [OpResolve 9 (ResultPong 9 1), OpRejectAll OtherError]) ! 1) \<and>
   pm_totalPending (snd (Register 12 9 False two_calls)) = 3"
proof -
  have m: "map_of (pm_pending two_calls) 9 = Some 1"
    and "int (length (pm_pending two_calls)) < pm_maxPending two_calls"
    and "length (pm_pending (snd (Register 12 9 False two_calls))) = 2" by code_simp+
  then show ?thesis
    using duplicate_register_loses_handle [OF two_calls_reachable m, of 12 False
        "[OpResolve 9 (ResultPong 9 1), OpRejectAll OtherError]"] by simp
qed

end
