(* ===== verification/Container_Tracker.thy ===== *)
theory Container_Tracker
  imports Mtgo_Prelude
begin

text \<open>
  The container table of \<^verbatim>\<open>src/internal/session/container_tracker.go\<close>: which outgoing containers
  are in flight, the calls inside them, and the count of calls not yet acknowledged. The logger is
  left out. An entry is only reached through the table, so it is stored in it by value.
\<close>

section \<open>The table and its operations\<close>

record container_entry =
  ce_ContainerMsgID :: i64
  ce_ChildMsgIDs :: "i64 list"
  ce_RefCount :: int

record container_tracker =
  ct_containers :: "(i64 \<times> container_entry) list"
  ct_childToContainer :: "(i64 \<times> i64) list"

definition NewContainerTracker :: container_tracker where
  "NewContainerTracker = \<lparr>ct_containers = [], ct_childToContainer = []\<rparr>"

definition TrackContainer :: "i64 \<Rightarrow> i64 list \<Rightarrow> container_tracker \<Rightarrow> container_tracker" where
  "TrackContainer containerMsgID childMsgIDs t =
     t\<lparr>ct_containers := AList.update containerMsgID
          \<lparr>ce_ContainerMsgID = containerMsgID, ce_ChildMsgIDs = childMsgIDs,
           ce_RefCount = int (length childMsgIDs)\<rparr> (ct_containers t),
       ct_childToContainer :=
          fold (\<lambda>c. AList.update c containerMsgID) childMsgIDs (ct_childToContainer t)\<rparr>"

text \<open>The removal that AckContainer, NackContainer and AckChild share.\<close>

definition drop_container :: "i64 \<Rightarrow> i64 list \<Rightarrow> container_tracker \<Rightarrow> container_tracker" where
  "drop_container containerMsgID childIDs t =
     t\<lparr>ct_containers := AList.delete containerMsgID (ct_containers t),
       ct_childToContainer := fold AList.delete childIDs (ct_childToContainer t)\<rparr>"

text \<open>A nil result is the empty list.\<close>

definition AckContainer :: "i64 \<Rightarrow> container_tracker \<Rightarrow> i64 list \<times> container_tracker" where
  "AckContainer containerMsgID t =
     (case map_of (ct_containers t) containerMsgID of
        None \<Rightarrow> ([], t)
      | Some entry \<Rightarrow> (ce_ChildMsgIDs entry, drop_container containerMsgID (ce_ChildMsgIDs entry) t))"

definition NackContainer :: "i64 \<Rightarrow> container_tracker \<Rightarrow> i64 list \<times> container_tracker" where
  "NackContainer containerMsgID t =
     (case map_of (ct_containers t) containerMsgID of
        None \<Rightarrow> ([], t)
      | Some entry \<Rightarrow> (ce_ChildMsgIDs entry, drop_container containerMsgID (ce_ChildMsgIDs entry) t))"

definition AckChild :: "i64 \<Rightarrow> container_tracker \<Rightarrow> bool \<times> container_tracker" where
  "AckChild childMsgID t =
     (case map_of (ct_childToContainer t) childMsgID of
        None \<Rightarrow> (False, t)
      | Some containerMsgID \<Rightarrow>
          (case map_of (ct_containers t) containerMsgID of
             None \<Rightarrow> (False, t)
           | Some entry \<Rightarrow>
               let entry' = entry\<lparr>ce_RefCount := ce_RefCount entry - 1\<rparr>;
                   t' = t\<lparr>ct_containers := AList.update containerMsgID entry' (ct_containers t)\<rparr>
               in if ce_RefCount entry' \<le> 0
                  then (True, drop_container containerMsgID (ce_ChildMsgIDs entry') t')
                  else (False, t')))"

definition Tracker_Cleanup :: "container_tracker \<Rightarrow> container_tracker" where
  "Tracker_Cleanup t = t\<lparr>ct_containers := [], ct_childToContainer := []\<rparr>"

definition Tracker_Count :: "container_tracker \<Rightarrow> nat" where
  "Tracker_Count t = length (ct_containers t)"

section \<open>Lookups after each operation\<close>

lemma map_of_fold_update [simp]:
  "map_of (fold (\<lambda>c. AList.update c k) cs m) c = (if c \<in> set cs then Some k else map_of m c)"
  by (induction cs arbitrary: m) (auto simp: update_conv')

lemma map_of_fold_delete [simp]:
  "map_of (fold AList.delete cs m) c = (if c \<in> set cs then None else map_of m c)"
  by (induction cs arbitrary: m) (auto simp: delete_conv')

lemma TrackContainer_lookup [simp]:
  "map_of (ct_containers (TrackContainer k cs t)) k' =
     (if k' = k
      then Some \<lparr>ce_ContainerMsgID = k, ce_ChildMsgIDs = cs, ce_RefCount = int (length cs)\<rparr>
      else map_of (ct_containers t) k')"
  "map_of (ct_childToContainer (TrackContainer k cs t)) c =
     (if c \<in> set cs then Some k else map_of (ct_childToContainer t) c)"
  by (simp_all add: TrackContainer_def update_conv')

lemma drop_container_lookup [simp]:
  "map_of (ct_containers (drop_container k cs t)) k' =
     (if k' = k then None else map_of (ct_containers t) k')"
  "map_of (ct_childToContainer (drop_container k cs t)) c =
     (if c \<in> set cs then None else map_of (ct_childToContainer t) c)"
  by (simp_all add: drop_container_def delete_conv')

section \<open>The invariant\<close>

text \<open>The child index is exactly the inverse of the container table, and a tracked container has at
  least one acknowledgement outstanding unless it is empty.\<close>

definition tracker_inv :: "container_tracker \<Rightarrow> bool" where
  "tracker_inv t \<longleftrightarrow>
     (\<forall>c k. map_of (ct_childToContainer t) c = Some k \<longleftrightarrow>
        (\<exists>e. map_of (ct_containers t) k = Some e \<and> c \<in> set (ce_ChildMsgIDs e))) \<and>
     (\<forall>k e. map_of (ct_containers t) k = Some e \<longrightarrow>
        ce_ContainerMsgID e = k \<and> (ce_ChildMsgIDs e \<noteq> [] \<longrightarrow> 0 < ce_RefCount e))"

text \<open>The batcher tracks a newly allocated container id, and the ids of its messages are in no
  container yet.\<close>

definition fresh_container :: "i64 \<Rightarrow> i64 list \<Rightarrow> container_tracker \<Rightarrow> bool" where
  "fresh_container k cs t \<longleftrightarrow>
     map_of (ct_containers t) k = None \<and> (\<forall>c \<in> set cs. map_of (ct_childToContainer t) c = None)"

lemma tracker_inv_children:
  "tracker_inv t \<Longrightarrow> map_of (ct_containers t) k = Some e \<Longrightarrow> c \<in> set (ce_ChildMsgIDs e)
    \<Longrightarrow> map_of (ct_childToContainer t) c = Some k"
  by (auto simp: tracker_inv_def)

lemma tracker_inv_disjoint:
  assumes "tracker_inv t" and "map_of (ct_containers t) k = Some e" and "map_of (ct_containers t) k' = Some e'"
    and "c \<in> set (ce_ChildMsgIDs e)" and "c \<in> set (ce_ChildMsgIDs e')"
  shows "k = k'"
  using tracker_inv_children [OF assms(1,2,4)] tracker_inv_children [OF assms(1,3,5)] by simp

lemma tracker_inv_New: "tracker_inv NewContainerTracker"
  by (simp add: tracker_inv_def NewContainerTracker_def)

lemma tracker_invI:
  assumes "\<And>c k. map_of (ct_childToContainer t) c = Some k \<Longrightarrow>
      \<exists>e. map_of (ct_containers t) k = Some e \<and> c \<in> set (ce_ChildMsgIDs e)"
    and "\<And>c k e. map_of (ct_containers t) k = Some e \<Longrightarrow> c \<in> set (ce_ChildMsgIDs e) \<Longrightarrow>
      map_of (ct_childToContainer t) c = Some k"
    and "\<And>k e. map_of (ct_containers t) k = Some e \<Longrightarrow>
      ce_ContainerMsgID e = k \<and> (ce_ChildMsgIDs e \<noteq> [] \<longrightarrow> 0 < ce_RefCount e)"
  shows "tracker_inv t"
  unfolding tracker_inv_def using assms by blast

lemma tracker_inv_index:
  "tracker_inv t \<Longrightarrow> map_of (ct_childToContainer t) c = Some k \<Longrightarrow>
    \<exists>e. map_of (ct_containers t) k = Some e \<and> c \<in> set (ce_ChildMsgIDs e)"
  by (simp add: tracker_inv_def)

lemma tracker_inv_entry:
  "tracker_inv t \<Longrightarrow> map_of (ct_containers t) k = Some e \<Longrightarrow>
    ce_ContainerMsgID e = k \<and> (ce_ChildMsgIDs e \<noteq> [] \<longrightarrow> 0 < ce_RefCount e)"
  by (simp add: tracker_inv_def)

lemma tracker_inv_Track [inv_intros]:
  assumes inv: "tracker_inv t" and fresh: "fresh_container k cs t"
  shows "tracker_inv (TrackContainer k cs t)"
proof (rule tracker_invI, goal_cases)
  case (1 c k')
  then show ?case
    using tracker_inv_index [OF inv] fresh by (fastforce simp: fresh_container_def split: if_splits)
next
  case (2 c k' e)
  then show ?case
    using tracker_inv_children [OF inv, of k' e c] fresh
    by (auto simp: fresh_container_def split: if_splits)
next
  case (3 k' e)
  then show ?case
    using tracker_inv_entry [OF inv, of k' e] by (auto split: if_splits)
qed

lemma tracker_inv_drop [inv_intros]:
  assumes inv: "tracker_inv t" and k: "map_of (ct_containers t) k = Some e"
  shows "tracker_inv (drop_container k (ce_ChildMsgIDs e) t)"
proof (rule tracker_invI, goal_cases)
  case (1 c k')
  then show ?case
    using tracker_inv_index [OF inv, of c k'] k by (auto split: if_splits)
next
  case (2 c k' e')
  then show ?case
    using tracker_inv_children [OF inv, of k' e' c] tracker_inv_disjoint [OF inv k, of k' e' c]
    by (auto split: if_splits)
next
  case (3 k' e')
  then show ?case
    using tracker_inv_entry [OF inv, of k' e'] by (auto split: if_splits)
qed

lemma tracker_inv_decrement:
  assumes "tracker_inv t" and "map_of (ct_containers t) k = Some e" and "0 < n \<or> ce_ChildMsgIDs e = []"
  shows "tracker_inv (t\<lparr>ct_containers := AList.update k (e\<lparr>ce_RefCount := n\<rparr>) (ct_containers t)\<rparr>)"
  using assms by (auto simp: tracker_inv_def update_conv')

lemma drop_container_update [simp]:
  "drop_container k cs (t\<lparr>ct_containers := AList.update k e (ct_containers t)\<rparr>) = drop_container k cs t"
  by (simp add: drop_container_def delete_update_same)

lemma tracker_inv_AckChild [inv_intros]: "tracker_inv t \<Longrightarrow> tracker_inv (snd (AckChild c t))"
  by (auto simp: AckChild_def Let_def tracker_inv_drop intro!: tracker_inv_decrement split: option.split)

lemma tracker_inv_AckContainer [inv_intros]: "tracker_inv t \<Longrightarrow> tracker_inv (snd (AckContainer k t))"
  by (auto simp: AckContainer_def intro: inv_intros split: option.split)

lemma tracker_inv_NackContainer [inv_intros]: "tracker_inv t \<Longrightarrow> tracker_inv (snd (NackContainer k t))"
  by (auto simp: NackContainer_def intro: inv_intros split: option.split)

lemma tracker_inv_Cleanup [inv_intros]: "tracker_inv (Tracker_Cleanup t)"
  by (simp add: tracker_inv_def Tracker_Cleanup_def)

section \<open>Runs of acknowledgements\<close>

fun ack_run :: "i64 list \<Rightarrow> container_tracker \<Rightarrow> bool list \<times> container_tracker" where
  "ack_run [] t = ([], t)"
| "ack_run (c # cs) t =
     (let (r, t1) = AckChild c t; (rs, t2) = ack_run cs t1 in (r # rs, t2))"

text \<open>Only the number of acknowledgements counts, not which child each one names.\<close>

lemma ack_run_counts:
  assumes "tracker_inv t" and "map_of (ct_containers t) k = Some e"
    and "set acks \<subseteq> set (ce_ChildMsgIDs e)" and "int (length acks) = ce_RefCount e" and "acks \<noteq> []"
  shows "\<exists>t'. ack_run acks t = (replicate (length acks - 1) False @ [True], t') \<and>
              map_of (ct_containers t') k = None"
  using assms
proof (induction acks arbitrary: t e)
  case (Cons c acks)
  have c: "map_of (ct_childToContainer t) c = Some k"
    using Cons.prems by (auto intro: tracker_inv_children)
  show ?case
  proof (cases "acks = []")
    case True
    then show ?thesis
      using Cons.prems c by (simp add: AckChild_def Let_def)
  next
    case False
    define e' where "e' = e\<lparr>ce_RefCount := ce_RefCount e - 1\<rparr>"
    define t1 where "t1 = t\<lparr>ct_containers := AList.update k e' (ct_containers t)\<rparr>"
    have n: "0 < ce_RefCount e - 1"
      using Cons.prems(4) False by (cases acks) auto
    then have step: "AckChild c t = (False, t1)"
      using c Cons.prems(2) by (simp add: AckChild_def Let_def t1_def e'_def)
    have "tracker_inv t1"
      unfolding t1_def e'_def using Cons.prems(1,2) n by (auto intro: tracker_inv_decrement)
    moreover have "map_of (ct_containers t1) k = Some e'"
      by (simp add: t1_def update_conv')
    ultimately obtain t' where t': "ack_run acks t1 = (replicate (length acks - 1) False @ [True], t')"
      "map_of (ct_containers t') k = None"
      using Cons.IH [of t1 e'] Cons.prems(3,4) False by (auto simp: e'_def)
    then show ?thesis
      using step False by (cases acks) auto
  qed
qed simp

section \<open>Reachable trackers\<close>

inductive tracker_reachable :: "container_tracker \<Rightarrow> bool" where
  init: "tracker_reachable NewContainerTracker"
| track: "tracker_reachable t \<Longrightarrow> fresh_container k cs t \<Longrightarrow> tracker_reachable (TrackContainer k cs t)"
| ack: "tracker_reachable t \<Longrightarrow> tracker_reachable (snd (AckContainer k t))"
| nack: "tracker_reachable t \<Longrightarrow> tracker_reachable (snd (NackContainer k t))"
| child: "tracker_reachable t \<Longrightarrow> tracker_reachable (snd (AckChild c t))"
| cleanup: "tracker_reachable t \<Longrightarrow> tracker_reachable (Tracker_Cleanup t)"

lemma tracker_reachable_inv: "tracker_reachable t \<Longrightarrow> tracker_inv t"
  by (induction rule: tracker_reachable.induct) (auto intro: inv_intros tracker_inv_New)

section \<open>Properties\<close>

text \<open>The child index is the inverse of the container table in every state
  reached with fresh containers: rejecting a container yields exactly the calls the index assigns to
  it, leaves none of them in the index, and touches no other container or call.\<close>

theorem nack_container_matches_index:
  assumes "tracker_reachable t"
  shows "(c \<in> set (fst (NackContainer k t)) \<longleftrightarrow> map_of (ct_childToContainer t) c = Some k) \<and>
         map_of (ct_childToContainer (snd (NackContainer k t))) c =
           (if c \<in> set (fst (NackContainer k t)) then None else map_of (ct_childToContainer t) c) \<and>
         map_of (ct_containers (snd (NackContainer k t))) k' =
           (if k' = k then None else map_of (ct_containers t) k')"
proof (cases "map_of (ct_containers t) k")
  case None
  then show ?thesis
    using tracker_inv_index [OF tracker_reachable_inv [OF assms], of c k]
    by (auto simp: NackContainer_def)
next
  case (Some e)
  then show ?thesis
    using tracker_inv_index [OF tracker_reachable_inv [OF assms], of c k]
      tracker_inv_children [OF tracker_reachable_inv [OF assms] Some, of c]
    by (auto simp: NackContainer_def)
qed

definition two_containers :: container_tracker where
  "two_containers = TrackContainer 20 [3] (TrackContainer 10 [1, 2] NewContainerTracker)"

lemma two_containers_reachable: "tracker_reachable two_containers"
  unfolding two_containers_def
  by (intro tracker_reachable.intros; code_simp)

theorem nack_container_matches_index_witness:
  "tracker_reachable two_containers \<and> map_of (ct_childToContainer two_containers) 2 = Some 10 \<and>
   2 \<in> set (fst (NackContainer 10 two_containers)) \<and>
   map_of (ct_containers (snd (NackContainer 10 two_containers))) 20 = map_of (ct_containers two_containers) 20"
proof -
  have "map_of (ct_childToContainer two_containers) 2 = Some 10" by code_simp
  then show ?thesis
    using nack_container_matches_index [OF two_containers_reachable, of 2 10 20] two_containers_reachable
    by simp
qed

lemma ack_run_tracked:
  assumes "tracker_inv t" and "fresh_container k cs t" and "cs \<noteq> []"
    and "set acks \<subseteq> set cs" and "length acks = length cs"
  shows "\<exists>t'. ack_run acks (TrackContainer k cs t) = (replicate (length cs - 1) False @ [True], t') \<and>
              map_of (ct_containers t') k = None"
  using ack_run_counts [OF tracker_inv_Track [OF assms(1,2)], where k = k and acks = acks] assms(3-5)
  by force

text \<open>A container whose calls are acknowledged one by one, each once and in any
  order, is reported complete at the last of them and not before, and is then no longer tracked.\<close>

theorem container_complete_after_all_acks:
  assumes "tracker_reachable t" and "fresh_container k cs t" and "cs \<noteq> []"
    and "distinct cs" and "distinct acks" and "set acks = set cs"
  shows "\<exists>t'. ack_run acks (TrackContainer k cs t) = (replicate (length cs - 1) False @ [True], t') \<and>
              map_of (ct_containers t') k = None"
  using assms distinct_card [of cs] distinct_card [of acks]
  by (intro ack_run_tracked tracker_reachable_inv) auto

theorem container_complete_after_all_acks_witness:
  "\<exists>t'. ack_run [6, 4, 5] (TrackContainer 30 [4, 5, 6] two_containers) = ([False, False, True], t') \<and>
        map_of (ct_containers t') 30 = None"
proof -
  have "fresh_container 30 [4, 5, 6] two_containers" by code_simp
  from container_complete_after_all_acks [OF two_containers_reachable this, of "[6, 4, 5]"]
  show ?thesis by (auto simp: numeral_2_eq_2)
qed

text \<open>A defect: a repeated acknowledgement of one call is counted again, so a container of n
  calls is reported fully acknowledged after n acknowledgements of a single one of them.\<close>

theorem repeated_ack_completes_container:
  assumes "tracker_reachable t" and "fresh_container k cs t" and "c \<in> set cs"
  shows "\<exists>t'. ack_run (replicate (length cs) c) (TrackContainer k cs t) =
                (replicate (length cs - 1) False @ [True], t') \<and>
              map_of (ct_containers t') k = None"
  using assms by (intro ack_run_tracked tracker_reachable_inv) auto

theorem repeated_ack_completes_container_witness:
  "\<exists>t'. ack_run [4, 4] (TrackContainer 30 [4, 5] two_containers) = ([False, True], t') \<and>
        map_of (ct_containers t') 30 = None"
proof -
  have "fresh_container 30 [4, 5] two_containers" by code_simp
  from repeated_ack_completes_container [OF two_containers_reachable this, of 4]
  show ?thesis by (auto simp: numeral_2_eq_2)
qed

end
