(* ===== verification/Salt_Manager.thy ===== *)
theory Salt_Manager
  imports Mtgo_Prelude Complex_Main
begin

text \<open>
  Server salts, \<^verbatim>\<open>src/internal/session/salt.go\<close>: the current salt with its validity window, the
  salts announced for later, and their promotion. Times are Unix seconds, an argument of each
  operation. The broadcast channel \<^verbatim>\<open>notify\<close> is a generation number: closing it and making a new
  one is an increment, and a waiter of generation g is woken when the number differs from g. The
  result of the floating-point product in the refresh schedule is a parameter.
\<close>

section \<open>State and operations\<close>

record salt_entry =
  se_validSince :: int
  se_validUntil :: int
  se_salt :: i64

text \<open>A \<^verbatim>\<open>tg.FutureSalt\<close> as the schema has it: two 32-bit dates and the salt.\<close>

record future_salt =
  fs_ValidSince :: u32
  fs_ValidUntil :: u32
  fs_Salt :: i64

definition saltEntriesFromFuture :: "future_salt list \<Rightarrow> salt_entry list" where
  "saltEntriesFromFuture fs =
     map (\<lambda>f. \<lparr>se_validSince = sint (fs_ValidSince f), se_validUntil = sint (fs_ValidUntil f),
              se_salt = fs_Salt f\<rparr>) fs"

record salt_manager =
  sm_salt :: i64
  sm_validSince :: int
  sm_validUntil :: int
  sm_pending :: "salt_entry list"
  sm_refreshRatio :: rat
  sm_refreshMin :: int
  sm_notify :: nat

text \<open>Durations are nanoseconds.\<close>

definition go_second :: int where "go_second = 1000000000"
definition defaultSaltRefreshRatio :: rat where "defaultSaltRefreshRatio = 3 / 4"
definition defaultSaltRefreshMin :: int where "defaultSaltRefreshMin = 30 * go_second"

definition newSaltManager :: salt_manager where
  "newSaltManager =
     \<lparr>sm_salt = 0, sm_validSince = 0, sm_validUntil = 0, sm_pending = [],
      sm_refreshRatio = defaultSaltRefreshRatio, sm_refreshMin = defaultSaltRefreshMin, sm_notify = 0\<rparr>"

definition notifyWaitersLocked :: "salt_manager \<Rightarrow> salt_manager" where
  "notifyWaitersLocked m = m\<lparr>sm_notify := Suc (sm_notify m)\<rparr>"

definition SetRefreshRatio :: "rat \<Rightarrow> salt_manager \<Rightarrow> salt_manager" where
  "SetRefreshRatio r m =
     m\<lparr>sm_refreshRatio := (if r \<le> 0 \<or> r > 1 then defaultSaltRefreshRatio else r)\<rparr>"

definition SetRefreshMin :: "int \<Rightarrow> salt_manager \<Rightarrow> salt_manager" where
  "SetRefreshMin d m = m\<lparr>sm_refreshMin := (if d < 0 then 0 else d)\<rparr>"

definition storeSimpleLocked :: "int \<Rightarrow> i64 \<Rightarrow> salt_manager \<Rightarrow> salt_manager" where
  "storeSimpleLocked now salt m =
     m\<lparr>sm_salt := salt, sm_validSince := now, sm_validUntil := now + 7200, sm_pending := []\<rparr>"

definition StoreSimple :: "int \<Rightarrow> i64 \<Rightarrow> salt_manager \<Rightarrow> salt_manager" where
  "StoreSimple now salt m = notifyWaitersLocked (storeSimpleLocked now salt m)"

definition salt_current :: "int \<Rightarrow> salt_entry \<Rightarrow> bool" where
  "salt_current now s \<longleftrightarrow> se_validSince s \<le> now \<and> se_validUntil s > now"

definition set_salt :: "salt_entry \<Rightarrow> salt_manager \<Rightarrow> salt_manager" where
  "set_salt s m = m\<lparr>sm_salt := se_salt s, sm_validSince := se_validSince s, sm_validUntil := se_validUntil s\<rparr>"

text \<open>The loop that looks for the best current salt, starting from the first one.\<close>

primrec best_salt :: "int \<Rightarrow> salt_entry \<Rightarrow> salt_entry list \<Rightarrow> salt_entry" where
  "best_salt now best [] = best"
| "best_salt now best (s # salts) =
     best_salt now
       (if salt_current now s \<and> (se_validUntil s > se_validUntil best \<or> se_validSince best > now)
        then s else best) salts"

definition StoreFromFutureSalts :: "int \<Rightarrow> salt_entry list \<Rightarrow> salt_manager \<Rightarrow> salt_manager" where
  "StoreFromFutureSalts now salts m =
     (case salts of
        [] \<Rightarrow> m
      | first # _ \<Rightarrow>
          let best = best_salt now first salts;
              m1 = (if salt_current now best then set_salt best m else set_salt first m);
              future = filter (\<lambda>s. se_validSince s > now \<and> se_validUntil s > sm_validUntil m1) salts
          in notifyWaitersLocked (m1\<lparr>sm_pending := take 8 future\<rparr>))"

text \<open>The loop of promoteIfNeededLocked: \<open>i\<close> is the index of the next element.\<close>

primrec best_pending ::
  "int \<Rightarrow> nat \<Rightarrow> (nat \<times> salt_entry) option \<Rightarrow> salt_entry list \<Rightarrow> (nat \<times> salt_entry) option" where
  "best_pending now i best [] = best"
| "best_pending now i best (s # ss) =
     best_pending now (Suc i)
       (if salt_current now s \<and>
           (case best of None \<Rightarrow> True | Some (_, b) \<Rightarrow> se_validUntil s > se_validUntil b)
        then Some (i, s) else best) ss"

definition promoteIfNeededLocked :: "int \<Rightarrow> salt_manager \<Rightarrow> salt_manager" where
  "promoteIfNeededLocked now m =
     (if sm_validUntil m = 0 \<or> sm_pending m = [] then m
      else if now < sm_validUntil m then m
      else case best_pending now 0 None (sm_pending m) of
        None \<Rightarrow> m
      | Some (bestIdx, best) \<Rightarrow>
          notifyWaitersLocked ((set_salt best m)\<lparr>sm_pending :=
            (if length (sm_pending m) > 1
             then take bestIdx (sm_pending m) @ drop (Suc bestIdx) (sm_pending m) else [])\<rparr>))"

definition Salt_Load :: "int \<Rightarrow> salt_manager \<Rightarrow> i64 \<times> salt_manager" where
  "Salt_Load now m = (let m' = promoteIfNeededLocked now m in (sm_salt m', m'))"

definition IsExpired :: "int \<Rightarrow> salt_manager \<Rightarrow> bool \<times> salt_manager" where
  "IsExpired now m =
     (if sm_validUntil m = 0 then (False, m)
      else if now < sm_validUntil m then (False, m)
      else let m' = promoteIfNeededLocked now m
           in if sm_validUntil m' = 0 then (False, m') else (now \<ge> sm_validUntil m', m'))"

text \<open>One turn of WaitForValid: \<open>None\<close> returns true to the caller, \<open>Some g\<close> blocks on generation g.\<close>

definition WaitForValid_turn :: "int \<Rightarrow> salt_manager \<Rightarrow> nat option \<times> salt_manager" where
  "WaitForValid_turn now m =
     (if sm_validUntil m = 0 \<or> now < sm_validUntil m then (None, m)
      else let m' = promoteIfNeededLocked now m
           in if sm_validUntil m' = 0 \<or> now < sm_validUntil m' then (None, m') else (Some (sm_notify m'), m'))"

definition HasValidSalt :: "int \<Rightarrow> salt_manager \<Rightarrow> bool \<times> salt_manager" where
  "HasValidSalt now m =
     (if sm_salt m = 0 then (False, m)
      else if sm_validUntil m = 0 then (True, m)
      else let m' = promoteIfNeededLocked now m
           in if sm_validUntil m' = 0 then (sm_salt m' \<noteq> 0, m') else (now < sm_validUntil m', m'))"

text \<open>\<open>fmul n r\<close> is \<^verbatim>\<open>int64(float64(n) * r)\<close>.\<close>

definition nextRefreshInLocked :: "(int \<Rightarrow> rat \<Rightarrow> int) \<Rightarrow> int \<Rightarrow> salt_manager \<Rightarrow> int" where
  "nextRefreshInLocked fmul now m =
     (if sm_validSince m = 0 \<or> sm_validUntil m = 0 then defaultSaltRefreshMin
      else let totalLifetime = sm_validUntil m - sm_validSince m
           in if totalLifetime \<le> 0 then defaultSaltRefreshMin
              else let refreshAt = sm_validSince m + fmul totalLifetime (sm_refreshRatio m);
                       remaining = refreshAt - now
                   in if remaining \<le> 0 then 0
                      else let d = remaining * go_second
                           in if d < sm_refreshMin m then sm_refreshMin m else d)"

section \<open>The two searches\<close>

lemma best_salt_spec:
  assumes "salt_current now b \<or> (\<exists>s \<in> set salts. salt_current now s)"
  shows "salt_current now (best_salt now b salts) \<and>
         (best_salt now b salts = b \<or> best_salt now b salts \<in> set salts) \<and>
         (salt_current now b \<longrightarrow> se_validUntil b \<le> se_validUntil (best_salt now b salts)) \<and>
         (\<forall>s \<in> set salts. salt_current now s \<longrightarrow> se_validUntil s \<le> se_validUntil (best_salt now b salts))"
  using assms
proof (induction salts arbitrary: b)
  case (Cons s salts)
  define b' where "b' = (if salt_current now s \<and>
      (se_validUntil s > se_validUntil b \<or> se_validSince b > now) then s else b)"
  have "salt_current now b' \<or> (\<exists>s \<in> set salts. salt_current now s)"
    using Cons.prems by (auto simp: b'_def salt_current_def)
  from Cons.IH [OF this] have IH: "salt_current now (best_salt now b' salts)"
    "best_salt now b' salts = b' \<or> best_salt now b' salts \<in> set salts"
    "salt_current now b' \<longrightarrow> se_validUntil b' \<le> se_validUntil (best_salt now b' salts)"
    "\<forall>s \<in> set salts. salt_current now s \<longrightarrow> se_validUntil s \<le> se_validUntil (best_salt now b' salts)"
    by auto
  have "salt_current now b \<longrightarrow> salt_current now b' \<and> se_validUntil b \<le> se_validUntil b'"
    "salt_current now s \<longrightarrow> salt_current now b' \<and> se_validUntil s \<le> se_validUntil b'"
    by (auto simp: b'_def salt_current_def)
  then show ?case
    using IH by (auto simp flip: b'_def) (auto simp: b'_def split: if_splits)
qed simp

lemma best_pending_None:
  "best_pending now i best ss = None \<longleftrightarrow> best = None \<and> (\<forall>s \<in> set ss. \<not> salt_current now s)"
  by (induction ss arbitrary: i best) (auto split: option.split)

lemma best_pending_Some:
  "best_pending now i best ss = Some (j, b) \<Longrightarrow>
   best = Some (j, b) \<or> (i \<le> j \<and> j - i < length ss \<and> ss ! (j - i) = b \<and> salt_current now b)"
proof (induction ss arbitrary: i best)
  case (Cons s ss)
  show ?case
    using Cons.IH [OF Cons.prems [unfolded best_pending.simps]]
    by (auto simp: Suc_diff_le nth_Cons' split: if_splits)
qed simp

lemma best_pending_found:
  assumes "best_pending now 0 None ss = Some (j, b)"
  shows "j < length ss" and "ss ! j = b" and "salt_current now b"
  using best_pending_Some [OF assms] by auto

section \<open>Promotion\<close>

text \<open>The manager holds a salt for time \<open>t\<close>: the current one has not expired, or one in reserve is valid.\<close>

definition sm_covers :: "int \<Rightarrow> salt_manager \<Rightarrow> bool" where
  "sm_covers t m \<longleftrightarrow> t < sm_validUntil m \<or> (\<exists>s \<in> set (sm_pending m). salt_current t s)"

text \<open>A salt is not lost: it is in reserve, or the current one lasts at least as long.\<close>

definition sm_keeps :: "salt_entry \<Rightarrow> salt_manager \<Rightarrow> bool" where
  "sm_keeps s m \<longleftrightarrow> s \<in> set (sm_pending m) \<or> se_validUntil s \<le> sm_validUntil m"

lemma promote_result:
  assumes "sm_validUntil m \<noteq> 0"
  shows "(promoteIfNeededLocked now m = m \<and> (now < sm_validUntil m \<or> \<not> sm_covers now m)) \<or>
         (\<exists>j b. sm_validUntil m \<le> now \<and> j < length (sm_pending m) \<and> sm_pending m ! j = b \<and>
            salt_current now b \<and>
            promoteIfNeededLocked now m = notifyWaitersLocked ((set_salt b m)\<lparr>sm_pending :=
              take j (sm_pending m) @ drop (Suc j) (sm_pending m)\<rparr>))"
proof (cases "sm_pending m = [] \<or> now < sm_validUntil m")
  case True
  then show ?thesis
    using assms by (auto simp: promoteIfNeededLocked_def sm_covers_def)
next
  case False
  show ?thesis
  proof (cases "best_pending now 0 None (sm_pending m)")
    case None
    then have "promoteIfNeededLocked now m = m"
      by (simp add: promoteIfNeededLocked_def)
    moreover have "\<not> sm_covers now m"
      using None False by (simp add: sm_covers_def best_pending_None)
    ultimately show ?thesis by blast
  next
    case (Some jb)
    obtain j b where jb: "jb = (j, b)" by (cases jb)
    note found = best_pending_found [OF Some [unfolded jb]]
    have "(if length (sm_pending m) > 1
           then take j (sm_pending m) @ drop (Suc j) (sm_pending m) else []) =
        take j (sm_pending m) @ drop (Suc j) (sm_pending m)"
      using found(1) by simp
    then have "promoteIfNeededLocked now m = notifyWaitersLocked ((set_salt b m)\<lparr>sm_pending :=
              take j (sm_pending m) @ drop (Suc j) (sm_pending m)\<rparr>)"
      using False Some jb assms by (simp add: promoteIfNeededLocked_def)
    then show ?thesis
      using found False by (meson not_less)
  qed
qed

lemma set_take_drop_Suc: "j < length xs \<Longrightarrow> insert (xs ! j) (set (take j xs @ drop (Suc j) xs)) = set xs"
  using id_take_nth_drop [of j xs] by (metis Un_insert_right list.simps(15) set_append)

lemma promote_covers: "sm_validUntil m \<noteq> 0 \<Longrightarrow> sm_covers now m \<Longrightarrow> now < sm_validUntil (promoteIfNeededLocked now m)"
  using promote_result [of m now]
  by (auto simp: notifyWaitersLocked_def set_salt_def salt_current_def)

lemma promote_mono: "sm_validUntil m \<noteq> 0 \<Longrightarrow> sm_validUntil m \<le> sm_validUntil (promoteIfNeededLocked now m)"
  using promote_result [of m now]
  by (auto simp: notifyWaitersLocked_def set_salt_def salt_current_def)

lemma promote_keeps:
  assumes "sm_validUntil m \<noteq> 0" and "sm_keeps s m"
  shows "sm_keeps s (promoteIfNeededLocked now m)"
  using promote_result [OF assms(1), of now]
proof (elim disjE conjE exE)
  fix j b
  assume b: "sm_validUntil m \<le> now" "j < length (sm_pending m)" "sm_pending m ! j = b" "salt_current now b"
    and m': "promoteIfNeededLocked now m = notifyWaitersLocked ((set_salt b m)\<lparr>sm_pending :=
              take j (sm_pending m) @ drop (Suc j) (sm_pending m)\<rparr>)"
  have "insert b (set (take j (sm_pending m) @ drop (Suc j) (sm_pending m))) = set (sm_pending m)"
    using set_take_drop_Suc [OF b(2)] b(3) by simp
  then have "s \<in> set (sm_pending m) \<longrightarrow>
      s = b \<or> s \<in> set (take j (sm_pending m) @ drop (Suc j) (sm_pending m))"
    by blast
  then show ?thesis
    using assms(2) b unfolding m'
    by (auto simp: sm_keeps_def notifyWaitersLocked_def set_salt_def salt_current_def)
qed (use assms in simp_all)

lemma promote_silent:
  "sm_notify (promoteIfNeededLocked now m) = sm_notify m \<Longrightarrow> promoteIfNeededLocked now m = m"
  by (auto simp: promoteIfNeededLocked_def notifyWaitersLocked_def set_salt_def split: option.splits if_splits)

section \<open>A batch of announced salts\<close>

text \<open>The current salt is one of \<open>salts\<close> that has started by time \<open>t\<close>, and the reserve holds only
  members of \<open>salts\<close>.\<close>

definition sm_from :: "int \<Rightarrow> salt_entry list \<Rightarrow> salt_manager \<Rightarrow> bool" where
  "sm_from t salts m \<longleftrightarrow>
     set (sm_pending m) \<subseteq> set salts \<and>
     (\<exists>e \<in> set salts. sm_salt m = se_salt e \<and> sm_validUntil m = se_validUntil e \<and> se_validSince e \<le> t)"

lemma promote_from:
  assumes "sm_from t salts m" and "t' \<le> t" and "sm_validUntil m \<noteq> 0"
  shows "sm_from t salts (promoteIfNeededLocked t' m)"
  using promote_result [OF assms(3), of t']
proof (elim disjE conjE exE)
  fix j b
  assume b: "sm_validUntil m \<le> t'" "j < length (sm_pending m)" "sm_pending m ! j = b" "salt_current t' b"
    and m': "promoteIfNeededLocked t' m = notifyWaitersLocked ((set_salt b m)\<lparr>sm_pending :=
              take j (sm_pending m) @ drop (Suc j) (sm_pending m)\<rparr>)"
  have "insert b (set (take j (sm_pending m) @ drop (Suc j) (sm_pending m))) \<subseteq> set salts"
    using set_take_drop_Suc [OF b(2)] b(3) assms(1) by (simp add: sm_from_def)
  then show ?thesis
    using assms(2) b unfolding m'
    by (force simp: sm_from_def notifyWaitersLocked_def set_salt_def salt_current_def)
qed (use assms in simp_all)

lemma StoreFromFutureSalts_chosen:
  fixes m :: salt_manager
  assumes "s0 \<in> set salts" and "salt_current now s0"
  defines "m' \<equiv> StoreFromFutureSalts now salts m"
  obtains e where "e \<in> set salts" and "salt_current now e"
    and "\<forall>s \<in> set salts. salt_current now s \<longrightarrow> se_validUntil s \<le> se_validUntil e"
    and "sm_salt m' = se_salt e" and "sm_validSince m' = se_validSince e" and "sm_validUntil m' = se_validUntil e"
    and "sm_pending m' = take 8 (filter (\<lambda>s. se_validSince s > now \<and> se_validUntil s > se_validUntil e) salts)"
proof -
  obtain first rest where salts: "salts = first # rest" using assms(1) by (cases salts) auto
  let ?e = "best_salt now first salts"
  have "salt_current now first \<or> (\<exists>s \<in> set salts. salt_current now s)" using assms(1,2) by blast
  from best_salt_spec [OF this] have "?e \<in> set salts" "salt_current now ?e"
    "\<forall>s \<in> set salts. salt_current now s \<longrightarrow> se_validUntil s \<le> se_validUntil ?e"
    by (auto simp: salts)
  moreover from this have "m' = notifyWaitersLocked ((set_salt ?e m)\<lparr>sm_pending := take 8
      (filter (\<lambda>s. se_validSince s > now \<and> se_validUntil s > sm_validUntil (set_salt ?e m)) salts)\<rparr>)"
    by (simp add: m'_def StoreFromFutureSalts_def salts Let_def)
  ultimately show ?thesis
    using that [of ?e] by (simp add: notifyWaitersLocked_def set_salt_def)
qed

lemma StoreFromFutureSalts_keeps:
  assumes "s0 \<in> set salts" and "salt_current now s0"
    and "length (filter (\<lambda>s. se_validSince s > now) salts) \<le> 8"
    and "s \<in> set salts" and "now < se_validUntil s"
  shows "sm_keeps s (StoreFromFutureSalts now salts m)"
proof -
  let ?S = "StoreFromFutureSalts now salts"
  obtain e where e: "e \<in> set salts" "salt_current now e"
    "\<forall>s \<in> set salts. salt_current now s \<longrightarrow> se_validUntil s \<le> se_validUntil e"
    "sm_salt (?S m) = se_salt e" "sm_validSince (?S m) = se_validSince e" "sm_validUntil (?S m) = se_validUntil e"
    "sm_pending (?S m) = take 8 (filter (\<lambda>s. se_validSince s > now \<and> se_validUntil s > se_validUntil e) salts)"
    by (rule StoreFromFutureSalts_chosen [OF assms(1,2), of m])
  have "filter (\<lambda>s. se_validSince s > now \<and> se_validUntil s > se_validUntil e) salts =
        filter (\<lambda>s. se_validUntil s > se_validUntil e) (filter (\<lambda>s. se_validSince s > now) salts)"
    by (simp add: conj_commute)
  then have "length (filter (\<lambda>s. se_validSince s > now \<and> se_validUntil s > se_validUntil e) salts) \<le> 8"
    using assms(3) length_filter_le [of "\<lambda>s. se_validUntil s > se_validUntil e"]
    by (metis le_trans)
  then have "sm_pending (StoreFromFutureSalts now salts m) =
      filter (\<lambda>s. se_validSince s > now \<and> se_validUntil s > se_validUntil e) salts"
    using e(7) by simp
  then show ?thesis
    using e(3,6) assms(4,5) by (auto simp: sm_keeps_def salt_current_def)
qed

definition load_run :: "int list \<Rightarrow> salt_manager \<Rightarrow> salt_manager" where
  "load_run ts m = fold (\<lambda>t m. snd (Salt_Load t m)) ts m"

lemma load_run_induct:
  assumes "P m" and "\<And>t m. t \<in> set ts \<Longrightarrow> P m \<Longrightarrow> P (promoteIfNeededLocked t m)"
  shows "P (load_run ts m)"
  using assms
  by (induction ts arbitrary: m) (auto simp: load_run_def Salt_Load_def Let_def)

lemma load_run_keeps:
  assumes "sm_validUntil m > 0" and "sm_keeps s m" and "sm_from t salts m" and "\<forall>t' \<in> set ts. t' \<le> t"
  shows "sm_validUntil (load_run ts m) > 0 \<and> sm_keeps s (load_run ts m) \<and> sm_from t salts (load_run ts m)"
proof (rule load_run_induct [where P = "\<lambda>m. sm_validUntil m > 0 \<and> sm_keeps s m \<and> sm_from t salts m"])
  fix t' m assume "t' \<in> set ts" and "sm_validUntil m > 0 \<and> sm_keeps s m \<and> sm_from t salts m"
  then show "sm_validUntil (promoteIfNeededLocked t' m) > 0 \<and> sm_keeps s (promoteIfNeededLocked t' m) \<and>
      sm_from t salts (promoteIfNeededLocked t' m)"
    using promote_mono [of m t'] promote_keeps [of m s t'] promote_from [of t salts m t'] assms(4) by auto
qed (use assms in auto)

lemma poll_result:
  "m' \<in> {snd (Salt_Load now m), snd (IsExpired now m), snd (HasValidSalt now m),
          snd (WaitForValid_turn now m)} \<Longrightarrow> m' = m \<or> m' = promoteIfNeededLocked now m"
  unfolding Salt_Load_def IsExpired_def HasValidSalt_def WaitForValid_turn_def Let_def
  by (auto split: if_splits)

lemma WaitForValid_blocks:
  assumes "WaitForValid_turn now m = (Some g, m')"
  shows "g = sm_notify m' \<and> \<not> sm_covers now m' \<and> sm_validUntil m' \<le> now"
proof -
  have m: "sm_validUntil m \<noteq> 0" and m': "m' = promoteIfNeededLocked now m" "g = sm_notify m'"
    "sm_validUntil m' \<le> now"
    using assms by (auto simp: WaitForValid_turn_def Let_def split: if_splits)
  then have no: "\<not> sm_covers now m"
    using promote_covers [OF m, of now] by auto
  then have "m' = m"
    using promote_result [OF m, of now] m'(1) unfolding sm_covers_def by (metis nth_mem)
  then show ?thesis
    using no m' by blast
qed

section \<open>Properties\<close>

text \<open>After a batch of announced salts is stored, of which one is valid now
  and at most eight start later, every later Load at a time that some announced salt covers returns an
  announced salt valid at that time, whatever loads happened in between.\<close>

theorem announced_salts_stay_available:
  assumes "s0 \<in> set salts" and "salt_current now s0" and "\<forall>s \<in> set salts. 0 < se_validUntil s"
    and "length (filter (\<lambda>s. se_validSince s > now) salts) \<le> 8"
    and "s \<in> set salts" and "salt_current t s" and "now \<le> t" and "\<forall>t' \<in> set ts. t' \<le> t"
  shows "\<exists>e \<in> set salts. salt_current t e \<and>
           fst (Salt_Load t (load_run ts (StoreFromFutureSalts now salts m))) = se_salt e"
proof -
  let ?S = "StoreFromFutureSalts now salts"
  let ?m = "?S m"
  have "now < se_validUntil s" using assms(6,7) by (simp add: salt_current_def)
  then have keeps: "sm_keeps s ?m"
    by (rule StoreFromFutureSalts_keeps [OF assms(1,2,4,5)])
  obtain e where e: "e \<in> set salts" "salt_current now e"
    "\<forall>s \<in> set salts. salt_current now s \<longrightarrow> se_validUntil s \<le> se_validUntil e"
    "sm_salt (?S m) = se_salt e" "sm_validSince (?S m) = se_validSince e" "sm_validUntil (?S m) = se_validUntil e"
    "sm_pending (?S m) = take 8 (filter (\<lambda>s. se_validSince s > now \<and> se_validUntil s > se_validUntil e) salts)"
    by (rule StoreFromFutureSalts_chosen [OF assms(1,2), of m])
  have "sm_from t salts ?m"
    unfolding sm_from_def e(4,6,7) using e(1,2) assms(7)
    by (auto simp: salt_current_def dest: in_set_takeD)
  then have run: "sm_validUntil (load_run ts ?m) > 0" "sm_keeps s (load_run ts ?m)"
    "sm_from t salts (load_run ts ?m)"
    using load_run_keeps [OF _ keeps _ assms(8)] e(1,6) assms(3) by simp_all
  have "sm_covers t (load_run ts ?m)"
    using run(2) assms(6) by (auto simp: sm_keeps_def sm_covers_def salt_current_def)
  then have "t < sm_validUntil (promoteIfNeededLocked t (load_run ts ?m))"
    using promote_covers run(1) by simp
  moreover have "sm_from t salts (promoteIfNeededLocked t (load_run ts ?m))"
    using promote_from [OF run(3) order.refl] run(1) by simp
  ultimately show ?thesis
    by (auto simp: sm_from_def Salt_Load_def Let_def salt_current_def)
qed

definition sample_salts :: "salt_entry list" where
  "sample_salts =
     [\<lparr>se_validSince = 100, se_validUntil = 200, se_salt = 7\<rparr>,
      \<lparr>se_validSince = 190, se_validUntil = 300, se_salt = 8\<rparr>]"

theorem announced_salts_stay_available_witness:
  "\<exists>e \<in> set sample_salts. salt_current 250 e \<and>
     fst (Salt_Load 250 (load_run [160, 210] (StoreFromFutureSalts 150 sample_salts newSaltManager))) = se_salt e"
proof -
  have "\<lparr>se_validSince = 100, se_validUntil = 200, se_salt = 7\<rparr> \<in> set sample_salts"
    and "\<lparr>se_validSince = 190, se_validUntil = 300, se_salt = 8\<rparr> \<in> set sample_salts"
    by (simp_all add: sample_salts_def)
  from announced_salts_stay_available [OF this(1) _ _ _ this(2), of 150 250 "[160, 210]" newSaltManager]
  show ?thesis
    by (simp add: salt_current_def sample_salts_def)
qed

text \<open>IsExpired answers true exactly when neither the current salt nor one in
  reserve is usable at that moment, and when it answers false the manager is left holding a salt that
  has not expired.\<close>

theorem is_expired_iff_no_salt:
  assumes "sm_validUntil m \<noteq> 0" and "\<forall>s \<in> set (sm_pending m). se_validUntil s \<noteq> 0"
  shows "(fst (IsExpired now m) \<longleftrightarrow> \<not> sm_covers now m) \<and>
         (\<not> fst (IsExpired now m) \<longrightarrow> now < sm_validUntil (snd (IsExpired now m)))"
  using promote_result [OF assms(1), of now] promote_covers [OF assms(1), of now] assms
  by (auto simp: IsExpired_def Let_def sm_covers_def notifyWaitersLocked_def set_salt_def salt_current_def)

theorem is_expired_iff_no_salt_witness:
  "(let m = StoreFromFutureSalts 150 sample_salts newSaltManager
    in sm_validUntil m \<noteq> 0 \<and> \<not> fst (IsExpired 299 m) \<and> fst (IsExpired 300 m))"
proof -
  define m where "m = StoreFromFutureSalts 150 sample_salts newSaltManager"
  have "sm_validUntil m \<noteq> 0" and "\<forall>s \<in> set (sm_pending m). se_validUntil s \<noteq> 0"
    and "sm_covers 299 m" and "\<not> sm_covers 300 m"
    unfolding m_def by code_simp+
  then show ?thesis
    using is_expired_iff_no_salt [of m 299] is_expired_iff_no_salt [of m 300]
    by (simp add: Let_def flip: m_def)
qed

text \<open>A waiter that found no usable salt blocks on the current
  generation; any later operation that leaves the generation unchanged has left salt and validity
  unchanged as well, so a waiter is always woken by the store or promotion that could serve it.\<close>

theorem salt_waiter_not_missed:
  "(sm_notify (StoreSimple now salt m) \<noteq> sm_notify m) \<and>
   (salts \<noteq> [] \<longrightarrow> sm_notify (StoreFromFutureSalts now salts m) \<noteq> sm_notify m) \<and>
   (\<forall>m' \<in> {snd (Salt_Load now m), snd (IsExpired now m), snd (HasValidSalt now m),
             snd (WaitForValid_turn now m)}. sm_notify m' = sm_notify m \<longrightarrow> m' = m) \<and>
   (\<forall>g m'. WaitForValid_turn now m = (Some g, m') \<longrightarrow>
      g = sm_notify m' \<and> \<not> sm_covers now m' \<and> sm_validUntil m' \<le> now)"
proof -
  have "m' = m" if "m' \<in> {snd (Salt_Load now m), snd (IsExpired now m), snd (HasValidSalt now m),
      snd (WaitForValid_turn now m)}" and "sm_notify m' = sm_notify m" for m'
    using poll_result [OF that(1)] that(2) promote_silent [of now m] by (elim disjE) simp_all
  moreover have "sm_notify (StoreSimple now salt m) \<noteq> sm_notify m"
    by (simp add: StoreSimple_def notifyWaitersLocked_def storeSimpleLocked_def)
  moreover have "salts \<noteq> [] \<longrightarrow> sm_notify (StoreFromFutureSalts now salts m) \<noteq> sm_notify m"
    by (cases salts) (simp_all add: StoreFromFutureSalts_def Let_def notifyWaitersLocked_def set_salt_def)
  ultimately show ?thesis
    using WaitForValid_blocks by blast
qed

theorem salt_waiter_not_missed_witness:
  "WaitForValid_turn 400 (StoreFromFutureSalts 150 sample_salts newSaltManager) =
     (Some 1, StoreFromFutureSalts 150 sample_salts newSaltManager) \<and>
   sm_notify (StoreSimple 400 9 (StoreFromFutureSalts 150 sample_salts newSaltManager)) \<noteq> 1"
proof -
  have w: "WaitForValid_turn 400 (StoreFromFutureSalts 150 sample_salts newSaltManager) =
     (Some 1, StoreFromFutureSalts 150 sample_salts newSaltManager)"
    by code_simp
  then show ?thesis
    using salt_waiter_not_missed [of 400 9 "StoreFromFutureSalts 150 sample_salts newSaltManager" "[]"] by simp
qed

end
