(* ===== verification/Session_State.thy ===== *)
theory Session_State
  imports Session_Types
begin

text \<open>
  Connection life cycles: the session state machine (\<^verbatim>\<open>src/internal/session/state.go\<close>), the guards
  and failure counters of \<^verbatim>\<open>src/internal/session/session.go\<close> that feed it (write admission, the write
  circuit breaker, the "no workers" recycling, the recorded shutdown cause), and the client's
  connection state (\<^verbatim>\<open>src/telegram/conn_state.go\<close>). Counters of type \<^verbatim>\<open>atomic.Int32\<close> are 32-bit
  words. Cancelling the session's goroutine group is the result \<open>True\<close> of an operation.
\<close>

section \<open>The session state machine\<close>

datatype session_state = StateIdle | StateConnecting | StateActive | StateDraining | StateClosed

definition allowedTransitions :: "session_state \<Rightarrow> session_state list" where
  "allowedTransitions st =
     (case st of
        StateIdle \<Rightarrow> [StateConnecting]
      | StateConnecting \<Rightarrow> [StateActive, StateDraining, StateClosed]
      | StateActive \<Rightarrow> [StateDraining, StateClosed]
      | StateDraining \<Rightarrow> [StateConnecting, StateClosed]
      | StateClosed \<Rightarrow> [])"

definition newStateMachine :: session_state where
  "newStateMachine = StateIdle"

definition doTransition :: "session_state \<Rightarrow> session_state \<Rightarrow> bool \<times> session_state" where
  "doTransition to sm = (if to \<in> set (allowedTransitions sm) then (True, to) else (False, sm))"

definition transition :: "session_state \<Rightarrow> session_state \<Rightarrow> session_state \<Rightarrow> bool \<times> session_state" where
  "transition from to sm = (if sm \<noteq> from then (False, sm) else doTransition to sm)"

definition transitionTo :: "session_state \<Rightarrow> session_state \<Rightarrow> bool \<times> session_state" where
  "transitionTo to sm = doTransition to sm"

definition canWrite :: "session_state \<Rightarrow> bool" where
  "canWrite sm \<longleftrightarrow> sm = StateActive \<or> sm = StateConnecting"

definition canConnect :: "session_state \<Rightarrow> bool" where
  "canConnect sm \<longleftrightarrow> sm = StateIdle"

definition canReconnect :: "session_state \<Rightarrow> bool" where
  "canReconnect sm \<longleftrightarrow> sm = StateDraining"

definition canClose :: "session_state \<Rightarrow> bool" where
  "canClose sm \<longleftrightarrow> sm \<noteq> StateClosed"

definition sm_isActive :: "session_state \<Rightarrow> bool" where
  "sm_isActive sm \<longleftrightarrow> sm = StateActive"

text \<open>Admission of a write: \<open>stopping\<close> is the session's flag. \<open>None\<close> is the nil error.\<close>

definition checkWrite :: "bool \<Rightarrow> session_state \<Rightarrow> session_error option" where
  "checkWrite stopping sm =
     (if stopping then Some (Sentinel ErrSessionClosed)
      else case sm of
        StateActive \<Rightarrow> None
      | StateConnecting \<Rightarrow> None
      | StateClosed \<Rightarrow> Some (Sentinel ErrSessionClosed)
      | StateDraining \<Rightarrow> Some (Sentinel ErrDraining)
      | StateIdle \<Rightarrow> Some (Sentinel ErrNotConnected))"

text \<open>The calls the session makes on the machine: the conditional and the unconditional one.\<close>

datatype sm_call = CallTransition session_state session_state | CallTransitionTo session_state

fun sm_exec :: "session_state \<Rightarrow> sm_call \<Rightarrow> session_state" where
  "sm_exec sm (CallTransition from to) = snd (transition from to sm)"
| "sm_exec sm (CallTransitionTo to) = snd (transitionTo to sm)"

section \<open>Failure counters of the session\<close>

record session_guards =
  sg_consecWriteFailures :: u32
  sg_writeBreakerThreshold :: u32
  sg_writeBreakerOpen :: bool
  sg_noWorkersStreak :: u32
  sg_noWorkersRecycled :: bool
  sg_shutdownCause :: "(session_error \<times> string) option"

text \<open>As NewSession leaves them.\<close>

definition new_guards :: session_guards where
  "new_guards =
     \<lparr>sg_consecWriteFailures = 0, sg_writeBreakerThreshold = 10, sg_writeBreakerOpen = False,
      sg_noWorkersStreak = 0, sg_noWorkersRecycled = False, sg_shutdownCause = None\<rparr>"

definition SetWriteBreakerThreshold :: "u32 \<Rightarrow> session_guards \<Rightarrow> session_guards" where
  "SetWriteBreakerThreshold n g = g\<lparr>sg_writeBreakerThreshold := n\<rparr>"

definition ResetWriteBreaker :: "session_guards \<Rightarrow> session_guards" where
  "ResetWriteBreaker g = g\<lparr>sg_consecWriteFailures := 0, sg_writeBreakerOpen := False\<rparr>"

definition recordShutdownCause :: "session_error option \<Rightarrow> string \<Rightarrow> session_guards \<Rightarrow> session_guards" where
  "recordShutdownCause err source g =
     (case err of
        None \<Rightarrow> g
      | Some e \<Rightarrow>
          (case sg_shutdownCause g of
             Some _ \<Rightarrow> g
           | None \<Rightarrow> g\<lparr>sg_shutdownCause := Some (e, source)\<rparr>))"

text \<open>What wrapGoroutine does with the error its function returned.\<close>

definition wrapGoroutine :: "string \<Rightarrow> session_error option \<Rightarrow> session_guards \<Rightarrow> session_guards" where
  "wrapGoroutine name err g =
     (case err of
        None \<Rightarrow> g
      | Some e \<Rightarrow>
          if errors_is e CtxCanceled \<or> errors_is e CtxDeadlineExceeded then g
          else recordShutdownCause (Some e) name g)"

text \<open>\<open>True\<close> as first component: the goroutine group is cancelled.\<close>

definition trackWriteResult :: "session_error option \<Rightarrow> session_guards \<Rightarrow> bool \<times> session_guards" where
  "trackWriteResult err g =
     (if sint (sg_writeBreakerThreshold g) \<le> 0 then (False, g)
      else case err of
        Some _ \<Rightarrow>
          let newCount = sg_consecWriteFailures g + 1;
              g1 = g\<lparr>sg_consecWriteFailures := newCount\<rparr>
          in if sint newCount \<ge> sint (sg_writeBreakerThreshold g) \<and> \<not> sg_writeBreakerOpen g
             then (True, recordShutdownCause (Some OtherError) ''writeBreaker''
                           (g1\<lparr>sg_writeBreakerOpen := True\<rparr>))
             else (False, g1)
      | None \<Rightarrow> (False, g\<lparr>sg_consecWriteFailures := 0, sg_writeBreakerOpen := False\<rparr>))"

definition noWorkersRecycleThreshold :: int where
  "noWorkersRecycleThreshold = 2"

text \<open>A server error; the message is a list of code points. \<^verbatim>\<open>strings.EqualFold\<close> against an ASCII
  string: the Kelvin sign folds to k and the long s to s.\<close>

record rpc_error =
  re_Code :: int
  re_Message :: "int list"

definition fold_rune :: "int \<Rightarrow> int" where
  "fold_rune r =
     (if 65 \<le> r \<and> r \<le> 90 then r + 32 else if r = 0x212A then 107 else if r = 0x17F then 115 else r)"

definition no_workers_text :: "int list" where
  "no_workers_text = map (\<lambda>c. int (of_char c)) ''no workers running''"

definition isNoWorkersRunningError :: "rpc_error option \<Rightarrow> bool" where
  "isNoWorkersRunningError e =
     (case e of
        None \<Rightarrow> False
      | Some err \<Rightarrow>
          if re_Code err \<noteq> - 500 \<and> re_Code err \<noteq> 500 then False
          else map fold_rune (map (\<lambda>r. if r = 95 then 32 else r) (re_Message err)) =
               map fold_rune no_workers_text)"

definition noteNoWorkersError :: "session_guards \<Rightarrow> bool \<times> session_guards" where
  "noteNoWorkersError g =
     (let streak = sg_noWorkersStreak g + 1;
          g1 = g\<lparr>sg_noWorkersStreak := streak\<rparr>
      in if sint streak < noWorkersRecycleThreshold then (False, g1)
         else if sg_noWorkersRecycled g1 then (False, g1)
         else (True, g1\<lparr>sg_noWorkersRecycled := True\<rparr>))"

definition recycleNoWorkersConnection :: "session_guards \<Rightarrow> bool \<times> session_guards" where
  "recycleNoWorkersConnection g = (True, recordShutdownCause (Some OtherError) ''noWorkers'' g)"

text \<open>The check before a write in writeEncryptedImpl, both times it is made.\<close>

definition write_admitted :: "bool \<Rightarrow> session_guards \<Rightarrow> session_error option" where
  "write_admitted stopping g =
     (if stopping then Some (Sentinel ErrSessionClosed)
      else if sint (sg_writeBreakerThreshold g) > 0 \<and> sg_writeBreakerOpen g
      then Some (Sentinel ErrWriteCircuitOpen) else None)"

section \<open>The client's connection state\<close>

datatype conn_state =
  ConnStateDisconnected | ConnStateConnecting | ConnStateConnected | ConnStateReconnecting | ConnStateClosed

datatype client_error = ErrClientClosed | ErrAlreadyConnected | ErrReconnectFailed | ErrClientNotConnected

text \<open>Times are nanoseconds; the zero time is 0.\<close>

record conn_state_manager =
  cs_state :: conn_state
  cs_currentDC :: int
  cs_lastRead :: int
  cs_lastWrite :: int
  cs_lastPing :: int
  cs_lastPong :: int
  cs_reconnectCount :: int
  cs_lastErr :: "session_error option"
  cs_connectedSince :: int

definition newConnStateManager :: conn_state_manager where
  "newConnStateManager =
     \<lparr>cs_state = ConnStateDisconnected, cs_currentDC = 0, cs_lastRead = 0, cs_lastWrite = 0,
      cs_lastPing = 0, cs_lastPong = 0, cs_reconnectCount = 0, cs_lastErr = None, cs_connectedSince = 0\<rparr>"

definition SetConnecting :: "int \<Rightarrow> conn_state_manager \<Rightarrow> client_error option \<times> conn_state_manager" where
  "SetConnecting dcID cs =
     (if cs_state cs = ConnStateClosed then (Some ErrClientClosed, cs)
      else if cs_state cs = ConnStateConnected \<or> cs_state cs = ConnStateConnecting
      then (Some ErrAlreadyConnected, cs)
      else (None, cs\<lparr>cs_state := ConnStateConnecting, cs_currentDC := dcID\<rparr>))"

definition trySetConnected :: "int \<Rightarrow> conn_state_manager \<Rightarrow> bool \<times> conn_state_manager" where
  "trySetConnected now cs =
     (if cs_state cs = ConnStateClosed then (False, cs)
      else (True, cs\<lparr>cs_state := ConnStateConnected, cs_connectedSince := now, cs_lastErr := None\<rparr>))"

definition SetConnected :: "int \<Rightarrow> conn_state_manager \<Rightarrow> conn_state_manager" where
  "SetConnected now cs = snd (trySetConnected now cs)"

definition SetReconnecting :: "session_error option \<Rightarrow> conn_state_manager \<Rightarrow> conn_state_manager" where
  "SetReconnecting err cs =
     (if cs_state cs = ConnStateClosed then cs
      else cs\<lparr>cs_state := ConnStateReconnecting, cs_reconnectCount := cs_reconnectCount cs + 1,
              cs_lastErr := err\<rparr>)"

definition SetDisconnected :: "session_error option \<Rightarrow> conn_state_manager \<Rightarrow> conn_state_manager" where
  "SetDisconnected err cs =
     (if cs_state cs = ConnStateClosed then cs
      else cs\<lparr>cs_state := ConnStateDisconnected, cs_lastErr := err, cs_connectedSince := 0\<rparr>)"

definition SetClosed :: "conn_state_manager \<Rightarrow> conn_state_manager" where
  "SetClosed cs = cs\<lparr>cs_state := ConnStateClosed, cs_connectedSince := 0\<rparr>"

definition RecordRead :: "int \<Rightarrow> conn_state_manager \<Rightarrow> conn_state_manager" where
  "RecordRead now cs = cs\<lparr>cs_lastRead := now\<rparr>"

definition RecordWrite :: "int \<Rightarrow> conn_state_manager \<Rightarrow> conn_state_manager" where
  "RecordWrite now cs = cs\<lparr>cs_lastWrite := now\<rparr>"

definition RecordPing :: "int \<Rightarrow> conn_state_manager \<Rightarrow> conn_state_manager" where
  "RecordPing now cs = cs\<lparr>cs_lastPing := now\<rparr>"

definition RecordPong :: "int \<Rightarrow> conn_state_manager \<Rightarrow> conn_state_manager" where
  "RecordPong now cs = cs\<lparr>cs_lastPong := now\<rparr>"

definition SetDC :: "int \<Rightarrow> conn_state_manager \<Rightarrow> conn_state_manager" where
  "SetDC dcID cs = cs\<lparr>cs_currentDC := dcID\<rparr>"

definition IsConnected :: "conn_state_manager \<Rightarrow> bool" where
  "IsConnected cs \<longleftrightarrow> cs_state cs = ConnStateConnected"

definition IsClosed :: "conn_state_manager \<Rightarrow> bool" where
  "IsClosed cs \<longleftrightarrow> cs_state cs = ConnStateClosed"

definition CanReconnect :: "conn_state_manager \<Rightarrow> bool" where
  "CanReconnect cs \<longleftrightarrow> cs_state cs = ConnStateReconnecting \<or> cs_state cs = ConnStateDisconnected"

definition RequireConnected :: "conn_state_manager \<Rightarrow> client_error option" where
  "RequireConnected cs =
     (case cs_state cs of
        ConnStateConnected \<Rightarrow> None
      | ConnStateClosed \<Rightarrow> Some ErrClientClosed
      | ConnStateReconnecting \<Rightarrow> Some ErrReconnectFailed
      | _ \<Rightarrow> Some ErrClientNotConnected)"

definition ResetReconnectCount :: "conn_state_manager \<Rightarrow> conn_state_manager" where
  "ResetReconnectCount cs = cs\<lparr>cs_reconnectCount := 0\<rparr>"

datatype cs_op =
    OpConnecting int | OpConnected int | OpReconnecting "session_error option"
  | OpDisconnected "session_error option" | OpClosed | OpRead int | OpWrite int | OpPing int | OpPong int
  | OpDC int | OpResetCount

fun cs_exec :: "conn_state_manager \<Rightarrow> cs_op \<Rightarrow> conn_state_manager" where
  "cs_exec cs (OpConnecting dc) = snd (SetConnecting dc cs)"
| "cs_exec cs (OpConnected now) = SetConnected now cs"
| "cs_exec cs (OpReconnecting e) = SetReconnecting e cs"
| "cs_exec cs (OpDisconnected e) = SetDisconnected e cs"
| "cs_exec cs OpClosed = SetClosed cs"
| "cs_exec cs (OpRead now) = RecordRead now cs"
| "cs_exec cs (OpWrite now) = RecordWrite now cs"
| "cs_exec cs (OpPing now) = RecordPing now cs"
| "cs_exec cs (OpPong now) = RecordPong now cs"
| "cs_exec cs (OpDC dc) = SetDC dc cs"
| "cs_exec cs OpResetCount = ResetReconnectCount cs"

section \<open>Runs\<close>

lemma sm_exec_closed: "sm_exec StateClosed c = StateClosed"
  by (cases c) (simp_all add: transition_def transitionTo_def doTransition_def allowedTransitions_def)

lemma sm_exec_idle: "sm_exec sm c = StateIdle \<Longrightarrow> sm = StateIdle"
  by (cases c; cases sm)
    (auto simp: transition_def transitionTo_def doTransition_def allowedTransitions_def split: if_splits)

lemma sm_exec_active: "sm_exec sm c = StateActive \<Longrightarrow> sm = StateActive \<or> sm = StateConnecting"
  by (cases c; cases sm)
    (auto simp: transition_def transitionTo_def doTransition_def allowedTransitions_def split: if_splits)

fun breaker_run :: "session_error option list \<Rightarrow> session_guards \<Rightarrow> nat \<times> session_guards" where
  "breaker_run [] g = (0, g)"
| "breaker_run (e # es) g =
     (let (cancel, g1) = trackWriteResult e g; (n, g2) = breaker_run es g1
      in ((if cancel then Suc n else n), g2))"

text \<open>The counter after \<open>n\<close> failures in a row, while it does not overflow.\<close>

definition breaker_at :: "u32 \<Rightarrow> nat \<Rightarrow> session_guards \<Rightarrow> bool" where
  "breaker_at k n g \<longleftrightarrow>
     sg_writeBreakerThreshold g = k \<and> sg_consecWriteFailures g = of_nat n \<and>
     (sg_writeBreakerOpen g \<longleftrightarrow> nat (sint k) \<le> n)"

lemma recordShutdownCause_fields [simp]:
  "sg_consecWriteFailures (recordShutdownCause e s g) = sg_consecWriteFailures g"
  "sg_writeBreakerThreshold (recordShutdownCause e s g) = sg_writeBreakerThreshold g"
  "sg_writeBreakerOpen (recordShutdownCause e s g) = sg_writeBreakerOpen g"
  by (simp_all add: recordShutdownCause_def split: option.split)

lemma breaker_step:
  assumes "breaker_at k n g" and "0 < sint k" and "Suc n < 2 ^ 31"
  shows "fst (trackWriteResult (Some e) g) = (Suc n = nat (sint k))"
    and "breaker_at k (Suc n) (snd (trackWriteResult (Some e) g))"
proof -
  have "sint (of_nat n + 1 :: u32) = int (Suc n)"
    using sint_of_nat_small [of "Suc n"] assms(3) by (simp add: add.commute)
  then show "fst (trackWriteResult (Some e) g) = (Suc n = nat (sint k))"
    and "breaker_at k (Suc n) (snd (trackWriteResult (Some e) g))"
    using assms by (auto simp: breaker_at_def trackWriteResult_def Let_def)
qed

lemma breaker_failures:
  assumes "breaker_at k n g" and "0 < sint k" and "n + length es < 2 ^ 31" and "None \<notin> set es"
  shows "fst (breaker_run es g) = (if n < nat (sint k) \<and> nat (sint k) \<le> n + length es then 1 else 0) \<and>
         breaker_at k (n + length es) (snd (breaker_run es g))"
  using assms
proof (induction es arbitrary: n g)
  case (Cons e es)
  obtain e' where e: "e = Some e'" using Cons.prems(4) by (cases e) auto
  have "Suc n < 2 ^ 31" using Cons.prems(3) by simp
  note step = breaker_step [OF Cons.prems(1,2) this, of e']
  show ?case
    using Cons.IH [OF step(2) Cons.prems(2)] Cons.prems(3,4) step(1)
    by (auto simp: e case_prod_beta Let_def)
qed simp

lemma cs_exec_closed: "IsClosed cs \<Longrightarrow> IsClosed (cs_exec cs op)"
  by (cases op)
    (simp_all add: IsClosed_def SetConnecting_def SetConnected_def trySetConnected_def SetReconnecting_def
      SetDisconnected_def SetClosed_def RecordRead_def RecordWrite_def RecordPing_def RecordPong_def
      SetDC_def ResetReconnectCount_def)

lemma cs_run_closed: "IsClosed cs \<Longrightarrow> IsClosed (foldl cs_exec cs ops)"
  by (induction ops arbitrary: cs) (auto intro: cs_exec_closed)

text \<open>The state some operations after SetClosed.\<close>

definition after_close :: "cs_op list \<Rightarrow> conn_state_manager \<Rightarrow> conn_state_manager" where
  "after_close ops cs = foldl cs_exec (SetClosed cs) ops"

section \<open>Properties\<close>

text \<open>Whatever transitions the session's goroutines request, and in whatever
  order, a closed session stays closed and refuses every write; no session becomes idle again; a
  session is active only straight after connecting; a write is admitted exactly in the states canWrite
  names.\<close>

theorem session_states_never_revive:
  "foldl sm_exec StateClosed calls = StateClosed \<and>
   checkWrite stopping (foldl sm_exec StateClosed calls) = Some (Sentinel ErrSessionClosed) \<and>
   (foldl sm_exec sm calls = StateIdle \<longrightarrow> sm = StateIdle) \<and>
   (sm_exec sm c = StateActive \<longrightarrow> sm = StateActive \<or> sm = StateConnecting) \<and>
   (checkWrite stopping sm = None \<longleftrightarrow> \<not> stopping \<and> canWrite sm)"
proof -
  have "foldl sm_exec StateClosed calls = StateClosed"
    by (induction calls) (simp_all add: sm_exec_closed)
  moreover have "foldl sm_exec sm calls = StateIdle \<Longrightarrow> sm = StateIdle"
    by (induction calls arbitrary: sm) (auto dest: sm_exec_idle)
  ultimately show ?thesis
    using sm_exec_active by (auto simp: checkWrite_def canWrite_def split: session_state.split)
qed

theorem session_states_never_revive_witness:
  "foldl sm_exec StateClosed [CallTransitionTo StateConnecting, CallTransition StateIdle StateConnecting] = StateClosed \<and>
   sm_exec StateConnecting (CallTransition StateConnecting StateActive) = StateActive"
  using session_states_never_revive [of "[CallTransitionTo StateConnecting, CallTransition StateIdle StateConnecting]"
      False StateConnecting "CallTransition StateConnecting StateActive"]
  by (simp add: transition_def doTransition_def allowedTransitions_def)

text \<open>With a positive threshold k, a run of n write failures on a closed
  breaker cancels the session exactly once, at the k-th failure, and writes are refused with
  ErrWriteCircuitOpen exactly when n has reached k; a success or a reset closes the breaker.\<close>

theorem write_breaker_opens_at_threshold:
  assumes "sg_writeBreakerThreshold g = k" and "0 < sint k"
    and "sg_consecWriteFailures g = 0" and "\<not> sg_writeBreakerOpen g"
    and "None \<notin> set es" and "length es < 2 ^ 31"
  shows "fst (breaker_run es g) = (if nat (sint k) \<le> length es then 1 else 0) \<and>
         (write_admitted False (snd (breaker_run es g)) = Some (Sentinel ErrWriteCircuitOpen) \<longleftrightarrow>
            nat (sint k) \<le> length es) \<and>
         write_admitted False (snd (trackWriteResult None (snd (breaker_run es g)))) = None \<and>
         write_admitted False (ResetWriteBreaker (snd (breaker_run es g))) = None"
proof -
  have "breaker_at k 0 g"
    using assms by (simp add: breaker_at_def)
  from breaker_failures [OF this assms(2), of es] assms
  show ?thesis
    by (auto simp: breaker_at_def write_admitted_def trackWriteResult_def ResetWriteBreaker_def)
qed

theorem write_breaker_opens_at_threshold_witness:
  "fst (breaker_run (replicate 12 (Some OtherError)) new_guards) = 1 \<and>
   write_admitted False (snd (breaker_run (replicate 12 (Some OtherError)) new_guards)) =
     Some (Sentinel ErrWriteCircuitOpen)"
proof -
  have "sg_writeBreakerThreshold new_guards = 10" "sg_consecWriteFailures new_guards = 0"
    "\<not> sg_writeBreakerOpen new_guards"
    by (simp_all add: new_guards_def)
  from write_breaker_opens_at_threshold [OF this(1) _ this(2,3), of "replicate 12 (Some OtherError)"]
  show ?thesis by simp
qed

text \<open>Close is final. Once the client state is closed, no later call, in
  particular not a dial that completes late, makes it connected, and every caller is told so.\<close>

theorem closed_client_stays_closed:
  "IsClosed (after_close ops cs) \<and> \<not> IsConnected (after_close ops cs) \<and> \<not> CanReconnect (after_close ops cs) \<and>
         RequireConnected (after_close ops cs) = Some ErrClientClosed \<and>
         \<not> fst (trySetConnected now (after_close ops cs)) \<and>
         fst (SetConnecting dc (after_close ops cs)) = Some ErrClientClosed"
proof -
  have "IsClosed (after_close ops cs)"
    unfolding after_close_def by (rule cs_run_closed) (simp add: IsClosed_def SetClosed_def)
  then show ?thesis
    by (simp add: IsClosed_def IsConnected_def CanReconnect_def RequireConnected_def trySetConnected_def
        SetConnecting_def)
qed

end
