(* ===== verification/AES_Modes.thy ===== *)
theory AES_Modes
  imports Mtgo_Prelude
begin

text \<open>
  The cipher modes of \<^verbatim>\<open>src/internal/crypto/aes.go\<close>: IGE for MTProto payloads and the incremental CTR
  stream behind the obfuscated transport. The AES block function of the Go library is a parameter:
  \<open>E key\<close> encrypts and \<open>D key\<close> decrypts one 16-byte block.
\<close>

section \<open>Blocks\<close>

datatype aes_error = ErrKeySize nat | ErrNotBlockAligned nat

definition GetAESBlock :: "bytes \<Rightarrow> aes_error + unit" where
  "GetAESBlock key =
     (if length key \<noteq> 16 \<and> length key \<noteq> 24 \<and> length key \<noteq> 32 then Inl (ErrKeySize (length key)) else Inr ())"

definition xorInPlace :: "bytes \<Rightarrow> bytes \<Rightarrow> bytes" where
  "xorInPlace a b = map2 (XOR) a b"

text \<open>What the modes rely on: block functions keep the block size, and decryption undoes encryption.\<close>

definition block_cipher_ok :: "(bytes \<Rightarrow> bytes \<Rightarrow> bytes) \<Rightarrow> (bytes \<Rightarrow> bytes \<Rightarrow> bytes) \<Rightarrow> bytes \<Rightarrow> bool" where
  "block_cipher_ok E D key \<longleftrightarrow>
     (\<forall>b. length b = 16 \<longrightarrow> length (E key b) = 16 \<and> length (D key b) = 16 \<and> D key (E key b) = b)"

section \<open>IGE\<close>

text \<open>The loop over 16-byte chunks; \<open>iv1\<close> and \<open>iv2\<close> are the two chaining blocks.\<close>

function ige_encrypt_loop :: "(bytes \<Rightarrow> bytes) \<Rightarrow> bytes \<Rightarrow> bytes \<Rightarrow> bytes \<Rightarrow> bytes" where
  "ige_encrypt_loop enc iv1 iv2 data =
     (if data = [] then []
      else let chunk = take 16 data;
               result = xorInPlace (enc (xorInPlace chunk iv1)) iv2
           in result @ ige_encrypt_loop enc result chunk (drop 16 data))"
  by pat_completeness auto
termination by (relation "measure (\<lambda>(_, _, _, data). length data)") auto

function ige_decrypt_loop :: "(bytes \<Rightarrow> bytes) \<Rightarrow> bytes \<Rightarrow> bytes \<Rightarrow> bytes \<Rightarrow> bytes" where
  "ige_decrypt_loop dec iv1 iv2 data =
     (if data = [] then []
      else let chunk = take 16 data;
               result = xorInPlace (dec (xorInPlace chunk iv2)) iv1
           in result @ ige_decrypt_loop dec chunk result (drop 16 data))"
  by pat_completeness auto
termination by (relation "measure (\<lambda>(_, _, _, data). length data)") auto

declare ige_encrypt_loop.simps [simp del] ige_decrypt_loop.simps [simp del]

definition IGEEncrypt :: "(bytes \<Rightarrow> bytes \<Rightarrow> bytes) \<Rightarrow> bytes \<Rightarrow> bytes \<Rightarrow> bytes \<Rightarrow> aes_error + bytes" where
  "IGEEncrypt E data key iv =
     (if length data = 0 then Inr []
      else if length data mod 16 \<noteq> 0 then Inl (ErrNotBlockAligned (length data))
      else case GetAESBlock key of
        Inl e \<Rightarrow> Inl e
      | Inr _ \<Rightarrow> Inr (ige_encrypt_loop (E key) (take 16 iv) (take 16 (drop 16 iv)) data))"

definition IGEDecrypt :: "(bytes \<Rightarrow> bytes \<Rightarrow> bytes) \<Rightarrow> bytes \<Rightarrow> bytes \<Rightarrow> bytes \<Rightarrow> aes_error + bytes" where
  "IGEDecrypt D data key iv =
     (if length data = 0 then Inr []
      else if length data mod 16 \<noteq> 0 then Inl (ErrNotBlockAligned (length data))
      else case GetAESBlock key of
        Inl e \<Rightarrow> Inl e
      | Inr _ \<Rightarrow> Inr (ige_decrypt_loop (D key) (take 16 iv) (take 16 (drop 16 iv)) data))"

section \<open>CTR\<close>

text \<open>The big-endian counter, from its last byte.\<close>

primrec increment_rev :: "bytes \<Rightarrow> bytes" where
  "increment_rev [] = []"
| "increment_rev (b # bs) = (if b + 1 \<noteq> 0 then (b + 1) # bs else (b + 1) # increment_rev bs)"

definition incrementIV :: "bytes \<Rightarrow> bytes" where
  "incrementIV iv = rev (increment_rev (rev iv))"

record ctr_cipher =
  ctr_iv :: bytes
  ctr_keystream :: bytes
  ctr_pos :: nat

text \<open>\<^verbatim>\<open>copy(ivCopy, iv)\<close> into 16 zero bytes.\<close>

definition copy16 :: "bytes \<Rightarrow> bytes" where
  "copy16 iv = take 16 iv @ replicate (16 - length iv) 0"

definition NewCTRCipher :: "(bytes \<Rightarrow> bytes \<Rightarrow> bytes) \<Rightarrow> bytes \<Rightarrow> bytes \<Rightarrow> aes_error + ctr_cipher" where
  "NewCTRCipher E key iv =
     (case GetAESBlock key of
        Inl e \<Rightarrow> Inl e
      | Inr _ \<Rightarrow> Inr \<lparr>ctr_iv = copy16 iv, ctr_keystream = E key (copy16 iv), ctr_pos = 0\<rparr>)"

definition ctr_step :: "(bytes \<Rightarrow> bytes) \<Rightarrow> ctr_cipher \<Rightarrow> ctr_cipher" where
  "ctr_step enc c =
     (let c1 = c\<lparr>ctr_pos := ctr_pos c + 1\<rparr>
      in if ctr_pos c1 \<ge> 16
         then let iv' = incrementIV (ctr_iv c1)
              in c1\<lparr>ctr_pos := 0, ctr_iv := iv', ctr_keystream := enc iv'\<rparr>
         else c1)"

text \<open>ProcessTo; Process returns its output.\<close>

primrec CTR_Process :: "(bytes \<Rightarrow> bytes) \<Rightarrow> bytes \<Rightarrow> ctr_cipher \<Rightarrow> bytes \<times> ctr_cipher" where
  "CTR_Process enc [] c = ([], c)"
| "CTR_Process enc (b # bs) c =
     (let out = b XOR (ctr_keystream c ! ctr_pos c);
          (outs, c') = CTR_Process enc bs (ctr_step enc c)
      in (out # outs, c'))"

text \<open>The one-shot ctrCrypt, with its own copy of the loop.\<close>

primrec ctr_crypt_loop :: "(bytes \<Rightarrow> bytes) \<Rightarrow> bytes \<Rightarrow> bytes \<Rightarrow> bytes \<Rightarrow> nat \<Rightarrow> bytes" where
  "ctr_crypt_loop enc [] iv keystream pos = []"
| "ctr_crypt_loop enc (b # bs) iv keystream pos =
     (b XOR (keystream ! pos)) #
     (if pos + 1 \<ge> 16
      then let iv' = incrementIV iv in ctr_crypt_loop enc bs iv' (enc iv') 0
      else ctr_crypt_loop enc bs iv keystream (pos + 1))"

definition ctrCrypt :: "(bytes \<Rightarrow> bytes \<Rightarrow> bytes) \<Rightarrow> bytes \<Rightarrow> bytes \<Rightarrow> bytes \<Rightarrow> aes_error + bytes" where
  "ctrCrypt E data key iv =
     (if length data = 0 then Inr []
      else case GetAESBlock key of
        Inl e \<Rightarrow> Inl e
      | Inr _ \<Rightarrow> Inr (ctr_crypt_loop (E key) data (copy16 iv) (E key (copy16 iv)) 0))"

section \<open>Exclusive or of blocks\<close>

lemma length_xorInPlace [simp]: "length (xorInPlace a b) = min (length a) (length b)"
  by (simp add: xorInPlace_def)

lemma xorInPlace_cancel: "length a \<le> length b \<Longrightarrow> xorInPlace (xorInPlace a b) b = a"
  by (rule nth_equalityI) (auto simp: xorInPlace_def xor.assoc)

section \<open>IGE round trip\<close>


lemma ige_loop_inverse:
  assumes ok: "\<And>b. length b = 16 \<Longrightarrow> length (enc b) = 16 \<and> dec (enc b) = b"
    and "length iv1 = 16" and "length iv2 = 16" and "length data = 16 * n"
  shows "length (ige_encrypt_loop enc iv1 iv2 data) = length data \<and>
         ige_decrypt_loop dec iv1 iv2 (ige_encrypt_loop enc iv1 iv2 data) = data"
  using assms(2-4)
proof (induction n arbitrary: iv1 iv2 data)
  case 0
  then show ?case by (simp add: ige_encrypt_loop.simps ige_decrypt_loop.simps)
next
  case (Suc n)
  define chunk where "chunk = take 16 data"
  define r where "r = xorInPlace (enc (xorInPlace chunk iv1)) iv2"
  have len: "length chunk = 16" "length r = 16" "length (drop 16 data) = 16 * n"
    and xlen: "length (xorInPlace chunk iv1) = 16" and dlen: "length (enc (xorInPlace chunk iv1)) = 16"
    using Suc.prems ok by (simp_all add: chunk_def r_def)
  have "data \<noteq> []" using Suc.prems by auto
  then have enc: "ige_encrypt_loop enc iv1 iv2 data = r @ ige_encrypt_loop enc r chunk (drop 16 data)"
    by (simp add: ige_encrypt_loop.simps [of enc iv1 iv2 data] Let_def chunk_def r_def)
  have "xorInPlace (dec (xorInPlace r iv2)) iv1 = chunk"
    using ok [OF xlen] Suc.prems dlen xlen len(1) unfolding r_def by (simp add: xorInPlace_cancel)
  moreover have "r \<noteq> []" using len(2) by auto
  ultimately have "ige_decrypt_loop dec iv1 iv2 (r @ w) = chunk @ ige_decrypt_loop dec r chunk w" for w
    using len(2) by (simp add: ige_decrypt_loop.simps [of dec iv1 iv2 "r @ w"] Let_def)
  then show ?case
    unfolding enc using Suc.IH [OF len(2,1,3)] Suc.prems len
    by (simp add: chunk_def)
qed

text \<open>Decryption is the encryption loop with the chaining blocks swapped, and a block cipher on a finite
  set of blocks is a permutation, so encryption undoes decryption as well.\<close>

lemma ige_decrypt_as_encrypt:
  "ige_decrypt_loop f iv1 iv2 data = ige_encrypt_loop f iv2 iv1 data"
proof (induction f iv1 iv2 data rule: ige_decrypt_loop.induct)
  case (1 dec iv1 iv2 data)
  then show ?case
    by (simp add: ige_decrypt_loop.simps [of dec iv1 iv2 data] ige_encrypt_loop.simps [of dec iv2 iv1 data] Let_def)
qed

lemma block_cipher_inverse:
  assumes "block_cipher_ok E D key" and "length b = 16"
  shows "E key (D key b) = b"
proof -
  let ?S = "{b :: bytes. length b = 16}"
  have ok: "length c = 16 \<Longrightarrow> length (E key c) = 16 \<and> D key (E key c) = c" for c
    using assms(1) by (simp add: block_cipher_ok_def)
  have "finite ?S"
    using finite_lists_length_eq [of "UNIV :: u8 set" 16] by simp
  moreover have "inj_on (E key) ?S"
    by (rule inj_on_inverseI [of _ "D key"]) (simp add: ok)
  moreover have "E key ` ?S \<subseteq> ?S" using ok by auto
  ultimately have "E key ` ?S = ?S" by (simp add: endo_inj_surj)
  with assms(2) obtain c where "length c = 16" and "b = E key c" by blast
  with ok show ?thesis by simp
qed

lemma IGE_encrypt_decrypt:
  assumes "block_cipher_ok E D key" and "GetAESBlock key = Inr ()" and "length iv = 32"
    and "length c mod 16 = 0"
  shows "\<exists>d. IGEDecrypt D c key iv = Inr d \<and> length d = length c \<and> IGEEncrypt E d key iv = Inr c"
proof -
  have ok: "length b = 16 \<Longrightarrow> length (D key b) = 16 \<and> E key (D key b) = b" for b
    using assms(1) block_cipher_inverse [OF assms(1)] by (simp add: block_cipher_ok_def)
  obtain n where n: "length c = 16 * n"
    using assms(4) by (metis mod_0_imp_dvd dvdE)
  have "length (take 16 (drop 16 iv)) = 16" "length (take 16 iv) = 16"
    using assms(3) by simp_all
  from ige_loop_inverse [OF ok this n] show ?thesis
    using assms(2,4) by (auto simp: IGEEncrypt_def IGEDecrypt_def ige_decrypt_as_encrypt)
qed

lemma IGE_decrypt_encrypt:
  assumes "block_cipher_ok E D key" and "GetAESBlock key = Inr ()" and "length iv = 32"
    and "length data mod 16 = 0"
  shows "\<exists>c. IGEEncrypt E data key iv = Inr c \<and> length c = length data \<and> IGEDecrypt D c key iv = Inr data"
proof -
  have ok: "length b = 16 \<Longrightarrow> length (E key b) = 16 \<and> D key (E key b) = b" for b
    using assms(1) by (simp add: block_cipher_ok_def)
  obtain n where n: "length data = 16 * n"
    using assms(4) by (metis mod_0_imp_dvd dvdE)
  have "length (take 16 iv) = 16" "length (take 16 (drop 16 iv)) = 16"
    using assms(3) by simp_all
  from ige_loop_inverse [OF ok this n] show ?thesis
    using assms(2,4) by (auto simp: IGEEncrypt_def IGEDecrypt_def)
qed

section \<open>CTR streams\<close>

lemma CTR_Process_length [simp]: "length (fst (CTR_Process enc bs c)) = length bs"
  by (induction bs arbitrary: c) (simp_all add: case_prod_beta Let_def)

lemma CTR_Process_append:
  "CTR_Process enc (xs @ ys) c =
     (let (o1, c1) = CTR_Process enc xs c; (o2, c2) = CTR_Process enc ys c1 in (o1 @ o2, c2))"
  by (induction xs arbitrary: c) (simp_all add: case_prod_beta Let_def)

text \<open>Decryption is the same function, started in the same state, and ends in the same state.\<close>

lemma CTR_Process_inverse:
  "CTR_Process enc (fst (CTR_Process enc bs c)) c = (bs, snd (CTR_Process enc bs c))"
  by (induction bs arbitrary: c) (simp_all add: case_prod_beta Let_def xor.assoc)

lemma ctr_crypt_loop_Process:
  "ctr_crypt_loop enc bs iv ks pos =
     fst (CTR_Process enc bs \<lparr>ctr_iv = iv, ctr_keystream = ks, ctr_pos = pos\<rparr>)"
  by (induction bs arbitrary: iv ks pos) (simp_all add: case_prod_beta Let_def ctr_step_def)

subsection \<open>The counter\<close>

primrec le_nat :: "bytes \<Rightarrow> nat" where
  "le_nat [] = 0"
| "le_nat (b # bs) = unat b + 256 * le_nat bs"

lemma le_nat_bound: "le_nat bs < 256 ^ length bs"
proof (induction bs)
  case (Cons b bs)
  have "unat b < 256" using unsigned_less [of b] by simp
  with Cons show ?case by simp
qed simp

lemma length_increment_rev [simp]: "length (increment_rev bs) = length bs"
  by (induction bs) simp_all

lemma unat_max8: "(b :: u8) + 1 = 0 \<Longrightarrow> unat b = 255"
proof -
  assume "b + 1 = 0"
  then have "b = - 1" by (simp add: eq_neg_iff_add_eq_0)
  then show ?thesis by (simp add: unsigned_minus_1_eq_mask mask_eq_exp_minus_1)
qed

lemma unat_inc8: "(b :: u8) + 1 \<noteq> 0 \<Longrightarrow> unat (b + 1) = unat b + 1"
proof -
  assume "b + 1 \<noteq> 0"
  then have "unat (b + 1) \<noteq> 0" by (simp add: unsigned_eq_0_iff)
  moreover have "unat (b + 1) = (unat b + 1) mod 256" by (simp add: unat_word_ariths)
  moreover have "unat b < 256" using unsigned_less [of b] by simp
  ultimately show ?thesis by (cases "unat b = 255") auto
qed

lemma le_nat_increment: "le_nat (increment_rev bs) = (le_nat bs + 1) mod 256 ^ length bs"
proof (induction bs)
  case (Cons b bs)
  show ?case
  proof (cases "b + 1 = 0")
    case True
    have "(unat b + 256 * le_nat bs + 1) mod (256 * 256 ^ length bs) =
        (256 * (le_nat bs + 1)) mod (256 * 256 ^ length bs)"
      using unat_max8 [OF True] by simp
    then show ?thesis
      using True Cons by (simp add: mult_mod_right)
  next
    case False
    then have "unat b + 1 + 256 * le_nat bs < 256 ^ length (b # bs)"
      using le_nat_bound [of "(b + 1) # bs"] unat_inc8 [of b] by simp
    then show ?thesis
      using False unat_inc8 [of b] by simp
  qed
qed simp

lemma length_incrementIV [simp]: "length (incrementIV iv) = length iv"
  by (simp add: incrementIV_def)

lemma incrementIV_iterate:
  "le_nat (rev ((incrementIV ^^ n) iv)) = (le_nat (rev iv) + n) mod 256 ^ length iv"
proof (induction n)
  case 0
  then show ?case using le_nat_bound [of "rev iv"] by simp
next
  case (Suc n)
  have len: "length ((incrementIV ^^ n) iv) = length iv" by (induction n) simp_all
  have "le_nat (rev ((incrementIV ^^ Suc n) iv)) = (le_nat (rev ((incrementIV ^^ n) iv)) + 1) mod 256 ^ length iv"
    using len by (simp add: incrementIV_def le_nat_increment)
  then show ?case
    unfolding Suc.IH by (simp add: mod_Suc_eq)
qed

text \<open>A stream processed in pieces, as the transport hands them over.\<close>

primrec ctr_pieces :: "(bytes \<Rightarrow> bytes) \<Rightarrow> bytes list \<Rightarrow> ctr_cipher \<Rightarrow> bytes list" where
  "ctr_pieces enc [] c = []"
| "ctr_pieces enc (p # ps) c =
     (let (out, c') = CTR_Process enc p c in out # ctr_pieces enc ps c')"

lemma ctr_pieces_concat: "concat (ctr_pieces enc ps c) = fst (CTR_Process enc (concat ps) c)"
  by (induction ps arbitrary: c) (simp_all add: CTR_Process_append case_prod_beta Let_def)

section \<open>Properties\<close>

text \<open>IGE decryption with the same key and 32-byte IV recovers every block-aligned
  plaintext, for any block cipher whose decryption inverts its encryption; the ciphertext has the
  plaintext's length, and every block-aligned byte string is the ciphertext of exactly what it decrypts to.\<close>

theorem ige_roundtrip:
  assumes "block_cipher_ok E D key" and "GetAESBlock key = Inr ()" and "length iv = 32"
    and "length data mod 16 = 0"
  shows "(\<exists>c. IGEEncrypt E data key iv = Inr c \<and> length c = length data \<and> IGEDecrypt D c key iv = Inr data) \<and>
         (\<exists>d. IGEDecrypt D data key iv = Inr d \<and> length d = length data \<and> IGEEncrypt E d key iv = Inr data)"
  using IGE_decrypt_encrypt [OF assms] IGE_encrypt_decrypt [OF assms] by blast

text \<open>A stand-in block cipher for the witnesses: reversing a block is its own inverse.\<close>

theorem ige_roundtrip_witness:
  "(\<exists>c. IGEEncrypt (\<lambda>_. rev) (replicate 32 7) (replicate 32 1) (replicate 32 5) = Inr c \<and>
        length c = length (replicate 32 (7 :: u8)) \<and>
        IGEDecrypt (\<lambda>_. rev) c (replicate 32 1) (replicate 32 5) = Inr (replicate 32 7)) \<and>
   (\<exists>d. IGEDecrypt (\<lambda>_. rev) (replicate 32 7) (replicate 32 1) (replicate 32 5) = Inr d \<and>
        length d = length (replicate 32 (7 :: u8)) \<and>
        IGEEncrypt (\<lambda>_. rev) d (replicate 32 1) (replicate 32 5) = Inr (replicate 32 7))"
  by (rule ige_roundtrip) (simp_all add: block_cipher_ok_def GetAESBlock_def)

text \<open>Property C40 (equivalence): the incremental CTR cipher does not depend on how the stream is cut.
  Bytes encrypted in any pieces and decrypted in any other pieces by a cipher created with the same
  key and IV come back unchanged, and the encrypted stream is what the one-shot ctrCrypt produces.\<close>

theorem ctr_stream_roundtrip:
  assumes "NewCTRCipher E key iv = Inr c" and "concat cs = concat (ctr_pieces (E key) ps c)"
  shows "concat (ctr_pieces (E key) cs c) = concat ps \<and>
         ctrCrypt E (concat ps) key iv = Inr (concat cs)"
proof -
  have c: "c = \<lparr>ctr_iv = copy16 iv, ctr_keystream = E key (copy16 iv), ctr_pos = 0\<rparr>"
    and key: "GetAESBlock key = Inr ()"
    using assms(1) by (auto simp: NewCTRCipher_def split: sum.splits)
  have "ctrCrypt E (concat ps) key iv = Inr (fst (CTR_Process (E key) (concat ps) c))"
    using key by (cases "concat ps") (simp_all add: ctrCrypt_def c ctr_crypt_loop_Process del: concat_eq_Nil_conv)
  then show ?thesis
    using assms(2) by (simp add: ctr_pieces_concat CTR_Process_inverse)
qed

theorem ctr_stream_roundtrip_witness:
  "(let c = \<lparr>ctr_iv = replicate 16 255, ctr_keystream = replicate 16 255, ctr_pos = 0\<rparr>;
        ps = [[1, 2, 3], replicate 20 9]
    in NewCTRCipher (\<lambda>_. rev) (replicate 32 1) (replicate 16 255) = Inr c \<and>
       concat (ctr_pieces rev [concat (ctr_pieces rev ps c)] c) = concat ps)"
proof -
  let ?c = "\<lparr>ctr_iv = replicate 16 255, ctr_keystream = replicate 16 255, ctr_pos = 0\<rparr>"
  let ?ps = "[[1, 2, 3], replicate 20 9]"
  have c: "NewCTRCipher (\<lambda>_. rev) (replicate 32 1) (replicate 16 255) = Inr ?c"
    by (simp add: NewCTRCipher_def GetAESBlock_def copy16_def)
  show ?thesis
    using ctr_stream_roundtrip [OF c, of "[concat (ctr_pieces rev ?ps ?c)]" ?ps] c
    by (simp only: Let_def concat.simps append_Nil2 simp_thms)
qed

end
