(* ===== verification/Transport_Framing.thy ===== *)
theory Transport_Framing
  imports AES_Modes
begin

text \<open>
  The TCP framings of \<^verbatim>\<open>src/internal/transport\<close>: abridged, intermediate (with and without header),
  padded intermediate, full with CRC-32, and the obfuscated wrapper with its handshake; and the
  classification of 4-byte payloads of \<^verbatim>\<open>errors.go\<close>. A Send is the bytes it writes and the sender's
  new state; a Recv consumes the bytes the peer sent. \<open>framing\<close> is the contract they share.
\<close>

section \<open>Connections\<close>

datatype transport_error =
    ErrPayloadTooLarge | ErrCRC32Mismatch | ErrUnsupportedTransport | ErrPacketTooShort u32
  | ErrEOF | ErrUnexpectedEOF | ErrCipher aes_error | ErrNoConn

definition MaxPayloadLen :: nat where
  "MaxPayloadLen = 16 * 1024 * 1024"

text \<open>\<^verbatim>\<open>io.ReadFull\<close> of \<open>n\<close> bytes from a stream that ends after \<open>s\<close>.\<close>

definition conn_ReadFull :: "nat \<Rightarrow> bytes \<Rightarrow> (transport_error + bytes) \<times> bytes" where
  "conn_ReadFull n s =
     (if n = 0 then (Inr [], s)
      else if s = [] then (Inl ErrEOF, [])
      else if length s < n then (Inl ErrUnexpectedEOF, [])
      else (Inr (take n s), drop n s))"

lemma conn_ReadFull_append [codec_simps]:
  "length p = n \<Longrightarrow> conn_ReadFull n (p @ s) = (Inr p, s)"
  by (auto simp: conn_ReadFull_def)

text \<open>Reading in sequence: an error ends the Recv.\<close>

definition conn_bind ::
  "(transport_error + 'a) \<times> bytes \<Rightarrow> ('a \<Rightarrow> bytes \<Rightarrow> (transport_error + 'b) \<times> bytes) \<Rightarrow>
   (transport_error + 'b) \<times> bytes" where
  "conn_bind r k = (case r of (Inl e, s) \<Rightarrow> (Inl e, s) | (Inr a, s) \<Rightarrow> k a s)"

lemma conn_bind_simps [simp]:
  "conn_bind (Inr a, s) k = k a s" "conn_bind (Inl e, s) k = (Inl e, s)"
  by (simp_all add: conn_bind_def)

section \<open>The contract of a framing\<close>

text \<open>The packets of \<open>ps\<close> sent one after the other, and \<open>n\<close> receives in a row.\<close>

primrec send_all :: "('s \<Rightarrow> bytes \<Rightarrow> bytes \<times> 's) \<Rightarrow> 's \<Rightarrow> bytes list \<Rightarrow> bytes \<times> 's" where
  "send_all send s [] = ([], s)"
| "send_all send s (p # ps) =
     (let (w, s1) = send s p; (ws, s2) = send_all send s1 ps in (w @ ws, s2))"

primrec recv_all ::
  "('r \<Rightarrow> bytes \<Rightarrow> (transport_error + bytes) \<times> 'r \<times> bytes) \<Rightarrow> nat \<Rightarrow> 'r \<Rightarrow> bytes \<Rightarrow>
   (transport_error + bytes) list \<times> 'r \<times> bytes" where
  "recv_all recv 0 r s = ([], r, s)"
| "recv_all recv (Suc n) r s =
     (let (p, r1, s1) = recv r s; (ps, r2, s2) = recv_all recv n r1 s1 in (p # ps, r2, s2))"

locale framing =
  fixes send :: "'s \<Rightarrow> bytes \<Rightarrow> bytes \<times> 's"
    and recv :: "'r \<Rightarrow> bytes \<Rightarrow> (transport_error + bytes) \<times> 'r \<times> bytes"
    and ok :: "bytes \<Rightarrow> bool"
    and sync :: "'s \<Rightarrow> 'r \<Rightarrow> bool"
  assumes recv_send:
    "sync s r \<Longrightarrow> ok p \<Longrightarrow>
       \<exists>r'. recv r (fst (send s p) @ rest) = (Inr p, r', rest) \<and> sync (snd (send s p)) r'"
begin

lemma recv_all_send_all:
  "sync s r \<Longrightarrow> \<forall>p \<in> set ps. ok p \<Longrightarrow>
     \<exists>r'. recv_all recv (length ps) r (fst (send_all send s ps) @ rest) = (map Inr ps, r', rest) \<and>
          sync (snd (send_all send s ps)) r'"
proof (induction ps arbitrary: s r)
  case (Cons p ps)
  obtain w s1 where w: "send s p = (w, s1)" by fastforce
  obtain ws s2 where ws: "send_all send s1 ps = (ws, s2)" by fastforce
  obtain r1 where r1: "recv r (w @ ws @ rest) = (Inr p, r1, ws @ rest)" "sync s1 r1"
    using recv_send [OF Cons.prems(1), of p "ws @ rest"] Cons.prems(2) w by auto
  then show ?case
    using Cons.IH [OF r1(2)] Cons.prems(2) w ws by (auto simp: case_prod_beta Let_def)
qed simp

text \<open>The packets do not run into each other: what follows them on the wire is untouched.\<close>

lemma recv_all_prefix:
  "sync s r \<Longrightarrow> \<forall>p \<in> set ps. ok p \<Longrightarrow>
     fst (recv_all recv (length ps) r (fst (send_all send s ps) @ rest)) = map Inr ps"
  using recv_all_send_all [of s r ps rest] by auto

end

section \<open>Abridged\<close>

definition abridged_header :: "nat \<Rightarrow> bytes" where
  "abridged_header len =
     (let n = len div 4
      in if n \<le> 126 then [of_nat n] else [0x7f, of_nat n, of_nat (n div 2 ^ 8), of_nat (n div 2 ^ 16)])"

definition Abridged_Connect :: bytes where
  "Abridged_Connect = [0xef]"

definition Abridged_Send :: "unit \<Rightarrow> bytes \<Rightarrow> bytes \<times> unit" where
  "Abridged_Send _ data = (abridged_header (length data) @ data, ())"

text \<open>\<^verbatim>\<open>int(b[0]) | int(b[1])<<8 | int(b[2])<<16\<close>: the three bytes do not overlap.\<close>

definition abridged_len3 :: "bytes \<Rightarrow> nat" where
  "abridged_len3 b = unat (b ! 0) + unat (b ! 1) * 2 ^ 8 + unat (b ! 2) * 2 ^ 16"

definition Abridged_Recv :: "unit \<Rightarrow> bytes \<Rightarrow> (transport_error + bytes) \<times> unit \<times> bytes" where
  "Abridged_Recv _ s =
     (let (res, s') =
        conn_bind (conn_ReadFull 1 s) (\<lambda>lengthByte s1.
        conn_bind
          (if lengthByte ! 0 = 0x7f
           then conn_bind (conn_ReadFull 3 s1) (\<lambda>b s2.
             (Inr (abridged_len3 b), s2))
           else (Inr (unat (lengthByte ! 0)), s1)) (\<lambda>n s3.
        let len = n * 4
        in if len > MaxPayloadLen then (Inl ErrPayloadTooLarge, s3) else conn_ReadFull len s3))
      in (res, (), s'))"

text \<open>The payloads MTProto sends: whole words, within the limit.\<close>

definition word_aligned :: "bytes \<Rightarrow> bool" where
  "word_aligned p \<longleftrightarrow> length p mod 4 = 0 \<and> length p \<le> MaxPayloadLen"

lemma unat_of_nat_byte [simp]: "unat (of_nat n :: u8) = n mod 256"
  by (simp add: unat_of_nat take_bit_eq_mod)

lemma abridged_len3_header:
  assumes "n < 2 ^ 24"
  shows "abridged_len3 [of_nat n, of_nat (n div 2 ^ 8), of_nat (n div 2 ^ 16)] = n"
proof -
  have "n div 65536 mod 256 = n div 256 div 256"
    using assms by (simp add: div_mult2_eq)
  moreover have "n mod 256 + n div 256 mod 256 * 256 + n div 256 div 256 * 65536 = n"
    using div_mult_mod_eq [of "n div 256" 256] div_mult_mod_eq [of n 256] by linarith
  ultimately show ?thesis
    by (simp add: abridged_len3_def)
qed

lemma abridged_small:
  "n \<le> 126 \<Longrightarrow> (of_nat n :: u8) \<noteq> 0x7f"
proof
  assume "n \<le> 126" and "(of_nat n :: u8) = 0x7f"
  then have "unat (of_nat n :: u8) = unat (0x7f :: u8)" by simp
  then have "n mod 256 = 127" by simp
  with \<open>n \<le> 126\<close> show False by simp
qed

lemma Abridged_recv_send:
  assumes "word_aligned p"
  shows "Abridged_Recv () (fst (Abridged_Send () p) @ rest) = (Inr p, (), rest)"
proof -
  define n where "n = length p div 4"
  have len: "n * 4 = length p" "length p \<le> MaxPayloadLen"
    using assms by (auto simp: word_aligned_def n_def)
  then have n24: "n < 2 ^ 24" by (simp add: MaxPayloadLen_def)
  show ?thesis
  proof (cases "n \<le> 126")
    case True
    then have "conn_ReadFull 1 (of_nat n # p @ rest) = (Inr [of_nat n], p @ rest)"
      by (simp add: conn_ReadFull_def)
    then show ?thesis
      using True len abridged_small [OF True]
      by (simp add: Abridged_Recv_def Abridged_Send_def abridged_header_def codec_simps flip: n_def)
  next
    case False
    let ?b = "[of_nat n, of_nat (n div 2 ^ 8), of_nat (n div 2 ^ 16)] :: bytes"
    have "conn_ReadFull 1 ((0x7f :: u8) # ?b @ p @ rest) = (Inr [0x7f], ?b @ p @ rest)"
      by (simp add: conn_ReadFull_def)
    moreover have "conn_ReadFull 3 (?b @ p @ rest) = (Inr ?b, p @ rest)"
      by (rule conn_ReadFull_append) simp
    ultimately show ?thesis
      using False len abridged_len3_header [OF n24]
      by (simp add: Abridged_Recv_def Abridged_Send_def abridged_header_def codec_simps Let_def flip: n_def)
  qed
qed

interpretation abridged: framing Abridged_Send Abridged_Recv word_aligned "\<lambda>_ _. True"
  by unfold_locales (simp add: Abridged_recv_send [simplified])

section \<open>Intermediate\<close>

definition Intermediate_Connect :: bytes where
  "Intermediate_Connect = [0xee, 0xee, 0xee, 0xee]"

definition send4ByteLengthPrefix :: "bytes \<Rightarrow> bytes" where
  "send4ByteLengthPrefix data = le_bytes 4 (of_nat (length data) :: u32) @ data"

definition Intermediate_Send :: "unit \<Rightarrow> bytes \<Rightarrow> bytes \<times> unit" where
  "Intermediate_Send _ data = (send4ByteLengthPrefix data, ())"

definition Intermediate_Recv :: "unit \<Rightarrow> bytes \<Rightarrow> (transport_error + bytes) \<times> unit \<times> bytes" where
  "Intermediate_Recv _ s =
     (let (res, s') =
        conn_bind (conn_ReadFull 4 s) (\<lambda>lenBytes s1.
        let rawLen = (le_word lenBytes :: u32)
        in if rawLen > of_nat MaxPayloadLen then (Inl ErrPayloadTooLarge, s1)
           else if unat rawLen = 0 then (Inr [], s1)
           else conn_ReadFull (unat rawLen) s1)
      in (res, (), s'))"

definition within_limit :: "bytes \<Rightarrow> bool" where
  "within_limit p \<longleftrightarrow> length p \<le> MaxPayloadLen"

lemma unat_length32:
  "n \<le> MaxPayloadLen + 15 \<Longrightarrow> unat (of_nat n :: u32) = n"
  by (simp add: unat_of_nat take_bit_eq_mod MaxPayloadLen_def)

lemma conn_ReadFull_length32 [simp]:
  "conn_ReadFull 4 (le_bytes 4 (w :: u32) @ s) = (Inr (le_bytes 4 w), s)"
  by (rule conn_ReadFull_append) simp

lemma length32_limit:
  "n \<le> MaxPayloadLen + 15 \<Longrightarrow> (of_nat n > (of_nat MaxPayloadLen :: u32)) = (n > MaxPayloadLen)"
  using unat_length32 [of n] unat_length32 [of MaxPayloadLen] by (simp add: word_less_nat_alt)

lemma Intermediate_recv_send:
  assumes "within_limit p"
  shows "Intermediate_Recv () (fst (Intermediate_Send () p) @ rest) = (Inr p, (), rest)"
  using assms length32_limit [of "length p"] unat_length32 [of "length p"]
  by (auto simp: within_limit_def Intermediate_Recv_def Intermediate_Send_def send4ByteLengthPrefix_def
      Let_def codec_simps)

interpretation intermediate: framing Intermediate_Send Intermediate_Recv within_limit "\<lambda>_ _. True"
  by unfold_locales (simp add: Intermediate_recv_send [simplified])

subsection \<open>Without header, over a buffered connection\<close>

text \<open>The connection delivers the stream in chunks, one per Read; \<open>buf\<close> is what was read ahead.
  The first argument of \<open>nh_fill\<close> is the length the loop waits for.\<close>

primrec nh_fill :: "nat \<Rightarrow> bytes list \<Rightarrow> bytes \<Rightarrow> bool \<times> bytes \<times> bytes list" where
  "nh_fill n [] buf = (n \<le> length buf, buf, [])"
| "nh_fill n (c # cs) buf = (if length buf < n then nh_fill n cs (buf @ c) else (True, buf, c # cs))"

definition NoHeader_Send :: "bytes \<Rightarrow> bytes" where
  "NoHeader_Send data = send4ByteLengthPrefix data"

definition NoHeader_Recv :: "bytes \<times> bytes list \<Rightarrow> (transport_error + bytes) \<times> bytes \<times> bytes list" where
  "NoHeader_Recv st =
     (let (ok1, buf, cs) = nh_fill 4 (snd st) (fst st)
      in if \<not> ok1 then (Inl ErrEOF, buf, cs)
         else let len = (le_word (take 4 buf) :: u32)
         in if len > of_nat MaxPayloadLen then (Inl ErrPayloadTooLarge, buf, cs)
         else let needed = 4 + unat len;
                  (ok2, buf2, cs2) = nh_fill needed cs buf
         in if \<not> ok2 then (Inl ErrEOF, buf2, cs2)
            else (Inr (go_slice buf2 4 needed), drop needed buf2, cs2))"

lemma nh_fill_stream:
  "nh_fill n cs buf = (b, buf', cs') \<Longrightarrow> buf' @ concat cs' = buf @ concat cs \<and> b = (n \<le> length (buf @ concat cs)) \<and>
     (b \<longrightarrow> n \<le> length buf')"
proof (induction cs arbitrary: buf)
  case (Cons c cs)
  then show ?case using Cons.IH [of "buf @ c"] by (auto split: if_splits)
qed auto

lemma take_append_prefix: "n \<le> length a \<Longrightarrow> a @ b = c \<Longrightarrow> take n a = take n c"
  by auto

lemma NoHeader_recv_send:
  assumes "within_limit p" and "buf @ concat cs = NoHeader_Send p @ rest"
  shows "\<exists>buf' cs'. NoHeader_Recv (buf, cs) = (Inr p, buf', cs') \<and> buf' @ concat cs' = rest"
proof -
  obtain b1 buf1 cs1 where f1: "nh_fill 4 cs buf = (b1, buf1, cs1)" by (metis prod_cases3)
  have s1: "buf1 @ concat cs1 = NoHeader_Send p @ rest" "b1" "4 \<le> length buf1"
    using nh_fill_stream [OF f1] assms(2) by (auto simp: NoHeader_Send_def send4ByteLengthPrefix_def)
  have "take 4 buf1 = le_bytes 4 (of_nat (length p) :: u32)"
    using take_append_prefix [OF s1(3,1)] by (simp add: NoHeader_Send_def send4ByteLengthPrefix_def)
  then have len: "(le_word (take 4 buf1) :: u32) = of_nat (length p)" by simp
  obtain b2 buf2 cs2 where f2: "nh_fill (4 + length p) cs1 buf1 = (b2, buf2, cs2)" by (metis prod_cases3)
  have s2: "buf2 @ concat cs2 = NoHeader_Send p @ rest" "b2" "4 + length p \<le> length buf2"
    using nh_fill_stream [OF f2] s1(1) by (auto simp: NoHeader_Send_def send4ByteLengthPrefix_def)
  have "take (4 + length p) buf2 = NoHeader_Send p"
    using take_append_prefix [OF s2(3,1)] by (simp add: NoHeader_Send_def send4ByteLengthPrefix_def)
  then have buf2: "buf2 = NoHeader_Send p @ drop (4 + length p) buf2"
    by (metis append_take_drop_id)
  then have "go_slice buf2 4 (4 + length p) = p"
    by (metis NoHeader_Send_def append_assoc go_slice_append_right length_le_bytes send4ByteLengthPrefix_def)
  moreover have "drop (4 + length p) buf2 @ concat cs2 = rest"
    using s2(1) buf2 by (metis append_assoc same_append_eq)
  moreover have "\<not> of_nat (length p) > (of_nat MaxPayloadLen :: u32)" "unat (of_nat (length p) :: u32) = length p"
    using assms(1) length32_limit [of "length p"] unat_length32 [of "length p"] by (simp_all add: within_limit_def)
  ultimately show ?thesis
    using f1 f2 s1(2) s2(2) len by (simp add: NoHeader_Recv_def Let_def)
qed

section \<open>Padded intermediate\<close>

text \<open>The random source is a tape of bytes and the position on it.\<close>

type_synonym rand_tape = "(nat \<Rightarrow> u8) \<times> nat"

definition rand_Read :: "nat \<Rightarrow> rand_tape \<Rightarrow> bytes \<times> rand_tape" where
  "rand_Read n t = (map (\<lambda>i. fst t (snd t + i)) [0..<n], (fst t, snd t + n))"

lemma length_rand_Read [simp]: "length (fst (rand_Read n t)) = n"
  by (simp add: rand_Read_def)

definition Padded_Connect :: bytes where
  "Padded_Connect = [0xdd, 0xdd, 0xdd, 0xdd]"

definition Padded_Send :: "rand_tape \<Rightarrow> bytes \<Rightarrow> bytes \<times> rand_tape" where
  "Padded_Send t data =
     (let (n, t1) = rand_Read 1 t;
          padLen = unat (n ! 0) mod 16;
          (padding, t2) = (if padLen > 0 then rand_Read padLen t1 else ([], t1));
          packetLen = length data + padLen
      in (le_bytes 4 (of_nat packetLen :: u32) @ data @ padding, t2))"

definition trimPaddedIntermediatePayload :: "bytes \<Rightarrow> bytes" where
  "trimPaddedIntermediatePayload data =
     (let end = 20 + unat (le_word (go_slice data 16 20) :: u32)
      in if length data \<ge> 20 \<and> take 8 data = replicate 8 0 \<and> end \<le> length data \<and> length data - end \<le> 15
         then take end data
         else if length data \<ge> 24
         then let paddingLen = (length data - 24) mod 16
              in if paddingLen \<le> 15 then take (length data - paddingLen) data else data
         else data)"

definition Padded_Recv :: "unit \<Rightarrow> bytes \<Rightarrow> (transport_error + bytes) \<times> unit \<times> bytes" where
  "Padded_Recv _ s =
     (let (res, s') =
        conn_bind (conn_ReadFull 4 s) (\<lambda>lenBytes s1.
        let len = (le_word lenBytes :: u32)
        in if len > of_nat (MaxPayloadLen + 15) then (Inl ErrPayloadTooLarge, s1)
           else if len = 0 then (Inr [], s1)
           else conn_bind (conn_ReadFull (unat len) s1)
             (\<lambda>data s2. (Inr (trimPaddedIntermediatePayload data), s2)))
      in (res, (), s'))"

text \<open>The two kinds of MTProto packet: unencrypted (key id 0, length field exact) and encrypted (key id
  not 0, 24 bytes and whole cipher blocks).\<close>

definition mtproto_packet :: "bytes \<Rightarrow> bool" where
  "mtproto_packet p \<longleftrightarrow>
     length p \<le> MaxPayloadLen \<and>
     (if take 8 p = replicate 8 0
      then length p \<ge> 20 \<and> unat (le_word (go_slice p 16 20) :: u32) = length p - 20
      else length p \<ge> 24 \<and> (length p - 24) mod 16 = 0)"

lemma trim_padded:
  assumes "mtproto_packet p" and "length pad \<le> 15"
  shows "trimPaddedIntermediatePayload (p @ pad) = p"
proof (cases "take 8 p = replicate 8 0")
  case True
  then have len: "length p \<ge> 20" "unat (le_word (go_slice p 16 20) :: u32) = length p - 20"
    using assms(1) by (auto simp: mtproto_packet_def)
  then have "go_slice (p @ pad) 16 20 = go_slice p 16 20" "take 8 (p @ pad) = replicate 8 0"
    using True by (simp_all add: go_slice_def)
  then show ?thesis
    using len assms(2) by (simp add: trimPaddedIntermediatePayload_def)
next
  case False
  then have len: "length p \<ge> 24" "(length p - 24) mod 16 = 0"
    using assms(1) by (auto simp: mtproto_packet_def)
  have "(length p + length pad - 24) mod 16 = (length p - 24 + length pad) mod 16"
    using len(1) by simp
  also have "\<dots> = ((length p - 24) mod 16 + length pad) mod 16"
    by (simp add: mod_add_left_eq)
  also have "\<dots> = length pad"
    using len(2) assms(2) by simp
  finally show ?thesis
    using len(1) False assms(2) by (simp add: trimPaddedIntermediatePayload_def)
qed

lemma Padded_Send_shape:
  "\<exists>pad t'. length pad \<le> 15 \<and>
     Padded_Send t p = (le_bytes 4 (of_nat (length p + length pad) :: u32) @ p @ pad, t')"
proof -
  define padLen where "padLen = unat (fst (rand_Read 1 t) ! 0) mod 16"
  have "padLen \<le> 15" by (simp add: padLen_def)
  then show ?thesis
    by (cases "padLen > 0") (force simp: Padded_Send_def case_prod_beta Let_def simp flip: padLen_def)+
qed

lemma Padded_recv_send:
  assumes "mtproto_packet p"
  shows "Padded_Recv () (fst (Padded_Send t p) @ rest) = (Inr p, (), rest)"
proof -
  obtain pad t' where pad: "length pad \<le> 15"
    and send: "Padded_Send t p = (le_bytes 4 (of_nat (length p + length pad) :: u32) @ p @ pad, t')"
    using Padded_Send_shape by blast
  let ?n = "length p + length pad"
  have "?n \<le> MaxPayloadLen + 15" and pos: "?n > 0"
    using assms pad by (auto simp: mtproto_packet_def split: if_splits)
  then have n: "unat (of_nat ?n :: u32) = ?n" "\<not> of_nat ?n > (of_nat (MaxPayloadLen + 15) :: u32)"
    using unat_length32 [of ?n] unat_length32 [of "MaxPayloadLen + 15"]
    by (simp_all add: word_less_nat_alt del: of_nat_add)
  then have "(of_nat ?n :: u32) \<noteq> 0"
    using pos by (metis less_irrefl unsigned_0)
  moreover have "conn_ReadFull ?n ((p @ pad) @ rest) = (Inr (p @ pad), rest)"
    by (rule conn_ReadFull_append) simp
  ultimately show ?thesis
    using n trim_padded [OF assms pad] unfolding Padded_Recv_def send
    by (simp add: Let_def del: of_nat_add)
qed

interpretation padded: framing Padded_Send Padded_Recv mtproto_packet "\<lambda>_ _. True"
  by unfold_locales (simp add: Padded_recv_send [simplified])

section \<open>Full, with sequence numbers and CRC-32\<close>

text \<open>\<^verbatim>\<open>hash/crc32\<close> with the IEEE polynomial, bit by bit: eight steps per byte, complemented at both ends.\<close>

definition crc_bit :: "u32 \<Rightarrow> u32" where
  "crc_bit c = (if bit c 0 then drop_bit 1 c XOR 0xEDB88320 else drop_bit 1 c)"

definition crc_byte :: "u8 \<Rightarrow> u32 \<Rightarrow> u32" where
  "crc_byte b c = (crc_bit ^^ 8) (c XOR ucast b)"

definition crc32_Update :: "u32 \<Rightarrow> bytes \<Rightarrow> u32" where
  "crc32_Update crc p = NOT (fold crc_byte p (NOT crc))"

definition crc32_ChecksumIEEE :: "bytes \<Rightarrow> u32" where
  "crc32_ChecksumIEEE p = crc32_Update 0 p"

lemma crc32_Update_append: "crc32_Update (crc32_Update c p) q = crc32_Update c (p @ q)"
  by (simp add: crc32_Update_def)

text \<open>The state is the sequence counter; Connect resets it.\<close>

definition Full_Connect :: u32 where
  "Full_Connect = 0"

definition Full_Send :: "u32 \<Rightarrow> bytes \<Rightarrow> bytes \<times> u32" where
  "Full_Send seqNo data =
     (let packet = le_bytes 4 (of_nat (length data + 12) :: u32) @ le_bytes 4 seqNo @ data
      in (packet @ le_bytes 4 (crc32_ChecksumIEEE packet), seqNo + 1))"

definition Full_Recv :: "unit \<Rightarrow> bytes \<Rightarrow> (transport_error + bytes) \<times> unit \<times> bytes" where
  "Full_Recv _ s =
     (let (res, s') =
        conn_bind (conn_ReadFull 4 s) (\<lambda>lenBytes s1.
        let packetLen = (le_word lenBytes :: u32)
        in if packetLen < 12 then (Inl (ErrPacketTooShort packetLen), s1)
           else if packetLen - 4 > of_nat MaxPayloadLen then (Inl ErrPayloadTooLarge, s1)
           else conn_bind (conn_ReadFull (unat (packetLen - 4)) s1) (\<lambda>rest s2.
             let n = length rest - 4;
                 computed = crc32_Update (crc32_Update 0 lenBytes) (take n rest);
                 checksum = (le_word (drop n rest) :: u32)
             in if checksum \<noteq> computed then (Inl ErrCRC32Mismatch, s2)
                else (Inr (go_slice rest 4 n), s2)))
      in (res, (), s'))"

definition full_payload :: "bytes \<Rightarrow> bool" where
  "full_payload p \<longleftrightarrow> length p + 8 \<le> MaxPayloadLen"

lemma Full_recv_send:
  assumes "full_payload p"
  shows "Full_Recv () (fst (Full_Send seqNo p) @ rest) = (Inr p, (), rest)"
proof -
  let ?n = "length p + 12"
  let ?hd = "le_bytes 4 (of_nat ?n :: u32)"
  define body where "body = le_bytes 4 seqNo @ p"
  define crc where "crc = crc32_ChecksumIEEE (?hd @ body)"
  have n: "unat (of_nat ?n :: u32) = ?n"
    using assms unat_length32 [of ?n] by (simp add: full_payload_def del: of_nat_add)
  have "of_nat ?n - (4 :: u32) = of_nat (length p + 8)" by simp
  moreover have n4: "unat (of_nat (length p + 8) :: u32) = length p + 8"
    using assms unat_length32 [of "length p + 8"] by (simp add: full_payload_def del: of_nat_add)
  moreover have "\<not> (of_nat ?n :: u32) < 12" "\<not> of_nat (length p + 8) > (of_nat MaxPayloadLen :: u32)"
    using n n4 assms unat_length32 [of MaxPayloadLen]
    by (simp_all add: word_less_nat_alt full_payload_def del: of_nat_add)
  moreover have "conn_ReadFull (length p + 8) ((body @ le_bytes 4 crc) @ rest) = (Inr (body @ le_bytes 4 crc), rest)"
    by (rule conn_ReadFull_append) (simp add: body_def)
  moreover have "crc32_Update (crc32_Update 0 ?hd) body = crc"
    by (simp add: crc_def crc32_ChecksumIEEE_def crc32_Update_append)
  moreover have "go_slice (body @ le_bytes 4 crc) 4 (length body) = p"
    by (simp add: go_slice_def body_def)
  moreover have wire: "fst (Full_Send seqNo p) @ rest = ?hd @ (body @ le_bytes 4 crc) @ rest"
    by (simp add: Full_Send_def Let_def body_def crc_def)
  ultimately show ?thesis
    unfolding Full_Recv_def wire conn_ReadFull_length32
    by (simp add: Let_def del: of_nat_add append_assoc)
qed

interpretation full: framing Full_Send Full_Recv full_payload "\<lambda>_ _. True"
  by unfold_locales (simp add: Full_recv_send [simplified])

section \<open>The obfuscated wrapper\<close>

definition forbiddenFirstInts :: "u32 list" where
  "forbiddenFirstInts =
     [0xdddddddd, 0xeeeeeeee, 0x44414548, 0x54534f50, 0x20544547, 0x4954504f, 0x02010316]"

definition isForbiddenNonce :: "bytes \<Rightarrow> bool" where
  "isForbiddenNonce nonce \<longleftrightarrow>
     nonce ! 0 = 0xef \<or>
     (le_word (take 4 nonce) :: u32) \<in> set forbiddenFirstInts \<or>
     (le_word (go_slice nonce 4 8) :: u32) = 0"

text \<open>The draw loop: \<open>k\<close> bounds the number of draws; \<open>None\<close> means every one of them was forbidden.\<close>

primrec draw_nonce :: "nat \<Rightarrow> rand_tape \<Rightarrow> (bytes \<times> rand_tape) option" where
  "draw_nonce 0 t = None"
| "draw_nonce (Suc k) t =
     (let (nonce, t1) = rand_Read 64 t
      in if \<not> isForbiddenNonce nonce then Some (nonce, t1) else draw_nonce k t1)"

datatype inner_transport = InnerIntermediate | InnerAbridged | InnerOther

text \<open>Keys and IVs of the two directions as the initiator cuts them from the nonce.\<close>

definition nonce_reversed :: "bytes \<Rightarrow> bytes" where
  "nonce_reversed nonce = map (\<lambda>i. nonce ! (55 - i)) [0..<48]"

record obf_ciphers =
  obf_encKey :: bytes
  obf_enc :: ctr_cipher
  obf_decKey :: bytes
  obf_dec :: ctr_cipher

definition obf_setup ::
  "(bytes \<Rightarrow> bytes \<Rightarrow> bytes) \<Rightarrow> bytes \<Rightarrow> bytes \<Rightarrow> bytes \<Rightarrow> bytes \<Rightarrow> transport_error + obf_ciphers" where
  "obf_setup E encKey encIV decKey decIV =
     (case NewCTRCipher E encKey encIV of
        Inl e \<Rightarrow> Inl (ErrCipher e)
      | Inr enc \<Rightarrow>
          (case NewCTRCipher E decKey decIV of
             Inl e \<Rightarrow> Inl (ErrCipher e)
           | Inr dec \<Rightarrow>
               Inr \<lparr>obf_encKey = encKey, obf_enc = enc, obf_decKey = decKey, obf_dec = dec\<rparr>))"

text \<open>Connect with the 64 bytes it drew or was given: the bytes it writes and its ciphers.\<close>

definition Obf_Connect ::
  "(bytes \<Rightarrow> bytes \<Rightarrow> bytes) \<Rightarrow> u8 \<Rightarrow> bytes \<Rightarrow> transport_error + (bytes \<times> obf_ciphers)" where
  "Obf_Connect E marker nonce0 =
     (let nonce = nonce0[56 := marker, 57 := marker, 58 := marker, 59 := marker];
          reversed = nonce_reversed nonce
      in case obf_setup E (go_slice nonce 8 40) (go_slice nonce 40 56) (take 32 reversed) (drop 32 reversed) of
           Inl e \<Rightarrow> Inl e
         | Inr c \<Rightarrow>
             let (encrypted, enc') = CTR_Process (E (obf_encKey c)) nonce (obf_enc c)
             in Inr (take 56 nonce @ drop 56 encrypted, c\<lparr>obf_enc := enc'\<rparr>))"

definition connectReverse ::
  "(bytes \<Rightarrow> bytes \<Rightarrow> bytes) \<Rightarrow> bytes \<Rightarrow> transport_error + obf_ciphers" where
  "connectReverse E nonce =
     (let reversed = nonce_reversed nonce
      in case obf_setup E (take 32 reversed) (drop 32 reversed) (go_slice nonce 8 40) (go_slice nonce 40 56) of
           Inl e \<Rightarrow> Inl e
         | Inr c \<Rightarrow> Inr (c\<lparr>obf_dec := snd (CTR_Process (E (obf_decKey c)) (replicate 64 0) (obf_dec c))\<rparr>))"

text \<open>The frame header of the inner transport, as Send writes it; \<open>InnerOther\<close> is refused.\<close>

definition obf_header :: "inner_transport \<Rightarrow> nat \<Rightarrow> bytes" where
  "obf_header inner len =
     (case inner of
        InnerIntermediate \<Rightarrow> le_bytes 4 (of_nat len :: u32)
      | InnerAbridged \<Rightarrow> abridged_header len
      | InnerOther \<Rightarrow> [])"

definition sendEncrypted :: "(bytes \<Rightarrow> bytes) \<Rightarrow> bytes \<Rightarrow> bytes \<Rightarrow> ctr_cipher \<Rightarrow> bytes \<times> ctr_cipher" where
  "sendEncrypted enc header data c =
     (let (encHeader, c1) = CTR_Process enc header c;
          (encData, c2) = CTR_Process enc data c1
      in (encHeader @ encData, c2))"

definition Obf_Send ::
  "inner_transport \<Rightarrow> (bytes \<Rightarrow> bytes) \<Rightarrow> ctr_cipher \<Rightarrow> bytes \<Rightarrow> (transport_error + bytes) \<times> ctr_cipher" where
  "Obf_Send inner enc c data =
     (if inner = InnerOther then (Inl ErrUnsupportedTransport, c)
      else let (w, c') = sendEncrypted enc (obf_header inner (length data)) data c in (Inr w, c'))"

text \<open>ReadFull, then decrypt what was read.\<close>

definition obf_read ::
  "(bytes \<Rightarrow> bytes) \<Rightarrow> nat \<Rightarrow> ctr_cipher \<Rightarrow> bytes \<Rightarrow> (transport_error + bytes) \<times> ctr_cipher \<times> bytes" where
  "obf_read enc n c s =
     (case conn_ReadFull n s of
        (Inl e, s') \<Rightarrow> (Inl e, c, s')
      | (Inr b, s') \<Rightarrow> (let (p, c') = CTR_Process enc b c in (Inr p, c', s')))"

definition obf_read_payload ::
  "(bytes \<Rightarrow> bytes) \<Rightarrow> nat \<Rightarrow> ctr_cipher \<Rightarrow> bytes \<Rightarrow> (transport_error + bytes) \<times> ctr_cipher \<times> bytes" where
  "obf_read_payload enc len c s =
     (if len > MaxPayloadLen then (Inl ErrPayloadTooLarge, c, s) else obf_read enc len c s)"

definition Obf_Recv ::
  "inner_transport \<Rightarrow> (bytes \<Rightarrow> bytes) \<Rightarrow> ctr_cipher \<Rightarrow> bytes \<Rightarrow>
   (transport_error + bytes) \<times> ctr_cipher \<times> bytes" where
  "Obf_Recv inner enc c s =
     (case inner of
        InnerIntermediate \<Rightarrow>
          (case obf_read enc 4 c s of
             (Inl e, c1, s1) \<Rightarrow> (Inl e, c1, s1)
           | (Inr decLen, c1, s1) \<Rightarrow> obf_read_payload enc (unat (le_word decLen :: u32)) c1 s1)
      | InnerAbridged \<Rightarrow>
          (case obf_read enc 1 c s of
             (Inl e, c1, s1) \<Rightarrow> (Inl e, c1, s1)
           | (Inr decLen, c1, s1) \<Rightarrow>
               if decLen ! 0 = 0x7f
               then (case obf_read enc 3 c1 s1 of
                       (Inl e, c2, s2) \<Rightarrow> (Inl e, c2, s2)
                     | (Inr decExt, c2, s2) \<Rightarrow> obf_read_payload enc (abridged_len3 decExt * 4) c2 s2)
               else obf_read_payload enc (unat (decLen ! 0) * 4) c1 s1)
      | InnerOther \<Rightarrow> (Inl ErrUnsupportedTransport, c, s))"

lemma obf_read_encrypted:
  assumes "CTR_Process enc p c = (w, c')" and "length p = n"
  shows "obf_read enc n c (w @ s) = (Inr p, c', s)"
proof -
  have "length w = n" using assms CTR_Process_length [of enc p c] by simp
  moreover have "CTR_Process enc w c = (p, c')" using CTR_Process_inverse [of enc p c] assms(1) by simp
  ultimately show ?thesis by (simp add: obf_read_def conn_ReadFull_append)
qed

lemma obf_payload_encrypted:
  "CTR_Process enc p c = (w, c') \<Longrightarrow> length p \<le> MaxPayloadLen \<Longrightarrow> n = length p
    \<Longrightarrow> obf_read_payload enc n c (w @ s) = (Inr p, c', s)"
  by (simp add: obf_read_payload_def obf_read_encrypted)

lemma obf_intermediate_recv_send:
  assumes "within_limit p"
  shows "Obf_Recv InnerIntermediate enc c (fst (sendEncrypted enc (obf_header InnerIntermediate (length p)) p c) @ rest)
       = (Inr p, snd (sendEncrypted enc (obf_header InnerIntermediate (length p)) p c), rest)"
proof -
  let ?h = "le_bytes 4 (of_nat (length p) :: u32)"
  obtain w1 c1 where h: "CTR_Process enc ?h c = (w1, c1)" by fastforce
  obtain w2 c2 where d: "CTR_Process enc p c1 = (w2, c2)" by fastforce
  have "unat (of_nat (length p) :: u32) = length p" and "length p \<le> MaxPayloadLen"
    using assms unat_length32 [of "length p"] by (simp_all add: within_limit_def)
  then show ?thesis
    using obf_read_encrypted [OF h, of 4 "w2 @ rest"] obf_payload_encrypted [OF d, of "length p" rest] h d
    by (simp add: Obf_Recv_def sendEncrypted_def obf_header_def Let_def)
qed

lemma obf_abridged_recv_send:
  assumes "word_aligned p"
  shows "Obf_Recv InnerAbridged enc c (fst (sendEncrypted enc (obf_header InnerAbridged (length p)) p c) @ rest)
       = (Inr p, snd (sendEncrypted enc (obf_header InnerAbridged (length p)) p c), rest)"
proof -
  define n where "n = length p div 4"
  have len: "n * 4 = length p" "length p \<le> MaxPayloadLen"
    using assms by (auto simp: word_aligned_def n_def)
  then have n24: "n < 2 ^ 24" by (simp add: MaxPayloadLen_def)
  show ?thesis
  proof (cases "n \<le> 126")
    case True
    obtain w1 c1 where h: "CTR_Process enc [of_nat n] c = (w1, c1)" by fastforce
    obtain w2 c2 where d: "CTR_Process enc p c1 = (w2, c2)" by fastforce
    have hdr: "obf_header InnerAbridged (length p) = [of_nat n]"
      using True by (simp add: obf_header_def abridged_header_def n_def)
    have "n mod 256 * 4 = length p" using True len by simp
    then show ?thesis
      using obf_read_encrypted [OF h, of 1 "w2 @ rest"] obf_payload_encrypted [OF d, of "n mod 256 * 4" rest] h d
        abridged_small [OF True] len
      unfolding hdr Obf_Recv_def sendEncrypted_def Let_def by simp
  next
    case False
    let ?b = "[of_nat n, of_nat (n div 2 ^ 8), of_nat (n div 2 ^ 16)] :: bytes"
    obtain w1 c1 where h1: "CTR_Process enc [0x7f] c = (w1, c1)" by fastforce
    obtain w2 c2 where h2: "CTR_Process enc ?b c1 = (w2, c2)" by fastforce
    obtain w3 c3 where d: "CTR_Process enc p c2 = (w3, c3)" by fastforce
    have hdr: "obf_header InnerAbridged (length p) = [0x7f] @ ?b"
      using False by (simp add: obf_header_def abridged_header_def n_def Let_def)
    have h: "CTR_Process enc ([0x7f] @ ?b) c = (w1 @ w2, c2)"
      using h1 h2 by (simp only: CTR_Process_append Let_def split)
    show ?thesis
      using obf_read_encrypted [OF h1, of 1 "w2 @ w3 @ rest"] obf_read_encrypted [OF h2, of 3 "w3 @ rest"]
        obf_payload_encrypted [OF d, of "n * 4" rest] len abridged_len3_header [OF n24] d
      unfolding hdr Obf_Recv_def sendEncrypted_def h Let_def by simp
  qed
qed

text \<open>A sender of a supported inner transport; the receiver runs the same keystream.\<close>

definition obf_out :: "inner_transport \<Rightarrow> (bytes \<Rightarrow> bytes) \<Rightarrow> ctr_cipher \<Rightarrow> bytes \<Rightarrow> bytes \<times> ctr_cipher" where
  "obf_out inner enc c p = sendEncrypted enc (obf_header inner (length p)) p c"

interpretation obf_int: framing "obf_out InnerIntermediate enc" "Obf_Recv InnerIntermediate enc" within_limit "(=)"
  for enc :: "bytes \<Rightarrow> bytes"
  by unfold_locales (simp add: obf_out_def obf_intermediate_recv_send)

interpretation obf_abr: framing "obf_out InnerAbridged enc" "Obf_Recv InnerAbridged enc" word_aligned "(=)"
  for enc :: "bytes \<Rightarrow> bytes"
  by unfold_locales (simp add: obf_out_def obf_abridged_recv_send)

subsection \<open>The handshake\<close>

lemma CTR_Process_state: "length xs = length ys \<Longrightarrow> snd (CTR_Process enc xs c) = snd (CTR_Process enc ys c)"
  by (induction xs ys arbitrary: c rule: list_induct2) (simp_all add: case_prod_beta Let_def)

lemma nonce_reversed_cong:
  "(\<And>i. i < 56 \<Longrightarrow> a ! i = b ! i) \<Longrightarrow> nonce_reversed a = nonce_reversed b"
  by (simp add: nonce_reversed_def)

lemma go_slice_prefix: "lo \<le> hi \<Longrightarrow> hi \<le> 56 \<Longrightarrow> 56 \<le> length a \<Longrightarrow> go_slice (take 56 a @ b) lo hi = go_slice a lo hi"
  by (auto simp: go_slice_def drop_take min_def)

lemma length_nonce_reversed [simp]: "length (nonce_reversed n) = 48"
  by (simp add: nonce_reversed_def)

lemma NewCTRCipher_total: "length key = 32 \<Longrightarrow> \<exists>c. NewCTRCipher E key iv = Inr c"
  by (simp add: NewCTRCipher_def GetAESBlock_def)

text \<open>Initiator and responder derive the same keys crosswise and start at the same keystream positions.\<close>

lemma obf_handshake:
  assumes len: "length nonce0 = 64"
  obtains wire a b where "Obf_Connect E marker nonce0 = Inr (wire, a)" and "length wire = 64"
    and "connectReverse E wire = Inr b"
    and "obf_encKey a = obf_decKey b" and "obf_enc a = obf_dec b"
    and "obf_decKey a = obf_encKey b" and "obf_dec a = obf_enc b"
proof -
  define nonce where "nonce = nonce0[56 := marker, 57 := marker, 58 := marker, 59 := marker]"
  define rv where "rv = nonce_reversed nonce"
  have n64: "length nonce = 64" using len by (simp add: nonce_def)
  obtain ce where ce: "NewCTRCipher E (go_slice nonce 8 40) (go_slice nonce 40 56) = Inr ce"
    using NewCTRCipher_total [of "go_slice nonce 8 40"] n64 by auto
  obtain cd where cd: "NewCTRCipher E (take 32 rv) (drop 32 rv) = Inr cd"
    using NewCTRCipher_total [of "take 32 rv"] by (auto simp: rv_def)
  let ?f = "E (go_slice nonce 8 40)"
  define wire where "wire = take 56 nonce @ drop 56 (fst (CTR_Process ?f nonce ce))"
  have w64: "length wire = 64" using n64 by (simp add: wire_def)
  have cut: "go_slice wire 8 40 = go_slice nonce 8 40" "go_slice wire 40 56 = go_slice nonce 40 56"
    using n64 by (simp_all add: wire_def go_slice_prefix)
  have rw: "nonce_reversed wire = rv"
    unfolding rv_def using n64 by (intro nonce_reversed_cong) (simp add: wire_def nth_append)
  have "Obf_Connect E marker nonce0 =
      Inr (wire, \<lparr>obf_encKey = go_slice nonce 8 40, obf_enc = snd (CTR_Process ?f nonce ce),
                  obf_decKey = take 32 rv, obf_dec = cd\<rparr>)"
    by (simp add: Obf_Connect_def obf_setup_def ce cd wire_def case_prod_beta Let_def flip: nonce_def rv_def)
  moreover have "connectReverse E wire =
      Inr \<lparr>obf_encKey = take 32 rv, obf_enc = cd, obf_decKey = go_slice nonce 8 40,
           obf_dec = snd (CTR_Process ?f (replicate 64 0) ce)\<rparr>"
    by (simp add: connectReverse_def obf_setup_def rw cut ce cd Let_def)
  moreover have "snd (CTR_Process ?f nonce ce) = snd (CTR_Process ?f (replicate 64 0) ce)"
    by (rule CTR_Process_state) (simp add: n64)
  ultimately show ?thesis
    using that w64 by simp
qed

section \<open>Four-byte payloads\<close>

definition payload_code :: "bytes \<Rightarrow> u32" where
  "payload_code payload =
     (ucast (payload ! 0) :: u32) OR push_bit 8 (ucast (payload ! 1)) OR push_bit 16 (ucast (payload ! 2)) OR
     push_bit 24 (ucast (payload ! 3))"

definition DetectTransportError :: "bytes \<Rightarrow> int option" where
  "DetectTransportError payload =
     (if length payload \<noteq> 4 then None
      else let code = sint (payload_code payload)
           in if code \<ge> 0 \<or> code < - 1000 then None else Some code)"

definition IsQuickAckToken :: "bytes \<Rightarrow> bool" where
  "IsQuickAckToken payload \<longleftrightarrow>
     (if length payload \<noteq> 4 then False else payload_code payload \<ge> 0x80000000)"

text \<open>\<open>err\<close> is the code of the transport error an error value wraps, if any; an empty list of codes
  asks for any transport error.\<close>

definition IsTransportError :: "int option \<Rightarrow> int list \<Rightarrow> bool" where
  "IsTransportError err codes =
     (case err of None \<Rightarrow> False | Some code \<Rightarrow> if codes = [] then True else code \<in> set codes)"

lemma high_bit_negative: "(0x80000000 :: u32) \<le> w \<longleftrightarrow> sint w < 0"
proof -
  have "sint w < 0 \<longleftrightarrow> bit (uint w) 31"
    using bit_last_iff [of w] by (simp add: bit_uint_iff)
  also have "\<dots> \<longleftrightarrow> odd (uint w div 2 ^ 31)"
    by (simp add: bit_iff_odd)
  also have "uint w div 2 ^ 31 = (if 2 ^ 31 \<le> uint w then 1 else 0)"
    using unsigned_less [of w, where ?'a = int] by (simp add: div_pos_pos_trivial div_pos_geq)
  finally show ?thesis
    by (simp add: word_le_def split: if_splits)
qed

section \<open>Properties\<close>

text \<open>Property C11 (roundtrip): every TCP framing delivers a sequence of packets. The packets written by
  any number of Sends are returned by as many Recvs, in order and unchanged, and the bytes that
  follow on the wire are left for the next Recv: abridged for word-aligned payloads, intermediate for
  payloads within the limit, padded intermediate for MTProto packets under any random padding, full
  for any starting sequence number.\<close>

theorem framings_deliver_packets:
  "((\<forall>p \<in> set ps. word_aligned p) \<longrightarrow>
      recv_all Abridged_Recv (length ps) () (fst (send_all Abridged_Send () ps) @ rest) = (map Inr ps, (), rest)) \<and>
   ((\<forall>p \<in> set ps. within_limit p) \<longrightarrow>
      recv_all Intermediate_Recv (length ps) () (fst (send_all Intermediate_Send () ps) @ rest) = (map Inr ps, (), rest)) \<and>
   ((\<forall>p \<in> set ps. mtproto_packet p) \<longrightarrow>
      recv_all Padded_Recv (length ps) () (fst (send_all Padded_Send tape ps) @ rest) = (map Inr ps, (), rest)) \<and>
   ((\<forall>p \<in> set ps. full_payload p) \<longrightarrow>
      recv_all Full_Recv (length ps) () (fst (send_all Full_Send seqNo ps) @ rest) = (map Inr ps, (), rest))"
  using abridged.recv_all_send_all [where s = "()" and r = "()" and ps = ps and rest = rest]
    intermediate.recv_all_send_all [where s = "()" and r = "()" and ps = ps and rest = rest]
    padded.recv_all_send_all [where s = tape and r = "()" and ps = ps and rest = rest]
    full.recv_all_send_all [where s = seqNo and r = "()" and ps = ps and rest = rest]
  by simp

theorem framings_deliver_packets_witness:
  "(let ps = [replicate 24 3, replicate 40 5 :: bytes]
    in recv_all Abridged_Recv (length ps) () (fst (send_all Abridged_Send () ps) @ [9]) = (map Inr ps, (), [9]) \<and>
       recv_all Intermediate_Recv (length ps) () (fst (send_all Intermediate_Send () ps) @ [9]) = (map Inr ps, (), [9]) \<and>
       recv_all Padded_Recv (length ps) () (fst (send_all Padded_Send (\<lambda>_. 7, 0) ps) @ [9]) = (map Inr ps, (), [9]) \<and>
       recv_all Full_Recv (length ps) () (fst (send_all Full_Send 0 ps) @ [9]) = (map Inr ps, (), [9]))"
proof -
  let ?ps = "[replicate 24 3, replicate 40 5 :: bytes]"
  have "\<forall>p \<in> set ?ps. word_aligned p" "\<forall>p \<in> set ?ps. within_limit p" "\<forall>p \<in> set ?ps. full_payload p"
    "\<forall>p \<in> set ?ps. mtproto_packet p"
    by (simp_all add: word_aligned_def within_limit_def full_payload_def mtproto_packet_def MaxPayloadLen_def)
  then show ?thesis
    using framings_deliver_packets [of ?ps "[9]" "(\<lambda>_. 7, 0)" 0]
    unfolding Let_def by blast
qed

text \<open>Property C12 (roundtrip of the obfuscated connection): Connect on one side and connectReverse on the
  64 bytes it wrote always succeed and leave the two sides with matching ciphers in both directions,
  so that word-aligned packets sent either way through the intermediate or the abridged framing
  arrive in order and unchanged.\<close>

theorem obfuscated_connection_delivers:
  assumes "length nonce0 = 64" and "\<forall>p \<in> set ps. word_aligned p"
    and "inner = InnerIntermediate \<or> inner = InnerAbridged"
  shows "\<exists>wire a b. Obf_Connect E marker nonce0 = Inr (wire, a) \<and> length wire = 64 \<and>
     connectReverse E wire = Inr b \<and>
     fst (recv_all (Obf_Recv inner (E (obf_decKey b))) (length ps) (obf_dec b)
       (fst (send_all (obf_out inner (E (obf_encKey a))) (obf_enc a) ps) @ rest)) = map Inr ps \<and>
     fst (recv_all (Obf_Recv inner (E (obf_decKey a))) (length ps) (obf_dec a)
       (fst (send_all (obf_out inner (E (obf_encKey b))) (obf_enc b) ps) @ rest)) = map Inr ps"
proof -
  obtain wire a b where hs: "Obf_Connect E marker nonce0 = Inr (wire, a)" "length wire = 64"
    "connectReverse E wire = Inr b"
    and ab: "obf_encKey a = obf_decKey b" "obf_enc a = obf_dec b" "obf_decKey a = obf_encKey b" "obf_dec a = obf_enc b"
    by (rule obf_handshake [OF assms(1)])
  have lim: "\<forall>p \<in> set ps. within_limit p"
    using assms(2) by (simp add: word_aligned_def within_limit_def)
  have "fst (recv_all (Obf_Recv inner f) (length ps) c (fst (send_all (obf_out inner f) c ps) @ rest)) = map Inr ps"
    for f c
    using assms(2,3) lim
      obf_int.recv_all_prefix [where enc = f and s = c and r = c and ps = ps and rest = rest]
      obf_abr.recv_all_prefix [where enc = f and s = c and r = c and ps = ps and rest = rest]
    by auto
  then show ?thesis
    using hs ab by auto
qed

theorem obfuscated_connection_delivers_witness:
  "\<exists>wire a b. Obf_Connect (\<lambda>_. rev) 0xEF (replicate 64 5) = Inr (wire, a) \<and> length wire = 64 \<and>
     connectReverse (\<lambda>_. rev) wire = Inr b \<and>
     fst (recv_all (Obf_Recv InnerAbridged rev) (length [[1, 2, 3, 4], [] :: bytes]) (obf_dec b)
       (fst (send_all (obf_out InnerAbridged rev) (obf_enc a) [[1, 2, 3, 4], []]) @ [9])) =
     map Inr [[1, 2, 3, 4], []]"
proof -
  have ps: "\<forall>p \<in> set [[1, 2, 3, 4], [] :: bytes]. word_aligned p"
    by (simp add: word_aligned_def MaxPayloadLen_def)
  have n: "length (replicate 64 (5 :: u8)) = 64" by simp
  show ?thesis
    using obfuscated_connection_delivers [OF n ps, where inner = InnerAbridged and E = "\<lambda>_. rev"
        and marker = "0xEF" and rest = "[9]"]
    by blast
qed

text \<open>The buffered receiver of the headerless framing returns the packet that was
  sent however the connection splits or merges the stream into reads, and keeps exactly the bytes
  after it.\<close>

theorem noheader_recv_any_chunking:
  assumes "within_limit p" and "buf @ concat cs = NoHeader_Send p @ rest"
  shows "\<exists>buf' cs'. NoHeader_Recv (buf, cs) = (Inr p, buf', cs') \<and> buf' @ concat cs' = rest"
  using assms by (rule NoHeader_recv_send)

theorem noheader_recv_any_chunking_witness:
  "\<exists>buf' cs'. NoHeader_Recv ([], [[3, 0], [0], [0, 7, 8], [9, 1]]) = (Inr [7, 8, 9], buf', cs') \<and>
     buf' @ concat cs' = [1]"
  by (rule noheader_recv_any_chunking)
    (simp_all add: within_limit_def MaxPayloadLen_def NoHeader_Send_def send4ByteLengthPrefix_def, code_simp)

text \<open>IsQuickAckToken does not tell quick acknowledgements from transport errors. It
  holds of every transport error too; only a caller that asks DetectTransportError first separates
  them.\<close>

theorem quick_ack_test_covers_errors:
  "(DetectTransportError p \<noteq> None \<longrightarrow> IsQuickAckToken p) \<and>
   (DetectTransportError p = None \<and> IsQuickAckToken p \<longleftrightarrow> length p = 4 \<and> sint (payload_code p) < - 1000)"
  by (auto simp: DetectTransportError_def IsQuickAckToken_def high_bit_negative Let_def)

theorem quick_ack_test_covers_errors_witness:
  "DetectTransportError (le_bytes 4 (- 404 :: u32)) = Some (- 404) \<and> IsQuickAckToken (le_bytes 4 (- 404 :: u32))"
proof -
  have "DetectTransportError (le_bytes 4 (- 404 :: u32)) = Some (- 404)" by code_simp
  then show ?thesis using quick_ack_test_covers_errors [of "le_bytes 4 (- 404 :: u32)"] by simp
qed

text \<open>A defect: the padded intermediate receiver cannot strip the padding of a four-byte
  payload. When the peer's random padding is not empty, a transport error arrives with the padding
  attached and is recognised neither as an error nor as a quick acknowledgement.\<close>

theorem padded_transport_error_unrecognised:
  assumes "length e = 4" and "unat (fst t (snd t)) mod 16 \<noteq> 0"
  shows "\<exists>r. Padded_Recv () (fst (Padded_Send t e)) = (Inr r, (), []) \<and> take 4 r = e \<and> r \<noteq> e \<and>
             DetectTransportError r = None \<and> \<not> IsQuickAckToken r"
proof -
  let ?k = "unat (fst t (snd t)) mod 16"
  define pad where "pad = fst (rand_Read ?k (snd (rand_Read 1 t)))"
  have send: "fst (Padded_Send t e) = le_bytes 4 (of_nat (4 + ?k) :: u32) @ e @ pad"
    using assms by (simp add: Padded_Send_def case_prod_beta Let_def pad_def rand_Read_def)
  have k: "0 < ?k" "?k \<le> 15" "length pad = ?k" using assms(2) by (simp_all add: pad_def)
  have n: "unat (of_nat (4 + ?k) :: u32) = 4 + ?k"
    using k(2) by (intro unat_length32) (simp add: MaxPayloadLen_def)
  have "\<not> of_nat (4 + ?k) > (of_nat (MaxPayloadLen + 15) :: u32)" "(of_nat (4 + ?k) :: u32) \<noteq> 0"
    using n k(2) unat_length32 [of "MaxPayloadLen + 15"]
    by (simp_all add: word_less_nat_alt unat_eq_zero MaxPayloadLen_def del: of_nat_add) auto
  moreover have "conn_ReadFull (4 + ?k) (e @ pad) = (Inr (e @ pad), [])"
    using conn_ReadFull_append [of "e @ pad" "4 + ?k" "[]"] assms(1) k(3) by simp
  moreover have "trimPaddedIntermediatePayload (e @ pad) = e @ pad"
    using assms(1) k by (simp add: trimPaddedIntermediatePayload_def)
  ultimately have "Padded_Recv () (fst (Padded_Send t e)) = (Inr (e @ pad), (), [])"
    using n unfolding send Padded_Recv_def by (simp add: Let_def del: of_nat_add)
  then show ?thesis
    using assms(1) k by (auto simp: DetectTransportError_def IsQuickAckToken_def)
qed

theorem padded_transport_error_unrecognised_witness:
  "DetectTransportError (le_bytes 4 (- 404 :: u32)) = Some (- 404) \<and>
   (\<exists>r. Padded_Recv () (fst (Padded_Send (\<lambda>_. 7, 0) (le_bytes 4 (- 404 :: u32)))) = (Inr r, (), []) \<and>
        DetectTransportError r = None)"
proof -
  have "DetectTransportError (le_bytes 4 (- 404 :: u32)) = Some (- 404)" by code_simp
  then show ?thesis
    using padded_transport_error_unrecognised [of "le_bytes 4 (- 404 :: u32)" "(\<lambda>_. 7, 0)"] by auto
qed

end
