(* ===== verification/Session_Receive.thy ===== *)
theory Session_Receive
  imports Pending_Calls Container_Tracker Salt_Manager Msg_Identifiers Session_State Transport_Framing
begin

text \<open>
  The receive path of a session, \<^verbatim>\<open>src/internal/session/session.go\<close> (handleRawPacket and the handlers
  it calls, handlePacket, processIncoming, dispatchRaw, one turn of readLoop, handleClose) and
  \<^verbatim>\<open>src/internal/session/state_check.go\<close>. The session record holds the components the handlers work
  on and, as lists in order, what leaves the session: acknowledgements queued, updates dispatched,
  new-session callbacks, frames written. One packet is handled at one clock reading. The decoders of
  generated types, gzip, the packing of an outgoing message under the session's keys and the outcome
  of a transport write are in the environment record.
\<close>

section \<open>The session and its environment\<close>

record state_req =
  sr_msgIDs :: "i64 list"
  sr_sentAt :: int

record session =
  ss_pending :: pending_manager
  ss_tracker :: container_tracker
  ss_saltMgr :: salt_manager
  ss_msgFactory :: msg_factory
  ss_validator :: msg_id_validator
  ss_ackCh :: "i64 list"
  ss_pingCbs :: "(i64 \<times> unit) list"
  ss_stateReqs :: "(i64 \<times> state_req) list"
  ss_onUpdate :: bool
  ss_updates :: "tl_object list"
  ss_newSessions :: "(i64 \<times> i64 \<times> i64) list"
  ss_written :: "bytes list"
  ss_state :: session_state
  ss_guards :: session_guards
  ss_cancelled :: bool
  ss_stopping :: bool
  ss_done :: bool

text \<open>\<open>env_pack msgID seqNo body salt\<close> is crypto.Pack or crypto.PackRaw with the session's keys,
  \<open>None\<close> when it returns an error; \<open>env_write\<close> is whether the transport accepts a frame;
  \<open>env_unpack\<close> is crypto.UnpackEnvelope.\<close>

record env =
  env_reg :: registry
  env_gun :: gunzip
  env_isUpdates :: "u32 \<Rightarrow> bool"
  env_now :: i64
  env_pack :: "i64 \<Rightarrow> u32 \<Rightarrow> bytes \<Rightarrow> i64 \<Rightarrow> bytes option"
  env_write :: "bytes \<Rightarrow> bool"
  env_unpack :: "bytes \<Rightarrow> session_error + mtproto_message_raw"

text \<open>The components as NewSession creates them; \<open>now\<close> is its clock reading.\<close>

definition NewSession :: "i64 \<Rightarrow> session" where
  "NewSession now =
     \<lparr>ss_pending = NewPendingManager, ss_tracker = NewContainerTracker, ss_saltMgr = newSaltManager,
      ss_msgFactory = NewMsgFactory now now, ss_validator = newMsgIDValidator, ss_ackCh = [], ss_pingCbs = [],
      ss_stateReqs = [], ss_onUpdate = False, ss_updates = [], ss_newSessions = [], ss_written = [],
      ss_state = newStateMachine, ss_guards = new_guards, ss_cancelled = False, ss_stopping = False,
      ss_done = False\<rparr>"

text \<open>The server-time clock both components use: wall clock plus the factory's offset, in seconds.\<close>

definition server_now :: "env \<Rightarrow> session \<Rightarrow> i64" where
  "server_now e s = env_now e + ServerTimeOffset (ss_msgFactory s)"

definition salt_now :: "env \<Rightarrow> session \<Rightarrow> int" where
  "salt_now e s = sint (env_now e) + sint (ServerTimeOffset (ss_msgFactory s))"

definition u32_at :: "bytes \<Rightarrow> nat \<Rightarrow> u32" where
  "u32_at b i = le_word (go_slice b i (i + 4))"

definition u64_at :: "bytes \<Rightarrow> nat \<Rightarrow> i64" where
  "u64_at b i = le_word (go_slice b i (i + 8))"

definition RPCResultTypeID :: u32 where "RPCResultTypeID = 0xf35c6d01"
definition PongTypeID :: u32 where "PongTypeID = 0x347773c5"
definition BadMsgNotificationTypeID :: u32 where "BadMsgNotificationTypeID = 0xa7eff811"
definition BadServerSaltTypeID :: u32 where "BadServerSaltTypeID = 0xedab447b"
definition NewSessionCreatedTypeID :: u32 where "NewSessionCreatedTypeID = 0x9ec20908"
definition FutureSaltsTypeID :: u32 where "FutureSaltsTypeID = 0xae500895"
definition FutureSaltTypeID :: u32 where "FutureSaltTypeID = 0x0949d9dc"
definition MsgsAckTypeID :: u32 where "MsgsAckTypeID = 0x62d6b459"
definition MsgDetailedInfoTypeID :: u32 where "MsgDetailedInfoTypeID = 0x276d3ec6"
definition MsgNewDetailedInfoTypeID :: u32 where "MsgNewDetailedInfoTypeID = 0x809db6df"
definition MsgsStateReqTypeID :: u32 where "MsgsStateReqTypeID = 0xda69fb52"
definition MsgsStateInfoTypeID :: u32 where "MsgsStateInfoTypeID = 0x04deb57d"
definition MsgResendReqTypeID :: u32 where "MsgResendReqTypeID = 0x7d861a08"
definition MsgsAllInfoTypeID :: u32 where "MsgsAllInfoTypeID = 0x8cc0d131"

lemmas type_ids = RPCResultTypeID_def PongTypeID_def BadMsgNotificationTypeID_def BadServerSaltTypeID_def
  NewSessionCreatedTypeID_def FutureSaltsTypeID_def FutureSaltTypeID_def MsgsAckTypeID_def
  MsgDetailedInfoTypeID_def MsgNewDetailedInfoTypeID_def MsgsStateReqTypeID_def MsgsStateInfoTypeID_def
  MsgResendReqTypeID_def MsgsAllInfoTypeID_def GzipPackedID_def MsgContainerID_def

section \<open>Small steps the handlers share\<close>

definition on_pending :: "(pending_manager \<Rightarrow> 'a \<times> pending_manager) \<Rightarrow> session \<Rightarrow> session" where
  "on_pending f s = s\<lparr>ss_pending := snd (f (ss_pending s))\<rparr>"

definition on_tracker :: "(container_tracker \<Rightarrow> 'a \<times> container_tracker) \<Rightarrow> session \<Rightarrow> session" where
  "on_tracker f s = s\<lparr>ss_tracker := snd (f (ss_tracker s))\<rparr>"

text \<open>\<^verbatim>\<open>addAck\<close> sends into a channel that ackLoop drains; when the session is done the id is dropped.\<close>

definition addAck :: "i64 \<Rightarrow> session \<Rightarrow> session" where
  "addAck msgID s = (if ss_done s then s else s\<lparr>ss_ackCh := ss_ackCh s @ [msgID]\<rparr>)"

definition requiresAck :: "u32 \<Rightarrow> bool" where
  "requiresAck seqNo \<longleftrightarrow> seqNo AND 1 \<noteq> 0"

definition hasDecodedResults :: "session \<Rightarrow> bool" where
  "hasDecodedResults s \<longleftrightarrow> HasAnyDecoded (ss_pending s)"

definition handlePong :: "i64 \<Rightarrow> session \<Rightarrow> session" where
  "handlePong pingID s = s\<lparr>ss_pingCbs := AList.delete pingID (ss_pingCbs s)\<rparr>"

definition fireNewSession :: "i64 \<Rightarrow> i64 \<Rightarrow> i64 \<Rightarrow> session \<Rightarrow> session" where
  "fireNewSession firstMsgID uniqueID serverSalt s =
     s\<lparr>ss_newSessions := ss_newSessions s @ [(firstMsgID, uniqueID, serverSalt)]\<rparr>"

definition dispatchUpdate :: "tl_object \<Rightarrow> session \<Rightarrow> session" where
  "dispatchUpdate obj s =
     (if \<not> ss_onUpdate s \<or> ss_done s then s else s\<lparr>ss_updates := ss_updates s @ [obj]\<rparr>)"

definition store_simple_salt :: "env \<Rightarrow> i64 \<Rightarrow> session \<Rightarrow> session" where
  "store_simple_salt e salt s = s\<lparr>ss_saltMgr := StoreSimple (salt_now e s) salt (ss_saltMgr s)\<rparr>"

text \<open>A write with the guards of writeEncryptedImpl (the second check under the write lock repeats the
  first). \<open>None\<close> is success.\<close>

definition writeEncryptedImpl :: "env \<Rightarrow> bytes \<Rightarrow> session \<Rightarrow> session_error option \<times> session" where
  "writeEncryptedImpl e frame s =
     (case write_admitted (ss_stopping s) (ss_guards s) of
        Some err \<Rightarrow> (Some err, s)
      | None \<Rightarrow>
          if ss_done s then (Some (Sentinel ErrSessionClosed), s)
          else
            let err = (if env_write e frame then None else Some (NetError False));
                (cancel, g) = trackWriteResult err (ss_guards s);
                s1 = s\<lparr>ss_guards := g, ss_cancelled := ss_cancelled s \<or> cancel\<rparr>
            in (err, if err = None then s1\<lparr>ss_written := ss_written s1 @ [frame]\<rparr> else s1))"

text \<open>The body is the encoded service message.\<close>

definition buildServiceMessage :: "env \<Rightarrow> bytes \<Rightarrow> session \<Rightarrow> bytes option \<times> session" where
  "buildServiceMessage e body s =
     (let (msgID, f1) = AllocateMsgID (env_now e) (ss_msgFactory s);
          (seqNo, f2) = AllocateSeqNo False f1;
          s1 = s\<lparr>ss_msgFactory := f2\<rparr>;
          (salt, sm) = Salt_Load (salt_now e s1) (ss_saltMgr s1)
      in (env_pack e msgID seqNo body salt, s1\<lparr>ss_saltMgr := sm\<rparr>))"

definition sendServiceMessage :: "env \<Rightarrow> bytes \<Rightarrow> session \<Rightarrow> session_error option \<times> session" where
  "sendServiceMessage e body s =
     (if ss_done s then (Some (Sentinel ErrSessionClosed), s)
      else case buildServiceMessage e body s of
        (None, s1) \<Rightarrow> (Some (Wrapped OtherError), s1)
      | (Some frame, s1) \<Rightarrow> writeEncryptedImpl e frame s1)"

text \<open>The encoding of msgs_state_info.\<close>

definition encode_state_info :: "i64 \<Rightarrow> bytes \<Rightarrow> bytes" where
  "encode_state_info reqMsgID info =
     WriteString (WriteLong (WriteInt [] MsgsStateInfoTypeID) reqMsgID) info"

section \<open>State reconciliation (state_check.go)\<close>

definition interpretStateByte :: "i64 \<Rightarrow> u8 \<Rightarrow> session \<Rightarrow> session" where
  "interpretStateByte msgID status s =
     (let st = status AND 0x07
      in if st = 2 \<or> st = 3 then on_pending (Reject msgID (Sentinel ErrMsgNotReceived)) s
         else if st = 4 then s\<lparr>ss_pending := MarkAcked msgID (ss_pending s)\<rparr>
         else s)"

text \<open>The loops over parallel ids and status bytes stop at the shorter of the two.\<close>

definition interpret_states :: "i64 list \<Rightarrow> bytes \<Rightarrow> session \<Rightarrow> session" where
  "interpret_states ids info s = fold (\<lambda>(m, b). interpretStateByte m b) (zip ids info) s"

definition handleStateInfo :: "i64 \<Rightarrow> bytes \<Rightarrow> session \<Rightarrow> session" where
  "handleStateInfo reqMsgID info s =
     (case map_of (ss_stateReqs s) reqMsgID of
        None \<Rightarrow> s
      | Some req \<Rightarrow>
          interpret_states (sr_msgIDs req) info
            (s\<lparr>ss_stateReqs := AList.delete reqMsgID (ss_stateReqs s)\<rparr>))"

definition handleRawMsgsStateInfo :: "bytes \<Rightarrow> session \<Rightarrow> session" where
  "handleRawMsgsStateInfo body s =
     (if length body < 8 then s
      else case fst (ReadString (NewReader (drop 8 body))) of
        Inl _ \<Rightarrow> s
      | Inr info \<Rightarrow> handleStateInfo (u64_at body 0) info s)"

text \<open>Times in nanoseconds; thresholds 1.5 s and 2.5 s.\<close>

definition stateCheckThreshold :: int where "stateCheckThreshold = 1500000000"
definition stateReqTimeout :: int where "stateReqTimeout = 2500000000"

definition sendStateReq :: "env \<Rightarrow> i64 list \<Rightarrow> session \<Rightarrow> i64 \<times> session" where
  "sendStateReq e msgIDs s =
     (if ss_done s then (0, s)
      else
        let (msgID, f1) = AllocateMsgID (env_now e) (ss_msgFactory s);
            (seqNo, f2) = AllocateSeqNo False f1;
            s1 = s\<lparr>ss_msgFactory := f2\<rparr>;
            (salt, sm) = Salt_Load (salt_now e s1) (ss_saltMgr s1);
            s2 = s1\<lparr>ss_saltMgr := sm\<rparr>
        in case env_pack e msgID seqNo (WriteVectorLong (WriteInt [] MsgsStateReqTypeID) msgIDs) salt of
             None \<Rightarrow> (0, s2)
           | Some frame \<Rightarrow>
               (case writeEncryptedImpl e frame s2 of
                  (Some _, s3) \<Rightarrow> (0, s3)
                | (None, s3) \<Rightarrow> (msgID, s3)))"

definition checkPendingStates :: "env \<Rightarrow> int \<Rightarrow> session \<Rightarrow> session" where
  "checkPendingStates e nanos s =
     (let ids = OverduePending nanos stateCheckThreshold (ss_pending s)
      in if ids = [] then s
         else let (stateReqMsgID, s1) = sendStateReq e ids s
              in if stateReqMsgID = 0 then s1
                 else s1\<lparr>ss_stateReqs :=
                   AList.update stateReqMsgID \<lparr>sr_msgIDs = ids, sr_sentAt = nanos\<rparr> (ss_stateReqs s1)\<rparr>)"

definition expireStateReqs :: "int \<Rightarrow> session \<Rightarrow> session" where
  "expireStateReqs nanos s =
     s\<lparr>ss_stateReqs := filter (\<lambda>(m, req). \<not> sr_sentAt req < nanos - stateReqTimeout) (ss_stateReqs s)\<rparr>"

section \<open>Raw service messages\<close>

definition ack_one :: "i64 \<Rightarrow> session \<Rightarrow> session" where
  "ack_one ackedID s =
     on_tracker (AckChild ackedID) (on_tracker (AckContainer ackedID)
       (s\<lparr>ss_pending := MarkAcked ackedID (ss_pending s)\<rparr>))"

definition handleRawMsgsAck :: "bytes \<Rightarrow> session \<Rightarrow> session" where
  "handleRawMsgsAck body s =
     (case fst (ReadVectorLong (NewReader body)) of
        Inl _ \<Rightarrow> s
      | Inr msgIDs \<Rightarrow> fold ack_one msgIDs s)"

definition handleRawMsgsAllInfo :: "bytes \<Rightarrow> session \<Rightarrow> session" where
  "handleRawMsgsAllInfo body s =
     (case ReadVectorLong (NewReader body) of
        (Inl _, _) \<Rightarrow> s
      | (Inr msgIDs, r) \<Rightarrow>
          (case fst (ReadString r) of
             Inl _ \<Rightarrow> s
           | Inr info \<Rightarrow> interpret_states msgIDs info s))"

text \<open>Depth enough for any object in \<open>n\<close> bytes (\<open>read_object_enough_fuel\<close>).\<close>

definition object_fuel :: "nat \<Rightarrow> nat" where
  "object_fuel n = Suc n"

text \<open>A gzip payload may be longer than the packet; the depth follows the decompressed data.\<close>

definition gzip_decode :: "env \<Rightarrow> tl_object \<Rightarrow> tl_error + tl_object" where
  "gzip_decode e obj =
     (case obj of
        GzipPacked (GzipPackedData raw) \<Rightarrow> GzipPacked_Decode (object_fuel (length raw)) (env_reg e) (env_gun e) obj
      | _ \<Rightarrow> GzipPacked_Decode 0 (env_reg e) (env_gun e) obj)"

definition read_object :: "env \<Rightarrow> bytes \<Rightarrow> tl_error + tl_object" where
  "read_object e body =
     fst (ReadTLObject (object_fuel (length body)) (env_reg e) (env_gun e) (NewReader body))"

definition is_gzip :: "tl_object \<Rightarrow> bool" where
  "is_gzip obj = (case obj of GzipPacked _ \<Rightarrow> True | _ \<Rightarrow> False)"

definition decodeRawRPCResultPayload :: "env \<Rightarrow> bytes \<Rightarrow> tl_error + tl_object" where
  "decodeRawRPCResultPayload e payload =
     (case read_object e payload of
        Inl err \<Rightarrow> Inl err
      | Inr result \<Rightarrow> if is_gzip result then gzip_decode e result else Inr result)"

definition handleRawRPCResult :: "env \<Rightarrow> bytes \<Rightarrow> session \<Rightarrow> session" where
  "handleRawRPCResult e body s =
     (if length body < 12 then s
      else
        let reqMsgID = u64_at body 4;
            payload = drop 12 body;
            (decoded, pm) = ResolveRPCResult reqMsgID payload (ss_pending s);
            s1 = s\<lparr>ss_pending := pm\<rparr>
        in if \<not> decoded then s1
           else case decodeRawRPCResultPayload e payload of
             Inl err \<Rightarrow> on_pending (Reject reqMsgID (TLError err)) s1
           | Inr result \<Rightarrow> on_pending (Resolve reqMsgID (ResultObject result)) s1)"

text \<open>The loop over \<open>count\<close> entries of 20 bytes from \<open>offset\<close>.\<close>

primrec raw_salt_entries :: "nat \<Rightarrow> nat \<Rightarrow> bytes \<Rightarrow> salt_entry list" where
  "raw_salt_entries 0 offset body = []"
| "raw_salt_entries (Suc n) offset body =
     (if u32_at body offset \<noteq> FutureSaltTypeID then []
      else [\<lparr>se_validSince = uint (u32_at body (offset + 4)), se_validUntil = uint (u32_at body (offset + 8)),
             se_salt = u64_at body (offset + 12)\<rparr>])
     @ raw_salt_entries n (offset + 20) body"

definition handleRawFutureSalts :: "env \<Rightarrow> bytes \<Rightarrow> session \<Rightarrow> bool \<times> session" where
  "handleRawFutureSalts e body s =
     (if length body < 24 then (False, s)
      else if u32_at body 16 \<noteq> VectorTypeID then (False, s)
      else
        let count = unat (u32_at body 20)
        in if count = 0 then (True, s)
           else
             let expected = 24 + count * 20;
                 count' = (if length body < expected then (length body - 24) div 20 else count)
             in if length body < expected \<and> count' = 0 then (False, s)
                else let entries = raw_salt_entries count' 24 body
                     in (True, if entries \<noteq> []
                               then s\<lparr>ss_saltMgr := StoreFromFutureSalts (salt_now e s) entries (ss_saltMgr s)\<rparr>
                               else s))"

text \<open>The status byte reported for one of our own messages.\<close>

definition own_state :: "session \<Rightarrow> i64 \<Rightarrow> u8" where
  "own_state s m = (if Pending_Has m (ss_pending s) then 0x84 else 0x01)"

definition handleRawMsgsStateReq :: "env \<Rightarrow> i64 \<Rightarrow> bytes \<Rightarrow> session \<Rightarrow> session" where
  "handleRawMsgsStateReq e msgID body s =
     (if length body < 8 then s
      else case fst (ReadVectorLong (NewReader body)) of
        Inl _ \<Rightarrow> s
      | Inr msgIDs \<Rightarrow>
          if msgIDs = [] then s
          else snd (sendServiceMessage e (encode_state_info msgID (map (own_state s) msgIDs)) s))"

text \<open>One id of a msg_resend_req; \<open>True\<close>: it was sent again.\<close>

definition resend_one :: "env \<Rightarrow> i64 \<Rightarrow> session \<Rightarrow> bool \<times> session" where
  "resend_one e m s =
     (case GetPayload m (ss_pending s) of
        Some payload \<Rightarrow> (True, snd (writeEncryptedImpl e payload s))
      | None \<Rightarrow>
          (case GetResendMessage m (ss_pending s) of
             None \<Rightarrow> (False, s)
           | Some (seqNo, bodyRaw) \<Rightarrow>
               let (salt, sm) = Salt_Load (salt_now e s) (ss_saltMgr s);
                   s1 = s\<lparr>ss_saltMgr := sm\<rparr>
               in case env_pack e m seqNo bodyRaw salt of
                    None \<Rightarrow> (False, s1)
                  | Some payload \<Rightarrow>
                      let (err, s2) = writeEncryptedImpl e payload s1 in (err = None, s2)))"

primrec resend_loop :: "env \<Rightarrow> i64 list \<Rightarrow> session \<Rightarrow> i64 list \<times> session" where
  "resend_loop e [] s = ([], s)"
| "resend_loop e (m # ms) s =
     (let (ok, s1) = resend_one e m s
      in if ok then resend_loop e ms s1
         else let s2 = on_tracker (NackContainer m) s1;
                  (unknown, s3) = resend_loop e ms s2
              in (m # unknown, s3))"

definition handleRawMsgResendReq :: "env \<Rightarrow> i64 \<Rightarrow> bytes \<Rightarrow> session \<Rightarrow> session" where
  "handleRawMsgResendReq e reqMsgID body s =
     (if length body < 8 then s
      else case fst (ReadVectorLong (NewReader body)) of
        Inl _ \<Rightarrow> s
      | Inr msgIDs \<Rightarrow>
          let (unknown, s1) = resend_loop e msgIDs s
          in if unknown = [] then s1
             else snd (sendServiceMessage e (encode_state_info reqMsgID (map (own_state s1) unknown)) s1))"

section \<open>Decoded packets\<close>

text \<open>The type switch of handlePacket on a decoded object. The fields of a generated value are read off
  its encoding, as the schema and \<^verbatim>\<open>src/tg/core_types_gen.go\<close> lay them out.\<close>

datatype packet_view =
    VPong i64 i64
  | VBadMsg i64 u32 u32
  | VBadSalt i64 u32 u32 i64
  | VNewSession i64 i64 i64
  | VFutureSalts "future_salt list"
  | VMsgsAck "i64 list"
  | VRPCResult i64 tl_object
  | VUpdates
  | VOther

primrec future_salt_fields :: "nat \<Rightarrow> nat \<Rightarrow> bytes \<Rightarrow> future_salt list" where
  "future_salt_fields 0 offset p = []"
| "future_salt_fields (Suc n) offset p =
     \<lparr>fs_ValidSince = u32_at p offset, fs_ValidUntil = u32_at p (offset + 4), fs_Salt = u64_at p (offset + 8)\<rparr>
     # future_salt_fields n (offset + 16) p"

definition packet_view :: "env \<Rightarrow> tl_object \<Rightarrow> packet_view" where
  "packet_view e obj =
     (case obj of
        Generated c p \<Rightarrow>
          if c = PongTypeID then VPong (u64_at p 0) (u64_at p 8)
          else if c = BadMsgNotificationTypeID then VBadMsg (u64_at p 0) (u32_at p 8) (u32_at p 12)
          else if c = BadServerSaltTypeID then VBadSalt (u64_at p 0) (u32_at p 8) (u32_at p 12) (u64_at p 16)
          else if c = NewSessionCreatedTypeID then VNewSession (u64_at p 0) (u64_at p 8) (u64_at p 16)
          else if c = FutureSaltsTypeID then VFutureSalts (future_salt_fields (unat (u32_at p 12)) 16 p)
          else if c = MsgsAckTypeID
          then (case fst (ReadVectorLong (NewReader p)) of Inl _ \<Rightarrow> VOther | Inr ids \<Rightarrow> VMsgsAck ids)
          else if c = RPCResultTypeID
          then (case read_object e (drop 8 p) of Inl _ \<Rightarrow> VOther | Inr r \<Rightarrow> VRPCResult (u64_at p 0) r)
          else if env_isUpdates e c then VUpdates
          else VOther
      | _ \<Rightarrow> VOther)"

definition storeFutureSalts :: "env \<Rightarrow> future_salt list \<Rightarrow> session \<Rightarrow> session" where
  "storeFutureSalts e fs s =
     (if fs = [] then s
      else s\<lparr>ss_saltMgr := StoreFromFutureSalts (salt_now e s) (saltEntriesFromFuture fs) (ss_saltMgr s)\<rparr>)"

definition handle_decoded :: "env \<Rightarrow> i64 \<Rightarrow> tl_object \<Rightarrow> session \<Rightarrow> session" where
  "handle_decoded e msgID obj s =
     (case packet_view e obj of
        VPong m ping \<Rightarrow> on_pending (Resolve m (ResultPong m ping)) (handlePong ping s)
      | VBadMsg m sq code \<Rightarrow> on_pending (Resolve m (ResultBadMsg m sq code)) s
      | VBadSalt m sq code salt \<Rightarrow>
          on_pending (Resolve m (ResultBadSalt m sq code salt)) (store_simple_salt e salt s)
      | VNewSession first uniq salt \<Rightarrow> fireNewSession first uniq salt (store_simple_salt e salt s)
      | VFutureSalts fs \<Rightarrow> storeFutureSalts e fs s
      | VMsgsAck ids \<Rightarrow>
          fold (\<lambda>m s. on_tracker (AckChild m) (on_tracker (AckContainer m) s)) ids s
      | VRPCResult req result \<Rightarrow>
          if is_gzip result
          then (case gzip_decode e result of
                  Inl _ \<Rightarrow> s
                | Inr r \<Rightarrow> on_pending (Resolve req (ResultObject r)) s)
          else on_pending (Resolve req (ResultObject result)) s
      | VUpdates \<Rightarrow> dispatchUpdate obj s
      | VOther \<Rightarrow>
          if Pending_Has msgID (ss_pending s) then on_pending (Resolve msgID (ResultObject obj)) s
          else dispatchUpdate obj s)"

definition handlePacket :: "env \<Rightarrow> i64 \<Rightarrow> u32 \<Rightarrow> tl_object \<Rightarrow> session \<Rightarrow> session" where
  "handlePacket e msgID seqNo body s =
     (if is_gzip body
      then (case gzip_decode e body of Inl _ \<Rightarrow> s | Inr obj \<Rightarrow> handle_decoded e msgID obj s)
      else handle_decoded e msgID body s)"

definition processIncoming :: "env \<Rightarrow> mtproto_message \<Rightarrow> session \<Rightarrow> session" where
  "processIncoming e msg s =
     (case msg of
        MTProtoMessage msgID seqNo body \<Rightarrow>
          (case body of
             TLNil \<Rightarrow> s
           | MsgContainer msgs \<Rightarrow>
               fold (\<lambda>sub s. if Body sub \<noteq> TLNil then handlePacket e (MsgID sub) (SeqNo sub) (Body sub) s else s)
                 msgs s
           | _ \<Rightarrow> handlePacket e msgID seqNo body s))"

definition dispatchRaw :: "env \<Rightarrow> mtproto_message_raw \<Rightarrow> session \<Rightarrow> session" where
  "dispatchRaw e raw s =
     (case read_object e (raw_BodyRaw raw) of
        Inl _ \<Rightarrow> s
      | Inr body \<Rightarrow> processIncoming e (MTProtoMessage (raw_MsgID raw) (raw_SeqNo raw) body) s)"

definition decodeRawPacketIfNeeded :: "env \<Rightarrow> i64 \<Rightarrow> u32 \<Rightarrow> bytes \<Rightarrow> session \<Rightarrow> bool \<times> session" where
  "decodeRawPacketIfNeeded e msgID seqNo body s =
     (if \<not> hasDecodedResults s \<and> \<not> ss_onUpdate s then (False, s)
      else case read_object e body of
        Inl _ \<Rightarrow> (False, s)
      | Inr obj \<Rightarrow> (True, processIncoming e (MTProtoMessage msgID seqNo obj) s))"

section \<open>The dispatcher\<close>

text \<open>handleRawPacket calls itself through gzip_packed and msg_container. \<open>rec\<close> is the recursive call;
  \<open>None\<close> is a call that has not returned within the depth given to it.\<close>

type_synonym raw_handler = "i64 \<Rightarrow> bytes \<Rightarrow> session \<Rightarrow> (bool \<times> session) option"

definition handleRawGzipPacked :: "raw_handler \<Rightarrow> env \<Rightarrow> bytes \<Rightarrow> session \<Rightarrow> (bool \<times> session) option" where
  "handleRawGzipPacked rec e body s =
     (case fst (DecodeGzipPacked (env_gun e) (NewReader body)) of
        Inr (GzipPacked (GzipPackedData raw)) \<Rightarrow> rec 0 raw s
      | _ \<Rightarrow> Some (False, s))"

text \<open>The loop over the messages; the bytes argument is what is left of the body.\<close>

primrec container_loop ::
  "raw_handler \<Rightarrow> env \<Rightarrow> nat \<Rightarrow> bytes \<Rightarrow> bool \<Rightarrow> session \<Rightarrow> (bool \<times> session) option" where
  "container_loop rec e 0 body allHandled s = Some (allHandled, s)"
| "container_loop rec e (Suc n) body allHandled s =
     (if length body < 16 then Some (False, s)
      else
        let msgID = u64_at body 0;
            seqNo = u32_at body 8;
            len = unat (u32_at body 12);
            rest = drop 16 body
        in if length rest < len then Some (False, s)
           else
             let (valid, v) = Check (server_now e s) msgID (ss_validator s);
                 s1 = s\<lparr>ss_validator := v\<rparr>
             in if \<not> valid then container_loop rec e n (drop len rest) allHandled s1
                else
                  let s2 = (if requiresAck seqNo then addAck msgID s1 else s1)
                  in case rec msgID (take len rest) s2 of
                       None \<Rightarrow> None
                     | Some (True, s3) \<Rightarrow> container_loop rec e n (drop len rest) allHandled s3
                     | Some (False, s3) \<Rightarrow>
                         let (decoded, s4) = decodeRawPacketIfNeeded e msgID seqNo (take len rest) s3
                         in container_loop rec e n (drop len rest) (allHandled \<and> decoded) s4)"

definition handleRawContainer :: "raw_handler \<Rightarrow> env \<Rightarrow> bytes \<Rightarrow> session \<Rightarrow> (bool \<times> session) option" where
  "handleRawContainer rec e body s =
     (if length body < 4 then Some (False, s)
      else let count = u32_at body 0
           in if count > 1024 then Some (False, s)
              else container_loop rec e (unat count) (drop 4 body) True s)"

definition bad_msg_of :: "bytes \<Rightarrow> rpc_value" where
  "bad_msg_of body = ResultBadMsg (u64_at body 4) (u32_at body 12) (u32_at body 16)"

definition handle_bad_msg :: "env \<Rightarrow> i64 \<Rightarrow> bytes \<Rightarrow> session \<Rightarrow> session" where
  "handle_bad_msg e msgID body s =
     (let badMsgID = u64_at body 4;
          errorCode = u32_at body 16
      in if errorCode = 16 \<or> errorCode = 17
         then let s1 = s\<lparr>ss_msgFactory :=
                Factory_UpdateServerTime (signed_drop_bit 32 msgID) (env_now e) (ss_msgFactory s)\<rparr>
              in on_pending (Resolve badMsgID (bad_msg_of body)) s1
         else if errorCode = 20 then s
         else if errorCode = 64
         then let (childIDs, t) = NackContainer badMsgID (ss_tracker s)
              in fold (\<lambda>c. on_pending (Reject c (InvalidContainer badMsgID))) childIDs (s\<lparr>ss_tracker := t\<rparr>)
         else on_pending (Resolve badMsgID (bad_msg_of body)) s)"

text \<open>The cases that do not recurse.\<close>

definition handle_raw_simple :: "env \<Rightarrow> i64 \<Rightarrow> bytes \<Rightarrow> session \<Rightarrow> bool \<times> session" where
  "handle_raw_simple e msgID body s =
     (let cid = u32_at body 0
      in if cid = RPCResultTypeID then (True, handleRawRPCResult e body s)
         else if cid = PongTypeID
         then if length body < 20 then (False, s)
              else let pingID = u64_at body 12; m = u64_at body 4
                   in (True, on_pending (Resolve m (ResultPong m pingID)) (handlePong pingID s))
         else if cid = BadMsgNotificationTypeID
         then if length body < 20 then (False, s) else (True, handle_bad_msg e msgID body s)
         else if cid = BadServerSaltTypeID
         then if length body < 28 then (False, s)
              else let m = u64_at body 4; newSalt = u64_at body 20
                   in (True, on_pending (Resolve m (ResultBadSalt m (u32_at body 12) (u32_at body 16) newSalt))
                        (store_simple_salt e newSalt s))
         else if cid = NewSessionCreatedTypeID
         then if length body < 28 then (False, s)
              else let serverSalt = u64_at body 20
                   in (True, fireNewSession (u64_at body 4) (u64_at body 12) serverSalt
                        (store_simple_salt e serverSalt s))
         else if cid = FutureSaltsTypeID then handleRawFutureSalts e body s
         else if cid = MsgsAckTypeID then (True, handleRawMsgsAck (drop 4 body) s)
         else if cid = MsgDetailedInfoTypeID
         then (True, if length body \<ge> 20 then addAck (u64_at body 12) s else s)
         else if cid = MsgNewDetailedInfoTypeID
         then (True, if length body \<ge> 12 then addAck (u64_at body 4) s else s)
         else if cid = MsgsStateReqTypeID then (True, handleRawMsgsStateReq e msgID (drop 4 body) s)
         else if cid = MsgsStateInfoTypeID then (True, handleRawMsgsStateInfo (drop 4 body) s)
         else if cid = MsgResendReqTypeID then (True, handleRawMsgResendReq e msgID (drop 4 body) s)
         else if cid = MsgsAllInfoTypeID then (True, handleRawMsgsAllInfo (drop 4 body) s)
         else (False, s))"

primrec handleRawPacket :: "nat \<Rightarrow> env \<Rightarrow> raw_handler" where
  "handleRawPacket 0 e msgID body s = None"
| "handleRawPacket (Suc n) e msgID body s =
     (if length body < 4 then Some (False, s)
      else if u32_at body 0 = GzipPackedID
      then handleRawGzipPacked (handleRawPacket n e) e (drop 4 body) s
      else if u32_at body 0 = MsgContainerID
      then handleRawContainer (handleRawPacket n e) e (drop 4 body) s
      else Some (handle_raw_simple e msgID body s))"

section \<open>Frames and shutdown\<close>

datatype loop_result = LoopContinue | LoopStop session_error

text \<open>unpackIncomingMessageEnvelope wraps the error of UnpackEnvelope.\<close>

definition unpackIncomingMessageEnvelope :: "env \<Rightarrow> bytes \<Rightarrow> session_error + mtproto_message_raw" where
  "unpackIncomingMessageEnvelope e data =
     (case env_unpack e data of Inl err \<Rightarrow> Inl (Wrapped err) | Inr raw \<Rightarrow> Inr raw)"

text \<open>One turn of readLoop with a frame received; the decoding of an unhandled packet is done in line.\<close>

definition readLoop_frame :: "nat \<Rightarrow> env \<Rightarrow> bytes \<Rightarrow> session \<Rightarrow> (loop_result \<times> session) option" where
  "readLoop_frame n e data s =
     (case DetectTransportError data of
        Some code \<Rightarrow>
          Some (LoopStop (TransportError code),
                s\<lparr>ss_pending := RejectAll (TransportError code) (ss_pending s)\<rparr>)
      | None \<Rightarrow>
          if IsQuickAckToken data then Some (LoopContinue, s)
          else case unpackIncomingMessageEnvelope e data of
            Inl err \<Rightarrow>
              Some (if err = SecurityCheckMismatch then LoopStop err else LoopContinue, s)
          | Inr raw \<Rightarrow>
              let ((ok, _), v) = CheckWithReason (server_now e s) (raw_MsgID raw) (ss_validator s);
                  s1 = s\<lparr>ss_validator := v\<rparr>
              in if \<not> ok then Some (LoopContinue, s1)
                 else
                   let s2 = s1\<lparr>ss_msgFactory :=
                         AdvanceServerTime (signed_drop_bit 32 (raw_MsgID raw)) (env_now e) (ss_msgFactory s1)\<rparr>;
                       s3 = (if requiresAck (raw_SeqNo raw) then addAck (raw_MsgID raw) s2 else s2)
                   in case handleRawPacket n e (raw_MsgID raw) (raw_BodyRaw raw) s3 of
                        None \<Rightarrow> None
                      | Some (rawHandled, s4) \<Rightarrow>
                          Some (LoopContinue,
                            if rawHandled \<or> (\<not> hasDecodedResults s4 \<and> \<not> ss_onUpdate s) then s4
                            else dispatchRaw e raw s4))"

definition handleClose :: "session \<Rightarrow> session" where
  "handleClose s =
     s\<lparr>ss_stopping := True,
       ss_state := snd (transitionTo StateDraining (ss_state s)),
       ss_pending := RejectAll (Sentinel ErrSessionClosed) (ss_pending s),
       ss_tracker := Tracker_Cleanup (ss_tracker s),
       ss_done := True\<rparr>"

section \<open>Every step is safe\<close>

text \<open>The invariants of the components a packet can touch.\<close>

definition sess_inv :: "session \<Rightarrow> bool" where
  "sess_inv s \<longleftrightarrow> pm_inv (ss_pending s) \<and> tracker_inv (ss_tracker s) \<and> validator_inv (ss_validator s)"

text \<open>A step that keeps them, never changes the outcome of a completed call, and registers nothing.\<close>

definition safe_step :: "session \<Rightarrow> session \<Rightarrow> bool" where
  "safe_step s s' \<longleftrightarrow>
     (sess_inv s \<longrightarrow> sess_inv s') \<and>
     keeps_done (pm_heap (ss_pending s)) (pm_heap (ss_pending s')) \<and>
     length (pm_heap (ss_pending s')) = length (pm_heap (ss_pending s))"

named_theorems safe_intros \<open>safe steps of a session\<close>

lemma safe_refl [simp, safe_intros]: "safe_step s s"
  by (simp add: safe_step_def)

lemma safe_trans: "safe_step s s' \<Longrightarrow> safe_step s' s'' \<Longrightarrow> safe_step s s''"
  by (auto simp: safe_step_def intro: keeps_done_trans)

text \<open>A step that leaves the three components alone.\<close>

lemma safe_other:
  "ss_pending s' = ss_pending s \<Longrightarrow> ss_tracker s' = ss_tracker s \<Longrightarrow> ss_validator s' = ss_validator s
    \<Longrightarrow> safe_step s s'"
  by (simp add: safe_step_def sess_inv_def)

lemma pm_finish_heap_length [simp]: "length (pm_heap (snd (pm_finish fn m pm))) = length (pm_heap pm)"
  by (simp add: pm_finish_def pm_remove_def case_prod_beta Let_def split: option.split)

lemma safe_finish:
  assumes "\<And>h. ch_isRaw (fn h) = ch_isRaw h"
  shows "safe_step s (on_pending (pm_finish fn m) s)"
  using assms by (simp add: safe_step_def sess_inv_def on_pending_def keeps_done_finish pm_inv_finish)

lemma safe_Resolve [safe_intros]: "safe_step s (on_pending (Resolve m v) s)"
  unfolding Resolve_def by (rule safe_finish) simp

lemma safe_Reject [safe_intros]: "safe_step s (on_pending (Reject m v) s)"
  unfolding Reject_def by (rule safe_finish) simp

lemma MarkAcked_heap:
  "keeps_done (pm_heap pm) (pm_heap (MarkAcked m pm)) \<and> length (pm_heap (MarkAcked m pm)) = length (pm_heap pm)"
  using keeps_done_exec [of pm "OpMarkAcked m"] by (simp add: MarkAcked_def pm_update_def split: option.split)

lemma safe_MarkAcked [safe_intros]: "safe_step s (s\<lparr>ss_pending := MarkAcked m (ss_pending s)\<rparr>)"
  using MarkAcked_heap [of "ss_pending s" m] by (simp add: safe_step_def sess_inv_def pm_inv_MarkAcked)

lemma safe_RPCResult [safe_intros]: "safe_step s (s\<lparr>ss_pending := snd (ResolveRPCResult m d (ss_pending s))\<rparr>)"
proof -
  have "length (pm_heap (snd (ResolveRPCResult m d pm))) = length (pm_heap pm)" for pm
    by (simp add: ResolveRPCResult_def case_prod_beta Let_def split: option.split)
  then show ?thesis
    by (simp add: safe_step_def sess_inv_def pm_inv_RPCResult keeps_done_RPCResult)
qed

lemma safe_RejectAll [safe_intros]: "safe_step s (s\<lparr>ss_pending := RejectAll x (ss_pending s)\<rparr>)"
  using keeps_done_exec [of "ss_pending s" "OpRejectAll x"]
  by (simp add: safe_step_def sess_inv_def pm_inv_RejectAll) (simp add: RejectAll_def Let_def)

lemma safe_tracker:
  "(tracker_inv (ss_tracker s) \<Longrightarrow> tracker_inv (snd (f (ss_tracker s)))) \<Longrightarrow> safe_step s (on_tracker f s)"
  by (simp add: safe_step_def sess_inv_def on_tracker_def)

lemma safe_trackers [safe_intros]:
  "safe_step s (on_tracker (AckChild m) s)"
  "safe_step s (on_tracker (AckContainer m) s)"
  "safe_step s (on_tracker (NackContainer m) s)"
  by (auto intro: safe_tracker inv_intros)

lemma safe_Check [safe_intros]: "safe_step s (s\<lparr>ss_validator := snd (Check now m (ss_validator s))\<rparr>)"
  by (simp add: safe_step_def sess_inv_def validator_inv_Check)

lemma safe_CheckWithReason: "safe_step s (s\<lparr>ss_validator := snd (CheckWithReason now m (ss_validator s))\<rparr>)"
  using safe_Check [of s now m] by (simp add: Check_def case_prod_beta)

lemma safe_others [safe_intros]:
  "safe_step s (addAck m s)"
  "safe_step s (handlePong m s)"
  "safe_step s (fireNewSession a b c s)"
  "safe_step s (dispatchUpdate obj s)"
  "safe_step s (store_simple_salt e salt s)"
  "safe_step s (storeFutureSalts e fs s)"
  "safe_step s (s\<lparr>ss_saltMgr := sm\<rparr>)"
  "safe_step s (s\<lparr>ss_msgFactory := f\<rparr>)"
  "safe_step s (s\<lparr>ss_stateReqs := rs\<rparr>)"
  by (auto simp: addAck_def handlePong_def fireNewSession_def dispatchUpdate_def store_simple_salt_def
      storeFutureSalts_def intro: safe_other)

lemma safe_fold [safe_intros]:
  assumes "\<And>x s. safe_step s (f x s)"
  shows "safe_step s (fold f xs s)"
  by (induction xs arbitrary: s) (auto intro: safe_trans assms)

text \<open>Composition in the shape the handlers have.\<close>

lemma safe_comp: "(\<And>s. safe_step s (f s)) \<Longrightarrow> safe_step s s' \<Longrightarrow> safe_step s (f s')"
  by (blast intro: safe_trans)

lemma safe_write [safe_intros]: "safe_step s (snd (writeEncryptedImpl e frame s))"
  by (auto simp: writeEncryptedImpl_def case_prod_beta Let_def split: option.split intro!: safe_other)

lemma safe_service [safe_intros]: "safe_step s (snd (sendServiceMessage e body s))"
proof -
  have build: "safe_step s (snd (buildServiceMessage e body s))"
    by (simp add: buildServiceMessage_def case_prod_beta Let_def safe_other)
  show ?thesis
    using safe_comp [OF safe_write build] build
    by (auto simp: sendServiceMessage_def case_prod_beta split: option.split prod.split)
qed

lemma safe_interpretStateByte [safe_intros]: "safe_step s (interpretStateByte m b s)"
  by (simp add: interpretStateByte_def Let_def safe_intros)

lemma safe_interpret_states [safe_intros]: "safe_step s (interpret_states ids info s)"
  unfolding interpret_states_def by (rule safe_fold) (simp add: case_prod_beta safe_intros)

lemma safe_handleStateInfo [safe_intros]: "safe_step s (handleStateInfo m info s)"
  by (auto simp: handleStateInfo_def split: option.split intro: safe_comp safe_intros)

lemma safe_ack_one [safe_intros]: "safe_step s (ack_one m s)"
  unfolding ack_one_def by (intro safe_comp [OF safe_trackers(1)] safe_comp [OF safe_trackers(2)] safe_MarkAcked)

lemma safe_resend_one [safe_intros]: "safe_step s (snd (resend_one e m s))"
proof (cases "GetPayload m (ss_pending s)")
  case None
  show ?thesis
  proof (cases "GetResendMessage m (ss_pending s)")
    case (Some sb)
    define s1 where "s1 = s\<lparr>ss_saltMgr := snd (Salt_Load (salt_now e s) (ss_saltMgr s))\<rparr>"
    have "safe_step s s1" by (simp add: s1_def safe_intros)
    then show ?thesis
      using None Some safe_comp [OF safe_write]
      by (auto simp: resend_one_def case_prod_beta Let_def split: option.split simp flip: s1_def)
  qed (simp add: resend_one_def None)
qed (simp add: resend_one_def safe_intros)

lemma safe_resend_loop [safe_intros]: "safe_step s (snd (resend_loop e ms s))"
proof (induction ms arbitrary: s)
  case (Cons m ms)
  define s1 where "s1 = snd (resend_one e m s)"
  have s1: "safe_step s s1" by (simp add: s1_def safe_intros)
  have "safe_step s (on_tracker (NackContainer m) s1)" by (rule safe_comp [OF safe_trackers(3) s1])
  then show ?case
    using safe_comp [OF Cons.IH] s1
    by (simp add: case_prod_beta Let_def flip: s1_def)
qed simp

lemma safe_handleRawRPCResult [safe_intros]: "safe_step s (handleRawRPCResult e body s)"
proof -
  define s1 where "s1 = s\<lparr>ss_pending := snd (ResolveRPCResult (u64_at body 4) (drop 12 body) (ss_pending s))\<rparr>"
  have "safe_step s s1" by (simp add: s1_def safe_intros)
  then show ?thesis
    using safe_comp [OF safe_Resolve] safe_comp [OF safe_Reject]
    by (auto simp: handleRawRPCResult_def case_prod_beta Let_def split: sum.split simp flip: s1_def)
qed

lemma safe_handleRawFutureSalts [safe_intros]: "safe_step s (snd (handleRawFutureSalts e body s))"
  by (simp add: handleRawFutureSalts_def Let_def safe_intros)

lemma safe_handle_bad_msg [safe_intros]: "safe_step s (handle_bad_msg e m body s)"
proof -
  have "safe_step s (s\<lparr>ss_tracker := snd (NackContainer k (ss_tracker s))\<rparr>)" for k
    using safe_trackers(3) [of s k] by (simp add: on_tracker_def)
  then have "safe_step s (fold (\<lambda>c. on_pending (Reject c x)) cs (s\<lparr>ss_tracker := snd (NackContainer k (ss_tracker s))\<rparr>))"
    for k x cs
    by (rule safe_comp [rotated]) (intro safe_fold safe_Reject)
  moreover have "safe_step s (on_pending (Resolve k v) (s\<lparr>ss_msgFactory := f\<rparr>))" for k v f
    by (intro safe_comp [OF safe_Resolve] safe_intros)
  ultimately show ?thesis
    by (simp add: handle_bad_msg_def case_prod_beta Let_def safe_Resolve)
qed

lemma safe_raw_services [safe_intros]:
  "safe_step s (handleRawMsgsAck body s)"
  "safe_step s (handleRawMsgsAllInfo body s)"
  "safe_step s (handleRawMsgsStateInfo body s)"
  "safe_step s (handleRawMsgsStateReq e m body s)"
  by (auto simp: handleRawMsgsAck_def handleRawMsgsAllInfo_def handleRawMsgsStateInfo_def
      handleRawMsgsStateReq_def split: sum.split prod.split intro: safe_intros)

lemma safe_handleRawMsgResendReq [safe_intros]: "safe_step s (handleRawMsgResendReq e m body s)"
  by (auto simp: handleRawMsgResendReq_def case_prod_beta Let_def split: sum.split
      intro: safe_intros safe_comp [OF safe_service safe_resend_loop])

lemma safe_handle_raw_simple [safe_intros]: "safe_step s (snd (handle_raw_simple e m body s))"
proof -
  have "safe_step s (on_pending (Resolve k v) (handlePong x s))"
    and "safe_step s (on_pending (Resolve k v) (store_simple_salt e x s))"
    and "safe_step s (fireNewSession a b c (store_simple_salt e x s))" for k v x a b c
    by (intro safe_comp [OF safe_Resolve] safe_comp [OF safe_others(3)] safe_intros)+
  then show ?thesis
    by (simp add: handle_raw_simple_def Let_def safe_intros)
qed

lemma safe_handle_decoded [safe_intros]: "safe_step s (handle_decoded e m obj s)"
proof -
  have "safe_step s (on_pending (Resolve k v) (handlePong x s))"
    and "safe_step s (on_pending (Resolve k v) (store_simple_salt e x s))"
    and "safe_step s (fireNewSession a b c (store_simple_salt e x s))" for k v x a b c
    by (intro safe_comp [OF safe_Resolve] safe_comp [OF safe_others(3)] safe_intros)+
  moreover have "safe_step s (fold (\<lambda>m s. on_tracker (AckChild m) (on_tracker (AckContainer m) s)) ids s)" for ids
    by (intro safe_fold safe_comp [OF safe_trackers(1)] safe_trackers(2))
  ultimately show ?thesis
    by (auto simp: handle_decoded_def safe_intros split: packet_view.split sum.split)
qed

lemma safe_handlePacket [safe_intros]: "safe_step s (handlePacket e m sq body s)"
  by (auto simp: handlePacket_def safe_intros split: sum.split)

lemma safe_processIncoming [safe_intros]: "safe_step s (processIncoming e msg s)"
proof -
  have "safe_step s (fold (\<lambda>sub s. if Body sub \<noteq> TLNil then handlePacket e (MsgID sub) (SeqNo sub) (Body sub) s else s)
      msgs s)" for msgs
    by (rule safe_fold) (simp add: safe_intros)
  then show ?thesis
    by (auto simp: processIncoming_def safe_intros split: mtproto_message.split tl_object.split)
qed

lemma safe_dispatch [safe_intros]:
  "safe_step s (dispatchRaw e raw s)"
  "safe_step s (snd (decodeRawPacketIfNeeded e m sq body s))"
  by (auto simp: dispatchRaw_def decodeRawPacketIfNeeded_def safe_intros split: sum.split)

text \<open>A raw handler is safe when its results are.\<close>

definition safe_handler :: "raw_handler \<Rightarrow> bool" where
  "safe_handler h \<longleftrightarrow> (\<forall>m body s b s'. h m body s = Some (b, s') \<longrightarrow> safe_step s s')"

lemma safe_container_loop:
  assumes h: "safe_handler h"
  shows "container_loop h e n body all s = Some (b, s') \<Longrightarrow> safe_step s s'"
proof (induction n arbitrary: body all s)
  case (Suc n)
  define len where "len = unat (u32_at body 12)"
  define rest where "rest = drop 16 body"
  define s1 where "s1 = s\<lparr>ss_validator := snd (Check (server_now e s) (u64_at body 0) (ss_validator s))\<rparr>"
  define s2 where "s2 = (if requiresAck (u32_at body 8) then addAck (u64_at body 0) s1 else s1)"
  have s1: "safe_step s s1" by (simp add: s1_def safe_intros)
  then have s2: "safe_step s s2" using safe_trans [OF s1 safe_others(1)] s1 by (simp add: s2_def)
  note unfolded = Suc.prems [unfolded container_loop.simps Let_def case_prod_beta,
      folded len_def rest_def s1_def s2_def]
  consider "s' = s"
    | "container_loop h e n (drop len rest) all s1 = Some (b, s')"
    | s3 where "h (u64_at body 0) (take len rest) s2 = Some (True, s3)"
        "container_loop h e n (drop len rest) all s3 = Some (b, s')"
    | s3 all' where "h (u64_at body 0) (take len rest) s2 = Some (False, s3)"
        "container_loop h e n (drop len rest) all'
          (snd (decodeRawPacketIfNeeded e (u64_at body 0) (u32_at body 8) (take len rest) s3)) = Some (b, s')"
    using unfolded by (auto split: if_splits option.splits bool.splits)
  then show ?case
  proof cases
    case 2
    then show ?thesis using Suc.IH s1 safe_trans by blast
  next
    case (3 s3)
    have "safe_step s s3" using 3(1) h safe_trans [OF s2] unfolding safe_handler_def by blast
    then show ?thesis using Suc.IH [OF 3(2)] by (rule safe_trans)
  next
    case (4 s3 all')
    have "safe_step s s3" using 4(1) h safe_trans [OF s2] unfolding safe_handler_def by blast
    then show ?thesis using Suc.IH [OF 4(2)] safe_dispatch(2) safe_trans by blast
  qed simp
qed simp

lemma safe_gzip: "safe_handler h \<Longrightarrow> handleRawGzipPacked h e body s = Some (b, s') \<Longrightarrow> safe_step s s'"
  by (auto simp: handleRawGzipPacked_def safe_handler_def split: sum.splits tl_object.splits)

lemma safe_container: "safe_handler h \<Longrightarrow> handleRawContainer h e body s = Some (b, s') \<Longrightarrow> safe_step s s'"
  by (auto simp: handleRawContainer_def Let_def safe_container_loop split: if_splits)

lemma safe_handleRawPacket: "safe_handler (handleRawPacket n e)"
proof (induction n)
  case (Suc n)
  have "safe_step s s'" if "handleRawPacket (Suc n) e m body s = Some (b, s')" for m body s b s'
    using that safe_gzip [OF Suc.IH] safe_container [OF Suc.IH] safe_handle_raw_simple [of s e m body]
    by (auto split: if_splits)
  then show ?case by (auto simp: safe_handler_def)
qed (simp add: safe_handler_def)

lemma safe_readLoop_frame:
  assumes "readLoop_frame n e data s = Some (r, s')"
  shows "safe_step s s'"
proof -
  have "safe_step s s'" if un: "unpackIncomingMessageEnvelope e data = Inr raw" and
    d: "DetectTransportError data = None" "\<not> IsQuickAckToken data" for raw
  proof -
    define s1 where "s1 = s\<lparr>ss_validator := snd (CheckWithReason (server_now e s) (raw_MsgID raw) (ss_validator s))\<rparr>"
    define s2 where "s2 = s1\<lparr>ss_msgFactory :=
        AdvanceServerTime (signed_drop_bit 32 (raw_MsgID raw)) (env_now e) (ss_msgFactory s1)\<rparr>"
    define s3 where "s3 = (if requiresAck (raw_SeqNo raw) then addAck (raw_MsgID raw) s2 else s2)"
    have s1: "safe_step s s1" by (simp add: s1_def safe_CheckWithReason)
    have s2: "safe_step s s2" unfolding s2_def by (rule safe_comp [OF safe_others(8) s1])
    have s3: "safe_step s s3" using safe_trans [OF s2 safe_others(1)] s2 by (simp add: s3_def)
    note unfolded = assms [unfolded readLoop_frame_def Let_def case_prod_beta d un option.case sum.case,
        folded s1_def, folded s2_def, folded s3_def]
    then have "s' = s1 \<or> (\<exists>b s4. handleRawPacket n e (raw_MsgID raw) (raw_BodyRaw raw) s3 = Some (b, s4) \<and>
        (s' = s4 \<or> s' = dispatchRaw e raw s4))"
      using d by (auto split: if_splits option.splits)
    then show ?thesis
    proof (elim disjE exE conjE)
      fix b s4 assume "handleRawPacket n e (raw_MsgID raw) (raw_BodyRaw raw) s3 = Some (b, s4)"
      then have s4: "safe_step s s4"
        using safe_handleRawPacket [of n e] safe_trans [OF s3] unfolding safe_handler_def by blast
      show "s' = s4 \<Longrightarrow> safe_step s s'" and "s' = dispatchRaw e raw s4 \<Longrightarrow> safe_step s s'"
        using s4 safe_trans [OF s4 safe_dispatch(1)] by simp_all
    qed (use s1 in simp)
  qed
  then show ?thesis
    using assms safe_RejectAll
    by (cases "DetectTransportError data"; cases "IsQuickAckToken data";
        cases "unpackIncomingMessageEnvelope e data")
      (auto simp: readLoop_frame_def)
qed

section \<open>Runs of frames\<close>

text \<open>The frames readLoop takes in, each with the environment of its moment, until it stops.\<close>

primrec recv_frames :: "nat \<Rightarrow> (env \<times> bytes) list \<Rightarrow> session \<Rightarrow> session option" where
  "recv_frames n [] s = Some s"
| "recv_frames n (f # fs) s =
     (case readLoop_frame n (fst f) (snd f) s of
        None \<Rightarrow> None
      | Some (LoopStop _, s') \<Rightarrow> Some s'
      | Some (LoopContinue, s') \<Rightarrow> recv_frames n fs s')"

lemma safe_recv_frames: "recv_frames n fs s = Some s' \<Longrightarrow> safe_step s s'"
proof (induction fs arbitrary: s)
  case (Cons f fs)
  obtain r s1 where f: "readLoop_frame n (fst f) (snd f) s = Some (r, s1)"
    using Cons.prems by (auto split: option.splits)
  then have s1: "safe_step s s1" by (rule safe_readLoop_frame)
  show ?case
  proof (cases r)
    case LoopContinue
    then have "recv_frames n fs s1 = Some s'" using Cons.prems f by simp
    then show ?thesis by (rule safe_trans [OF s1 Cons.IH])
  next
    case (LoopStop x)
    then show ?thesis using Cons.prems f s1 by simp
  qed
qed simp

section \<open>Termination of the dispatcher\<close>

text \<open>The messages of a container body, at the offsets their lengths give.\<close>

primrec container_parts :: "nat \<Rightarrow> bytes \<Rightarrow> bytes list" where
  "container_parts 0 body = []"
| "container_parts (Suc n) body =
     (let len = unat (u32_at body 12); rest = drop 16 body
      in if length body < 16 \<or> length rest < len then []
         else take len rest # container_parts n (drop len rest))"

lemma container_loop_returns:
  assumes "\<And>part m s. part \<in> set (container_parts n body) \<Longrightarrow> h m part s \<noteq> None"
  shows "container_loop h e n body all s \<noteq> None"
  using assms
proof (induction n arbitrary: body all s)
  case (Suc n)
  define len where "len = unat (u32_at body 12)"
  define rest where "rest = drop 16 body"
  show ?case
  proof (cases "length body < 16 \<or> length rest < len")
    case True
    then show ?thesis by (auto simp: Let_def len_def rest_def)
  next
    case False
    then have parts: "container_parts (Suc n) body = take len rest # container_parts n (drop len rest)"
      by (simp add: Let_def len_def rest_def)
    have IH: "container_loop h e n (drop len rest) all s \<noteq> None" for all s
      using Suc.IH Suc.prems parts by auto
    define s1 where "s1 = s\<lparr>ss_validator := snd (Check (server_now e s) (u64_at body 0) (ss_validator s))\<rparr>"
    define s2 where "s2 = (if requiresAck (u32_at body 8) then addAck (u64_at body 0) s1 else s1)"
    have "h (u64_at body 0) (take len rest) s2 \<noteq> None"
      using Suc.prems parts by simp
    then obtain b s3 where "h (u64_at body 0) (take len rest) s2 = Some (b, s3)" by auto
    then show ?thesis
      unfolding container_loop.simps Let_def case_prod_beta
      unfolding len_def [symmetric] rest_def [symmetric] s1_def [symmetric] s2_def [symmetric]
      using False IH by (cases b) (simp_all del: not_None_eq)
  qed
qed simp

lemma container_parts_shorter: "part \<in> set (container_parts n body) \<Longrightarrow> length part < length body"
proof (induction n arbitrary: body)
  case (Suc n)
  then show ?case
    using Suc.IH by (fastforce simp: Let_def split: if_splits)
qed simp

lemma container_parts_infix:
  "part \<in> set (container_parts n body) \<Longrightarrow> \<exists>xs zs. body = xs @ part @ zs"
proof (induction n arbitrary: body)
  case (Suc n)
  define len where "len = unat (u32_at body 12)"
  define rest where "rest = drop 16 body"
  have body: "body = take 16 body @ take len rest @ drop len rest"
    unfolding rest_def by (metis append_take_drop_id)
  have "part = take len rest \<or> part \<in> set (container_parts n (drop len rest))"
    using Suc.prems by (auto simp: Let_def len_def rest_def split: if_splits)
  then show ?case
  proof
    assume "part \<in> set (container_parts n (drop len rest))"
    then obtain xs zs where "drop len rest = xs @ part @ zs" using Suc.IH by blast
    then have "body = (take 16 body @ take len rest @ xs) @ part @ zs" using body by simp
    then show ?thesis by blast
  qed (use body in blast)
qed simp

text \<open>A rank that drops when a gzip packet is unpacked and does not grow when a part of a packet is taken:
  it bounds how deeply gzip packets are nested.\<close>

definition gzip_rank :: "env \<Rightarrow> (bytes \<Rightarrow> nat) \<Rightarrow> bool" where
  "gzip_rank e rank \<longleftrightarrow>
     (\<forall>body raw. fst (DecodeGzipPacked (env_gun e) (NewReader (drop 4 body))) = Inr (GzipPacked (GzipPackedData raw))
        \<longrightarrow> rank raw < rank body) \<and>
     (\<forall>xs ys zs. rank ys \<le> rank (xs @ ys @ zs))"

lemma handleRawPacket_returns_aux:
  assumes "gzip_rank e rank"
  shows "\<exists>n. \<forall>k \<ge> n. \<forall>m s. handleRawPacket k e m body s \<noteq> None"
proof (induction body rule: wf_induct [where r = "inv_image (less_than <*lex*> less_than) (\<lambda>b. (rank b, length b))"])
  case 1
  then show ?case by (intro wf_inv_image wf_lex_prod wf_less_than)
next
  case (2 body)
  then have IH: "\<exists>n. \<forall>k \<ge> n. \<forall>m s. handleRawPacket k e m b s \<noteq> None"
    if "rank b < rank body \<or> (rank b \<le> rank body \<and> length b < length body)" for b
    using that by (auto simp: le_less)
  show ?case
  proof (cases "length body \<ge> 4 \<and> u32_at body 0 = GzipPackedID")
    case True
    show ?thesis
    proof (cases "\<exists>raw. fst (DecodeGzipPacked (env_gun e) (NewReader (drop 4 body))) = Inr (GzipPacked (GzipPackedData raw))")
      case True
      then obtain raw where raw: "fst (DecodeGzipPacked (env_gun e) (NewReader (drop 4 body))) =
          Inr (GzipPacked (GzipPackedData raw))" by blast
      then have "rank raw < rank body" using assms by (auto simp: gzip_rank_def)
      then obtain n where n: "\<forall>k \<ge> n. \<forall>m s. handleRawPacket k e m raw s \<noteq> None" using IH by blast
      have "handleRawPacket (Suc k) e m body s \<noteq> None" if "k \<ge> n" for k m s
        using n that raw \<open>length body \<ge> 4 \<and> u32_at body 0 = GzipPackedID\<close>
        by (auto simp: handleRawGzipPacked_def)
      then show ?thesis by (metis Suc_le_D Suc_le_mono)
    next
      case False
      have "handleRawPacket (Suc k) e m body s \<noteq> None" for k m s
        using False True by (auto simp: handleRawGzipPacked_def split: sum.split tl_object.split)
      then show ?thesis by (metis Suc_le_D)
    qed
  next
    case False
    define c where "c = unat (u32_at (drop 4 body) 0)"
    define parts where "parts = container_parts c (drop 8 body)"
    have "\<exists>n. \<forall>k \<ge> n. \<forall>m s. handleRawPacket k e m p s \<noteq> None" if p: "p \<in> set parts" for p
    proof (rule IH)
      obtain xs zs where "drop 8 body = xs @ p @ zs"
        using container_parts_infix p unfolding parts_def by blast
      then have "body = (take 8 body @ xs) @ p @ zs" by (metis append_assoc append_take_drop_id)
      then have "rank p \<le> rank body" using assms unfolding gzip_rank_def by metis
      moreover have "length p < length body"
        using container_parts_shorter [OF p [unfolded parts_def]] by simp
      ultimately show "rank p < rank body \<or> (rank p \<le> rank body \<and> length p < length body)" by blast
    qed
    then obtain N where N: "\<And>p. p \<in> set parts \<Longrightarrow> \<forall>k \<ge> N p. \<forall>m s. handleRawPacket k e m p s \<noteq> None" by metis
    define n where "n = Max (insert 0 (N ` set parts))"
    have "handleRawPacket (Suc k) e m body s \<noteq> None" if "k \<ge> n" for k m s
    proof -
      have "N p \<le> n" if "p \<in> set parts" for p
        unfolding n_def using that by (intro Max_ge) auto
      then have "handleRawPacket k e m p s \<noteq> None" if "p \<in> set parts" for p m s
        using N that \<open>k \<ge> n\<close> by (meson le_trans)
      then have "container_loop (handleRawPacket k e) e c (drop 8 body) True s \<noteq> None"
        unfolding parts_def by (rule container_loop_returns)
      then show ?thesis
        using False by (auto simp: handleRawContainer_def Let_def c_def)
    qed
    then show ?thesis by (metis Suc_le_D Suc_le_mono)
  qed
qed

section \<open>Reading fields off an encoding\<close>

lemma u32_at_0 [simp]: "u32_at (le_bytes 4 w @ r) 0 = w"
  by (simp add: u32_at_def)

lemma u32_at_skip: "k = length p \<Longrightarrow> u32_at (p @ le_bytes 4 w @ r) k = w"
  by (simp add: u32_at_def go_slice_def)

lemma u64_at_skip: "k = length p \<Longrightarrow> u64_at (p @ le_bytes 8 w @ r) k = w"
  by (simp add: u64_at_def go_slice_def)

text \<open>The RPC result a server sends for request \<open>req\<close>.\<close>

definition rpc_result_packet :: "i64 \<Rightarrow> bytes \<Rightarrow> bytes" where
  "rpc_result_packet req payload = le_bytes 4 RPCResultTypeID @ le_bytes 8 req @ payload"

lemma rpc_result_fields:
  "u32_at (rpc_result_packet req payload) 0 = RPCResultTypeID"
  "u64_at (rpc_result_packet req payload) 4 = req"
  "drop 12 (rpc_result_packet req payload) = payload"
  "length (rpc_result_packet req payload) = 12 + length payload"
  by (simp_all add: rpc_result_packet_def u64_at_skip)

section \<open>Properties\<close>


lemma sess_inv_New: "sess_inv (NewSession now)"
  by (simp add: sess_inv_def NewSession_def pm_inv_New tracker_inv_New validator_inv_new)

text \<open>An environment for the witnesses: no generated types, no gzip, every frame is one message with
  odd id 5 sent at time 1000.\<close>

definition plain_env :: "i64 \<Rightarrow> env" where
  "plain_env now =
     \<lparr>env_reg = (\<lambda>_. None), env_gun = (\<lambda>_. None), env_isUpdates = (\<lambda>_. False), env_now = now,
      env_pack = (\<lambda>_ _ body _. Some body), env_write = (\<lambda>_. True),
      env_unpack = (\<lambda>data. Inr \<lparr>raw_MsgID = push_bit 32 1000 + 5, raw_SeqNo = 1, raw_BodyRaw = data\<rparr>)\<rparr>"

text \<open>A session waiting for the raw result of message 4.\<close>

definition waiting_session :: session where
  "waiting_session =
     (NewSession 1000)\<lparr>ss_pending := snd (Register 0 4 True NewPendingManager)\<rparr>"

lemma waiting_session_inv: "sess_inv waiting_session"
proof -
  have "\<not> Pending_Has 4 NewPendingManager" by code_simp
  then have "pm_inv (snd (Register 0 4 True NewPendingManager))" by (rule pm_inv_Register [OF pm_inv_New])
  then show ?thesis
    using sess_inv_New [of 1000] by (simp add: waiting_session_def sess_inv_def)
qed





lemma no_gzip_rank: "env_gun e = (\<lambda>_. None) \<Longrightarrow> gzip_rank e length"
  by (auto simp: gzip_rank_def DecodeGzipPacked_def gzipDecompress_def rd_bind_def rd_fail_def
      split: sum.splits prod.splits)


text \<open>A defect: the recursion through gzip_packed has no depth limit. A packet that
  decompresses to itself is never finished: no recursion depth is enough.\<close>

theorem gzip_quine_never_returns:
  assumes "length body \<ge> 4" and "u32_at body 0 = GzipPackedID"
    and "fst (DecodeGzipPacked (env_gun e) (NewReader (drop 4 body))) = Inr (GzipPacked (GzipPackedData body))"
  shows "handleRawPacket n e m body s = None"
  using assms by (induction n arbitrary: m) (simp_all add: handleRawGzipPacked_def)

text \<open>A decompressor that returns a fixed packet for one input.\<close>

definition quine_packet :: bytes where
  "quine_packet = le_bytes 4 GzipPackedID @ [1, 9, 0, 0]"

lemma DecodeGzipPacked_small:
  assumes "fst (ReadString r) = Inr z" and "gun z = Some (out, True)" and "length out \<le> maxUncompressed"
  shows "fst (DecodeGzipPacked gun r) = Inr (GzipPacked (GzipPackedData out))"
  using assms
  by (cases "ReadString r") (simp add: DecodeGzipPacked_def gzipDecompress_def rd_bind_def rd_return_def)

lemma quine_packet_fields:
  "length quine_packet = 8" "u32_at quine_packet 0 = GzipPackedID"
  "fst (ReadString (NewReader (drop 4 quine_packet))) = Inr [9]"
  by code_simp+

theorem gzip_quine_never_returns_witness:
  "handleRawPacket 50 ((plain_env 0)\<lparr>env_gun := (\<lambda>z. if z = [9] then Some (quine_packet, True) else None)\<rparr>)
     0 quine_packet (NewSession 0) = None"
  by (rule gzip_quine_never_returns)
    (simp_all add: quine_packet_fields maxUncompressed_def DecodeGzipPacked_small [OF quine_packet_fields(3)])

text \<open>A bad_msg_notification for message \<open>m\<close> with error code \<open>code\<close>, as the server sends it.\<close>

definition bad_msg_packet :: "i64 \<Rightarrow> u32 \<Rightarrow> u32 \<Rightarrow> bytes" where
  "bad_msg_packet m sq code =
     le_bytes 4 BadMsgNotificationTypeID @ le_bytes 8 m @ le_bytes 4 sq @ le_bytes 4 code"

lemma bad_msg_fields:
  "u32_at (bad_msg_packet m sq code) 0 = BadMsgNotificationTypeID"
  "u64_at (bad_msg_packet m sq code) 4 = m"
  "u32_at (bad_msg_packet m sq code) 12 = sq"
  "u32_at (bad_msg_packet m sq code) 16 = code"
  "length (bad_msg_packet m sq code) = 20"
proof -
  show "u32_at (bad_msg_packet m sq code) 12 = sq"
    using u32_at_skip [of 12 "le_bytes 4 BadMsgNotificationTypeID @ le_bytes 8 m" sq "le_bytes 4 code"]
    by (simp add: bad_msg_packet_def)
  show "u32_at (bad_msg_packet m sq code) 16 = code"
    using u32_at_skip [of 16 "le_bytes 4 BadMsgNotificationTypeID @ le_bytes 8 m @ le_bytes 4 sq" code "[]"]
    by (simp add: bad_msg_packet_def)
qed (simp_all add: bad_msg_packet_def u64_at_skip)

text \<open>A defect: a clock notification inside a gzip packet resets the session's clock to 1970.
  handleRawGzipPacked passes message id 0 on, and codes 16 and 17 take the server time from it; from
  then on, until real time has caught up, every incoming message of the present is rejected as coming
  from the future, and the offset, which only an accepted message would correct, stays.\<close>

theorem gzipped_clock_notification_deafens:
  assumes "u32_at body 0 = GzipPackedID" and "length body \<ge> 4" and "code = 16 \<or> code = 17"
    and "fst (DecodeGzipPacked (env_gun e) (NewReader (drop 4 body))) =
           Inr (GzipPacked (GzipPackedData (bad_msg_packet bad sq code)))"
  shows "\<exists>s'. handleRawPacket (Suc (Suc n)) e m body s = Some (True, s') \<and>
           (\<forall>e' x. sint (signed_drop_bit 32 x :: i64) > sint (env_now e' - env_now e + 60) \<longrightarrow>
              \<not> fst (Check (server_now e' s') x (ss_validator s')))"
proof -
  let ?s = "handle_bad_msg e 0 (bad_msg_packet bad sq code) s"
  have "handleRawPacket (Suc n) e 0 (bad_msg_packet bad sq code) s = Some (True, ?s)"
    by (simp add: bad_msg_fields handle_raw_simple_def type_ids)
  then have ret: "handleRawPacket (Suc (Suc n)) e m body s = Some (True, ?s)"
    using assms by (simp add: handleRawGzipPacked_def del: handleRawPacket.simps(2) add: handleRawPacket.simps(2) [of "Suc n"])
  have "ServerTimeOffset (ss_msgFactory ?s) = - env_now e"
    using assms(3)
    by (auto simp: handle_bad_msg_def bad_msg_fields Let_def on_pending_def ServerTimeOffset_def
        Factory_UpdateServerTime_def UpdateServerTime_def)
  then have now: "server_now e' ?s + 60 = env_now e' - env_now e + 60" for e'
    by (simp add: server_now_def)
  have "\<not> fst (Check (server_now e' ?s) x (ss_validator ?s))"
    if "sint (signed_drop_bit 32 x :: i64) > sint (env_now e' - env_now e + 60)" for e' x
    using that by (simp add: Check_eq in_window_def now)
  then show ?thesis using ret by blast
qed

theorem gzipped_clock_notification_deafens_witness:
  "\<exists>s'. handleRawPacket 2
          ((plain_env 1700000000)\<lparr>env_gun := (\<lambda>z. if z = [9] then Some (bad_msg_packet 4 0 16, True) else None)\<rparr>)
          0 quine_packet waiting_session = Some (True, s') \<and>
        \<not> fst (Check (server_now (plain_env 1700000010) s') (push_bit 32 1700000010 + 1) (ss_validator s'))"
proof -
  let ?e = "(plain_env 1700000000)\<lparr>env_gun := (\<lambda>z. if z = [9] then Some (bad_msg_packet 4 0 16, True) else None)\<rparr>"
  have "u32_at quine_packet 0 = GzipPackedID" "4 \<le> length quine_packet"
    "fst (DecodeGzipPacked (env_gun ?e) (NewReader (drop 4 quine_packet))) =
       Inr (GzipPacked (GzipPackedData (bad_msg_packet 4 0 16)))"
    by (simp_all add: quine_packet_fields bad_msg_fields maxUncompressed_def
        DecodeGzipPacked_small [OF quine_packet_fields(3)])
  moreover have "sint (signed_drop_bit 32 (push_bit 32 1700000010 + 1 :: i64)) >
      sint (env_now (plain_env 1700000010) - env_now ?e + 60)"
    by (simp add: plain_env_def)
  ultimately show ?thesis
    using gzipped_clock_notification_deafens [of quine_packet 16 ?e 4 0 0 0 waiting_session]
    by (auto simp: numeral_2_eq_2)
qed

text \<open>future_salts as the schema lays it out and the generated Encode writes it: a bare vector of bare
  entries.\<close>

definition encode_FutureSalts :: "i64 \<Rightarrow> u32 \<Rightarrow> future_salt list \<Rightarrow> bytes" where
  "encode_FutureSalts req now fs =
     le_bytes 4 FutureSaltsTypeID @ le_bytes 8 req @ le_bytes 4 now @ le_bytes 4 (of_nat (length fs) :: u32) @
     concat (map (\<lambda>f. le_bytes 4 (fs_ValidSince f) @ le_bytes 4 (fs_ValidUntil f) @ le_bytes 8 (fs_Salt f)) fs)"

text \<open>A defect: the raw handler of future_salts expects a boxed vector of boxed entries and
  therefore refuses every future_salts message the schema and the generated encoder describe; the
  salts it carries are stored only if the packet is then decoded as an object.\<close>

theorem raw_future_salts_never_handled:
  assumes "length fs \<le> 100000"
  shows "handleRawPacket (Suc n) e m (encode_FutureSalts req now fs) s = Some (False, s)"
proof -
  have cid: "u32_at (encode_FutureSalts req now fs) 0 = FutureSaltsTypeID"
    by (simp add: encode_FutureSalts_def)
  have "u32_at (encode_FutureSalts req now fs) 16 = of_nat (length fs)"
    using u32_at_skip [of 16 "le_bytes 4 FutureSaltsTypeID @ le_bytes 8 req @ le_bytes 4 now" "of_nat (length fs)"]
    by (simp add: encode_FutureSalts_def)
  moreover have "(of_nat (length fs) :: u32) \<noteq> VectorTypeID"
  proof
    assume "(of_nat (length fs) :: u32) = VectorTypeID"
    then have "unat (of_nat (length fs) :: u32) = unat VectorTypeID" by simp
    then show False
      using assms by (simp add: VectorTypeID_def unat_of_nat take_bit_eq_mod)
  qed
  ultimately have "handleRawFutureSalts e (encode_FutureSalts req now fs) s = (False, s)"
    by (simp add: handleRawFutureSalts_def)
  moreover have "length (encode_FutureSalts req now fs) \<ge> 4"
    by (simp add: encode_FutureSalts_def)
  ultimately show ?thesis
    by (simp add: handle_raw_simple_def cid type_ids)
qed

theorem raw_future_salts_never_handled_witness:
  "handleRawPacket 1 (plain_env 0) 0
     (encode_FutureSalts 4 100 [\<lparr>fs_ValidSince = 100, fs_ValidUntil = 200, fs_Salt = 7\<rparr>]) waiting_session
   = Some (False, waiting_session)"
  using raw_future_salts_never_handled [of "[\<lparr>fs_ValidSince = 100, fs_ValidUntil = 200, fs_Salt = 7\<rparr>]" 0] by simp

section \<open>Rejecting the calls of a container\<close>

lemma Reject_lookup:
  assumes "pm_inv pm"
  shows "map_of (pm_pending (snd (Reject c x pm))) c' = (if c' = c then None else map_of (pm_pending pm) c')"
  using assms by (auto simp: Reject_def pm_finish_cases Let_def delete_conv' split: option.split)

lemma Reject_outcome:
  assumes "pm_inv pm" and "map_of (pm_pending pm) c = Some a"
  shows "a < length (pm_heap (snd (Reject c x pm)))" and "ch_done (pm_heap (snd (Reject c x pm)) ! a)"
    and "Result (pm_heap (snd (Reject c x pm)) ! a) = (None, None, Some x)"
  using pm_inv_entry [OF assms] assms
  by (simp_all add: Reject_def pm_finish_cases Let_def Result_def handle_live_def)

lemma pm_inv_Reject: "pm_inv pm \<Longrightarrow> pm_inv (snd (Reject c x pm))"
  unfolding Reject_def by (rule pm_inv_finish) simp_all

definition reject_list :: "session_error \<Rightarrow> i64 list \<Rightarrow> pending_manager \<Rightarrow> pending_manager" where
  "reject_list x cs pm = fold (\<lambda>c pm. snd (Reject c x pm)) cs pm"

lemma reject_list_keeps_done: "keeps_done (pm_heap pm) (pm_heap (reject_list x cs pm))"
proof (induction cs arbitrary: pm)
  case (Cons c cs)
  have "keeps_done (pm_heap pm) (pm_heap (snd (Reject c x pm)))"
    by (simp add: Reject_def keeps_done_finish)
  then show ?case using Cons.IH by (simp add: reject_list_def) (rule keeps_done_trans)
qed (simp add: reject_list_def)

lemma reject_list_lookup:
  "pm_inv pm \<Longrightarrow> map_of (pm_pending (reject_list x cs pm)) c =
     (if c \<in> set cs then None else map_of (pm_pending pm) c)"
  by (induction cs arbitrary: pm) (simp_all add: reject_list_def Reject_lookup pm_inv_Reject)

lemma reject_list_outcome:
  assumes "pm_inv pm" and "map_of (pm_pending pm) c = Some a" and "c \<in> set cs"
  shows "ch_done (pm_heap (reject_list x cs pm) ! a) \<and>
         Result (pm_heap (reject_list x cs pm) ! a) = (None, None, Some x)"
  using assms
proof (induction cs arbitrary: pm)
  case (Cons c' cs)
  show ?case
  proof (cases "c' = c")
    case True
    note out = Reject_outcome [OF Cons.prems(1,2), of x]
    have "keeps_done (pm_heap (snd (Reject c x pm))) (pm_heap (reject_list x cs (snd (Reject c x pm))))"
      by (rule reject_list_keeps_done)
    then show ?thesis
      using out True by (simp add: keeps_done_def reject_list_def)
  next
    case False
    then have "map_of (pm_pending (snd (Reject c' x pm))) c = Some a"
      using Cons.prems by (simp add: Reject_lookup)
    then show ?thesis
      using Cons.IH [OF pm_inv_Reject [OF Cons.prems(1)]] Cons.prems(3) False by (simp add: reject_list_def)
  qed
qed simp

lemma fold_on_pending_reject:
  "fold (\<lambda>c. on_pending (Reject c x)) cs s = s\<lparr>ss_pending := reject_list x cs (ss_pending s)\<rparr>"
  by (induction cs arbitrary: s) (simp_all add: on_pending_def reject_list_def)

text \<open>Property C28 (error path across components): an invalid-container notification fails exactly the
  calls of that container. Each of its calls that still waits is completed with that error and leaves
  the table, every other call keeps waiting, and the container and its index entries are gone.\<close>

theorem invalid_container_fails_its_calls:
  assumes "sess_inv s" and "map_of (ct_containers (ss_tracker s)) k = Some entry"
  shows "\<exists>s'. handleRawPacket (Suc n) e m (bad_msg_packet k sq 64) s = Some (True, s') \<and>
           map_of (ct_containers (ss_tracker s')) k = None \<and>
           (\<forall>c. if c \<in> set (ce_ChildMsgIDs entry)
                then \<not> Pending_Has c (ss_pending s') \<and> map_of (ct_childToContainer (ss_tracker s')) c = None \<and>
                     (\<forall>a. map_of (pm_pending (ss_pending s)) c = Some a \<longrightarrow>
                        ch_done (pm_heap (ss_pending s') ! a) \<and>
                        Result (pm_heap (ss_pending s') ! a) = (None, None, Some (InvalidContainer k)))
                else map_of (pm_pending (ss_pending s')) c = map_of (pm_pending (ss_pending s)) c)"
proof -
  let ?x = "InvalidContainer k" and ?cs = "ce_ChildMsgIDs entry"
  let ?s = "s\<lparr>ss_tracker := drop_container k ?cs (ss_tracker s),
              ss_pending := reject_list ?x ?cs (ss_pending s)\<rparr>"
  have inv: "pm_inv (ss_pending s)" using assms(1) by (simp add: sess_inv_def)
  have "handle_bad_msg e m (bad_msg_packet k sq 64) s = ?s"
    using assms(2)
    by (simp add: handle_bad_msg_def bad_msg_fields NackContainer_def Let_def fold_on_pending_reject)
  then have "handleRawPacket (Suc n) e m (bad_msg_packet k sq 64) s = Some (True, ?s)"
    by (simp add: bad_msg_fields handle_raw_simple_def type_ids)
  then show ?thesis
    using reject_list_lookup [OF inv, of ?x ?cs] reject_list_outcome [OF inv, where cs = ?cs and x = ?x]
    by (auto simp: Pending_Has_def)
qed

text \<open>Two batched calls, 4 and 8, sent in container 12.\<close>

definition batch_session :: session where
  "batch_session =
     (NewSession 1000)\<lparr>
       ss_pending := snd (Register 1 8 False (snd (Register 0 4 False NewPendingManager))),
       ss_tracker := TrackContainer 12 [4, 8] NewContainerTracker\<rparr>"

lemma batch_session_inv: "sess_inv batch_session"
proof -
  have "\<not> Pending_Has 4 NewPendingManager" "\<not> Pending_Has 8 (snd (Register 0 4 False NewPendingManager))"
    and f: "fresh_container 12 [4, 8] NewContainerTracker"
    by code_simp+
  then have "pm_inv (snd (Register 1 8 False (snd (Register 0 4 False NewPendingManager))))"
    by (intro pm_inv_Register pm_inv_New)
  moreover have "tracker_inv (TrackContainer 12 [4, 8] NewContainerTracker)"
    by (rule tracker_inv_Track [OF tracker_inv_New f])
  ultimately show ?thesis
    using sess_inv_New [of 1000] by (simp add: batch_session_def sess_inv_def)
qed

theorem invalid_container_fails_its_calls_witness:
  "\<exists>s'. handleRawPacket 1 (plain_env 1000) 0 (bad_msg_packet 12 0 64) batch_session = Some (True, s') \<and>
        Result (pm_heap (ss_pending s') ! 1) = (None, None, Some (InvalidContainer 12)) \<and>
        \<not> Pending_Has 8 (ss_pending s')"
proof -
  let ?en = "\<lparr>ce_ContainerMsgID = 12, ce_ChildMsgIDs = [4, 8], ce_RefCount = 2\<rparr>"
  have en: "map_of (ct_containers (ss_tracker batch_session)) 12 = Some ?en" by code_simp
  have a: "map_of (pm_pending (ss_pending batch_session)) 8 = Some 1" by code_simp
  obtain s' where s': "handleRawPacket (Suc 0) (plain_env 1000) 0 (bad_msg_packet 12 0 64) batch_session = Some (True, s')"
    and c: "\<forall>c. if c \<in> set (ce_ChildMsgIDs ?en)
                then \<not> Pending_Has c (ss_pending s') \<and> map_of (ct_childToContainer (ss_tracker s')) c = None \<and>
                     (\<forall>a. map_of (pm_pending (ss_pending batch_session)) c = Some a \<longrightarrow>
                        ch_done (pm_heap (ss_pending s') ! a) \<and>
                        Result (pm_heap (ss_pending s') ! a) = (None, None, Some (InvalidContainer 12)))
                else map_of (pm_pending (ss_pending s')) c = map_of (pm_pending (ss_pending batch_session)) c"
    using invalid_container_fails_its_calls [OF batch_session_inv en, of 0 "plain_env 1000" 0 0] by blast
  show ?thesis
    using s' spec [OF c, of 8] a by auto
qed

text \<open>Property C27 (shutdown): after handleClose every call that was waiting has failed with
  ErrSessionClosed and keeps that outcome under any later frames, no call or container is left, and
  every write is refused.\<close>

theorem close_fails_all_calls:
  assumes "sess_inv s" and "recv_frames n fs (handleClose s) = Some s'"
  shows "pm_pending (ss_pending (handleClose s)) = [] \<and> ct_containers (ss_tracker (handleClose s)) = [] \<and>
         \<not> HasAny (ss_pending (handleClose s)) \<and>
         fst (writeEncryptedImpl e frame (handleClose s)) = Some (Sentinel ErrSessionClosed) \<and>
         (\<forall>m a. map_of (pm_pending (ss_pending s)) m = Some a \<longrightarrow>
            Result (pm_heap (ss_pending s') ! a) = (None, None, Some (Sentinel ErrSessionClosed)))"
proof -
  let ?x = "Sentinel ErrSessionClosed" and ?pm = "ss_pending s"
  have inv: "pm_inv ?pm" using assms(1) by (simp add: sess_inv_def)
  have pm: "ss_pending (handleClose s) = RejectAll ?x ?pm" by (simp add: handleClose_def)
  have "Result (pm_heap (ss_pending s') ! a) = (None, None, Some ?x)" if m: "map_of (pm_pending ?pm) m = Some a" for m a
  proof -
    note entry = pm_inv_entry [OF inv m]
    have "a \<in> set (map snd (pm_pending ?pm))" "distinct (map snd (pm_pending ?pm))"
      using map_of_SomeD [OF m] inv by (force, simp add: pm_inv_def)
    then have h: "pm_heap (RejectAll ?x ?pm) ! a = (pm_heap ?pm ! a)\<lparr>ch_err := Some ?x, ch_done := True\<rparr>"
      and len: "a < length (pm_heap (RejectAll ?x ?pm))"
      using entry by (simp_all add: RejectAll_def Let_def reject_handles_nth Pending_Calls.complete_def)
    then show ?thesis
      using safe_recv_frames [OF assms(2)] entry
      by (simp add: safe_step_def keeps_done_def pm handle_live_def Result_def)
  qed
  moreover have "pm_inv (RejectAll ?x ?pm)" using inv by (rule pm_inv_RejectAll)
  then have "\<not> HasAny (RejectAll ?x ?pm)"
    by (simp add: pm_inv_def HasAny_def) (simp add: RejectAll_def Let_def)
  ultimately show ?thesis
    by (simp add: pm handleClose_def RejectAll_def Let_def Tracker_Cleanup_def writeEncryptedImpl_def write_admitted_def)
qed

theorem close_fails_all_calls_witness:
  "\<exists>s'. recv_frames 1 [(plain_env 1000, rpc_result_packet 4 [1, 2, 3])] (handleClose waiting_session) = Some s' \<and>
        Result (pm_heap (ss_pending s') ! 0) = (None, None, Some (Sentinel ErrSessionClosed))"
proof -
  have a: "map_of (pm_pending (ss_pending waiting_session)) 4 = Some 0" by code_simp
  have "recv_frames 1 [(plain_env 1000, rpc_result_packet 4 [1, 2, 3])] (handleClose waiting_session) \<noteq> None"
    by code_simp
  then obtain s' where s': "recv_frames 1 [(plain_env 1000, rpc_result_packet 4 [1, 2, 3])] (handleClose waiting_session) = Some s'"
    by auto
  then show ?thesis
    using close_fails_all_calls [OF waiting_session_inv s'] a by blast
qed

end
