(* ===== verification/Message_Crypto.thy ===== *)
theory Message_Crypto
  imports TL_Object AES_Modes
begin

text \<open>
  MTProto 2.0 message encryption, \<^verbatim>\<open>src/internal/crypto/mtproto.go\<close>, and the secret-chat and file
  encryption of \<^verbatim>\<open>src/internal/crypto/secret.go\<close>. SHA-256 is a parameter \<open>sha\<close> of which only the
  32-byte result is used; the block cipher is that of \<^verbatim>\<open>AES_Modes\<close>; a read of the system's random
  source is a function that returns the bytes or fails. A slice expression past the end of a key
  panics, which is the result \<open>PanicBounds\<close>.
\<close>

datatype crypto_error =
    SecurityMismatch string
  | CryptoTL tl_error
  | CryptoAES aes_error
  | CryptoRandom
  | ErrEmptyPlaintext
  | ErrDecryptionFailed
  | ErrFileNotAligned
  | PanicBounds

type_synonym rand_read = "nat \<Rightarrow> bytes option"

text \<open>\<^verbatim>\<open>copy(dst[off:], src)\<close> for a fixed-size array.\<close>

definition copy_at :: "bytes \<Rightarrow> nat \<Rightarrow> bytes \<Rightarrow> bytes" where
  "copy_at dst off src = take off dst @ take (length dst - off) src @ drop (off + length src) dst"

section \<open>Key derivation\<close>

definition kdf_at :: "(bytes \<Rightarrow> bytes) \<Rightarrow> bytes \<Rightarrow> bytes \<Rightarrow> nat \<Rightarrow> bytes \<times> bytes" where
  "kdf_at sha key msgKey x =
     (let tmpA = copy_at (copy_at (replicate 52 0) 0 msgKey) (length msgKey) (go_slice key x (x + 36));
          shaA = sha tmpA;
          tmpB = copy_at (copy_at (replicate 52 0) 0 (go_slice key (x + 40) (x + 76))) 36 msgKey;
          shaB = sha tmpB
      in (take 8 shaA @ go_slice shaB 8 24 @ go_slice shaA 24 32,
          take 8 shaB @ go_slice shaA 8 24 @ go_slice shaB 24 32))"

definition KDF :: "(bytes \<Rightarrow> bytes) \<Rightarrow> bytes \<Rightarrow> bytes \<Rightarrow> bool \<Rightarrow> bytes \<times> bytes" where
  "KDF sha authKey msgKey outgoing = kdf_at sha authKey msgKey (if \<not> outgoing then 8 else 0)"

section \<open>Packing\<close>

definition maxEncryptedPadding :: nat where
  "maxEncryptedPadding = 267"

definition encryptedPaddingLen :: "nat \<Rightarrow> u8 \<Rightarrow> nat" where
  "encryptedPaddingLen bufLen randByte =
     (let pad = (16 - bufLen mod 16) mod 16;
          pad = (if pad < 12 then pad + 16 else pad)
      in pad + unat (randByte AND 0x0F) * 16)"

text \<open>The part Pack and PackRaw have in common: padding, message key, encryption.\<close>

definition pack_data ::
  "(bytes \<Rightarrow> bytes) \<Rightarrow> (bytes \<Rightarrow> bytes \<Rightarrow> bytes) \<Rightarrow> rand_read \<Rightarrow> rand_read \<Rightarrow> bytes \<Rightarrow> bytes \<Rightarrow> bytes
   \<Rightarrow> crypto_error + bytes" where
  "pack_data sha E rand1 rand2 dataBuf authKey authKeyID =
     (case rand1 1 of
        None \<Rightarrow> Inl CryptoRandom
      | Some jb \<Rightarrow>
          let paddingLen = encryptedPaddingLen (length dataBuf) (jb ! 0)
          in if paddingLen > maxEncryptedPadding then Inl PanicBounds
             else case rand2 paddingLen of
               None \<Rightarrow> Inl CryptoRandom
             | Some padding \<Rightarrow>
                 if length authKey < 120 then Inl PanicBounds
                 else
                   let data = dataBuf @ padding;
                       msgKey = go_slice (sha (go_slice authKey 88 120 @ data)) 8 24;
                       (key, iv) = KDF sha authKey msgKey True
                   in case IGEEncrypt E data key iv of
                        Inl e \<Rightarrow> Inl (CryptoAES e)
                      | Inr encrypted \<Rightarrow> Inr (authKeyID @ msgKey @ encrypted))"

definition Pack ::
  "(bytes \<Rightarrow> bytes) \<Rightarrow> (bytes \<Rightarrow> bytes \<Rightarrow> bytes) \<Rightarrow> (bytes \<Rightarrow> bytes) \<Rightarrow> rand_read \<Rightarrow> rand_read \<Rightarrow>
   mtproto_message \<Rightarrow> i64 \<Rightarrow> bytes \<Rightarrow> bytes \<Rightarrow> bytes \<Rightarrow> crypto_error + bytes" where
  "Pack sha E gz rand1 rand2 message salt sessionID authKey authKeyID =
     (case EncodeMTProtoMessage gz message of
        Inl e \<Rightarrow> Inl (CryptoTL e)
      | Inr b \<Rightarrow> pack_data sha E rand1 rand2 (WriteLong [] salt @ sessionID @ b) authKey authKeyID)"

definition PackRaw ::
  "(bytes \<Rightarrow> bytes) \<Rightarrow> (bytes \<Rightarrow> bytes \<Rightarrow> bytes) \<Rightarrow> rand_read \<Rightarrow> rand_read \<Rightarrow>
   i64 \<Rightarrow> u32 \<Rightarrow> bytes \<Rightarrow> i64 \<Rightarrow> bytes \<Rightarrow> bytes \<Rightarrow> bytes \<Rightarrow> crypto_error + bytes" where
  "PackRaw sha E rand1 rand2 msgID seqNo bodyBytes salt sessionID authKey authKeyID =
     pack_data sha E rand1 rand2
       (WriteInt (WriteInt (WriteLong (WriteLong [] salt @ sessionID) msgID) seqNo)
          (word_of_nat (length bodyBytes)) @ bodyBytes) authKey authKeyID"

section \<open>Unpacking\<close>

text \<open>The length field as int32, and the padding it leaves.\<close>

definition padding_len :: "bytes \<Rightarrow> int" where
  "padding_len decrypted =
     int (length decrypted) - 32 - sint (le_word (go_slice decrypted 28 32) :: u32)"

text \<open>Unpack. On the early errors the message key is still computed, which needs the same part of the
  key; its comparison has no effect on the result.\<close>

definition Unpack ::
  "(bytes \<Rightarrow> bytes) \<Rightarrow> (bytes \<Rightarrow> bytes \<Rightarrow> bytes) \<Rightarrow> tl_object rd \<Rightarrow> bytes \<Rightarrow> bytes \<Rightarrow> bytes \<Rightarrow> bytes
   \<Rightarrow> crypto_error + mtproto_message \<times> bytes" where
  "Unpack sha D sub data sessionID authKey authKeyID =
     (if length data < 24 then Inl (SecurityMismatch ''data too short'')
      else if length authKey < 128 then Inl PanicBounds
      else if take 8 data \<noteq> authKeyID then Inl (SecurityMismatch ''b.read(8) == auth_key_id'')
      else
        let msgKey = go_slice data 8 24;
            (key, iv) = KDF sha authKey msgKey False
        in if drop 24 data = [] \<or> length (drop 24 data) mod 16 \<noteq> 0
           then Inl (SecurityMismatch ''encrypted data not aligned to 16'')
           else case IGEDecrypt D (drop 24 data) key iv of
             Inl _ \<Rightarrow> Inl (SecurityMismatch ''invalid message'')
           | Inr decrypted \<Rightarrow>
               if length decrypted < 16 then Inl (SecurityMismatch ''decrypted data too short'')
               else if msgKey \<noteq> go_slice (sha (go_slice authKey 96 128 @ decrypted)) 8 24
               then Inl (SecurityMismatch ''msg_key check failed'')
               else if go_slice decrypted 8 16 \<noteq> sessionID
               then Inl (SecurityMismatch ''data.read(8) == session_id'')
               else if length decrypted < 32
               then Inl (SecurityMismatch ''decrypted data too short for header'')
               else if padding_len decrypted < 12 \<or> padding_len decrypted > 1024
               then Inl (SecurityMismatch ''12 <= len(padding) <= 1024'')
               else if (length decrypted - 32) mod 4 \<noteq> 0
               then Inl (SecurityMismatch ''len(payload) % 4 == 0'')
               else case fst (DecodeMTProtoMessage sub (NewReader (drop 16 decrypted))) of
                 Inl e \<Rightarrow> Inl (CryptoTL e)
               | Inr message \<Rightarrow> Inr (message, decrypted))"

definition UnpackEnvelope ::
  "(bytes \<Rightarrow> bytes) \<Rightarrow> (bytes \<Rightarrow> bytes \<Rightarrow> bytes) \<Rightarrow> bytes \<Rightarrow> bytes \<Rightarrow> bytes \<Rightarrow> bytes
   \<Rightarrow> crypto_error + mtproto_message_raw \<times> bytes" where
  "UnpackEnvelope sha D data sessionID authKey authKeyID =
     (if length data < 24 then Inl (SecurityMismatch ''data too short'')
      else if take 8 data \<noteq> authKeyID then Inl (SecurityMismatch ''b.read(8) == auth_key_id'')
      else if length authKey < 84 then Inl PanicBounds
      else
        let msgKey = go_slice data 8 24;
            encrypted = drop 24 data;
            (key, iv) = KDF sha authKey msgKey False
        in if encrypted = [] \<or> length encrypted mod 16 \<noteq> 0
           then Inl (SecurityMismatch ''encrypted data not aligned to 16'')
           else case IGEDecrypt D encrypted key iv of
             Inl e \<Rightarrow> Inl (CryptoAES e)
           | Inr decrypted \<Rightarrow>
               if length decrypted < 16 then Inl (SecurityMismatch ''decrypted data too short'')
               else if length authKey < 128 then Inl PanicBounds
               else if msgKey \<noteq> go_slice (sha (go_slice authKey 96 128 @ decrypted)) 8 24
               then Inl (SecurityMismatch ''msg_key check failed'')
               else if go_slice decrypted 8 16 \<noteq> sessionID
               then Inl (SecurityMismatch ''session_id mismatch'')
               else if length decrypted < 32
               then Inl (SecurityMismatch ''decrypted data too short for header'')
               else if padding_len decrypted < 12 \<or> padding_len decrypted > 1024
               then Inl (SecurityMismatch ''padding length'')
               else case fst (DecodeMTProtoMessageRaw (NewReader (drop 16 decrypted))) of
                 Inl e \<Rightarrow> Inl (CryptoTL e)
               | Inr raw \<Rightarrow> Inr (raw, decrypted))"

section \<open>Secret chats\<close>

definition SecretChatMinPadding :: nat where
  "SecretChatMinPadding = 12"

definition SecretChatMaxPadding :: nat where
  "SecretChatMaxPadding = 1024"

text \<open>secretKDF is KDF with the offset as an argument.\<close>

definition secretKDF :: "(bytes \<Rightarrow> bytes) \<Rightarrow> bytes \<Rightarrow> bytes \<Rightarrow> nat \<Rightarrow> bytes \<times> bytes" where
  "secretKDF sha key msgKey x = kdf_at sha key msgKey x"

text \<open>\<open>draw\<close> is what the random source answers to cryptoRandIntn, nothing on failure.\<close>

definition cryptoRandIntn :: "nat option \<Rightarrow> nat \<Rightarrow> nat" where
  "cryptoRandIntn draw n = (if n = 0 then 0 else case draw of None \<Rightarrow> 0 | Some r \<Rightarrow> r)"

definition secret_padding_len :: "nat option \<Rightarrow> nat \<Rightarrow> nat" where
  "secret_padding_len draw len =
     (let paddingLen = SecretChatMinPadding + cryptoRandIntn draw (SecretChatMaxPadding - SecretChatMinPadding);
          rem = (4 + len + paddingLen) mod 16
      in if rem \<noteq> 0 then paddingLen + (16 - rem) else paddingLen)"

definition SecretEncrypt ::
  "(bytes \<Rightarrow> bytes) \<Rightarrow> (bytes \<Rightarrow> bytes \<Rightarrow> bytes) \<Rightarrow> nat option \<Rightarrow> rand_read \<Rightarrow> bytes \<Rightarrow> bytes \<Rightarrow> bool
   \<Rightarrow> crypto_error + bytes" where
  "SecretEncrypt sha E draw rand plaintext key outgoing =
     (if plaintext = [] then Inl ErrEmptyPlaintext
      else case rand (secret_padding_len draw (length plaintext)) of
        None \<Rightarrow> Inl CryptoRandom
      | Some padding \<Rightarrow>
          let data = le_bytes 4 (word_of_nat (length plaintext) :: u32) @ plaintext @ padding;
              x = (if \<not> outgoing then 8 else 0)
          in if length key < x + 120 then Inl PanicBounds
             else
               let msgKey = go_slice (sha (go_slice key (x + 88) (x + 120) @ data)) 8 24;
                   (aesKey, aesIV) = secretKDF sha key msgKey x
               in case IGEEncrypt E data aesKey aesIV of
                    Inl e \<Rightarrow> Inl (CryptoAES e)
                  | Inr encrypted \<Rightarrow> Inr (msgKey @ encrypted))"

definition SecretDecrypt ::
  "(bytes \<Rightarrow> bytes) \<Rightarrow> (bytes \<Rightarrow> bytes \<Rightarrow> bytes) \<Rightarrow> bytes \<Rightarrow> bytes \<Rightarrow> bool \<Rightarrow> crypto_error + bytes" where
  "SecretDecrypt sha D ciphertext key outgoing =
     (if length ciphertext < 16 + 16 then Inl ErrDecryptionFailed
      else
        let msgKey = take 16 ciphertext;
            encrypted = drop 16 ciphertext;
            x = (if \<not> outgoing then 8 else 0)
        in if length key < x + 76 then Inl PanicBounds
           else
             let (aesKey, aesIV) = secretKDF sha key msgKey x
             in case IGEDecrypt D encrypted aesKey aesIV of
                  Inl _ \<Rightarrow> Inl ErrDecryptionFailed
                | Inr decrypted \<Rightarrow>
                    if length key < x + 120 then Inl PanicBounds
                    else if msgKey \<noteq> go_slice (sha (go_slice key (x + 88) (x + 120) @ decrypted)) 8 24
                    then Inl ErrDecryptionFailed
                    else if length decrypted < 4 then Inl ErrDecryptionFailed
                    else
                      let msgLen = unat (le_word (take 4 decrypted) :: u32)
                      in if msgLen + 4 > length decrypted then Inl ErrDecryptionFailed
                         else if length decrypted - 4 - msgLen < SecretChatMinPadding \<or> length decrypted mod 16 \<noteq> 0
                         then Inl ErrDecryptionFailed
                         else Inr (go_slice decrypted 4 (4 + msgLen)))"

text \<open>Files; the second test of padFile never holds.\<close>

definition padFile :: "bytes \<Rightarrow> bytes" where
  "padFile data =
     (let padding = 16 - length data mod 16;
          padding = (if padding = 0 then 16 else padding)
      in data @ replicate padding 0)"

definition EncryptFile :: "(bytes \<Rightarrow> bytes \<Rightarrow> bytes) \<Rightarrow> bytes \<Rightarrow> bytes \<Rightarrow> bytes \<Rightarrow> aes_error + bytes" where
  "EncryptFile E data fileKey fileIV = IGEEncrypt E (padFile data) fileKey fileIV"

definition DecryptFile :: "(bytes \<Rightarrow> bytes \<Rightarrow> bytes) \<Rightarrow> bytes \<Rightarrow> bytes \<Rightarrow> bytes \<Rightarrow> crypto_error + bytes" where
  "DecryptFile D data fileKey fileIV =
     (if length data mod 16 \<noteq> 0 then Inl ErrFileNotAligned
      else case IGEDecrypt D data fileKey fileIV of Inl e \<Rightarrow> Inl (CryptoAES e) | Inr d \<Rightarrow> Inr d)"

section \<open>What the code relies on\<close>

text \<open>SHA-256 returns 32 bytes, and the block cipher under every 32-byte key is one.\<close>

definition primitives_ok ::
  "(bytes \<Rightarrow> bytes) \<Rightarrow> (bytes \<Rightarrow> bytes \<Rightarrow> bytes) \<Rightarrow> (bytes \<Rightarrow> bytes \<Rightarrow> bytes) \<Rightarrow> bool" where
  "primitives_ok sha E D \<longleftrightarrow>
     (\<forall>m. length (sha m) = 32) \<and> (\<forall>k. length k = 32 \<longrightarrow> block_cipher_ok E D k)"

text \<open>The protocol's description of an encrypted message, for the direction given by \<open>x\<close> (0 to the
  server, 8 from it): key id, message key and the encrypted plaintext.\<close>

definition message_key :: "(bytes \<Rightarrow> bytes) \<Rightarrow> nat \<Rightarrow> bytes \<Rightarrow> bytes \<Rightarrow> bytes" where
  "message_key sha x authKey plaintext =
     go_slice (sha (go_slice authKey (88 + x) (120 + x) @ plaintext)) 8 24"

definition ige_under ::
  "(bytes \<Rightarrow> bytes) \<Rightarrow> (bytes \<Rightarrow> bytes \<Rightarrow> bytes) \<Rightarrow> nat \<Rightarrow> bytes \<Rightarrow> bytes \<Rightarrow> bytes \<Rightarrow> aes_error + bytes" where
  "ige_under sha E x authKey msgKey plaintext =
     (let (key, iv) = kdf_at sha authKey msgKey x in IGEEncrypt E plaintext key iv)"

definition sealed ::
  "(bytes \<Rightarrow> bytes) \<Rightarrow> (bytes \<Rightarrow> bytes \<Rightarrow> bytes) \<Rightarrow> nat \<Rightarrow> bytes \<Rightarrow> bytes \<Rightarrow> bytes \<Rightarrow> bytes" where
  "sealed sha E x authKey authKeyID plaintext =
     authKeyID @ message_key sha x authKey plaintext @
     projr (ige_under sha E x authKey (message_key sha x authKey plaintext) plaintext)"

text \<open>The plaintext: salt, session id, message head, body, padding.\<close>

definition envelope :: "i64 \<Rightarrow> bytes \<Rightarrow> i64 \<Rightarrow> u32 \<Rightarrow> bytes \<Rightarrow> bytes \<Rightarrow> bytes" where
  "envelope salt sessionID msgID seqNo body padding =
     le_bytes 8 salt @ sessionID @ le_bytes 8 msgID @ le_bytes 4 seqNo @
     le_bytes 4 (word_of_nat (length body) :: u32) @ body @ padding"

section \<open>Lemmas\<close>

lemma primitives_sha: "primitives_ok sha E D \<Longrightarrow> length (sha m) = 32"
  by (simp add: primitives_ok_def)

lemma primitives_cipher: "primitives_ok sha E D \<Longrightarrow> length k = 32 \<Longrightarrow> block_cipher_ok E D k"
  by (simp add: primitives_ok_def)

lemma length_message_key: "primitives_ok sha E D \<Longrightarrow> length (message_key sha x k p) = 16"
  by (simp add: message_key_def primitives_sha)

lemma length_kdf:
  assumes "primitives_ok sha E D" and "kdf_at sha key msgKey x = (k, iv)"
  shows "length k = 32" and "length iv = 32"
  using assms(2) by (auto simp: kdf_at_def Let_def primitives_sha [OF assms(1)])

lemma aes_key_ok: "length k = 32 \<Longrightarrow> GetAESBlock k = Inr ()"
  by (simp add: GetAESBlock_def)

text \<open>The two directions of the payload cipher under one message key.\<close>

lemma ige_under_open:
  assumes "primitives_ok sha E D" and "kdf_at sha key msgKey x = (k, iv)" and "length p mod 16 = 0"
  shows "\<exists>c. ige_under sha E x key msgKey p = Inr c \<and> length c = length p \<and> IGEDecrypt D c k iv = Inr p"
  using IGE_decrypt_encrypt [OF primitives_cipher [OF assms(1) length_kdf(1) [OF assms(1,2)]]
      aes_key_ok [OF length_kdf(1) [OF assms(1,2)]] length_kdf(2) [OF assms(1,2)] assms(3)]
  by (simp add: ige_under_def assms(2))

lemma ige_under_decrypt:
  assumes "primitives_ok sha E D" and "kdf_at sha key msgKey x = (k, iv)" and "length c mod 16 = 0"
  shows "\<exists>p. IGEDecrypt D c k iv = Inr p \<and> length p = length c \<and> ige_under sha E x key msgKey p = Inr c"
  using IGE_encrypt_decrypt [OF primitives_cipher [OF assms(1) length_kdf(1) [OF assms(1,2)]]
      aes_key_ok [OF length_kdf(1) [OF assms(1,2)]] length_kdf(2) [OF assms(1,2)] assms(3)]
  by (simp add: ige_under_def assms(2))

text \<open>The raw envelope decoder on at least 16 bytes.\<close>

lemma decode_raw_eq:
  assumes "16 \<le> length d"
  shows "fst (DecodeMTProtoMessageRaw (NewReader d)) =
    (let len = le_word (go_slice d 12 16) :: u32
     in if len > maxMessageBodyLen then Inl (ErrMessageBodyTooLarge len)
        else if 16 + unat len > length d then Inl ErrUnexpectedEOF
        else Inr \<lparr>raw_MsgID = le_word (take 8 d), raw_SeqNo = le_word (go_slice d 8 12),
                  raw_BodyRaw = go_slice d 16 (16 + unat len)\<rparr>)"
  using assms
  by (simp add: DecodeMTProtoMessageRaw_def decode_message_head_def rd_bind_def ReadInt64_def ReadUint32_def
      ReadRawBytesCopy_def NewReader_def rd_fail_def rd_return_def Let_def)

lemma decode_message_eq:
  assumes "16 \<le> length d"
  shows "fst (DecodeMTProtoMessage sub (NewReader d)) =
    (case fst (DecodeMTProtoMessageRaw (NewReader d)) of
       Inl e \<Rightarrow> Inl e
     | Inr raw \<Rightarrow> map_sum id (MTProtoMessage (raw_MsgID raw) (raw_SeqNo raw))
                    (fst (sub (NewReader (raw_BodyRaw raw)))))"
  using assms
  by (auto simp: DecodeMTProtoMessageRaw_def DecodeMTProtoMessage_def decode_message_head_def rd_bind_def
      ReadInt64_def ReadUint32_def ReadRawBytesCopy_def ReadRawBytes_def NewReader_def rd_fail_def rd_return_def
      split: prod.split sum.split)

text \<open>Cutting a plaintext into its fields.\<close>

lemma go_slice_drop: "a \<le> b \<Longrightarrow> go_slice d a b @ drop b d = drop a d"
  using append_take_drop_id [of "b - a" "drop a d"] by (simp add: go_slice_def)

lemma go_slice_of_drop: "go_slice (drop k d) a b = go_slice d (k + a) (k + b)"
  by (simp add: go_slice_def add.commute)

lemma envelope_fields:
  fixes d :: bytes
  assumes "32 + n \<le> length d"
  shows "d = take 8 d @ go_slice d 8 16 @ go_slice d 16 24 @ go_slice d 24 28 @ go_slice d 28 32 @
             go_slice d 32 (32 + n) @ drop (32 + n) d"
  by (simp add: go_slice_drop)

lemma unat_len_field:
  fixes len :: u32
  assumes "len \<le> maxMessageBodyLen"
  shows "unat len \<le> 2 ^ 24" and "sint len = int (unat len)"
proof -
  show "unat len \<le> 2 ^ 24"
    using assms by (simp add: maxMessageBodyLen_def word_le_nat_alt)
  then have "unat len < 2 ^ 31" by simp
  then show "sint len = int (unat len)"
    using sint_of_nat_small [of "unat len"] by simp
qed

lemma envelope_decoded:
  assumes "go_slice d 8 16 = sessionID" and "32 \<le> length d"
    and dec: "fst (DecodeMTProtoMessageRaw (NewReader (drop 16 d))) = Inr raw"
  shows "length (raw_BodyRaw raw) \<le> 2 ^ 24 \<and>
    (\<exists>salt padding. d = envelope salt sessionID (raw_MsgID raw) (raw_SeqNo raw) (raw_BodyRaw raw) padding \<and>
       padding_len d = int (length padding))"
proof -
  define len :: u32 where "len = le_word (go_slice d 28 32)"
  have l: "len \<le> maxMessageBodyLen" "32 + unat len \<le> length d"
    and raw: "raw = \<lparr>raw_MsgID = le_word (go_slice d 16 24), raw_SeqNo = le_word (go_slice d 24 28),
                    raw_BodyRaw = go_slice d 32 (32 + unat len)\<rparr>"
    using assms(2) dec
    by (auto simp: decode_raw_eq go_slice_of_drop go_slice_0 [symmetric] Let_def len_def not_less
        simp del: go_slice_0 split: if_splits)
  note n = unat_len_field [OF l(1)]
  have body: "length (raw_BodyRaw raw) = unat len" using l(2) raw by simp
  have "d = envelope (le_word (take 8 d)) sessionID (raw_MsgID raw) (raw_SeqNo raw) (raw_BodyRaw raw)
              (drop (32 + unat len) d)"
    using envelope_fields [OF l(2)] assms(1,2) l(2)
    by (simp add: envelope_def raw le_bytes_le_word len_def)
  moreover have "padding_len d = int (length (drop (32 + unat len) d))"
    using l(2) n(2) by (simp add: padding_len_def len_def [symmetric] of_nat_diff)
  ultimately show ?thesis using body n(1) by metis
qed

lemma length_envelope:
  "length sessionID = 8 \<Longrightarrow>
   length (envelope salt sessionID msgID seqNo body padding) = 32 + length body + length padding"
  by (simp add: envelope_def)

lemma envelope_reads_back:
  assumes "length sessionID = 8" and "length body \<le> 2 ^ 24"
    and d: "d = envelope salt sessionID msgID seqNo body padding"
  shows "go_slice d 8 16 = sessionID" and "padding_len d = int (length padding)"
    and "fst (DecodeMTProtoMessageRaw (NewReader (drop 16 d))) =
         Inr \<lparr>raw_MsgID = msgID, raw_SeqNo = seqNo, raw_BodyRaw = body\<rparr>"
proof -
  let ?len = "word_of_nat (length body) :: u32"
  have n: "unat ?len = length body" and le: "?len \<le> maxMessageBodyLen"
    using assms(2) unat_body_len by (auto simp: maxMessageBodyLen_def word_le_nat_alt)
  have l: "length d = 32 + length body + length padding"
    using d assms(1) by (simp add: length_envelope)
  have f: "go_slice d 8 16 = sessionID" "go_slice d 16 24 = le_bytes 8 msgID"
    "go_slice d 24 28 = le_bytes 4 seqNo" "go_slice d 28 32 = le_bytes 4 ?len"
    "go_slice d 32 (32 + length body) = body"
    using assms(1) unfolding d by (simp_all add: envelope_def go_slice_def)
  show "go_slice d 8 16 = sessionID" by (fact f(1))
  show "padding_len d = int (length padding)"
    using l unat_len_field(2) [OF le] by (simp add: padding_len_def f(4) n)
  show "fst (DecodeMTProtoMessageRaw (NewReader (drop 16 d))) =
         Inr \<lparr>raw_MsgID = msgID, raw_SeqNo = seqNo, raw_BodyRaw = body\<rparr>"
    using l le f by (simp add: decode_raw_eq go_slice_of_drop n not_less [symmetric] take_drop go_slice_def)
qed

text \<open>A ciphertext that decrypts to \<open>d\<close> and carries the message key of \<open>d\<close> is the sealing of \<open>d\<close>.\<close>

lemma sealed_open_iff:
  assumes "primitives_ok sha E D" and n: "length keyID = n"
    and kdf: "kdf_at sha authKey (go_slice data n (n + 16)) x = (k, iv)"
  shows "n + 16 \<le> length data \<and> take n data = keyID \<and> length (drop (n + 16) data) mod 16 = 0 \<and>
         IGEDecrypt D (drop (n + 16) data) k iv = Inr d \<and>
         go_slice data n (n + 16) = message_key sha x authKey d \<longleftrightarrow>
         length d mod 16 = 0 \<and> data = sealed sha E x authKey keyID d" (is "?open \<longleftrightarrow> ?sealed")
proof
  assume o: ?open
  then obtain p where p: "IGEDecrypt D (drop (n + 16) data) k iv = Inr p" "length p mod 16 = 0"
    "ige_under sha E x authKey (message_key sha x authKey d) p = Inr (drop (n + 16) data)"
    using ige_under_decrypt [OF assms(1) kdf, of "drop (n + 16) data"] by auto
  with o have "p = d" by simp
  moreover have "data = keyID @ go_slice data n (n + 16) @ drop (n + 16) data"
    using o by (metis go_slice_drop le_add1 append_take_drop_id)
  ultimately show ?sealed
    using p o by (simp add: sealed_def)
next
  assume s: ?sealed
  define mk where "mk = message_key sha x authKey d"
  obtain c where c: "data = keyID @ mk @ c" "c = projr (ige_under sha E x authKey mk d)" and mk: "length mk = 16"
    using s length_message_key [OF assms(1)] by (simp add: sealed_def mk_def)
  then have f: "take n data = keyID" "go_slice data n (n + 16) = mk" "drop (n + 16) data = c"
    using n by (simp_all add: go_slice_def)
  obtain c' where "ige_under sha E x authKey mk d = Inr c'" "length c' = length d" "IGEDecrypt D c' k iv = Inr d"
    using ige_under_open [OF assms(1) kdf [unfolded f(2)], of d] s by auto
  with c s have "IGEDecrypt D c k iv = Inr d" "length c mod 16 = 0" by simp_all
  then show ?open using f c(1) mk n by (simp add: mk_def)
qed

lemma sealed_length:
  assumes "primitives_ok sha E D" and "length d mod 16 = 0"
  shows "length (sealed sha E x authKey keyID d) = length keyID + 16 + length d"
proof -
  obtain k iv where "kdf_at sha authKey (message_key sha x authKey d) x = (k, iv)" by fastforce
  from ige_under_open [OF assms(1) this assms(2)] show ?thesis
    using length_message_key [OF assms(1)] by (auto simp: sealed_def)
qed

text \<open>What both receivers check before they look at the message.\<close>

definition opens ::
  "(bytes \<Rightarrow> bytes) \<Rightarrow> (bytes \<Rightarrow> bytes \<Rightarrow> bytes) \<Rightarrow> bytes \<Rightarrow> bytes \<Rightarrow> bytes \<Rightarrow> bytes \<Rightarrow> bytes \<Rightarrow> bool" where
  "opens sha E data sessionID authKey authKeyID d \<longleftrightarrow>
     length d mod 16 = 0 \<and> data = sealed sha E 8 authKey authKeyID d \<and>
     go_slice d 8 16 = sessionID \<and> 32 \<le> length d \<and> 12 \<le> padding_len d \<and> padding_len d \<le> 1024"

lemma UnpackEnvelope_iff:
  assumes "primitives_ok sha E D" and "length authKeyID = 8" and "128 \<le> length authKey"
  shows "UnpackEnvelope sha D data sessionID authKey authKeyID = Inr (raw, d) \<longleftrightarrow>
    opens sha E data sessionID authKey authKeyID d \<and>
    fst (DecodeMTProtoMessageRaw (NewReader (drop 16 d))) = Inr raw" (is "?l \<longleftrightarrow> ?r")
proof -
  obtain k iv where kdf: "kdf_at sha authKey (go_slice data 8 24) 8 = (k, iv)" by fastforce
  have dl: "IGEDecrypt D c k iv = Inr p \<Longrightarrow> length c mod 16 = 0 \<Longrightarrow> length p = length c" for c p
    using ige_under_decrypt [OF assms(1) kdf, of c] by auto
  have mk: "message_key sha 8 authKey p = go_slice (sha (go_slice authKey 96 128 @ p)) 8 24" for p
    by (simp add: message_key_def)
  have "?l \<longleftrightarrow> (8 + 16 \<le> length data \<and> take 8 data = authKeyID \<and> length (drop (8 + 16) data) mod 16 = 0 \<and>
         IGEDecrypt D (drop (8 + 16) data) k iv = Inr d \<and>
         go_slice data 8 (8 + 16) = message_key sha 8 authKey d) \<and>
         go_slice d 8 16 = sessionID \<and> 32 \<le> length d \<and> 12 \<le> padding_len d \<and> padding_len d \<le> 1024 \<and>
         fst (DecodeMTProtoMessageRaw (NewReader (drop 16 d))) = Inr raw"
    using assms(3) dl [of "drop 24 data" d]
    by (auto simp: UnpackEnvelope_def KDF_def kdf mk not_less guard_simps)
  also have "\<dots> \<longleftrightarrow> ?r"
    using sealed_open_iff [OF assms(1,2), of authKey data 8 k iv d] kdf by (auto simp: opens_def)
  finally show ?thesis .
qed

lemma Unpack_iff:
  assumes "primitives_ok sha E D" and "length authKeyID = 8" and "128 \<le> length authKey"
  shows "Unpack sha D sub data sessionID authKey authKeyID = Inr (m, d) \<longleftrightarrow>
    opens sha E data sessionID authKey authKeyID d \<and>
    fst (DecodeMTProtoMessage sub (NewReader (drop 16 d))) = Inr m" (is "?l \<longleftrightarrow> ?r")
proof -
  obtain k iv where kdf: "kdf_at sha authKey (go_slice data 8 24) 8 = (k, iv)" by fastforce
  have dl: "IGEDecrypt D c k iv = Inr p \<Longrightarrow> length c mod 16 = 0 \<Longrightarrow> length p = length c" for c p
    using ige_under_decrypt [OF assms(1) kdf, of c] by auto
  have mk: "message_key sha 8 authKey p = go_slice (sha (go_slice authKey 96 128 @ p)) 8 24" for p
    by (simp add: message_key_def)
  have m4: "length p mod 16 = 0 \<Longrightarrow> (length p - 32) mod 4 = 0" for p :: bytes
    using dvd_diff_nat [of 4 "length p" 32] dvd_trans [of 4 16 "length p"] by (simp add: mod_eq_0_iff_dvd)
  have "?l \<longleftrightarrow> (8 + 16 \<le> length data \<and> take 8 data = authKeyID \<and> length (drop (8 + 16) data) mod 16 = 0 \<and>
         IGEDecrypt D (drop (8 + 16) data) k iv = Inr d \<and>
         go_slice data 8 (8 + 16) = message_key sha 8 authKey d) \<and>
         go_slice d 8 16 = sessionID \<and> 32 \<le> length d \<and> 12 \<le> padding_len d \<and> padding_len d \<le> 1024 \<and>
         fst (DecodeMTProtoMessage sub (NewReader (drop 16 d))) = Inr m"
    using assms(3) dl [of "drop 24 data" d] m4 [of d]
    by (auto simp: Unpack_def KDF_def kdf mk not_less guard_simps)
  also have "\<dots> \<longleftrightarrow> ?r"
    using sealed_open_iff [OF assms(1,2), of authKey data 8 k iv d] kdf by (auto simp: opens_def)
  finally show ?thesis .
qed

lemma encryptedPaddingLen_bounds:
  "12 \<le> encryptedPaddingLen n b" "encryptedPaddingLen n b \<le> maxEncryptedPadding"
  "(n + encryptedPaddingLen n b) mod 16 = 0"
proof -
  define u where "u = unat (b AND 0x0F)"
  have "b AND 0x0F \<le> 0x0F" by (rule word_and_le1)
  then have u: "u \<le> 15" by (simp add: word_le_nat_alt u_def)
  define pad where "pad = (16 - n mod 16) mod 16"
  have p: "pad < 16" "(n + pad) mod 16 = 0" unfolding pad_def using pad16 by simp_all
  have e: "encryptedPaddingLen n b = (if pad < 12 then pad + 16 else pad) + u * 16"
    by (simp add: encryptedPaddingLen_def pad_def u_def Let_def)
  show "12 \<le> encryptedPaddingLen n b" "encryptedPaddingLen n b \<le> maxEncryptedPadding"
    using u p(1) by (auto simp: e maxEncryptedPadding_def)
  have "n + encryptedPaddingLen n b = (n + pad) + 16 * (u + (if pad < 12 then 1 else 0))"
    by (simp add: e)
  then show "(n + encryptedPaddingLen n b) mod 16 = 0" using p(2) by (simp only: mod_mult_self2)
qed

lemma pack_data_sealed:
  assumes "primitives_ok sha E D" and "120 \<le> length authKey"
    and "rand1 1 = Some [j]" and pad: "rand2 (encryptedPaddingLen (length b) j) = Some padding"
    and "length padding = encryptedPaddingLen (length b) j"
  shows "pack_data sha E rand1 rand2 b authKey authKeyID = Inr (sealed sha E 0 authKey authKeyID (b @ padding))"
proof -
  define d where "d = b @ padding"
  define mk where "mk = message_key sha 0 authKey d"
  obtain k iv where kdf: "kdf_at sha authKey mk 0 = (k, iv)" by fastforce
  have "length d mod 16 = 0" using assms(5) encryptedPaddingLen_bounds(3) by (simp add: d_def)
  from ige_under_open [OF assms(1) kdf this] obtain c where c: "ige_under sha E 0 authKey mk d = Inr c" by blast
  then have "IGEEncrypt E d k iv = Inr c" by (simp add: ige_under_def kdf)
  moreover have "\<not> maxEncryptedPadding < encryptedPaddingLen (length b) j"
    using encryptedPaddingLen_bounds(2) by (simp add: not_less)
  ultimately show ?thesis
    using assms(2,3) pad c kdf
    by (simp add: pack_data_def Let_def KDF_def sealed_def d_def [symmetric] mk_def [symmetric]
        mk_def [unfolded message_key_def, simplified, symmetric])
qed

lemma map_sum_Inr_iff:
  "map_sum id f x = Inr m \<longleftrightarrow> (\<exists>y. x = Inr y \<and> m = f y)"
  "Inr m = map_sum id f x \<longleftrightarrow> (\<exists>y. x = Inr y \<and> m = f y)"
  by (cases x; auto)+

lemma encode_message_body:
  "EncodeMTProtoMessage gz (MTProtoMessage msgID seqNo body) =
     (case EncodeTLObject gz body of
        Inl e \<Rightarrow> Inl e
      | Inr b \<Rightarrow> Inr (le_bytes 8 msgID @ le_bytes 4 seqNo @ le_bytes 4 (word_of_nat (length b) :: u32) @ b))"
  by (simp add: WriteInt_def WriteLong_def split: sum.split)

lemma envelope_parts:
  "WriteInt (WriteInt (WriteLong (WriteLong [] salt @ sessionID) msgID) seqNo) (word_of_nat (length body)) @ body
   @ padding = envelope salt sessionID msgID seqNo body padding"
  by (simp add: envelope_def WriteInt_def WriteLong_def)

lemma sealed_envelope_accepted:
  assumes "primitives_ok sha E D" and "128 \<le> length authKey" and "length authKeyID = 8" and "length sessionID = 8"
    and b: "length (raw_BodyRaw raw) \<le> 2 ^ 24" and "12 \<le> length padding" and "length padding \<le> 1024"
    and d: "d = envelope salt sessionID (raw_MsgID raw) (raw_SeqNo raw) (raw_BodyRaw raw) padding"
    and "length d mod 16 = 0"
  shows "UnpackEnvelope sha D (sealed sha E 8 authKey authKeyID d) sessionID authKey authKeyID = Inr (raw, d)"
proof -
  have "32 \<le> length d" using d assms(4) by (simp add: length_envelope)
  then show ?thesis
    using envelope_reads_back [OF assms(4) b d] assms(6,7,9)
    by (simp add: UnpackEnvelope_iff [OF assms(1,3,2)] opens_def)
qed

section \<open>Properties of messages\<close>

text \<open>Property C18 (refinement): an incoming frame is accepted by UnpackEnvelope exactly when it is the MTProto
  sealing, with this authorization key and in the direction from the server, of a plaintext that
  carries this session's id, a body of at most 2^24 bytes and 12 to 1024 bytes of padding; the
  message returned is the one in that plaintext. So no frame that was altered in any byte, belongs
  to another session or key, or travels in the other direction is accepted, and every well-formed
  frame of the server is.\<close>

theorem envelope_accepted_iff_sealed:
  assumes "primitives_ok sha E D" and "length authKey = 256" and "length authKeyID = 8" and "length sessionID = 8"
  shows "UnpackEnvelope sha D data sessionID authKey authKeyID = Inr (raw, d) \<longleftrightarrow>
    (\<exists>salt padding.
       d = envelope salt sessionID (raw_MsgID raw) (raw_SeqNo raw) (raw_BodyRaw raw) padding \<and>
       length (raw_BodyRaw raw) \<le> 2 ^ 24 \<and> 12 \<le> length padding \<and> length padding \<le> 1024 \<and>
       length d mod 16 = 0 \<and> data = sealed sha E 8 authKey authKeyID d)" (is "_ \<longleftrightarrow> ?r")
proof -
  have k: "128 \<le> length authKey" using assms(2) by simp
  note iff = UnpackEnvelope_iff [OF assms(1,3) k]
  show ?thesis
  proof (unfold iff, intro iffI; (elim conjE exE)?)
    assume o: "opens sha E data sessionID authKey authKeyID d"
      and dec: "fst (DecodeMTProtoMessageRaw (NewReader (drop 16 d))) = Inr raw"
    then have "go_slice d 8 16 = sessionID" "32 \<le> length d" by (simp_all add: opens_def)
    from envelope_decoded [OF this dec] o show ?r by (fastforce simp: opens_def)
  next
    fix salt padding
    assume d: "d = envelope salt sessionID (raw_MsgID raw) (raw_SeqNo raw) (raw_BodyRaw raw) padding"
      and b: "length (raw_BodyRaw raw) \<le> 2 ^ 24" and p: "12 \<le> length padding" "length padding \<le> 1024"
      and al: "length d mod 16 = 0" and data: "data = sealed sha E 8 authKey authKeyID d"
    show "opens sha E data sessionID authKey authKeyID d \<and>
        fst (DecodeMTProtoMessageRaw (NewReader (drop 16 d))) = Inr raw"
      unfolding iff [symmetric] data
      by (rule sealed_envelope_accepted [OF assms(1) k assms(3,4) b p d al])
  qed
qed

text \<open>The stand-ins of the witnesses: a constant digest and a block cipher that reverses a block.\<close>

lemma stand_in_primitives: "primitives_ok (\<lambda>_. replicate 32 1) (\<lambda>_. rev) (\<lambda>_. rev)"
  by (simp add: primitives_ok_def block_cipher_ok_def)

theorem envelope_accepted_iff_sealed_witness:
  "UnpackEnvelope (\<lambda>_. replicate 32 1) (\<lambda>_. rev)
     (sealed (\<lambda>_. replicate 32 1) (\<lambda>_. rev) 8 (replicate 256 9) (replicate 8 3)
        (envelope 5 (replicate 8 2) 6 7 [1, 2, 3, 4] (replicate 12 0)))
     (replicate 8 2) (replicate 256 9) (replicate 8 3) =
   Inr (\<lparr>raw_MsgID = 6, raw_SeqNo = 7, raw_BodyRaw = [1, 2, 3, 4]\<rparr>,
        envelope 5 (replicate 8 2) 6 7 [1, 2, 3, 4] (replicate 12 0))"
  by (subst envelope_accepted_iff_sealed [OF stand_in_primitives])
    (fastforce simp: length_envelope)+

text \<open>Property C19 (functional): an outgoing message is sealed for the direction to the server. When the
  random source answers, PackRaw returns the sealing of the plaintext with 12 to 267 bytes of
  random padding, aligned to the block size; whoever derives the keys from the message key
  recovers exactly that plaintext; and Pack of an object returns what PackRaw returns for its
  encoding, or the encoding's error.\<close>

theorem packed_message_is_sealed:
  assumes "primitives_ok sha E D" and "length authKey = 256" and "length authKeyID = 8" and "length sessionID = 8"
    and "rand1 1 = Some [j]" and "\<And>n. rand2 n = Some (r n) \<and> length (r n) = n"
  shows "(\<exists>padding out.
      PackRaw sha E rand1 rand2 msgID seqNo body salt sessionID authKey authKeyID = Inr out \<and>
      out = sealed sha E 0 authKey authKeyID (envelope salt sessionID msgID seqNo body padding) \<and>
      12 \<le> length padding \<and> length padding \<le> 267 \<and>
      (length body + length padding) mod 16 = 0 \<and>
      (let (key, iv) = KDF sha authKey (go_slice out 8 24) True
       in IGEDecrypt D (drop 24 out) key iv = Inr (envelope salt sessionID msgID seqNo body padding))) \<and>
    Pack sha E gz rand1 rand2 (MTProtoMessage msgID seqNo obj) salt sessionID authKey authKeyID =
      (case EncodeTLObject gz obj of
         Inl e \<Rightarrow> Inl (CryptoTL e)
       | Inr b \<Rightarrow> PackRaw sha E rand1 rand2 msgID seqNo b salt sessionID authKey authKeyID)"
proof (intro conjI)
  define b where "b = WriteInt (WriteInt (WriteLong (WriteLong [] salt @ sessionID) msgID) seqNo)
                        (word_of_nat (length body)) @ body"
  define padding where "padding = r (encryptedPaddingLen (length b) j)"
  define d where "d = envelope salt sessionID msgID seqNo body padding"
  define out where "out = sealed sha E 0 authKey authKeyID d"
  have bd: "b @ padding = d" by (simp add: b_def d_def envelope_parts)
  have lb: "length b = 32 + length body"
    using assms(4) by (simp add: b_def WriteInt_def WriteLong_def)
  have lp: "length padding = encryptedPaddingLen (length b) j" using assms(6) by (simp add: padding_def)
  have "pack_data sha E rand1 rand2 b authKey authKeyID = Inr (sealed sha E 0 authKey authKeyID (b @ padding))"
    by (rule pack_data_sealed [where j = j]) (use assms lp in \<open>simp_all add: padding_def\<close>)
  then have pk: "PackRaw sha E rand1 rand2 msgID seqNo body salt sessionID authKey authKeyID = Inr out"
    by (simp add: PackRaw_def b_def [symmetric] bd out_def)
  have al: "length d mod 16 = 0"
    using encryptedPaddingLen_bounds(3) [of "length b" j] lp by (simp add: bd [symmetric])
  obtain k iv where kdf: "kdf_at sha authKey (go_slice out 8 (8 + 16)) 0 = (k, iv)" by fastforce
  have "IGEDecrypt D (drop 24 out) k iv = Inr d"
    using sealed_open_iff [OF assms(1,3) kdf, of d] al by (simp add: out_def)
  moreover have "(length body + length padding) mod 16 = 0"
    using al lb by (simp add: bd [symmetric] lp mod_add_left_eq [symmetric, of "32 + _"]) presburger
  ultimately show "\<exists>padding out.
      PackRaw sha E rand1 rand2 msgID seqNo body salt sessionID authKey authKeyID = Inr out \<and>
      out = sealed sha E 0 authKey authKeyID (envelope salt sessionID msgID seqNo body padding) \<and>
      12 \<le> length padding \<and> length padding \<le> 267 \<and> (length body + length padding) mod 16 = 0 \<and>
      (let (key, iv) = KDF sha authKey (go_slice out 8 24) True
       in IGEDecrypt D (drop 24 out) key iv = Inr (envelope salt sessionID msgID seqNo body padding))"
    using pk kdf encryptedPaddingLen_bounds(1,2) [of "length b" j] lp
    by (auto simp: out_def d_def KDF_def maxEncryptedPadding_def)
  show "Pack sha E gz rand1 rand2 (MTProtoMessage msgID seqNo obj) salt sessionID authKey authKeyID =
      (case EncodeTLObject gz obj of
         Inl e \<Rightarrow> Inl (CryptoTL e)
       | Inr b \<Rightarrow> PackRaw sha E rand1 rand2 msgID seqNo b salt sessionID authKey authKeyID)"
    by (simp add: Pack_def PackRaw_def WriteInt_def WriteLong_def split: sum.split)
qed

theorem packed_message_is_sealed_witness:
  "(\<exists>padding out.
      PackRaw (\<lambda>_. replicate 32 1) (\<lambda>_. rev) (\<lambda>_. Some [4]) (\<lambda>n. Some (replicate n 8)) 6 7 [1, 2, 3, 4] 5
        (replicate 8 2) (replicate 256 9) (replicate 8 3) = Inr out \<and>
      out = sealed (\<lambda>_. replicate 32 1) (\<lambda>_. rev) 0 (replicate 256 9) (replicate 8 3)
              (envelope 5 (replicate 8 2) 6 7 [1, 2, 3, 4] padding) \<and>
      12 \<le> length padding \<and> length padding \<le> 267 \<and>
      (length [1, 2, 3, 4 :: u8] + length padding) mod 16 = 0 \<and>
      (let (key, iv) = KDF (\<lambda>_. replicate 32 1) (replicate 256 9) (go_slice out 8 24) True
       in IGEDecrypt (\<lambda>_. rev) (drop 24 out) key iv =
            Inr (envelope 5 (replicate 8 2) 6 7 [1, 2, 3, 4] padding))) \<and>
    Pack (\<lambda>_. replicate 32 1) (\<lambda>_. rev) id (\<lambda>_. Some [4]) (\<lambda>n. Some (replicate n 8))
        (MTProtoMessage 6 7 (Generated 9 [])) 5 (replicate 8 2) (replicate 256 9) (replicate 8 3) =
      (case EncodeTLObject id (Generated 9 []) of
         Inl e \<Rightarrow> Inl (CryptoTL e)
       | Inr b \<Rightarrow> PackRaw (\<lambda>_. replicate 32 1) (\<lambda>_. rev) (\<lambda>_. Some [4]) (\<lambda>n. Some (replicate n 8)) 6 7 b 5
                    (replicate 8 2) (replicate 256 9) (replicate 8 3))"
  by (rule packed_message_is_sealed [OF stand_in_primitives, where r = "\<lambda>n. replicate n 8"]) simp_all

text \<open>The two receivers agree. Unpack returns a message exactly when UnpackEnvelope
  returns its envelope with the same decrypted bytes and the body decodes, and then it is that
  envelope's id and sequence number with the decoded body; the additional alignment test of Unpack
  never decides.\<close>

theorem unpack_agrees_with_envelope:
  assumes "primitives_ok sha E D" and "length authKey = 256" and "length authKeyID = 8"
  shows "Unpack sha D sub data sessionID authKey authKeyID = Inr (m, d) \<longleftrightarrow>
    (\<exists>raw obj. UnpackEnvelope sha D data sessionID authKey authKeyID = Inr (raw, d) \<and>
       fst (sub (NewReader (raw_BodyRaw raw))) = Inr obj \<and>
       m = MTProtoMessage (raw_MsgID raw) (raw_SeqNo raw) obj)"
proof -
  have k: "128 \<le> length authKey" using assms(2) by simp
  have "opens sha E data sessionID authKey authKeyID d \<Longrightarrow> 16 \<le> length (drop 16 d)"
    by (auto simp: opens_def)
  from decode_message_eq [OF this, of sub] show ?thesis
    unfolding Unpack_iff [OF assms(1,3) k] UnpackEnvelope_iff [OF assms(1,3) k]
    by (auto simp: map_sum_Inr_iff split: sum.splits)
qed

theorem unpack_agrees_with_envelope_witness:
  "Unpack (\<lambda>_. replicate 32 1) (\<lambda>_. rev) (\<lambda>r. (Inr (Generated 9 (rd_b r)), r))
     (sealed (\<lambda>_. replicate 32 1) (\<lambda>_. rev) 8 (replicate 256 9) (replicate 8 3)
        (envelope 5 (replicate 8 2) 6 7 [1, 2, 3, 4] (replicate 12 0)))
     (replicate 8 2) (replicate 256 9) (replicate 8 3) =
   Inr (MTProtoMessage 6 7 (Generated 9 [1, 2, 3, 4]),
        envelope 5 (replicate 8 2) 6 7 [1, 2, 3, 4] (replicate 12 0))"
proof -
  let ?raw = "\<lparr>raw_MsgID = 6, raw_SeqNo = 7, raw_BodyRaw = [1, 2, 3, 4]\<rparr>"
  have "UnpackEnvelope (\<lambda>_. replicate 32 1) (\<lambda>_. rev)
     (sealed (\<lambda>_. replicate 32 1) (\<lambda>_. rev) 8 (replicate 256 9) (replicate 8 3)
        (envelope 5 (replicate 8 2) 6 7 [1, 2, 3, 4] (replicate 12 0)))
     (replicate 8 2) (replicate 256 9) (replicate 8 3) =
     Inr (?raw, envelope 5 (replicate 8 2) 6 7 [1, 2, 3, 4] (replicate 12 0))"
    by (rule sealed_envelope_accepted [OF stand_in_primitives, where salt = 5 and padding = "replicate 12 0"])
      (simp_all add: length_envelope)
  then show ?thesis
    by (subst unpack_agrees_with_envelope [OF stand_in_primitives])
      (auto simp: NewReader_def intro!: exI [of _ ?raw])
qed

section \<open>Properties of secret chats\<close>

lemma secret_padding:
  "SecretChatMinPadding \<le> secret_padding_len draw len"
  "(4 + len + secret_padding_len draw len) mod 16 = 0"
proof -
  define p where "p = SecretChatMinPadding + cryptoRandIntn draw (SecretChatMaxPadding - SecretChatMinPadding)"
  have e: "secret_padding_len draw len =
      (if (4 + len + p) mod 16 \<noteq> 0 then p + (16 - (4 + len + p) mod 16) else p)"
    by (simp add: secret_padding_len_def p_def Let_def)
  have "SecretChatMinPadding \<le> p" by (simp add: p_def)
  also have "p \<le> secret_padding_len draw len"
    by (auto simp only: e le_add1 split: if_splits)
  finally show "SecretChatMinPadding \<le> secret_padding_len draw len" .
  have "(n + (if n mod 16 \<noteq> 0 then 16 - n mod 16 else 0)) mod 16 = 0" for n :: nat
    by (cases "n mod 16 = 0") (simp_all only: pad16_full if_True if_False simp_thms add_0_right)
  from this [of "4 + len + p"] show "(4 + len + secret_padding_len draw len) mod 16 = 0"
    by (simp add: e add.assoc split: if_splits)
qed

lemma SecretDecrypt_iff:
  assumes "primitives_ok sha E D" and "length key = 256" and x: "x = (if \<not> outgoing then 8 else 0)"
  shows "SecretDecrypt sha D c key outgoing = Inr p \<longleftrightarrow>
    (\<exists>d. c = sealed sha E x key [] d \<and> length d mod 16 = 0 \<and> 4 + length p + SecretChatMinPadding \<le> length d \<and>
       le_word (take 4 d) = (word_of_nat (length p) :: u32) \<and> length p < 2 ^ 32 \<and> take (length p) (drop 4 d) = p)"
    (is "?l \<longleftrightarrow> ?r")
proof -
  obtain k iv where kdf: "kdf_at sha key (go_slice c 0 (0 + 16)) x = (k, iv)" by fastforce
  have xs: "x \<le> 8" by (simp add: x)
  have mk: "message_key sha x key d = go_slice (sha (go_slice key (x + 88) (x + 120) @ d)) 8 24" for d
    by (simp add: message_key_def add.commute)
  have dl: "IGEDecrypt D e k iv = Inr d \<Longrightarrow> length e mod 16 = 0 \<Longrightarrow> length d = length e" for e d
    using ige_under_decrypt [OF assms(1) kdf, of e] by auto
  have al: "IGEDecrypt D e k iv = Inr d \<Longrightarrow> length e mod 16 = 0" for e d
    by (simp add: IGEDecrypt_def split: if_splits)
  have "?l \<longleftrightarrow> (\<exists>d. (0 + 16 \<le> length c \<and> take 0 c = [] \<and> length (drop (0 + 16) c) mod 16 = 0 \<and>
         IGEDecrypt D (drop (0 + 16) c) k iv = Inr d \<and> go_slice c 0 (0 + 16) = message_key sha x key d) \<and>
       4 + unat (le_word (take 4 d) :: u32) + SecretChatMinPadding \<le> length d \<and>
       p = go_slice d 4 (4 + unat (le_word (take 4 d) :: u32)))"
    using assms(2) xs kdf al dl
    by (auto simp: SecretDecrypt_def secretKDF_def Let_def x [symmetric] mk guard_simps not_less SecretChatMinPadding_def)
  also have "\<dots> \<longleftrightarrow> (\<exists>d. (length d mod 16 = 0 \<and> c = sealed sha E x key [] d) \<and>
       4 + unat (le_word (take 4 d) :: u32) + SecretChatMinPadding \<le> length d \<and>
       p = go_slice d 4 (4 + unat (le_word (take 4 d) :: u32)))"
    by (simp only: sealed_open_iff [OF assms(1) list.size(3) kdf])
  also have "\<dots> \<longleftrightarrow> ?r"
  proof -
    have "4 + unat w + SecretChatMinPadding \<le> length d \<and> p = go_slice d 4 (4 + unat w) \<longleftrightarrow>
      4 + length p + SecretChatMinPadding \<le> length d \<and> unat w = length p \<and> take (length p) (drop 4 d) = p"
      for w :: u32 and d by (auto simp: go_slice_def)
    note fields = this [of "le_word (take 4 d)" d for d, unfolded len_field_iff]
    show ?thesis by (intro iff_exI) (auto simp: fields [unfolded len_field_iff])
  qed
  finally show ?thesis .
qed

lemma SecretEncrypt_sealed:
  assumes "primitives_ok sha E D" and "length key = 256" and "plaintext \<noteq> []"
    and x: "x = (if \<not> outgoing then 8 else 0)"
    and "rand (secret_padding_len draw (length plaintext)) = Some padding"
    and "length padding = secret_padding_len draw (length plaintext)"
  shows "SecretEncrypt sha E draw rand plaintext key outgoing =
    Inr (sealed sha E x key [] (le_bytes 4 (word_of_nat (length plaintext) :: u32) @ plaintext @ padding))"
proof -
  define d where "d = le_bytes 4 (word_of_nat (length plaintext) :: u32) @ plaintext @ padding"
  define mk where "mk = message_key sha x key d"
  obtain k iv where kdf: "kdf_at sha key mk x = (k, iv)" by fastforce
  have mk': "mk = go_slice (sha (go_slice key (x + 88) (x + 120) @ d)) 8 24"
    by (simp add: mk_def message_key_def add.commute)
  have "length d mod 16 = 0"
    using assms(6) secret_padding(2) [of "length plaintext" draw] by (simp add: d_def add.assoc)
  from ige_under_open [OF assms(1) kdf this] obtain c where c: "ige_under sha E x key mk d = Inr c" by blast
  then have "IGEEncrypt E d k iv = Inr c" by (simp add: ige_under_def kdf)
  moreover have "x + 120 \<le> length key" using assms(2) by (simp add: x)
  ultimately show ?thesis
    using assms(3,5) kdf c
    by (simp add: SecretEncrypt_def Let_def secretKDF_def x [symmetric] d_def [symmetric] mk' [symmetric]
        sealed_def mk_def [symmetric])
qed

text \<open>Secret-chat messages. Every non-empty message below 2^32 bytes that SecretEncrypt
  encrypts is returned by SecretDecrypt under the same key and direction, whatever padding was
  drawn; and SecretDecrypt accepts nothing else than sealings under that key and direction of a
  length, the message and at least 12 bytes of padding.\<close>

theorem secret_chat_roundtrip:
  assumes "primitives_ok sha E D" and "length key = 256"
    and "plaintext \<noteq> []" and "length plaintext < 2 ^ 32"
    and "\<And>n. rand n = Some (r n) \<and> length (r n) = n"
  shows "(\<exists>c. SecretEncrypt sha E draw rand plaintext key outgoing = Inr c \<and>
              SecretDecrypt sha D c key outgoing = Inr plaintext) \<and>
         (SecretDecrypt sha D c' key outgoing = Inr q \<longrightarrow>
          (\<exists>d padding. c' = sealed sha E (if outgoing then 0 else 8) key [] d \<and>
             d = le_bytes 4 (word_of_nat (length q) :: u32) @ q @ padding \<and> 12 \<le> length padding))"
proof (intro conjI impI)
  define padding where "padding = r (secret_padding_len draw (length plaintext))"
  define d where "d = le_bytes 4 (word_of_nat (length plaintext) :: u32) @ plaintext @ padding"
  have lp: "length padding = secret_padding_len draw (length plaintext)"
    using assms(5) by (simp add: padding_def)
  have "SecretEncrypt sha E draw rand plaintext key outgoing =
      Inr (sealed sha E (if \<not> outgoing then 8 else 0) key [] d)"
    unfolding d_def by (rule SecretEncrypt_sealed [OF assms(1-3)]) (use assms(5) lp in \<open>simp_all add: padding_def\<close>)
  moreover have "SecretDecrypt sha D (sealed sha E (if \<not> outgoing then 8 else 0) key [] d) key outgoing = Inr plaintext"
    unfolding SecretDecrypt_iff [OF assms(1,2) refl]
    using secret_padding(1) [of draw] secret_padding(2) [of "length plaintext" draw] lp assms(4)
    by (intro exI [of _ d]) (simp add: d_def add.assoc)
  ultimately show "\<exists>c. SecretEncrypt sha E draw rand plaintext key outgoing = Inr c \<and>
      SecretDecrypt sha D c key outgoing = Inr plaintext" by blast
next
  assume "SecretDecrypt sha D c' key outgoing = Inr q"
  then obtain d where d: "c' = sealed sha E (if \<not> outgoing then 8 else 0) key [] d"
      "4 + length q + SecretChatMinPadding \<le> length d"
      "le_word (take 4 d) = (word_of_nat (length q) :: u32)" "take (length q) (drop 4 d) = q"
    unfolding SecretDecrypt_iff [OF assms(1,2) refl] by blast
  have "take 4 d = le_bytes 4 (word_of_nat (length q) :: u32)"
    using d(2,3) le_bytes_le_word [where ?'a = 32, of "take 4 d" 4] by simp
  then have "d = le_bytes 4 (word_of_nat (length q) :: u32) @ q @ drop (length q) (drop 4 d)"
    using d(4) by (metis append_take_drop_id)
  with d(1,2) show "\<exists>d padding. c' = sealed sha E (if outgoing then 0 else 8) key [] d \<and>
      d = le_bytes 4 (word_of_nat (length q) :: u32) @ q @ padding \<and> 12 \<le> length padding"
    by (intro exI [of _ d] exI [of _ "drop (length q) (drop 4 d)"])
      (auto simp: SecretChatMinPadding_def)
qed

theorem secret_chat_roundtrip_witness:
  "\<exists>c d padding.
     SecretEncrypt (\<lambda>_. replicate 32 1) (\<lambda>_. rev) (Some 3) (\<lambda>n. Some (replicate n 8)) [1, 2, 3] (replicate 256 9) True = Inr c \<and>
     SecretDecrypt (\<lambda>_. replicate 32 1) (\<lambda>_. rev) c (replicate 256 9) True = Inr [1, 2, 3] \<and>
     c = sealed (\<lambda>_. replicate 32 1) (\<lambda>_. rev) 0 (replicate 256 9) [] d \<and>
     d = le_bytes 4 (3 :: u32) @ [1, 2, 3] @ padding \<and> 12 \<le> length padding"
proof -
  have r: "Some (replicate n (8 :: u8)) = Some (replicate n 8) \<and> length (replicate n (8 :: u8)) = n" for n by simp
  note rt = secret_chat_roundtrip [OF stand_in_primitives _ _ _ r, of "replicate 256 9" "[1, 2, 3]" "Some 3" True]
  from rt obtain c where
    c: "SecretEncrypt (\<lambda>_. replicate 32 1) (\<lambda>_. rev) (Some 3) (\<lambda>n. Some (replicate n 8)) [1, 2, 3] (replicate 256 9) True = Inr c"
      "SecretDecrypt (\<lambda>_. replicate 32 1) (\<lambda>_. rev) c (replicate 256 9) True = Inr [1, 2, 3]" by auto
  from rt [of c "[1, 2, 3]"] c(2) obtain d padding where
    "c = sealed (\<lambda>_. replicate 32 1) (\<lambda>_. rev) 0 (replicate 256 9) [] d"
    "d = le_bytes 4 (3 :: u32) @ [1, 2, 3] @ padding" "12 \<le> length padding" by auto
  with c show ?thesis by blast
qed

text \<open>Files: decryption returns the file with its padding, because the length is not stored.\<close>

lemma file_roundtrip:
  assumes "block_cipher_ok E D key" and "length key = 32" and "length iv = 32"
  shows "\<exists>c. EncryptFile E data key iv = Inr c \<and> DecryptFile D c key iv = Inr (padFile data)"
proof -
  have "length (padFile data) mod 16 = 0"
    using pad16_full [of "length data"] mod_less_divisor [of 16 "length data"]
    by (simp add: padFile_def Let_def del: diff_is_0_eq)
  with IGE_decrypt_encrypt [OF assms(1) aes_key_ok [OF assms(2)] assms(3) this]
  obtain c where "IGEEncrypt E (padFile data) key iv = Inr c" "IGEDecrypt D c key iv = Inr (padFile data)"
    "length c mod 16 = 0" by auto
  then show ?thesis by (simp add: EncryptFile_def DecryptFile_def)
qed

end
