(* ===== verification/Big_Integers.thy ===== *)
theory Big_Integers
  imports Mtgo_Prelude
begin

text \<open>
  The part of Go's math/big the sources use: non-negative integers with their big-endian bytes
  (SetBytes, Bytes, BitLen) and modular exponentiation. Negative values occur only as intermediate
  differences, so the type is \<^typ>\<open>int\<close>.
\<close>

definition SetBytes :: "bytes \<Rightarrow> int" where
  "SetBytes b = foldl (\<lambda>a w. a * 256 + uint w) 0 b"

text \<open>Bytes: the absolute value without leading zero bytes, most significant first.\<close>

function big_Bytes :: "nat \<Rightarrow> bytes" where
  "big_Bytes n = (if n = 0 then [] else big_Bytes (n div 256) @ [word_of_nat n])"
  by pat_completeness auto
termination by (relation "measure id") auto

declare big_Bytes.simps [simp del]

definition Big_Bytes :: "int \<Rightarrow> bytes" where
  "Big_Bytes x = big_Bytes (nat \<bar>x\<bar>)"

function bit_len :: "nat \<Rightarrow> nat" where
  "bit_len n = (if n = 0 then 0 else Suc (bit_len (n div 2)))"
  by pat_completeness auto
termination by (relation "measure id") auto

declare bit_len.simps [simp del]

definition BitLen :: "int \<Rightarrow> nat" where
  "BitLen x = bit_len (nat \<bar>x\<bar>)"

text \<open>Exp(b, e, m) for a modulus above 1 and a non-negative exponent.\<close>

definition big_Exp :: "int \<Rightarrow> nat \<Rightarrow> int \<Rightarrow> int" where
  "big_Exp b e m = b ^ e mod m"

text \<open>Square and multiply, for evaluation.\<close>

lemma big_Exp_code [code]:
  "big_Exp b e m =
     (if e = 0 then 1 mod m
      else let h = big_Exp b (e div 2) m
           in if even e then h * h mod m else b * (h * h mod m) mod m)"
proof (cases "e = 0")
  case False
  have sq: "(b ^ k mod m) * (b ^ k mod m) mod m = b ^ (2 * k) mod m" for k
    by (simp add: mod_mult_eq power_add [symmetric] mult_2)
  show ?thesis
  proof (cases "even e")
    case True
    then show ?thesis using False sq [of "e div 2"] by (simp add: big_Exp_def Let_def)
  next
    case odd: False
    then have "e = Suc (2 * (e div 2))" by simp
    then have "b ^ e mod m = b * (b ^ (2 * (e div 2)) mod m) mod m"
      by (metis mod_mult_right_eq power_Suc)
    then show ?thesis using False odd sq [of "e div 2"] by (simp add: big_Exp_def Let_def)
  qed
qed (simp add: big_Exp_def)

lemma SetBytes_Nil [simp]: "SetBytes [] = 0"
  by (simp add: SetBytes_def)

lemma SetBytes_snoc [simp]: "SetBytes (b @ [w]) = SetBytes b * 256 + uint w"
  by (simp add: SetBytes_def)

lemma SetBytes_nonneg: "0 \<le> SetBytes b"
  by (induction b rule: rev_induct) simp_all

lemma SetBytes_append: "SetBytes (a @ b) = SetBytes a * 256 ^ length b + SetBytes b"
proof (induction b rule: rev_induct)
  case (snoc w b)
  then show ?case by (simp add: append_assoc [symmetric] algebra_simps del: append_assoc)
qed simp

lemma SetBytes_zeros [simp]: "SetBytes (replicate k 0 @ b) = SetBytes b"
proof -
  have "SetBytes (replicate k 0) = 0"
    by (induction k) (simp_all add: replicate_append_same [symmetric])
  then show ?thesis by (simp add: SetBytes_append)
qed

lemma SetBytes_less: "SetBytes b < 256 ^ length b"
proof (induction b rule: rev_induct)
  case (snoc w b)
  have "uint w < 256" using unsigned_less [where ?'a = int, of w] by simp
  with snoc show ?case by simp
qed simp

lemma SetBytes_Bytes_nat: "SetBytes (big_Bytes n) = int n"
proof (induction n rule: big_Bytes.induct)
  case (1 n)
  show ?case
  proof (cases "n = 0")
    case False
    then have "SetBytes (big_Bytes n) = int (n div 256) * 256 + int (n mod 256)"
      using 1 by (simp add: big_Bytes.simps [of n] unsigned_of_nat take_bit_eq_mod zmod_int)
    then show ?thesis by (metis div_mult_mod_eq of_nat_add of_nat_mult of_nat_numeral)
  qed (simp add: big_Bytes.simps)
qed

lemma SetBytes_Bytes [simp]: "0 \<le> x \<Longrightarrow> SetBytes (Big_Bytes x) = x"
  by (simp add: Big_Bytes_def SetBytes_Bytes_nat)

lemma length_big_Bytes: "n < 256 ^ k \<Longrightarrow> length (big_Bytes n) \<le> k"
proof (induction n arbitrary: k rule: big_Bytes.induct)
  case (1 n)
  show ?case
  proof (cases "n = 0")
    case False
    with 1(2) obtain j where k: "k = Suc j" by (cases k) auto
    with 1(2) have "n div 256 < 256 ^ j" by (simp add: less_mult_imp_div_less mult.commute)
    with 1(1) False have "length (big_Bytes (n div 256)) \<le> j" by blast
    then show ?thesis using False k by (simp add: big_Bytes.simps [of n])
  qed (simp add: big_Bytes.simps)
qed

text \<open>Byte strings of one length are determined by their value.\<close>

lemma base256_digit:
  fixes a b v w :: int
  assumes "a * 256 + w = b * 256 + v" and "w < 256" and "v < 256" and "0 \<le> w" and "0 \<le> v"
  shows "a = b" and "w = v"
proof -
  have "(a * 256 + w) div 256 = a" "(b * 256 + v) div 256 = b" using assms by simp_all
  with assms(1) show "a = b" by simp
  with assms(1) show "w = v" by simp
qed

lemma SetBytes_inj: "length a = length b \<Longrightarrow> SetBytes a = SetBytes b \<Longrightarrow> a = b"
proof (induction a arbitrary: b rule: rev_induct)
  case (snoc w a)
  then obtain v c where b: "b = c @ [v]" by (cases b rule: rev_cases) auto
  have "SetBytes a * 256 + uint w = SetBytes c * 256 + uint v" using snoc b by simp
  moreover have "uint w < 256" "uint v < 256" "0 \<le> uint w" "0 \<le> uint v"
    using unsigned_less [where ?'a = int, of w] unsigned_less [where ?'a = int, of v] by simp_all
  ultimately have "SetBytes a = SetBytes c" "uint w = uint v" by (rule base256_digit)+
  with snoc b show ?case by (simp add: word_uint_eq_iff)
qed simp

lemma bit_len_less: "n < 2 ^ bit_len n"
proof (induction n rule: bit_len.induct)
  case (1 n)
  show ?case
  proof (cases "n = 0")
    case False
    with 1 have "n div 2 < 2 ^ bit_len (n div 2)" by simp
    then show ?thesis using False by (simp add: bit_len.simps [of n])
  qed simp
qed

lemma length_Big_Bytes_2048:
  assumes "BitLen known = 2048" and "0 \<le> x" and "x \<le> known"
  shows "length (Big_Bytes x) \<le> 256"
proof -
  have "nat \<bar>known\<bar> < 2 ^ (8 * 256)" using bit_len_less [of "nat \<bar>known\<bar>"] assms(1) by (simp add: BitLen_def)
  also have "(2 :: nat) ^ (8 * 256) = 256 ^ 256" unfolding power_mult by simp
  finally have "nat \<bar>x\<bar> < 256 ^ 256" using assms(2,3) by (elim le_less_trans [rotated]) simp
  from length_big_Bytes [OF this] show ?thesis by (simp add: Big_Bytes_def)
qed

lemma bit_len_power: "bit_len (2 ^ n) = Suc n"
  by (induction n) (simp_all add: bit_len.simps)

end
