(* ===== verification/Factorization.thy ===== *)
theory Factorization
  imports Big_Integers
begin

text \<open>
  Factoring pq for the key exchange: Decompose of \<^verbatim>\<open>src/internal/crypto/prime.go\<close> (Pollard's rho with
  Brent's batching) and factorPQ of \<^verbatim>\<open>src/internal/session/auth.go\<close>. The random draws of the 64
  attempts are an argument. The loops of one attempt have no bound in the source, so they are partial
  functions whose results are shown to exist. The source keeps the batch counters in int64; they
  are naturals here, which differs only after 2^62 steps.
\<close>

section \<open>Small factors\<close>

definition smallPrimes :: "int list" where
  "smallPrimes =
     [3, 5, 7, 11, 13, 17, 19, 23, 29, 31, 37, 41, 43, 47,
      53, 59, 61, 67, 71, 73, 79, 83, 89, 97, 101, 103, 107, 109,
      113, 127, 131, 137, 139, 149, 151, 157, 163, 167, 173, 179,
      181, 191, 193, 197, 199, 211, 223, 227, 229, 233, 239, 251]"

section \<open>One attempt\<close>

definition rho_f :: "int \<Rightarrow> int \<Rightarrow> int \<Rightarrow> int" where
  "rho_f n c y = (y * y + c) mod n"

text \<open>\<^verbatim>\<open>tmp.Sub(x, y); if tmp.Sign() < 0 { tmp.Add(tmp, n) }\<close>\<close>

definition rho_diff :: "int \<Rightarrow> int \<Rightarrow> int \<Rightarrow> int" where
  "rho_diff n x y = (if x - y < 0 then x - y + n else x - y)"

primrec rho_walk :: "nat \<Rightarrow> int \<Rightarrow> int \<Rightarrow> int \<Rightarrow> int" where
  "rho_walk 0 n c y = y"
| "rho_walk (Suc i) n c y = rho_walk i n c (rho_f n c y)"

text \<open>The batch: \<open>limit\<close> steps of y, with the product of the differences.\<close>

primrec rho_batch :: "nat \<Rightarrow> int \<Rightarrow> int \<Rightarrow> int \<Rightarrow> int \<Rightarrow> int \<Rightarrow> int \<times> int" where
  "rho_batch 0 n c x y q = (y, q)"
| "rho_batch (Suc i) n c x y q =
     (let y = rho_f n c y in rho_batch i n c x y (q * rho_diff n x y mod n))"

text \<open>The loop over batches, with \<open>left = r - k\<close>: it returns y, q, g and the start ys of the last batch.\<close>

function rho_stage :: "int \<Rightarrow> int \<Rightarrow> int \<Rightarrow> nat \<Rightarrow> int \<Rightarrow> int \<Rightarrow> int \<Rightarrow> int \<Rightarrow> int \<times> int \<times> int \<times> int" where
  "rho_stage n c x left y q g ys =
     (if left > 0 \<and> g = 1
      then let limit = (if left < 128 then left else 128);
               (y', q') = rho_batch limit n c x y q
           in rho_stage n c x (left - limit) y' q' (gcd q' n) y
      else (y, q, g, ys))"
  by pat_completeness auto
termination by (relation "measure (\<lambda>(_, _, _, left, _). left)") auto

declare rho_stage.simps [simp del]

partial_function (option) rho_outer ::
  "int \<Rightarrow> int \<Rightarrow> nat \<Rightarrow> int \<Rightarrow> int \<Rightarrow> int \<Rightarrow> int \<Rightarrow> int \<Rightarrow> (int \<times> int \<times> int) option" where
  [code]: "rho_outer n c r x y q g ys =
     (if g = 1
      then let x = y;
               y = rho_walk r n c y;
               (y, q, g, ys) = rho_stage n c x r y q g ys
           in rho_outer n c (r * 2) x y q g ys
      else Some (x, g, ys))"

partial_function (option) rho_backtrack :: "int \<Rightarrow> int \<Rightarrow> int \<Rightarrow> int \<Rightarrow> int option" where
  [code]: "rho_backtrack n c x ys =
     (let ys = rho_f n c ys;
          g = gcd (rho_diff n x ys) n
      in if g > 1 then Some g else rho_backtrack n c x ys)"

text \<open>One attempt with the values drawn for c and y; the result is g.\<close>

definition rho_attempt :: "int \<Rightarrow> int \<Rightarrow> int \<Rightarrow> int option" where
  "rho_attempt n drawC drawY =
     (let c = drawC + 1;
          c = (if c = 1 then 2 else c);
          y = drawY + 1
      in case rho_outer n c 1 y y 1 1 0 of
           None \<Rightarrow> None
         | Some (x, g, ys) \<Rightarrow> if g = n then rho_backtrack n c x ys else Some g)"

text \<open>The attempts, each with its two draws; a failing random source skips the attempt.\<close>

fun rho_attempts :: "int \<Rightarrow> (int option \<times> int option) list \<Rightarrow> int option" where
  "rho_attempts pq [] = Some 0"
| "rho_attempts pq ((Some drawC, Some drawY) # draws) =
     (case rho_attempt pq drawC drawY of
        None \<Rightarrow> None
      | Some g \<Rightarrow>
          if g \<noteq> pq \<and> g \<noteq> 1
          then let other = pq div g in Some (if other < g then other else g)
          else rho_attempts pq draws)"
| "rho_attempts pq (_ # draws) = rho_attempts pq draws"

definition Decompose :: "(int option \<times> int option) list \<Rightarrow> int \<Rightarrow> int option" where
  "Decompose draws pq =
     (if pq \<le> 3 then Some 0
      else if pq mod 2 = 0 then Some 2
      else case find (\<lambda>p. pq mod p = 0) smallPrimes of
        Some p \<Rightarrow> Some p
      | None \<Rightarrow> rho_attempts pq (take 64 draws))"

section \<open>factorPQ\<close>

datatype pq_error = PQLength nat | PQValue | PQFactorization | PQFactors

text \<open>\<open>probably_prime\<close> is big.Int.ProbablyPrime(32); None when Decompose does not return.\<close>

definition factorPQ ::
  "(int \<Rightarrow> bool) \<Rightarrow> (int option \<times> int option) list \<Rightarrow> bytes \<Rightarrow> (pq_error + int \<times> int) option" where
  "factorPQ probably_prime draws pqBytes =
     (if length pqBytes = 0 \<or> length pqBytes > 8 then Some (Inl (PQLength (length pqBytes)))
      else
        let pq = SetBytes pqBytes
        in if pq \<ge> 2 ^ 63 \<or> pq \<le> 3 then Some (Inl PQValue)
           else case Decompose draws pq of
             None \<Rightarrow> None
           | Some p \<Rightarrow>
               Some (if p \<le> 1 \<or> pq mod p \<noteq> 0 then Inl PQFactorization
                     else
                       let q = pq div p
                       in if q \<le> 1 \<or> p = q \<or> \<not> probably_prime p \<or> \<not> probably_prime q then Inl PQFactors
                          else Inr (if p > q then (q, p) else (p, q))))"

section \<open>The sequence is eventually periodic\<close>

lemma rho_walk_funpow: "rho_walk i n c y = (rho_f n c ^^ i) y"
  by (induction i arbitrary: y) (simp_all add: funpow_swap1)

lemma rho_f_range: "0 < n \<Longrightarrow> rho_f n c y \<in> {0..<n}"
  by (simp add: rho_f_def)

lemma rho_repeats:
  assumes "0 < n"
  obtains i l where "1 \<le> l" "l \<le> nat n" "i \<le> nat n" "(rho_f n c ^^ (i + l)) y = (rho_f n c ^^ i) y"
proof -
  let ?z = "\<lambda>i. (rho_f n c ^^ i) y"
  have "?z ` {1..nat n + 1} \<subseteq> {0..<n}"
  proof (rule image_subsetI)
    fix i assume "i \<in> {1..nat n + 1}"
    then obtain j where "i = Suc j" by (cases i) auto
    then show "?z i \<in> {0..<n}" using rho_f_range [OF assms] by simp
  qed
  then have "card (?z ` {1..nat n + 1}) \<le> card {0..<n}" by (intro card_mono) auto
  then have "card (?z ` {1..nat n + 1}) < card {1..nat n + 1}" by simp
  then have "\<not> inj_on ?z {1..nat n + 1}" by (rule pigeonhole)
  then obtain i j where ij: "i \<in> {1..nat n + 1}" "j \<in> {1..nat n + 1}" "i < j" "?z i = ?z j"
    by (auto simp: inj_on_def) (metis linorder_neqE_nat)
  then show ?thesis by (intro that [of "j - i" i]) auto
qed

lemma rho_periodic:
  assumes "(rho_f n c ^^ (i + l)) y = (rho_f n c ^^ i) y" and "i \<le> T"
  shows "(rho_f n c ^^ (T + k * l)) y = (rho_f n c ^^ T) y"
proof (induction k)
  case (Suc k)
  let ?f = "rho_f n c"
  have "(?f ^^ (T + Suc k * l)) y = (?f ^^ (T + k * l - i)) ((?f ^^ (i + l)) y)"
    using assms(2) by (simp add: funpow_add [symmetric, THEN fun_cong, simplified o_apply] algebra_simps)
  also have "\<dots> = (?f ^^ (T + k * l)) y"
    using assms by (simp add: funpow_add [symmetric, THEN fun_cong, simplified o_apply])
  finally show ?case using Suc by simp
qed simp

text \<open>From a point on the cycle, a stage of at least \<open>n\<close> steps meets its starting point again.\<close>

lemma rho_meets:
  assumes "0 < n" and "nat n \<le> r" and "nat n \<le> T" and x: "x = (rho_f n c ^^ T) y0"
  shows "\<exists>i<r. (rho_f n c ^^ Suc i) ((rho_f n c ^^ r) x) = x"
proof -
  let ?f = "rho_f n c"
  obtain i l where l: "1 \<le> l" "l \<le> nat n" "i \<le> nat n" "(?f ^^ (i + l)) y0 = (?f ^^ i) y0"
    using rho_repeats [OF assms(1)] .
  define m where "m = (r div l + 1) * l"
  have "r = r div l * l + r mod l" "r mod l < l" using l(1) by simp_all
  then have "r < m \<and> m \<le> r + l" unfolding m_def add_mult_distrib mult_1 by linarith
  then have m: "r < m" "m \<le> r + l" by simp_all
  have "(?f ^^ (T + (r div l + 1) * l)) y0 = (?f ^^ T) y0"
    using l(3) assms(3) by (intro rho_periodic [OF l(4)]) simp
  then have "(?f ^^ m) x = x" by (simp only: x m_def [symmetric] add.commute [of T] funpow_add o_apply)
  moreover have "(?f ^^ m) x = (?f ^^ Suc (m - r - 1)) ((?f ^^ r) x)"
    using m(1) by (simp only: funpow_add [symmetric, THEN fun_cong, simplified o_apply]) simp
  ultimately show ?thesis using m l(2) assms(2) by (intro exI [of _ "m - r - 1"]) auto
qed

section \<open>Batches and stages\<close>

lemma rho_batch_y: "fst (rho_batch l n c x y q) = (rho_f n c ^^ l) y"
  by (induction l arbitrary: y q) (simp_all add: Let_def funpow_swap1)

lemma rho_batch_zero: "snd (rho_batch l n c x y 0) = 0"
  by (induction l arbitrary: y) (simp_all add: Let_def)

lemma rho_batch_hit:
  "i < l \<Longrightarrow> (rho_f n c ^^ Suc i) y = x \<Longrightarrow> snd (rho_batch l n c x y q) = 0"
proof (induction l arbitrary: i y q)
  case (Suc l)
  show ?case
  proof (cases i)
    case 0
    with Suc.prems show ?thesis by (simp add: Let_def rho_diff_def rho_batch_zero)
  next
    case (Suc j)
    with Suc.prems show ?thesis
      by (simp add: Let_def Suc.IH [of j] funpow_swap1)
  qed
qed simp

lemma rho_batch_coprime:
  assumes "1 < n" and "coprime q n"
    and "\<And>i. i < l \<Longrightarrow> coprime (rho_diff n x ((rho_f n c ^^ Suc i) y)) n"
  shows "coprime (snd (rho_batch l n c x y q)) n"
  using assms(2,3)
proof (induction l arbitrary: y q)
  case (Suc l)
  have "coprime (q * rho_diff n x (rho_f n c y) mod n) n"
    using Suc.prems(1) Suc.prems(2) [of 0] assms(1) by (simp add: coprime_mod_left_iff)
  moreover have "coprime (rho_diff n x ((rho_f n c ^^ Suc i) (rho_f n c y))) n" if "i < l" for i
    using Suc.prems(2) [of "Suc i"] that by (simp add: funpow_swap1)
  ultimately show ?case by (simp add: Let_def Suc.IH)
qed simp

text \<open>A stage that ends with \<open>g = 1\<close> has walked all its steps without meeting x.\<close>

lemma rho_stage_one:
  assumes "1 < n" and "rho_stage n c x left y q g ys = (y', q', 1, ys')" and "coprime q n"
  shows "g = 1 \<and> y' = (rho_f n c ^^ left) y \<and> coprime q' n \<and> (\<forall>i<left. (rho_f n c ^^ Suc i) y \<noteq> x)"
  using assms
proof (induction n c x left y q g ys rule: rho_stage.induct)
  case (1 n c x left y q g ys)
  show ?case
  proof (cases "left > 0 \<and> g = 1")
    case True
    define limit where "limit = (if left < 128 then left else 128)"
    obtain y1 q1 where b: "rho_batch limit n c x y q = (y1, q1)" by fastforce
    have st: "rho_stage n c x (left - limit) y1 q1 (gcd q1 n) y = (y', q', 1, ys')"
      using 1(3) True b by (simp add: rho_stage.simps [of n c x left] Let_def limit_def)
    have one: "gcd q1 n = 1"
    proof (rule ccontr)
      assume "gcd q1 n \<noteq> 1"
      with st show False by (simp add: rho_stage.simps)
    qed
    then have "coprime q1 n" by (simp add: coprime_iff_gcd_eq_1)
    note IH = 1(1) [OF True limit_def b [symmetric] refl 1(2) st this]
    have y1: "y1 = (rho_f n c ^^ limit) y" using rho_batch_y [of limit n c x y q] b by simp
    have limit: "limit \<le> left" by (simp add: limit_def)
    have "(rho_f n c ^^ Suc i) y \<noteq> x" if "i < left" for i
    proof (cases "i < limit")
      case True
      show ?thesis
      proof
        assume "(rho_f n c ^^ Suc i) y = x"
        from rho_batch_hit [OF True this, of q] b have "q1 = 0" by simp
        with one 1(2) show False by simp
      qed
    next
      case False
      then have "(rho_f n c ^^ Suc i) y = (rho_f n c ^^ Suc (i - limit)) y1"
        by (simp only: y1 funpow_add [symmetric, THEN fun_cong, simplified o_apply]) simp
      with IH False that show ?thesis by auto
    qed
    moreover have "y' = (rho_f n c ^^ left) y"
      using IH limit by (simp add: y1 funpow_add [symmetric, THEN fun_cong, simplified o_apply])
    ultimately show ?thesis using True IH by simp
  next
    case False
    with 1(3,4) show ?thesis by (auto simp: rho_stage.simps [of n c x left])
  qed
qed

text \<open>A stage that ends with another g has found a divisor, and walking again from the start of its last
  batch finds a difference that is not coprime to n.\<close>

lemma rho_stage_found:
  assumes "1 < n" and "rho_stage n c x left y q g ys = (y', q', g', ys')" and "coprime q n"
    and "g = 1" and "g' \<noteq> 1"
  shows "g' dvd n \<and> 1 < g' \<and> (\<exists>i. \<not> coprime (rho_diff n x ((rho_f n c ^^ Suc i) ys')) n)"
  using assms
proof (induction n c x left y q g ys rule: rho_stage.induct)
  case (1 n c x left y q g ys)
  have left: "left > 0 \<and> g = 1"
    using 1(3,5,6) by (auto simp: rho_stage.simps [of n c x left] split: if_splits)
  define limit where "limit = (if left < 128 then left else 128)"
  obtain y1 q1 where b: "rho_batch limit n c x y q = (y1, q1)" by fastforce
  have st: "rho_stage n c x (left - limit) y1 q1 (gcd q1 n) y = (y', q', g', ys')"
    using 1(3) left b by (simp add: rho_stage.simps [of n c x left] Let_def limit_def)
  show ?case
  proof (cases "gcd q1 n = 1")
    case True
    then have "coprime q1 n" by (simp add: coprime_iff_gcd_eq_1)
    from 1(1) [OF left limit_def b [symmetric] refl 1(2) st this True 1(6)] show ?thesis .
  next
    case False
    with st have e: "g' = gcd q1 n" "ys' = y" by (auto simp: rho_stage.simps [of n c x "left - limit"])
    have "\<exists>i. \<not> coprime (rho_diff n x ((rho_f n c ^^ Suc i) y)) n"
      using rho_batch_coprime [OF 1(2,4), of limit x c y] b False
      by (auto simp: coprime_iff_gcd_eq_1)
    moreover have "0 < gcd q1 n" using 1(2) by (simp add: gcd_pos_int)
    with False have "1 < gcd q1 n" by linarith
    ultimately show ?thesis using e by simp
  qed
qed

section \<open>An attempt returns\<close>

text \<open>What an attempt leaves for the test after its outer loop.\<close>

definition rho_found :: "int \<Rightarrow> int \<Rightarrow> int \<times> int \<times> int \<Rightarrow> bool" where
  "rho_found n c = (\<lambda>(x, g, ys). g dvd n \<and> 1 < g \<and>
     (\<exists>i. \<not> coprime (rho_diff n x ((rho_f n c ^^ Suc i) ys)) n))"

lemma rho_outer_step:
  assumes "1 < n" and "coprime q n"
    and st: "rho_stage n c y r (rho_walk r n c y) q 1 ys = (y', q', g', ys')"
  shows "rho_outer n c r x y q 1 ys = rho_outer n c (r * 2) y y' q' g' ys'"
    and "g' \<noteq> 1 \<Longrightarrow> \<exists>v. rho_outer n c r x y q 1 ys = Some v \<and> rho_found n c v"
proof -
  show e: "rho_outer n c r x y q 1 ys = rho_outer n c (r * 2) y y' q' g' ys'"
    by (subst rho_outer.simps) (simp add: st)
  assume "g' \<noteq> 1"
  with rho_stage_found [OF assms(1) st assms(2) refl] show
    "\<exists>v. rho_outer n c r x y q 1 ys = Some v \<and> rho_found n c v"
    unfolding e by (subst rho_outer.simps) (simp add: rho_found_def)
qed

text \<open>The step length doubles until it exceeds n; by then x is on the cycle and the stage meets it.\<close>

lemma rho_outer_returns:
  assumes "3 \<le> n" and "1 \<le> r" and "2 * r \<le> T + 2" and "y = (rho_f n c ^^ T) y0" and "coprime q n"
  shows "\<exists>v. rho_outer n c r x y q 1 ys = Some v \<and> rho_found n c v"
  using assms(2-)
proof (induction "nat n - r" arbitrary: r T x y q ys rule: less_induct)
  case less
  have n: "1 < n" using assms(1) by simp
  obtain y' q' g' ys' where st: "rho_stage n c y r (rho_walk r n c y) q 1 ys = (y', q', g', ys')"
    using prod_cases4 by blast
  note step = rho_outer_step [OF n less.prems(4) st, of x]
  show ?case
  proof (cases "g' = 1")
    case False
    with step(2) show ?thesis by blast
  next
    case True
    from rho_stage_one [OF n st [unfolded True] less.prems(4)]
    have y': "y' = (rho_f n c ^^ r) (rho_walk r n c y)" and q': "coprime q' n"
      and miss: "\<forall>i<r. (rho_f n c ^^ Suc i) (rho_walk r n c y) \<noteq> y" by simp_all
    have "r < nat n"
    proof (rule ccontr)
      assume "\<not> r < nat n"
      then have "nat n \<le> r" "nat n \<le> T" using less.prems(2) assms(1) by linarith+
      then have "\<exists>i<r. (rho_f n c ^^ Suc i) ((rho_f n c ^^ r) y) = y"
        using n less.prems(3) by (intro rho_meets [of n r T y c y0]) simp_all
      with miss show False by (auto simp: rho_walk_funpow)
    qed
    moreover have "y' = (rho_f n c ^^ (T + 2 * r)) y0"
      unfolding y' less.prems(3) rho_walk_funpow
      by (simp add: funpow_add [symmetric, THEN fun_cong, simplified o_apply] algebra_simps mult_2 mult_2_right)
    ultimately have "\<exists>v. rho_outer n c (r * 2) y y' q' 1 ys' = Some v \<and> rho_found n c v"
      using less.prems(1,2) q' by (intro less.hyps [of "r * 2" "T + 2 * r"]) auto
    then show ?thesis using step(1) True by simp
  qed
qed

lemma rho_backtrack_returns:
  assumes "1 < n" and "\<not> coprime (rho_diff n x ((rho_f n c ^^ Suc i) ys)) n"
  shows "\<exists>g. rho_backtrack n c x ys = Some g \<and> g dvd n \<and> 1 < g"
  using assms(2)
proof (induction i arbitrary: ys)
  case 0
  have "0 < gcd (rho_diff n x (rho_f n c ys)) n" using assms(1) by (simp add: gcd_pos_int)
  moreover have "gcd (rho_diff n x (rho_f n c ys)) n \<noteq> 1" using 0 by (simp add: coprime_iff_gcd_eq_1)
  ultimately have "1 < gcd (rho_diff n x (rho_f n c ys)) n" by linarith
  then show ?case by (subst rho_backtrack.simps) (simp add: Let_def)
next
  case (Suc i)
  have "\<not> coprime (rho_diff n x ((rho_f n c ^^ Suc i) (rho_f n c ys))) n"
    using Suc.prems by (simp add: funpow_swap1)
  note IH = Suc.IH [OF this]
  show ?case
  proof (cases "1 < gcd (rho_diff n x (rho_f n c ys)) n")
    case True
    then show ?thesis by (subst rho_backtrack.simps) (simp add: Let_def)
  next
    case False
    with IH show ?thesis by (subst rho_backtrack.simps) (simp add: Let_def)
  qed
qed

lemma rho_attempt_returns:
  assumes "3 \<le> n"
  shows "\<exists>g. rho_attempt n drawC drawY = Some g \<and> g dvd n \<and> 1 < g"
proof -
  define c where "c = (if drawC + 1 = 1 then 2 else drawC + 1)"
  have n: "1 < n" using assms by simp
  obtain x g ys where o: "rho_outer n c 1 (drawY + 1) (drawY + 1) 1 1 0 = Some (x, g, ys)"
    and f: "rho_found n c (x, g, ys)"
    using rho_outer_returns [OF assms, of 1 0 "drawY + 1" c "drawY + 1" 1 "drawY + 1" 0] by auto
  then obtain i where g: "g dvd n" "1 < g" and i: "\<not> coprime (rho_diff n x ((rho_f n c ^^ Suc i) ys)) n"
    by (auto simp: rho_found_def)
  have "rho_attempt n drawC drawY = (if g = n then rho_backtrack n c x ys else Some g)"
    using o unfolding c_def by (simp add: rho_attempt_def Let_def del: One_nat_def)
  with rho_backtrack_returns [OF n i] g show ?thesis by auto
qed

text \<open>A proper divisor and its cofactor: the smaller one is returned.\<close>

lemma smaller_cofactor:
  fixes g n :: int
  assumes "g dvd n" and "1 < g" and "g \<noteq> n" and "0 < n"
  defines "p \<equiv> if n div g < g then n div g else g"
  shows "p dvd n \<and> 1 < p \<and> p \<le> n div p"
proof -
  obtain h where h: "n = g * h" using assms(1) by blast
  have "0 < h" using h assms(2,4) by (simp add: zero_less_mult_iff)
  moreover have "h \<noteq> 1" using h assms(3) by auto
  ultimately have "1 < h" by linarith
  moreover have "n div g = h" "n div h = g" using h assms(2) \<open>0 < h\<close> by simp_all
  ultimately show ?thesis using assms(2) h by (simp add: p_def)
qed

lemma rho_attempts_result:
  assumes "3 \<le> n"
  shows "\<exists>p. rho_attempts n draws = Some p \<and> (p = 0 \<or> p dvd n \<and> 1 < p \<and> p \<le> n div p)"
  using assms
proof (induction n draws rule: rho_attempts.induct)
  case (2 pq drawC drawY draws)
  obtain g where g: "rho_attempt pq drawC drawY = Some g" "g dvd pq" "1 < g"
    using rho_attempt_returns [OF 2(2)] by blast
  show ?case
  proof (cases "g = pq")
    case True
    with 2 g show ?thesis by simp
  next
    case False
    with g 2(2) smaller_cofactor [OF g(2,3) False] show ?thesis by (simp add: Let_def)
  qed
qed simp_all

section \<open>Products of two primes\<close>

definition is_prime :: "int \<Rightarrow> bool" where
  "is_prime p \<longleftrightarrow> 1 < p \<and> (\<forall>d. 0 < d \<and> d dvd p \<longrightarrow> d = 1 \<or> d = p)"

lemma prime_divisor: "is_prime b \<Longrightarrow> p dvd b \<Longrightarrow> 1 < p \<Longrightarrow> p = b"
  unfolding is_prime_def by (metis less_irrefl less_trans zero_less_one)

lemma prime_gcd: "is_prime a \<Longrightarrow> gcd p a = 1 \<or> a dvd p"
proof -
  assume a: "is_prime a"
  then have "0 < gcd p a" by (simp add: is_prime_def gcd_pos_int)
  with a have "gcd p a = 1 \<or> gcd p a = a" by (auto simp: is_prime_def)
  then show ?thesis by (metis gcd_dvd1)
qed

lemma semiprime_divisor:
  assumes "is_prime a" and "is_prime b" and "p dvd a * b" and "1 < p"
  shows "a dvd p \<or> p = b"
proof (rule disjCI)
  assume "p \<noteq> b"
  show "a dvd p"
  proof (rule ccontr)
  assume "\<not> a dvd p"
  with prime_gcd [OF assms(1)] have "coprime p a" by (auto simp: coprime_iff_gcd_eq_1)
  with assms(3) have "p dvd b" by (simp add: coprime_dvd_mult_right_iff)
  with prime_divisor [OF assms(2) _ assms(4)] \<open>p \<noteq> b\<close> show False by blast
  qed
qed

lemma semiprime_smaller:
  assumes "is_prime a" and "is_prime b" and "a < b" and "p dvd a * b" and "1 < p" and "p \<le> a * b div p"
  shows "p = a"
proof -
  have ab: "1 < a" "1 < b" using assms(1,2) by (simp_all add: is_prime_def)
  have "p \<noteq> b"
  proof
    assume "p = b"
    then have "a * b div p = a" using ab by simp
    with assms(3,6) \<open>p = b\<close> show False by simp
  qed
  with semiprime_divisor [OF assms(1,2,4,5)] obtain k where k: "p = a * k" by blast
  with assms(4) ab have "k dvd b" by simp
  moreover have "0 < k" using k assms(5) ab by (metis less_trans zero_less_mult_pos zero_less_one)
  ultimately have "k = 1 \<or> k = b" using assms(2) by (simp add: is_prime_def)
  moreover have "k \<noteq> b" using assms(5,6) k ab by auto
  ultimately show ?thesis using k by simp
qed

text \<open>The table is in order and holds every odd prime up to its end, with one exception.\<close>

lemma smallPrimes_covers:
  "\<forall>a \<in> {3..251}. a = 241 \<or> a \<in> set smallPrimes \<or> (\<exists>d \<in> set (2 # smallPrimes). d < a \<and> a mod d = 0)"
  by code_simp

lemma smallPrimes_sorted: "sorted_wrt (<) smallPrimes" and smallPrimes_bound: "\<forall>p \<in> set smallPrimes. 3 \<le> p \<and> p \<le> 251"
  by (simp_all add: smallPrimes_def)

lemma odd_prime_small:
  assumes "is_prime a" and "2 < a" and "a \<le> 251" and "a \<noteq> 241"
  shows "a \<in> set smallPrimes"
proof (rule ccontr)
  assume no: "a \<notin> set smallPrimes"
  have "a \<in> {3..251}" using assms(2,3) by simp
  from bspec [OF smallPrimes_covers this] no assms(4)
  have "\<exists>d \<in> set (2 # smallPrimes). d < a \<and> a mod d = 0" by (simp only: simp_thms)
  then obtain d where d: "d \<in> set (2 # smallPrimes)" "d < a" "a mod d = 0" by (elim bexE conjE)
  then have "d = 2 \<or> d \<in> set smallPrimes" by simp
  then have "1 < d" using bspec [OF smallPrimes_bound, of d] by linarith
  from prime_divisor [OF assms(1) mod_0_imp_dvd [OF d(3)] this] d(2) show False by simp
qed

lemma find_small_first:
  assumes "find P smallPrimes = Some p" and "a \<in> set smallPrimes" and "a < p"
  shows "\<not> P a"
proof -
  obtain i where i: "i < length smallPrimes" "p = smallPrimes ! i" "\<forall>j<i. \<not> P (smallPrimes ! j)"
    using assms(1) by (auto simp: find_Some_iff)
  obtain j where j: "j < length smallPrimes" "a = smallPrimes ! j" using assms(2) by (auto simp: in_set_conv_nth)
  have "j < i"
  proof (rule ccontr)
    assume "\<not> j < i"
    then have "i = j \<or> smallPrimes ! i < smallPrimes ! j"
      using j(1) smallPrimes_sorted by (auto simp: sorted_wrt_iff_nth_less not_less le_less)
    with i j assms(3) show False by auto
  qed
  with i j show ?thesis by simp
qed

lemma small_factor_semiprime:
  assumes f: "find (\<lambda>p. (a * b) mod p = 0) smallPrimes = Some p"
    and "is_prime a" and "is_prime b" and "a < b" and "2 < a" and "a = 241 \<longrightarrow> b \<noteq> 251"
  shows "p = a"
proof -
  have p: "p \<in> set smallPrimes" "p dvd a * b" using f by (auto simp: find_Some_iff)
  then have r: "3 \<le> p" "p \<le> 251" using smallPrimes_bound by auto
  have dvd: "a dvd p \<or> p = b" using semiprime_divisor [OF assms(2,3) p(2)] r by simp
  have no: "\<not> a < p"
  proof
    assume "a < p"
    show False
    proof (cases "a = 241")
      case True
      have "\<forall>p \<in> set smallPrimes. 241 < p \<longrightarrow> p = 251" by (simp add: smallPrimes_def)
      with p(1) \<open>a < p\<close> True have "p = 251" by blast
      with dvd True assms(6) show False by auto
    next
      case False
      then have "a \<in> set smallPrimes" using r assms(2,5) \<open>a < p\<close> by (intro odd_prime_small) auto
      from find_small_first [OF f this \<open>a < p\<close>] show False by simp
    qed
  qed
  from dvd show ?thesis
  proof
    assume "a dvd p"
    with r have "a \<le> p" by (intro zdvd_imp_le) auto
    with no show ?thesis by simp
  qed (use no assms(4) in simp)
qed

lemma prime_even: "is_prime a \<Longrightarrow> 2 dvd a \<Longrightarrow> a = 2"
  using prime_divisor [of a 2] by simp

lemma semiprime_even:
  assumes "is_prime a" and "is_prime b" and "a < b" and "2 dvd a * b"
  shows "a = 2"
proof -
  have "1 < a" using assms(1) by (simp add: is_prime_def)
  have "2 dvd a \<or> 2 dvd b" using assms(4) by simp
  then show ?thesis
    using prime_even [OF assms(1)] prime_even [OF assms(2)] assms(3) \<open>1 < a\<close> by auto
qed

lemma Decompose_cases:
  assumes "3 < pq"
  obtains "even pq" "Decompose draws pq = Some 2"
  | p where "odd pq" "find (\<lambda>p. pq mod p = 0) smallPrimes = Some p" "Decompose draws pq = Some p"
  | p where "odd pq" "Decompose draws pq = Some p" "p = 0 \<or> p dvd pq \<and> 1 < p \<and> p \<le> pq div p"
proof (cases "even pq")
  case True
  then show ?thesis using that(1) assms by (simp add: Decompose_def even_iff_mod_2_eq_zero)
next
  case False
  then have o: "pq mod 2 \<noteq> 0" by presburger
  show ?thesis
  proof (cases "find (\<lambda>p. pq mod p = 0) smallPrimes")
    case None
    have "3 \<le> pq" using assms by simp
    then obtain p where "rho_attempts pq (take 64 draws) = Some p" "p = 0 \<or> p dvd pq \<and> 1 < p \<and> p \<le> pq div p"
      using rho_attempts_result by blast
    with that(3) [OF False] None o assms show ?thesis by (simp add: Decompose_def)
  next
    case (Some p)
    with that(2) [OF False] o assms show ?thesis by (simp add: Decompose_def)
  qed
qed

lemma Decompose_result:
  assumes "3 < pq"
  shows "\<exists>p. Decompose draws pq = Some p \<and> (p = 0 \<or> p dvd pq \<and> 1 < p)"
proof (cases rule: Decompose_cases [OF assms, of draws])
  case (2 p)
  then have "p \<in> set smallPrimes" "p dvd pq" by (auto simp: find_Some_iff)
  with 2 bspec [OF smallPrimes_bound, of p] show ?thesis by auto
qed auto

lemma Decompose_semiprime:
  assumes "3 < a * b" and p: "Decompose draws (a * b) = Some p"
    and ab: "is_prime a" "is_prime b" "a < b" and ex: "a = 241 \<longrightarrow> b \<noteq> 251"
  shows "p = 0 \<or> p = a"
proof (cases rule: Decompose_cases [OF assms(1), of draws])
  case 1
  with p semiprime_even [OF ab] show ?thesis by simp
next
  case (2 p')
  have "a \<noteq> 2" using 2(1) by auto
  moreover have "1 < a" using ab(1) by (simp add: is_prime_def)
  ultimately have "2 < a" by linarith
  from small_factor_semiprime [OF 2(2) ab this ex] 2(3) p show ?thesis by simp
next
  case (3 p')
  with semiprime_smaller [OF ab, of p'] p show ?thesis by auto
qed

text \<open>factorPQ always answers, and its factors are in order and multiply to pq.\<close>

lemma factorPQ_result:
  "\<exists>r. factorPQ pp draws b = Some r \<and>
     (\<forall>p q. r = Inr (p, q) \<longrightarrow> p * q = SetBytes b \<and> 1 < p \<and> p < q \<and> pp p \<and> pp q \<and> SetBytes b < 2 ^ 63)"
proof (cases "length b = 0 \<or> length b > 8 \<or> SetBytes b \<ge> 2 ^ 63 \<or> SetBytes b \<le> 3")
  case True
  then show ?thesis by (auto simp: factorPQ_def Let_def)
next
  case False
  then have "3 < SetBytes b" by simp
  from Decompose_result [OF this, of draws] obtain p where p: "Decompose draws (SetBytes b) = Some p" by blast
  define q where "q = SetBytes b div p"
  have e: "factorPQ pp draws b =
      Some (if p \<le> 1 \<or> SetBytes b mod p \<noteq> 0 then Inl PQFactorization
            else if q \<le> 1 \<or> p = q \<or> \<not> pp p \<or> \<not> pp q then Inl PQFactors
            else Inr (if p > q then (q, p) else (p, q)))"
    using False p by (simp add: factorPQ_def Let_def q_def)
  have "SetBytes b mod p = 0 \<Longrightarrow> p * q = SetBytes b" by (auto simp: q_def)
  then show ?thesis unfolding e using False by (auto simp: mult.commute not_le split: if_splits)
qed

section \<open>Properties\<close>


lemma prime_257: "is_prime 257" and prime_263: "is_prime 263"
proof -
  have p: "is_prime q" if "1 < q" "\<forall>d \<in> {2..<q}. q mod d \<noteq> 0" for q
  proof -
    have "d = 1 \<or> d = q" if d: "0 < d" "d dvd q" for d
    proof (rule ccontr)
      assume "\<not> (d = 1 \<or> d = q)"
      moreover have "d \<le> q" using d \<open>1 < q\<close> by (intro zdvd_imp_le) auto
      ultimately have "d \<in> {2..<q}" using d by auto
      from bspec [OF \<open>\<forall>d \<in> {2..<q}. q mod d \<noteq> 0\<close> this] d(2) show False by simp
    qed
    with \<open>1 < q\<close> show ?thesis by (simp add: is_prime_def)
  qed
  show "is_prime 257" by (rule p) (simp, code_simp)
  show "is_prime 263" by (rule p) (simp, code_simp)
qed


text \<open>The table of small primes lacks 241, so for 241 times 251 Decompose returns the larger
  prime, although it is documented to return the smaller one.\<close>

theorem decompose_misses_241:
  "241 \<notin> set smallPrimes \<and> Decompose draws (241 * 251) = Some 251"
  by (simp add: smallPrimes_def Decompose_def)

end
