(* ===== verification/RSA_Keys.thy ===== *)
theory RSA_Keys
  imports Big_Integers AES_Modes TL_Primitives
begin

text \<open>
  The server's RSA keys and encryption with them: the bundled table of \<^verbatim>\<open>src/internal/crypto/keys.go\<close>,
  the key set that may grow at run time (\<^verbatim>\<open>server_keys.go\<close>) and RSA_PAD (\<^verbatim>\<open>rsa.go\<close>). SHA-1, SHA-256 and
  the block cipher are parameters; the random source is the sequence of what its reads return.
\<close>

section \<open>The bundled keys\<close>

record server_key =
  sk_N :: int
  sk_E :: nat

definition serverPublicKeys :: "(i64 \<times> server_key) list" where
  "serverPublicKeys =
     [(-5595554452916591101, \<lparr>sk_N = 0xc8c11d635691fac091dd9489aedced2932aa8a0bcefef05fa800892d9b52ed03200865c9e97211cb2ee6c7ae96d3fb0e15aeffd66019b44a08a240cfdd2868a85e1f54d6fa5deaa041f6941ddf302690d61dc476385c2fa655142353cb4e4b59f6e5b6584db76fe8b1370263246c010c93d011014113ebdf987d093f9d37c2be48352d69a1683f8f6e6c2167983c761e3ab169fde5daaa12123fa1beab621e4da5935e9c198f82f35eae583a99386d8110ea6bd1abb0f568759f62694419ea5f69847c43462abef858b4cb5edc84e7b9226cd7bd7e183aa974a712c079dde85b9dc063b8a5c08e8f859c0ee5dcd824c7807f20153361a7f63cfd2a433a1be7f5, sk_E = 65537\<rparr>),
      (-3414540481677951611, \<lparr>sk_N = 0xe8bb3305c0b52c6cf2afdf7637313489e63e05268e5badb601af417786472e5f93b85438968e20e6729a301c0afc121bf7151f834436f7fda680847a66bf64accec78ee21c0b316f0edafe2f41908da7bd1f4a5107638eeb67040ace472a14f90d9f7c2b7def99688ba3073adb5750bb02964902a359fe745d8170e36876d4fd8a5d41b2a76cbff9a13267eb9580b2d06d10357448d20d9da2191cb5d8c93982961cdfdeda629e37f1fb09a0722027696032fe61ed663db7a37f6f263d370f69db53a0dc0a1748bdaaff6209d5645485e6e001d1953255757e4b8e42813347b11da6ab500fd0ace7e6dfa3736199ccaf9397ed0745a427dcfa6cd67bcb1acff3, sk_E = 65537\<rparr>),
      (-4344800451088585951, \<lparr>sk_N = 0xc150023e2f70db7985ded064759cfecf0af328e69a41daf4d6f01b538135a6f91f8f8b2a0ec9ba9720ce352efcf6c5680ffc424bd634864902de0b4bd6d49f4e580230e3ae97d95c8b19442b3c0a10d8f5633fecedd6926a7f6dab0ddb7d457f9ea81b8465fcd6fffeed114011df91c059caedaf97625f6c96ecc74725556934ef781d866b34f011fce4d835a090196e9a5f0e4449af7eb697ddb9076494ca5f81104a305b6dd27665722c46b60e5df680fb16b210607ef217652e60236c255f6a28315f4083a96791d7214bf64c1df4fd0db1944fb26a2a57031b32eee64ad15a8ba68885cde74a5bfc920f6abf59ba5c75506373e7130f9042da922179251f, sk_E = 65537\<rparr>),
      (847625836280919973, \<lparr>sk_N = 0xaeec36c8ffc109cb099624685b97815415657bd76d8c9c3e398103d7ad16c9bba6f525ed0412d7ae2c2de2b44e77d72cbf4b7438709a4e646a05c43427c7f184debf72947519680e651500890c6832796dd11f772c25ff8f576755afe055b0a3752c696eb7d8da0d8be1faf38c9bdd97ce0a77d3916230c4032167100edd0f9e7a3a9b602d04367b689536af0d64b613ccba7962939d3b57682beb6dae5b608130b2e52aca78ba023cf6ce806b1dc49c72cf928a7199d22e3d7ac84e47bc9427d0236945d10dbd15177bab413fbf0edfda09f014c7a7da088dde9759702ca760af2b8e4e97cc055c617bd74c3d97008635b98dc4d621b4891da9fb0473047927, sk_E = 65537\<rparr>),
      (1562291298945373506, \<lparr>sk_N = 0xbdf2c77d81f6afd47bd30f29ac76e55adfe70e487e5e48297e5a9055c9c07d2b93b4ed3994d3eca5098bf18d978d54f8b7c713eb10247607e69af9ef44f38e28f8b439f257a11572945cc0406fe3f37bb92b79112db69eedf2dc71584a661638ea5becb9e23585074b80d57d9f5710dd30d2da940e0ada2f1b878397dc1a72b5ce2531b6f7dd158e09c828d03450ca0ff8a174deacebcaa22dde84ef66ad370f259d18af806638012da0ca4a70baa83d9c158f3552bc9158e69bf332a45809e1c36905a5caa12348dd57941a482131be7b2355a5f4635374f3bd3ddf5ff925bf4809ee27c1e67d9120c5fe08a9de458b1b4a3c5d0a428437f2beca81f4e2d5ff, sk_E = 65537\<rparr>),
      (-5859577972006586033, \<lparr>sk_N = 0xb3f762b739be98f343eb1921cf0148cfa27ff7af02b6471213fed9daa0098976e667750324f1abcea4c31e43b7d11f1579133f2b3d9fe27474e462058884e5e1b123be9cbbc6a443b2925c08520e7325e6f1a6d50e117eb61ea49d2534c8bb4d2ae4153fabe832b9edf4c5755fdd8b19940b81d1d96cf433d19e6a22968a85dc80f0312f596bd2530c1cfb28b5fe019ac9bc25cd9c2a5d8a0f3a1c0c79bcca524d315b5e21b5c26b46babe3d75d06d1cd33329ec782a0f22891ed1db42a1d6c0dea431428bc4d7aabdcf3e0eb6fda4e23eb7733e7727e9a1915580796c55188d2596d2665ad1182ba7abf15aaa5a8b779ea996317a20ae044b820bff35b6e8a1, sk_E = 65537\<rparr>),
      (6491968696586960280, \<lparr>sk_N = 0xbe6a71558ee577ff03023cfa17aab4e6c86383cff8a7ad38edb9fafe6f323f2d5106cbc8cafb83b869cffd1ccf121cd743d509e589e68765c96601e813dc5b9dfc4be415c7a6526132d0035ca33d6d6075d4f535122a1cdfe017041f1088d1419f65c8e5490ee613e16dbf662698c0f54870f0475fa893fc41eb55b08ff1ac211bc045ded31be27d12c96d8d3cfc6a7ae8aa50bf2ee0f30ed507cc2581e3dec56de94f5dc0a7abee0be990b893f2887bd2c6310a1e0a9e3e38bd34fded2541508dc102a9c9b4c95effd9dd2dfe96c29be647d6c69d66ca500843cfaed6e440196f1dbe0e2e22163c61ca48c79116fa77216726749a976a1c4b0944b5121e8c01, sk_E = 65537\<rparr>),
      (-7395192255793472640, \<lparr>sk_N = 0xe2d587706265125931bb129027016325aba59951e0771340df0808d84f176cd9c0f3ccb9d57a205799bc04462e4d23f89655d9638652256e559455e79ac253fe19a3c9e16aa936a3c805ba9dbf6fc195f6f7542fa83ff5642141cbb4cbbc233495b34812170b31fdf7655f007ad2c077eb912c5e901e8b32b39c34889ef1f946c6c03c727de89cf042499ec29a5eb50ec11c9c31137e57fcc3c926b4118975bb5101d4c0d7d7f8c857521011b2ef7411f8bec55354475628797339c1734fda97fe0f1789b08f8872c9bea41bf215626efb3d35a00dc8295c044b7798eb9c1b5ff8e8b8a591cfca7789e509ca219348c81cda7cb32994ccd5913d41a64ecdd23f, sk_E = 65537\<rparr>),
      (2685959930972952888, \<lparr>sk_N = 0xcee1d50bbb04e742a1a3fc83559b569e5980e417ff68cf0a658dd6cd2d7ac3ac35b01aa2a63f2880c186ed42db181b5898a11a23b20824ee963369b531a5d59eca92f1decf6860198b2f2b48ddd2ed2d9af30a7845765e86cd09017bd9788cf8e6207208c05fc9c6c92a64b079891eb11508ee150ef1e4219a6fd4614129258ed53add087a68ae5114a9aa5450d8595cc876a161435cbdb2026f8fbf00fedca0a067e9c079172cccecc09c2b16c428ec776373149db66aab9a4debf7916b391e832ae5a7892e27de0ab1b4451c55f90f1f2ece3acef708bc2c5ee022066ee4344c7268d724aabaac667667d727ac3f2956ed4bdaf7089dde0aeb18a6652da16f, sk_E = 65537\<rparr>),
      (-3997872768018684475, \<lparr>sk_N = 0xba0e9f11355becd917618bb9b9e66e334a6ac3585ebaa52b64d628990374952d28ee2ea6016c1bd7f162b1c14afb2e0b412484c7ea14cd70218e6965f5f99be1eecf6d4897a3c32e5ced118f77b9e35e835df4e23981965e5151574690ceef1a832d5ea4ac2414389d9e6cbb839ac9255d2ad7edde47e264d8e11cfc1ea53003afddf054eb1844641c8df60a9ce9fbe4368d773d0f096195121adb732e5632efab859af141851b0953e2cd436f9bb131f069f49f7d56256766e824e6e5bea6d159ee39dc2cecb1a496cb0197390996bd56c47bb17cab5922feced2f01c585ab8522c9e9bb2ef556569c81c3f6f077e1017c20004f444f779a108e1c1a89c5205, sk_E = 65537\<rparr>),
      (-4960899639492471258, \<lparr>sk_N = 0xbff2fab5dfa68fb0e5f353477eef977f528db6f64f475b52e7116a92252ca27d6eec3dae94ad398ccf072afa55d68fb51cf3ea85a5e16acbec5fdd2edd3207450d33b89289c4a022668dc62bba611e8ce3009f555056ceee32806b905313db57800e59c090224166f753aca4c11ce4ddf1517b959a5bbc5f55489ea71c9619daf579e7285827c169fd530977dc4bbbdcca58cd4f4de9c2dd98c92e625c4e48079c01079caa4929b8198b56591ebb52322c5c177bed34697e82c6a5f39d507c41cf86528fc0fbea6d73969203e49da917a6c7e3e642cf4494a6fde3edb13c58596f80c7f010f870c4c62275119acaaf5894b9587780fe628ab453a8d2dcc59345, sk_E = 65537\<rparr>)]"

definition GetServerKey :: "i64 \<Rightarrow> server_key option" where
  "GetServerKey fingerprint = map_of serverPublicKeys fingerprint"

definition ServerKeyFingerprints :: "i64 list" where
  "ServerKeyFingerprints = map fst serverPublicKeys"

definition ServerKeyCount :: nat where
  "ServerKeyCount = length serverPublicKeys"

section \<open>The key set\<close>

record rsa_key_set =
  ks_bundled :: "(i64 \<times> server_key) list"
  ks_rotated :: "(i64 \<times> server_key) list"

definition NewRSAKeySet :: rsa_key_set where
  "NewRSAKeySet = \<lparr>ks_bundled = serverPublicKeys, ks_rotated = []\<rparr>"

definition KeySet_IsTrusted :: "i64 \<Rightarrow> rsa_key_set \<Rightarrow> bool" where
  "KeySet_IsTrusted fp k =
     (if map_of (ks_bundled k) fp \<noteq> None then True else map_of (ks_rotated k) fp \<noteq> None)"

definition KeySet_Get :: "i64 \<Rightarrow> rsa_key_set \<Rightarrow> server_key option" where
  "KeySet_Get fp k =
     (case map_of (ks_bundled k) fp of Some key \<Rightarrow> Some key | None \<Rightarrow> map_of (ks_rotated k) fp)"

text \<open>Current copies the bundled keys and then the rotated ones.\<close>

definition KeySet_Current :: "rsa_key_set \<Rightarrow> (i64 \<times> server_key) list" where
  "KeySet_Current k =
     fold (\<lambda>(fp, key). AList.update fp key) (ks_rotated k)
       (fold (\<lambda>(fp, key). AList.update fp key) (ks_bundled k) [])"

definition TrustedFingerprints :: "rsa_key_set \<Rightarrow> i64 list" where
  "TrustedFingerprints k = map fst (ks_bundled k) @ map fst (ks_rotated k)"

text \<open>The padding loop of tlSerializeBytes.\<close>

lemma pad4_step:
  assumes "0 < n mod 4"
  shows "(4 - Suc n mod 4) mod 4 < 4 - n mod (4 :: nat)"
proof -
  define r where "r = n mod 4"
  have "r < 4" "0 < r" using assms by (simp_all add: r_def)
  then show ?thesis unfolding mod_Suc r_def [symmetric] by auto
qed

function pad4_loop :: "bytes \<Rightarrow> bytes" where
  "pad4_loop buf = (if length buf mod 4 \<noteq> 0 then pad4_loop (buf @ [0]) else buf)"
  by pat_completeness auto
termination
  by (relation "measure (\<lambda>buf. (4 - length buf mod 4) mod 4)") (simp_all add: pad4_step)

declare pad4_loop.simps [simp del]

definition tlSerializeBytes :: "bytes \<Rightarrow> bytes" where
  "tlSerializeBytes b =
     pad4_loop
       (if length b < 254 then [word_of_nat (length b)] @ b
        else [0xFE] @ [word_of_nat (length b), word_of_nat (length b div 2 ^ 8), word_of_nat (length b div 2 ^ 16)] @ b)"

definition ComputeFingerprint :: "(bytes \<Rightarrow> bytes) \<Rightarrow> server_key \<Rightarrow> i64" where
  "ComputeFingerprint sha1 key =
     le_word (go_slice (sha1 (tlSerializeBytes (Big_Bytes (sk_N key)) @ tlSerializeBytes (big_Bytes (sk_E key)))) 12 20)"

text \<open>False is ErrKeyVerificationFailed; a missing key is nil, or has no modulus or exponent.\<close>

definition VerifyAndAccept ::
  "(bytes \<Rightarrow> bytes) \<Rightarrow> i64 \<Rightarrow> server_key option \<Rightarrow> rsa_key_set \<Rightarrow> bool \<times> rsa_key_set" where
  "VerifyAndAccept sha1 fingerprint key k =
     (case key of
        None \<Rightarrow> (False, k)
      | Some key \<Rightarrow>
          if ComputeFingerprint sha1 key \<noteq> fingerprint then (False, k)
          else if map_of (ks_bundled k) fingerprint \<noteq> None then (True, k)
          else (True, k\<lparr>ks_rotated := AList.update fingerprint key (ks_rotated k)\<rparr>))"

text \<open>refresh: nothing without a fetch function or on its failure; otherwise each fetched key is offered.\<close>

definition watchdog_refresh ::
  "(bytes \<Rightarrow> bytes) \<Rightarrow> (i64 \<times> server_key option) list option \<Rightarrow> rsa_key_set \<Rightarrow> rsa_key_set" where
  "watchdog_refresh sha1 fetched k =
     (case fetched of
        None \<Rightarrow> k
      | Some keys \<Rightarrow> fold (\<lambda>(fp, key) k. snd (VerifyAndAccept sha1 fp key k)) keys k)"

section \<open>RSA_PAD\<close>

datatype rsa_error = ErrUnknownFingerprint | ErrDataTooLong | RSARandom | RSAAES aes_error

definition rsaPadDataLimit :: nat where "rsaPadDataLimit = 144"
definition dataWithPaddingLen :: nat where "dataWithPaddingLen = 192"
definition rsaEncryptedLen :: nat where "rsaEncryptedLen = 256"

text \<open>The retry loop; \<open>tempKeys i\<close> is what the i-th read of a temporary key returns. None: no read yields a
  block below the modulus.\<close>

definition rsapad_block ::
  "(bytes \<Rightarrow> bytes) \<Rightarrow> (bytes \<Rightarrow> bytes \<Rightarrow> bytes) \<Rightarrow> bytes \<Rightarrow> bytes \<Rightarrow> rsa_error + bytes" where
  "rsapad_block sha256 E dataWithPadding tempKey =
     (let hash = sha256 (tempKey @ dataWithPadding);
          dataWithHash = rev dataWithPadding @ hash
      in case IGEEncrypt E dataWithHash tempKey (replicate 32 0) of
           Inl e \<Rightarrow> Inl (RSAAES e)
         | Inr aesEncrypted \<Rightarrow> Inr (xorInPlace tempKey (sha256 aesEncrypted) @ aesEncrypted))"

partial_function (option) rsapad_loop ::
  "(bytes \<Rightarrow> bytes) \<Rightarrow> (bytes \<Rightarrow> bytes \<Rightarrow> bytes) \<Rightarrow> (nat \<Rightarrow> bytes option) \<Rightarrow> nat \<Rightarrow> bytes \<Rightarrow> int
   \<Rightarrow> (rsa_error + bytes) option" where
  [code]: "rsapad_loop sha256 E tempKeys i dataWithPadding n =
     (case tempKeys i of
        None \<Rightarrow> Some (Inl RSARandom)
      | Some tempKey \<Rightarrow>
          (case rsapad_block sha256 E dataWithPadding tempKey of
             Inl e \<Rightarrow> Some (Inl e)
           | Inr result \<Rightarrow>
               (if SetBytes result < n then Some (Inr result)
                else rsapad_loop sha256 E tempKeys (Suc i) dataWithPadding n)))"

definition rsapad ::
  "(bytes \<Rightarrow> bytes) \<Rightarrow> (bytes \<Rightarrow> bytes \<Rightarrow> bytes) \<Rightarrow> (nat \<Rightarrow> bytes option) \<Rightarrow> (nat \<Rightarrow> bytes option) \<Rightarrow> bytes \<Rightarrow> int
   \<Rightarrow> (rsa_error + bytes) option" where
  "rsapad sha256 E rand tempKeys data n =
     (if length data > rsaPadDataLimit then Some (Inl ErrDataTooLong)
      else case rand (dataWithPaddingLen - length data) of
        None \<Rightarrow> Some (Inl RSARandom)
      | Some padding \<Rightarrow> rsapad_loop sha256 E tempKeys 0 (data @ padding) n)"

definition RSAEncrypt ::
  "(bytes \<Rightarrow> bytes) \<Rightarrow> (bytes \<Rightarrow> bytes \<Rightarrow> bytes) \<Rightarrow> (nat \<Rightarrow> bytes option) \<Rightarrow> (nat \<Rightarrow> bytes option) \<Rightarrow> bytes \<Rightarrow> i64
   \<Rightarrow> (rsa_error + bytes) option" where
  "RSAEncrypt sha256 E rand tempKeys data fingerprint =
     (case GetServerKey fingerprint of
        None \<Rightarrow> Some (Inl ErrUnknownFingerprint)
      | Some key \<Rightarrow>
          (case rsapad sha256 E rand tempKeys data (sk_N key) of
             None \<Rightarrow> None
           | Some (Inl e) \<Rightarrow> Some (Inl e)
           | Some (Inr padded) \<Rightarrow>
               let c = big_Exp (SetBytes padded) (sk_E key) (sk_N key);
                   cBytes = Big_Bytes c
               in Some (Inr (replicate (rsaEncryptedLen - length cBytes) 0 @ cBytes))))"

section \<open>Serialization agrees with the TL writer\<close>

lemma pad4_loop_eq: "pad4_loop buf = buf @ replicate ((4 - length buf mod 4) mod 4) 0"
proof (induction buf rule: pad4_loop.induct)
  case (1 buf)
  define r where "r = length buf mod 4"
  have r: "r < 4" by (simp add: r_def)
  show ?case
  proof (cases "r = 0")
    case False
    with r have "(4 - Suc (length buf) mod 4) mod 4 + 1 = 4 - r"
      unfolding mod_Suc r_def [symmetric] by auto
    moreover have "(4 - r) mod 4 = 4 - r" using False r by simp
    ultimately have "replicate ((4 - r) mod 4) (0 :: u8) = 0 # replicate ((4 - Suc (length buf) mod 4) mod 4) 0"
      by (metis Suc_eq_plus1 replicate_Suc)
    then show ?thesis using 1 False by (simp add: pad4_loop.simps [of buf] r_def)
  qed (simp add: pad4_loop.simps [of buf] r_def)
qed

lemma tlSerializeBytes_eq: "tlSerializeBytes b = WriteBytes [] b"
  by (auto simp: tlSerializeBytes_def pad4_loop_eq WriteBytes_def tl_padding_def Let_def add.commute)

section \<open>The key set\<close>

text \<open>Every rotated key has the fingerprint it is stored under, and no bundled key is shadowed.\<close>

definition key_set_inv :: "(bytes \<Rightarrow> bytes) \<Rightarrow> rsa_key_set \<Rightarrow> bool" where
  "key_set_inv sha1 k \<longleftrightarrow>
     ks_bundled k = serverPublicKeys \<and> gm_wf (ks_rotated k) \<and>
     (\<forall>fp key. map_of (ks_rotated k) fp = Some key \<longrightarrow>
        ComputeFingerprint sha1 key = fp \<and> map_of serverPublicKeys fp = None)"

lemma key_set_inv_new [inv_intros]: "key_set_inv sha1 NewRSAKeySet"
  by (simp add: key_set_inv_def NewRSAKeySet_def)

lemma key_set_inv_accept [inv_intros]:
  assumes "key_set_inv sha1 k"
  shows "key_set_inv sha1 (snd (VerifyAndAccept sha1 fp key k))"
  using assms
  by (auto simp: key_set_inv_def VerifyAndAccept_def gm_simps simp del: map_of_eq_Some_iff
      split: option.split if_splits)

lemma key_set_inv_refresh [inv_intros]:
  assumes "key_set_inv sha1 k"
  shows "key_set_inv sha1 (watchdog_refresh sha1 fetched k)"
proof (cases fetched)
  case (Some keys)
  have "key_set_inv sha1 (fold (\<lambda>(fp, key) k. snd (VerifyAndAccept sha1 fp key k)) keys k)"
    using assms by (induction keys arbitrary: k) (auto intro: key_set_inv_accept)
  then show ?thesis by (simp add: watchdog_refresh_def Some)
qed (simp add: watchdog_refresh_def assms)

lemma key_set_inv_refreshes: "key_set_inv sha1 k \<Longrightarrow> key_set_inv sha1 (fold (watchdog_refresh sha1) fs k)"
  by (induction fs arbitrary: k) (simp_all add: key_set_inv_refresh)

section \<open>RSA_PAD can be undone\<close>

text \<open>What the server does with a decrypted block: recover the temporary key from the second part, decrypt
  it, check the hash and undo the reversal.\<close>

definition rsa_unpad ::
  "(bytes \<Rightarrow> bytes) \<Rightarrow> (bytes \<Rightarrow> bytes \<Rightarrow> bytes) \<Rightarrow> bytes \<Rightarrow> bytes option" where
  "rsa_unpad sha256 D block =
     (let aesEncrypted = drop 32 block;
          tempKey = xorInPlace (take 32 block) (sha256 aesEncrypted)
      in case IGEDecrypt D aesEncrypted tempKey (replicate 32 0) of
           Inl _ \<Rightarrow> None
         | Inr dataWithHash \<Rightarrow>
             let dataWithPadding = rev (take 192 dataWithHash)
             in if sha256 (tempKey @ dataWithPadding) = drop 192 dataWithHash then Some dataWithPadding else None)"

lemma rsapad_block_ok:
  assumes sha: "\<And>m. length (sha256 m) = 32" and "\<And>k. length k = 32 \<Longrightarrow> block_cipher_ok E D k"
    and t: "length tempKey = 32" and d: "length d = 192"
  shows "\<exists>b. rsapad_block sha256 E d tempKey = Inr b \<and> length b = 256 \<and> rsa_unpad sha256 D b = Some d"
proof -
  define h where "h = sha256 (tempKey @ d)"
  have "length (rev d @ h) mod 16 = 0" by (simp add: h_def sha d)
  from IGE_decrypt_encrypt [OF assms(2) [OF t] _ _ this, of "replicate 32 0"] t
  obtain c where c: "IGEEncrypt E (rev d @ h) tempKey (replicate 32 0) = Inr c" "length c = 224"
    "IGEDecrypt D c tempKey (replicate 32 0) = Inr (rev d @ h)"
    by (auto simp: GetAESBlock_def h_def sha d)
  define x where "x = xorInPlace tempKey (sha256 c)"
  have "length x = 32" by (simp add: x_def sha t)
  moreover have "xorInPlace x (sha256 c) = tempKey" unfolding x_def by (rule xorInPlace_cancel) (simp add: sha t)
  moreover have "rsapad_block sha256 E d tempKey = Inr (x @ c)"
    by (simp add: rsapad_block_def Let_def h_def [symmetric] c(1) x_def)
  ultimately show ?thesis
    using c d by (simp add: rsa_unpad_def Let_def h_def)
qed

text \<open>The loop ends at the first temporary key whose block is below the modulus.\<close>

lemma rsapad_loop_ends:
  assumes "\<And>i. i \<le> k \<Longrightarrow> tempKeys (j + i) = Some (t i) \<and> rsapad_block sha256 E d (t i) = Inr (b i)"
    and "SetBytes (b k) < n"
  shows "\<exists>i\<le>k. rsapad_loop sha256 E tempKeys j d n = Some (Inr (b i)) \<and> SetBytes (b i) < n"
  using assms
proof (induction k arbitrary: j t b)
  case 0
  then show ?case by (subst rsapad_loop.simps) simp
next
  case (Suc k)
  have j: "tempKeys j = Some (t 0)" "rsapad_block sha256 E d (t 0) = Inr (b 0)" using Suc.prems(1) [of 0] by simp_all
  show ?case
  proof (cases "SetBytes (b 0) < n")
    case True
    with j have "rsapad_loop sha256 E tempKeys j d n = Some (Inr (b 0))" by (subst rsapad_loop.simps) simp
    with True show ?thesis by blast
  next
    case False
    have "\<exists>i\<le>k. rsapad_loop sha256 E tempKeys (Suc j) d n = Some (Inr (b (Suc i))) \<and> SetBytes (b (Suc i)) < n"
      using Suc.prems(1) [of "Suc i" for i] Suc.prems(2)
      by (intro Suc.IH [of "Suc j" "\<lambda>i. t (Suc i)" "\<lambda>i. b (Suc i)"]) auto
    moreover have "rsapad_loop sha256 E tempKeys j d n = rsapad_loop sha256 E tempKeys (Suc j) d n"
      using j False by (subst rsapad_loop.simps) simp
    ultimately show ?thesis by (metis Suc_le_mono)
  qed
qed

text \<open>The facts about the table that encryption needs.\<close>

lemma rsapad_finds_block:
  assumes "\<And>m. length (sha256 m) = 32" and "\<And>k. length k = 32 \<Longrightarrow> block_cipher_ok E D k" and "length d = 192"
    and "\<And>i. i \<le> k \<Longrightarrow> tempKeys i = Some (t i) \<and> length (t i) = 32"
    and "SetBytes (projr (rsapad_block sha256 E d (t k))) < N"
  obtains block where "rsapad_loop sha256 E tempKeys 0 d N = Some (Inr block)" "SetBytes block < N"
    "length block = 256" "rsa_unpad sha256 D block = Some d"
proof -
  let ?b = "\<lambda>i. projr (rsapad_block sha256 E d (t i))"
  have blk: "rsapad_block sha256 E d (t i) = Inr (?b i) \<and> length (?b i) = 256 \<and>
      rsa_unpad sha256 D (?b i) = Some d" if "i \<le> k" for i
    using rsapad_block_ok [of sha256 E D, OF assms(1,2) conjunct2 [OF assms(4) [OF that]] assms(3)] by auto
  obtain i where "i \<le> k" "rsapad_loop sha256 E tempKeys 0 d N = Some (Inr (?b i))" "SetBytes (?b i) < N"
    using rsapad_loop_ends [of k tempKeys 0 t sha256 E d ?b N] assms(4,5) blk by auto
  with blk that show ?thesis by blast
qed

lemma serverPublicKeys_moduli: "\<forall>(fp, key) \<in> set serverPublicKeys. 2 ^ 2047 < sk_N key \<and> sk_N key < 2 ^ 2048"
  by (simp add: serverPublicKeys_def)

lemma modulus_of_key:
  assumes "GetServerKey fp = Some key"
  shows "2 ^ 2047 < sk_N key" and "sk_N key < 2 ^ 2048" and "0 < sk_N key"
proof -
  have "(fp, key) \<in> set serverPublicKeys" using assms unfolding GetServerKey_def by (rule map_of_SomeD)
  from bspec [OF serverPublicKeys_moduli this] show b: "2 ^ 2047 < sk_N key" "sk_N key < 2 ^ 2048"
    unfolding prod.case by (rule conjunct1, rule conjunct2)
  show "0 < sk_N key" by (rule less_trans [OF _ b(1)]) (rule zero_less_power, rule zero_less_numeral)
qed

lemma serverPublicKeys_wf: "gm_wf serverPublicKeys"
  by (simp add: serverPublicKeys_def)

section \<open>Properties\<close>

text \<open>Parameters with which the first block lies below every bundled modulus: the witnesses use them.\<close>

lemma rsapad_block_constant:
  assumes "GetServerKey fp = Some key" and "length d = 192"
  shows "SetBytes (projr (rsapad_block (\<lambda>_. replicate 32 1) (\<lambda>_. rev) d (replicate 32 1))) < sk_N key"
proof -
  have ok: "block_cipher_ok (\<lambda>_. rev) (\<lambda>_. rev) k" for k by (simp add: block_cipher_ok_def)
  obtain b where b: "rsapad_block (\<lambda>_. replicate 32 1) (\<lambda>_. rev) d (replicate 32 1) = Inr b" "length b = 256"
    using rsapad_block_ok [of "\<lambda>_. replicate 32 1" "\<lambda>_. rev" "\<lambda>_. rev" "replicate 32 1" d] ok assms(2) by auto
  have "take 32 b = replicate 32 0"
    using b(1) by (auto simp: rsapad_block_def Let_def xorInPlace_def zip_replicate split: sum.splits)
  then have "b = replicate 32 0 @ drop 32 b" by (metis append_take_drop_id)
  then have "SetBytes b = SetBytes (drop 32 b)" by (metis SetBytes_zeros)
  then have "SetBytes b < 256 ^ 224" using SetBytes_less [of "drop 32 b"] b(2) by simp
  also have "(256 :: int) ^ 224 < 2 ^ 2047" by simp
  also have "\<dots> < sk_N key" by (rule modulus_of_key(1) [OF assms(1)])
  finally show ?thesis using b(1) by simp
qed

text \<open>Property C23 (invariant): the trust store. After any number of refreshes with any fetched keys the bundled
  keys are untouched, a bundled fingerprint always yields its bundled key, and every other trusted
  fingerprint yields a key whose computed fingerprint it is.\<close>

theorem key_set_keeps_trust_root:
  "let k = fold (watchdog_refresh sha1) fetches NewRSAKeySet
   in ks_bundled k = serverPublicKeys \<and>
      (\<forall>fp. KeySet_IsTrusted fp k \<longleftrightarrow> KeySet_Get fp k \<noteq> None) \<and>
      (\<forall>fp key. GetServerKey fp = Some key \<longrightarrow> KeySet_Get fp k = Some key) \<and>
      (\<forall>fp key. GetServerKey fp = None \<and> KeySet_Get fp k = Some key \<longrightarrow> ComputeFingerprint sha1 key = fp)"
  using key_set_inv_refreshes [OF key_set_inv_new, of sha1 fetches]
  by (auto simp: Let_def key_set_inv_def KeySet_IsTrusted_def KeySet_Get_def GetServerKey_def
      simp del: map_of_eq_Some_iff split: option.splits)

theorem key_set_keeps_trust_root_witness:
  "ks_bundled (fold (watchdog_refresh (\<lambda>_. replicate 20 0)) [Some [(0, Some \<lparr>sk_N = 15, sk_E = 3\<rparr>)]] NewRSAKeySet) =
     serverPublicKeys \<and>
   KeySet_Get 0 (fold (watchdog_refresh (\<lambda>_. replicate 20 0)) [Some [(0, Some \<lparr>sk_N = 15, sk_E = 3\<rparr>)]] NewRSAKeySet) =
     Some \<lparr>sk_N = 15, sk_E = 3\<rparr> \<and>
   ComputeFingerprint (\<lambda>_. replicate 20 0) \<lparr>sk_N = 15, sk_E = 3\<rparr> = 0"
proof -
  let ?k = "fold (watchdog_refresh (\<lambda>_. replicate 20 0)) [Some [(0, Some \<lparr>sk_N = 15, sk_E = 3\<rparr>)]] NewRSAKeySet"
  have fp: "ComputeFingerprint (\<lambda>_. replicate 20 0) \<lparr>sk_N = 15, sk_E = 3\<rparr> = 0"
    by (simp add: ComputeFingerprint_def go_slice_def numeral_eq_Suc)
  have "map_of serverPublicKeys 0 = None" by (simp add: serverPublicKeys_def)
  then have get: "KeySet_Get 0 ?k = Some \<lparr>sk_N = 15, sk_E = 3\<rparr>"
    by (simp add: watchdog_refresh_def VerifyAndAccept_def fp NewRSAKeySet_def KeySet_Get_def)
  from key_set_keeps_trust_root [of "\<lambda>_. replicate 20 0" "[Some [(0, Some \<lparr>sk_N = 15, sk_E = 3\<rparr>)]]"] get fp
  show ?thesis by (simp only: Let_def simp_thms)
qed

text \<open>Property C21 (roundtrip): encryption for the server. For every bundled key and every message of at most 144
  bytes, if some temporary key drawn yields a block below the modulus then RSAEncrypt returns the
  256-byte textbook RSA encryption of a 256-byte block below the modulus from which undoing
  RSA_PAD recovers the message with its random padding.\<close>

theorem rsa_encryption_recoverable:
  assumes "\<And>m. length (sha256 m) = 32" and "\<And>k. length k = 32 \<Longrightarrow> block_cipher_ok E D k"
    and "GetServerKey fp = Some key" and "length data \<le> 144"
    and "rand (192 - length data) = Some padding" and "length padding = 192 - length data"
    and "\<And>i. i \<le> k \<Longrightarrow> tempKeys i = Some (t i) \<and> length (t i) = 32"
    and "SetBytes (projr (rsapad_block sha256 E (data @ padding) (t k))) < sk_N key"
  shows "\<exists>out block.
      RSAEncrypt sha256 E rand tempKeys data fp = Some (Inr out) \<and> length out = 256 \<and>
      length block = 256 \<and> SetBytes block < sk_N key \<and>
      SetBytes out = SetBytes block ^ sk_E key mod sk_N key \<and>
      rsa_unpad sha256 D block = Some (data @ padding)"
proof -
  let ?d = "data @ padding"
  have d: "length ?d = 192" using assms(4,6) by simp
  obtain block where blk: "rsapad_loop sha256 E tempKeys 0 ?d (sk_N key) = Some (Inr block)"
      "SetBytes block < sk_N key" "length block = 256" "rsa_unpad sha256 D block = Some ?d"
    using rsapad_finds_block [of sha256 E D ?d k tempKeys t "sk_N key"] assms(1,2,7,8) d by blast
  define c where "c = big_Exp (SetBytes block) (sk_E key) (sk_N key)"
  note N = modulus_of_key [OF assms(3)]
  have c: "0 \<le> c" "c < 256 ^ 256"
  proof -
    have "c < sk_N key" unfolding c_def big_Exp_def using N(3) by (rule pos_mod_bound)
    also have "\<dots> < 2 ^ (8 * 256)" using N(2) by simp
    also have "(2 :: int) ^ (8 * 256) = 256 ^ 256" unfolding power_mult by simp
    finally show "c < 256 ^ 256" .
    show "0 \<le> c" using N(3) by (simp add: c_def big_Exp_def)
  qed
  then have "nat c < 256 ^ 256" by (simp add: nat_less_iff)
  then have len: "length (Big_Bytes c) \<le> 256" using c length_big_Bytes [of "nat c" 256] by (simp add: Big_Bytes_def)
  have enc: "RSAEncrypt sha256 E rand tempKeys data fp =
      Some (Inr (replicate (256 - length (Big_Bytes c)) 0 @ Big_Bytes c))"
    using assms(3-5) blk(1) by (simp add: RSAEncrypt_def rsapad_def rsaPadDataLimit_def dataWithPaddingLen_def
        rsaEncryptedLen_def Let_def c_def)
  show ?thesis
    using len c blk(2-4)
    by (intro exI [of _ "replicate (256 - length (Big_Bytes c)) 0 @ Big_Bytes c"] exI [of _ block])
      (simp add: enc, simp add: c_def big_Exp_def)
qed

theorem rsa_encryption_recoverable_witness:
  "\<exists>out block.
      RSAEncrypt (\<lambda>_. replicate 32 1) (\<lambda>_. rev) (\<lambda>n. Some (replicate n 7)) (\<lambda>_. Some (replicate 32 1)) [1, 2, 3]
        847625836280919973 = Some (Inr out) \<and> length out = 256 \<and>
      length block = 256 \<and> SetBytes block < sk_N (the (GetServerKey 847625836280919973)) \<and>
      SetBytes out = SetBytes block ^ sk_E (the (GetServerKey 847625836280919973)) mod
                       sk_N (the (GetServerKey 847625836280919973)) \<and>
      rsa_unpad (\<lambda>_. replicate 32 1) (\<lambda>_. rev) block = Some ([1, 2, 3] @ replicate 189 7)"
proof (rule rsa_encryption_recoverable [where k = 0 and t = "\<lambda>_. replicate 32 1"])
  let ?key = "the (GetServerKey 847625836280919973)" and ?d = "[1, 2, 3] @ replicate 189 7"
  show g: "GetServerKey 847625836280919973 = Some ?key" by (simp add: GetServerKey_def serverPublicKeys_def)
  show "SetBytes (projr (rsapad_block (\<lambda>_. replicate 32 1) (\<lambda>_. rev) ?d (replicate 32 1))) < sk_N ?key"
    by (rule rsapad_block_constant [OF g]) simp
qed (simp_all add: block_cipher_ok_def)

text \<open>A defect: a key accepted at run time is trusted but cannot be used. RSAEncrypt looks the
  fingerprint up in the bundled table only, so for every trusted fingerprint that is not bundled
  it fails with ErrUnknownFingerprint, whatever the message.\<close>

theorem rotated_key_unusable:
  assumes "ComputeFingerprint sha1 key = fp" and "GetServerKey fp = None"
  shows "let k = snd (VerifyAndAccept sha1 fp (Some key) NewRSAKeySet)
         in KeySet_IsTrusted fp k \<and> KeySet_Get fp k = Some key \<and>
            RSAEncrypt sha256 E rand tempKeys data fp = Some (Inl ErrUnknownFingerprint)"
  using assms
  by (simp add: Let_def VerifyAndAccept_def NewRSAKeySet_def GetServerKey_def KeySet_IsTrusted_def KeySet_Get_def
      RSAEncrypt_def)

theorem rotated_key_unusable_witness:
  "let k = snd (VerifyAndAccept (\<lambda>_. replicate 20 0) 0 (Some \<lparr>sk_N = 15, sk_E = 3\<rparr>) NewRSAKeySet)
   in KeySet_IsTrusted 0 k \<and> KeySet_Get 0 k = Some \<lparr>sk_N = 15, sk_E = 3\<rparr> \<and>
      RSAEncrypt (\<lambda>_. replicate 32 1) (\<lambda>_. rev) (\<lambda>n. Some (replicate n 7)) (\<lambda>_. Some (replicate 32 1)) [1] 0 =
        Some (Inl ErrUnknownFingerprint)"
proof (rule rotated_key_unusable)
  show "ComputeFingerprint (\<lambda>_. replicate 20 0) \<lparr>sk_N = 15, sk_E = 3\<rparr> = 0"
    by (simp add: ComputeFingerprint_def go_slice_def numeral_eq_Suc)
  show "GetServerKey 0 = None" by (simp add: GetServerKey_def serverPublicKeys_def)
qed

end
