(* ===== verification/Auth_Messages.thy ===== *)
theory Auth_Messages
  imports TL_Reader
begin

text \<open>
  The TL types of the key exchange, as generated in \<^verbatim>\<open>src/tg/core_types_gen.go\<close> and
  \<^verbatim>\<open>src/tg/core_methods_gen.go\<close>: one encoder and one decoder per constructor, and the boxed reading of
  ReadTLObject for them. A Go [16]byte or [32]byte is a byte list of that length.
\<close>

section \<open>Types\<close>

datatype auth_object =
    ResPQ bytes bytes bytes "i64 list"
  | PQInnerDataDC bytes bytes bytes bytes bytes bytes u32
  | PQInnerDataTempDC bytes bytes bytes bytes bytes bytes u32 u32
  | ServerDHParamsFail bytes bytes bytes
  | ServerDHParamsOk bytes bytes bytes
  | ServerDHInnerData bytes bytes u32 bytes bytes u32
  | ClientDHInnerData bytes bytes i64 bytes
  | DHGenOk bytes bytes bytes
  | DHGenRetry bytes bytes bytes
  | DHGenFail bytes bytes bytes
  | ReqPQMultiRequest bytes
  | ReqDHParamsRequest bytes bytes bytes bytes i64 bytes
  | SetClientDHParamsRequest bytes bytes bytes
  | OtherObject u32

definition ResPQTypeID :: u32 where
  "ResPQTypeID = 0x05162463"

definition PQInnerDataDCTypeID :: u32 where
  "PQInnerDataDCTypeID = 0xa9f55f95"

definition PQInnerDataTempDCTypeID :: u32 where
  "PQInnerDataTempDCTypeID = 0x56fddf88"

definition ServerDHParamsFailTypeID :: u32 where
  "ServerDHParamsFailTypeID = 0x79cb045d"

definition ServerDHParamsOkTypeID :: u32 where
  "ServerDHParamsOkTypeID = 0xd0e8075c"

definition ServerDHInnerDataTypeID :: u32 where
  "ServerDHInnerDataTypeID = 0xb5890dba"

definition ClientDHInnerDataTypeID :: u32 where
  "ClientDHInnerDataTypeID = 0x6643b654"

definition DHGenOkTypeID :: u32 where
  "DHGenOkTypeID = 0x3bcbf734"

definition DHGenRetryTypeID :: u32 where
  "DHGenRetryTypeID = 0x46dc1fb9"

definition DHGenFailTypeID :: u32 where
  "DHGenFailTypeID = 0xa69dae02"

definition ReqPQMultiTypeID :: u32 where
  "ReqPQMultiTypeID = 0xbe7e8ef1"

definition ReqDHParamsTypeID :: u32 where
  "ReqDHParamsTypeID = 0xd712e4be"

definition SetClientDHParamsTypeID :: u32 where
  "SetClientDHParamsTypeID = 0xf5045f1f"

lemmas auth_ids =
  ResPQTypeID_def
  PQInnerDataDCTypeID_def
  PQInnerDataTempDCTypeID_def
  ServerDHParamsFailTypeID_def
  ServerDHParamsOkTypeID_def
  ServerDHInnerDataTypeID_def
  ClientDHInnerDataTypeID_def
  DHGenOkTypeID_def
  DHGenRetryTypeID_def
  DHGenFailTypeID_def

section \<open>Encoders\<close>

definition Encode_ResPQ :: "bytes \<Rightarrow> bytes \<Rightarrow> bytes \<Rightarrow> i64 list \<Rightarrow> bytes" where
  "Encode_ResPQ nonce serverNonce pq fingerprints =
     (let b = WriteInt [] ResPQTypeID;
          b = WriteInt128 b nonce;
          b = WriteInt128 b serverNonce;
          b = WriteString b pq;
          b = WriteVectorLong b fingerprints
      in b)"

definition Encode_PQInnerDataDC :: "bytes \<Rightarrow> bytes \<Rightarrow> bytes \<Rightarrow> bytes \<Rightarrow> bytes \<Rightarrow> bytes \<Rightarrow> u32 \<Rightarrow> bytes" where
  "Encode_PQInnerDataDC pq p q nonce serverNonce newNonce dc =
     (let b = WriteInt [] PQInnerDataDCTypeID;
          b = WriteString b pq;
          b = WriteString b p;
          b = WriteString b q;
          b = WriteInt128 b nonce;
          b = WriteInt128 b serverNonce;
          b = WriteInt256 b newNonce;
          b = WriteInt b dc
      in b)"

definition Encode_PQInnerDataTempDC :: "bytes \<Rightarrow> bytes \<Rightarrow> bytes \<Rightarrow> bytes \<Rightarrow> bytes \<Rightarrow> bytes \<Rightarrow> u32 \<Rightarrow> u32 \<Rightarrow> bytes" where
  "Encode_PQInnerDataTempDC pq p q nonce serverNonce newNonce dc expiresIn =
     (let b = WriteInt [] PQInnerDataTempDCTypeID;
          b = WriteString b pq;
          b = WriteString b p;
          b = WriteString b q;
          b = WriteInt128 b nonce;
          b = WriteInt128 b serverNonce;
          b = WriteInt256 b newNonce;
          b = WriteInt b dc;
          b = WriteInt b expiresIn
      in b)"

definition Encode_ServerDHParamsFail :: "bytes \<Rightarrow> bytes \<Rightarrow> bytes \<Rightarrow> bytes" where
  "Encode_ServerDHParamsFail nonce serverNonce newNonceHash =
     (let b = WriteInt [] ServerDHParamsFailTypeID;
          b = WriteInt128 b nonce;
          b = WriteInt128 b serverNonce;
          b = WriteInt128 b newNonceHash
      in b)"

definition Encode_ServerDHParamsOk :: "bytes \<Rightarrow> bytes \<Rightarrow> bytes \<Rightarrow> bytes" where
  "Encode_ServerDHParamsOk nonce serverNonce encryptedAnswer =
     (let b = WriteInt [] ServerDHParamsOkTypeID;
          b = WriteInt128 b nonce;
          b = WriteInt128 b serverNonce;
          b = WriteString b encryptedAnswer
      in b)"

definition Encode_ServerDHInnerData :: "bytes \<Rightarrow> bytes \<Rightarrow> u32 \<Rightarrow> bytes \<Rightarrow> bytes \<Rightarrow> u32 \<Rightarrow> bytes" where
  "Encode_ServerDHInnerData nonce serverNonce g dhPrime ga serverTime =
     (let b = WriteInt [] ServerDHInnerDataTypeID;
          b = WriteInt128 b nonce;
          b = WriteInt128 b serverNonce;
          b = WriteInt b g;
          b = WriteString b dhPrime;
          b = WriteString b ga;
          b = WriteInt b serverTime
      in b)"

definition Encode_ClientDHInnerData :: "bytes \<Rightarrow> bytes \<Rightarrow> i64 \<Rightarrow> bytes \<Rightarrow> bytes" where
  "Encode_ClientDHInnerData nonce serverNonce retryID gb =
     (let b = WriteInt [] ClientDHInnerDataTypeID;
          b = WriteInt128 b nonce;
          b = WriteInt128 b serverNonce;
          b = WriteLong b retryID;
          b = WriteString b gb
      in b)"

definition Encode_DHGenOk :: "bytes \<Rightarrow> bytes \<Rightarrow> bytes \<Rightarrow> bytes" where
  "Encode_DHGenOk nonce serverNonce newNonceHash1 =
     (let b = WriteInt [] DHGenOkTypeID;
          b = WriteInt128 b nonce;
          b = WriteInt128 b serverNonce;
          b = WriteInt128 b newNonceHash1
      in b)"

definition Encode_DHGenRetry :: "bytes \<Rightarrow> bytes \<Rightarrow> bytes \<Rightarrow> bytes" where
  "Encode_DHGenRetry nonce serverNonce newNonceHash2 =
     (let b = WriteInt [] DHGenRetryTypeID;
          b = WriteInt128 b nonce;
          b = WriteInt128 b serverNonce;
          b = WriteInt128 b newNonceHash2
      in b)"

definition Encode_DHGenFail :: "bytes \<Rightarrow> bytes \<Rightarrow> bytes \<Rightarrow> bytes" where
  "Encode_DHGenFail nonce serverNonce newNonceHash3 =
     (let b = WriteInt [] DHGenFailTypeID;
          b = WriteInt128 b nonce;
          b = WriteInt128 b serverNonce;
          b = WriteInt128 b newNonceHash3
      in b)"

definition Encode_ReqPQMultiRequest :: "bytes \<Rightarrow> bytes" where
  "Encode_ReqPQMultiRequest nonce =
     (let b = WriteInt [] ReqPQMultiTypeID;
          b = WriteInt128 b nonce
      in b)"

definition Encode_ReqDHParamsRequest :: "bytes \<Rightarrow> bytes \<Rightarrow> bytes \<Rightarrow> bytes \<Rightarrow> i64 \<Rightarrow> bytes \<Rightarrow> bytes" where
  "Encode_ReqDHParamsRequest nonce serverNonce p q fingerprint encryptedData =
     (let b = WriteInt [] ReqDHParamsTypeID;
          b = WriteInt128 b nonce;
          b = WriteInt128 b serverNonce;
          b = WriteString b p;
          b = WriteString b q;
          b = WriteLong b fingerprint;
          b = WriteString b encryptedData
      in b)"

definition Encode_SetClientDHParamsRequest :: "bytes \<Rightarrow> bytes \<Rightarrow> bytes \<Rightarrow> bytes" where
  "Encode_SetClientDHParamsRequest nonce serverNonce encryptedData =
     (let b = WriteInt [] SetClientDHParamsTypeID;
          b = WriteInt128 b nonce;
          b = WriteInt128 b serverNonce;
          b = WriteString b encryptedData
      in b)"

text \<open>The Encode method of an object; the other types are not encoded here.\<close>

fun Encode_auth :: "auth_object \<Rightarrow> bytes" where
  "Encode_auth (ResPQ nonce serverNonce pq fingerprints) =
     Encode_ResPQ nonce serverNonce pq fingerprints"
| "Encode_auth (PQInnerDataDC pq p q nonce serverNonce newNonce dc) =
     Encode_PQInnerDataDC pq p q nonce serverNonce newNonce dc"
| "Encode_auth (PQInnerDataTempDC pq p q nonce serverNonce newNonce dc expiresIn) =
     Encode_PQInnerDataTempDC pq p q nonce serverNonce newNonce dc expiresIn"
| "Encode_auth (ServerDHParamsFail nonce serverNonce newNonceHash) =
     Encode_ServerDHParamsFail nonce serverNonce newNonceHash"
| "Encode_auth (ServerDHParamsOk nonce serverNonce encryptedAnswer) =
     Encode_ServerDHParamsOk nonce serverNonce encryptedAnswer"
| "Encode_auth (ServerDHInnerData nonce serverNonce g dhPrime ga serverTime) =
     Encode_ServerDHInnerData nonce serverNonce g dhPrime ga serverTime"
| "Encode_auth (ClientDHInnerData nonce serverNonce retryID gb) =
     Encode_ClientDHInnerData nonce serverNonce retryID gb"
| "Encode_auth (DHGenOk nonce serverNonce newNonceHash1) =
     Encode_DHGenOk nonce serverNonce newNonceHash1"
| "Encode_auth (DHGenRetry nonce serverNonce newNonceHash2) =
     Encode_DHGenRetry nonce serverNonce newNonceHash2"
| "Encode_auth (DHGenFail nonce serverNonce newNonceHash3) =
     Encode_DHGenFail nonce serverNonce newNonceHash3"
| "Encode_auth (ReqPQMultiRequest nonce) =
     Encode_ReqPQMultiRequest nonce"
| "Encode_auth (ReqDHParamsRequest nonce serverNonce p q fingerprint encryptedData) =
     Encode_ReqDHParamsRequest nonce serverNonce p q fingerprint encryptedData"
| "Encode_auth (SetClientDHParamsRequest nonce serverNonce encryptedData) =
     Encode_SetClientDHParamsRequest nonce serverNonce encryptedData"
| "Encode_auth (OtherObject c) = WriteInt [] c"

section \<open>Decoders\<close>

definition DecodeResPQ :: "auth_object rd" where
  "DecodeResPQ =
     rd_bind ReadInt128 (\<lambda>nonce.
     rd_bind ReadInt128 (\<lambda>serverNonce.
     rd_bind ReadString (\<lambda>pq.
     rd_bind ReadVectorLong (\<lambda>fingerprints.
       rd_return (ResPQ nonce serverNonce pq fingerprints)))))"

definition DecodePQInnerDataDC :: "auth_object rd" where
  "DecodePQInnerDataDC =
     rd_bind ReadString (\<lambda>pq.
     rd_bind ReadString (\<lambda>p.
     rd_bind ReadString (\<lambda>q.
     rd_bind ReadInt128 (\<lambda>nonce.
     rd_bind ReadInt128 (\<lambda>serverNonce.
     rd_bind ReadInt256 (\<lambda>newNonce.
     rd_bind ReadInt32 (\<lambda>dc.
       rd_return (PQInnerDataDC pq p q nonce serverNonce newNonce dc))))))))"

definition DecodePQInnerDataTempDC :: "auth_object rd" where
  "DecodePQInnerDataTempDC =
     rd_bind ReadString (\<lambda>pq.
     rd_bind ReadString (\<lambda>p.
     rd_bind ReadString (\<lambda>q.
     rd_bind ReadInt128 (\<lambda>nonce.
     rd_bind ReadInt128 (\<lambda>serverNonce.
     rd_bind ReadInt256 (\<lambda>newNonce.
     rd_bind ReadInt32 (\<lambda>dc.
     rd_bind ReadInt32 (\<lambda>expiresIn.
       rd_return (PQInnerDataTempDC pq p q nonce serverNonce newNonce dc expiresIn)))))))))"

definition DecodeServerDHParamsFail :: "auth_object rd" where
  "DecodeServerDHParamsFail =
     rd_bind ReadInt128 (\<lambda>nonce.
     rd_bind ReadInt128 (\<lambda>serverNonce.
     rd_bind ReadInt128 (\<lambda>newNonceHash.
       rd_return (ServerDHParamsFail nonce serverNonce newNonceHash))))"

definition DecodeServerDHParamsOk :: "auth_object rd" where
  "DecodeServerDHParamsOk =
     rd_bind ReadInt128 (\<lambda>nonce.
     rd_bind ReadInt128 (\<lambda>serverNonce.
     rd_bind ReadString (\<lambda>encryptedAnswer.
       rd_return (ServerDHParamsOk nonce serverNonce encryptedAnswer))))"

definition DecodeServerDHInnerData :: "auth_object rd" where
  "DecodeServerDHInnerData =
     rd_bind ReadInt128 (\<lambda>nonce.
     rd_bind ReadInt128 (\<lambda>serverNonce.
     rd_bind ReadInt32 (\<lambda>g.
     rd_bind ReadString (\<lambda>dhPrime.
     rd_bind ReadString (\<lambda>ga.
     rd_bind ReadInt32 (\<lambda>serverTime.
       rd_return (ServerDHInnerData nonce serverNonce g dhPrime ga serverTime)))))))"

definition DecodeClientDHInnerData :: "auth_object rd" where
  "DecodeClientDHInnerData =
     rd_bind ReadInt128 (\<lambda>nonce.
     rd_bind ReadInt128 (\<lambda>serverNonce.
     rd_bind ReadInt64 (\<lambda>retryID.
     rd_bind ReadString (\<lambda>gb.
       rd_return (ClientDHInnerData nonce serverNonce retryID gb)))))"

definition DecodeDHGenOk :: "auth_object rd" where
  "DecodeDHGenOk =
     rd_bind ReadInt128 (\<lambda>nonce.
     rd_bind ReadInt128 (\<lambda>serverNonce.
     rd_bind ReadInt128 (\<lambda>newNonceHash1.
       rd_return (DHGenOk nonce serverNonce newNonceHash1))))"

definition DecodeDHGenRetry :: "auth_object rd" where
  "DecodeDHGenRetry =
     rd_bind ReadInt128 (\<lambda>nonce.
     rd_bind ReadInt128 (\<lambda>serverNonce.
     rd_bind ReadInt128 (\<lambda>newNonceHash2.
       rd_return (DHGenRetry nonce serverNonce newNonceHash2))))"

definition DecodeDHGenFail :: "auth_object rd" where
  "DecodeDHGenFail =
     rd_bind ReadInt128 (\<lambda>nonce.
     rd_bind ReadInt128 (\<lambda>serverNonce.
     rd_bind ReadInt128 (\<lambda>newNonceHash3.
       rd_return (DHGenFail nonce serverNonce newNonceHash3))))"

text \<open>ReadTLObject on these constructors; \<open>rest\<close> decodes the constructors of other types.\<close>

definition read_auth_object :: "(u32 \<Rightarrow> auth_object rd) \<Rightarrow> auth_object rd" where
  "read_auth_object rest =
     rd_bind ReadUint32 (\<lambda>cid.
       if cid = ResPQTypeID then DecodeResPQ
       else if cid = PQInnerDataDCTypeID then DecodePQInnerDataDC
       else if cid = PQInnerDataTempDCTypeID then DecodePQInnerDataTempDC
       else if cid = ServerDHParamsFailTypeID then DecodeServerDHParamsFail
       else if cid = ServerDHParamsOkTypeID then DecodeServerDHParamsOk
       else if cid = ServerDHInnerDataTypeID then DecodeServerDHInnerData
       else if cid = ClientDHInnerDataTypeID then DecodeClientDHInnerData
       else if cid = DHGenOkTypeID then DecodeDHGenOk
       else if cid = DHGenRetryTypeID then DecodeDHGenRetry
       else if cid = DHGenFailTypeID then DecodeDHGenFail
       else rest cid)"

section \<open>Round trip\<close>

context tl_codec
begin

lemma bind_wr: "ok x \<Longrightarrow> rd_bind rd f (rd_at pre (wr [] x @ suf)) = f x (rd_at (pre @ wr [] x) suf)"
  by (rule rd_bind_ok) (rule rd_wr)

end

interpretation int128_codec: tl_codec WriteInt128 ReadInt128 "\<lambda>v. length v = 16"
  by unfold_locales (simp_all add: WriteInt128_def ReadInt128_def rd_at_def codec_simps)

interpretation int256_codec: tl_codec WriteInt256 ReadInt256 "\<lambda>v. length v = 32"
  by unfold_locales (simp_all add: WriteInt256_def ReadInt256_def rd_at_def codec_simps)

interpretation longs_codec: tl_codec WriteVectorLong ReadVectorLong "\<lambda>v. length v \<le> 100000"
proof unfold_locales
  show "WriteVectorLong b x = b @ WriteVectorLong [] x" for b x
    by (simp add: WriteVectorLong_def long_codec.write_vector_split)
  show "length x \<le> 100000 \<Longrightarrow> ReadVectorLong (rd_at pre (WriteVectorLong [] x @ suf)) =
      (Inr x, rd_at (pre @ WriteVectorLong [] x) suf)" for x pre suf
    using long_codec.read_vector_write_vector [of x] by (simp add: WriteVectorLong_def ReadVectorLong_def)
qed

lemma write_appends:
  "WriteInt128 b v = b @ WriteInt128 [] v" "WriteInt256 b v = b @ WriteInt256 [] v"
  "WriteInt b w = b @ WriteInt [] w" "WriteLong b l = b @ WriteLong [] l"
  "WriteString b s = b @ WriteString [] s" "WriteVectorLong b ls = b @ WriteVectorLong [] ls"
  by (rule int128_codec.wr_append int256_codec.wr_append int_codec.wr_append long_codec.wr_append
      string_codec.wr_append longs_codec.wr_append)+

lemmas read_binds = int128_codec.bind_wr int256_codec.bind_wr int_codec.bind_wr long_codec.bind_wr
  string_codec.bind_wr longs_codec.bind_wr
  int128_codec.bind_wr [where suf = "[]", simplified] int256_codec.bind_wr [where suf = "[]", simplified]

text \<open>The sizes Go's types guarantee, and strings short enough for a TL string.\<close>

fun auth_ok :: "auth_object \<Rightarrow> bool" where
  "auth_ok (ResPQ nonce serverNonce pq fingerprints) \<longleftrightarrow>
     length nonce = 16 \<and> length serverNonce = 16 \<and> tl_string_ok pq \<and> length fingerprints \<le> 100000"
| "auth_ok (PQInnerDataDC pq p q nonce serverNonce newNonce dc) \<longleftrightarrow>
     tl_string_ok pq \<and> tl_string_ok p \<and> tl_string_ok q \<and> length nonce = 16 \<and> length serverNonce = 16 \<and> length newNonce = 32"
| "auth_ok (PQInnerDataTempDC pq p q nonce serverNonce newNonce dc expiresIn) \<longleftrightarrow>
     tl_string_ok pq \<and> tl_string_ok p \<and> tl_string_ok q \<and> length nonce = 16 \<and> length serverNonce = 16 \<and> length newNonce = 32"
| "auth_ok (ServerDHParamsFail nonce serverNonce newNonceHash) \<longleftrightarrow>
     length nonce = 16 \<and> length serverNonce = 16 \<and> length newNonceHash = 16"
| "auth_ok (ServerDHParamsOk nonce serverNonce encryptedAnswer) \<longleftrightarrow>
     length nonce = 16 \<and> length serverNonce = 16 \<and> tl_string_ok encryptedAnswer"
| "auth_ok (ServerDHInnerData nonce serverNonce g dhPrime ga serverTime) \<longleftrightarrow>
     length nonce = 16 \<and> length serverNonce = 16 \<and> tl_string_ok dhPrime \<and> tl_string_ok ga"
| "auth_ok (ClientDHInnerData nonce serverNonce retryID gb) \<longleftrightarrow>
     length nonce = 16 \<and> length serverNonce = 16 \<and> tl_string_ok gb"
| "auth_ok (DHGenOk nonce serverNonce newNonceHash1) \<longleftrightarrow>
     length nonce = 16 \<and> length serverNonce = 16 \<and> length newNonceHash1 = 16"
| "auth_ok (DHGenRetry nonce serverNonce newNonceHash2) \<longleftrightarrow>
     length nonce = 16 \<and> length serverNonce = 16 \<and> length newNonceHash2 = 16"
| "auth_ok (DHGenFail nonce serverNonce newNonceHash3) \<longleftrightarrow>
     length nonce = 16 \<and> length serverNonce = 16 \<and> length newNonceHash3 = 16"
| "auth_ok _ \<longleftrightarrow> False"

lemmas auth_encoders =
  Encode_ResPQ_def
  Encode_PQInnerDataDC_def
  Encode_PQInnerDataTempDC_def
  Encode_ServerDHParamsFail_def
  Encode_ServerDHParamsOk_def
  Encode_ServerDHInnerData_def
  Encode_ClientDHInnerData_def
  Encode_DHGenOk_def
  Encode_DHGenRetry_def
  Encode_DHGenFail_def
  Encode_ReqPQMultiRequest_def
  Encode_ReqDHParamsRequest_def
  Encode_SetClientDHParamsRequest_def

lemmas auth_decoders =
  DecodeResPQ_def
  DecodePQInnerDataDC_def
  DecodePQInnerDataTempDC_def
  DecodeServerDHParamsFail_def
  DecodeServerDHParamsOk_def
  DecodeServerDHInnerData_def
  DecodeClientDHInnerData_def
  DecodeDHGenOk_def
  DecodeDHGenRetry_def
  DecodeDHGenFail_def

lemma read_auth_object_encoded:
  assumes "auth_ok obj"
  shows "read_auth_object rest (rd_at pre (Encode_auth obj @ suf)) = (Inr obj, rd_at (pre @ Encode_auth obj) suf)"
proof -
  note w = write_appends [where b = "_ @ _"] write_appends [where b = "WriteInt [] _"]
  show ?thesis
    using assms
    by (cases obj)
      (simp_all add: read_auth_object_def auth_encoders auth_decoders Let_def w
        rd_bind_ok [of ReadUint32, OF ReadUint32_WriteInt] auth_ids read_binds rd_return_def)
qed

end
