(* ===== verification/Key_Exchange.thy ===== *)
theory Key_Exchange
  imports Auth_Messages Factorization RSA_Keys Session_Types
begin

text \<open>
  The authorization key exchange, \<^verbatim>\<open>src/internal/session/auth.go\<close> and \<^verbatim>\<open>auth_helpers.go\<close>: createKey with
  all its checks, as a function of the peer. The peer is what Recv returns after each sequence of
  packets sent, so it may answer anything; the hash functions, the block cipher, the primality
  test, the clock and the random source are fields of the environment.
\<close>

section \<open>Errors and environment\<close>

datatype auth_error =
    AuthSentinel sentinel
  | AuthTL tl_error
  | AuthTransport
  | AuthServerCode u32
  | AuthPacketShort nat
  | AuthPacketKeyID i64
  | AuthPacketLength u32
  | AuthPanic
  | AuthUnexpectedType
  | KeyVerificationError "i64 list"
  | AuthPQ pq_error
  | AuthInnerTooLarge nat
  | AuthRSA rsa_error
  | AuthAES aes_error
  | AuthHashShort nat
  | AuthGenerator u32
  | AuthRandom

record auth_env =
  ae_sha1 :: "bytes \<Rightarrow> bytes"
  ae_sha256 :: "bytes \<Rightarrow> bytes"
  ae_E :: "bytes \<Rightarrow> bytes \<Rightarrow> bytes"
  ae_D :: "bytes \<Rightarrow> bytes \<Rightarrow> bytes"
  ae_rest :: "u32 \<Rightarrow> auth_object rd"
  ae_probably_prime :: "int \<Rightarrow> bool"
  ae_draws :: "(int option \<times> int option) list"
  ae_now :: "nat \<Rightarrow> i64 \<times> i64"
  ae_send :: "bytes list \<Rightarrow> bool"
  ae_recv :: "bytes list \<Rightarrow> bytes option"
  ae_nonce :: "bytes option"
  ae_newNonce :: "bytes option"
  ae_pad :: "nat \<Rightarrow> bytes option"
  ae_tempKeys :: "nat \<Rightarrow> bytes option"
  ae_dh :: "nat \<Rightarrow> bytes option"

record auth =
  au_DC :: int
  au_TestMode :: bool
  au_keySet :: "rsa_key_set option"

record auth_result =
  ar_AuthKey :: bytes
  ar_ServerSalt :: i64
  ar_ServerTime :: u32

section \<open>Helpers (auth_helpers.go)\<close>

definition computeKeyAndIV :: "(bytes \<Rightarrow> bytes) \<Rightarrow> bytes \<Rightarrow> bytes \<Rightarrow> bytes \<times> bytes" where
  "computeKeyAndIV sha1 newNonce serverNonce =
     (let hash1 = sha1 (newNonce @ serverNonce);
          hash2 = sha1 (serverNonce @ newNonce);
          hash3 = sha1 (newNonce @ newNonce)
      in (hash1 @ take 12 hash2, go_slice hash2 12 20 @ hash3 @ take 4 newNonce))"

definition computeNewNonceHash :: "(bytes \<Rightarrow> bytes) \<Rightarrow> bytes \<Rightarrow> bytes \<Rightarrow> u8 \<Rightarrow> bytes" where
  "computeNewNonceHash sha1 newNonce authKey number =
     go_slice (sha1 (newNonce @ [number] @ take 8 (sha1 authKey))) 4 20"

text \<open>The loop over the possible padding lengths.\<close>

primrec unwrap_loop :: "(bytes \<Rightarrow> bytes) \<Rightarrow> bytes \<Rightarrow> nat list \<Rightarrow> auth_error + bytes" where
  "unwrap_loop sha1 d [] = Inl (AuthSentinel ErrSHA1Mismatch)"
| "unwrap_loop sha1 d (padding # ps) =
     (if length d < padding + 20 then Inl (AuthSentinel ErrSHA1Mismatch)
      else let data = go_slice d 20 (length d - padding)
           in if sha1 data = take 20 d then Inr data else unwrap_loop sha1 d ps)"

definition unwrapDataWithHash :: "(bytes \<Rightarrow> bytes) \<Rightarrow> bytes \<Rightarrow> auth_error + bytes" where
  "unwrapDataWithHash sha1 d =
     (if length d < 20 then Inl (AuthHashShort (length d)) else unwrap_loop sha1 d [0..<16])"

definition computeAuthKey :: "int \<Rightarrow> nat \<Rightarrow> int \<Rightarrow> bytes" where
  "computeAuthKey gA b dhPrime = Big_Bytes (big_Exp gA b dhPrime)"

definition normalizeAuthKey :: "bytes \<Rightarrow> bytes" where
  "normalizeAuthKey authKey =
     (if length authKey = 256 then authKey
      else
        let authKey = (if length authKey > 256 then drop (length authKey - 256) authKey else authKey)
        in replicate (256 - length authKey) 0 @ authKey)"

definition computeServerSalt :: "bytes \<Rightarrow> bytes \<Rightarrow> i64" where
  "computeServerSalt newNonce serverNonce = le_word (xorInPlace (take 8 newNonce) (take 8 serverNonce))"

text \<open>The time is the seconds and the nanoseconds of the clock.\<close>

definition packUnencrypted :: "i64 \<times> i64 \<Rightarrow> bytes \<Rightarrow> bytes" where
  "packUnencrypted now payload =
     (let msgID = push_bit 32 (fst now) OR (snd now AND NOT 3)
      in le_bytes 8 (0 :: i64) @ le_bytes 8 msgID @ le_bytes 4 (word_of_nat (length payload) :: u32) @ payload)"

text \<open>The sum \<^verbatim>\<open>20+msgLen\<close> is computed in uint32; a slice whose end lies before its start panics.\<close>

definition unpackUnencrypted :: "bytes \<Rightarrow> auth_error + bytes" where
  "unpackUnencrypted data =
     (if length data < 20 then Inl (AuthPacketShort (length data))
      else
        let authKeyID = le_word (take 8 data) :: i64;
            msgLen = le_word (go_slice data 16 20) :: u32;
            hi = unat (20 + msgLen)
        in if authKeyID \<noteq> 0 then Inl (AuthPacketKeyID authKeyID)
           else if hi > length data then Inl (AuthPacketLength msgLen)
           else if hi < 20 then Inl AuthPanic
           else Inr (go_slice data 20 hi))"

section \<open>Steps of the exchange (auth.go)\<close>

text \<open>A step may fail, records the packets it sends, and may not return (None).\<close>

type_synonym 'a auth_m = "bytes list \<Rightarrow> ((auth_error + 'a) \<times> bytes list) option"

definition am_return :: "'a \<Rightarrow> 'a auth_m" where
  "am_return x s = Some (Inr x, s)"

definition am_fail :: "auth_error \<Rightarrow> 'a auth_m" where
  "am_fail e s = Some (Inl e, s)"

definition am_bind :: "'a auth_m \<Rightarrow> ('a \<Rightarrow> 'b auth_m) \<Rightarrow> 'b auth_m" where
  "am_bind m f s =
     (case m s of None \<Rightarrow> None | Some (Inl e, s') \<Rightarrow> Some (Inl e, s') | Some (Inr x, s') \<Rightarrow> f x s')"

definition am_lift :: "auth_error + 'a \<Rightarrow> 'a auth_m" where
  "am_lift r s = Some (r, s)"

definition am_rand :: "bytes option \<Rightarrow> bytes auth_m" where
  "am_rand r = (case r of None \<Rightarrow> am_fail AuthRandom | Some b \<Rightarrow> am_return b)"

text \<open>A computation that may not return, with its errors wrapped.\<close>

definition am_run :: "('e \<Rightarrow> auth_error) \<Rightarrow> ('e + 'a) option \<Rightarrow> 'a auth_m" where
  "am_run w r s =
     (case r of None \<Rightarrow> None | Some (Inl e) \<Rightarrow> Some (Inl (w e), s) | Some (Inr x) \<Rightarrow> Some (Inr x, s))"

definition innerDataDC :: "auth \<Rightarrow> u32" where
  "innerDataDC a =
     (let dc = au_DC a;
          dc = (if dc = 0 then 2 else dc);
          dc = (if au_TestMode a then dc + 10000 else dc)
      in word_of_int dc)"

definition deserializeTL :: "auth_env \<Rightarrow> bytes \<Rightarrow> auth_error + auth_object" where
  "deserializeTL e data =
     (case fst (read_auth_object (ae_rest e) (NewReader data)) of Inl x \<Rightarrow> Inl (AuthTL x) | Inr obj \<Rightarrow> Inr obj)"

definition sendUnencrypted :: "auth_env \<Rightarrow> auth_object \<Rightarrow> unit auth_m" where
  "sendUnencrypted e obj s =
     (let s' = s @ [packUnencrypted (ae_now e (length s)) (Encode_auth obj)]
      in if ae_send e s' then Some (Inr (), s') else Some (Inl AuthTransport, s'))"

definition recvUnencrypted :: "auth_env \<Rightarrow> auth_object auth_m" where
  "recvUnencrypted e s =
     (case ae_recv e s of
        None \<Rightarrow> Some (Inl AuthTransport, s)
      | Some data \<Rightarrow>
          if length data = 4 then Some (Inl (AuthServerCode (- le_word data)), s)
          else case unpackUnencrypted data of
            Inl x \<Rightarrow> Some (Inl x, s)
          | Inr payload \<Rightarrow> Some (deserializeTL e payload, s))"

definition findKeyFingerprint :: "auth \<Rightarrow> i64 list \<Rightarrow> i64 option" where
  "findKeyFingerprint a fingerprints =
     find (\<lambda>fp. case au_keySet a of
                  Some ks \<Rightarrow> KeySet_IsTrusted fp ks
                | None \<Rightarrow> GetServerKey fp \<noteq> None) fingerprints"

definition trustedFingerprints :: "auth \<Rightarrow> i64 list" where
  "trustedFingerprints a =
     (case au_keySet a of Some ks \<Rightarrow> TrustedFingerprints ks | None \<Rightarrow> ServerKeyFingerprints)"

definition generateRandomBN :: "bytes option \<Rightarrow> nat auth_m" where
  "generateRandomBN r = am_bind (am_rand r) (\<lambda>b. am_return (nat (SetBytes (b[0 := b ! 0 OR 0x80]))))"

definition validateDHGenResponse ::
  "(bytes \<Rightarrow> bytes) \<Rightarrow> bytes \<Rightarrow> bytes \<Rightarrow> bytes \<Rightarrow> bytes \<Rightarrow> bytes \<Rightarrow> bytes \<Rightarrow> bytes \<Rightarrow> u8 \<Rightarrow> auth_error + unit" where
  "validateDHGenResponse sha1 nonce serverNonce expectedNonce expectedServerNonce gotHash newNonce authKey hashNumber =
     (if nonce \<noteq> expectedNonce then Inl (AuthSentinel ErrNonceMismatch)
      else if serverNonce \<noteq> expectedServerNonce then Inl (AuthSentinel ErrServerNonceMismatch)
      else if gotHash \<noteq> computeNewNonceHash sha1 newNonce authKey hashNumber
      then Inl (AuthSentinel ErrNewNonceHashMismatch)
      else Inr ())"

definition currentDHPrime :: int where
  "currentDHPrime =
     0xc71caeb9c6b1c9048e6c522f70f13f73980d40238e3e21c14934d037563d930f48198a0aa7c14058229493d22530f4dbfa336f6e0ac925139543aed44cce7c3720fd51f69458705ac68cd4fe6b6b13abdc9746512969328454f18faf8c595f642477fe96bb2a941d5bcd1d4ac8cc49880708fa9b378e3c4f3a9060bee67cf9a4a4a695811051907e162753b56b0f6b410dba74d8a84b2a14b3144e0ef1284754fd17ed950d5965b4b9dd46582db1178d169c6bc465b0d6ff9ca3928fef5b9ae4e418fc15e83ebea0f87fa9ff5eed70050ded2849f47bf959d956850ce929851f0d8115f635b105ee2e4e15d04b2454bf6f4fadf034b10403119cd8e3b92fcc5b"

text \<open>What the exchange has established before the client sends its half of the key.\<close>

record dh_context =
  dx_nonce :: bytes
  dx_serverNonce :: bytes
  dx_newNonce :: bytes
  dx_key :: bytes
  dx_iv :: bytes
  dx_prime :: int
  dx_g :: int
  dx_gA :: int
  dx_serverTime :: u32

text \<open>client_DH_inner_data with its hash, padded to the block size.\<close>

definition clientDHWithHash :: "(bytes \<Rightarrow> bytes) \<Rightarrow> bytes \<Rightarrow> bytes" where
  "clientDHWithHash sha1 clientDHBytes =
     (let d = sha1 clientDHBytes @ clientDHBytes;
          padLen = 16 - length d mod 16
      in if padLen < 16 then d @ replicate padLen 0 else d)"

text \<open>The loop of at most five attempts; \<open>attempt\<close> numbers the random draws.\<close>

primrec dh_attempts :: "nat \<Rightarrow> auth_env \<Rightarrow> dh_context \<Rightarrow> nat \<Rightarrow> i64 \<Rightarrow> int \<Rightarrow> bytes \<Rightarrow> auth_result auth_m" where
  "dh_attempts 0 e x attempt retryID gB authKey = am_fail (AuthSentinel ErrDHGenRetry)"
| "dh_attempts (Suc left) e x attempt retryID gB authKey =
     am_bind (am_lift (case IGEEncrypt (ae_E e)
         (clientDHWithHash (ae_sha1 e)
            (Encode_auth (ClientDHInnerData (dx_nonce x) (dx_serverNonce x) retryID (Big_Bytes gB))))
         (dx_key x) (dx_iv x) of Inl err \<Rightarrow> Inl (AuthAES err) | Inr enc \<Rightarrow> Inr enc)) (\<lambda>encClientDH.
     am_bind (sendUnencrypted e (SetClientDHParamsRequest (dx_nonce x) (dx_serverNonce x) encClientDH)) (\<lambda>_.
     am_bind (recvUnencrypted e) (\<lambda>obj.
       case obj of
         DHGenOk nonce serverNonce hash \<Rightarrow>
           am_bind (am_lift (validateDHGenResponse (ae_sha1 e) nonce serverNonce (dx_nonce x) (dx_serverNonce x)
                      hash (dx_newNonce x) authKey 1)) (\<lambda>_.
             am_return \<lparr>ar_AuthKey = authKey,
                        ar_ServerSalt = computeServerSalt (dx_newNonce x) (dx_serverNonce x),
                        ar_ServerTime = dx_serverTime x\<rparr>)
       | DHGenRetry nonce serverNonce hash \<Rightarrow>
           am_bind (am_lift (validateDHGenResponse (ae_sha1 e) nonce serverNonce (dx_nonce x) (dx_serverNonce x)
                      hash (dx_newNonce x) authKey 2)) (\<lambda>_.
           am_bind (generateRandomBN (ae_dh e (Suc attempt))) (\<lambda>b.
             dh_attempts left e x (Suc attempt) (le_word (take 8 (ae_sha1 e authKey)))
               (big_Exp (dx_g x) b (dx_prime x))
               (normalizeAuthKey (computeAuthKey (dx_gA x) b (dx_prime x)))))
       | DHGenFail nonce serverNonce hash \<Rightarrow>
           am_bind (am_lift (validateDHGenResponse (ae_sha1 e) nonce serverNonce (dx_nonce x) (dx_serverNonce x)
                      hash (dx_newNonce x) authKey 3)) (\<lambda>_. am_fail (AuthSentinel ErrDHGenFail))
       | _ \<Rightarrow> am_fail AuthUnexpectedType)))"

text \<open>The checks of the server's half of the key; \<open>known\<close> is the prime the client accepts.\<close>

definition check_server_dh ::
  "auth_env \<Rightarrow> int \<Rightarrow> bytes \<Rightarrow> bytes \<Rightarrow> bytes \<Rightarrow> bytes \<Rightarrow> bytes \<Rightarrow> auth_object \<Rightarrow> auth_error + dh_context" where
  "check_server_dh e known nonce serverNonce newNonce key iv obj =
     (case obj of
        ServerDHInnerData n sn g dhPrimeBytes gaBytes serverTime \<Rightarrow>
          let dhPrime = SetBytes dhPrimeBytes;
              gA = SetBytes gaBytes
          in if n \<noteq> nonce then Inl (AuthSentinel ErrDHNonceMismatch)
             else if sn \<noteq> serverNonce then Inl (AuthSentinel ErrServerNonceMismatch)
             else if BitLen dhPrime \<noteq> 2048 then Inl (AuthSentinel ErrDHPrimeInvalid)
             else if dhPrime \<noteq> known then Inl (AuthSentinel ErrDHPrimeInvalid)
             else if sint g < 2 \<or> sint g > 7 then Inl (AuthGenerator g)
             else if gA \<le> 1 \<or> gA \<ge> dhPrime - 1 then Inl (AuthSentinel ErrGAOutOfRange)
             else if gA < 2 ^ (2048 - 64) \<or> gA > dhPrime - 2 ^ (2048 - 64) then Inl (AuthSentinel ErrGAOutOfRange)
             else if big_Exp gA (nat (dhPrime div 2)) dhPrime \<noteq> 1 then Inl (AuthSentinel ErrGAOutOfRange)
             else Inr \<lparr>dx_nonce = nonce, dx_serverNonce = serverNonce, dx_newNonce = newNonce, dx_key = key, dx_iv = iv,
                       dx_prime = dhPrime, dx_g = sint g, dx_gA = gA, dx_serverTime = serverTime\<rparr>
      | _ \<Rightarrow> Inl AuthUnexpectedType)"

text \<open>The case of server_DH_params_ok.\<close>

definition server_dh_ok ::
  "auth_env \<Rightarrow> int \<Rightarrow> bytes \<Rightarrow> bytes \<Rightarrow> bytes \<Rightarrow> bytes \<Rightarrow> auth_result auth_m" where
  "server_dh_ok e known nonce serverNonce newNonce encryptedAnswer =
     (let (key, iv) = computeKeyAndIV (ae_sha1 e) newNonce serverNonce
      in am_bind (am_lift (case IGEDecrypt (ae_D e) encryptedAnswer key iv of
                             Inl err \<Rightarrow> Inl (AuthAES err) | Inr d \<Rightarrow> Inr d)) (\<lambda>decrypted.
         am_bind (am_lift (unwrapDataWithHash (ae_sha1 e) decrypted)) (\<lambda>serverDHData.
         am_bind (am_lift (deserializeTL e serverDHData)) (\<lambda>serverDHInner.
         am_bind (am_lift (check_server_dh e known nonce serverNonce newNonce key iv serverDHInner)) (\<lambda>x.
         am_bind (generateRandomBN (ae_dh e 0)) (\<lambda>b.
           let gB = big_Exp (dx_g x) b (dx_prime x)
           in if gB < 2 \<or> gB > dx_prime x - 2 then am_fail (AuthSentinel ErrGBOutOfRange)
              else dh_attempts 5 e x 0 0 gB (normalizeAuthKey (computeAuthKey (dx_gA x) b (dx_prime x)))))))))"

definition pq_inner_data :: "auth \<Rightarrow> u32 \<Rightarrow> bytes \<Rightarrow> bytes \<Rightarrow> bytes \<Rightarrow> bytes \<Rightarrow> bytes \<Rightarrow> bytes \<Rightarrow> auth_object" where
  "pq_inner_data a tempExpiresIn pq pStr qStr nonce serverNonce newNonce =
     (if sint tempExpiresIn > 0
      then PQInnerDataTempDC pq pStr qStr nonce serverNonce newNonce (innerDataDC a) tempExpiresIn
      else PQInnerDataDC pq pStr qStr nonce serverNonce newNonce (innerDataDC a))"

text \<open>The steps from the factorization to the server's answer to req_DH_params.\<close>

definition request_dh_params ::
  "int \<Rightarrow> auth_env \<Rightarrow> auth \<Rightarrow> u32 \<Rightarrow> bytes \<Rightarrow> bytes \<Rightarrow> bytes \<Rightarrow> i64 \<Rightarrow> auth_result auth_m" where
  "request_dh_params known e a tempExpiresIn nonce serverNonce pq fp =
     am_bind (am_run AuthPQ (factorPQ (ae_probably_prime e) (ae_draws e) pq)) (\<lambda>(p, q).
     am_bind (am_rand (ae_newNonce e)) (\<lambda>newNonce.
       let inner = Encode_auth (pq_inner_data a tempExpiresIn pq (Big_Bytes p) (Big_Bytes q) nonce serverNonce newNonce)
       in if length inner > 144 then am_fail (AuthInnerTooLarge (length inner))
          else
            am_bind (am_run AuthRSA (RSAEncrypt (ae_sha256 e) (ae_E e) (ae_pad e) (ae_tempKeys e) inner fp)) (\<lambda>encData.
            am_bind (sendUnencrypted e (ReqDHParamsRequest nonce serverNonce (Big_Bytes p) (Big_Bytes q) fp encData)) (\<lambda>_.
            am_bind (recvUnencrypted e) (\<lambda>obj.
            case obj of
              ServerDHParamsFail n sn hash \<Rightarrow>
                if n \<noteq> nonce then am_fail (AuthSentinel ErrNonceMismatch)
                else if sn \<noteq> serverNonce then am_fail (AuthSentinel ErrServerNonceMismatch)
                else if hash \<noteq> go_slice (ae_sha1 e newNonce) 4 20
                then am_fail (AuthSentinel ErrNewNonceHashMismatch)
                else am_fail (AuthSentinel ErrDHParamsFail)
            | ServerDHParamsOk n sn answer \<Rightarrow>
                if n \<noteq> nonce then am_fail (AuthSentinel ErrNonceMismatch)
                else if sn \<noteq> serverNonce then am_fail (AuthSentinel ErrServerNonceMismatch)
                else server_dh_ok e known nonce serverNonce newNonce answer
            | _ \<Rightarrow> am_fail AuthUnexpectedType)))))"

text \<open>createKey, with the accepted prime as an argument.\<close>

definition createKey_with :: "int \<Rightarrow> auth_env \<Rightarrow> auth \<Rightarrow> u32 \<Rightarrow> auth_result auth_m" where
  "createKey_with known e a tempExpiresIn =
     am_bind (am_rand (ae_nonce e)) (\<lambda>nonce.
     am_bind (sendUnencrypted e (ReqPQMultiRequest nonce)) (\<lambda>_.
     am_bind (recvUnencrypted e) (\<lambda>obj.
     case obj of
       ResPQ n serverNonce pq fingerprints \<Rightarrow>
         if n \<noteq> nonce then am_fail (AuthSentinel ErrNonceMismatch)
         else (case findKeyFingerprint a fingerprints of
           None \<Rightarrow> am_fail (KeyVerificationError (trustedFingerprints a))
         | Some fp \<Rightarrow> request_dh_params known e a tempExpiresIn nonce serverNonce pq fp)
     | _ \<Rightarrow> am_fail AuthUnexpectedType)))"

definition createKey :: "auth_env \<Rightarrow> auth \<Rightarrow> u32 \<Rightarrow> auth_result auth_m" where
  "createKey = createKey_with currentDHPrime"

definition Auth_Create :: "auth_env \<Rightarrow> auth \<Rightarrow> ((auth_error + auth_result) \<times> bytes list) option" where
  "Auth_Create e a = createKey e a 0 []"

definition CreateTemp :: "auth_env \<Rightarrow> auth \<Rightarrow> u32 \<Rightarrow> ((auth_error + auth_result) \<times> bytes list) option" where
  "CreateTemp e a expiresIn = createKey e a expiresIn []"

section \<open>Successful steps\<close>

lemma am_bind_ok [guard_simps]:
  "am_bind m f s = Some (Inr y, s'') \<longleftrightarrow> (\<exists>x s'. m s = Some (Inr x, s') \<and> f x s' = Some (Inr y, s''))"
  by (auto simp: am_bind_def split: option.splits sum.splits)

lemma am_bind_step: "m s = Some (Inr x, s') \<Longrightarrow> am_bind m f s = f x s'"
  by (simp add: am_bind_def)

lemma am_simple_ok [guard_simps]:
  "am_return x s = Some (Inr y, s') \<longleftrightarrow> y = x \<and> s' = s"
  "am_fail err s = Some (Inr y, s') \<longleftrightarrow> False"
  "am_lift r s = Some (Inr y, s') \<longleftrightarrow> r = Inr y \<and> s' = s"
  "am_rand b s = Some (Inr z, s') \<longleftrightarrow> b = Some z \<and> s' = s"
  "am_run w v s = Some (Inr y, s') \<longleftrightarrow> v = Some (Inr y) \<and> s' = s"
  by (auto simp: am_return_def am_fail_def am_lift_def am_rand_def am_run_def split: option.splits sum.splits)

definition packet :: "auth_env \<Rightarrow> bytes list \<Rightarrow> auth_object \<Rightarrow> bytes" where
  "packet e s obj = packUnencrypted (ae_now e (length s)) (Encode_auth obj)"

text \<open>The object the peer answers with after the packets \<open>s\<close>.\<close>

definition received :: "auth_env \<Rightarrow> bytes list \<Rightarrow> auth_object \<Rightarrow> bool" where
  "received e s obj \<longleftrightarrow> (\<exists>data payload. ae_recv e s = Some data \<and> length data \<noteq> 4 \<and>
     unpackUnencrypted data = Inr payload \<and> deserializeTL e payload = Inr obj)"

lemma send_ok [guard_simps]:
  "sendUnencrypted e obj s = Some (Inr u, s') \<longleftrightarrow> s' = s @ [packet e s obj] \<and> ae_send e s'"
  by (auto simp: sendUnencrypted_def packet_def Let_def)

lemma recv_ok [guard_simps]:
  "recvUnencrypted e s = Some (Inr obj, s') \<longleftrightarrow> s' = s \<and> received e s obj"
  by (auto simp: recvUnencrypted_def received_def split: option.splits sum.splits)

lemma generateRandomBN_ok [guard_simps]:
  "generateRandomBN r s = Some (Inr b, s') \<longleftrightarrow>
     (\<exists>w. r = Some w \<and> b = nat (SetBytes (w[0 := w ! 0 OR 0x80])) \<and> s' = s)"
  by (auto simp: generateRandomBN_def guard_simps)

lemma validate_ok [guard_simps]:
  "validateDHGenResponse sha1 n sn n' sn' h nn k i = Inr u \<longleftrightarrow>
     n = n' \<and> sn = sn' \<and> h = computeNewNonceHash sha1 nn k i"
  by (auto simp: validateDHGenResponse_def)

section \<open>What a returned key guarantees\<close>

text \<open>The last packet carries the client's half for the exponent \<open>b\<close>, the peer has confirmed the resulting key,
  and the result is made of it.\<close>

definition dh_confirmed :: "auth_env \<Rightarrow> dh_context \<Rightarrow> nat \<Rightarrow> auth_result \<Rightarrow> bytes list \<Rightarrow> bool" where
  "dh_confirmed e x b r sent \<longleftrightarrow>
     (\<exists>retryID enc s.
        sent = s @ [packet e s (SetClientDHParamsRequest (dx_nonce x) (dx_serverNonce x) enc)] \<and>
        IGEEncrypt (ae_E e)
          (clientDHWithHash (ae_sha1 e) (Encode_auth
             (ClientDHInnerData (dx_nonce x) (dx_serverNonce x) retryID (Big_Bytes (big_Exp (dx_g x) b (dx_prime x))))))
          (dx_key x) (dx_iv x) = Inr enc \<and>
        ar_AuthKey r = normalizeAuthKey (Big_Bytes (big_Exp (dx_gA x) b (dx_prime x))) \<and>
        received e sent (DHGenOk (dx_nonce x) (dx_serverNonce x)
          (computeNewNonceHash (ae_sha1 e) (dx_newNonce x) (ar_AuthKey r) 1)) \<and>
        ar_ServerSalt r = computeServerSalt (dx_newNonce x) (dx_serverNonce x) \<and>
        ar_ServerTime r = dx_serverTime x)"

lemma dh_attempts_confirmed:
  assumes "dh_attempts left e x attempt retryID (big_Exp (dx_g x) b (dx_prime x))
             (normalizeAuthKey (computeAuthKey (dx_gA x) b (dx_prime x))) s = Some (Inr r, sent)"
  shows "\<exists>b. dh_confirmed e x b r sent"
  using assms
proof (induction left arbitrary: attempt retryID b s)
  case (Suc left)
  let ?gB = "Big_Bytes (big_Exp (dx_g x) b (dx_prime x))"
    and ?k = "normalizeAuthKey (computeAuthKey (dx_gA x) b (dx_prime x))"
  from Suc.prems obtain enc obj where enc: "IGEEncrypt (ae_E e) (clientDHWithHash (ae_sha1 e) (Encode_auth
        (ClientDHInnerData (dx_nonce x) (dx_serverNonce x) retryID ?gB))) (dx_key x) (dx_iv x) = Inr enc"
    and rcv: "received e (s @ [packet e s (SetClientDHParamsRequest (dx_nonce x) (dx_serverNonce x) enc)]) obj"
    and rest: "(case obj of
         DHGenOk nonce serverNonce hash \<Rightarrow>
           am_bind (am_lift (validateDHGenResponse (ae_sha1 e) nonce serverNonce (dx_nonce x) (dx_serverNonce x)
                      hash (dx_newNonce x) ?k 1)) (\<lambda>_.
             am_return \<lparr>ar_AuthKey = ?k, ar_ServerSalt = computeServerSalt (dx_newNonce x) (dx_serverNonce x),
                        ar_ServerTime = dx_serverTime x\<rparr>)
       | DHGenRetry nonce serverNonce hash \<Rightarrow>
           am_bind (am_lift (validateDHGenResponse (ae_sha1 e) nonce serverNonce (dx_nonce x) (dx_serverNonce x)
                      hash (dx_newNonce x) ?k 2)) (\<lambda>_.
           am_bind (generateRandomBN (ae_dh e (Suc attempt))) (\<lambda>b.
             dh_attempts left e x (Suc attempt) (le_word (take 8 (ae_sha1 e ?k)))
               (big_Exp (dx_g x) b (dx_prime x)) (normalizeAuthKey (computeAuthKey (dx_gA x) b (dx_prime x)))))
       | DHGenFail nonce serverNonce hash \<Rightarrow>
           am_bind (am_lift (validateDHGenResponse (ae_sha1 e) nonce serverNonce (dx_nonce x) (dx_serverNonce x)
                      hash (dx_newNonce x) ?k 3)) (\<lambda>_. am_fail (AuthSentinel ErrDHGenFail))
       | _ \<Rightarrow> am_fail AuthUnexpectedType)
       (s @ [packet e s (SetClientDHParamsRequest (dx_nonce x) (dx_serverNonce x) enc)]) = Some (Inr r, sent)"
    by (auto simp: guard_simps)
  show ?case
  proof (cases obj)
    case (DHGenOk n sn h)
    with rest rcv enc show ?thesis
      by (auto simp: guard_simps dh_confirmed_def computeAuthKey_def)
  next
    case (DHGenRetry n sn h)
    with rest show ?thesis by (auto simp: guard_simps intro: Suc.IH)
  qed (use rest in \<open>simp_all add: guard_simps\<close>)
qed (simp add: guard_simps)

text \<open>The shared value is the same whichever side computes it.\<close>

lemma dh_shared: "big_Exp (big_Exp g a p) b p = big_Exp (big_Exp g b p) a p"
  by (simp add: big_Exp_def power_mod power_mult [symmetric] mult.commute)

lemma length_normalizeAuthKey [simp]: "length (normalizeAuthKey k) = 256"
  by (simp add: normalizeAuthKey_def)

lemma check_server_dh_ok:
  assumes "check_server_dh e known nonce serverNonce newNonce key iv obj = Inr x"
  shows "dx_nonce x = nonce \<and> dx_serverNonce x = serverNonce \<and> dx_newNonce x = newNonce \<and> dx_prime x = known \<and>
    2 \<le> dx_g x \<and> dx_g x \<le> 7 \<and> 2 ^ 1984 \<le> dx_gA x \<and> dx_gA x \<le> known - 2 ^ 1984 \<and>
    big_Exp (dx_gA x) (nat (known div 2)) known = 1"
proof (cases obj)
  case (ServerDHInnerData n sn g p ga t)
  have "(2048 - 64 :: nat) = 1984" by simp
  then show ?thesis
    using assms by (auto simp only: ServerDHInnerData check_server_dh_def auth_object.case Let_def guard_simps
        sum.inject dh_context.simps not_less not_le de_Morgan_disj not_not)
qed (use assms in \<open>simp_all add: check_server_dh_def\<close>)

lemma server_dh_ok_sound:
  assumes "server_dh_ok e known nonce serverNonce newNonce answer s = Some (Inr r, sent)"
  shows "\<exists>x b. dx_nonce x = nonce \<and> dx_serverNonce x = serverNonce \<and> dx_newNonce x = newNonce \<and> dx_prime x = known \<and>
    2 \<le> dx_g x \<and> dx_g x \<le> 7 \<and> 2 ^ 1984 \<le> dx_gA x \<and> dx_gA x \<le> known - 2 ^ 1984 \<and>
    big_Exp (dx_gA x) (nat (known div 2)) known = 1 \<and> dh_confirmed e x b r sent"
proof -
  obtain key iv where k: "computeKeyAndIV (ae_sha1 e) newNonce serverNonce = (key, iv)" by fastforce
  obtain obj x b where c: "check_server_dh e known nonce serverNonce newNonce key iv obj = Inr x"
    and d: "dh_attempts 5 e x 0 0 (big_Exp (dx_g x) b (dx_prime x))
      (normalizeAuthKey (computeAuthKey (dx_gA x) b (dx_prime x))) s = Some (Inr r, sent)"
    using assms k
    by (auto simp: server_dh_ok_def Let_def am_bind_ok am_simple_ok generateRandomBN_ok simp del: dh_attempts.simps
        split: if_splits)
  from check_server_dh_ok [OF c] dh_attempts_confirmed [OF d] show ?thesis by blast
qed

lemma RSAEncrypt_known: "RSAEncrypt sha E rand tk data fp = Some (Inr out) \<Longrightarrow> GetServerKey fp \<noteq> None"
  by (cases "GetServerKey fp") (simp_all add: RSAEncrypt_def)

lemma request_dh_params_sound:
  assumes "request_dh_params known e a tempExpiresIn nonce serverNonce pq fp s = Some (Inr r, sent)"
  obtains newNonce answer s' where "ae_newNonce e = Some newNonce" "GetServerKey fp \<noteq> None"
    "server_dh_ok e known nonce serverNonce newNonce answer s' = Some (Inr r, sent)"
proof -
  from assms obtain p q newNonce encData obj where
    nn: "ae_newNonce e = Some newNonce" and
    rsa: "RSAEncrypt (ae_sha256 e) (ae_E e) (ae_pad e) (ae_tempKeys e)
       (Encode_auth (pq_inner_data a tempExpiresIn pq (Big_Bytes p) (Big_Bytes q) nonce serverNonce newNonce)) fp =
       Some (Inr encData)" and
    rest: "(case obj of
        ServerDHParamsFail n sn hash \<Rightarrow>
          if n \<noteq> nonce then am_fail (AuthSentinel ErrNonceMismatch)
          else if sn \<noteq> serverNonce then am_fail (AuthSentinel ErrServerNonceMismatch)
          else if hash \<noteq> go_slice (ae_sha1 e newNonce) 4 20
          then am_fail (AuthSentinel ErrNewNonceHashMismatch)
          else am_fail (AuthSentinel ErrDHParamsFail)
      | ServerDHParamsOk n sn answer \<Rightarrow>
          if n \<noteq> nonce then am_fail (AuthSentinel ErrNonceMismatch)
          else if sn \<noteq> serverNonce then am_fail (AuthSentinel ErrServerNonceMismatch)
          else server_dh_ok e known nonce serverNonce newNonce answer
      | _ \<Rightarrow> am_fail AuthUnexpectedType)
      (s @ [packet e s (ReqDHParamsRequest nonce serverNonce (Big_Bytes p) (Big_Bytes q) fp encData)]) = Some (Inr r, sent)"
    by (auto simp: request_dh_params_def am_bind_ok am_simple_ok send_ok recv_ok Let_def split: if_splits)
  show ?thesis
  proof (cases obj)
    case (ServerDHParamsOk n sn answer)
    with rest show ?thesis
      by (intro that [OF nn RSAEncrypt_known [OF rsa], of answer]) (simp add: am_simple_ok split: if_splits)
  qed (use rest in \<open>simp_all add: am_simple_ok split: if_splits\<close>)
qed

lemma createKey_sound:
  assumes "createKey_with known e a tempExpiresIn [] = Some (Inr r, sent)"
  obtains nonce newNonce serverNonce pq fps fp answer s' where
    "ae_nonce e = Some nonce" "ae_newNonce e = Some newNonce"
    "received e [packet e [] (ReqPQMultiRequest nonce)] (ResPQ nonce serverNonce pq fps)"
    "findKeyFingerprint a fps = Some fp" "GetServerKey fp \<noteq> None"
    "server_dh_ok e known nonce serverNonce newNonce answer s' = Some (Inr r, sent)"
proof -
  from assms obtain nonce obj where n: "ae_nonce e = Some nonce"
    and r1: "received e [packet e [] (ReqPQMultiRequest nonce)] obj"
    and rest: "(case obj of
       ResPQ n serverNonce pq fingerprints \<Rightarrow>
         if n \<noteq> nonce then am_fail (AuthSentinel ErrNonceMismatch)
         else (case findKeyFingerprint a fingerprints of
           None \<Rightarrow> am_fail (KeyVerificationError (trustedFingerprints a))
         | Some fp \<Rightarrow> request_dh_params known e a tempExpiresIn nonce serverNonce pq fp)
     | _ \<Rightarrow> am_fail AuthUnexpectedType) [packet e [] (ReqPQMultiRequest nonce)] = Some (Inr r, sent)"
    by (auto simp: createKey_with_def am_bind_ok am_simple_ok send_ok recv_ok)
  show ?thesis
  proof (cases obj)
    case (ResPQ n' sn pq fps)
    with rest obtain fp where fp: "n' = nonce" "findKeyFingerprint a fps = Some fp"
      and q: "request_dh_params known e a tempExpiresIn nonce sn pq fp [packet e [] (ReqPQMultiRequest nonce)] = Some (Inr r, sent)"
      by (auto simp: am_simple_ok split: if_splits option.splits)
    from request_dh_params_sound [OF q] obtain newNonce answer s' where
      "ae_newNonce e = Some newNonce" "GetServerKey fp \<noteq> None"
      "server_dh_ok e known nonce sn newNonce answer s' = Some (Inr r, sent)" .
    with that n r1 fp ResPQ show ?thesis by blast
  qed (use rest in \<open>simp_all add: am_simple_ok\<close>)
qed

section \<open>An exchange with an honest server\<close>

lemma unpack_packed:
  assumes "length payload + 20 < 2 ^ 32"
  shows "unpackUnencrypted (packUnencrypted t payload) = Inr payload" and "length (packUnencrypted t payload) \<noteq> 4"
proof -
  let ?n = "word_of_nat (length payload) :: u32"
  have "20 + ?n = word_of_nat (length payload + 20)" by simp
  then have n: "unat (20 + ?n) = length payload + 20"
    using assms by (metis len_field_iff)
  have "take 8 (packUnencrypted t payload) = le_bytes 8 (0 :: i64)"
    "go_slice (packUnencrypted t payload) 16 20 = le_bytes 4 ?n"
    "drop 20 (packUnencrypted t payload) = payload" "length (packUnencrypted t payload) = length payload + 20"
    by (simp_all add: packUnencrypted_def Let_def go_slice_def)
  then show "unpackUnencrypted (packUnencrypted t payload) = Inr payload" "length (packUnencrypted t payload) \<noteq> 4"
    by (simp_all add: unpackUnencrypted_def Let_def n) (simp add: go_slice_def)
qed

lemma length_WriteString: "length (WriteString [] v) \<le> length v + 7"
  using WriteBytes_length [of v] tl_padding_lt4 [of "length v" 1] tl_padding_lt4 [of "length v" 4]
  by (auto simp: WriteString_def split: if_splits)

lemma length_WriteVectorLong: "length (WriteVectorLong [] ls) = 8 + 8 * length ls"
proof -
  have "length (write_items WriteLong b ls) = length b + 8 * length ls" for b
    by (induction ls arbitrary: b) (simp_all add: WriteLong_def)
  then show ?thesis by (simp add: WriteVectorLong_def write_vector_def WriteInt_def)
qed

lemma length_Encode_auth:
  assumes "auth_ok obj"
  shows "length (Encode_auth obj) < 2 ^ 27"
proof -
  note w = write_appends [where b = "_ @ _"] write_appends [where b = "WriteInt [] _"]
  have fixed: "length (WriteInt [] i) = 4" "length (WriteLong [] l) = 8" "length (WriteInt128 [] v) = length v"
    "length (WriteInt256 [] v) = length v" for i l v
    by (simp_all add: WriteInt_def WriteLong_def WriteInt128_def WriteInt256_def)
  note str = length_WriteString
  show ?thesis
  proof (cases obj)
    case (ResPQ a b c d)
    with assms str [of c] show ?thesis by (simp add: auth_encoders Let_def w fixed length_WriteVectorLong)
  next
    case (PQInnerDataDC a b c d f g h)
    with assms str [of a] str [of b] str [of c] show ?thesis by (simp add: auth_encoders Let_def w fixed)
  next
    case (PQInnerDataTempDC a b c d f g h i)
    with assms str [of a] str [of b] str [of c] show ?thesis by (simp add: auth_encoders Let_def w fixed)
  next
    case (ServerDHParamsOk a b c)
    with assms str [of c] show ?thesis by (simp add: auth_encoders Let_def w fixed)
  next
    case (ServerDHInnerData a b c d f g)
    with assms str [of d] str [of f] show ?thesis by (simp add: auth_encoders Let_def w fixed)
  next
    case (ClientDHInnerData a b c d)
    with assms str [of d] show ?thesis by (simp add: auth_encoders Let_def w fixed)
  qed (use assms in \<open>simp_all add: auth_encoders Let_def w fixed\<close>)
qed

lemma deserialize_encoded: "auth_ok obj \<Longrightarrow> deserializeTL e (Encode_auth obj @ suf) = Inr obj"
  using read_auth_object_encoded [of obj "ae_rest e" "[]" suf] by (simp add: deserializeTL_def NewReader_rd_at)

lemma received_packet:
  assumes "ae_recv e s = Some (packUnencrypted t (Encode_auth obj))" and "auth_ok obj"
  shows "received e s obj"
proof -
  have "length (Encode_auth obj) + 20 < 2 ^ 32" using length_Encode_auth [OF assms(2)] by simp
  with unpack_packed assms deserialize_encoded [OF assms(2), of e "[]"] show ?thesis
    by (auto simp: received_def)
qed

lemma recv_packet:
  "ae_recv e s = Some (packUnencrypted t (Encode_auth obj)) \<Longrightarrow> auth_ok obj \<Longrightarrow>
   recvUnencrypted e s = Some (Inr obj, s)"
  by (simp add: recv_ok received_packet)

text \<open>Unwrapping finds the hashed data, possibly with some of its padding.\<close>

lemma unwrap_loop_finds:
  assumes sha: "\<And>m. length (sha1 m) = 20" and "j \<le> length pad" and "length pad < 16"
  shows "\<exists>suf. unwrap_loop sha1 (sha1 inner @ inner @ pad) [j..<16] = Inr (inner @ suf)"
  using assms(2)
proof (induction "length pad - j" arbitrary: j)
  case 0
  then have "[j..<16] = length pad # [Suc (length pad)..<16]" using assms(3) by (simp add: upt_conv_Cons)
  then show ?case by (simp add: sha go_slice_def)
next
  case (Suc k)
  then have up: "[j..<16] = j # [Suc j..<16]" and j: "j < length pad" using assms(3) by (simp_all add: upt_conv_Cons)
  from Suc have "\<exists>suf. unwrap_loop sha1 (sha1 inner @ inner @ pad) [Suc j..<16] = Inr (inner @ suf)"
    by (intro Suc.hyps) simp_all
  moreover have "go_slice (sha1 inner @ inner @ pad) 20 (20 + (length inner + length pad) - j) =
      inner @ take (length pad - j) pad"
    using j by (simp add: go_slice_def sha)
  ultimately show ?case using j by (auto simp: up sha Let_def)
qed

lemma unwrap_finds:
  assumes sha: "\<And>m. length (sha1 m) = 20" and "length pad < 16"
  shows "\<exists>suf. unwrapDataWithHash sha1 (sha1 inner @ inner @ pad) = Inr (inner @ suf)"
  using unwrap_loop_finds [of sha1, OF sha _ assms(2), of 0 inner] by (simp add: unwrapDataWithHash_def sha)

text \<open>The keys of the second step have 32 bytes, so both directions of the cipher work.\<close>

lemma length_computeKeyAndIV:
  assumes "\<And>m. length (sha1 m) = 20" and "4 \<le> length newNonce" and "computeKeyAndIV sha1 newNonce sn = (key, iv)"
  shows "length key = 32" and "length iv = 32"
  using assms(2,3) by (auto simp: computeKeyAndIV_def Let_def assms(1))

lemma length_clientDHWithHash: "length (clientDHWithHash sha1 b) mod 16 = 0"
proof -
  define d where "d = sha1 b @ b"
  show ?thesis
  proof (cases "length d mod 16 = 0")
    case True
    then show ?thesis by (simp add: clientDHWithHash_def Let_def d_def [symmetric])
  next
    case False
    then show ?thesis using pad16_full [of "length d"]
      by (simp add: clientDHWithHash_def Let_def d_def [symmetric])
  qed
qed

text \<open>The part of the exchange after the server's parameters, against a server that knows the exponent
  \<open>secret\<close> of its half.\<close>

lemma server_dh_ok_honest:
  assumes sha: "\<And>m. length (ae_sha1 e m) = 20" and cipher: "\<And>k. length k = 32 \<Longrightarrow> block_cipher_ok (ae_E e) (ae_D e) k"
    and len: "length nonce = 16" "length serverNonce = 16" "4 \<le> length newNonce"
    and k: "computeKeyAndIV (ae_sha1 e) newNonce serverNonce = (key, iv)"
    and prime: "BitLen known = 2048" "0 \<le> known"
    and g: "2 \<le> sint g" "sint g \<le> 7"
    and gA: "gA = big_Exp (sint g) secret known" "2 ^ 1984 \<le> gA" "gA \<le> known - 2 ^ 1984"
      "big_Exp gA (nat (known div 2)) known = 1"
    and inner: "inner = Encode_auth (ServerDHInnerData nonce serverNonce g (Big_Bytes known) (Big_Bytes gA) serverTime)"
    and short: "length (Big_Bytes known) < 2 ^ 24" "length (Big_Bytes gA) < 2 ^ 24"
    and pad: "length pad < 16" "length (ae_sha1 e inner @ inner @ pad) mod 16 = 0"
    and answer: "IGEEncrypt (ae_E e) (ae_sha1 e inner @ inner @ pad) key iv = Inr answer"
    and b: "ae_dh e 0 = Some w" "b = nat (SetBytes (w[0 := w ! 0 OR 0x80]))"
    and gB: "gB = big_Exp (sint g) b known" "2 \<le> gB" "gB \<le> known - 2"
    and srv: "serverKey = normalizeAuthKey (Big_Bytes (big_Exp gB secret known))"
    and send: "\<And>s. ae_send e s"
    and recv: "\<And>p. ae_recv e (s @ [p]) = Some (packUnencrypted t (Encode_auth
      (DHGenOk nonce serverNonce (computeNewNonceHash (ae_sha1 e) newNonce serverKey 1))))"
  shows "\<exists>sent. server_dh_ok e known nonce serverNonce newNonce answer s =
    Some (Inr \<lparr>ar_AuthKey = serverKey, ar_ServerSalt = computeServerSalt newNonce serverNonce,
               ar_ServerTime = serverTime\<rparr>, sent)"
proof -
  note kl = length_computeKeyAndIV [of "ae_sha1 e", OF sha len(3) k]
  have aes: "GetAESBlock key = Inr ()" using kl by (simp add: GetAESBlock_def)
  have dec: "IGEDecrypt (ae_D e) answer key iv = Inr (ae_sha1 e inner @ inner @ pad)"
    using IGE_decrypt_encrypt [OF cipher [OF kl(1)] aes kl(2) pad(2)] answer by auto
  obtain suf where un: "unwrapDataWithHash (ae_sha1 e) (ae_sha1 e inner @ inner @ pad) = Inr (inner @ suf)"
    using unwrap_finds [of "ae_sha1 e", OF sha pad(1)] by blast
  have des: "deserializeTL e (inner @ suf) =
      Inr (ServerDHInnerData nonce serverNonce g (Big_Bytes known) (Big_Bytes gA) serverTime)"
    unfolding inner by (rule deserialize_encoded) (use len short in simp)
  have pos: "1 < gA" "0 \<le> gA" "gA < known - 1"
    using gA(2,3) less_le_trans [of 1 "2 ^ 1984" gA] less_le_trans [of 0 "2 ^ 1984" gA] by simp_all
  define x where "x = \<lparr>dx_nonce = nonce, dx_serverNonce = serverNonce, dx_newNonce = newNonce, dx_key = key, dx_iv = iv,
                       dx_prime = known, dx_g = sint g, dx_gA = gA, dx_serverTime = serverTime\<rparr>"
  have guards: "\<not> (sint g < 2 \<or> sint g > 7)" "\<not> (gA \<le> 1 \<or> gA \<ge> known - 1)"
      "\<not> (gA < 2 ^ (2048 - 64) \<or> gA > known - 2 ^ (2048 - 64))"
    using g pos gA(2,3) by (simp_all only: not_less not_le de_Morgan_disj diff_numeral_special, simp_all)
  have chk: "check_server_dh e known nonce serverNonce newNonce key iv
      (ServerDHInnerData nonce serverNonce g (Big_Bytes known) (Big_Bytes gA) serverTime) = Inr x"
    unfolding check_server_dh_def auth_object.case Let_def SetBytes_Bytes [OF prime(2)] SetBytes_Bytes [OF pos(2)] x_def
    by (simp only: guards prime(1) gA(4) not_True_eq_False simp_thms if_False)
  have key: "normalizeAuthKey (computeAuthKey gA b known) = serverKey"
    by (simp add: computeAuthKey_def srv gA(1) gB(1) dh_shared [of "sint g" secret])
  obtain enc where enc: "IGEEncrypt (ae_E e) (clientDHWithHash (ae_sha1 e)
      (Encode_auth (ClientDHInnerData nonce serverNonce 0 (Big_Bytes gB)))) key iv = Inr enc"
    using IGE_decrypt_encrypt [OF cipher [OF kl(1)] aes kl(2) length_clientDHWithHash] by blast
  let ?ok = "DHGenOk nonce serverNonce (computeNewNonceHash (ae_sha1 e) newNonce serverKey 1)"
  have "received e (s @ [p]) ?ok" for p
    by (rule received_packet [OF recv]) (simp add: len computeNewNonceHash_def sha)
  then have rcv: "recvUnencrypted e (s @ [p]) = Some (Inr ?ok, s @ [p])" for p by (simp add: recv_ok)
  have att: "\<exists>sent. dh_attempts (Suc left) e x 0 0 gB serverKey s =
      Some (Inr \<lparr>ar_AuthKey = serverKey, ar_ServerSalt = computeServerSalt newNonce serverNonce,
                 ar_ServerTime = serverTime\<rparr>, sent)" for left
    by (simp add: x_def am_bind_def am_lift_def enc sendUnencrypted_def Let_def send rcv
        validateDHGenResponse_def am_return_def del: Encode_auth.simps)
  have "server_dh_ok e known nonce serverNonce newNonce answer s = dh_attempts 5 e x 0 0 gB serverKey s"
    using gB key
    by (simp add: server_dh_ok_def k am_bind_def am_lift_def dec un des chk generateRandomBN_def am_rand_def
        am_return_def b x_def Let_def)
  with att [of 4] show ?thesis by (simp del: dh_attempts.simps)
qed

text \<open>The inner data always fits into the RSA block.\<close>

lemma factorPQ_bounds:
  assumes "factorPQ pp draws pq = Some (Inr (p, q))"
  shows "length pq \<le> 8" and "length (Big_Bytes p) \<le> 8" and "length (Big_Bytes q) \<le> 8"
proof -
  show "length pq \<le> 8"
  proof (rule ccontr)
    assume "\<not> length pq \<le> 8"
    then have "factorPQ pp draws pq = Some (Inl (PQLength (length pq)))" by (simp add: factorPQ_def)
    with assms show False by simp
  qed
  from factorPQ_result [of pp draws pq] assms
  have f: "p * q = SetBytes pq" "1 < p" "p < q" "SetBytes pq < 2 ^ 63" by auto
  have small: "length (Big_Bytes x) \<le> 8" if "1 < x" "x * y = SetBytes pq" "1 < y" for x y
  proof -
    have "x * 1 \<le> x * y" using that by (intro mult_left_mono) simp_all
    then have "x < 2 ^ 63" using that f(4) by simp
    then have "nat \<bar>x\<bar> < 256 ^ 8" using that(1) by simp
    from length_big_Bytes [OF this] show ?thesis by (simp add: Big_Bytes_def)
  qed
  show "length (Big_Bytes p) \<le> 8" "length (Big_Bytes q) \<le> 8"
    using small [of p q] small [of q p] f by (simp_all add: mult.commute)
qed

lemma pq_inner_fits:
  assumes "length pq \<le> 8" "length ps \<le> 8" "length qs \<le> 8" "length nonce = 16" "length sn = 16" "length nn = 32"
  shows "length (Encode_auth (pq_inner_data a t pq ps qs nonce sn nn)) \<le> 144"
proof -
  note w = write_appends [where b = "_ @ _"] write_appends [where b = "WriteInt [] _"]
  have fixed: "length (WriteInt [] i) = 4" "length (WriteInt128 [] v) = length v" "length (WriteInt256 [] v) = length v" for i v
    by (simp_all add: WriteInt_def WriteInt128_def WriteInt256_def)
  show ?thesis
    using assms length_WriteString [of pq] length_WriteString [of ps] length_WriteString [of qs]
    by (simp add: pq_inner_data_def auth_encoders Let_def w fixed)
qed

lemma request_dh_params_ok:
  assumes f: "factorPQ (ae_probably_prime e) (ae_draws e) pq = Some (Inr (p, q))"
    and nn: "ae_newNonce e = Some newNonce" and len: "length nonce = 16" "length serverNonce = 16" "length newNonce = 32"
    and rsa: "\<And>d. length d \<le> 144 \<Longrightarrow>
      \<exists>c. RSAEncrypt (ae_sha256 e) (ae_E e) (ae_pad e) (ae_tempKeys e) d fp = Some (Inr c)"
    and send: "\<And>s. ae_send e s" and "auth_ok (ServerDHParamsOk nonce serverNonce answer)"
    and recv: "\<And>pk. ae_recv e (s @ [pk]) = Some (packUnencrypted t (Encode_auth (ServerDHParamsOk nonce serverNonce answer)))"
  shows "\<exists>pk. request_dh_params known e a tempExpiresIn nonce serverNonce pq fp s =
    server_dh_ok e known nonce serverNonce newNonce answer (s @ [pk])"
proof -
  let ?inner = "Encode_auth (pq_inner_data a tempExpiresIn pq (Big_Bytes p) (Big_Bytes q) nonce serverNonce newNonce)"
  have fit: "length ?inner \<le> 144" using factorPQ_bounds [OF f] len by (intro pq_inner_fits)
  from rsa [OF fit] obtain c where
    c: "RSAEncrypt (ae_sha256 e) (ae_E e) (ae_pad e) (ae_tempKeys e) ?inner fp = Some (Inr c)" by blast
  have rcv: "recvUnencrypted e (s @ [pk]) = Some (Inr (ServerDHParamsOk nonce serverNonce answer), s @ [pk])" for pk
    by (rule recv_packet [OF recv assms(8)])
  have steps: "am_run AuthPQ (factorPQ (ae_probably_prime e) (ae_draws e) pq) s = Some (Inr (p, q), s)"
    "am_rand (ae_newNonce e) s = Some (Inr newNonce, s)"
    "am_run AuthRSA (RSAEncrypt (ae_sha256 e) (ae_E e) (ae_pad e) (ae_tempKeys e) ?inner fp) s = Some (Inr c, s)"
    by (simp_all add: am_simple_ok f nn c)
  define pk where "pk = packet e s (ReqDHParamsRequest nonce serverNonce (Big_Bytes p) (Big_Bytes q) fp c)"
  have sent: "sendUnencrypted e (ReqDHParamsRequest nonce serverNonce (Big_Bytes p) (Big_Bytes q) fp c) s =
      Some (Inr (), s @ [pk])"
    by (simp add: send_ok send pk_def)
  have "request_dh_params known e a tempExpiresIn nonce serverNonce pq fp s =
      server_dh_ok e known nonce serverNonce newNonce answer (s @ [pk])"
    using fit by (simp add: request_dh_params_def Let_def am_bind_step steps sent rcv
        del: Encode_auth.simps)
  then show ?thesis by blast
qed

text \<open>A peer that answers as the protocol prescribes: it knows the exponent of its half of the key.\<close>

record dh_server =
  hs_serverNonce :: bytes
  hs_pq :: bytes
  hs_fingerprints :: "i64 list"
  hs_g :: u32
  hs_secret :: nat
  hs_time :: u32
  hs_pad :: bytes

definition hs_gA :: "int \<Rightarrow> dh_server \<Rightarrow> int" where
  "hs_gA known hs = big_Exp (sint (hs_g hs)) (hs_secret hs) known"

definition hs_inner :: "auth_env \<Rightarrow> int \<Rightarrow> dh_server \<Rightarrow> bytes \<Rightarrow> bytes" where
  "hs_inner e known hs nonce =
     (let inner = Encode_auth (ServerDHInnerData nonce (hs_serverNonce hs) (hs_g hs) (Big_Bytes known)
                    (Big_Bytes (hs_gA known hs)) (hs_time hs))
      in ae_sha1 e inner @ inner @ hs_pad hs)"

definition hs_answer :: "auth_env \<Rightarrow> int \<Rightarrow> dh_server \<Rightarrow> bytes \<Rightarrow> bytes \<Rightarrow> bytes" where
  "hs_answer e known hs nonce newNonce =
     (let (key, iv) = computeKeyAndIV (ae_sha1 e) newNonce (hs_serverNonce hs)
      in projr (IGEEncrypt (ae_E e) (hs_inner e known hs nonce) key iv))"

text \<open>The key the server computes from the client's half \<open>gB\<close>.\<close>

definition hs_key :: "int \<Rightarrow> dh_server \<Rightarrow> int \<Rightarrow> bytes" where
  "hs_key known hs gB = normalizeAuthKey (Big_Bytes (big_Exp gB (hs_secret hs) known))"

definition honest_server :: "auth_env \<Rightarrow> int \<Rightarrow> dh_server \<Rightarrow> bytes \<Rightarrow> bytes \<Rightarrow> int \<Rightarrow> bool" where
  "honest_server e known hs nonce newNonce gB \<longleftrightarrow>
     (\<exists>t. \<forall>p p' p''.
        ae_recv e [p] = Some (packUnencrypted t (Encode_auth
          (ResPQ nonce (hs_serverNonce hs) (hs_pq hs) (hs_fingerprints hs)))) \<and>
        ae_recv e [p, p'] = Some (packUnencrypted t (Encode_auth
          (ServerDHParamsOk nonce (hs_serverNonce hs) (hs_answer e known hs nonce newNonce)))) \<and>
        ae_recv e [p, p', p''] = Some (packUnencrypted t (Encode_auth
          (DHGenOk nonce (hs_serverNonce hs)
             (computeNewNonceHash (ae_sha1 e) newNonce (hs_key known hs gB) 1)))))"

text \<open>The parameters an honest server chooses pass the client's checks.\<close>

definition dh_server_ok :: "auth_env \<Rightarrow> int \<Rightarrow> dh_server \<Rightarrow> bytes \<Rightarrow> bool" where
  "dh_server_ok e known hs nonce \<longleftrightarrow>
     length (hs_serverNonce hs) = 16 \<and> tl_string_ok (hs_pq hs) \<and> length (hs_fingerprints hs) \<le> 100000 \<and>
     2 \<le> sint (hs_g hs) \<and> sint (hs_g hs) \<le> 7 \<and>
     2 ^ 1984 \<le> hs_gA known hs \<and> hs_gA known hs \<le> known - 2 ^ 1984 \<and>
     big_Exp (hs_gA known hs) (nat (known div 2)) known = 1 \<and>
     length (hs_pad hs) < 16 \<and> length (hs_inner e known hs nonce) mod 16 = 0"

lemma hs_gA_bytes:
  assumes "BitLen known = 2048" and "0 \<le> known" and "dh_server_ok e known hs nonce"
  shows "length (Big_Bytes known) \<le> 256" and "length (Big_Bytes (hs_gA known hs)) \<le> 256"
proof -
  have b: "(2 :: int) ^ 1984 \<le> hs_gA known hs" "hs_gA known hs \<le> known - 2 ^ 1984"
    using assms(3) unfolding dh_server_ok_def by blast+
  have p: "(0 :: int) \<le> 2 ^ 1984" by (rule zero_le_power) simp
  have "0 \<le> hs_gA known hs" by (rule order_trans [OF p b(1)])
  moreover have "hs_gA known hs \<le> known"
    by (rule order_trans [OF b(2)]) (simp only: diff_le_eq le_add_same_cancel1 p)
  ultimately show "length (Big_Bytes known) \<le> 256" "length (Big_Bytes (hs_gA known hs)) \<le> 256"
    using length_Big_Bytes_2048 [OF assms(1)] assms(2) by simp_all
qed

lemma hs_answer_facts:
  assumes sha: "\<And>m. length (ae_sha1 e m) = 20"
    and cipher: "\<And>k. length k = 32 \<Longrightarrow> block_cipher_ok (ae_E e) (ae_D e) k"
    and nn: "length nonce = 16" "4 \<le> length newNonce" and known: "BitLen known = 2048" "0 \<le> known"
    and ok: "dh_server_ok e known hs nonce"
    and k: "computeKeyAndIV (ae_sha1 e) newNonce (hs_serverNonce hs) = (key, iv)"
  shows "IGEEncrypt (ae_E e) (hs_inner e known hs nonce) key iv = Inr (hs_answer e known hs nonce newNonce)"
    and "tl_string_ok (hs_answer e known hs nonce newNonce)"
proof -
  note kl = length_computeKeyAndIV [of "ae_sha1 e", OF sha nn(2) k]
  have aes: "GetAESBlock key = Inr ()" using kl by (simp add: GetAESBlock_def)
  have m: "length (hs_inner e known hs nonce) mod 16 = 0" and p: "length (hs_pad hs) < 16"
    and sn: "length (hs_serverNonce hs) = 16"
    using ok unfolding dh_server_ok_def by blast+
  obtain c where c: "IGEEncrypt (ae_E e) (hs_inner e known hs nonce) key iv = Inr c"
      "length c = length (hs_inner e known hs nonce)"
    using IGE_decrypt_encrypt [OF cipher [OF kl(1)] aes kl(2) m] by blast
  then show "IGEEncrypt (ae_E e) (hs_inner e known hs nonce) key iv = Inr (hs_answer e known hs nonce newNonce)"
    by (simp add: hs_answer_def k)
  note gb = hs_gA_bytes [OF known ok]
  note w = write_appends [where b = "_ @ _"] write_appends [where b = "WriteInt [] _"]
  have "length (hs_inner e known hs nonce) < 2 ^ 24"
    using length_WriteString [of "Big_Bytes known"] length_WriteString [of "Big_Bytes (hs_gA known hs)"] gb p nn(1) sn
    by (simp add: hs_inner_def sha auth_encoders Let_def w WriteInt_def WriteInt128_def)
  then show "tl_string_ok (hs_answer e known hs nonce newNonce)"
    using c by (simp add: hs_answer_def k)
qed

lemma createKey_honest:
  assumes sha: "\<And>m. length (ae_sha1 e m) = 20"
    and cipher: "\<And>k. length k = 32 \<Longrightarrow> block_cipher_ok (ae_E e) (ae_D e) k"
    and rsa: "\<And>d. length d \<le> 144 \<Longrightarrow>
      \<exists>c. RSAEncrypt (ae_sha256 e) (ae_E e) (ae_pad e) (ae_tempKeys e) d fp = Some (Inr c)"
    and rnd: "ae_nonce e = Some nonce" "length nonce = 16" "ae_newNonce e = Some newNonce" "length newNonce = 32"
      "ae_dh e 0 = Some w"
    and b: "b = nat (SetBytes (w[0 := w ! 0 OR 0x80]))"
    and gB: "gB = big_Exp (sint (hs_g hs)) b known" "2 \<le> gB" "gB \<le> known - 2"
    and known: "BitLen known = 2048" "0 \<le> known"
    and ok: "dh_server_ok e known hs nonce"
    and f: "factorPQ (ae_probably_prime e) (ae_draws e) (hs_pq hs) = Some (Inr (p, q))"
    and fp: "findKeyFingerprint a (hs_fingerprints hs) = Some fp"
    and send: "\<And>s. ae_send e s" and srv: "honest_server e known hs nonce newNonce gB"
  shows "\<exists>sent. createKey_with known e a tempExpiresIn [] =
    Some (Inr \<lparr>ar_AuthKey = hs_key known hs gB,
               ar_ServerSalt = computeServerSalt newNonce (hs_serverNonce hs), ar_ServerTime = hs_time hs\<rparr>, sent)"
proof -
  obtain key iv where k: "computeKeyAndIV (ae_sha1 e) newNonce (hs_serverNonce hs) = (key, iv)" by fastforce
  have nn4: "4 \<le> length newNonce" using rnd(4) by simp
  note ans = hs_answer_facts [of e, OF sha cipher rnd(2) nn4 known ok k]
  from srv obtain t where r1: "\<And>p. ae_recv e [p] = Some (packUnencrypted t (Encode_auth
          (ResPQ nonce (hs_serverNonce hs) (hs_pq hs) (hs_fingerprints hs))))"
    and r2: "\<And>p p'. ae_recv e ([p] @ [p']) = Some (packUnencrypted t (Encode_auth
          (ServerDHParamsOk nonce (hs_serverNonce hs) (hs_answer e known hs nonce newNonce))))"
    and r3: "\<And>p p' p''. ae_recv e ([p, p'] @ [p'']) = Some (packUnencrypted t (Encode_auth
          (DHGenOk nonce (hs_serverNonce hs) (computeNewNonceHash (ae_sha1 e) newNonce (hs_key known hs gB) 1))))"
    unfolding honest_server_def append_Cons append_Nil by blast
  have hs: "length (hs_serverNonce hs) = 16" "tl_string_ok (hs_pq hs)" "length (hs_fingerprints hs) \<le> 100000"
    using ok unfolding dh_server_ok_def by blast+
  have prm: "2 \<le> sint (hs_g hs)" "sint (hs_g hs) \<le> 7" "2 ^ 1984 \<le> hs_gA known hs" "hs_gA known hs \<le> known - 2 ^ 1984"
      "big_Exp (hs_gA known hs) (nat (known div 2)) known = 1" "length (hs_pad hs) < 16"
      "length (ae_sha1 e (Encode_auth (ServerDHInnerData nonce (hs_serverNonce hs) (hs_g hs) (Big_Bytes known)
          (Big_Bytes (hs_gA known hs)) (hs_time hs))) @ Encode_auth (ServerDHInnerData nonce (hs_serverNonce hs) (hs_g hs)
          (Big_Bytes known) (Big_Bytes (hs_gA known hs)) (hs_time hs)) @ hs_pad hs) mod 16 = 0"
    using ok unfolding dh_server_ok_def hs_inner_def Let_def by blast+
  have short: "length (Big_Bytes known) < 2 ^ 24" "length (Big_Bytes (hs_gA known hs)) < 2 ^ 24"
    using hs_gA_bytes [OF known ok] by simp_all
  define pk where "pk = packet e [] (ReqPQMultiRequest nonce)"
  have s1: "am_rand (ae_nonce e) [] = Some (Inr nonce, [])"
      "sendUnencrypted e (ReqPQMultiRequest nonce) [] = Some (Inr (), [pk])"
      "recvUnencrypted e [pk] = Some (Inr (ResPQ nonce (hs_serverNonce hs) (hs_pq hs) (hs_fingerprints hs)), [pk])"
    using rnd hs by (simp_all add: am_simple_ok send_ok send pk_def recv_packet [OF r1])
  have "createKey_with known e a tempExpiresIn [] =
      request_dh_params known e a tempExpiresIn nonce (hs_serverNonce hs) (hs_pq hs) fp [pk]"
    by (simp add: createKey_with_def am_bind_step s1 fp del: Encode_auth.simps)
  moreover obtain pk' where "request_dh_params known e a tempExpiresIn nonce (hs_serverNonce hs) (hs_pq hs) fp [pk] =
      server_dh_ok e known nonce (hs_serverNonce hs) newNonce (hs_answer e known hs nonce newNonce) ([pk] @ [pk'])"
  proof -
    have "auth_ok (ServerDHParamsOk nonce (hs_serverNonce hs) (hs_answer e known hs nonce newNonce))"
      using ans(2) rnd(2) hs(1) by simp
    from request_dh_params_ok [of e, OF f rnd(3) rnd(2) hs(1) rnd(4) rsa send this r2] that show ?thesis by blast
  qed
  moreover have "\<exists>sent. server_dh_ok e known nonce (hs_serverNonce hs) newNonce (hs_answer e known hs nonce newNonce) [pk, pk'] =
      Some (Inr \<lparr>ar_AuthKey = hs_key known hs gB, ar_ServerSalt = computeServerSalt newNonce (hs_serverNonce hs),
                 ar_ServerTime = hs_time hs\<rparr>, sent)"
    by (rule server_dh_ok_honest [OF sha cipher rnd(2) hs(1) nn4 k known prm(1,2) hs_gA_def prm(3-5) refl
          short prm(6,7) ans(1) [unfolded hs_inner_def Let_def] rnd(5) b gB hs_key_def send r3])
  ultimately show ?thesis by simp
qed

section \<open>A concrete exchange\<close>

text \<open>The witnesses run the exchange with the modulus \<open>2 ^ 2047\<close>, where every odd number passes the
  subgroup check, and with ciphers and hashes that are easy to compute.\<close>

lemma odd_power_dvd: "odd (x :: int) \<Longrightarrow> 2 ^ Suc n dvd x ^ (2 ^ n) - 1"
proof (induction n)
  case (Suc n)
  define y where "y = x ^ (2 ^ n)"
  have "2 ^ Suc n dvd y - 1" using Suc by (simp add: y_def)
  moreover have "2 dvd y + 1" using Suc.prems by (simp add: y_def)
  ultimately have "2 ^ Suc n * 2 dvd (y - 1) * (y + 1)" by (rule mult_dvd_mono)
  moreover have "x ^ (2 ^ Suc n) = y * y" by (simp add: y_def mult_2 power_add)
  ultimately show ?case by (simp add: algebra_simps)
qed simp

lemma odd_power_mod:
  assumes "odd (x :: int)"
  shows "x ^ (2 ^ n) mod 2 ^ Suc n = 1"
proof -
  have "x ^ (2 ^ n) mod 2 ^ Suc n = 1 mod 2 ^ Suc n"
    unfolding mod_eq_dvd_iff by (rule odd_power_dvd [OF assms])
  also have "\<dots> = 1" by (rule mod_pos_pos_trivial) (simp_all add: less_le_trans [of 1 2])
  finally show ?thesis .
qed

definition dh_example_prime :: int where
  "dh_example_prime = 2 ^ Suc 2046"

definition dh_example_base :: auth_env where
  "dh_example_base =
     \<lparr>ae_sha1 = \<lambda>_. replicate 20 0, ae_sha256 = \<lambda>_. replicate 32 1, ae_E = \<lambda>_. rev, ae_D = \<lambda>_. rev,
      ae_rest = \<lambda>_. rd_fail ErrUnexpectedEOF, ae_probably_prime = \<lambda>_. True, ae_draws = [], ae_now = \<lambda>_. (0, 0),
      ae_send = \<lambda>_. True, ae_recv = \<lambda>_. None, ae_nonce = Some (replicate 16 1),
      ae_newNonce = Some (replicate 32 2), ae_pad = \<lambda>n. Some (replicate n 7), ae_tempKeys = \<lambda>_. Some (replicate 32 1),
      ae_dh = \<lambda>_. Some (replicate 255 0 @ [1])\<rparr>"

definition dh_example_server :: dh_server where
  "dh_example_server =
     (let hs = \<lparr>hs_serverNonce = replicate 16 3, hs_pq = [15], hs_fingerprints = [5, 847625836280919973],
                hs_g = 3, hs_secret = 1260, hs_time = 77, hs_pad = []\<rparr>
      in hs\<lparr>hs_pad := replicate (15 - (length (hs_inner dh_example_base dh_example_prime hs (replicate 16 1)) + 15) mod 16) 0\<rparr>)"

definition dh_example_env :: auth_env where
  "dh_example_env = dh_example_base\<lparr>ae_recv := \<lambda>s.
     map_option (\<lambda>obj. packUnencrypted (0, 0) (Encode_auth obj))
       (let hs = dh_example_server; n = replicate 16 1; nn = replicate 32 2 in
        if length s = 1 then Some (ResPQ n (hs_serverNonce hs) (hs_pq hs) (hs_fingerprints hs))
        else if length s = 2
        then Some (ServerDHParamsOk n (hs_serverNonce hs) (hs_answer dh_example_base dh_example_prime hs n nn))
        else if length s = 3
        then Some (DHGenOk n (hs_serverNonce hs)
               (computeNewNonceHash (ae_sha1 dh_example_base) nn (hs_key dh_example_prime hs 3) 1))
        else None)\<rparr>"

lemma dh_example_fields [simp]:
  "ae_sha1 dh_example_env m = replicate 20 0" "ae_E dh_example_env = (\<lambda>_. rev)" "ae_D dh_example_env = (\<lambda>_. rev)"
  "hs_serverNonce dh_example_server = replicate 16 3" "hs_pq dh_example_server = [15]" "hs_g dh_example_server = 3"
  "hs_fingerprints dh_example_server = [5, 847625836280919973]"
  by (simp_all add: dh_example_env_def dh_example_base_def dh_example_server_def Let_def)

lemma dh_example_bounds:
  "(2 :: int) ^ 1984 \<le> 3 ^ 1260" "(3 :: int) ^ 1260 \<le> dh_example_prime - 2 ^ 1984" "(3 :: int) ^ 1260 < dh_example_prime"
proof -
  have pow: "a \<le> b \<Longrightarrow> (2 :: int) ^ a \<le> 2 ^ b" for a b by (simp add: power_increasing)
  have "(2 :: int) ^ 1984 \<le> 2 ^ (19 * 105)" by (rule pow) simp
  also have "\<dots> = (2 ^ 19) ^ 105" by (rule power_mult)
  also have "\<dots> \<le> (3 ^ 12) ^ 105" by (rule power_mono) simp_all
  also have "\<dots> = 3 ^ (12 * 105)" by (rule power_mult [symmetric])
  finally show lower: "(2 :: int) ^ 1984 \<le> 3 ^ 1260" unfolding arith_simps .
  have "(3 :: int) ^ (5 * 252) = (3 ^ 5) ^ 252" by (rule power_mult)
  also have "\<dots> \<le> (2 ^ 8) ^ 252" by (rule power_mono) simp_all
  also have "\<dots> = 2 ^ (8 * 252)" by (rule power_mult [symmetric])
  also have "\<dots> \<le> 2 ^ 2046" by (rule pow) simp
  finally have upper: "(3 :: int) ^ 1260 \<le> 2 ^ 2046" unfolding arith_simps .
  have half: "dh_example_prime = 2 ^ 2046 + 2 ^ 2046" unfolding dh_example_prime_def power_Suc mult_2 ..
  have "(2 :: int) ^ 1984 \<le> 2 ^ 2046" by (rule pow) simp
  with upper show "(3 :: int) ^ 1260 \<le> dh_example_prime - 2 ^ 1984"
    unfolding half le_diff_eq by (rule add_mono)
  have "(0 :: int) < 2 ^ 2046" by (rule zero_less_power) simp
  then show "(3 :: int) ^ 1260 < dh_example_prime"
    unfolding half using upper by (rule add_strict_increasing)
qed

lemma dh_example_gA: "hs_gA dh_example_prime dh_example_server = 3 ^ 1260"
proof -
  have "hs_gA dh_example_prime dh_example_server = 3 ^ 1260 mod dh_example_prime"
    by (simp add: hs_gA_def dh_example_server_def big_Exp_def Let_def del: power_numeral)
  also have "\<dots> = 3 ^ 1260" by (rule mod_pos_pos_trivial [OF _ dh_example_bounds(3)]) (rule zero_le_power, simp)
  finally show ?thesis .
qed

lemma dh_example_subgroup: "big_Exp (3 ^ 1260) (nat (dh_example_prime div 2)) dh_example_prime = 1"
proof -
  have "(2 :: int) ^ Suc n div 2 = 2 ^ n" for n by simp
  moreover have "nat (2 ^ n) = 2 ^ n" for n by (simp add: nat_power_eq)
  ultimately have "nat (2 ^ Suc n div 2) = 2 ^ n" for n by simp
  moreover have "odd ((3 :: int) ^ 1260)" unfolding even_power by simp
  ultimately have "big_Exp (3 ^ 1260) (nat (2 ^ Suc n div 2)) (2 ^ Suc n) = 1" for n
    unfolding big_Exp_def using odd_power_mod [of "3 ^ 1260" n] by metis
  from this [of 2046] show ?thesis unfolding dh_example_prime_def .
qed

lemma dh_example_gB:
  "big_Exp 3 (nat (SetBytes ((replicate 255 0 @ [1])[0 := (replicate 255 0 @ [1]) ! 0 OR 0x80]))) dh_example_prime = 3"
proof -
  have "replicate 255 (0 :: u8) = 0 # replicate 254 0" by (simp flip: replicate_Suc)
  then have "(replicate 255 0 @ [1])[0 := (replicate 255 0 @ [1]) ! 0 OR 0x80] = [0x80] @ replicate 254 0 @ [1 :: u8]"
    by simp
  then have "SetBytes ((replicate 255 0 @ [1])[0 := (replicate 255 0 @ [1]) ! 0 OR 0x80]) = 128 * 256 ^ 255 + 1"
    using SetBytes_append [of "[0x80]" "replicate 254 0 @ [1]"] SetBytes_zeros [of 254 "[]"] by (simp add: SetBytes_def [of "[_]"])
  also have "nat \<dots> = 2 ^ Suc 2046 + 1" by simp
  finally have e: "big_Exp 3 (nat (SetBytes ((replicate 255 0 @ [1])[0 := (replicate 255 0 @ [1]) ! 0 OR 0x80])))
      dh_example_prime = big_Exp 3 (2 ^ Suc 2046 + 1) (2 ^ Suc 2046)"
    by (simp only: dh_example_prime_def)
  have "big_Exp 3 (2 ^ Suc n + 1) (2 ^ Suc n) = 3" if "2 \<le> n" for n
  proof -
    have "(3 :: int) ^ (2 ^ Suc n + 1) = 3 * (3 ^ 2) ^ (2 ^ n)" by (simp only: power_mult [symmetric]) simp
    then have "big_Exp 3 (2 ^ Suc n + 1) (2 ^ Suc n) = 3 * 1 mod 2 ^ Suc n"
      using odd_power_mod [of "3 ^ 2" n] by (metis even_power big_Exp_def mod_mult_right_eq odd_numeral)
    moreover have "(2 :: int) ^ 3 \<le> 2 ^ Suc n" using that by (intro power_increasing) simp_all
    ultimately show ?thesis by simp
  qed
  from e this [of 2046] show ?thesis by (rule trans) simp
qed

definition dh_example_auth :: auth where
  "dh_example_auth = \<lparr>au_DC = 2, au_TestMode = False, au_keySet = None\<rparr>"

lemma dh_example_server_ok: "dh_server_ok dh_example_env dh_example_prime dh_example_server (replicate 16 1)"
proof -
  define hs where "hs = \<lparr>hs_serverNonce = replicate 16 3, hs_pq = [15], hs_fingerprints = [5, 847625836280919973],
                hs_g = 3, hs_secret = 1260, hs_time = 77, hs_pad = []\<rparr>"
  define k where "k = length (hs_inner dh_example_base dh_example_prime hs (replicate 16 1))"
  have p: "hs_pad dh_example_server = replicate (15 - (k + 15) mod 16) 0"
    by (simp add: dh_example_server_def Let_def k_def hs_def)
  have "length (hs_inner dh_example_env dh_example_prime dh_example_server (replicate 16 1)) = k + (15 - (k + 15) mod 16)"
    by (simp add: k_def hs_inner_def Let_def hs_gA_def dh_example_server_def dh_example_env_def hs_def
        del: Encode_auth.simps)
  moreover have "(k + (15 - (k + 15) mod 16)) mod 16 = 0" by presburger
  ultimately have "length (hs_inner dh_example_env dh_example_prime dh_example_server (replicate 16 1)) mod 16 = 0"
    by simp
  with p show ?thesis
    unfolding dh_server_ok_def dh_example_gA
    by (intro conjI dh_example_bounds(1,2) dh_example_subgroup) simp_all
qed

lemma dh_example_rsa:
  assumes len: "length d \<le> 144"
  shows "\<exists>c. RSAEncrypt (ae_sha256 dh_example_env) (ae_E dh_example_env) (ae_pad dh_example_env)
     (ae_tempKeys dh_example_env) d 847625836280919973 = Some (Inr c)"
proof -
  obtain key where key: "GetServerKey 847625836280919973 = Some key"
    by (simp add: GetServerKey_def serverPublicKeys_def)
  let ?d = "d @ replicate (192 - length d) 7"
  have "length ?d = 192" using len by simp
  with rsapad_finds_block [of "\<lambda>_. replicate 32 1" "\<lambda>_. rev" "\<lambda>_. rev" ?d 0 "\<lambda>_. Some (replicate 32 1)"
      "\<lambda>_. replicate 32 1" "sk_N key"] rsapad_block_constant [OF key]
  obtain block where "rsapad_loop (\<lambda>_. replicate 32 1) (\<lambda>_. rev) (\<lambda>_. Some (replicate 32 1)) 0 ?d (sk_N key) =
      Some (Inr block)"
    by (auto simp: block_cipher_ok_def)
  then show ?thesis
    using len key by (simp add: dh_example_env_def dh_example_base_def RSAEncrypt_def rsapad_def rsaPadDataLimit_def
        dataWithPaddingLen_def Let_def)
qed

lemma dh_example_facts:
  "ae_nonce dh_example_env = Some (replicate 16 1)" "ae_newNonce dh_example_env = Some (replicate 32 2)"
  "ae_dh dh_example_env 0 = Some (replicate 255 0 @ [1])"
  "BitLen dh_example_prime = 2048" "0 \<le> dh_example_prime" "3 \<le> dh_example_prime - 2"
  "factorPQ (ae_probably_prime dh_example_env) (ae_draws dh_example_env) [15] = Some (Inr (3, 5))"
  "findKeyFingerprint dh_example_auth [5, 847625836280919973] = Some 847625836280919973"
  "ae_send dh_example_env s"
  "honest_server dh_example_env dh_example_prime dh_example_server (replicate 16 1) (replicate 32 2) 3"
proof -
  show "BitLen dh_example_prime = 2048"
  proof -
    have "nat \<bar>2 ^ n\<bar> = 2 ^ n" for n by (simp add: nat_power_eq power_abs)
    then show ?thesis unfolding BitLen_def dh_example_prime_def by (simp only: bit_len_power)
  qed
  show "0 \<le> dh_example_prime" unfolding dh_example_prime_def by (rule zero_le_power) simp
  show "3 \<le> dh_example_prime - 2"
  proof -
    have "(2 :: int) ^ 3 \<le> dh_example_prime" unfolding dh_example_prime_def by (rule power_increasing) simp_all
    then show ?thesis by simp
  qed
  show "factorPQ (ae_probably_prime dh_example_env) (ae_draws dh_example_env) [15] = Some (Inr (3, 5))"
    by (simp add: dh_example_env_def dh_example_base_def factorPQ_def Decompose_def smallPrimes_def SetBytes_def)
  show "findKeyFingerprint dh_example_auth [5, 847625836280919973] = Some 847625836280919973"
    by (simp add: findKeyFingerprint_def dh_example_auth_def GetServerKey_def serverPublicKeys_def)
  show "honest_server dh_example_env dh_example_prime dh_example_server (replicate 16 1) (replicate 32 2) 3"
    unfolding honest_server_def
    by (intro exI [of _ "(0, 0)"] allI)
      (simp add: dh_example_env_def hs_answer_def hs_inner_def Let_def del: Encode_auth.simps)
qed (simp_all add: dh_example_env_def dh_example_base_def)

lemma dh_example_exchange:
  "\<exists>sent. createKey_with dh_example_prime dh_example_env dh_example_auth 0 [] =
    Some (Inr \<lparr>ar_AuthKey = hs_key dh_example_prime dh_example_server 3,
               ar_ServerSalt = computeServerSalt (replicate 32 2) (hs_serverNonce dh_example_server),
               ar_ServerTime = hs_time dh_example_server\<rparr>, sent)"
  by (rule createKey_honest [OF _ _ dh_example_rsa dh_example_facts(1) _ dh_example_facts(2) _ dh_example_facts(3) refl _ _
        dh_example_facts(6) dh_example_facts(4,5) dh_example_server_ok _ _ dh_example_facts(9,10)])
    (simp_all add: block_cipher_ok_def dh_example_gB dh_example_facts)

section \<open>Properties\<close>

text \<open>Property C14 (safety): the key exchange never returns an unverified key. Whatever the peer sends and whatever
  the randomness is, when createKey returns a key, the peer answered the client's own nonce, offered a
  fingerprint that is trusted and bundled, the prime was the accepted one, the generator and the
  server's half lay in the required ranges and in the subgroup, the client's half for some exponent was the
  last packet sent, and the peer confirmed the key with the right hash of the secret nonce and the key. The key
  has 256 bytes, and it is the one a peer computes that knows the exponent of its half.\<close>

theorem created_key_is_confirmed:
  assumes "createKey_with known e a tempExpiresIn [] = Some (Inr r, sent)"
  shows "\<exists>pq fps fp x b.
    ae_nonce e = Some (dx_nonce x) \<and> ae_newNonce e = Some (dx_newNonce x) \<and>
    received e [packet e [] (ReqPQMultiRequest (dx_nonce x))] (ResPQ (dx_nonce x) (dx_serverNonce x) pq fps) \<and>
    findKeyFingerprint a fps = Some fp \<and> GetServerKey fp \<noteq> None \<and>
    dx_prime x = known \<and> 2 \<le> dx_g x \<and> dx_g x \<le> 7 \<and>
    2 ^ 1984 \<le> dx_gA x \<and> dx_gA x \<le> known - 2 ^ 1984 \<and> big_Exp (dx_gA x) (nat (known div 2)) known = 1 \<and>
    dh_confirmed e x b r sent \<and> length (ar_AuthKey r) = 256 \<and>
    (\<forall>secret. dx_gA x = big_Exp (dx_g x) secret known \<longrightarrow>
       ar_AuthKey r = normalizeAuthKey (Big_Bytes (big_Exp (big_Exp (dx_g x) b known) secret known)))"
proof -
  from createKey_sound [OF assms] obtain nonce newNonce serverNonce pq fps fp answer s' where
    c: "ae_nonce e = Some nonce" "ae_newNonce e = Some newNonce"
      "received e [packet e [] (ReqPQMultiRequest nonce)] (ResPQ nonce serverNonce pq fps)"
      "findKeyFingerprint a fps = Some fp" "GetServerKey fp \<noteq> None"
    and s: "server_dh_ok e known nonce serverNonce newNonce answer s' = Some (Inr r, sent)" .
  from server_dh_ok_sound [OF s] obtain x b where
    x: "dx_nonce x = nonce" "dx_serverNonce x = serverNonce" "dx_newNonce x = newNonce" "dx_prime x = known"
      "2 \<le> dx_g x" "dx_g x \<le> 7" "2 ^ 1984 \<le> dx_gA x" "dx_gA x \<le> known - 2 ^ 1984"
      "big_Exp (dx_gA x) (nat (known div 2)) known = 1" and d: "dh_confirmed e x b r sent" by blast
  from d have k: "ar_AuthKey r = normalizeAuthKey (Big_Bytes (big_Exp (dx_gA x) b known))"
    unfolding dh_confirmed_def x(4) by blast
  then have l: "length (ar_AuthKey r) = 256" by simp
  have sh: "\<forall>secret. dx_gA x = big_Exp (dx_g x) secret known \<longrightarrow>
       ar_AuthKey r = normalizeAuthKey (Big_Bytes (big_Exp (big_Exp (dx_g x) b known) secret known))"
    by (metis dh_shared k)
  show ?thesis
    by (intro exI [of _ pq] exI [of _ fps] exI [of _ fp] exI [of _ x] exI [of _ b] conjI x(4-9) d l sh c(4,5))
      (simp_all only: x(1-3) c(1-3))
qed

theorem created_key_is_confirmed_witness:
  "\<exists>r sent pq fps fp x b.
    createKey_with dh_example_prime dh_example_env dh_example_auth 0 [] = Some (Inr r, sent) \<and>
    ae_nonce dh_example_env = Some (dx_nonce x) \<and> ae_newNonce dh_example_env = Some (dx_newNonce x) \<and>
    received dh_example_env [packet dh_example_env [] (ReqPQMultiRequest (dx_nonce x))]
      (ResPQ (dx_nonce x) (dx_serverNonce x) pq fps) \<and>
    findKeyFingerprint dh_example_auth fps = Some fp \<and> dx_prime x = dh_example_prime \<and>
    dh_confirmed dh_example_env x b r sent \<and> length (ar_AuthKey r) = 256"
proof -
  from dh_example_exchange obtain r sent where
    r: "createKey_with dh_example_prime dh_example_env dh_example_auth 0 [] = Some (Inr r, sent)" by blast
  from created_key_is_confirmed [OF this] r show ?thesis by blast
qed



text \<open>A defect: a peer can crash the client before any key exists. The length check of
  unpackUnencrypted adds 20 to the length in 32 bits; for a length within 20 of the largest 32-bit value
  the sum wraps, passes the check, and the slice expression that follows has its end before its start.\<close>

theorem unpack_unencrypted_panics:
  assumes "20 \<le> length data" and "le_word (take 8 data) = (0 :: i64)"
    and "2 ^ 32 - 20 \<le> unat (le_word (go_slice data 16 20) :: u32)"
  shows "unpackUnencrypted data = Inl AuthPanic"
proof -
  define n where "n = (le_word (go_slice data 16 20) :: u32)"
  have "unat n < 2 ^ 32" using unsigned_less [where ?'a = nat, of n] by simp
  moreover have "unat (20 + n) = (20 + unat n) mod 2 ^ 32" by (simp add: unat_word_ariths)
  ultimately have "unat (20 + n) < 20" using assms(3) unfolding n_def [symmetric] by (auto simp: mod_if)
  then show ?thesis using assms(1,2) by (simp add: unpackUnencrypted_def Let_def n_def [symmetric])
qed

theorem unpack_unencrypted_panics_witness:
  "unpackUnencrypted (replicate 16 0 @ replicate 4 255) = Inl AuthPanic"
proof (rule unpack_unencrypted_panics)
  show "le_word (take 8 (replicate 16 0 @ replicate 4 255)) = (0 :: i64)"
    by (simp add: numeral_eq_Suc)
  have "go_slice (replicate 16 0 @ replicate 4 255) 16 20 = [255, 255, 255, 255 :: u8]"
    by (simp add: go_slice_def numeral_eq_Suc)
  then show "2 ^ 32 - 20 \<le> unat (le_word (go_slice (replicate 16 0 @ replicate 4 255) 16 20) :: u32)"
    by simp
qed simp

end
