(* ===== verification/RPC_Errors.thy ===== *)
theory RPC_Errors
  imports Session_State
begin

text \<open>
  Server errors, \<^verbatim>\<open>src/tgerr/error.go\<close> and \<^verbatim>\<open>flood_wait.go\<close>: the split of a message into its type and its
  numeric argument, and the waiting time of a flood error. A string is the list of its code points;
  \<open>uni\<close> is unicode.IsDigit beyond ASCII, whose tables are data of the Go library.
\<close>

section \<open>Strings\<close>

definition codes :: "string \<Rightarrow> int list" where
  "codes s = map (\<lambda>c. int (of_char c)) s"

text \<open>\<^verbatim>\<open>strings.Split(s, "_")\<close> and \<^verbatim>\<open>strings.Join(parts, "_")\<close>; 95 is the underscore.\<close>

fun split_us :: "int list \<Rightarrow> int list list" where
  "split_us [] = [[]]"
| "split_us (c # cs) =
     (if c = 95 then [] # split_us cs
      else case split_us cs of [] \<Rightarrow> [[c]] | p # ps \<Rightarrow> (c # p) # ps)"

fun join_us :: "int list list \<Rightarrow> int list" where
  "join_us [] = []"
| "join_us [p] = p"
| "join_us (p # q # ps) = p @ 95 # join_us (q # ps)"

definition is_digit :: "(int \<Rightarrow> bool) \<Rightarrow> int \<Rightarrow> bool" where
  "is_digit uni r \<longleftrightarrow> (if r < 128 then 48 \<le> r \<and> r \<le> 57 else uni r)"

text \<open>strconv.Atoi on a string of digits: it fails on the empty string, on digits beyond ASCII and out of
  the range of an int.\<close>

definition Atoi :: "int list \<Rightarrow> int option" where
  "Atoi s =
     (if s = [] \<or> (\<exists>c \<in> set s. c < 48 \<or> 57 < c) then None
      else let n = foldl (\<lambda>a c. a * 10 + (c - 48)) 0 s in if n < 2 ^ 63 then Some n else None)"

section \<open>Errors\<close>

record tg_error = rpc_error +
  te_Type :: "int list"
  te_Argument :: int

text \<open>The loop of extractArgument: the argument so far, and the type's parts unless it returns early.\<close>

fun extract_parts :: "(int \<Rightarrow> bool) \<Rightarrow> int list list \<Rightarrow> int list list \<Rightarrow> int \<Rightarrow> int \<times> int list list option" where
  "extract_parts uni [] typeParts arg = (arg, Some typeParts)"
| "extract_parts uni (part # parts) typeParts arg =
     (if list_all (is_digit uni) part
      then case Atoi part of None \<Rightarrow> (arg, None) | Some n \<Rightarrow> extract_parts uni parts typeParts n
      else extract_parts uni parts (typeParts @ [part]) arg)"

definition tgerr_New :: "(int \<Rightarrow> bool) \<Rightarrow> int \<Rightarrow> int list \<Rightarrow> tg_error" where
  "tgerr_New uni code msg =
     (if msg = [] then \<lparr>re_Code = code, re_Message = msg, te_Type = [], te_Argument = 0\<rparr>
      else if length (split_us msg) < 2
      then \<lparr>re_Code = code, re_Message = msg, te_Type = msg, te_Argument = 0\<rparr>
      else case extract_parts uni (split_us msg) [] 0 of
        (arg, None) \<Rightarrow> \<lparr>re_Code = code, re_Message = msg, te_Type = msg, te_Argument = arg\<rparr>
      | (arg, Some ps) \<Rightarrow> \<lparr>re_Code = code, re_Message = msg, te_Type = join_us ps, te_Argument = arg\<rparr>)"

definition IsType :: "tg_error \<Rightarrow> int list \<Rightarrow> bool" where
  "IsType e t \<longleftrightarrow> te_Type e = t"

definition IsOneOf :: "tg_error \<Rightarrow> int list list \<Rightarrow> bool" where
  "IsOneOf e tt \<longleftrightarrow> list_ex (IsType e) tt"

definition IsCodeOneOf :: "tg_error \<Rightarrow> int list \<Rightarrow> bool" where
  "IsCodeOneOf e cs \<longleftrightarrow> list_ex (\<lambda>c. re_Code e = c) cs"

definition FloodWaitErrors :: "int list list" where
  "FloodWaitErrors = [codes ''FLOOD_WAIT'', codes ''FLOOD_PREMIUM_WAIT'']"

text \<open>A waiting time is a 64-bit number of nanoseconds; \<^verbatim>\<open>time.Second * Duration(n)\<close> wraps.\<close>

definition AsFloodWait :: "tg_error \<Rightarrow> i64 option" where
  "AsFloodWait e = (if IsOneOf e FloodWaitErrors then Some (1000000000 * word_of_int (te_Argument e)) else None)"

section \<open>Splitting and joining\<close>

lemma split_us_nonempty [simp]: "split_us s \<noteq> []"
  by (cases s) (simp_all split: list.split)

lemma join_Cons: "ps \<noteq> [] \<Longrightarrow> join_us (p # ps) = p @ 95 # join_us ps"
  by (cases ps) simp_all

lemma join_split: "join_us (split_us s) = s"
proof (induction s)
  case (Cons c s)
  then show ?case by (cases "split_us s" rule: join_us.cases) (auto simp: join_Cons)
qed simp

lemma split_append: "95 \<notin> set p \<Longrightarrow> split_us (p @ 95 # s) = p # split_us s"
  by (induction p) auto

lemma split_plain: "95 \<notin> set p \<Longrightarrow> split_us p = [p]"
  by (induction p) auto

lemma split_join: "ps \<noteq> [] \<Longrightarrow> \<forall>p \<in> set ps. 95 \<notin> set p \<Longrightarrow> split_us (join_us ps) = ps"
  by (induction ps rule: join_us.induct) (simp_all add: split_plain split_append)

text \<open>The parts that are not numbers make the type, the last number is the argument.\<close>

definition is_word :: "(int \<Rightarrow> bool) \<Rightarrow> int list \<Rightarrow> bool" where
  "is_word uni p \<longleftrightarrow> 95 \<notin> set p \<and> \<not> list_all (is_digit uni) p"

lemma extract_words: "list_all (is_word uni) ws \<Longrightarrow>
    extract_parts uni (ws @ ps) acc arg = extract_parts uni ps (acc @ ws) arg"
  by (induction ws arbitrary: acc) (simp_all add: is_word_def)

text \<open>Decimal digits of a number.\<close>

fun digits :: "nat \<Rightarrow> int list" where
  "digits n = (if n < 10 then [48 + int n] else digits (n div 10) @ [48 + int (n mod 10)])"

declare digits.simps [simp del]

lemma digits_range: "c \<in> set (digits n) \<Longrightarrow> 48 \<le> c \<and> c \<le> 57"
proof (induction n rule: digits.induct)
  case (1 n)
  then show ?case by (cases "n < 10") (auto simp: digits.simps [of n])
qed

lemma digits_nonempty [simp]: "digits n \<noteq> []"
  by (simp add: digits.simps [of n])

lemma digits_value: "foldl (\<lambda>a c. a * 10 + (c - 48)) 0 (digits n) = int n"
proof (induction n rule: digits.induct)
  case (1 n)
  show ?case
  proof (cases "n < 10")
    case False
    with 1 have "foldl (\<lambda>a c. a * 10 + (c - 48)) 0 (digits (n div 10)) = int (n div 10)" by simp
    with False show ?thesis by (simp add: digits.simps [of n] zdiv_int zmod_int)
  qed (simp add: digits.simps [of n])
qed

lemma Atoi_digits: "int n < 2 ^ 63 \<Longrightarrow> Atoi (digits n) = Some (int n)"
  using digits_range by (fastforce simp: Atoi_def digits_value Let_def)

lemma digits_all: "list_all (is_digit uni) (digits n)" "95 \<notin> set (digits n)"
  using digits_range [of _ n] by (force simp: list_all_iff is_digit_def)+

lemma extract_numbered:
  assumes "list_all (is_word uni) ws" and "list_all (is_word uni) ws'" and "int n < 2 ^ 63"
  shows "extract_parts uni (ws @ digits n # ws') acc arg = (int n, Some (acc @ ws @ ws'))"
  using assms(3) extract_words [OF assms(1), of "digits n # ws'" acc arg] extract_words [OF assms(2), of "[]" "acc @ ws" "int n"]
  by (simp add: digits_all Atoi_digits)

lemma tgerr_New_numbered:
  assumes ws: "list_all (is_word uni) ws" "list_all (is_word uni) ws'" "ws @ ws' \<noteq> []" and n: "int n < 2 ^ 63"
  shows "tgerr_New uni code (join_us (ws @ digits n # ws')) =
    \<lparr>re_Code = code, re_Message = join_us (ws @ digits n # ws'), te_Type = join_us (ws @ ws'), te_Argument = int n\<rparr>"
proof -
  let ?m = "join_us (ws @ digits n # ws')"
  have sp: "split_us ?m = ws @ digits n # ws'"
    using ws(1,2) digits_all(2) by (intro split_join) (auto simp: is_word_def list_all_iff)
  moreover have len: "\<not> length (ws @ digits n # ws') < 2" using ws(3) by (cases ws; cases ws') auto
  moreover have "?m \<noteq> []"
  proof
    assume "?m = []"
    with sp have "length (ws @ digits n # ws') = 1" by (metis length_Cons list.size(3) One_nat_def split_us.simps(1))
    with len show False by simp
  qed
  ultimately show ?thesis
    using extract_numbered [OF ws(1,2) n, of "[]" 0] by (simp add: tgerr_New_def del: split_us.simps)
qed

lemma tgerr_New_plain:
  assumes ws: "list_all (is_word uni) ws" and "join_us ws \<noteq> []"
  shows "te_Type (tgerr_New uni code (join_us ws)) = join_us ws" "te_Argument (tgerr_New uni code (join_us ws)) = 0"
proof -
  have "ws \<noteq> []" using assms(2) by auto
  then have sp: "split_us (join_us ws) = ws"
    using ws by (intro split_join) (auto simp: is_word_def list_all_iff)
  show "te_Type (tgerr_New uni code (join_us ws)) = join_us ws" "te_Argument (tgerr_New uni code (join_us ws)) = 0"
    using assms(2) extract_words [OF ws, of "[]" "[]" 0] by (simp_all add: tgerr_New_def sp)
qed

section \<open>Properties\<close>

text \<open>The type and the argument of a server error. A message that joins words with one number,
  at any place, by underscores is split into the type without the number and the number; a message without
  a number is its own type; and for every message, whatever it holds, the parts the type is
  made of join to the message again.\<close>

theorem error_type_and_argument:
  "(\<forall>ws ws' n. list_all (is_word uni) (ws @ ws') \<and> ws @ ws' \<noteq> [] \<and> int n < 2 ^ 63 \<longrightarrow>
      te_Type (tgerr_New uni code (join_us (ws @ digits n # ws'))) = join_us (ws @ ws') \<and>
      te_Argument (tgerr_New uni code (join_us (ws @ digits n # ws'))) = int n) \<and>
   (\<forall>ws. list_all (is_word uni) ws \<and> join_us ws \<noteq> [] \<longrightarrow>
      te_Type (tgerr_New uni code (join_us ws)) = join_us ws \<and> te_Argument (tgerr_New uni code (join_us ws)) = 0) \<and>
   (\<forall>msg. re_Code (tgerr_New uni code msg) = code \<and> re_Message (tgerr_New uni code msg) = msg \<and>
      join_us (split_us msg) = msg)"
proof (intro conjI allI impI; (elim conjE)?)
  fix ws ws' n
  assume a: "list_all (is_word uni) (ws @ ws')" "ws @ ws' \<noteq> []" "int n < 2 ^ 63"
  then show "te_Type (tgerr_New uni code (join_us (ws @ digits n # ws'))) = join_us (ws @ ws')"
    "te_Argument (tgerr_New uni code (join_us (ws @ digits n # ws'))) = int n"
    using tgerr_New_numbered [of uni ws ws' n code] by simp_all
next
  fix ws
  assume "list_all (is_word uni) ws" "join_us ws \<noteq> []"
  from tgerr_New_plain [OF this] show "te_Type (tgerr_New uni code (join_us ws)) = join_us ws"
    "te_Argument (tgerr_New uni code (join_us ws)) = 0" by simp_all
next
  fix msg
  show "re_Code (tgerr_New uni code msg) = code" "re_Message (tgerr_New uni code msg) = msg"
    by (simp_all add: tgerr_New_def split: prod.split option.split)
qed (rule join_split)

theorem error_type_and_argument_witness:
  "te_Type (tgerr_New (\<lambda>_. False) 420 (join_us ([codes ''FLOOD'', codes ''WAIT''] @ digits 60 # []))) =
     join_us ([codes ''FLOOD'', codes ''WAIT''] @ []) \<and>
   te_Argument (tgerr_New (\<lambda>_. False) 420 (join_us ([codes ''FLOOD'', codes ''WAIT''] @ digits 60 # []))) = int 60"
proof -
  have "list_all (is_word (\<lambda>_. False)) ([codes ''FLOOD'', codes ''WAIT''] @ [])"
    by (simp add: is_word_def codes_def is_digit_def)
  then show ?thesis
    by (intro conjunct1 [OF error_type_and_argument [of "\<lambda>_. False" 420], rule_format]) simp
qed

end
