(* ===== verification/Flood_Control.thy ===== *)
theory Flood_Control
  imports RPC_Errors
begin

text \<open>
  The client's rate limits: the sliding-window limiter and the gate for connection attempts of
  \<^verbatim>\<open>src/telegram/flood_control.go\<close>, and the flood-wait policy of \<^verbatim>\<open>src/telegram/retry.go\<close>. Times are
  integers (milliseconds for the limiter, nanoseconds for the policy); each method is one step under its lock.
\<close>

section \<open>The limiter\<close>

record flood_limit =
  fl_Count :: int
  fl_WindowMs :: int

record flood_control =
  fc_rules :: "flood_limit list"
  fc_events :: "int list"
  fc_maxWin :: int

definition NewFloodControl :: "flood_limit list \<Rightarrow> flood_control" where
  "NewFloodControl rules =
     \<lparr>fc_rules = rules, fc_events = [],
      fc_maxWin = foldl (\<lambda>m r. if fl_WindowMs r > m then fl_WindowMs r else m) 0 rules\<rparr>"

text \<open>The inner loop of wakeupAt: how many of the latest events lie in the window.\<close>

definition in_window :: "int \<Rightarrow> int list \<Rightarrow> flood_limit \<Rightarrow> nat" where
  "in_window now events r = length (takeWhile (\<lambda>e. \<not> e \<le> now - fl_WindowMs r) (rev events))"

text \<open>The loop over the rules; None is the panic of indexing with -1, when a count is not positive and the
  window is empty.\<close>

primrec wakeup_loop :: "int \<Rightarrow> int list \<Rightarrow> flood_limit list \<Rightarrow> int \<Rightarrow> int option" where
  "wakeup_loop now events [] wakeup = Some wakeup"
| "wakeup_loop now events (r # rs) wakeup =
     (let n = in_window now events r
      in if int n \<ge> fl_Count r
         then if n = 0 then None
              else let t = events ! (length events - n) + fl_WindowMs r
                   in wakeup_loop now events rs (if t > wakeup then t else wakeup)
         else wakeup_loop now events rs wakeup)"

definition wakeupAt :: "int \<Rightarrow> flood_control \<Rightarrow> int option" where
  "wakeupAt now f = wakeup_loop now (fc_events f) (fc_rules f) 0"

definition addEvent :: "int \<Rightarrow> flood_control \<Rightarrow> flood_control" where
  "addEvent now f = f\<lparr>fc_events := dropWhile (\<lambda>e. e < now - fc_maxWin f) (fc_events f @ [now])\<rparr>"

text \<open>wait, with the clock readings of its turns: it records an event at the first reading that is permitted, and
  returns at the end of the list when the caller gives up. The result of a turn is the time to sleep.\<close>

datatype wait_result = WaitGranted | WaitCancelled | WaitPanic

fun FloodControl_wait :: "int list \<Rightarrow> flood_control \<Rightarrow> wait_result \<times> flood_control" where
  "FloodControl_wait [] f = (WaitCancelled, f)"
| "FloodControl_wait (now # clock) f =
     (case wakeupAt now f of
        None \<Rightarrow> (WaitPanic, f)
      | Some wakeup \<Rightarrow> if wakeup \<le> now then (WaitGranted, addEvent now f) else FloodControl_wait clock f)"

definition FloodControl_reset :: "flood_control \<Rightarrow> flood_control" where
  "FloodControl_reset f = f\<lparr>fc_events := []\<rparr>"

section \<open>The gate for connection attempts\<close>

definition defaultFloodLimits :: "flood_limit list" where
  "defaultFloodLimits =
     [\<lparr>fl_Count = 1, fl_WindowMs = 1000\<rparr>, \<lparr>fl_Count = 4, fl_WindowMs = 2000\<rparr>, \<lparr>fl_Count = 8, fl_WindowMs = 3000\<rparr>]"

definition defaultSanityLimits :: "flood_limit list" where
  "defaultSanityLimits = [\<lparr>fl_Count = 5, fl_WindowMs = 10000\<rparr>]"

record flood_gate =
  fg_sanity :: flood_control
  fg_flood :: flood_control
  fg_mtprotoError :: flood_control

definition newConnectionFloodGate :: flood_gate where
  "newConnectionFloodGate =
     \<lparr>fg_sanity = NewFloodControl defaultSanityLimits, fg_flood = NewFloodControl defaultFloodLimits,
      fg_mtprotoError = NewFloodControl defaultFloodLimits\<rparr>"

definition gate_wakeup :: "int \<Rightarrow> flood_gate \<Rightarrow> int option" where
  "gate_wakeup now g =
     (case (wakeupAt now (fg_sanity g), wakeupAt now (fg_flood g), wakeupAt now (fg_mtprotoError g)) of
        (Some w1, Some w2, Some w3) \<Rightarrow>
          let w = (if w2 > w1 then w2 else w1) in Some (if w3 > w then w3 else w)
      | _ \<Rightarrow> None)"

text \<open>One turn of the gate's wait: granted, or the time to wake up.\<close>

definition gate_try :: "int \<Rightarrow> flood_gate \<Rightarrow> wait_result option \<times> flood_gate" where
  "gate_try now g =
     (case gate_wakeup now g of
        None \<Rightarrow> (Some WaitPanic, g)
      | Some wakeup \<Rightarrow>
          if wakeup \<le> now
          then (Some WaitGranted,
                g\<lparr>fg_sanity := addEvent now (fg_sanity g), fg_flood := addEvent now (fg_flood g)\<rparr>)
          else (None, g))"

definition recordMtprotoError :: "int \<Rightarrow> flood_gate \<Rightarrow> flood_gate" where
  "recordMtprotoError now g = g\<lparr>fg_mtprotoError := addEvent now (fg_mtprotoError g)\<rparr>"

definition notifyNetworkUp :: "flood_gate \<Rightarrow> flood_gate" where
  "notifyNetworkUp g = g\<lparr>fg_sanity := FloodControl_reset (fg_sanity g)\<rparr>"

text \<open>What happens at the gate over time, with the times of the attempts it granted.\<close>

datatype gate_op = GateTry | GateError | GateNetworkUp

fun gate_exec :: "gate_op \<Rightarrow> int \<Rightarrow> flood_gate \<times> int list \<Rightarrow> flood_gate \<times> int list" where
  "gate_exec GateTry now (g, granted) =
     (case gate_try now g of (r, g') \<Rightarrow> (g', if r = Some WaitGranted then granted @ [now] else granted))"
| "gate_exec GateError now (g, granted) = (recordMtprotoError now g, granted)"
| "gate_exec GateNetworkUp now (g, granted) = (notifyNetworkUp g, granted)"

definition gate_run :: "(gate_op \<times> int) list \<Rightarrow> flood_gate \<times> int list" where
  "gate_run ops = fold (\<lambda>(op, now). gate_exec op now) ops (newConnectionFloodGate, [])"

section \<open>A contract for limiters\<close>

text \<open>The times at which a limiter granted an event respect a rule when events a count apart are a window
  apart.\<close>

definition spaced :: "flood_limit \<Rightarrow> int list \<Rightarrow> bool" where
  "spaced r hs \<longleftrightarrow> (\<forall>i. i + nat (fl_Count r) < length hs \<longrightarrow> hs ! i + fl_WindowMs r \<le> hs ! (i + nat (fl_Count r)))"

lemma spaced_Nil [simp]: "spaced r []"
  by (simp add: spaced_def)

lemma spaced_window:
  assumes "sorted hs" and "spaced r hs"
  shows "length (filter (\<lambda>h. t - fl_WindowMs r < h \<and> h \<le> t) hs) \<le> nat (fl_Count r)"
proof -
  let ?P = "\<lambda>h. t - fl_WindowMs r < h \<and> h \<le> t" and ?c = "nat (fl_Count r)"
  define S where "S = {i. i < length hs \<and> ?P (hs ! i)}"
  have fin: "finite S" by (simp add: S_def)
  have "card S \<le> ?c"
  proof (cases "S = {}")
    case False
    define m where "m = Min S"
    have m: "m \<in> S" and le: "i \<in> S \<Longrightarrow> m \<le> i" for i using False fin by (simp_all add: m_def)
    have "i < m + ?c" if i: "i \<in> S" for i
    proof (rule ccontr)
      assume "\<not> i < m + ?c"
      then have "m + ?c < length hs" "hs ! (m + ?c) \<le> hs ! i"
        using i assms(1) by (auto simp: S_def intro: sorted_nth_mono)
      moreover from this(1) have "hs ! m + fl_WindowMs r \<le> hs ! (m + ?c)" using assms(2) by (simp add: spaced_def)
      ultimately show False using m i by (simp add: S_def)
    qed
    then have "S \<subseteq> {m..<m + ?c}" using le by auto
    then have "card S \<le> card {m..<m + ?c}" by (intro card_mono) simp_all
    then show ?thesis by simp
  qed simp
  then show ?thesis by (simp add: S_def length_filter_conv_card)
qed

locale rate_limiter =
  fixes rules :: "flood_limit list"
    and permits :: "int \<Rightarrow> 'l \<Rightarrow> bool"
    and record_event :: "int \<Rightarrow> 'l \<Rightarrow> 'l"
    and tracks :: "int list \<Rightarrow> 'l \<Rightarrow> bool"
  assumes sorted_history: "tracks hs l \<Longrightarrow> sorted hs"
    and respected: "tracks hs l \<Longrightarrow> r \<in> set rules \<Longrightarrow> 0 < fl_Count r \<Longrightarrow> spaced r hs"
    and records: "tracks hs l \<Longrightarrow> (\<And>h. h \<in> set hs \<Longrightarrow> h \<le> now) \<Longrightarrow> permits now l \<Longrightarrow>
      tracks (hs @ [now]) (record_event now l)"
begin

lemma window_bound:
  "tracks hs l \<Longrightarrow> r \<in> set rules \<Longrightarrow> 0 < fl_Count r \<Longrightarrow>
   length (filter (\<lambda>h. t - fl_WindowMs r < h \<and> h \<le> t) hs) \<le> nat (fl_Count r)"
  by (rule spaced_window) (auto intro: sorted_history respected)

end

section \<open>The limiter keeps its contract\<close>

definition fc_permits :: "int \<Rightarrow> flood_control \<Rightarrow> bool" where
  "fc_permits now f \<longleftrightarrow> (\<exists>w \<le> now. wakeupAt now f = Some w)"

text \<open>The events are the latest part of the history, and what was dropped is older than every window.\<close>

definition fc_tracks :: "flood_limit list \<Rightarrow> int list \<Rightarrow> flood_control \<Rightarrow> bool" where
  "fc_tracks rules hs f \<longleftrightarrow>
     fc_rules f = rules \<and> (\<forall>r \<in> set rules. fl_WindowMs r \<le> fc_maxWin f) \<and>
     sorted hs \<and> (\<forall>r \<in> set rules. 0 < fl_Count r \<longrightarrow> spaced r hs) \<and>
     (\<exists>old. hs = old @ fc_events f \<and> (\<forall>e \<in> set old. e < last hs - fc_maxWin f))"

lemma widest_window:
  fixes m :: int
  defines "f \<equiv> \<lambda>m r. if fl_WindowMs r > m then fl_WindowMs r else m"
  shows "m \<le> foldl f m rs \<and> (\<forall>r \<in> set rs. fl_WindowMs r \<le> foldl f m rs)"
proof (induction rs arbitrary: m)
  case (Cons a rs)
  have "m \<le> f m a" "fl_WindowMs a \<le> f m a" by (simp_all add: f_def)
  with Cons [of "f m a"] show ?case by auto
qed simp

lemma maxWin_bound: "r \<in> set rules \<Longrightarrow> fl_WindowMs r \<le> fc_maxWin (NewFloodControl rules)"
  using widest_window [of 0 rules] by (simp add: NewFloodControl_def)

lemma fc_tracks_new [inv_intros]: "fc_tracks rules [] (NewFloodControl rules)"
  using maxWin_bound by (auto simp: fc_tracks_def) (auto simp: NewFloodControl_def)

text \<open>A reading is permitted when no rule's window is full.\<close>

lemma wakeup_loop_mono: "wakeup_loop now events rs w = Some w' \<Longrightarrow> w \<le> w'"
proof (induction rs arbitrary: w)
  case (Cons a rs)
  then show ?case by (auto simp: Let_def split: if_splits dest!: Cons.IH)
qed simp

lemma window_recent:
  assumes "n = in_window now events r" and "n \<noteq> 0"
  shows "now < events ! (length events - n) + fl_WindowMs r"
proof -
  let ?P = "\<lambda>e. \<not> e \<le> now - fl_WindowMs r"
  have le: "n \<le> length events" using assms(1) length_takeWhile_le [of ?P "rev events"] by (simp add: in_window_def)
  have "rev events ! (n - 1) = takeWhile ?P (rev events) ! (n - 1)"
    using assms by (intro takeWhile_nth [symmetric]) (simp add: in_window_def)
  then have "?P (rev events ! (n - 1))"
    using assms by (metis in_window_def diff_less length_greater_0_conv list.size(3) nth_mem set_takeWhileD zero_less_one)
  moreover have "rev events ! (n - 1) = events ! (length events - n)"
    using le assms(2) by (simp add: rev_nth)
  ultimately show ?thesis by simp
qed

lemma wakeup_permits:
  assumes "wakeup_loop now events rs w = Some w'" and "w' \<le> now" and "r \<in> set rs"
  shows "int (in_window now events r) < fl_Count r"
  using assms
proof (induction rs arbitrary: w)
  case (Cons a rs)
  let ?n = "in_window now events a"
  show ?case
  proof (cases "int ?n \<ge> fl_Count a")
    case True
    with Cons.prems(1) have n: "?n \<noteq> 0" by (auto simp: Let_def split: if_splits)
    with True Cons.prems(1) have "events ! (length events - ?n) + fl_WindowMs a \<le> w'"
      by (auto simp: Let_def split: if_splits dest!: wakeup_loop_mono)
    with window_recent [OF refl n] Cons.prems(2) show ?thesis by simp
  next
    case False
    with Cons show ?thesis by (auto simp: Let_def)
  qed
qed simp

text \<open>So the event a count before the new one has left the window.\<close>

lemma takeWhile_rev_last:
  assumes "j < length xs" and "length (takeWhile P (rev xs)) < length xs - j" and "sorted xs"
    and "\<And>x y. x \<le> y \<Longrightarrow> P x \<Longrightarrow> P y"
  shows "\<not> P (xs ! j)"
proof -
  let ?n = "length (takeWhile P (rev xs))"
  have "?n < length (rev xs)" using assms(2) by simp
  then have "\<not> P (rev xs ! ?n)" by (rule nth_length_takeWhile)
  moreover have "rev xs ! ?n = xs ! (length xs - Suc ?n)" using \<open>?n < length (rev xs)\<close> by (simp add: rev_nth)
  moreover have "xs ! j \<le> xs ! (length xs - Suc ?n)"
    using assms(1,2,3) by (intro sorted_nth_mono) simp_all
  ultimately show ?thesis using assms(4) by metis
qed

lemma spaced_append:
  assumes "spaced r hs" and "0 < fl_Count r"
    and "nat (fl_Count r) \<le> length hs \<Longrightarrow> hs ! (length hs - nat (fl_Count r)) + fl_WindowMs r \<le> now"
  shows "spaced r (hs @ [now])"
  unfolding spaced_def
proof (intro allI impI)
  fix i assume i: "i + nat (fl_Count r) < length (hs @ [now])"
  show "(hs @ [now]) ! i + fl_WindowMs r \<le> (hs @ [now]) ! (i + nat (fl_Count r))"
  proof (cases "i + nat (fl_Count r) < length hs")
    case True
    then show ?thesis using assms(1) by (simp add: spaced_def nth_append)
  next
    case False
    with i have e: "i = length hs - nat (fl_Count r)" "nat (fl_Count r) \<le> length hs" by simp_all
    with assms(2) have "i < length hs" by simp
    with e assms(3) show ?thesis by (simp add: nth_append)
  qed
qed

lemma fc_tracks_add [inv_intros]:
  assumes t: "fc_tracks rules hs f" and le: "\<And>h. h \<in> set hs \<Longrightarrow> h \<le> now" and p: "fc_permits now f"
  shows "fc_tracks rules (hs @ [now]) (addEvent now f)"
proof -
  from t obtain old where hs: "hs = old @ fc_events f" and old: "\<forall>e \<in> set old. e < last hs - fc_maxWin f"
    and R: "fc_rules f = rules" "\<forall>r \<in> set rules. fl_WindowMs r \<le> fc_maxWin f" "sorted hs"
      "\<forall>r \<in> set rules. 0 < fl_Count r \<longrightarrow> spaced r hs" by (auto simp: fc_tracks_def)
  have old': "e < now - fc_maxWin f" if "e \<in> set old" for e
  proof -
    have "hs \<noteq> []" using that hs by auto
    then have "last hs \<le> now" by (intro le) simp
    then show ?thesis using old that by fastforce
  qed
  have sp: "spaced r (hs @ [now])" if r: "r \<in> set rules" and c: "0 < fl_Count r" for r
  proof (rule spaced_append [OF _ c])
    show "spaced r hs" using R(4) r c by blast
    assume len: "nat (fl_Count r) \<le> length hs"
    let ?j = "length hs - nat (fl_Count r)" and ?P = "\<lambda>e. \<not> e \<le> now - fl_WindowMs r"
    have n: "in_window now (fc_events f) r < nat (fl_Count r)"
      using p r R(1) wakeup_permits by (fastforce simp: fc_permits_def wakeupAt_def)
    show "hs ! ?j + fl_WindowMs r \<le> now"
    proof (cases "?j < length old")
      case True
      then have "hs ! ?j < now - fc_maxWin f" using old' hs by (simp add: nth_append)
      then show ?thesis using R(2) r by fastforce
    next
      case False
      have e: "hs ! ?j = fc_events f ! (?j - length old)" using False hs by (simp add: nth_append)
      have "\<not> ?P (fc_events f ! (?j - length old))"
      proof (rule takeWhile_rev_last)
        show "?j - length old < length (fc_events f)" using False hs len c by simp
        show "length (takeWhile ?P (rev (fc_events f))) < length (fc_events f) - (?j - length old)"
          using n False hs len by (simp add: in_window_def)
        show "sorted (fc_events f)" using R(3) hs by (simp add: sorted_append)
      qed auto
      then show ?thesis using e by simp
    qed
  qed
  let ?Q = "\<lambda>e. e < now - fc_maxWin f"
  have "hs @ [now] = (old @ takeWhile ?Q (fc_events f @ [now])) @ dropWhile ?Q (fc_events f @ [now])" using hs by simp
  moreover have "\<forall>e \<in> set (old @ takeWhile ?Q (fc_events f @ [now])). ?Q e" using old' by (auto dest: set_takeWhileD)
  ultimately have "\<exists>old. hs @ [now] = old @ dropWhile ?Q (fc_events f @ [now]) \<and> (\<forall>e \<in> set old. ?Q e)" by blast
  moreover have "sorted (hs @ [now])" using R(3) le by (simp add: sorted_append)
  ultimately show ?thesis using R(1,2) sp unfolding fc_tracks_def addEvent_def by simp
qed

interpretation limiter: rate_limiter rules fc_permits addEvent "fc_tracks rules" for rules
  by unfold_locales (simp add: fc_tracks_def, simp add: fc_tracks_def, rule fc_tracks_add)

section \<open>The gate keeps the limits\<close>

lemma in_window_old: "(\<And>e. e \<in> set events \<Longrightarrow> e \<le> now - fl_WindowMs r) \<Longrightarrow> in_window now events r = 0"
  by (cases "rev events") (auto simp: in_window_def)

lemma wakeup_quiet:
  assumes "\<And>e r. e \<in> set events \<Longrightarrow> r \<in> set rs \<Longrightarrow> e \<le> now - fl_WindowMs r" and "\<And>r. r \<in> set rs \<Longrightarrow> 0 < fl_Count r"
  shows "wakeup_loop now events rs w = Some w"
  using assms
proof (induction rs arbitrary: w)
  case (Cons r rs)
  have "in_window now events r = 0" by (rule in_window_old) (use Cons.prems(1) in simp)
  moreover have "0 < fl_Count r" using Cons.prems(2) by simp
  moreover have "wakeup_loop now events rs w = Some w" using Cons by simp
  ultimately show ?case by simp
qed simp

definition gate_inv :: "int list \<Rightarrow> flood_gate \<times> int list \<Rightarrow> bool" where
  "gate_inv ts gh \<longleftrightarrow>
     (case gh of (g, granted) \<Rightarrow>
        fc_tracks defaultFloodLimits granted (fg_flood g) \<and> set granted \<subseteq> set ts \<and>
        fc_rules (fg_sanity g) = defaultSanityLimits \<and> set (fc_events (fg_sanity g)) \<subseteq> set ts \<and>
        fc_rules (fg_mtprotoError g) = defaultFloodLimits \<and> set (fc_events (fg_mtprotoError g)) \<subseteq> set ts)"

lemma gate_inv_new: "gate_inv [] (newConnectionFloodGate, [])"
  by (simp add: gate_inv_def newConnectionFloodGate_def fc_tracks_new) (simp add: NewFloodControl_def)

lemma set_addEvent: "set (fc_events (addEvent now f)) \<subseteq> insert now (set (fc_events f))"
  by (auto simp: addEvent_def dest: set_dropWhileD)

lemma rules_addEvent [simp]: "fc_rules (addEvent now f) = fc_rules f"
  by (simp add: addEvent_def)

lemma gate_inv_exec:
  assumes "gate_inv ts gh" and "\<And>t. t \<in> set ts \<Longrightarrow> t \<le> now"
  shows "gate_inv (ts @ [now]) (gate_exec op now gh)"
proof -
  obtain g granted where gh: "gh = (g, granted)" by fastforce
  note i = assms(1) [unfolded gate_inv_def gh prod.case]
  note sets = subset_trans [OF set_addEvent]
  show ?thesis
  proof (cases op)
    case GateTry
    show ?thesis
    proof (cases "fst (gate_try now g) = Some WaitGranted")
      case True
      then obtain w where w: "gate_wakeup now g = Some w" "w \<le> now"
        by (auto simp: gate_try_def split: option.splits if_splits)
      then have "fc_permits now (fg_flood g)"
        by (auto simp: gate_wakeup_def fc_permits_def Let_def split: option.splits if_splits)
      then have "fc_tracks defaultFloodLimits (granted @ [now]) (addEvent now (fg_flood g))"
        using i assms(2) by (intro limiter.records) auto
      with w i show ?thesis
        by (auto simp: GateTry gh gate_try_def gate_inv_def dest!: subsetD [OF set_addEvent])
    next
      case False
      then have "snd (gate_try now g) = g"
        by (auto simp: gate_try_def split: option.splits if_splits)
      with False i show ?thesis by (auto simp: GateTry gh gate_inv_def split: prod.split)
    qed
  next
    case GateError
    with i show ?thesis by (auto simp: gh gate_inv_def recordMtprotoError_def dest!: subsetD [OF set_addEvent])
  next
    case GateNetworkUp
    with i show ?thesis by (auto simp: gh gate_inv_def notifyNetworkUp_def FloodControl_reset_def)
  qed
qed

lemma gate_inv_run: "sorted (map snd ops) \<Longrightarrow> gate_inv (map snd ops) (gate_run ops)"
proof (induction ops rule: rev_induct)
  case (snoc x ops)
  then have "gate_inv (map snd ops) (gate_run ops)" by (simp add: sorted_append)
  moreover have "\<And>t. t \<in> set (map snd ops) \<Longrightarrow> t \<le> snd x" using snoc.prems by (auto simp: sorted_append)
  ultimately show ?case using gate_inv_exec [of "map snd ops" "gate_run ops" "snd x" "fst x"]
    by (simp add: gate_run_def split_def)
qed (simp add: gate_run_def gate_inv_new)

lemma gate_quiet:
  assumes i: "gate_inv ts (g, granted)" and quiet: "\<And>t. t \<in> set ts \<Longrightarrow> t + 10000 \<le> now" and "0 \<le> now"
  shows "fst (gate_try now g) = Some WaitGranted"
proof -
  have q: "wakeupAt now f = Some 0"
    if "set (fc_events f) \<subseteq> set ts" "fc_rules f = defaultFloodLimits \<or> fc_rules f = defaultSanityLimits" for f
    unfolding wakeupAt_def using that quiet
    by (intro wakeup_quiet) (force simp: defaultFloodLimits_def defaultSanityLimits_def)+
  have "set (fc_events (fg_flood g)) \<subseteq> set granted"
    using i by (auto simp: gate_inv_def fc_tracks_def)
  then have "gate_wakeup now g = Some 0"
    using i q by (auto simp: gate_inv_def gate_wakeup_def fc_tracks_def subset_iff)
  with assms(3) show ?thesis by (simp add: gate_try_def)
qed

section \<open>The flood-wait policy (retry.go)\<close>

text \<open>A call ends without an error, with a server error or with another one. \<open>call k t\<close> is the outcome of the
  k-th call, started at time t, and the time it ends; \<open>sleep t d\<close> is when a sleep of d from t ends, None
  when the context is cancelled before.\<close>

datatype call_error = CallRPC tg_error | CallOther | CallContext

definition call_flood_wait :: "call_error \<Rightarrow> i64 option" where
  "call_flood_wait err = (case err of CallRPC e \<Rightarrow> AsFloodWait e | _ \<Rightarrow> None)"

type_synonym flood_registry = "(u32 \<times> int) list"

definition registry_record :: "u32 \<Rightarrow> int \<Rightarrow> flood_registry \<Rightarrow> flood_registry" where
  "registry_record mth t reg =
     (case map_of reg mth of
        None \<Rightarrow> AList.update mth t reg
      | Some existing \<Rightarrow> if t > existing then AList.update mth t reg else reg)"

definition floodWaitRemaining :: "u32 \<Rightarrow> int \<Rightarrow> flood_registry option \<Rightarrow> int" where
  "floodWaitRemaining mth now reg =
     (case reg of None \<Rightarrow> 0
      | Some r \<Rightarrow> (case map_of r mth of None \<Rightarrow> 0 | Some until \<Rightarrow> if until - now > 0 then until - now else 0))"

partial_function (option) waitIfFlooded ::
  "(int \<Rightarrow> int \<Rightarrow> int option) \<Rightarrow> u32 \<Rightarrow> int \<Rightarrow> flood_registry \<Rightarrow> (bool \<times> int \<times> flood_registry) option" where
  "waitIfFlooded sleep mth now reg =
     (case map_of reg mth of
        None \<Rightarrow> Some (True, now, reg)
      | Some until \<Rightarrow>
          if \<not> now < until then Some (True, now, AList.delete mth reg)
          else case sleep now (until - now) of
                 None \<Rightarrow> Some (False, now, reg)
               | Some now' \<Rightarrow> waitIfFlooded sleep mth now' reg)"

definition wait_registry ::
  "(int \<Rightarrow> int \<Rightarrow> int option) \<Rightarrow> u32 \<Rightarrow> int \<Rightarrow> flood_registry option \<Rightarrow> (bool \<times> int \<times> flood_registry option) option" where
  "wait_registry sleep mth now reg =
     (case reg of
        None \<Rightarrow> Some (True, now, None)
      | Some r \<Rightarrow> map_option (\<lambda>(ok, now', r'). (ok, now', Some r')) (waitIfFlooded sleep mth now r))"

definition floodMaxRetries :: nat where
  "floodMaxRetries = 5"

text \<open>The calls made so far, each with its start, its end and its error.\<close>

type_synonym flood_trace = "(int \<times> int \<times> call_error option) list"

text \<open>The loop, with the attempts left.\<close>

primrec flood_loop ::
  "nat \<Rightarrow> (nat \<Rightarrow> int \<Rightarrow> call_error option \<times> int) \<Rightarrow> (int \<Rightarrow> int \<Rightarrow> int option) \<Rightarrow> int \<Rightarrow> u32 \<Rightarrow> flood_registry option
   \<Rightarrow> int \<Rightarrow> flood_trace \<Rightarrow> (call_error option \<times> flood_registry option \<times> flood_trace) option" where
  "flood_loop 0 call sleep threshold mth reg now tr = Some (None, reg, tr)"
| "flood_loop (Suc left) call sleep threshold mth reg now tr =
     (case call (length tr) now of (res, now1) \<Rightarrow>
        let tr1 = tr @ [(now, now1, res)]
        in case res of
             None \<Rightarrow> Some (None, reg, tr1)
           | Some err \<Rightarrow>
               case call_flood_wait err of
                 None \<Rightarrow> Some (Some err, reg, tr1)
               | Some wait \<Rightarrow>
                   if left = 0 then Some (Some err, reg, tr1)
                   else if sint wait > threshold then Some (Some err, reg, tr1)
                   else
                     let reg1 = map_option (registry_record mth (now1 + sint wait)) reg
                     in case sleep now1 (sint wait) of
                          None \<Rightarrow> Some (Some CallContext, reg1, tr1)
                        | Some now2 \<Rightarrow>
                            case wait_registry sleep mth now2 reg1 of
                              None \<Rightarrow> None
                            | Some (False, _, reg2) \<Rightarrow> Some (Some CallContext, reg2, tr1)
                            | Some (True, now3, reg2) \<Rightarrow>
                                flood_loop left call sleep threshold mth reg2 now3 tr1)"

definition invokeWithFloodPolicy ::
  "(nat \<Rightarrow> int \<Rightarrow> call_error option \<times> int) \<Rightarrow> (int \<Rightarrow> int \<Rightarrow> int option) \<Rightarrow> int \<Rightarrow> u32 \<Rightarrow> flood_registry option \<Rightarrow> int
   \<Rightarrow> (call_error option \<times> flood_registry option \<times> flood_trace) option" where
  "invokeWithFloodPolicy call sleep threshold mth reg now =
     (if threshold \<le> 0
      then (case call 0 now of (res, now1) \<Rightarrow> Some (res, reg, [(now, now1, res)]))
      else case wait_registry sleep mth now reg of
             None \<Rightarrow> None
           | Some (False, _, reg1) \<Rightarrow> Some (Some CallContext, reg1, [])
           | Some (True, now1, reg1) \<Rightarrow> flood_loop floodMaxRetries call sleep threshold mth reg1 now1 [])"

text \<open>What the policy relies on: a sleep is not shorter than asked for.\<close>

definition sleeps_long_enough :: "(int \<Rightarrow> int \<Rightarrow> int option) \<Rightarrow> bool" where
  "sleeps_long_enough sleep \<longleftrightarrow> (\<forall>now d now'. sleep now d = Some now' \<longrightarrow> now \<le> now' \<and> now + d \<le> now')"

lemma waitIfFlooded_returns:
  assumes "sleeps_long_enough sleep"
  shows "\<exists>ok now' reg'. waitIfFlooded sleep mth now reg = Some (ok, now', reg') \<and> now \<le> now' \<and>
    (ok \<longrightarrow> (\<forall>until. map_of reg mth = Some until \<longrightarrow> until \<le> now'))"
proof (cases "map_of reg mth")
  case (Some until)
  show ?thesis
  proof (cases "now < until")
    case True
    show ?thesis
    proof (cases "sleep now (until - now)")
      case (Some now')
      then have "now \<le> now'" "until \<le> now'" using assms by (force simp: sleeps_long_enough_def)+
      then show ?thesis using True Some \<open>map_of reg mth = Some until\<close>
        by (subst waitIfFlooded.simps, subst waitIfFlooded.simps) (simp, blast)
    qed (use True Some in \<open>subst waitIfFlooded.simps, simp, blast\<close>)
  qed (use Some in \<open>subst waitIfFlooded.simps, simp, blast\<close>)
qed (subst waitIfFlooded.simps, simp, blast)

lemma wait_registry_returns:
  assumes "sleeps_long_enough sleep"
  shows "\<exists>ok now' reg'. wait_registry sleep mth now reg = Some (ok, now', reg') \<and> now \<le> now'"
  using waitIfFlooded_returns [OF assms, of mth now] by (cases reg) (fastforce simp: wait_registry_def)+

text \<open>A trace that obeys the policy: every call but the last met a flood error whose wait is within the threshold, and the next
  one started after that wait.\<close>

definition flood_trace_ok :: "int \<Rightarrow> flood_trace \<Rightarrow> bool" where
  "flood_trace_ok threshold tr \<longleftrightarrow>
     (\<forall>i. Suc i < length tr \<longrightarrow>
        (\<exists>start end err wait. tr ! i = (start, end, Some err) \<and> call_flood_wait err = Some wait \<and>
           sint wait \<le> threshold \<and> end + sint wait \<le> fst (tr ! Suc i)))"

lemma flood_trace_snoc:
  assumes "flood_trace_ok threshold tr"
    and "tr \<noteq> [] \<Longrightarrow> \<exists>start end err wait. last tr = (start, end, Some err) \<and> call_flood_wait err = Some wait \<and>
           sint wait \<le> threshold \<and> end + sint wait \<le> fst x"
  shows "flood_trace_ok threshold (tr @ [x])"
  unfolding flood_trace_ok_def
proof (intro allI impI)
  fix i assume i: "Suc i < length (tr @ [x])"
  show "\<exists>start end err wait. (tr @ [x]) ! i = (start, end, Some err) \<and> call_flood_wait err = Some wait \<and>
           sint wait \<le> threshold \<and> end + sint wait \<le> fst ((tr @ [x]) ! Suc i)"
  proof (cases "Suc i < length tr")
    case True
    then show ?thesis using assms(1) by (simp add: flood_trace_ok_def nth_append)
  next
    case False
    with i have e: "Suc i = length tr" by simp
    then have "tr \<noteq> []" "last tr = tr ! i" by (cases tr rule: rev_cases; simp add: nth_append)+
    with assms(2) e show ?thesis by (simp add: nth_append)
  qed
qed

lemma flood_loop_ok:
  assumes sl: "sleeps_long_enough sleep" and "flood_trace_ok threshold tr"
    and "tr \<noteq> [] \<Longrightarrow> \<exists>start end err wait. last tr = (start, end, Some err) \<and> call_flood_wait err = Some wait \<and>
           sint wait \<le> threshold \<and> end + sint wait \<le> now"
  shows "\<exists>res reg' tr'. flood_loop left call sleep threshold mth reg now tr = Some (res, reg', tr') \<and>
    flood_trace_ok threshold tr' \<and> length tr' \<le> length tr + left \<and> (0 < left \<longrightarrow> tr' \<noteq> []) \<and>
    (tr' \<noteq> [] \<and> 0 < left \<longrightarrow> res = snd (snd (last tr')) \<or> res = Some CallContext)"
  using assms(2,3)
proof (induction left arbitrary: reg now tr)
  case (Suc left)
  obtain res now1 where c: "call (length tr) now = (res, now1)" by fastforce
  let ?tr1 = "tr @ [(now, now1, res)]"
  have ok1: "flood_trace_ok threshold ?tr1" by (rule flood_trace_snoc [OF Suc.prems(1)]) (use Suc.prems(2) in simp)
  show ?case
  proof (cases "\<exists>err wait. res = Some err \<and> call_flood_wait err = Some wait \<and> left \<noteq> 0 \<and> sint wait \<le> threshold")
    case False
    then show ?thesis using c ok1 by (auto simp: Let_def split: option.splits)
  next
    case True
    then obtain err wait where r: "res = Some err" "call_flood_wait err = Some wait" "left \<noteq> 0" "sint wait \<le> threshold"
      by blast
    let ?reg1 = "map_option (registry_record mth (now1 + sint wait)) reg"
    show ?thesis
    proof (cases "sleep now1 (sint wait)")
      case None
      then show ?thesis using c r ok1 by (auto simp: Let_def)
    next
      case (Some now2)
      obtain go now3 reg2 where w: "wait_registry sleep mth now2 ?reg1 = Some (go, now3, reg2)" "now2 \<le> now3"
        using wait_registry_returns [OF sl] by blast
      have "now1 + sint wait \<le> now2" using sl Some by (auto simp: sleeps_long_enough_def)
      then have "\<exists>res reg' tr'. flood_loop left call sleep threshold mth reg2 now3 ?tr1 = Some (res, reg', tr') \<and>
          flood_trace_ok threshold tr' \<and> length tr' \<le> length ?tr1 + left \<and> (0 < left \<longrightarrow> tr' \<noteq> []) \<and>
          (tr' \<noteq> [] \<and> 0 < left \<longrightarrow> res = snd (snd (last tr')) \<or> res = Some CallContext)"
        using r w(2) by (intro Suc.IH ok1) auto
      then show ?thesis using c r Some w(1) ok1 by (cases go) (auto simp: Let_def)
    qed
  qed
qed simp

section \<open>Properties\<close>

text \<open>The gate bounds the rate of connection attempts. Over any sequence of attempts, protocol errors and
  network changes in the order of their times, the granted attempts never exceed one in a second, four in two
  seconds or eight in three seconds, in whatever window one looks; and an attempt ten seconds after the
  last event is granted.\<close>

theorem gate_limits_attempts:
  assumes "sorted (map snd ops)"
  shows "(\<forall>t. length (filter (\<lambda>h. t - 1000 < h \<and> h \<le> t) (snd (gate_run ops))) \<le> 1 \<and>
              length (filter (\<lambda>h. t - 2000 < h \<and> h \<le> t) (snd (gate_run ops))) \<le> 4 \<and>
              length (filter (\<lambda>h. t - 3000 < h \<and> h \<le> t) (snd (gate_run ops))) \<le> 8) \<and>
         (\<forall>now. 0 \<le> now \<and> list_all (\<lambda>t. t + 10000 \<le> now) (map snd ops) \<longrightarrow>
              fst (gate_try now (fst (gate_run ops))) = Some WaitGranted)"
proof -
  note i = gate_inv_run [OF assms]
  then have t: "fc_tracks defaultFloodLimits (snd (gate_run ops)) (fg_flood (fst (gate_run ops)))"
    by (simp add: gate_inv_def split_def)
  have w: "length (filter (\<lambda>h. t - w < h \<and> h \<le> t) (snd (gate_run ops))) \<le> nat c"
    if "\<lparr>fl_Count = c, fl_WindowMs = w\<rparr> \<in> set defaultFloodLimits" for t w c
    using limiter.window_bound [OF t that, of t] that by (auto simp: defaultFloodLimits_def)
  have "fst (gate_try now (fst (gate_run ops))) = Some WaitGranted"
    if "0 \<le> now" "list_all (\<lambda>t. t + 10000 \<le> now) (map snd ops)" for now
    by (rule gate_quiet [of "map snd ops" _ "snd (gate_run ops)"]) (use i that in \<open>auto simp: list_all_iff\<close>)
  with w [of 1 1000] w [of 4 2000] w [of 8 3000] show ?thesis by (simp add: defaultFloodLimits_def)
qed

theorem gate_limits_attempts_witness:
  "snd (gate_run [(GateTry, 5000 :: int), (GateTry, 5500), (GateError, 5600), (GateTry, 7000)]) = [5000, 7000] \<and>
   length (filter (\<lambda>h. 7000 - 2000 < h \<and> h \<le> 7000)
     (snd (gate_run [(GateTry, 5000 :: int), (GateTry, 5500), (GateError, 5600), (GateTry, 7000)]))) \<le> 4 \<and>
   fst (gate_try 17000 (fst (gate_run [(GateTry, 5000 :: int), (GateTry, 5500), (GateError, 5600), (GateTry, 7000)]))) =
     Some WaitGranted"
proof -
  let ?ops = "[(GateTry, 5000 :: int), (GateTry, 5500), (GateError, 5600), (GateTry, 7000)]"
  have "sorted (map snd ?ops)" by simp
  note g = gate_limits_attempts [OF this]
  have "snd (gate_run ?ops) = [5000, 7000]" by code_simp
  moreover have "fst (gate_try 17000 (fst (gate_run ?ops))) = Some WaitGranted"
    by (rule conjunct2 [OF g, rule_format]) simp
  ultimately show ?thesis using conjunct1 [OF g, rule_format, of 7000] by blast
qed

text \<open>The flood policy ends and does not hammer the server. When sleeping takes at least the time asked for,
  invokeWithFloodPolicy returns whatever the calls answer; it makes at most five calls; each call but the
  last got a flood error with a wait within the threshold, and the next call starts no earlier than
  that wait after it; and it returns the last call's outcome unless the caller gave up.\<close>

theorem flood_policy_bounded:
  assumes "sleeps_long_enough sleep"
  shows "\<exists>res reg' tr. invokeWithFloodPolicy call sleep threshold mth reg now = Some (res, reg', tr) \<and>
    length tr \<le> 5 \<and> flood_trace_ok threshold tr \<and>
    (tr = [] \<longrightarrow> res = Some CallContext) \<and> (tr \<noteq> [] \<longrightarrow> res = snd (snd (last tr)) \<or> res = Some CallContext)"
proof (cases "threshold \<le> 0")
  case True
  then show ?thesis by (simp add: invokeWithFloodPolicy_def flood_trace_ok_def split: prod.split)
next
  case False
  obtain go now1 reg1 where w: "wait_registry sleep mth now reg = Some (go, now1, reg1)"
    using wait_registry_returns [OF assms(1)] by blast
  have "\<exists>res reg' tr'. flood_loop floodMaxRetries call sleep threshold mth reg1 now1 [] = Some (res, reg', tr') \<and>
    flood_trace_ok threshold tr' \<and> length tr' \<le> length ([] :: flood_trace) + floodMaxRetries \<and>
    (0 < floodMaxRetries \<longrightarrow> tr' \<noteq> []) \<and>
    (tr' \<noteq> [] \<and> 0 < floodMaxRetries \<longrightarrow> res = snd (snd (last tr')) \<or> res = Some CallContext)"
    by (rule flood_loop_ok [OF assms]) (simp_all add: flood_trace_ok_def)
  then show ?thesis using False w
    by (cases go) (auto simp: invokeWithFloodPolicy_def floodMaxRetries_def flood_trace_ok_def)
qed

definition flood_error :: "nat \<Rightarrow> tg_error" where
  "flood_error n = tgerr_New (\<lambda>_. False) 420 (join_us ([codes ''FLOOD'', codes ''WAIT''] @ digits n # []))"

lemma flood_error_wait: "int n < 2 ^ 63 \<Longrightarrow> AsFloodWait (flood_error n) = Some (1000000000 * word_of_nat n)"
  using tgerr_New_numbered [of "\<lambda>_. False" "[codes ''FLOOD'', codes ''WAIT'']" "[]" n 420]
  by (simp add: flood_error_def is_word_def codes_def is_digit_def AsFloodWait_def IsOneOf_def IsType_def FloodWaitErrors_def)

theorem flood_policy_bounded_witness:
  "\<exists>res reg' tr.
     invokeWithFloodPolicy (\<lambda>k now. (if k = 0 then Some (CallRPC (flood_error 3)) else None, now + 1))
       (\<lambda>now d. Some (now + max 0 d)) 5000000000 7 (Some []) 0 = Some (res, reg', tr) \<and>
     length tr \<le> 5 \<and> flood_trace_ok 5000000000 tr"
proof -
  have "sleeps_long_enough (\<lambda>now d. Some (now + max 0 d))" by (simp add: sleeps_long_enough_def)
  from flood_policy_bounded [OF this] show ?thesis by blast
qed

text \<open>A defect: the wait is computed in 64-bit nanoseconds, so a server that asks for more than 292 years gets a
  negative wait, which lies below every threshold; the call is repeated at once instead of failing.\<close>

lemma flood_wait_wraps: "\<exists>w. AsFloodWait (flood_error 9223372037) = Some w \<and> sint w < 0"
  by (simp add: flood_error_wait)

end
