(* ===== verification/Client_Limits.thy ===== *)
theory Client_Limits
  imports Mtgo_Prelude "HOL-Library.Multiset"
begin

text \<open>
  Admission and duplicate suppression in the client: the overload controller
  (\<^verbatim>\<open>src/telegram/overload.go\<close>), the byte limiter of transfers (\<^verbatim>\<open>src/telegram/transfer_gate.go\<close>) and the update
  deduplication (\<^verbatim>\<open>src/telegram/dedup_cache.go\<close>). The first two are used by many goroutines at once, so a
  goroutine is a program counter in a multiset and every atomic action a step.
\<close>

section \<open>The overload controller\<close>

record overload_controller =
  oc_maxInFlight :: int
  oc_sem :: nat
  oc_inFlight :: int
  oc_totalAdmitted :: int
  oc_totalRejected :: int
  oc_closed :: bool

definition NewOverloadController :: "int \<Rightarrow> overload_controller" where
  "NewOverloadController maxInFlight =
     \<lparr>oc_maxInFlight = (if maxInFlight \<le> 0 then 0 else maxInFlight), oc_sem = 0, oc_inFlight = 0,
      oc_totalAdmitted = 0, oc_totalRejected = 0, oc_closed = False\<rparr>"

definition oc_Enabled :: "overload_controller \<Rightarrow> bool" where
  "oc_Enabled c \<longleftrightarrow> oc_maxInFlight c > 0"

text \<open>The entry of Admit: refused, admitted without counting, or on to the semaphore.\<close>

datatype admit_error = ControllerClosed | LowPriorityFastFail | DeadlineExceeded | ContextDone

datatype admit_entry = EntryRefused admit_error | EntryFree | EntryAcquire

definition Admit_entry :: "overload_controller \<Rightarrow> admit_entry" where
  "Admit_entry c =
     (if oc_closed c then EntryRefused ControllerClosed
      else if \<not> oc_Enabled c then EntryFree else EntryAcquire)"

text \<open>Sending into the buffered channel, and receiving from it.\<close>

definition sem_acquire :: "overload_controller \<Rightarrow> overload_controller option" where
  "sem_acquire c = (if int (oc_sem c) < oc_maxInFlight c then Some (c\<lparr>oc_sem := oc_sem c + 1\<rparr>) else None)"

definition sem_release :: "overload_controller \<Rightarrow> overload_controller option" where
  "sem_release c = (if oc_sem c > 0 then Some (c\<lparr>oc_sem := oc_sem c - 1\<rparr>) else None)"

definition count_admitted :: "overload_controller \<Rightarrow> overload_controller" where
  "count_admitted c = c\<lparr>oc_inFlight := oc_inFlight c + 1, oc_totalAdmitted := oc_totalAdmitted c + 1\<rparr>"

definition count_rejected :: "overload_controller \<Rightarrow> overload_controller" where
  "count_rejected c = c\<lparr>oc_totalRejected := oc_totalRejected c + 1\<rparr>"

definition count_released :: "overload_controller \<Rightarrow> overload_controller" where
  "count_released c = c\<lparr>oc_inFlight := oc_inFlight c - 1\<rparr>"

definition oc_Close :: "overload_controller \<Rightarrow> overload_controller" where
  "oc_Close c = c\<lparr>oc_closed := True\<rparr>"

datatype throttle_level = ThrottleNormal | ThrottleThrottlingLow | ThrottleShedding | ThrottleCritical

definition oc_ThrottleLevel :: "overload_controller \<Rightarrow> throttle_level" where
  "oc_ThrottleLevel c =
     (if \<not> oc_Enabled c then ThrottleNormal
      else if oc_inFlight c \<ge> oc_maxInFlight c then ThrottleThrottlingLow
      else if oc_inFlight c \<ge> oc_maxInFlight c * 3 div 4 then ThrottleShedding
      else ThrottleNormal)"

text \<open>A goroutine that was admitted through the semaphore: it holds a slot that is not counted yet, runs its call, or
  has given the slot back and is still counted. The waiting high-priority calls keep no state of the controller.\<close>

datatype call_pc = PcHigh | PcAcquired | PcRunning | PcReleased

type_synonym oc_sys = "overload_controller \<times> call_pc multiset"

inductive oc_step :: "oc_sys \<Rightarrow> oc_sys \<Rightarrow> bool" where
  low_ok: "Admit_entry c = EntryAcquire \<Longrightarrow> sem_acquire c = Some c' \<Longrightarrow> oc_step (c, pcs) (c', add_mset PcAcquired pcs)"
| low_fail: "Admit_entry c = EntryAcquire \<Longrightarrow> sem_acquire c = None \<Longrightarrow> oc_step (c, pcs) (count_rejected c, pcs)"
| high: "Admit_entry c = EntryAcquire \<Longrightarrow> oc_step (c, pcs) (c, add_mset PcHigh pcs)"
| high_ok: "sem_acquire c = Some c' \<Longrightarrow> oc_step (c, add_mset PcHigh pcs) (c', add_mset PcAcquired pcs)"
| high_fail: "oc_step (c, add_mset PcHigh pcs) (count_rejected c, pcs)"
| count: "oc_step (c, add_mset PcAcquired pcs) (count_admitted c, add_mset PcRunning pcs)"
| release: "sem_release c = Some c' \<Longrightarrow> oc_step (c, add_mset PcRunning pcs) (c', add_mset PcReleased pcs)"
| uncount: "oc_step (c, add_mset PcReleased pcs) (count_released c, pcs)"
| close: "oc_step (c, pcs) (oc_Close c, pcs)"

inductive oc_reachable :: "int \<Rightarrow> oc_sys \<Rightarrow> bool" for maxInFlight where
  oc_init: "oc_reachable maxInFlight (NewOverloadController maxInFlight, {#})"
| oc_next: "oc_reachable maxInFlight s \<Longrightarrow> oc_step s s' \<Longrightarrow> oc_reachable maxInFlight s'"

inductive_cases oc_stepE: "oc_step (c, pcs) s'"

definition oc_inv :: "oc_sys \<Rightarrow> bool" where
  "oc_inv s \<longleftrightarrow>
     (case s of (c, pcs) \<Rightarrow>
        oc_sem c = count pcs PcAcquired + count pcs PcRunning \<and> int (oc_sem c) \<le> oc_maxInFlight c \<and>
        oc_inFlight c = int (count pcs PcRunning + count pcs PcReleased))"

lemmas oc_ops = sem_acquire_def sem_release_def count_admitted_def count_rejected_def count_released_def oc_Close_def

lemma oc_inv_step: "oc_step s s' \<Longrightarrow> oc_inv s \<Longrightarrow> oc_inv s' \<and> oc_maxInFlight (fst s') = oc_maxInFlight (fst s)"
  by (induction rule: oc_step.induct) (auto simp: oc_inv_def oc_ops split: if_splits)

lemma oc_reachable_inv:
  "oc_reachable m s \<Longrightarrow> oc_inv s \<and> oc_maxInFlight (fst s) = (if m \<le> 0 then 0 else m)"
proof (induction rule: oc_reachable.induct)
  case oc_init
  then show ?case by (simp add: oc_inv_def NewOverloadController_def)
next
  case (oc_next s s')
  then show ?case using oc_inv_step [OF oc_next.hyps(2)] by simp
qed

text \<open>Some step of a goroutine that was admitted is always possible: release never blocks.\<close>

lemma oc_release_enabled:
  "oc_inv (c, pcs) \<Longrightarrow> PcRunning \<in># pcs \<Longrightarrow> \<exists>c'. sem_release c = Some c'"
  using count_greater_zero_iff [of pcs PcRunning] by (auto simp: oc_inv_def sem_release_def)

section \<open>The byte limiter\<close>

record byte_limiter =
  bl_available :: int
  bl_max :: int
  bl_notify :: bool

definition newByteLimiter :: "int \<Rightarrow> byte_limiter" where
  "newByteLimiter maxBytes = \<lparr>bl_available = maxBytes, bl_max = maxBytes, bl_notify = False\<rparr>"

text \<open>What acquire asks for after the clamp; None when it returns at once.\<close>

definition acquire_bytes :: "int \<Rightarrow> byte_limiter \<Rightarrow> int option" where
  "acquire_bytes bytes l = (if bytes \<le> 0 then None else Some (if bytes > bl_max l then bl_max l else bytes))"

text \<open>The turn of acquire under the lock.\<close>

definition acquire_try :: "int \<Rightarrow> byte_limiter \<Rightarrow> byte_limiter option" where
  "acquire_try bytes l =
     (if bl_available l \<ge> bytes then Some (l\<lparr>bl_available := bl_available l - bytes\<rparr>) else None)"

text \<open>release under the lock, and its non-blocking send.\<close>

definition release_add :: "int \<Rightarrow> byte_limiter \<Rightarrow> byte_limiter" where
  "release_add bytes l =
     (let a = bl_available l + bytes in l\<lparr>bl_available := (if a > bl_max l then bl_max l else a)\<rparr>)"

definition release_notify :: "byte_limiter \<Rightarrow> byte_limiter" where
  "release_notify l = l\<lparr>bl_notify := True\<rparr>"

text \<open>A goroutine with the bytes it was called with: about to look, waiting, holding its share, about to signal.\<close>

datatype bl_pc = BlLook int | BlWait int | BlHold int | BlSignal

type_synonym bl_sys = "byte_limiter \<times> bl_pc multiset"

inductive bl_step :: "bl_sys \<Rightarrow> bl_sys \<Rightarrow> bool" where
  bl_start: "acquire_bytes b l = Some n \<Longrightarrow> bl_step (l, ps) (l, add_mset (BlLook b) ps)"
| bl_take: "acquire_bytes b l = Some n \<Longrightarrow> acquire_try n l = Some l' \<Longrightarrow>
    bl_step (l, add_mset (BlLook b) ps) (l', add_mset (BlHold b) ps)"
| bl_block: "acquire_bytes b l = Some n \<Longrightarrow> acquire_try n l = None \<Longrightarrow>
    bl_step (l, add_mset (BlLook b) ps) (l, add_mset (BlWait b) ps)"
| bl_wake: "bl_notify l \<Longrightarrow> bl_step (l, add_mset (BlWait b) ps) (l\<lparr>bl_notify := False\<rparr>, add_mset (BlLook b) ps)"
| bl_cancel: "bl_step (l, add_mset (BlWait b) ps) (l, ps)"
| bl_release: "bl_step (l, add_mset (BlHold b) ps) (release_add b l, add_mset BlSignal ps)"
| bl_signal: "bl_step (l, add_mset BlSignal ps) (release_notify l, ps)"

inductive bl_reachable :: "int \<Rightarrow> bl_sys \<Rightarrow> bool" for maxBytes where
  bl_init: "bl_reachable maxBytes (newByteLimiter maxBytes, {#})"
| bl_next: "bl_reachable maxBytes s \<Longrightarrow> bl_step s s' \<Longrightarrow> bl_reachable maxBytes s'"

fun bl_share :: "int \<Rightarrow> bl_pc \<Rightarrow> int" where
  "bl_share m (BlHold b) = min b m"
| "bl_share m _ = 0"

fun bl_bytes :: "bl_pc \<Rightarrow> int" where
  "bl_bytes (BlLook b) = b"
| "bl_bytes (BlWait b) = b"
| "bl_bytes (BlHold b) = b"
| "bl_bytes BlSignal = 1"

fun bl_blocked :: "bl_pc \<Rightarrow> bool" where
  "bl_blocked (BlWait b) = True"
| "bl_blocked _ = False"

text \<open>Every byte is available or held, and a waiter is never left alone: while one waits there is a signal, or another
  goroutine that will act.\<close>

definition bl_inv :: "int \<Rightarrow> bl_sys \<Rightarrow> bool" where
  "bl_inv m s \<longleftrightarrow>
     (case s of (l, ps) \<Rightarrow>
        bl_max l = m \<and> bl_available l + (\<Sum>p \<in># ps. bl_share m p) = m \<and> 0 \<le> bl_available l \<and>
        (\<forall>p \<in># ps. 0 < bl_bytes p) \<and>
        ((\<exists>p \<in># ps. bl_blocked p) \<longrightarrow> bl_notify l \<or> (\<exists>p \<in># ps. \<not> bl_blocked p)))"

lemma bl_inv_new: "0 < m \<Longrightarrow> bl_inv m (newByteLimiter m, {#})"
  by (simp add: bl_inv_def newByteLimiter_def)

lemma bl_share_nonneg: "0 < m \<Longrightarrow> (\<forall>p \<in># ps. 0 < bl_bytes p) \<Longrightarrow> 0 \<le> (\<Sum>p \<in># ps. bl_share m p)"
proof (induction ps)
  case (add p ps)
  then have "0 \<le> bl_share m p" by (cases p) auto
  with add show ?case by simp
qed simp

lemma bl_holder_exists: "0 < (\<Sum>p \<in># ps. bl_share m p) \<Longrightarrow> \<exists>p \<in># ps. \<not> bl_blocked p"
proof (induction ps)
  case (add p ps)
  then show ?case by (cases p) auto
qed simp

lemma bl_inv_step:
  assumes "bl_step s s'" and "bl_inv m s" and m: "0 < m"
  shows "bl_inv m s'"
  using assms(1,2)
proof (induction rule: bl_step.induct)
  case (bl_take b l n l' ps)
  then have "n = min b m" "0 < n" using m by (auto simp: bl_inv_def acquire_bytes_def split: if_splits)
  with bl_take show ?case by (auto simp: bl_inv_def acquire_try_def split: if_splits)
next
  case (bl_block b l n ps)
  then have "n \<le> m" by (auto simp: bl_inv_def acquire_bytes_def split: if_splits)
  with bl_block have "0 < (\<Sum>p \<in># ps. bl_share m p)" by (auto simp: bl_inv_def acquire_try_def split: if_splits)
  with bl_holder_exists bl_block show ?case by (fastforce simp: bl_inv_def)
next
  case (bl_release l b ps)
  have "0 \<le> (\<Sum>p \<in># ps. bl_share m p)" using bl_release m by (intro bl_share_nonneg) (auto simp: bl_inv_def)
  with bl_release m show ?case by (auto simp: bl_inv_def release_add_def Let_def)
qed (auto simp: bl_inv_def acquire_bytes_def release_notify_def split: if_splits)

lemma bl_reachable_inv: "bl_reachable m s \<Longrightarrow> 0 < m \<Longrightarrow> bl_inv m s"
  by (induction rule: bl_reachable.induct) (auto intro: bl_inv_new bl_inv_step)

section \<open>Update deduplication\<close>

definition dedupTTL :: int where
  "dedupTTL = 5000000000"

definition dedupMaxEntries :: nat where
  "dedupMaxEntries = 1000"

type_synonym dedup_cache = "(i64 \<times> int) list"

definition cleanupLocked :: "int \<Rightarrow> dedup_cache \<Rightarrow> dedup_cache" where
  "cleanupLocked now seen = filter (\<lambda>(k, t). \<not> now - t \<ge> dedupTTL) seen"

definition checkAndAdd :: "int \<Rightarrow> i64 \<Rightarrow> dedup_cache \<Rightarrow> bool \<times> dedup_cache" where
  "checkAndAdd now key seen =
     (if key = 0 then (True, seen)
      else if (case map_of seen key of Some t \<Rightarrow> now - t < dedupTTL | None \<Rightarrow> False) then (False, seen)
      else let seen1 = (if length seen \<ge> dedupMaxEntries then cleanupLocked now seen else seen)
           in (True, AList.update key now seen1))"

text \<open>The key of an update, from the fields the reflection finds (0 when the type has no such field).\<close>

definition updateDedupKey :: "u32 \<Rightarrow> i64 \<Rightarrow> u32 \<Rightarrow> i64" where
  "updateDedupKey pts channelID qts =
     (if sint pts > 0
      then if sint channelID > 0 then push_bit 32 channelID OR ucast pts else scast pts
      else if sint qts > 0 then push_bit 62 1 OR scast qts else 0)"

text \<open>A sequence of updates by key and time, with those that are dispatched.\<close>

fun dedup_run :: "(i64 \<times> int) list \<Rightarrow> dedup_cache \<Rightarrow> (i64 \<times> int) list" where
  "dedup_run [] seen = []"
| "dedup_run ((key, now) # us) seen =
     (let (new, seen') = checkAndAdd now key seen
      in if new then (key, now) # dedup_run us seen' else dedup_run us seen')"

lemma map_of_cleanup:
  "gm_wf seen \<Longrightarrow> map_of (cleanupLocked now seen) k =
     (case map_of seen k of Some t \<Rightarrow> if now - t \<ge> dedupTTL then None else Some t | None \<Rightarrow> None)"
  unfolding cleanupLocked_def
  by (induction seen) (auto split: option.splits dest!: map_of_SomeD simp: rev_image_eqI)

lemma gm_wf_cleanup: "gm_wf seen \<Longrightarrow> gm_wf (cleanupLocked now seen)"
  unfolding cleanupLocked_def by (rule distinct_map_filter)

text \<open>What an entry of the cache guarantees for the rest of a run.\<close>

lemma dedup_run_later: "(k, t) \<in> set (dedup_run us seen) \<Longrightarrow> (k, t) \<in> set us"
proof (induction us arbitrary: seen)
  case (Cons u us)
  then show ?case by (cases u; cases "checkAndAdd (snd u) (fst u) seen") (auto split: if_splits)
qed simp

lemma checkAndAdd_keeps:
  assumes "gm_wf seen" and "map_of seen k = Some t" and "now < t + dedupTTL"
  shows "\<exists>t'. (t' = t \<or> t' = now) \<and> map_of (snd (checkAndAdd now key seen)) k = Some t'"
  using assms by (auto simp: checkAndAdd_def Let_def update_conv map_of_cleanup)

lemma checkAndAdd_wf: "gm_wf seen \<Longrightarrow> gm_wf (snd (checkAndAdd now key seen))"
  by (auto simp: checkAndAdd_def Let_def distinct_update gm_wf_cleanup)

lemma dedup_blocks:
  assumes "gm_wf seen" and "map_of seen k = Some t" and "k \<noteq> 0" and "(k, t') \<in> set (dedup_run us seen)"
    and "sorted (t # map snd us)"
  shows "t + dedupTTL \<le> t'"
  using assms
proof (induction us arbitrary: seen t)
  case (Cons u us)
  obtain key now where u: "u = (key, now)" by fastforce
  have le: "t \<le> now" "now \<le> t'" using Cons.prems(4,5) dedup_run_later [OF Cons.prems(4)] by (auto simp: u)
  show ?case
  proof (cases "now < t + dedupTTL")
    case False
    then show ?thesis using le by simp
  next
    case True
    obtain t1 where t1: "t1 = t \<or> t1 = now" "map_of (snd (checkAndAdd now key seen)) k = Some t1"
      using checkAndAdd_keeps [OF Cons.prems(1,2) True] by blast
    have "(k, t') \<in> set (dedup_run us (snd (checkAndAdd now key seen)))"
      using Cons.prems(2-4) True by (auto simp: u checkAndAdd_def Let_def split: prod.splits if_splits)
    then have "t1 + dedupTTL \<le> t'"
      using t1 Cons.prems(3,5) le by (intro Cons.IH [OF checkAndAdd_wf [OF Cons.prems(1)] t1(2)]) (auto simp: u)
    then show ?thesis using t1(1) le by auto
  qed
qed simp

lemma dedup_spaced:
  assumes "gm_wf seen" and "sorted (map snd us)" and "k \<noteq> 0"
    and "i < j" and "j < length (dedup_run us seen)" and "fst (dedup_run us seen ! i) = k" and "fst (dedup_run us seen ! j) = k"
  shows "snd (dedup_run us seen ! i) + dedupTTL \<le> snd (dedup_run us seen ! j)"
  using assms
proof (induction us arbitrary: seen i j)
  case (Cons u us)
  obtain key now where u: "u = (key, now)" by fastforce
  let ?s = "snd (checkAndAdd now key seen)"
  note wf = checkAndAdd_wf [OF Cons.prems(1), of now key]
  show ?case
  proof (cases "fst (checkAndAdd now key seen)")
    case False
    then have e: "dedup_run (u # us) seen = dedup_run us ?s" by (cases "checkAndAdd now key seen") (simp add: u)
    show ?thesis using Cons.prems unfolding e by (intro Cons.IH [OF wf]) (simp_all add: u)
  next
    case True
    then have e: "dedup_run (u # us) seen = (key, now) # dedup_run us ?s" by (cases "checkAndAdd now key seen") (simp add: u)
    show ?thesis
    proof (cases i)
      case 0
      then obtain j' where j: "j = Suc j'" using Cons.prems(4) by (cases j) auto
      have k: "key = k" using Cons.prems(6) 0 e by simp
      let ?x = "dedup_run us ?s ! j'"
      have "?x \<in> set (dedup_run us ?s)" using Cons.prems(5) e j by simp
      moreover have "fst ?x = k" using Cons.prems(7) e j by simp
      moreover have "map_of ?s k = Some now"
        using True Cons.prems(3) k by (auto simp: checkAndAdd_def Let_def update_conv split: if_splits)
      ultimately have "now + dedupTTL \<le> snd ?x"
        using Cons.prems(2,3) u by (intro dedup_blocks [OF wf, of k now _ us]) (auto simp: prod_eq_iff split: prod.splits)
      then show ?thesis using 0 j e by simp
    next
      case (Suc i')
      then obtain j' where "j = Suc j'" using Cons.prems(4) by (cases j) auto
      with Suc Cons.prems show ?thesis unfolding e by (simp add: u Cons.IH [OF wf])
    qed
  qed
qed simp

section \<open>Keys of updates\<close>

text \<open>Non-negative signed words.\<close>

lemma uint_eq_sint:
  fixes w :: "'a :: len word"
  assumes "0 \<le> sint w"
  shows "uint w = sint w"
proof -
  have b: "\<not> bit (uint w) (LENGTH('a) - Suc 0)" using assms bit_last_iff [of w] by (simp add: bit_uint_iff)
  have "sint w = take_bit (Suc (LENGTH('a) - Suc 0)) (uint w)"
    unfolding sint_uint signed_take_bit_eq_take_bit_minus using b by simp
  then show ?thesis by (simp add: take_bit_int_eq_self unsigned_less)
qed

lemma small_word_bits:
  fixes w :: "'a :: len word"
  assumes "0 \<le> sint w" and "sint w < 2 ^ n" and "n \<le> i"
  shows "\<not> bit w i"
proof
  assume b: "bit w i"
  have "take_bit n (uint w) = uint w" using assms by (simp add: take_bit_int_eq_self uint_eq_sint)
  then have "bit (take_bit n (uint w)) i" using b by (simp add: bit_uint_iff bit_imp_le_length)
  with assms(3) show False by (simp add: bit_take_bit_iff)
qed

lemma u32_bits: "bit (p :: u32) n \<Longrightarrow> n < 32"
  using bit_imp_le_length by fastforce

lemma i32_bits: "0 < sint (p :: u32) \<Longrightarrow> bit p n \<Longrightarrow> n < 31"
  using sint_lt [of p] small_word_bits [of p 31 n] by (cases "n < 31") simp_all

lemma channel_bits: "0 < sint (c :: i64) \<Longrightarrow> sint c < 1073741824 \<Longrightarrow> bit c n \<Longrightarrow> n < 30"
  using small_word_bits [of c 30 n] by (cases "n < 30") simp_all

lemmas key_bits = u32_bits i32_bits channel_bits

text \<open>What an update stands for, as the comment in the source has it.\<close>

datatype update_signature = NoSignature | AccountPts u32 | AccountQts u32 | ChannelPts i64 u32

definition signature_of :: "u32 \<Rightarrow> i64 \<Rightarrow> u32 \<Rightarrow> update_signature" where
  "signature_of pts channelID qts =
     (if 0 < sint pts then if 0 < sint channelID then ChannelPts channelID pts else AccountPts pts
      else if 0 < sint qts then AccountQts qts else NoSignature)"

fun signature_key :: "update_signature \<Rightarrow> i64" where
  "signature_key NoSignature = 0"
| "signature_key (AccountPts p) = scast p"
| "signature_key (AccountQts q) = push_bit 62 1 OR scast q"
| "signature_key (ChannelPts c p) = push_bit 32 c OR ucast p"

fun signature_ok :: "update_signature \<Rightarrow> bool" where
  "signature_ok NoSignature \<longleftrightarrow> True"
| "signature_ok (AccountPts p) \<longleftrightarrow> 0 < sint p"
| "signature_ok (AccountQts q) \<longleftrightarrow> 0 < sint q"
| "signature_ok (ChannelPts c p) \<longleftrightarrow> 0 < sint p \<and> 0 < sint c \<and> sint c < 2 ^ 30"

lemma updateDedupKey_signature: "updateDedupKey pts ch qts = signature_key (signature_of pts ch qts)"
  by (simp add: updateDedupKey_def signature_of_def)

text \<open>Three readings of a key tell the kinds apart and give the numbers back.\<close>

lemma key_bit_62: "signature_ok s \<Longrightarrow> bit (signature_key s) 62 \<longleftrightarrow> (\<exists>q. s = AccountQts q)"
  by (cases s) (auto simp: bit_simps dest: key_bits)

fun signature_low :: "update_signature \<Rightarrow> u32" where
  "signature_low NoSignature = 0"
| "signature_low (AccountPts p) = p"
| "signature_low (AccountQts q) = q"
| "signature_low (ChannelPts c p) = p"

fun signature_high :: "update_signature \<Rightarrow> i64" where
  "signature_high (ChannelPts c p) = c"
| "signature_high _ = 0"

lemma key_low: "signature_ok s \<Longrightarrow> take_bit 32 (signature_key s) = ucast (signature_low s)"
  by (cases s; simp; intro bit_word_eqI) (auto simp: bit_simps min_def dest: key_bits)

lemma key_high: "signature_ok s \<Longrightarrow> drop_bit 32 (take_bit 62 (signature_key s)) = signature_high s"
  by (cases s; simp; intro bit_word_eqI)
    (auto simp: bit_simps min_def dest: key_bits)

lemma ucast_u32_inj: "(ucast p :: i64) = ucast q \<longleftrightarrow> p = (q :: u32)"
  by (auto simp: bit_eq_iff bit_simps dest: u32_bits)

lemma signature_key_inj:
  assumes "signature_ok s" and "signature_ok s'" and eq: "signature_key s = signature_key s'"
  shows "s = s'"
proof -
  note r = key_bit_62 [OF assms(1)] key_bit_62 [OF assms(2)] key_low [OF assms(1)] key_low [OF assms(2)]
    key_high [OF assms(1)] key_high [OF assms(2)]
  have "(\<exists>q. s = AccountQts q) \<longleftrightarrow> (\<exists>q. s' = AccountQts q)" using r(1,2) eq by simp
  moreover have "signature_low s = signature_low s'" using r(3,4) eq by (metis ucast_u32_inj)
  moreover have "signature_high s = signature_high s'" using r(5,6) eq by metis
  ultimately show ?thesis using assms(1,2) by (cases s; cases s') auto
qed

section \<open>Properties\<close>

text \<open>The overload controller in every interleaving. However many goroutines enter Admit, count
  themselves, release and are counted out, never more than the configured number of calls hold a slot; the
  in-flight counter is exactly the number of calls that run or have just released; when no call is left the
  semaphore and the counter are back to zero; and a running call can always release.\<close>

theorem overload_slots_bounded:
  assumes "oc_reachable maxInFlight (c, pcs)"
  shows "int (count pcs PcAcquired + count pcs PcRunning) \<le> max maxInFlight 0 \<and>
    oc_inFlight c = int (count pcs PcRunning + count pcs PcReleased) \<and>
    (pcs = {#} \<longrightarrow> oc_sem c = 0 \<and> oc_inFlight c = 0) \<and>
    (PcRunning \<in># pcs \<longrightarrow> (\<exists>c'. oc_step (c, pcs) (c', add_mset PcReleased (pcs - {#PcRunning#}))))"
proof -
  from oc_reachable_inv [OF assms] have i: "oc_inv (c, pcs)" and m: "oc_maxInFlight c = (if maxInFlight \<le> 0 then 0 else maxInFlight)"
    by simp_all
  have "\<exists>c'. oc_step (c, pcs) (c', add_mset PcReleased (pcs - {#PcRunning#}))" if r: "PcRunning \<in># pcs"
  proof -
    from oc_release_enabled [OF i r] obtain c' where "sem_release c = Some c'" by blast
    from oc_step.release [OF this, of "pcs - {#PcRunning#}"] r show ?thesis by auto
  qed
  with i m show ?thesis by (auto simp: oc_inv_def max_def)
qed

lemma overload_example:
  "oc_reachable 1 (count_admitted ((NewOverloadController 1)\<lparr>oc_sem := 1\<rparr>), {#PcRunning#})"
proof -
  have "oc_step (NewOverloadController 1, {#}) ((NewOverloadController 1)\<lparr>oc_sem := 1\<rparr>, add_mset PcAcquired {#})"
    by (rule oc_step.low_ok) (simp_all add: Admit_entry_def oc_Enabled_def NewOverloadController_def sem_acquire_def)
  from oc_next [OF oc_init this] show ?thesis by (rule oc_next) (rule oc_step.count)
qed

theorem overload_slots_bounded_witness:
  "int (count {#PcRunning#} PcAcquired + count {#PcRunning#} PcRunning) \<le> max 1 0 \<and>
   oc_inFlight (count_admitted ((NewOverloadController 1)\<lparr>oc_sem := 1\<rparr>)) =
     int (count {#PcRunning#} PcRunning + count {#PcRunning#} PcReleased) \<and>
   (\<exists>c'. oc_step (count_admitted ((NewOverloadController 1)\<lparr>oc_sem := 1\<rparr>), {#PcRunning#})
      (c', add_mset PcReleased ({#PcRunning#} - {#PcRunning#})))"
  using overload_slots_bounded [OF overload_example] by simp

text \<open>A defect: the levels do not ascend with the load. With four slots, three calls in flight are reported as
  shedding and four as the lower level of throttling; with one slot an idle controller sheds; and the
  critical level is never reported.\<close>

lemma throttle_levels_not_ascending:
  "oc_ThrottleLevel ((NewOverloadController 4)\<lparr>oc_inFlight := 3\<rparr>) = ThrottleShedding \<and>
   oc_ThrottleLevel ((NewOverloadController 4)\<lparr>oc_inFlight := 4\<rparr>) = ThrottleThrottlingLow \<and>
   oc_ThrottleLevel (NewOverloadController 1) = ThrottleShedding \<and> oc_ThrottleLevel c \<noteq> ThrottleCritical"
  by (simp add: oc_ThrottleLevel_def oc_Enabled_def NewOverloadController_def)

text \<open>The byte limiter neither leaks nor sleeps for ever. In every interleaving the available
  bytes and the shares of the holders add up to the limit; and whenever the only goroutines left are
  waiting, a signal is pending and the whole limit is available, so the waiter that takes the signal gets its
  bytes: no release is missed, although the channel keeps a single signal.\<close>

theorem byte_limiter_no_lost_wakeup:
  assumes "bl_reachable m (l, ps)" and "0 < m"
  shows "bl_available l + (\<Sum>p \<in># ps. bl_share m p) = m \<and> 0 \<le> bl_available l \<and> bl_available l \<le> m \<and>
    (ps \<noteq> {#} \<and> filter_mset (\<lambda>p. \<not> bl_blocked p) ps = {#} \<longrightarrow>
       bl_notify l \<and> bl_available l = m \<and>
       (\<forall>b. BlWait b \<in># ps \<longrightarrow> (\<exists>n l'. acquire_bytes b l = Some n \<and> acquire_try n l = Some l')))"
proof -
  have i: "bl_inv m (l, ps)" by (rule bl_reachable_inv [OF assms])
  then have nn: "0 \<le> (\<Sum>p \<in># ps. bl_share m p)" using assms(2) by (intro bl_share_nonneg) (auto simp: bl_inv_def)
  have "bl_notify l \<and> bl_available l = m \<and>
      (\<forall>b. BlWait b \<in># ps \<longrightarrow> (\<exists>n l'. acquire_bytes b l = Some n \<and> acquire_try n l = Some l'))"
    if ne: "ps \<noteq> {#}" and all: "filter_mset (\<lambda>p. \<not> bl_blocked p) ps = {#}"
  proof -
    have b: "bl_blocked p" if "p \<in># ps" for p
    proof (rule ccontr)
      assume "\<not> bl_blocked p"
      then have "p \<in># filter_mset (\<lambda>p. \<not> bl_blocked p) ps" using that by simp
      then show False using all by simp
    qed
    with ne have "\<exists>p \<in># ps. bl_blocked p" by (meson multiset_nonemptyE)
    moreover have "\<not> 0 < (\<Sum>p \<in># ps. bl_share m p)" using bl_holder_exists b by blast
    ultimately have av: "bl_notify l" "bl_available l = m" using i b nn by (auto simp: bl_inv_def)
    moreover have "\<exists>n l'. acquire_bytes x l = Some n \<and> acquire_try n l = Some l'" if "BlWait x \<in># ps" for x
    proof -
      have "0 < x" using i that by (force simp: bl_inv_def)
      then show ?thesis using i av(2) by (auto simp: bl_inv_def acquire_bytes_def acquire_try_def)
    qed
    ultimately show ?thesis by blast
  qed
  with i nn show ?thesis by (auto simp: bl_inv_def)
qed

text \<open>A state where the only goroutine waits: one holder took everything, another blocked, the first released.\<close>

lemma byte_limiter_example: "bl_reachable 8 (release_notify (newByteLimiter 8), {#BlWait 5#})"
proof -
  let ?l = "newByteLimiter 8" and ?e = "(newByteLimiter 8)\<lparr>bl_available := 0\<rparr>"
  note defs = newByteLimiter_def acquire_bytes_def acquire_try_def release_add_def release_notify_def
  have "bl_reachable 8 (?l, {#BlLook 8#})" by (rule bl_next [OF bl_init]) (rule bl_start, simp add: defs)
  then have "bl_reachable 8 (?e, {#BlHold 8#})" by (rule bl_next) (rule bl_take [where n = 8], simp_all add: defs)
  then have "bl_reachable 8 (?e, {#BlLook 5, BlHold 8#})" by (rule bl_next) (rule bl_start, simp add: defs)
  then have "bl_reachable 8 (?e, {#BlWait 5, BlHold 8#})" by (rule bl_next) (rule bl_block [where n = 5], simp_all add: defs)
  then have "bl_reachable 8 (?e, {#BlHold 8, BlWait 5#})" by (simp add: add_mset_commute)
  then have "bl_reachable 8 (release_add 8 ?e, {#BlSignal, BlWait 5#})" by (rule bl_next) (rule bl_release)
  moreover have "release_add 8 ?e = ?l" by (simp add: defs)
  ultimately have "bl_reachable 8 (?l, {#BlSignal, BlWait 5#})" by simp
  then show ?thesis by (rule bl_next) (rule bl_signal)
qed

theorem byte_limiter_no_lost_wakeup_witness:
  "bl_notify (release_notify (newByteLimiter 8)) \<and> bl_available (release_notify (newByteLimiter 8)) = 8 \<and>
   (\<exists>n l'. acquire_bytes 5 (release_notify (newByteLimiter 8)) = Some n \<and>
      acquire_try n (release_notify (newByteLimiter 8)) = Some l')"
  using byte_limiter_no_lost_wakeup [OF byte_limiter_example] by auto

text \<open>Duplicate suppression. Over any updates in the order of time, two dispatched updates with the
  same key are at least five seconds apart, also when the cache overflows and is cleaned in between; an update whose
  key was not seen is dispatched; and the keys of account, secret-chat and channel updates are
  different unless the updates are the same, as long as channel ids are below 2^30.\<close>

theorem dedup_suppresses_duplicates:
  assumes "sorted (map snd us)"
  shows "(\<forall>i j. i < j \<and> j < length (dedup_run us []) \<and> fst (dedup_run us [] ! i) = fst (dedup_run us [] ! j) \<and>
            fst (dedup_run us [] ! i) \<noteq> 0 \<longrightarrow>
            snd (dedup_run us [] ! i) + dedupTTL \<le> snd (dedup_run us [] ! j)) \<and>
         (\<forall>now key seen. map_of seen key = None \<longrightarrow> fst (checkAndAdd now key seen)) \<and>
         (\<forall>p c q p' c' q'. sint c < 2 ^ 30 \<and> sint c' < 2 ^ 30 \<longrightarrow>
            updateDedupKey p c q = updateDedupKey p' c' q' \<longleftrightarrow> signature_of p c q = signature_of p' c' q')"
proof -
  let ?r = "dedup_run us []"
  have 1: "snd (?r ! i) + dedupTTL \<le> snd (?r ! j)"
    if "i < j" "j < length ?r" "fst (?r ! i) = fst (?r ! j)" "fst (?r ! i) \<noteq> 0" for i j
    by (rule dedup_spaced [OF _ assms that(4,1,2) refl that(3) [symmetric]]) simp
  have 2: "fst (checkAndAdd now key seen)" if "map_of seen key = None" for now key and seen :: dedup_cache
    using that by (simp add: checkAndAdd_def Let_def)
  have 3: "updateDedupKey p c q = updateDedupKey p' c' q' \<longleftrightarrow> signature_of p c q = signature_of p' c' q'"
    if "sint c < 2 ^ 30" "sint c' < 2 ^ 30" for p q p' q' c c'
  proof -
    have "signature_ok (signature_of p c q)" "signature_ok (signature_of p' c' q')"
      using that by (simp_all add: signature_of_def)
    then show ?thesis unfolding updateDedupKey_signature by (auto intro: signature_key_inj)
  qed
  show ?thesis by (intro conjI allI impI) (use 1 in blast, use 2 in blast, use 3 in blast)
qed

theorem dedup_suppresses_duplicates_witness:
  "dedup_run [(7, 0), (7, 1000), (8, 2000), (7, 5000000000)] [] = [(7, 0), (8, 2000), (7, 5000000000)] \<and>
   snd (dedup_run [(7, 0), (7, 1000), (8, 2000), (7, 5000000000)] [] ! 0) + dedupTTL \<le>
     snd (dedup_run [(7, 0), (7, 1000), (8, 2000), (7, 5000000000)] [] ! 2)"
proof -
  let ?us = "[(7, 0), (7, 1000), (8, 2000), (7, 5000000000)] :: (i64 \<times> int) list"
  have r: "dedup_run ?us [] = [(7, 0), (8, 2000), (7, 5000000000)]" by code_simp
  have "sorted (map snd ?us)" by simp
  from conjunct1 [OF dedup_suppresses_duplicates [OF this], rule_format, of 0 2] r show ?thesis by simp
qed

text \<open>A defect: the keys of channels from 2^30 on are those of secret-chat updates. An update of the channel
  2^30 with pts q, dispatched before, makes the client drop the secret-chat update with qts q that arrives within five
  seconds, although the two have nothing to do with each other.\<close>

theorem channel_update_hides_secret_chat:
  assumes "0 < sint q" and "t \<le> t'" and "t' < t + dedupTTL"
  shows "let ch = updateDedupKey q (2 ^ 30) x; sc = updateDedupKey 0 y q
         in ch = sc \<and> \<not> fst (checkAndAdd t' sc (snd (checkAndAdd t ch [])))"
proof -
  have b: "bit q n \<Longrightarrow> n < 31" for n using assms(1) by (rule i32_bits)
  have "sint ((2 :: i64) ^ 30) > 0" by simp
  then have k: "updateDedupKey q (2 ^ 30) x = push_bit 62 1 OR ucast q" using assms(1) by (simp add: updateDedupKey_def)
  have "(ucast q :: i64) = scast q" by (rule bit_word_eqI) (auto simp: bit_simps min_def dest: b)
  then have e: "updateDedupKey 0 y q = push_bit 62 1 OR ucast q" using assms(1) by (simp add: updateDedupKey_def)
  have "bit (push_bit 62 1 OR ucast q :: i64) 62" by (simp add: bit_simps)
  then have "push_bit 62 1 OR ucast q \<noteq> (0 :: i64)" by (metis bit_0_eq bot_apply bot_bool_def)
  then have "checkAndAdd t (push_bit 62 1 OR ucast q) [] = (True, [(push_bit 62 1 OR ucast q, t)])"
    "\<not> fst (checkAndAdd t' (push_bit 62 1 OR ucast q) [(push_bit 62 1 OR ucast q, t)])"
    using assms(2,3) by (simp_all add: checkAndAdd_def dedupMaxEntries_def)
  then show ?thesis unfolding Let_def k e by simp
qed

theorem channel_update_hides_secret_chat_witness:
  "let ch = updateDedupKey 5 (2 ^ 30) 0; sc = updateDedupKey 0 0 5
   in ch = sc \<and> \<not> fst (checkAndAdd 1000 sc (snd (checkAndAdd 0 ch [])))"
  by (rule channel_update_hides_secret_chat) (simp_all add: dedupTTL_def)

end
