(* ===== verification/RPC_Queries.thy ===== *)
theory RPC_Queries
  imports TL_Object "HOL-Library.Sublist"
begin

text \<open>
  Outgoing queries and their classification: \<^verbatim>\<open>src/internal/session/priority.go\<close>, the message chains of
  \<^verbatim>\<open>src/internal/session/chain.go\<close>, and \<^verbatim>\<open>UnwrapRPCQuery\<close> of \<^verbatim>\<open>session.go\<close>.
\<close>

section \<open>Queries\<close>

text \<open>The helper methods that carry another query in their last field.\<close>

datatype wrapper =
    InvokeAfterMsg | InvokeAfterMsgs | InitConnection | InvokeWithLayer | InvokeWithoutUpdates
  | InvokeWithMessagesRange | InvokeWithTakeout | InvokeWithBusinessConnection
  | InvokeWithGooglePlayIntegrity | InvokeWithApnsSecret | InvokeWithReCaptcha

text \<open>\<open>Wrap k b q\<close>: the generated Encode writes \<open>b\<close> (constructor and own fields), then \<open>q\<close>. A plain
  query is known by its Go type (as \<^verbatim>\<open>%T\<close> prints it) and by what its generated Encode yields.\<close>

datatype rpc_query =
    NilQuery
  | Wrap wrapper bytes rpc_query
  | Plain string "tl_error + bytes"

fun encode_query :: "rpc_query \<Rightarrow> tl_error + bytes" where
  "encode_query NilQuery = Inl ErrNilTLObject"
| "encode_query (Wrap k b q) = (case encode_query q of Inl e \<Rightarrow> Inl e | Inr c \<Rightarrow> Inr (b @ c))"
| "encode_query (Plain t r) = r"

definition InvokeAfterMsgTypeID :: u32 where "InvokeAfterMsgTypeID = 0xcb9f372d"

definition InvokeAfterMsgRequest :: "i64 \<Rightarrow> rpc_query \<Rightarrow> rpc_query" where
  "InvokeAfterMsgRequest msgID q = Wrap InvokeAfterMsg (WriteLong (WriteInt [] InvokeAfterMsgTypeID) msgID) q"

section \<open>Priorities\<close>

datatype priority = PriorityLow | PriorityHigh

text \<open>\<^verbatim>\<open>strings.LastIndex\<close> with the slice after it, \<^verbatim>\<open>TrimPrefix\<close>, \<^verbatim>\<open>TrimSuffix\<close>, \<^verbatim>\<open>HasPrefix\<close>.\<close>

definition after_last_dot :: "string \<Rightarrow> string" where
  "after_last_dot s = rev (takeWhile (\<lambda>c. c \<noteq> CHR ''.'') (rev s))"

definition TrimPrefix :: "string \<Rightarrow> string \<Rightarrow> string" where
  "TrimPrefix s p = (if prefix p s then drop (length p) s else s)"

definition TrimSuffix :: "string \<Rightarrow> string \<Rightarrow> string" where
  "TrimSuffix s p = (if suffix p s then take (length s - length p) s else s)"

definition low_prefixes :: "string list" where
  "low_prefixes =
     [''Upload'', ''MessagesGetDialog'', ''MessagesGetHistory'', ''MessagesSearch'', ''MessagesGetReplies'',
      ''MessagesGetMessagesRange'', ''MessagesGetSearchCounters'', ''MessagesGetExtendedMedia'',
      ''MessagesGetWebPagePreview'']"

definition classifyGoType :: "string \<Rightarrow> priority" where
  "classifyGoType typeStr =
     (let name = TrimPrefix (after_last_dot typeStr) ''*'';
          base = TrimSuffix name ''Request''
      in if list_ex (\<lambda>p. prefix p base) low_prefixes then PriorityLow else PriorityHigh)"

text \<open>The loop of RoutePriority, with the turns it has left.\<close>

fun route_loop :: "nat \<Rightarrow> rpc_query \<Rightarrow> priority" where
  "route_loop 0 q = PriorityHigh"
| "route_loop (Suc n) NilQuery = PriorityHigh"
| "route_loop (Suc n) (Wrap k b q) = route_loop n q"
| "route_loop (Suc n) (Plain t r) = classifyGoType t"

definition RoutePriority :: "rpc_query \<Rightarrow> priority" where
  "RoutePriority query = route_loop 16 query"

text \<open>UnwrapRPCQuery peels fewer helpers than RoutePriority, and without a limit.\<close>

definition session_wrapper :: "wrapper \<Rightarrow> bool" where
  "session_wrapper k \<longleftrightarrow>
     k \<in> {InvokeWithLayer, InitConnection, InvokeAfterMsg, InvokeAfterMsgs, InvokeWithoutUpdates,
           InvokeWithTakeout, InvokeWithBusinessConnection}"

fun UnwrapRPCQuery :: "rpc_query \<Rightarrow> rpc_query" where
  "UnwrapRPCQuery (Wrap k b q) = (if session_wrapper k then UnwrapRPCQuery q else Wrap k b q)"
| "UnwrapRPCQuery q = q"

section \<open>Chains\<close>

type_synonym chains = "(i64 \<times> i64) list"

definition SetChain :: "i64 \<Rightarrow> i64 \<Rightarrow> chains \<Rightarrow> chains" where
  "SetChain msgID chainID cs = AList.update chainID msgID cs"

definition ClearChain :: "i64 \<Rightarrow> chains \<Rightarrow> chains" where
  "ClearChain chainID cs = AList.delete chainID cs"

definition ChainLastMsgID :: "i64 \<Rightarrow> chains \<Rightarrow> i64 \<times> bool" where
  "ChainLastMsgID chainID cs = (case map_of cs chainID of None \<Rightarrow> (0, False) | Some m \<Rightarrow> (m, True))"

definition wrapChain :: "i64 \<Rightarrow> rpc_query \<Rightarrow> chains \<Rightarrow> rpc_query" where
  "wrapChain chainID query cs =
     (case map_of cs chainID of
        None \<Rightarrow> query
      | Some lastMsgID \<Rightarrow> if lastMsgID = 0 then query else InvokeAfterMsgRequest lastMsgID query)"

text \<open>The chain id a context carries: WithChainID leaves the context alone for 0.\<close>

definition WithChainID :: "i64 option \<Rightarrow> i64 \<Rightarrow> i64 option" where
  "WithChainID ctx chainID = (if chainID = 0 then ctx else Some chainID)"

definition ChainIDFromContext :: "i64 option \<Rightarrow> i64 \<times> bool" where
  "ChainIDFromContext ctx = (case ctx of None \<Rightarrow> (0, False) | Some c \<Rightarrow> (c, True))"

section \<open>Facts\<close>

fun wrap_depth :: "rpc_query \<Rightarrow> nat" where
  "wrap_depth (Wrap k b q) = Suc (wrap_depth q)"
| "wrap_depth q = 0"

fun innermost :: "rpc_query \<Rightarrow> rpc_query" where
  "innermost (Wrap k b q) = innermost q"
| "innermost q = q"

lemma route_loop_innermost:
  "route_loop n q = (if wrap_depth q < n then route_loop 1 (innermost q) else PriorityHigh)"
  by (induction n q rule: route_loop.induct) auto

lemma RoutePriority_eq:
  "RoutePriority q =
     (if wrap_depth q < 16 then (case innermost q of Plain t r \<Rightarrow> classifyGoType t | _ \<Rightarrow> PriorityHigh) else PriorityHigh)"
  unfolding RoutePriority_def by (subst route_loop_innermost) (auto split: rpc_query.split)

lemma classify_request:
  assumes "CHR ''.'' \<notin> set name" and "\<not> prefix ''*'' name"
  shows "classifyGoType (''*tg.'' @ name @ ''Request'') =
    (if list_ex (\<lambda>p. prefix p name) low_prefixes then PriorityLow else PriorityHigh)"
proof -
  have dot: "after_last_dot (''*tg.'' @ name @ ''Request'') = name @ ''Request''"
    using assms(1) by (auto simp: after_last_dot_def takeWhile_append)
  have "\<not> prefix ''*'' (name @ ''Request'')"
    using assms(2) by (cases name) auto
  moreover have "suffix ''Request'' (name @ ''Request'')"
    unfolding suffix_def by blast
  ultimately show ?thesis
    unfolding classifyGoType_def dot TrimPrefix_def TrimSuffix_def Let_def by simp
qed

lemma wrapChain_encode:
  assumes "map_of cs c = Some m" and "m \<noteq> 0" and "encode_query q = Inr b"
  shows "encode_query (wrapChain c q cs) = Inr (WriteInt [] InvokeAfterMsgTypeID @ WriteLong [] m @ b)"
  using assms by (simp add: wrapChain_def InvokeAfterMsgRequest_def WriteLong_def)

end
