(* ===== verification/Outbound_Batcher.thy ===== *)
theory Outbound_Batcher
  imports Session_Receive RPC_Queries
begin

text \<open>
  The outbound batcher, \<^verbatim>\<open>src/internal/session/outbound_batcher.go\<close>, and the parts of \<^verbatim>\<open>session.go\<close> it
  shares with Send: the guarded write and the choice of a salt. A sender is the session of the
  receive path together with its key, its transport, its chains and its batcher. What other
  goroutines do while one waits is a function on the sender, part of the \<open>send_world\<close> of the wait.
\<close>

section \<open>The sender\<close>

record batch_item =
  bi_msgID :: i64
  bi_seqNo :: u32
  bi_body :: rpc_query
  bi_bodyRaw :: bytes
  bi_handle :: "nat option"

record batcher =
  ob_maxContainerBytes :: int
  ob_coalesceWindow :: int
  ob_high :: "batch_item list"
  ob_low :: "batch_item list"
  ob_notify :: bool
  ob_done :: bool
  ob_containersSent :: int
  ob_messagesPacked :: int

text \<open>\<open>sd_handed\<close> is a history variable: the ids of the messages handed to the transport's Send, alone
  or in a container, in order.\<close>

record sender =
  sd_sess :: session
  sd_hasAuthKey :: bool
  sd_hasTransport :: bool
  sd_chains :: chains
  sd_batcher :: "batcher option"
  sd_handed :: "i64 list"

datatype wake = WakeDone | WakeCtx session_error | WakeClosed | WakeTimeout

text \<open>One wait: the clock at registration (nanoseconds), what the others do while a fresh salt is awaited and
  the clock (seconds) after that, what they do until the select of waitResponse fires and which case
  it takes, and whether key recovery holds the write gate.\<close>

record send_world =
  sw_nanos :: int
  sw_saltWait :: "sender \<Rightarrow> sender"
  sw_saltNow :: i64
  sw_wake :: "sender \<Rightarrow> wake \<times> sender"
  sw_pfsBusy :: bool

definition on_sess :: "(session \<Rightarrow> session) \<Rightarrow> sender \<Rightarrow> sender" where
  "on_sess f d = d\<lparr>sd_sess := f (sd_sess d)\<rparr>"

abbreviation sd_pending :: "sender \<Rightarrow> pending_manager" where
  "sd_pending d \<equiv> ss_pending (sd_sess d)"

definition on_pm :: "(pending_manager \<Rightarrow> pending_manager) \<Rightarrow> sender \<Rightarrow> sender" where
  "on_pm f d = on_sess (\<lambda>s. s\<lparr>ss_pending := f (ss_pending s)\<rparr>) d"

section \<open>Writing and salts\<close>

text \<open>writeEncryptedImpl with its transport check; \<open>ids\<close> are the messages in the frame.\<close>

definition writeEncrypted :: "env \<Rightarrow> i64 list \<Rightarrow> bytes \<Rightarrow> sender \<Rightarrow> session_error option \<times> sender" where
  "writeEncrypted e ids frame d =
     (case write_admitted (ss_stopping (sd_sess d)) (ss_guards (sd_sess d)) of
        Some err \<Rightarrow> (Some err, d)
      | None \<Rightarrow>
          if \<not> sd_hasTransport d then (Some (Sentinel ErrTransportNotSet), d)
          else if ss_done (sd_sess d) then (Some (Sentinel ErrSessionClosed), d)
          else let (err, s) = writeEncryptedImpl e frame (sd_sess d)
               in (err, d\<lparr>sd_sess := s, sd_handed := sd_handed d @ ids\<rparr>))"

definition GetFutureSaltsTypeID :: u32 where "GetFutureSaltsTypeID = 0xb921bd04"
definition RPCDropAnswerTypeID :: u32 where "RPCDropAnswerTypeID = 0x58e4a740"

definition numFutureSalts :: u32 where "numFutureSalts = 4"

definition sd_sendServiceMessage :: "env \<Rightarrow> bytes \<Rightarrow> sender \<Rightarrow> session_error option \<times> sender" where
  "sd_sendServiceMessage e body d =
     (if ss_done (sd_sess d) then (Some (Sentinel ErrSessionClosed), d)
      else case buildServiceMessage e body (sd_sess d) of
        (None, s) \<Rightarrow> (Some (Wrapped OtherError), d\<lparr>sd_sess := s\<rparr>)
      | (Some frame, s) \<Rightarrow> writeEncrypted e [] frame (d\<lparr>sd_sess := s\<rparr>))"

definition load_salt :: "env \<Rightarrow> sender \<Rightarrow> i64 \<times> sender" where
  "load_salt e d =
     (let (salt, sm) = Salt_Load (salt_now e (sd_sess d)) (ss_saltMgr (sd_sess d))
      in (salt, on_sess (\<lambda>s. s\<lparr>ss_saltMgr := sm\<rparr>) d))"

text \<open>The turns of WaitForValid are among the steps of \<open>sw_saltWait\<close>; its answer is ignored.\<close>

definition ensureFreshSalt :: "env \<Rightarrow> send_world \<Rightarrow> sender \<Rightarrow> i64 \<times> env \<times> sender" where
  "ensureFreshSalt e w d =
     (let (expired, sm) = IsExpired (salt_now e (sd_sess d)) (ss_saltMgr (sd_sess d));
          d1 = on_sess (\<lambda>s. s\<lparr>ss_saltMgr := sm\<rparr>) d
      in if \<not> expired then let (salt, d2) = load_salt e d1 in (salt, e, d2)
         else let d2 = snd (sd_sendServiceMessage e (WriteInt (WriteInt [] GetFutureSaltsTypeID) numFutureSalts) d1);
                  d3 = sw_saltWait w d2;
                  e' = e\<lparr>env_now := sw_saltNow w\<rparr>;
                  (salt, d4) = load_salt e' d3
              in (salt, e', d4))"

text \<open>The salt Send, SendRaw and packAndSend use.\<close>

definition send_salt :: "env \<Rightarrow> send_world \<Rightarrow> sender \<Rightarrow> i64 \<times> env \<times> sender" where
  "send_salt e w d =
     (let (salt, e', d1) = ensureFreshSalt e w d
      in if salt = 0 then let (salt', d2) = load_salt e' d1 in (salt', e', d2) else (salt, e', d1))"

section \<open>The batcher\<close>

definition NewOutboundBatcher :: "int \<Rightarrow> int \<Rightarrow> batcher" where
  "NewOutboundBatcher maxContainerBytes coalesceWindow =
     \<lparr>ob_maxContainerBytes = (if maxContainerBytes \<le> 0 then 2 ^ 20 else maxContainerBytes),
      ob_coalesceWindow = (if coalesceWindow = 0 then 10 * 1000000 else coalesceWindow),
      ob_high = [], ob_low = [], ob_notify = False, ob_done = False, ob_containersSent = 0,
      ob_messagesPacked = 0\<rparr>"

text \<open>The queue and the signal; the send into the one-slot channel leaves it full either way.\<close>

definition ob_enqueue :: "priority \<Rightarrow> batch_item \<Rightarrow> batcher \<Rightarrow> batcher" where
  "ob_enqueue prio it b =
     (if prio = PriorityHigh then b\<lparr>ob_high := ob_high b @ [it], ob_notify := True\<rparr>
      else b\<lparr>ob_low := ob_low b @ [it], ob_notify := True\<rparr>)"

text \<open>Submit on the batcher \<open>b\<close> the caller read from the session.\<close>

definition Submit ::
  "int \<Rightarrow> i64 \<Rightarrow> u32 \<Rightarrow> rpc_query \<Rightarrow> priority \<Rightarrow> batcher \<Rightarrow> sender \<Rightarrow> (session_error + nat) \<times> sender" where
  "Submit nanos msgID seqNo body prio b d =
     (case Register nanos msgID False (sd_pending d) of
        (Inl err, pm) \<Rightarrow> (Inl err, on_pm (\<lambda>_. pm) d)
      | (Inr a, pm) \<Rightarrow>
          (case encode_query body of
             Inl err \<Rightarrow> (Inl (Wrapped (TLError err)), on_pm (\<lambda>_. snd (Cancel msgID pm)) d)
           | Inr bodyRaw \<Rightarrow>
               let pm1 = heap_update a (StoreResendMessage seqNo (Some bodyRaw)) pm;
                   it = \<lparr>bi_msgID = msgID, bi_seqNo = seqNo, bi_body = body, bi_bodyRaw = bodyRaw, bi_handle = Some a\<rparr>
               in if ob_done b
                  then (Inl (Sentinel ErrBatcherClosed), on_pm (\<lambda>_. snd (Cancel msgID pm1)) d)
                  else (Inr a, (on_pm (\<lambda>_. pm1) d)\<lparr>sd_batcher := Some (ob_enqueue prio it b)\<rparr>)))"

text \<open>A message of a batch: id, sequence number, body; MTProtoMessage.Encode and MsgContainer.Encode on them.\<close>

type_synonym batch_msg = "i64 \<times> u32 \<times> rpc_query"

definition batch_msg :: "batch_item \<Rightarrow> batch_msg" where
  "batch_msg it = (bi_msgID it, bi_seqNo it, bi_body it)"

definition encode_batch_msg :: "batch_msg \<Rightarrow> tl_error + bytes" where
  "encode_batch_msg m =
     (case m of (msgID, seqNo, body) \<Rightarrow>
        (case encode_query body of
           Inl e \<Rightarrow> Inl e
         | Inr b \<Rightarrow> Inr (WriteInt (WriteInt (WriteLong [] msgID) seqNo) (word_of_nat (length b)) @ b)))"

fun encode_batch_msgs :: "batch_msg list \<Rightarrow> tl_error + bytes" where
  "encode_batch_msgs [] = Inr []"
| "encode_batch_msgs (m # ms) =
     (case encode_batch_msg m of
        Inl e \<Rightarrow> Inl e
      | Inr b \<Rightarrow> (case encode_batch_msgs ms of Inl e \<Rightarrow> Inl e | Inr bs \<Rightarrow> Inr (b @ bs)))"

definition encode_container :: "batch_msg list \<Rightarrow> tl_error + bytes" where
  "encode_container ms =
     (case encode_batch_msgs ms of
        Inl e \<Rightarrow> Inl e
      | Inr b \<Rightarrow> Inr (WriteInt [] (word_of_nat (length ms)) @ b))"

definition reject_batch :: "session_error \<Rightarrow> batch_msg list \<Rightarrow> sender \<Rightarrow> sender" where
  "reject_batch err msgs d = fold (\<lambda>m. on_pm (\<lambda>pm. snd (Reject (fst m) err pm))) msgs d"

text \<open>The outer message: the only one itself, or a container under a new id that is then tracked.\<close>

definition outer_message :: "env \<Rightarrow> batch_msg list \<Rightarrow> sender \<Rightarrow> (i64 \<times> u32 \<times> (tl_error + bytes)) \<times> sender" where
  "outer_message e msgs d =
     (case msgs of
        [(msgID, seqNo, body)] \<Rightarrow> ((msgID, seqNo, encode_query body), d)
      | _ \<Rightarrow>
          let (msgID, f1) = AllocateMsgID (env_now e) (ss_msgFactory (sd_sess d));
              (seqNo, f2) = AllocateSeqNo False f1
          in ((msgID, seqNo, encode_container msgs),
              on_sess (\<lambda>s. s\<lparr>ss_msgFactory := f2, ss_tracker := TrackContainer msgID (map fst msgs) (ss_tracker s)\<rparr>) d))"

definition count_sent :: "batch_msg list \<Rightarrow> sender \<Rightarrow> sender" where
  "count_sent msgs d = d\<lparr>sd_batcher := map_option (\<lambda>b. b\<lparr>ob_containersSent := ob_containersSent b + 1,
     ob_messagesPacked := ob_messagesPacked b + int (length msgs)\<rparr>) (sd_batcher d)\<rparr>"

definition packAndSend :: "env \<Rightarrow> send_world \<Rightarrow> batch_msg list \<Rightarrow> sender \<Rightarrow> sender" where
  "packAndSend e w msgs d =
     (let (salt, e', d1) = send_salt e w d;
          ((msgID, seqNo, outer), d2) = outer_message e' msgs d1
      in case outer of
           Inl err \<Rightarrow> reject_batch (TLError err) msgs d2
         | Inr raw \<Rightarrow>
             (case env_pack e' msgID seqNo raw salt of
                None \<Rightarrow> reject_batch OtherError msgs d2
              | Some frame \<Rightarrow>
                  (case writeEncrypted e' (map fst msgs) frame d2 of
                     (Some err, d3) \<Rightarrow> reject_batch (Wrapped err) msgs d3
                   | (None, d3) \<Rightarrow> count_sent msgs d3)))"

text \<open>The loop of flush; \<open>send\<close> is packAndSend.\<close>

primrec flush_loop ::
  "int \<Rightarrow> (batch_msg list \<Rightarrow> 's \<Rightarrow> 's) \<Rightarrow> batch_item list \<Rightarrow> batch_msg list \<Rightarrow> int \<Rightarrow> 's \<Rightarrow> 's" where
  "flush_loop mx send [] msgs totalSize st = (if msgs \<noteq> [] then send msgs st else st)"
| "flush_loop mx send (it # its) msgs totalSize st =
     (if bi_handle it = None then flush_loop mx send its msgs totalSize st
      else
        let msg = batch_msg it;
            size = 16 + int (length (bi_bodyRaw it))
        in if totalSize + size > mx \<and> msgs \<noteq> []
           then flush_loop mx send its [msg] size (send msgs st)
           else flush_loop mx send its (msgs @ [msg]) (totalSize + size) st)"

text \<open>\<open>window\<close> is what the others do during the coalescing window; \<open>stopped\<close> that Close ended it.\<close>

definition flush :: "env \<Rightarrow> (batch_msg list \<Rightarrow> send_world) \<Rightarrow> (sender \<Rightarrow> sender) \<Rightarrow> bool \<Rightarrow> sender \<Rightarrow> sender" where
  "flush e ws window stopped d =
     (case sd_batcher d of
        None \<Rightarrow> d
      | Some b0 \<Rightarrow>
          if ob_coalesceWindow b0 > 0 \<and> stopped then window d
          else
            let d1 = (if ob_coalesceWindow b0 > 0 then window d else d)
            in case sd_batcher d1 of
                 None \<Rightarrow> d1
               | Some b \<Rightarrow>
                   flush_loop (ob_maxContainerBytes b) (\<lambda>msgs. packAndSend e (ws msgs) msgs)
                     (ob_high b @ ob_low b) [] 0
                     (d1\<lparr>sd_batcher := Some (b\<lparr>ob_high := [], ob_low := []\<rparr>)\<rparr>))"

text \<open>One turn of flushLoop when the signal is taken.\<close>

definition flushLoop_turn ::
  "env \<Rightarrow> (batch_msg list \<Rightarrow> send_world) \<Rightarrow> (sender \<Rightarrow> sender) \<Rightarrow> bool \<Rightarrow> sender \<Rightarrow> sender" where
  "flushLoop_turn e ws window stopped d =
     (case sd_batcher d of
        None \<Rightarrow> d
      | Some b \<Rightarrow>
          if ob_done b \<or> \<not> ob_notify b then d
          else flush e ws window stopped (d\<lparr>sd_batcher := Some (b\<lparr>ob_notify := False\<rparr>)\<rparr>))"

text \<open>Closing a closed channel panics (\<open>None\<close>).\<close>

definition Batcher_Close :: "batcher \<Rightarrow> batcher option" where
  "Batcher_Close b = (if ob_done b then None else Some (b\<lparr>ob_done := True\<rparr>))"

definition EnableOutboundBatching :: "int \<Rightarrow> int \<Rightarrow> sender \<Rightarrow> sender" where
  "EnableOutboundBatching maxContainerBytes coalesceWindow d =
     (if ss_stopping (sd_sess d) \<or> ss_state (sd_sess d) \<noteq> StateActive \<or> sd_batcher d \<noteq> None then d
      else d\<lparr>sd_batcher := Some (NewOutboundBatcher maxContainerBytes coalesceWindow)\<rparr>)"

definition CloseOutboundBatching :: "sender \<Rightarrow> sender option" where
  "CloseOutboundBatching d =
     (case sd_batcher d of
        None \<Rightarrow> Some d
      | Some b \<Rightarrow> map_option (\<lambda>_. d\<lparr>sd_batcher := None\<rparr>) (Batcher_Close b))"

record outbound_snapshot =
  os_HighDepth :: nat
  os_LowDepth :: nat
  os_ContainersSent :: int
  os_MessagesPacked :: int

definition Batcher_Snapshot :: "batcher \<Rightarrow> outbound_snapshot" where
  "Batcher_Snapshot b =
     \<lparr>os_HighDepth = length (ob_high b), os_LowDepth = length (ob_low b),
      os_ContainersSent = ob_containersSent b, os_MessagesPacked = ob_messagesPacked b\<rparr>"

definition BatcherSnapshot :: "sender \<Rightarrow> outbound_snapshot" where
  "BatcherSnapshot d =
     (case sd_batcher d of
        None \<Rightarrow> \<lparr>os_HighDepth = 0, os_LowDepth = 0, os_ContainersSent = 0, os_MessagesPacked = 0\<rparr>
      | Some b \<Rightarrow> Batcher_Snapshot b)"

section \<open>What the others may do\<close>

text \<open>Steps of other goroutines as far as the calls in \<open>M\<close> are concerned: any operations on the pending table
  except registering or cancelling an id of \<open>M\<close> (only its own caller does that), and any messages
  handed to the transport. Nothing is required of the rest of the sender.\<close>

fun op_spares :: "i64 set \<Rightarrow> pm_op \<Rightarrow> bool" where
  "op_spares M (OpRegister now m isRaw) \<longleftrightarrow> m \<notin> M"
| "op_spares M (OpCancel m) \<longleftrightarrow> m \<notin> M"
| "op_spares M _ \<longleftrightarrow> True"

primrec ops_ok :: "i64 set \<Rightarrow> pending_manager \<Rightarrow> pm_op list \<Rightarrow> bool" where
  "ops_ok M pm [] \<longleftrightarrow> True"
| "ops_ok M pm (op # ops) \<longleftrightarrow> pm_op_fresh pm op \<and> op_spares M op \<and> ops_ok M (pm_exec pm op) ops"

definition others :: "i64 set \<Rightarrow> sender \<Rightarrow> sender \<Rightarrow> bool" where
  "others M d d' \<longleftrightarrow>
     (\<exists>ops. ops_ok M (sd_pending d) ops \<and> sd_pending d' = foldl pm_exec (sd_pending d) ops) \<and>
     (\<exists>ids. sd_handed d' = sd_handed d @ ids)"

definition calm :: "i64 set \<Rightarrow> (sender \<Rightarrow> sender) \<Rightarrow> bool" where
  "calm M f \<longleftrightarrow> (\<forall>d. pm_inv (sd_pending d) \<longrightarrow> others M d (f d))"

lemma ops_ok_append: "ops_ok M pm (xs @ ys) \<longleftrightarrow> ops_ok M pm xs \<and> ops_ok M (foldl pm_exec pm xs) ys"
  by (induction xs arbitrary: pm) auto

lemma others_trans:
  assumes "others M d d'" and "others M d' d''"
  shows "others M d d''"
proof -
  from assms obtain xs ys ids js where
    "ops_ok M (sd_pending d) xs" "sd_pending d' = foldl pm_exec (sd_pending d) xs"
    "ops_ok M (sd_pending d') ys" "sd_pending d'' = foldl pm_exec (sd_pending d') ys"
    "sd_handed d' = sd_handed d @ ids" "sd_handed d'' = sd_handed d' @ js"
    unfolding others_def by blast
  then have "ops_ok M (sd_pending d) (xs @ ys) \<and> sd_pending d'' = foldl pm_exec (sd_pending d) (xs @ ys)"
    "sd_handed d'' = sd_handed d @ ids @ js"
    by (simp_all add: ops_ok_append)
  then show ?thesis unfolding others_def by blast
qed

lemma others_same:
  assumes "sd_pending d' = sd_pending d" and "sd_handed d' = sd_handed d @ ids"
  shows "others M d d'"
proof -
  have "ops_ok M (sd_pending d) [] \<and> sd_pending d' = foldl pm_exec (sd_pending d) []"
    using assms(1) by simp
  then show ?thesis using assms(2) unfolding others_def by blast
qed

lemma others_op:
  assumes "pm_op_fresh (sd_pending d) op" and "op_spares M op"
  shows "others M d (on_pm (\<lambda>pm. pm_exec pm op) d)"
proof -
  have "ops_ok M (sd_pending d) [op] \<and> sd_pending (on_pm (\<lambda>pm. pm_exec pm op) d) = foldl pm_exec (sd_pending d) [op]"
    using assms by (simp add: on_pm_def on_sess_def)
  moreover have "sd_handed (on_pm (\<lambda>pm. pm_exec pm op) d) = sd_handed d @ []"
    by (simp add: on_pm_def on_sess_def)
  ultimately show ?thesis unfolding others_def by blast
qed

lemma ops_ok_inv: "pm_inv pm \<Longrightarrow> ops_ok M pm ops \<Longrightarrow> pm_inv (foldl pm_exec pm ops)"
  by (induction ops arbitrary: pm) (auto intro: pm_inv_exec)

lemma others_inv: "others M d d' \<Longrightarrow> pm_inv (sd_pending d) \<Longrightarrow> pm_inv (sd_pending d')"
  unfolding others_def by (auto intro: ops_ok_inv)

text \<open>A call that is still in the table under its own handle, or is already completed.\<close>

definition tracked :: "i64 \<Rightarrow> nat \<Rightarrow> pending_manager \<Rightarrow> bool" where
  "tracked m a pm \<longleftrightarrow>
     a < length (pm_heap pm) \<and>
     (map_of (pm_pending pm) m = Some a \<or> map_of (pm_pending pm) m = None \<and> ch_done (pm_heap pm ! a))"

lemma pm_inv_handle_inj:
  assumes "pm_inv pm" and "map_of (pm_pending pm) m = Some a" and "map_of (pm_pending pm) m' = Some a"
  shows "m = m'"
proof -
  have "inj_on snd (set (pm_pending pm))"
    using assms(1) by (simp add: pm_inv_def distinct_map)
  from inj_onD [OF this, of "(m, a)" "(m', a)"] assms(2,3) show ?thesis
    by (simp add: map_of_SomeD)
qed

lemma tracked_finish:
  assumes "pm_inv pm" and "tracked m a pm"
  shows "tracked m a (snd (pm_finish fn m' pm))"
proof (cases "map_of (pm_pending pm) m'")
  case (Some a')
  have "a' \<noteq> a" if "m' \<noteq> m" "map_of (pm_pending pm) m = Some a"
    using pm_inv_handle_inj [OF assms(1) Some] that by blast
  moreover have "\<not> ch_done (pm_heap pm ! a')" "a' < length (pm_heap pm)"
    using pm_inv_entry [OF assms(1) Some] by simp_all
  ultimately show ?thesis
    using assms Some
    by (cases "m' = m"; cases "a' = a")
      (auto simp: tracked_def pm_finish_cases Let_def delete_conv')
qed (use assms in \<open>simp add: pm_finish_cases\<close>)

lemma tracked_exec:
  assumes inv: "pm_inv pm" and t: "tracked m a pm" and ok: "op_spares {m} op"
  shows "tracked m a (pm_exec pm op)"
proof (cases op)
  case (OpRPCResult m' data)
  have "ResolveRPCResult m' data pm = (False, snd (ResolveRaw m' data pm)) \<or> snd (ResolveRPCResult m' data pm) = pm"
    using pm_inv_entry [OF inv, of m'] inv
    by (cases "map_of (pm_pending pm) m'")
      (auto simp: ResolveRPCResult_def ResolveRaw_def pm_finish_cases Pending_Calls.complete_def Let_def)
  then show ?thesis
    using t tracked_finish [OF inv t] by (auto simp: OpRPCResult ResolveRaw_def)
next
  case (OpRejectAll e)
  have "a \<in> snd ` set (pm_pending pm)" if "map_of (pm_pending pm) m = Some a"
    using map_of_SomeD [OF that] by force
  moreover have "distinct (map snd (pm_pending pm))"
    using inv by (simp add: pm_inv_def)
  ultimately show ?thesis
    using t run_keeps_done(1) [of a pm "[op]"]
    by (auto simp: OpRejectAll tracked_def RejectAll_def Let_def reject_handles_nth Pending_Calls.complete_def)
qed (use t ok tracked_finish [OF inv t] in
  \<open>auto simp: tracked_def SetMaxPending_def Register_def Let_def Resolve_def ResolveRaw_def Reject_def Cancel_def
     pm_remove_def MarkAcked_def pm_update_def heap_update_def StorePayload_def StoreResendMessage_def
     delete_conv' update_conv' nth_append nth_update_same [where f = ch_done] split: option.splits\<close>)

lemma tracked_others:
  assumes "others M d d'" and "m \<in> M" and "pm_inv (sd_pending d)" and "tracked m a (sd_pending d)"
  shows "tracked m a (sd_pending d')"
proof -
  have "tracked m a (foldl pm_exec pm ops)" if "ops_ok M pm ops" "pm_inv pm" "tracked m a pm" for pm ops
    using that
  proof (induction ops arbitrary: pm)
    case (Cons op ops)
    moreover have "op_spares {m} op"
      using Cons.prems(1) assms(2) by (cases op) auto
    ultimately show ?case
      by (simp add: pm_inv_exec tracked_exec)
  qed simp
  then show ?thesis using assms unfolding others_def by auto
qed

lemma others_done:
  assumes "others M d d'" and "a < length (pm_heap (sd_pending d))" and "ch_done (pm_heap (sd_pending d) ! a)"
  shows "ch_done (pm_heap (sd_pending d') ! a)" and "Result (pm_heap (sd_pending d') ! a) = Result (pm_heap (sd_pending d) ! a)"
  using assms run_keeps_done unfolding others_def by auto

section \<open>The shared steps spare every call\<close>

lemma on_sess_fields [simp]:
  "sd_sess (on_sess f d) = f (sd_sess d)" "sd_handed (on_sess f d) = sd_handed d"
  "sd_batcher (on_sess f d) = sd_batcher d" "sd_chains (on_sess f d) = sd_chains d"
  by (simp_all add: on_sess_def)

lemma on_pm_fields [simp]:
  "sd_pending (on_pm f d) = f (sd_pending d)" "sd_handed (on_pm f d) = sd_handed d"
  "sd_batcher (on_pm f d) = sd_batcher d" "sd_chains (on_pm f d) = sd_chains d"
  by (simp_all add: on_pm_def)

lemma write_pending [simp]:
  "ss_pending (snd (writeEncryptedImpl e frame s)) = ss_pending s"
  "ss_pending (snd (buildServiceMessage e body s)) = ss_pending s"
  by (simp_all add: writeEncryptedImpl_def buildServiceMessage_def case_prod_beta Let_def split: option.split)

lemma writeEncrypted_steps:
  assumes "writeEncrypted e ids frame d = (err, d')"
  shows "sd_pending d' = sd_pending d" "sd_batcher d' = sd_batcher d" "sd_chains d' = sd_chains d"
    and "sd_handed d' = sd_handed d @ (if sd_handed d' = sd_handed d then [] else ids)"
    and "err = None \<Longrightarrow> sd_handed d' = sd_handed d @ ids"
  using assms
  by (auto simp: writeEncrypted_def case_prod_beta Let_def split: option.splits if_splits)

lemma load_salt_fields [simp]:
  "sd_pending (snd (load_salt e d)) = sd_pending d" "sd_handed (snd (load_salt e d)) = sd_handed d"
  "sd_batcher (snd (load_salt e d)) = sd_batcher d" "sd_chains (snd (load_salt e d)) = sd_chains d"
  by (simp_all add: load_salt_def case_prod_beta)

lemma service_fields [simp]:
  "sd_pending (snd (sd_sendServiceMessage e body d)) = sd_pending d"
  "sd_handed (snd (sd_sendServiceMessage e body d)) = sd_handed d"
  "sd_batcher (snd (sd_sendServiceMessage e body d)) = sd_batcher d"
  "sd_chains (snd (sd_sendServiceMessage e body d)) = sd_chains d"
  using write_pending(2) [of e body "sd_sess d"]
  by (auto simp: sd_sendServiceMessage_def writeEncrypted_def case_prod_beta Let_def
      split: option.splits prod.splits)

text \<open>Choosing a salt changes nothing here, or happens around one wait.\<close>

lemma send_salt_cases:
  obtains "sd_pending (snd (snd (send_salt e w d))) = sd_pending d"
      "sd_handed (snd (snd (send_salt e w d))) = sd_handed d"
      "sd_batcher (snd (snd (send_salt e w d))) = sd_batcher d"
      "sd_chains (snd (snd (send_salt e w d))) = sd_chains d"
  | x where "sd_pending x = sd_pending d" "sd_handed x = sd_handed d" "sd_batcher x = sd_batcher d" "sd_chains x = sd_chains d"
      "sd_pending (snd (snd (send_salt e w d))) = sd_pending (sw_saltWait w x)"
      "sd_handed (snd (snd (send_salt e w d))) = sd_handed (sw_saltWait w x)"
      "sd_batcher (snd (snd (send_salt e w d))) = sd_batcher (sw_saltWait w x)"
      "sd_chains (snd (snd (send_salt e w d))) = sd_chains (sw_saltWait w x)"
proof -
  define d1 where "d1 = on_sess (\<lambda>s. s\<lparr>ss_saltMgr := snd (IsExpired (salt_now e (sd_sess d)) (ss_saltMgr (sd_sess d)))\<rparr>) d"
  define x where "x = snd (sd_sendServiceMessage e (WriteInt (WriteInt [] GetFutureSaltsTypeID) numFutureSalts) d1)"
  have x: "sd_pending x = sd_pending d" "sd_handed x = sd_handed d" "sd_batcher x = sd_batcher d" "sd_chains x = sd_chains d"
    by (simp_all add: x_def d1_def)
  show thesis
  proof (cases "fst (IsExpired (salt_now e (sd_sess d)) (ss_saltMgr (sd_sess d)))")
    case True
    show thesis
      by (rule that(2) [OF x])
        (use True in \<open>simp_all add: send_salt_def ensureFreshSalt_def case_prod_beta Let_def flip: d1_def x_def\<close>)
  next
    case False
    show thesis
      by (rule that(1))
        (use False in \<open>simp_all add: send_salt_def ensureFreshSalt_def case_prod_beta Let_def\<close>)
  qed
qed

lemma others_cong:
  "others M x y \<Longrightarrow> sd_pending x = sd_pending d \<Longrightarrow> sd_handed x = sd_handed d \<Longrightarrow>
   sd_pending y = sd_pending d' \<Longrightarrow> sd_handed y = sd_handed d' \<Longrightarrow> others M d d'"
  by (simp add: others_def)

lemma others_send_salt:
  assumes "calm M (sw_saltWait w)" and "pm_inv (sd_pending d)"
  shows "others M d (snd (snd (send_salt e w d)))"
proof (cases rule: send_salt_cases [of e w d])
  case 1
  then show ?thesis by (intro others_same [where ids = "[]"]) simp_all
next
  case (2 x)
  then have "others M x (sw_saltWait w x)" using assms by (simp add: calm_def)
  then show ?thesis by (rule others_cong) (use 2 in simp_all)
qed

lemma others_reject_batch: "others M d (reject_batch err msgs d)"
proof (induction msgs arbitrary: d)
  case (Cons m msgs)
  have "others M d (on_pm (\<lambda>pm. snd (Reject (fst m) err pm)) d)"
    using others_op [of d "OpReject (fst m) err" M] by simp
  then show ?case using Cons by (auto simp: reject_batch_def intro: others_trans)
qed (auto simp: reject_batch_def intro: others_same [where ids = "[]"])

lemma outer_message_fields [simp]:
  "sd_pending (snd (outer_message e msgs d)) = sd_pending d"
  "sd_handed (snd (outer_message e msgs d)) = sd_handed d"
  "sd_batcher (snd (outer_message e msgs d)) = sd_batcher d"
  by (auto simp: outer_message_def case_prod_beta Let_def split: list.split)

lemma count_sent_fields [simp]:
  "sd_sess (count_sent msgs d) = sd_sess d" "sd_handed (count_sent msgs d) = sd_handed d"
  by (simp_all add: count_sent_def)

text \<open>packAndSend ends in one of two ways: the messages were handed over, or all their calls are rejected.\<close>

lemma packAndSend_cases:
  assumes "calm M (sw_saltWait w)" and "pm_inv (sd_pending d)"
  obtains (sent) "others M d (packAndSend e w msgs d)"
      "set (map fst msgs) \<subseteq> set (sd_handed (packAndSend e w msgs d))"
  | (failed) err x where "others M d x" "packAndSend e w msgs d = reject_batch err msgs x"
proof -
  obtain salt e' d1 where s: "send_salt e w d = (salt, e', d1)" by (metis prod_cases3)
  obtain msgID seqNo outer d2 where o: "outer_message e' msgs d1 = ((msgID, seqNo, outer), d2)" by (metis surj_pair)
  have "others M d d1" using others_send_salt [OF assms, of e] s by simp
  moreover have "others M d1 d2"
    using outer_message_fields [of e' msgs d1] o by (intro others_same [where ids = "[]"]) simp_all
  ultimately have d2: "others M d d2" by (rule others_trans)
  show thesis
  proof (cases "\<exists>raw frame. outer = Inr raw \<and> env_pack e' msgID seqNo raw salt = Some frame")
    case True
    then obtain raw frame where f: "outer = Inr raw" "env_pack e' msgID seqNo raw salt = Some frame" by blast
    obtain err d3 where wr: "writeEncrypted e' (map fst msgs) frame d2 = (err, d3)" by fastforce
    note st = writeEncrypted_steps [OF wr]
    have d3: "others M d d3"
      by (rule others_trans [OF d2 others_same [OF st(1) st(4)]])
    show thesis
    proof (cases err)
      case None
      have eq: "packAndSend e w msgs d = count_sent msgs d3"
        using s o f wr None by (simp add: packAndSend_def)
      have "others M d3 (count_sent msgs d3)" by (intro others_same [where ids = "[]"]) simp_all
      then show thesis using sent d3 st(5) [OF None] by (simp add: eq others_trans)
    next
      case (Some err')
      show thesis by (rule failed [OF d3]) (use s o f wr Some in \<open>simp add: packAndSend_def\<close>)
    qed
  next
    case False
    then have "packAndSend e w msgs d = reject_batch (case outer of Inl x \<Rightarrow> TLError x | Inr _ \<Rightarrow> OtherError) msgs d2"
      using s o by (auto simp: packAndSend_def split: sum.splits option.splits)
    then show thesis by (rule failed [OF d2])
  qed
qed

lemma others_packAndSend:
  assumes "calm M (sw_saltWait w)" and "pm_inv (sd_pending d)"
  shows "others M d (packAndSend e w msgs d)"
  by (rule packAndSend_cases [OF assms, of e msgs]) (auto intro: others_trans others_reject_batch)

lemma reject_batch_done:
  assumes "pm_inv (sd_pending d)" and "tracked m a (sd_pending d)" and "m \<in> fst ` set msgs"
  shows "ch_done (pm_heap (sd_pending (reject_batch err msgs d)) ! a)"
  using assms
proof (induction msgs arbitrary: d)
  case (Cons msg msgs)
  let ?d = "on_pm (\<lambda>pm. snd (Reject (fst msg) err pm)) d"
  have step: "others {m} d ?d"
    using others_op [of d "OpReject (fst msg) err" "{m}"] by simp
  note inv = others_inv [OF step Cons.prems(1)]
  have rest: "reject_batch err (msg # msgs) d = reject_batch err msgs ?d" by (simp add: reject_batch_def)
  have tr: "tracked m a (sd_pending ?d)" using tracked_others [OF step _ Cons.prems(1,2)] by simp
  show ?case
  proof (cases "fst msg = m")
    case True
    have "map_of (pm_pending (sd_pending ?d)) m = None"
      using Cons.prems(1) True
      by (cases "map_of (pm_pending (sd_pending d)) m") (simp_all add: Reject_def pm_finish_cases Let_def delete_conv')
    then have "a < length (pm_heap (sd_pending ?d))" "ch_done (pm_heap (sd_pending ?d) ! a)"
      using tr by (auto simp: tracked_def)
    from others_done(1) [OF others_reject_batch this] show ?thesis unfolding rest .
  next
    case False
    then have "m \<in> fst ` set msgs" using Cons.prems(3) by auto
    from Cons.IH [OF inv tr this] show ?thesis unfolding rest .
  qed
qed simp

text \<open>A queued call is settled when its message was handed to the transport or it has failed.\<close>

definition settled :: "i64 \<Rightarrow> nat \<Rightarrow> sender \<Rightarrow> bool" where
  "settled m a d \<longleftrightarrow> m \<in> set (sd_handed d) \<or> ch_done (pm_heap (sd_pending d) ! a)"

lemma settled_others:
  assumes "others M d d'" and "a < length (pm_heap (sd_pending d))" and "settled m a d"
  shows "settled m a d'"
  using assms others_done(1) [OF assms(1,2)] by (auto simp: settled_def others_def)

lemma packAndSend_settles:
  assumes "calm M (sw_saltWait w)" and "pm_inv (sd_pending d)" and "m \<in> M"
    and "tracked m a (sd_pending d)" and "m \<in> fst ` set msgs"
  shows "settled m a (packAndSend e w msgs d)"
proof (rule packAndSend_cases [OF assms(1,2), of e msgs])
  assume "set (map fst msgs) \<subseteq> set (sd_handed (packAndSend e w msgs d))"
  then show ?thesis using assms(5) by (auto simp: settled_def)
next
  fix err x
  assume failed: "others M d x" "packAndSend e w msgs d = reject_batch err msgs x"
  then show ?thesis
    using reject_batch_done [OF others_inv [OF failed(1) assms(2)] tracked_others [OF failed(1) assms(3,2,4)] assms(5)]
    by (simp add: settled_def)
qed

section \<open>Batches\<close>

text \<open>The groups flush sends, cut from the queue as the loop cuts them: \<open>cur\<close> is the group being filled.\<close>

definition item_size :: "batch_item \<Rightarrow> int" where
  "item_size it = 16 + int (length (bi_bodyRaw it))"

definition batch_size :: "batch_item list \<Rightarrow> int" where
  "batch_size its = sum_list (map item_size its)"

primrec batches :: "int \<Rightarrow> batch_item list \<Rightarrow> batch_item list \<Rightarrow> batch_item list list" where
  "batches mx [] cur = (if cur = [] then [] else [cur])"
| "batches mx (it # its) cur =
     (if bi_handle it = None then batches mx its cur
      else if batch_size cur + item_size it > mx \<and> cur \<noteq> [] then cur # batches mx its [it]
      else batches mx its (cur @ [it]))"

text \<open>What makes a grouping a good one: nothing lost, added or reordered; no empty group; no group above the limit
  unless it is a single message; no group that could have taken the next message.\<close>

fun no_room :: "int \<Rightarrow> batch_item list list \<Rightarrow> bool" where
  "no_room mx (g # h # gs) \<longleftrightarrow> batch_size g + item_size (hd h) > mx \<and> no_room mx (h # gs)"
| "no_room mx _ \<longleftrightarrow> True"

definition good_batches :: "int \<Rightarrow> batch_item list \<Rightarrow> batch_item list list \<Rightarrow> bool" where
  "good_batches mx its gs \<longleftrightarrow>
     concat gs = its \<and> [] \<notin> set gs \<and> list_all (\<lambda>g. batch_size g \<le> mx \<or> length g = 1) gs \<and> no_room mx gs"

lemma batches_concat:
  "list_all (\<lambda>it. bi_handle it \<noteq> None) its \<Longrightarrow> concat (batches mx its cur) = cur @ its"
  by (induction its arbitrary: cur) auto

lemma batches_nonempty: "[] \<notin> set (batches mx its cur)"
  by (induction its arbitrary: cur) auto

lemma batches_bounded:
  "batch_size cur \<le> mx \<or> length cur \<le> 1 \<Longrightarrow> list_all (\<lambda>g. batch_size g \<le> mx \<or> length g = 1) (batches mx its cur)"
proof (induction its arbitrary: cur)
  case Nil
  then show ?case by (cases cur) auto
next
  case (Cons it its)
  have "length cur = 1" if "length cur \<le> 1" "cur \<noteq> []"
    using that by (cases cur) auto
  then show ?case
    using Cons.prems Cons.IH [of "cur @ [it]"] Cons.IH [of "[it]"] Cons.IH [of cur]
    by (auto simp: batch_size_def)
qed

lemma batches_head:
  "cur \<noteq> [] \<Longrightarrow> \<exists>g gs. batches mx its cur = g # gs \<and> g \<noteq> [] \<and> hd g = hd cur"
proof (induction its arbitrary: cur)
  case (Cons it its)
  then show ?case using Cons.IH [of "cur @ [it]"] Cons.IH [of cur] by auto
qed auto

lemma batches_no_room: "no_room mx (batches mx its cur)"
proof (induction its arbitrary: cur)
  case (Cons it its)
  then show ?case
    using batches_head [of "[it]" mx its] by (auto simp: Cons.IH) (metis Cons.IH)+
qed auto

lemma batches_good:
  assumes "list_all (\<lambda>it. bi_handle it \<noteq> None) its"
  shows "good_batches mx its (batches mx its [])"
  using batches_concat [OF assms, of mx "[]"] batches_nonempty [of mx its] batches_bounded [of "[]" mx its]
    batches_no_room [of mx its]
  by (simp add: good_batches_def)

lemma flush_loop_batches:
  "flush_loop mx send its (map batch_msg cur) (batch_size cur) st =
     fold (\<lambda>g. send (map batch_msg g)) (batches mx its cur) st"
proof (induction its arbitrary: cur st)
  case (Cons it its)
  then show ?case
    using Cons.IH [of "cur @ [it]" st] Cons.IH [of "[it]" "send (map batch_msg cur) st"]
    by (simp add: batch_size_def item_size_def Let_def)
qed simp

lemma flush_loop_eq:
  "flush_loop mx send its [] 0 st = fold (\<lambda>g. send (map batch_msg g)) (batches mx its []) st"
  using flush_loop_batches [of mx send its "[]" st] by (simp add: batch_size_def)

text \<open>Items as Submit queues them.\<close>

definition item_ok :: "batch_item \<Rightarrow> bool" where
  "item_ok it \<longleftrightarrow> bi_handle it \<noteq> None \<and> encode_query (bi_body it) = Inr (bi_bodyRaw it)"

lemma encode_batch_ok:
  assumes "list_all item_ok g"
  shows "\<exists>raw. encode_batch_msgs (map batch_msg g) = Inr raw \<and> int (length raw) = batch_size g"
  using assms
  by (induction g) (auto simp: item_ok_def batch_msg_def encode_batch_msg_def batch_size_def item_size_def
      WriteInt_def WriteLong_def)

lemma encode_container_ok:
  assumes "list_all item_ok g"
  shows "\<exists>raw. encode_container (map batch_msg g) = Inr raw \<and> int (length raw) = 4 + batch_size g"
  using encode_batch_ok [OF assms] by (auto simp: encode_container_def WriteInt_def)

section \<open>Properties\<close>

text \<open>The queue flush takes: what is there after the coalescing window.\<close>

definition flush_queue :: "(sender \<Rightarrow> sender) \<Rightarrow> sender \<Rightarrow> sender" where
  "flush_queue window d =
     (case sd_batcher d of None \<Rightarrow> d | Some b \<Rightarrow> if ob_coalesceWindow b > 0 then window d else d)"

definition drained :: "sender \<Rightarrow> sender" where
  "drained d = d\<lparr>sd_batcher := map_option (\<lambda>b. b\<lparr>ob_high := [], ob_low := []\<rparr>) (sd_batcher d)\<rparr>"

lemma flush_eq:
  assumes "sd_batcher d \<noteq> None" and "sd_batcher (flush_queue window d) = Some b"
  shows "flush e ws window False d =
    fold (\<lambda>g. packAndSend e (ws (map batch_msg g)) (map batch_msg g))
      (batches (ob_maxContainerBytes b) (ob_high b @ ob_low b) []) (drained (flush_queue window d))"
  using assms by (auto simp: flush_def flush_queue_def flush_loop_eq drained_def split: option.splits)

lemma fold_packAndSend_settles:
  assumes "\<And>msgs. calm M (sw_saltWait (ws msgs))" and "pm_inv (sd_pending d)" and "m \<in> M"
    and "tracked m a (sd_pending d)" and "m \<in> bi_msgID ` set (concat gs)"
  shows "settled m a (fold (\<lambda>g. packAndSend e (ws (map batch_msg g)) (map batch_msg g)) gs d)"
  using assms(2,4,5)
proof (induction gs arbitrary: d)
  case (Cons g gs)
  let ?f = "\<lambda>g. packAndSend e (ws (map batch_msg g)) (map batch_msg g)"
  have step: "others M d (?f g d)" by (rule others_packAndSend [OF assms(1) Cons.prems(1)])
  note inv = others_inv [OF step Cons.prems(1)] and tr = tracked_others [OF step assms(3) Cons.prems(1,2)]
  show ?case
  proof (cases "m \<in> bi_msgID ` set g")
    case True
    then have "m \<in> fst ` set (map batch_msg g)" by (auto simp: batch_msg_def image_image)
    from packAndSend_settles [OF assms(1) Cons.prems(1) assms(3) Cons.prems(2) this]
    have now: "settled m a (?f g d)" .
    have "others M x (fold ?f gs x)" if "pm_inv (sd_pending x)" for x
      using that
    proof (induction gs arbitrary: x)
      case (Cons h hs)
      have "others M x (?f h x)" by (rule others_packAndSend [OF assms(1) Cons.prems])
      then show ?case using Cons.IH Cons.prems by (auto intro: others_trans dest: others_inv)
    qed (auto intro: others_same [where ids = "[]"])
    from settled_others [OF this [OF inv] _ now] show ?thesis using tr by (simp add: tracked_def)
  next
    case False
    then show ?thesis using Cons.IH [OF inv tr] Cons.prems(3) by auto
  qed
qed simp

text \<open>Property C7 (refinement): a flush of the outbound queue sends the high-priority messages, then the low-priority
  ones, in groups that lose, repeat and reorder nothing, are never empty, stay within
  maxContainerBytes unless they are one message, and each of which had no room for the next message;
  the encoded body of a container is at most four bytes (its count) longer than the limit.\<close>

theorem flush_sends_bounded_batches:
  assumes "sd_batcher d \<noteq> None" and "sd_batcher (flush_queue window d) = Some b"
    and "list_all item_ok (ob_high b @ ob_low b)"
  shows "\<exists>gs. good_batches (ob_maxContainerBytes b) (ob_high b @ ob_low b) gs \<and>
    flush e ws window False d =
      fold (\<lambda>g. packAndSend e (ws (map batch_msg g)) (map batch_msg g)) gs (drained (flush_queue window d)) \<and>
    (\<forall>g \<in> set gs. length g > 1 \<longrightarrow>
       (\<exists>raw. encode_container (map batch_msg g) = Inr raw \<and> int (length raw) \<le> ob_maxContainerBytes b + 4))"
proof -
  let ?its = "ob_high b @ ob_low b"
  let ?gs = "batches (ob_maxContainerBytes b) ?its []"
  have good: "good_batches (ob_maxContainerBytes b) ?its ?gs"
    using assms(3) by (intro batches_good) (auto simp: item_ok_def list_all_iff)
  have "\<exists>raw. encode_container (map batch_msg g) = Inr raw \<and> int (length raw) \<le> ob_maxContainerBytes b + 4"
    if g: "g \<in> set ?gs" "length g > 1" for g
  proof -
    have "concat ?gs = ?its" and size: "batch_size g \<le> ob_maxContainerBytes b"
      using good g by (auto simp: good_batches_def list_all_iff)
    then have "set g \<subseteq> set ?its" using g(1) by (metis set_concat UN_upper)
    then have "list_all item_ok g" using assms(3) by (auto simp: list_all_iff)
    from encode_container_ok [OF this] show ?thesis using size by auto
  qed
  then show ?thesis using good flush_eq [OF assms(1,2)] by blast
qed

text \<open>A sender with two queued uploads, and a world in which nobody else does anything.\<close>

definition idle_world :: send_world where
  "idle_world = \<lparr>sw_nanos = 0, sw_saltWait = id, sw_saltNow = 0, sw_wake = (\<lambda>d. (WakeDone, d)), sw_pfsBusy = False\<rparr>"

definition upload_query :: rpc_query where
  "upload_query = Wrap InvokeWithLayer [1, 2, 3, 4] (Plain ''*tg.UploadGetFileRequest'' (Inr [5, 6, 7, 8]))"

definition fresh_sender :: sender where
  "fresh_sender =
     \<lparr>sd_sess = (NewSession 1000)\<lparr>ss_state := StateActive\<rparr>, sd_hasAuthKey = True, sd_hasTransport = True, sd_chains = [],
      sd_batcher = Some (NewOutboundBatcher 40 0), sd_handed = []\<rparr>"

definition two_uploads :: sender where
  "two_uploads =
     (let d1 = snd (Submit 0 4 1 upload_query PriorityLow (NewOutboundBatcher 40 0) fresh_sender)
      in snd (Submit 0 8 3 upload_query PriorityLow (the (sd_batcher d1)) d1))"

definition upload_item :: "i64 \<Rightarrow> u32 \<Rightarrow> nat \<Rightarrow> batch_item" where
  "upload_item m q a =
     \<lparr>bi_msgID = m, bi_seqNo = q, bi_body = upload_query, bi_bodyRaw = [1, 2, 3, 4, 5, 6, 7, 8], bi_handle = Some a\<rparr>"

lemmas two_uploads_unfold = two_uploads_def fresh_sender_def Submit_def Register_def NewSession_def NewPendingManager_def
  upload_query_def Let_def ob_enqueue_def NewOutboundBatcher_def heap_update_def StoreResendMessage_def

lemma two_uploads_eq:
  "sd_batcher two_uploads =
     Some ((NewOutboundBatcher 40 0)\<lparr>ob_low := [upload_item 4 1 0, upload_item 8 3 1], ob_notify := True\<rparr>)"
  "pm_pending (sd_pending two_uploads) = [(4, 0), (8, 1)]"
  "length (pm_heap (sd_pending two_uploads)) = 2"
  "pm_maxPending (sd_pending two_uploads) = 1024"
  by (simp_all add: two_uploads_unfold upload_item_def)

lemma upload_item_ok [simp]: "item_ok (upload_item m q a)"
  by (simp add: item_ok_def upload_item_def upload_query_def)

theorem flush_sends_bounded_batches_witness:
  "\<exists>gs. good_batches 40 [upload_item 4 1 0, upload_item 8 3 1] gs \<and>
     flush (plain_env 1000) (\<lambda>_. idle_world) id False two_uploads =
       fold (\<lambda>g. packAndSend (plain_env 1000) idle_world (map batch_msg g)) gs (drained two_uploads)"
proof -
  have q: "flush_queue id two_uploads = two_uploads" by (simp add: flush_queue_def two_uploads_eq)
  show ?thesis
    using flush_sends_bounded_batches [of two_uploads id _ "plain_env 1000" "\<lambda>_. idle_world", unfolded q, OF _ two_uploads_eq(1)]
    by (simp add: two_uploads_eq NewOutboundBatcher_def) blast
qed

text \<open>Property C8 (liveness): after a flush no queued call is left behind: the message of every queued call was handed
  to the transport, alone or in a container, or the call has been completed, whatever else the
  session does meanwhile and however packing and writing turn out.\<close>

theorem flush_settles_queue:
  assumes "sd_batcher d \<noteq> None" and "sd_batcher (flush_queue window d) = Some b"
    and "list_all item_ok (ob_high b @ ob_low b)"
    and "\<And>msgs. calm (bi_msgID ` set (ob_high b @ ob_low b)) (sw_saltWait (ws msgs))"
    and "pm_inv (sd_pending (flush_queue window d))"
    and "it \<in> set (ob_high b @ ob_low b)" and "bi_handle it = Some a"
    and "tracked (bi_msgID it) a (sd_pending (flush_queue window d))"
  shows "settled (bi_msgID it) a (flush e ws window False d)"
proof -
  have same: "sd_pending (drained x) = sd_pending x" for x by (simp add: drained_def)
  have "concat (batches (ob_maxContainerBytes b) (ob_high b @ ob_low b) []) = ob_high b @ ob_low b"
    using batches_concat [of "ob_high b @ ob_low b" _ "[]"] assms(3) by (auto simp: item_ok_def list_all_iff)
  then show ?thesis
    unfolding flush_eq [OF assms(1,2)]
    using assms(5-8) by (intro fold_packAndSend_settles [OF assms(4)]) (auto simp: same)
qed

lemma two_uploads_inv: "pm_inv (sd_pending two_uploads)"
proof -
  have "sd_pending two_uploads = foldl pm_exec NewPendingManager
      [OpRegister 0 4 False, OpStoreResend 0 1 (Some [1, 2, 3, 4, 5, 6, 7, 8]),
       OpRegister 0 8 False, OpStoreResend 1 3 (Some [1, 2, 3, 4, 5, 6, 7, 8])]"
    by (simp add: two_uploads_unfold)
  moreover have "ops_ok {} NewPendingManager
      [OpRegister 0 4 False, OpStoreResend 0 1 (Some [1, 2, 3, 4, 5, 6, 7, 8]),
       OpRegister 0 8 False, OpStoreResend 1 3 (Some [1, 2, 3, 4, 5, 6, 7, 8])]"
    by (simp add: Pending_Has_def Register_def NewPendingManager_def Let_def heap_update_def)
  ultimately show ?thesis using ops_ok_inv [OF pm_inv_New] by metis
qed

lemma calm_id [simp]: "calm M id"
  by (simp add: calm_def others_same [where ids = "[]"])

theorem flush_settles_queue_witness:
  "settled 8 1 (flush (plain_env 1000) (\<lambda>_. idle_world) id False two_uploads)"
proof -
  have q: "flush_queue id two_uploads = two_uploads" by (simp add: flush_queue_def two_uploads_eq)
  have "tracked 8 1 (sd_pending two_uploads)" by (simp add: tracked_def two_uploads_eq)
  then show ?thesis
    using flush_settles_queue [of two_uploads id _ "\<lambda>_. idle_world" "upload_item 8 3 1" 1 "plain_env 1000", unfolded q,
        OF _ two_uploads_eq(1)]
    by (simp add: two_uploads_eq two_uploads_inv NewOutboundBatcher_def idle_world_def) (simp add: upload_item_def)
qed

text \<open>Cancelling what was just registered only leaves a handle nobody can reach.\<close>

lemma cancel_added:
  assumes "\<not> Pending_Has m pm"
  shows "snd (Cancel m (pm_added m h pm)) = pm\<lparr>pm_heap := pm_heap pm @ [h]\<rparr>"
proof -
  have "m \<notin> fst ` set (pm_pending pm)" using assms by (simp add: Pending_Has_def map_of_eq_None_iff)
  then have "AList.delete m (pm_pending pm @ [(m, length (pm_heap pm))]) = pm_pending pm"
    by (force simp: gm_delete_filter intro!: filter_True)
  moreover have "map_of (pm_pending pm) m = None" using assms by (simp add: Pending_Has_def)
  ultimately show ?thesis
    by (simp add: Cancel_def pm_remove_def pm_added_def map_add_def pm_dec_def)
qed

lemma heap_update_added:
  "ch_isRaw (f h) = ch_isRaw h \<Longrightarrow> heap_update (length (pm_heap pm)) f (pm_added m h pm) = pm_added m (f h) pm"
  by (simp add: heap_update_def pm_added_def)

text \<open>A Submit that fails (too many calls pending, a query that does not encode, a closed batcher)
  leaves no trace: nothing is queued or handed over, and the pending table with its counters and
  handles is as before.\<close>

theorem failed_submit_leaves_no_trace:
  assumes "pm_inv (sd_pending d)" and "\<not> Pending_Has msgID (sd_pending d)"
    and "Submit nanos msgID seqNo body prio b d = (Inl err, d')"
  shows "pm_pending (sd_pending d') = pm_pending (sd_pending d) \<and>
    pm_totalPending (sd_pending d') = pm_totalPending (sd_pending d) \<and>
    pm_rawPending (sd_pending d') = pm_rawPending (sd_pending d) \<and>
    pm_decodedPending (sd_pending d') = pm_decodedPending (sd_pending d) \<and>
    take (length (pm_heap (sd_pending d))) (pm_heap (sd_pending d')) = pm_heap (sd_pending d) \<and>
    sd_batcher d' = sd_batcher d \<and> sd_handed d' = sd_handed d"
proof -
  let ?pm = "sd_pending d"
  have fresh: "pm_inv ?pm" "\<not> Pending_Has msgID ?pm" by fact+
  show ?thesis
  proof (cases "fst (Register nanos msgID False ?pm)")
    case (Inl x)
    then show ?thesis
      using assms(3) by (auto simp: Submit_def Register_def Let_def split: if_splits)
  next
    case (Inr a)
    then have r: "Register nanos msgID False ?pm = (Inr (length (pm_heap ?pm)), pm_added msgID (new_handle False nanos) ?pm)"
      using Register_cases [OF fresh(2), of nanos False] by (auto split: if_splits)
    have "\<exists>h. d' = on_pm (\<lambda>_. ?pm\<lparr>pm_heap := pm_heap ?pm @ [h]\<rparr>) d"
      using assms(3)
      by (auto simp: Submit_def r Let_def cancel_added [OF fresh(2)] heap_update_added StoreResendMessage_def
          split: sum.splits if_splits)
    then show ?thesis by auto
  qed
qed

theorem failed_submit_leaves_no_trace_witness:
  "pm_totalPending (sd_pending (snd (Submit 0 12 5 upload_query PriorityLow
     ((NewOutboundBatcher 40 0)\<lparr>ob_done := True\<rparr>) two_uploads))) = pm_totalPending (sd_pending two_uploads)"
proof -
  let ?b = "(NewOutboundBatcher 40 0)\<lparr>ob_done := True\<rparr>"
  have "\<not> Pending_Has 12 (sd_pending two_uploads)" by (simp add: Pending_Has_def two_uploads_eq)
  moreover have "\<exists>d'. Submit 0 12 5 upload_query PriorityLow ?b two_uploads = (Inl (Sentinel ErrBatcherClosed), d')"
    by (simp add: Submit_def Register_cases Pending_Has_def two_uploads_eq upload_query_def Let_def)
  ultimately show ?thesis
    using failed_submit_leaves_no_trace [OF two_uploads_inv, of 12 0 5 upload_query PriorityLow ?b] by auto
qed

end
