(* ===== verification/Session_Send.thy ===== *)
theory Session_Send
  imports Outbound_Batcher
begin

text \<open>
  Sending one call and waiting for its answer: Send, SendRaw, packAndWrite, waitResponse,
  waitResponseRaw and sendRPCDrop of \<^verbatim>\<open>src/internal/session/session.go\<close>. A Go pair of a result and an
  error is a pair of options. \<open>None\<close> as the outcome of the whole call means that it waits for ever.
\<close>

section \<open>Definitions\<close>

text \<open>A failed write cancels the call and reports that its delivery is not known.\<close>

definition packAndWrite ::
  "env \<Rightarrow> int \<Rightarrow> i64 \<Rightarrow> bytes \<Rightarrow> bool \<Rightarrow> sender \<Rightarrow> (session_error option + nat) \<times> sender" where
  "packAndWrite e nanos msgID encrypted isRaw d =
     (case Register nanos msgID isRaw (sd_pending d) of
        (Inl err, pm) \<Rightarrow> (Inl (Some err), on_pm (\<lambda>_. pm) d)
      | (Inr a, pm) \<Rightarrow>
          (case writeEncrypted e [msgID] encrypted (on_pm (\<lambda>_. heap_update a (StorePayload (Some encrypted)) pm) d) of
             (None, d1) \<Rightarrow> (Inr a, d1)
           | (Some err, d1) \<Rightarrow>
               let d2 = on_pm (\<lambda>pm. snd (Cancel msgID pm)) d1
               in (Inl (deliveryFailure (ch_acked (pm_heap (sd_pending d2) ! a)) (Some err)), d2)))"

text \<open>Best effort: nothing happens when the session is done, packing fails or the write gate is taken.\<close>

definition sendRPCDrop :: "env \<Rightarrow> send_world \<Rightarrow> i64 \<Rightarrow> sender \<Rightarrow> sender" where
  "sendRPCDrop e w reqMsgID d =
     (if ss_done (sd_sess d) then d
      else
        let (msgID, f1) = AllocateMsgID (env_now e) (ss_msgFactory (sd_sess d));
            (seqNo, f2) = AllocateSeqNo False f1;
            d1 = on_sess (\<lambda>s. s\<lparr>ss_msgFactory := f2\<rparr>) d;
            (salt, d2) = load_salt e d1
        in case env_pack e msgID seqNo (WriteLong (WriteInt [] RPCDropAnswerTypeID) reqMsgID) salt of
             None \<Rightarrow> d2
           | Some frame \<Rightarrow> if sw_pfsBusy w then d2 else snd (writeEncrypted e [] frame d2))"

text \<open>What both waits do once the select has fired; \<open>pick\<close> reads the result of the completed handle. After the
  session has closed they wait for the handle a second time, now with nothing else to wake them.\<close>

definition await ::
  "(call_handle \<Rightarrow> 'a option) \<Rightarrow> (sender \<Rightarrow> sender) \<Rightarrow> i64 \<Rightarrow> nat \<Rightarrow> wake \<Rightarrow> sender \<Rightarrow>
   (('a option \<times> session_error option) \<times> sender) option" where
  "await pick dropped msgID a wake d =
     (let h = pm_heap (sd_pending d) ! a
      in case wake of
           WakeDone \<Rightarrow> Some ((pick h, deliveryFailure (ch_acked h) (ch_err h)), d)
         | WakeCtx err \<Rightarrow> Some ((None, Some err), dropped (on_pm (\<lambda>pm. snd (Cancel msgID pm)) d))
         | WakeClosed \<Rightarrow>
             let d1 = on_pm (\<lambda>pm. snd (Reject msgID (Sentinel ErrSessionClosed) pm)) d;
                 h1 = pm_heap (sd_pending d1) ! a
             in if ch_done h1 then Some ((pick h1, deliveryFailure (ch_acked h1) (ch_err h1)), d1) else None
         | WakeTimeout \<Rightarrow>
             Some ((None, deliveryFailure (ch_acked h) (Some (Sentinel ErrSendTimeout))),
                   on_pm (\<lambda>pm. snd (Cancel msgID pm)) d))"

definition waitResponse ::
  "env \<Rightarrow> send_world \<Rightarrow> nat \<Rightarrow> i64 \<Rightarrow> sender \<Rightarrow> ((rpc_value option \<times> session_error option) \<times> sender) option" where
  "waitResponse e w a msgID d =
     (let (wake, d1) = sw_wake w d in await ch_result (sendRPCDrop e w msgID) msgID a wake d1)"

definition waitResponseRaw ::
  "send_world \<Rightarrow> nat \<Rightarrow> i64 \<Rightarrow> sender \<Rightarrow> ((bytes option \<times> session_error option) \<times> sender) option" where
  "waitResponseRaw w a msgID d =
     (let (wake, d1) = sw_wake w d in await ch_rawResult id msgID a wake d1)"

text \<open>The checks Send and SendRaw start with.\<close>

definition send_admitted :: "sender \<Rightarrow> session_error option" where
  "send_admitted d =
     (case checkWrite (ss_stopping (sd_sess d)) (ss_state (sd_sess d)) of
        Some err \<Rightarrow> Some err
      | None \<Rightarrow>
          if \<not> sd_hasAuthKey d then Some (Sentinel ErrAuthKeyNotSet)
          else if \<not> sd_hasTransport d then Some (Sentinel ErrTransportNotSet)
          else None)"

definition Send ::
  "env \<Rightarrow> send_world \<Rightarrow> i64 \<Rightarrow> u32 \<Rightarrow> rpc_query \<Rightarrow> sender \<Rightarrow>
   ((rpc_value option \<times> session_error option) \<times> sender) option" where
  "Send e w msgID seqNo body d =
     (case send_admitted d of
        Some err \<Rightarrow> Some ((None, Some err), d)
      | None \<Rightarrow>
          if sd_batcher d \<noteq> None \<and> RoutePriority body = PriorityLow
          then (case Submit (sw_nanos w) msgID seqNo body PriorityLow (the (sd_batcher d)) d of
                  (Inl err, d1) \<Rightarrow> Some ((None, Some (Wrapped err)), d1)
                | (Inr a, d1) \<Rightarrow> waitResponse e w a msgID d1)
          else
            let (salt, e', d1) = send_salt e w d
            in case encode_query body of
                 Inl err \<Rightarrow> Some ((None, Some (Wrapped (TLError err))), d1)
               | Inr raw \<Rightarrow>
                   (case env_pack e' msgID seqNo raw salt of
                      None \<Rightarrow> Some ((None, Some (Wrapped OtherError)), d1)
                    | Some frame \<Rightarrow>
                        (case packAndWrite e' (sw_nanos w) msgID frame False d1 of
                           (Inl err, d2) \<Rightarrow> Some ((None, map_option Wrapped err), d2)
                         | (Inr a, d2) \<Rightarrow> waitResponse e' w a msgID d2)))"

definition SendRaw ::
  "env \<Rightarrow> send_world \<Rightarrow> i64 \<Rightarrow> u32 \<Rightarrow> bytes \<Rightarrow> sender \<Rightarrow>
   ((bytes option \<times> session_error option) \<times> sender) option" where
  "SendRaw e w msgID seqNo bodyBytes d =
     (case send_admitted d of
        Some err \<Rightarrow> Some ((None, Some err), d)
      | None \<Rightarrow>
          let (salt, e', d1) = send_salt e w d
          in case env_pack e' msgID seqNo bodyBytes salt of
               None \<Rightarrow> Some ((None, Some (Wrapped OtherError)), d1)
             | Some frame \<Rightarrow>
                 (case packAndWrite e' (sw_nanos w) msgID frame True d1 of
                    (Inl err, d2) \<Rightarrow> Some ((None, map_option Wrapped err), d2)
                  | (Inr a, d2) \<Rightarrow> waitResponseRaw w a msgID d2))"

section \<open>Waiting\<close>

text \<open>A world that spares the call \<open>m\<close>: nobody else registers or cancels it, and the select takes the case of the
  completed handle only when the handle is completed.\<close>

definition patient :: "i64 \<Rightarrow> send_world \<Rightarrow> bool" where
  "patient m w \<longleftrightarrow>
     calm {m} (sw_saltWait w) \<and>
     (\<forall>d a. pm_inv (sd_pending d) \<longrightarrow> map_of (pm_pending (sd_pending d)) m = Some a \<longrightarrow>
        others {m} d (snd (sw_wake w d)) \<and>
        (fst (sw_wake w d) = WakeDone \<longrightarrow> ch_done (pm_heap (sd_pending (snd (sw_wake w d))) ! a)))"

text \<open>A result with nothing left behind for \<open>m\<close>.\<close>

definition returns_clean :: "i64 \<Rightarrow> ('r \<times> sender) option \<Rightarrow> bool" where
  "returns_clean m out \<longleftrightarrow>
     (\<exists>r d. out = Some (r, d) \<and> pm_inv (sd_pending d) \<and> \<not> Pending_Has m (sd_pending d))"

lemma returns_clean_now:
  "pm_inv (sd_pending d) \<Longrightarrow> \<not> Pending_Has m (sd_pending d) \<Longrightarrow> returns_clean m (Some (r, d))"
  by (simp add: returns_clean_def)

lemma cancel_gone: "\<not> Pending_Has m (snd (Cancel m pm))"
  by (simp add: Cancel_def pm_remove_def Pending_Has_def delete_conv' split: option.split)

lemma reject_gone: "pm_inv pm \<Longrightarrow> \<not> Pending_Has m (snd (Reject m err pm))"
  by (simp add: Reject_def pm_finish_cases Pending_Has_def delete_conv' Let_def split: option.split)

lemma tracked_done:
  "pm_inv pm \<Longrightarrow> tracked m a pm \<Longrightarrow> ch_done (pm_heap pm ! a) \<longleftrightarrow> \<not> Pending_Has m pm"
  by (auto simp: tracked_def Pending_Has_def dest: pm_inv_entry(3))

lemma await_returns:
  assumes inv: "pm_inv (sd_pending d)" and t: "tracked m a (sd_pending d)"
    and ready: "wake = WakeDone \<Longrightarrow> ch_done (pm_heap (sd_pending d) ! a)"
    and dropped: "\<And>x. sd_pending (dropped x) = sd_pending x"
  shows "returns_clean m (await pick dropped m a wake d)"
proof (cases wake)
  case WakeClosed
  let ?pm = "snd (Reject m (Sentinel ErrSessionClosed) (sd_pending d))"
  have rinv: "pm_inv ?pm" using pm_inv_exec [OF inv, of "OpReject m (Sentinel ErrSessionClosed)"] by simp
  moreover have "tracked m a ?pm" using tracked_exec [OF inv t, of "OpReject m (Sentinel ErrSessionClosed)"] by simp
  ultimately have "ch_done (pm_heap ?pm ! a)" using tracked_done reject_gone [OF inv] by blast
  then show ?thesis
    using rinv reject_gone [OF inv] by (simp add: WakeClosed await_def returns_clean_def Let_def)
qed (use inv t ready tracked_done [OF inv t] cancel_gone [of m "sd_pending d"] pm_inv_Cancel [OF inv, of m] in
  \<open>simp_all add: await_def returns_clean_def Let_def dropped\<close>)

lemma writeEncrypted_service [simp]:
  "sd_pending (snd (writeEncrypted e [] frame d)) = sd_pending d" "sd_handed (snd (writeEncrypted e [] frame d)) = sd_handed d"
  "sd_batcher (snd (writeEncrypted e [] frame d)) = sd_batcher d" "sd_chains (snd (writeEncrypted e [] frame d)) = sd_chains d"
  by (simp_all add: writeEncrypted_def case_prod_beta Let_def split: option.split)

lemma sendRPCDrop_fields [simp]:
  "sd_pending (sendRPCDrop e w m d) = sd_pending d" "sd_handed (sendRPCDrop e w m d) = sd_handed d"
  "sd_batcher (sendRPCDrop e w m d) = sd_batcher d" "sd_chains (sendRPCDrop e w m d) = sd_chains d"
  by (simp_all add: sendRPCDrop_def case_prod_beta Let_def split: option.split)

lemma wait_returns:
  assumes "patient m w" and inv: "pm_inv (sd_pending d)" and e: "map_of (pm_pending (sd_pending d)) m = Some a"
    and dropped: "\<And>x. sd_pending (dropped x) = sd_pending x"
  shows "returns_clean m (await pick dropped m a (fst (sw_wake w d)) (snd (sw_wake w d)))"
proof -
  have o: "others {m} d (snd (sw_wake w d))"
    and ready: "fst (sw_wake w d) = WakeDone \<Longrightarrow> ch_done (pm_heap (sd_pending (snd (sw_wake w d))) ! a)"
    using assms by (auto simp: patient_def)
  have "tracked m a (sd_pending d)" using e pm_inv_entry(1) [OF inv e] by (simp add: tracked_def)
  with tracked_others [OF o _ inv] have "tracked m a (sd_pending (snd (sw_wake w d)))" by simp
  from await_returns [OF others_inv [OF o inv] this ready dropped] show ?thesis .
qed

section \<open>Sending\<close>

lemma pending_added: "\<not> Pending_Has m pm \<Longrightarrow> map_of (pm_pending (pm_added m h pm)) m = Some (length (pm_heap pm))"
  by (simp add: pm_added_def Pending_Has_def map_add_def)

lemma new_handle_live [simp]:
  "handle_live (StorePayload p (new_handle r n))" "handle_live (StoreResendMessage q b (new_handle r n))"
  "ch_isRaw (StorePayload p h) = ch_isRaw h" "ch_isRaw (StoreResendMessage q b h) = ch_isRaw h"
  by (simp_all add: handle_live_def Result_def StorePayload_def StoreResendMessage_def new_handle_def)

lemma packAndWrite_cases:
  assumes inv: "pm_inv (sd_pending d)" and new: "\<not> Pending_Has m (sd_pending d)"
  shows "(\<exists>err d'. packAndWrite e n m frame isRaw d = (Inl err, d') \<and> pm_inv (sd_pending d') \<and> \<not> Pending_Has m (sd_pending d')) \<or>
    (\<exists>a d'. packAndWrite e n m frame isRaw d = (Inr a, d') \<and> pm_inv (sd_pending d') \<and>
       map_of (pm_pending (sd_pending d')) m = Some a)"
proof (cases "fst (Register n m isRaw (sd_pending d))")
  case (Inl x)
  then have "Register n m isRaw (sd_pending d) = (Inl x, sd_pending d)"
    by (auto simp: Register_cases [OF new] split: if_splits)
  then show ?thesis using inv new by (simp add: packAndWrite_def)
next
  case (Inr x)
  let ?pm = "pm_added m (StorePayload (Some frame) (new_handle isRaw n)) (sd_pending d)"
  obtain err d1 where wr: "writeEncrypted e [m] frame (on_pm (\<lambda>_. ?pm) d) = (err, d1)" by fastforce
  have "pm_inv ?pm" using pm_inv_added [OF inv new] by simp
  with writeEncrypted_steps(1) [OF wr] have 1: "sd_pending d1 = ?pm" "pm_inv (sd_pending d1)" by simp_all
  have "Register n m isRaw (sd_pending d) = (Inr (length (pm_heap (sd_pending d))), pm_added m (new_handle isRaw n) (sd_pending d))"
    using Inr by (auto simp: Register_cases [OF new] split: if_splits)
  then have eq: "packAndWrite e n m frame isRaw d =
     (case err of None \<Rightarrow> (Inr (length (pm_heap (sd_pending d))), d1)
      | Some x \<Rightarrow> let d2 = on_pm (\<lambda>pm. snd (Cancel m pm)) d1
          in (Inl (deliveryFailure (ch_acked (pm_heap (sd_pending d2) ! length (pm_heap (sd_pending d)))) (Some x)), d2))"
    using wr by (simp add: packAndWrite_def heap_update_added split: option.split)
  show ?thesis
    using 1 cancel_gone [of m ?pm] pm_inv_Cancel [OF 1(2), of m] pending_added [OF new]
    by (cases err) (simp_all add: eq Let_def)
qed

lemma others_new: "others {m} d d' \<Longrightarrow> \<not> Pending_Has m (sd_pending d) \<Longrightarrow> \<not> Pending_Has m (sd_pending d')"
proof -
  have "\<not> Pending_Has m (foldl pm_exec pm ops)" if "ops_ok {m} pm ops" "\<not> Pending_Has m pm" for pm ops
    using that
  proof (induction ops arbitrary: pm)
    case (Cons op ops)
    have "\<not> Pending_Has m (pm_exec pm op)"
      using Cons.prems
      by (cases op)
        (auto simp: Pending_Has_def SetMaxPending_def Register_def Let_def Resolve_def ResolveRaw_def Reject_def
          pm_finish_def ResolveRPCResult_def Cancel_def pm_remove_def RejectAll_def MarkAcked_def pm_update_def heap_update_def
          update_conv' delete_conv' case_prod_beta split: option.splits if_splits)
    then show ?case using Cons by simp
  qed simp
  then show "others {m} d d' \<Longrightarrow> \<not> Pending_Has m (sd_pending d) \<Longrightarrow> \<not> Pending_Has m (sd_pending d')"
    unfolding others_def by auto
qed

lemma write_and_wait_returns:
  assumes "patient m w" and "pm_inv (sd_pending d)" and "\<not> Pending_Has m (sd_pending d)"
    and "\<And>x. sd_pending (dropped x) = sd_pending x"
  shows "returns_clean m
    (case packAndWrite e n m frame isRaw d of
       (Inl err, d2) \<Rightarrow> Some ((None, map_option Wrapped err), d2)
     | (Inr a, d2) \<Rightarrow> await pick dropped m a (fst (sw_wake w d2)) (snd (sw_wake w d2)))"
  using packAndWrite_cases [OF assms(2,3), of e n frame isRaw]
proof (elim disjE exE conjE)
  fix a d' assume "packAndWrite e n m frame isRaw d = (Inr a, d')" "pm_inv (sd_pending d')"
    "map_of (pm_pending (sd_pending d')) m = Some a"
  then show ?thesis using wait_returns [OF assms(1) _ _ assms(4)] by simp
qed (simp add: returns_clean_def)

lemma after_salt:
  assumes "patient m w" and "pm_inv (sd_pending d)" and "\<not> Pending_Has m (sd_pending d)"
  shows "pm_inv (sd_pending (snd (snd (send_salt e w d))))" and "\<not> Pending_Has m (sd_pending (snd (snd (send_salt e w d))))"
  using others_send_salt [of "{m}" w d e] assms others_inv others_new by (auto simp: patient_def)

lemma Submit_cases:
  assumes inv: "pm_inv (sd_pending d)" and new: "\<not> Pending_Has m (sd_pending d)"
  shows "(\<exists>err d'. Submit n m q body prio b d = (Inl err, d') \<and> pm_inv (sd_pending d') \<and> \<not> Pending_Has m (sd_pending d')) \<or>
    (\<exists>a d'. Submit n m q body prio b d = (Inr a, d') \<and> pm_inv (sd_pending d') \<and>
       map_of (pm_pending (sd_pending d')) m = Some a)"
proof (cases "fst (Register n m False (sd_pending d))")
  case (Inl x)
  then have "Register n m False (sd_pending d) = (Inl x, sd_pending d)"
    by (auto simp: Register_cases [OF new] split: if_splits)
  then show ?thesis using inv new by (simp add: Submit_def)
next
  case (Inr x)
  then have r: "Register n m False (sd_pending d) = (Inr (length (pm_heap (sd_pending d))), pm_added m (new_handle False n) (sd_pending d))"
    by (auto simp: Register_cases [OF new] split: if_splits)
  have "handle_live (new_handle False n)" by (simp add: handle_live_def Result_def new_handle_def)
  from pm_inv_Cancel [OF pm_inv_added [OF inv new this]] pm_inv_Cancel [OF pm_inv_added [OF inv new new_handle_live(2)]]
    pm_inv_added [OF inv new new_handle_live(2)]
  show ?thesis
    by (cases "encode_query body"; cases "ob_done b")
      (simp_all add: Submit_def r Let_def heap_update_added cancel_gone pending_added [OF new])
qed

text \<open>Property C6 (liveness): Send and SendRaw return, for every message id that is not pending yet and whatever the other
  goroutines do meanwhile as long as they leave this call to its caller: a refusal, a failed write, an
  answer, a cancelled context, a timeout and a closing session all end the wait, and none of them
  leaves the call in the pending table.\<close>

theorem send_returns_and_cleans_up:
  assumes "pm_inv (sd_pending d)" and "\<not> Pending_Has msgID (sd_pending d)" and "patient msgID w"
  shows "returns_clean msgID (Send e w msgID seqNo body d) \<and> returns_clean msgID (SendRaw e w msgID seqNo raw d)"
proof
  obtain salt e' d1 where s: "send_salt e w d = (salt, e', d1)" by (metis prod_cases3)
  note d1 = after_salt [OF assms(3,1,2), of e, unfolded s, simplified]
  note refuse = returns_clean_now [OF assms(1,2)] returns_clean_now [OF d1]
  show "returns_clean msgID (SendRaw e w msgID seqNo raw d)"
    using write_and_wait_returns [OF assms(3) d1, where dropped = id and pick = ch_rawResult and e = e' and isRaw = True] refuse
    by (auto simp: SendRaw_def s waitResponseRaw_def case_prod_beta split: option.split cong: sum.case_cong)
  have "returns_clean msgID
      (case Submit (sw_nanos w) msgID seqNo body PriorityLow b d of
         (Inl err, d1) \<Rightarrow> Some ((None, Some (Wrapped err)), d1)
       | (Inr a, d1) \<Rightarrow> waitResponse e w a msgID d1)" for b
    using Submit_cases [OF assms(1,2), of "sw_nanos w" seqNo body PriorityLow b]
  proof (elim disjE exE conjE)
    fix a d' assume "Submit (sw_nanos w) msgID seqNo body PriorityLow b d = (Inr a, d')" "pm_inv (sd_pending d')"
      "map_of (pm_pending (sd_pending d')) msgID = Some a"
    then show ?thesis
      using wait_returns [OF assms(3) _ _ sendRPCDrop_fields(1)] by (simp add: waitResponse_def case_prod_beta)
  qed (simp add: returns_clean_def)
  moreover have "returns_clean msgID
      (case packAndWrite e' (sw_nanos w) msgID frame False d1 of
         (Inl err, d2) \<Rightarrow> Some ((None, map_option Wrapped err), d2)
       | (Inr a, d2) \<Rightarrow> waitResponse e' w a msgID d2)" for frame
    using write_and_wait_returns [OF assms(3) d1, where dropped = "sendRPCDrop e' w msgID" and pick = ch_result and e = e'
        and isRaw = False] by (simp add: waitResponse_def case_prod_beta cong: sum.case_cong)
  ultimately show "returns_clean msgID (Send e w msgID seqNo body d)"
    by (cases "encode_query body") (simp_all add: Send_def s refuse split: option.split)
qed

definition timeout_world :: send_world where
  "timeout_world = idle_world\<lparr>sw_wake := \<lambda>d. (WakeTimeout, d)\<rparr>"

lemma patient_timeout: "patient m timeout_world"
proof -
  have "others {m} d d" for d by (intro others_same [where ids = "[]"]) simp_all
  then show ?thesis by (simp add: patient_def timeout_world_def idle_world_def)
qed

theorem send_returns_and_cleans_up_witness:
  "returns_clean 12 (Send (plain_env 1000) timeout_world 12 5 upload_query two_uploads) \<and>
   returns_clean 12 (SendRaw (plain_env 1000) timeout_world 12 5 [1, 2, 3, 4] two_uploads)"
proof -
  have "\<not> Pending_Has 12 (sd_pending two_uploads)" by (simp add: Pending_Has_def two_uploads_eq)
  from send_returns_and_cleans_up [OF two_uploads_inv this patient_timeout] show ?thesis .
qed

text \<open>A message that may still reach the server: handed to the transport, or in the batcher's queue.\<close>

definition committed :: "i64 \<Rightarrow> sender \<Rightarrow> bool" where
  "committed m d \<longleftrightarrow>
     m \<in> set (sd_handed d) \<or>
     (\<exists>b. sd_batcher d = Some b \<and> m \<in> bi_msgID ` set (ob_high b @ ob_low b))"

lemma committed_cong: "sd_handed d = sd_handed d' \<Longrightarrow> sd_batcher d = sd_batcher d' \<Longrightarrow> committed m d = committed m d'"
  by (simp add: committed_def)

lemma committed_on_pm [simp]: "committed m (on_pm f d) = committed m d"
  by (simp add: committed_def)

text \<open>Errors that tell the caller what is known about the delivery.\<close>

definition delivery_known :: "session_error \<Rightarrow> bool" where
  "delivery_known err \<longleftrightarrow> errors_as_delivery err \<or> errors_is err ErrMsgNotReceived \<or> errors_is err ErrRPCDropped"

lemma deliveryFailure_known: "deliveryFailure acked e = Some err \<Longrightarrow> delivery_known err"
  by (auto simp: deliveryFailure_def delivery_known_def split: option.splits if_splits)

lemma delivery_known_Wrapped [simp]: "delivery_known (Wrapped err) = delivery_known err"
  by (simp add: delivery_known_def)

lemma await_error:
  assumes "await pick dropped m a wk d = Some ((r, Some err), d')"
  shows "delivery_known err \<or> wk = WakeCtx err"
  using assms
  by (auto simp: await_def Let_def split: wake.splits if_splits dest!: deliveryFailure_known intro: deliveryFailure_known)

lemma packAndWrite_error:
  assumes "packAndWrite e n m frame isRaw d = (Inl (Some err), d')"
  shows "delivery_known err \<or> committed m d' = committed m d"
  using assms
  by (auto simp: packAndWrite_def Let_def split: sum.splits prod.splits option.splits
      intro: deliveryFailure_known dest: sym)

lemma Submit_error:
  assumes "Submit n m q body prio b d = (Inl err, d')"
  shows "committed m d' = committed m d"
  using assms by (intro committed_cong) (auto simp: Submit_def Let_def split: sum.splits prod.splits if_splits)

lemma send_salt_uncommitted:
  assumes "\<And>x. \<not> committed m x \<Longrightarrow> \<not> committed m (sw_saltWait w x)" and "\<not> committed m d"
  shows "\<not> committed m (snd (snd (send_salt e w d)))"
proof (cases rule: send_salt_cases [of e w d])
  case 1
  then show ?thesis using assms(2) committed_cong by metis
next
  case (2 x)
  then show ?thesis using assms committed_cong [of x d m] committed_cong [of "snd (snd (send_salt e w d))" "sw_saltWait w x" m]
    by simp
qed

lemma write_and_wait_error:
  assumes "(case packAndWrite e n m frame isRaw d of
       (Inl err, d2) \<Rightarrow> Some ((None, map_option Wrapped err), d2)
     | (Inr a, d2) \<Rightarrow> await pick dropped m a (fst (sw_wake w d2)) (snd (sw_wake w d2))) = Some ((r, Some err), d')"
    and "\<not> committed m d"
  shows "delivery_known err \<or> (\<exists>x. fst (sw_wake w x) = WakeCtx err) \<or> \<not> committed m d'"
  using assms
  by (auto split: prod.splits sum.splits dest: packAndWrite_error await_error)

lemma Send_error:
  assumes "Send e w m q body d = Some ((res, Some err), d')" and "\<not> committed m d"
    and "\<And>x. \<not> committed m x \<Longrightarrow> \<not> committed m (sw_saltWait w x)"
  shows "delivery_known err \<or> (\<exists>x. fst (sw_wake w x) = WakeCtx err) \<or> \<not> committed m d'"
proof -
  obtain salt e' d1 where s: "send_salt e w d = (salt, e', d1)" by (metis prod_cases3)
  have d1: "\<not> committed m d1" using send_salt_uncommitted [OF assms(3,2), of e] s by simp
  have direct: ?thesis if "(case packAndWrite e' (sw_nanos w) m frame False d1 of
       (Inl err, d2) \<Rightarrow> Some ((None, map_option Wrapped err), d2)
     | (Inr a, d2) \<Rightarrow> waitResponse e' w a m d2) = Some ((res, Some err), d')" for frame
    by (rule write_and_wait_error [OF _ d1, where dropped = "sendRPCDrop e' w m" and pick = ch_result and frame = frame and e = e'
          and n = "sw_nanos w" and isRaw = False and r = res])
      (use that in \<open>simp add: waitResponse_def case_prod_beta cong: sum.case_cong\<close>)
  have batched: ?thesis if "(case Submit (sw_nanos w) m q body PriorityLow b d of
         (Inl err, d1) \<Rightarrow> Some ((None, Some (Wrapped err)), d1)
       | (Inr a, d1) \<Rightarrow> waitResponse e w a m d1) = Some ((res, Some err), d')" for b
    using that assms(2)
    by (auto simp: waitResponse_def split: prod.splits sum.splits dest: Submit_error dest!: await_error intro: prod.collapse)
      (metis fst_conv)
  show ?thesis
    using assms(1,2) d1 direct batched
    by (cases "encode_query body") (auto simp: Send_def s split: option.splits if_splits)
qed

lemma SendRaw_error:
  assumes "SendRaw e w m q raw d = Some ((res, Some err), d')" and "\<not> committed m d"
    and "\<And>x. \<not> committed m x \<Longrightarrow> \<not> committed m (sw_saltWait w x)"
  shows "delivery_known err \<or> (\<exists>x. fst (sw_wake w x) = WakeCtx err) \<or> \<not> committed m d'"
proof -
  obtain salt e' d1 where s: "send_salt e w d = (salt, e', d1)" by (metis prod_cases3)
  have d1: "\<not> committed m d1" using send_salt_uncommitted [OF assms(3,2), of e] s by simp
  have raw: ?thesis if "(case packAndWrite e' (sw_nanos w) m frame True d1 of
       (Inl err, d2) \<Rightarrow> Some ((None, map_option Wrapped err), d2)
     | (Inr a, d2) \<Rightarrow> waitResponseRaw w a m d2) = Some ((res, Some err), d')" for frame
    by (rule write_and_wait_error [OF _ d1, where dropped = id and pick = ch_rawResult and frame = frame and e = e'
          and n = "sw_nanos w" and isRaw = True and r = res])
      (use that in \<open>simp add: waitResponseRaw_def case_prod_beta cong: sum.case_cong\<close>)
  show ?thesis using assms(1,2) d1 raw by (auto simp: SendRaw_def s split: option.splits)
qed



text \<open>The wait after the session has closed has no way out but the handle. A call whose table entry was replaced by a
  second registration of its id (\<open>duplicate_register_loses_handle\<close>) never gets out of it.\<close>

lemma replaced_call_waits_for_ever:
  assumes "orphan a (sd_pending d)"
  shows "await pick dropped m a WakeClosed d = None"
  using orphan_finish [OF assms] by (simp add: await_def Let_def Reject_def orphan_def)

end
