(* ===== verification/Session_Invoke.thy ===== *)
theory Session_Invoke
  imports Session_Send RPC_Errors
begin

text \<open>
  Calls with retries: Invoke, InvokeRaw, InvokeChained, checkRawRPCError and DropRPC of
  \<^verbatim>\<open>src/internal/session/session.go\<close> and \<^verbatim>\<open>chain.go\<close>. The outcomes of the waits, the state of the context and the
  rebinding of a temporary key (\<^verbatim>\<open>recoverPFSBinding\<close>) are given per attempt. A loop gets the number of
  turns it may take; \<open>NotYet\<close> is a loop that has not returned within them. The trace lists
  the attempts made: id, query, sender before and after, and what Send returned.
\<close>

section \<open>Server errors in answers\<close>

text \<open>The code points of a byte string, as Go's range over a string decodes UTF-8; an invalid byte is U+FFFD.\<close>

definition is_cont :: "int \<Rightarrow> int \<Rightarrow> int \<Rightarrow> bool" where
  "is_cont lo hi b \<longleftrightarrow> lo \<le> b \<and> b \<le> hi"

fun decode_rune :: "int list \<Rightarrow> int \<times> nat" where
  "decode_rune [] = (0xFFFD, 1)"
| "decode_rune (b0 # bs) =
     (if b0 < 0x80 then (b0, 1)
      else
        let b1 = (case bs of b # _ \<Rightarrow> b | [] \<Rightarrow> 0);
            b2 = (case bs of _ # b # _ \<Rightarrow> b | _ \<Rightarrow> 0);
            b3 = (case bs of _ # _ # b # _ \<Rightarrow> b | _ \<Rightarrow> 0);
            lo = (if b0 = 0xE0 then 0xA0 else if b0 = 0xF0 then 0x90 else 0x80);
            hi = (if b0 = 0xED then 0x9F else if b0 = 0xF4 then 0x8F else 0xBF)
        in if 0xC2 \<le> b0 \<and> b0 \<le> 0xDF \<and> is_cont 0x80 0xBF b1 then ((b0 - 0xC0) * 64 + (b1 - 0x80), 2)
           else if 0xE0 \<le> b0 \<and> b0 \<le> 0xEF \<and> is_cont lo hi b1 \<and> is_cont 0x80 0xBF b2
           then ((b0 - 0xE0) * 4096 + (b1 - 0x80) * 64 + (b2 - 0x80), 3)
           else if 0xF0 \<le> b0 \<and> b0 \<le> 0xF4 \<and> is_cont lo hi b1 \<and> is_cont 0x80 0xBF b2 \<and> is_cont 0x80 0xBF b3
           then ((b0 - 0xF0) * 262144 + (b1 - 0x80) * 4096 + (b2 - 0x80) * 64 + (b3 - 0x80), 4)
           else (0xFFFD, 1))"

function runes :: "int list \<Rightarrow> int list" where
  "runes [] = []"
| "runes (b # bs) = fst (decode_rune (b # bs)) # runes (drop (snd (decode_rune (b # bs)) - 1) bs)"
  by pat_completeness auto
termination by (relation "measure length") auto

definition RPCErrorTypeID :: u32 where "RPCErrorTypeID = 0x2144ca19"

definition DecodeRPCError :: "(int \<times> bytes) rd" where
  "DecodeRPCError = rd_bind ReadUint32 (\<lambda>code. rd_bind ReadString (\<lambda>msg. rd_return (sint code, msg)))"

definition server_error :: "(int \<Rightarrow> bool) \<Rightarrow> int \<times> bytes \<Rightarrow> tg_error" where
  "server_error uni ce = tgerr_New uni (fst ce) (runes (map uint (snd ce)))"

text \<open>The type assertions Invoke makes on an answer: \<^verbatim>\<open>*tg.RPCError\<close> and \<^verbatim>\<open>tg.BadMsgNotificationClass\<close>.\<close>

datatype answer_view = AnswerBadMsg u32 | AnswerBadSalt u32 | AnswerError int bytes | AnswerOther

definition answer_view :: "rpc_value option \<Rightarrow> answer_view" where
  "answer_view obj =
     (case obj of
        Some (ResultBadMsg m q code) \<Rightarrow> AnswerBadMsg code
      | Some (ResultBadSalt m q code salt) \<Rightarrow> AnswerBadSalt code
      | Some (ResultObject (Generated c p)) \<Rightarrow>
          if c = BadMsgNotificationTypeID then AnswerBadMsg (u32_at p 12)
          else if c = BadServerSaltTypeID then AnswerBadSalt (u32_at p 12)
          else if c = RPCErrorTypeID
          then (case fst (DecodeRPCError (NewReader p)) of Inr (code, msg) \<Rightarrow> AnswerError code msg | Inl _ \<Rightarrow> AnswerOther)
          else AnswerOther
      | _ \<Rightarrow> AnswerOther)"

section \<open>Calls and attempts\<close>

datatype invoke_error =
    SessErr session_error
  | SendFailed session_error
  | PrepareFailed session_error
  | RebindFailed session_error
  | BadMessage i64 u32
  | BadServerSalt i64 u32
  | ServerError tg_error
  | ClosedBy tg_error
  | ChainWaitFailed
  | ConnectionNotInited
  | TimestampOutdated
  | KeyRebound
  | ResultTooShort nat
  | EncodeFailed tl_error
  | Exhausted int "invoke_error option"

text \<open>\<open>cl_prepare\<close>: prepareForMessageID, for queries that are bound to the message id.\<close>

record rpc_call =
  cl_query :: rpc_query
  cl_prepare :: "(i64 \<Rightarrow> session_error + rpc_query) option"
  cl_chain :: "i64 option"
  cl_recovery :: bool
  cl_pfs :: bool

datatype pause = PauseElapsed | PauseCtx session_error | PauseClosed

record attempt =
  at_pause :: pause
  at_env :: env
  at_world :: send_world
  at_ctxErr :: "session_error option"
  at_second :: pause
  at_rebind :: "sender \<Rightarrow> session_error option \<times> sender"

record attempt_log =
  al_id :: i64
  al_query :: rpc_query
  al_before :: sender
  al_result :: "rpc_value option \<times> session_error option"
  al_after :: sender

definition bindingTempKey :: "rpc_call \<Rightarrow> bool" where
  "bindingTempKey c \<longleftrightarrow>
     (case UnwrapRPCQuery (cl_query c) of Plain t r \<Rightarrow> t = ''*tg.AuthBindTempAuthKeyRequest'' | _ \<Rightarrow> False) \<or>
     cl_prepare c \<noteq> None"

definition call_chain :: "rpc_call \<Rightarrow> i64 option" where
  "call_chain c = (if bindingTempKey c \<or> \<not> snd (ChainIDFromContext (cl_chain c)) then None
     else Some (fst (ChainIDFromContext (cl_chain c))))"

record loop_vars =
  lv_maxAttempts :: int
  lv_badSaltRetries :: nat
  lv_g12Retries :: nat
  lv_backoff :: int
  lv_lastErr :: "invoke_error option"

definition maxG12Retries :: nat where "maxG12Retries = 2"

definition milliseconds :: "int \<Rightarrow> int" where "milliseconds n = n * 1000000"

definition nextBackoff :: "int \<Rightarrow> int" where
  "nextBackoff b = (if b = 0 then milliseconds 100 else if b * 2 > milliseconds 2000 then milliseconds 2000 else b * 2)"

datatype turn = Return "rpc_value option" "invoke_error option" | Again loop_vars

definition retry_later :: "invoke_error \<Rightarrow> loop_vars \<Rightarrow> turn" where
  "retry_later err v = Again (v\<lparr>lv_lastErr := Some err, lv_backoff := nextBackoff (lv_backoff v)\<rparr>)"

definition extra_attempt :: "invoke_error \<Rightarrow> int \<Rightarrow> loop_vars \<Rightarrow> turn" where
  "extra_attempt err backoff v =
     Again (v\<lparr>lv_lastErr := Some err, lv_backoff := backoff, lv_maxAttempts := lv_maxAttempts v + 1\<rparr>)"

definition is_type :: "tg_error \<Rightarrow> string \<Rightarrow> bool" where
  "is_type err t \<longleftrightarrow> IsType err (codes t)"

definition set_guards :: "session_guards \<Rightarrow> sender \<Rightarrow> sender" where
  "set_guards g d = on_sess (\<lambda>s. s\<lparr>ss_guards := g\<rparr>) d"

section \<open>What Invoke does with an answer\<close>

text \<open>The error types after the streak of "no workers" errors is reset.\<close>

definition after_served_error ::
  "rpc_call \<Rightarrow> attempt \<Rightarrow> rpc_value option \<Rightarrow> tg_error \<Rightarrow> loop_vars \<Rightarrow> sender \<Rightarrow> turn \<times> sender" where
  "after_served_error c att obj err v d =
     (let g12 = lv_g12Retries v < maxG12Retries;
          v1 = v\<lparr>lv_g12Retries := Suc (lv_g12Retries v)\<rparr>;
          surface = (if re_Code err \<in> {401, 400, 403} then Return None (Some (ServerError err)) else retry_later (ServerError err) v)
      in if re_Code err = 420 then (Return obj None, d)
         else if call_chain c \<noteq> None \<and> is_type err ''MSG_WAIT_FAILED''
         then (extra_attempt ChainWaitFailed (milliseconds 100) v, d\<lparr>sd_chains := ClearChain (the (call_chain c)) (sd_chains d)\<rparr>)
         else if g12 \<and> is_type err ''CONNECTION_NOT_INITED''
         then (extra_attempt ConnectionNotInited (milliseconds 100) v1, d)
         else if g12 \<and> is_type err ''PERSISTENT_TIMESTAMP_OUTDATED''
         then (case at_second att of
                 PauseCtx e \<Rightarrow> (Return None (Some (SessErr e)), d)
               | PauseClosed \<Rightarrow> (Return None (Some (SessErr (Sentinel ErrSessionClosed))), d)
               | PauseElapsed \<Rightarrow> (extra_attempt TimestampOutdated 0 v1, d))
         else if \<not> bindingTempKey c \<and> \<not> cl_recovery c \<and> g12 \<and> is_type err ''AUTH_KEY_PERM_EMPTY''
         then if cl_pfs c
              then (case at_rebind att d of
                      (Some e, d1) \<Rightarrow> (Return None (Some (RebindFailed e)), d1)
                    | (None, d1) \<Rightarrow> (extra_attempt KeyRebound 0 v1, d1))
              else (if re_Code err \<in> {401, 400, 403} then Return None (Some (ServerError err)) else retry_later (ServerError err) v1, d)
         else (surface, d))"

definition after_rpc_error ::
  "(int \<Rightarrow> bool) \<Rightarrow> rpc_call \<Rightarrow> attempt \<Rightarrow> rpc_value option \<Rightarrow> int \<times> bytes \<Rightarrow> loop_vars \<Rightarrow> sender \<Rightarrow> turn \<times> sender" where
  "after_rpc_error uni c att obj ce v d =
     (if fst ce = 303 then (Return obj None, d)
      else
        let err = server_error uni ce;
            g = ss_guards (sd_sess d)
        in if is_type err ''AUTH_KEY_DUPLICATED'' then (Return None (Some (ServerError err)), d)
           else if isNoWorkersRunningError (Some (rpc_error.truncate err))
           then (case noteNoWorkersError g of
                   (True, g1) \<Rightarrow>
                     (Return None (Some (ClosedBy err)),
                      on_sess (\<lambda>s. s\<lparr>ss_guards := snd (recycleNoWorkersConnection g1), ss_cancelled := True\<rparr>) d)
                 | (False, g1) \<Rightarrow> (retry_later (ServerError err) v, set_guards g1 d))
           else after_served_error c att obj err v (set_guards (g\<lparr>sg_noWorkersStreak := 0\<rparr>) d))"

definition after_send ::
  "(int \<Rightarrow> bool) \<Rightarrow> rpc_call \<Rightarrow> attempt \<Rightarrow> int \<Rightarrow> i64 \<Rightarrow> rpc_value option \<times> session_error option \<Rightarrow> loop_vars \<Rightarrow> sender
   \<Rightarrow> turn \<times> sender" where
  "after_send uni c att i msgID r v d =
     (case snd r of
        Some err \<Rightarrow>
          (case at_ctxErr att of
             Some e \<Rightarrow> (Return None (Some (SessErr e)), d)
           | None \<Rightarrow>
               if errors_as_delivery err then (Return None (Some (SendFailed err)), d)
               else (retry_later (SendFailed err) v, d))
      | None \<Rightarrow>
          (case answer_view (fst r) of
             AnswerBadMsg code \<Rightarrow> (retry_later (BadMessage msgID code) v, d)
           | AnswerBadSalt code \<Rightarrow>
               let v1 = (if lv_badSaltRetries v = 0 \<and> i + 1 \<ge> lv_maxAttempts v
                         then v\<lparr>lv_badSaltRetries := Suc (lv_badSaltRetries v), lv_maxAttempts := lv_maxAttempts v + 1\<rparr> else v)
               in (retry_later (BadServerSalt msgID code) v1, d)
           | AnswerError code msg \<Rightarrow> after_rpc_error uni c att (fst r) (code, msg) v d
           | AnswerOther \<Rightarrow>
               let d1 = (case call_chain c of None \<Rightarrow> d | Some ch \<Rightarrow> d\<lparr>sd_chains := SetChain msgID ch (sd_chains d)\<rparr>);
                   d2 = set_guards ((ss_guards (sd_sess d1))\<lparr>sg_noWorkersStreak := 0\<rparr>) d1
               in (Return (fst r) None, d2)))"

section \<open>The loops\<close>

text \<open>The wait before every attempt but the first: \<open>None\<close> when the time elapsed.\<close>

definition paused :: "pause \<Rightarrow> session_error option" where
  "paused p = (case p of PauseElapsed \<Rightarrow> None | PauseCtx e \<Rightarrow> Some e | PauseClosed \<Rightarrow> Some (Sentinel ErrSessionClosed))"

definition allocate :: "env \<Rightarrow> sender \<Rightarrow> (i64 \<times> u32) \<times> sender" where
  "allocate e d =
     (let (msgID, f1) = AllocateMsgID (env_now e) (ss_msgFactory (sd_sess d));
          (seqNo, f2) = AllocateSeqNo True f1
      in ((msgID, seqNo), on_sess (\<lambda>s. s\<lparr>ss_msgFactory := f2\<rparr>) d))"

text \<open>The query of an attempt; it is prepared before it is wrapped, and a prepared query is never wrapped
  because it has no chain.\<close>

definition attempt_query :: "rpc_call \<Rightarrow> i64 \<Rightarrow> sender \<Rightarrow> session_error + rpc_query" where
  "attempt_query c msgID d =
     (case (case cl_prepare c of None \<Rightarrow> Inr (cl_query c) | Some prep \<Rightarrow> prep msgID) of
        Inl err \<Rightarrow> Inl err
      | Inr q \<Rightarrow> Inr (case call_chain c of None \<Rightarrow> q | Some ch \<Rightarrow> wrapChain ch (cl_query c) (sd_chains d)))"

definition invoke_turn ::
  "(int \<Rightarrow> bool) \<Rightarrow> rpc_call \<Rightarrow> attempt \<Rightarrow> nat \<Rightarrow> loop_vars \<Rightarrow> sender \<Rightarrow> (turn \<times> attempt_log list \<times> sender) option" where
  "invoke_turn uni c att i v d =
     (case (if i > 0 then paused (at_pause att) else None) of
        Some err \<Rightarrow> Some (Return None (Some (SessErr err)), [], d)
      | None \<Rightarrow>
          let ((msgID, seqNo), d1) = allocate (at_env att) d
          in case attempt_query c msgID d1 of
               Inl err \<Rightarrow> Some (Return None (Some (PrepareFailed err)), [], d1)
             | Inr q \<Rightarrow>
                 (case Send (at_env att) (at_world att) msgID seqNo q d1 of
                    None \<Rightarrow> None
                  | Some (r, d2) \<Rightarrow>
                      let (t, d3) = after_send uni c att (int i) msgID r v d2
                      in Some (t, [\<lparr>al_id = msgID, al_query = q, al_before = d1, al_result = r, al_after = d2\<rparr>], d3)))"

type_synonym invoke_outcome = "(rpc_value option \<times> invoke_error option) option \<times> attempt_log list \<times> sender"

primrec invoke_loop ::
  "(int \<Rightarrow> bool) \<Rightarrow> rpc_call \<Rightarrow> (nat \<Rightarrow> attempt) \<Rightarrow> int \<Rightarrow> nat \<Rightarrow> nat \<Rightarrow> loop_vars \<Rightarrow> sender \<Rightarrow> invoke_outcome option" where
  "invoke_loop uni c ws retries 0 i v d =
     Some (if int i < lv_maxAttempts v then None else Some (None, Some (Exhausted retries (lv_lastErr v))), [], d)"
| "invoke_loop uni c ws retries (Suc n) i v d =
     (if int i < lv_maxAttempts v
      then case invoke_turn uni c (ws i) i v d of
             None \<Rightarrow> None
           | Some (Return obj err, lg, d1) \<Rightarrow> Some (Some (obj, err), lg, d1)
           | Some (Again v1, lg, d1) \<Rightarrow>
               map_option (\<lambda>(r, tr, d2). (r, lg @ tr, d2)) (invoke_loop uni c ws retries n (Suc i) v1 d1)
      else Some (Some (None, Some (Exhausted retries (lv_lastErr v))), [], d))"

definition start_vars :: "int \<Rightarrow> loop_vars" where
  "start_vars retries =
     \<lparr>lv_maxAttempts = retries, lv_badSaltRetries = 0, lv_g12Retries = 0, lv_backoff = 0, lv_lastErr = None\<rparr>"

definition Invoke ::
  "(int \<Rightarrow> bool) \<Rightarrow> nat \<Rightarrow> rpc_call \<Rightarrow> (nat \<Rightarrow> attempt) \<Rightarrow> int \<Rightarrow> sender \<Rightarrow> invoke_outcome option" where
  "Invoke uni fuel c ws retries d = invoke_loop uni c ws retries fuel 0 (start_vars retries) d"

definition InvokeChained ::
  "(int \<Rightarrow> bool) \<Rightarrow> nat \<Rightarrow> i64 \<Rightarrow> rpc_call \<Rightarrow> (nat \<Rightarrow> attempt) \<Rightarrow> int \<Rightarrow> sender \<Rightarrow> invoke_outcome option" where
  "InvokeChained uni fuel chainID c ws retries d =
     Invoke uni fuel (c\<lparr>cl_chain := WithChainID (cl_chain c) chainID\<rparr>) ws retries d"

text \<open>DropRPC invokes rpc_drop_answer once and then rejects the dropped call. \<open>isDrop\<close> tells the constructors of
  RPCDropAnswer.\<close>

definition drop_call :: "i64 \<Rightarrow> rpc_call" where
  "drop_call msgID =
     \<lparr>cl_query = Plain ''*tg.RPCDropAnswerRequest'' (Inr (WriteLong (WriteInt [] RPCDropAnswerTypeID) msgID)), cl_prepare = None,
      cl_chain = None, cl_recovery = False, cl_pfs = False\<rparr>"

definition DropRPC ::
  "(int \<Rightarrow> bool) \<Rightarrow> nat \<Rightarrow> (u32 \<Rightarrow> bool) \<Rightarrow> (nat \<Rightarrow> attempt) \<Rightarrow> i64 \<Rightarrow> sender
   \<Rightarrow> (invoke_error option option \<times> sender) option" where
  "DropRPC uni fuel isDrop ws msgID d =
     (case Invoke uni fuel (drop_call msgID) ws 1 d of
        None \<Rightarrow> None
      | Some (None, tr, d1) \<Rightarrow> Some (None, d1)
      | Some (Some (obj, Some err), tr, d1) \<Rightarrow> Some (Some (Some err), d1)
      | Some (Some (obj, None), tr, d1) \<Rightarrow>
          Some (Some (case obj of Some (ResultObject (Generated c p)) \<Rightarrow> if isDrop c then None else Some (SessErr OtherError)
                                | _ \<Rightarrow> Some (SessErr OtherError)),
                on_pm (\<lambda>pm. snd (Reject msgID (Sentinel ErrRPCDropped) pm)) d1))"

section \<open>Raw calls\<close>

text \<open>checkRawRPCErrorDepth: \<open>left\<close> is how many more gzip layers it opens. \<open>None\<close> is the nil error.\<close>

datatype raw_error = RawServerError tg_error | RawDecode tl_error | RawNesting | RawGzip tl_error | RawPayloadType

fun checkRawRPCErrorDepth :: "(int \<Rightarrow> bool) \<Rightarrow> gunzip \<Rightarrow> nat \<Rightarrow> bytes \<Rightarrow> raw_error option" where
  "checkRawRPCErrorDepth uni gun left data =
     (if length data < 4 then None
      else if u32_at data 0 = RPCErrorTypeID
      then (case fst (DecodeRPCError (NewReader (drop 4 data))) of
              Inl e \<Rightarrow> Some (RawDecode e)
            | Inr ce \<Rightarrow> Some (RawServerError (server_error uni ce)))
      else if u32_at data 0 = GzipPackedID
      then (case left of
              0 \<Rightarrow> Some RawNesting
            | Suc left' \<Rightarrow>
                (case PeekGzipPackedConstructor gun (drop 4 data) of
                   Inl e \<Rightarrow> Some (RawGzip e)
                 | Inr inner \<Rightarrow>
                     if inner \<noteq> RPCErrorTypeID \<and> inner \<noteq> GzipPackedID then None
                     else case fst (DecodeGzipPacked gun (NewReader (drop 4 data))) of
                            Inl e \<Rightarrow> Some (RawGzip e)
                          | Inr (GzipPacked (GzipPackedData raw)) \<Rightarrow> checkRawRPCErrorDepth uni gun left' raw
                          | Inr _ \<Rightarrow> Some RawPayloadType))
      else None)"

definition checkRawRPCError :: "(int \<Rightarrow> bool) \<Rightarrow> gunzip \<Rightarrow> bytes \<Rightarrow> raw_error option" where
  "checkRawRPCError uni gun data = checkRawRPCErrorDepth uni gun 4 data"

datatype raw_invoke_error = RawInvoke invoke_error | RawAnswer raw_error

text \<open>Unlike Invoke, the loop of InvokeRaw waits no time after a result that is too short.\<close>

primrec invoke_raw_loop ::
  "(int \<Rightarrow> bool) \<Rightarrow> bytes \<Rightarrow> (nat \<Rightarrow> attempt) \<Rightarrow> int \<Rightarrow> nat \<Rightarrow> nat \<Rightarrow> invoke_error option \<Rightarrow> sender
   \<Rightarrow> ((bytes option \<times> raw_invoke_error option) \<times> i64 list \<times> sender) option" where
  "invoke_raw_loop uni body ws retries 0 i lastErr d = Some ((None, Some (RawInvoke (Exhausted retries lastErr))), [], d)"
| "invoke_raw_loop uni body ws retries (Suc n) i lastErr d =
     (let att = ws i
      in case (if i > 0 then paused (at_pause att) else None) of
        Some err \<Rightarrow> Some ((None, Some (RawInvoke (SessErr err))), [], d)
      | None \<Rightarrow>
          let ((msgID, seqNo), d1) = allocate (at_env att) d
          in case SendRaw (at_env att) (at_world att) msgID seqNo body d1 of
               None \<Rightarrow> None
             | Some ((data, Some err), d2) \<Rightarrow>
                 (case at_ctxErr att of
                    Some e \<Rightarrow> Some ((None, Some (RawInvoke (SessErr e))), [msgID], d2)
                  | None \<Rightarrow>
                      if errors_as_delivery err then Some ((None, Some (RawInvoke (SendFailed err))), [msgID], d2)
                      else map_option (\<lambda>(r, ids, d3). (r, msgID # ids, d3))
                             (invoke_raw_loop uni body ws retries n (Suc i) (Some (SendFailed err)) d2))
             | Some ((data, None), d2) \<Rightarrow>
                 let bytes = (case data of None \<Rightarrow> [] | Some b \<Rightarrow> b)
                 in if length bytes < 4
                    then map_option (\<lambda>(r, ids, d3). (r, msgID # ids, d3))
                           (invoke_raw_loop uni body ws retries n (Suc i) (Some (ResultTooShort (length bytes))) d2)
                    else case checkRawRPCError uni (env_gun (at_env att)) bytes of
                           Some e \<Rightarrow> Some ((None, Some (RawAnswer e)), [msgID], d2)
                         | None \<Rightarrow> Some ((Some bytes, None), [msgID], d2))"

definition InvokeRaw ::
  "(int \<Rightarrow> bool) \<Rightarrow> rpc_query \<Rightarrow> (nat \<Rightarrow> attempt) \<Rightarrow> int \<Rightarrow> sender
   \<Rightarrow> ((bytes option \<times> raw_invoke_error option) \<times> i64 list \<times> sender) option" where
  "InvokeRaw uni query ws retries d =
     (case encode_query query of
        Inl e \<Rightarrow> Some ((None, Some (RawInvoke (EncodeFailed e))), [], d)
      | Inr body \<Rightarrow> invoke_raw_loop uni body ws retries (nat retries) 0 None d)"

text \<open>The timeout of one attempt; the deadline in nanoseconds from now.\<close>

definition invokeTimeout :: "int option \<Rightarrow> int" where
  "invokeTimeout remaining =
     (let timeout = 60 * go_second
      in case remaining of None \<Rightarrow> timeout | Some r \<Rightarrow> if r > 0 \<and> r < timeout then r else timeout)"

section \<open>How often a call is sent\<close>

text \<open>An attempt of a chained call that was answered with MSG_WAIT_FAILED.\<close>

definition chain_wait_failed :: "(int \<Rightarrow> bool) \<Rightarrow> rpc_call \<Rightarrow> attempt_log \<Rightarrow> bool" where
  "chain_wait_failed uni c al \<longleftrightarrow>
     call_chain c \<noteq> None \<and> snd (al_result al) = None \<and>
     (case answer_view (fst (al_result al)) of
        AnswerError code msg \<Rightarrow> is_type (server_error uni (code, msg)) ''MSG_WAIT_FAILED''
      | _ \<Rightarrow> False)"

definition chain_failures :: "(int \<Rightarrow> bool) \<Rightarrow> rpc_call \<Rightarrow> attempt_log list \<Rightarrow> nat" where
  "chain_failures uni c tr = length (filter (chain_wait_failed uni c) tr)"

text \<open>The extra attempts a call may still be given: one for a bad salt, two for recoverable errors.\<close>

definition credit :: "loop_vars \<Rightarrow> int" where
  "credit v = lv_maxAttempts v + (1 - int (lv_badSaltRetries v)) + (2 - int (lv_g12Retries v))"

definition vars_ok :: "loop_vars \<Rightarrow> bool" where
  "vars_ok v \<longleftrightarrow> lv_badSaltRetries v \<le> 1 \<and> lv_g12Retries v \<le> 2"

lemma retry_later_Again [simp]:
  "retry_later err v = Again v1 \<longleftrightarrow> v1 = v\<lparr>lv_lastErr := Some err, lv_backoff := nextBackoff (lv_backoff v)\<rparr>"
  "retry_later err v \<noteq> Return x y" "Return x y \<noteq> retry_later err v"
  by (auto simp: retry_later_def)

lemma extra_attempt_Again [simp]:
  "extra_attempt err b v = Again v1 \<longleftrightarrow>
     v1 = v\<lparr>lv_lastErr := Some err, lv_backoff := b, lv_maxAttempts := lv_maxAttempts v + 1\<rparr>"
  "extra_attempt err b v \<noteq> Return x y" "Return x y \<noteq> extra_attempt err b v"
  by (auto simp: extra_attempt_def)

lemma after_served_error_again:
  assumes "after_served_error c att obj err v d = (Again v1, d1)" and "vars_ok v"
  shows "vars_ok v1" and "credit v1 \<le> credit v + (if call_chain c \<noteq> None \<and> is_type err ''MSG_WAIT_FAILED'' then 1 else 0)"
  using assms
  by (auto simp: after_served_error_def Let_def credit_def vars_ok_def maxG12Retries_def
      split: if_splits pause.splits option.splits prod.splits)

lemma after_send_again:
  assumes "after_send uni c att i m r v d = (Again v1, d1)" and "vars_ok v"
  shows "vars_ok v1"
    and "credit v1 \<le> credit v + int (chain_failures uni c [\<lparr>al_id = m, al_query = q, al_before = d0, al_result = r, al_after = d2\<rparr>])"
    and "snd r = None \<or> (\<exists>err. snd r = Some err \<and> at_ctxErr att = None \<and> \<not> errors_as_delivery err)"
proof -
  have served: "vars_ok v1 \<and> credit v1 \<le> credit v +
      int (chain_failures uni c [\<lparr>al_id = m, al_query = q, al_before = d0, al_result = r, al_after = d2\<rparr>])"
    if "after_rpc_error uni c att (fst r) (code, msg) v d = (Again v1, d1)" "snd r = None"
      "answer_view (fst r) = AnswerError code msg" for code msg
    using that assms(2) after_served_error_again [OF _ assms(2), of c att "fst r" "server_error uni (code, msg)"]
    by (auto simp: after_rpc_error_def Let_def chain_failures_def chain_wait_failed_def credit_def vars_ok_def
        split: if_splits prod.splits bool.splits)
  show "vars_ok v1"
    and "credit v1 \<le> credit v + int (chain_failures uni c [\<lparr>al_id = m, al_query = q, al_before = d0, al_result = r, al_after = d2\<rparr>])"
    using assms served
    by (auto simp: after_send_def Let_def credit_def vars_ok_def split: option.splits answer_view.splits if_splits)
  show "snd r = None \<or> (\<exists>err. snd r = Some err \<and> at_ctxErr att = None \<and> \<not> errors_as_delivery err)"
    using assms(1) by (auto simp: after_send_def split: option.splits if_splits)
qed

text \<open>What the log of one turn says.\<close>

definition logged :: "attempt \<Rightarrow> attempt_log \<Rightarrow> bool" where
  "logged att al \<longleftrightarrow>
     (\<exists>seqNo. Send (at_env att) (at_world att) (al_id al) seqNo (al_query al) (al_before al) =
        Some (al_result al, al_after al))"

lemma invoke_turn_again:
  assumes "invoke_turn uni c att i v d = Some (Again v1, lg, d1)" and "vars_ok v"
  shows "\<exists>al. lg = [al] \<and> logged att al \<and> vars_ok v1 \<and> credit v1 \<le> credit v + int (chain_failures uni c lg) \<and>
    (snd (al_result al) = None \<or>
     (\<exists>err. snd (al_result al) = Some err \<and> at_ctxErr att = None \<and> \<not> errors_as_delivery err))"
proof -
  from assms(1) obtain m sq dm q r d2 where 1: "allocate (at_env att) d = ((m, sq), dm)"
    "Send (at_env att) (at_world att) m sq q dm = Some (r, d2)"
    "after_send uni c att (int i) m r v d2 = (Again v1, d1)"
    "lg = [\<lparr>al_id = m, al_query = q, al_before = dm, al_result = r, al_after = d2\<rparr>]"
    by (auto simp: invoke_turn_def Let_def split: option.splits prod.splits sum.splits)
  from after_send_again [OF 1(3) assms(2)] show ?thesis
    unfolding 1(4) by (intro exI conjI) (rule refl, auto simp: logged_def intro: 1(2))
qed

lemma invoke_loop_unfinished:
  assumes "invoke_loop uni c ws retries n i v d = Some (None, tr, d')" and "vars_ok v"
  shows "int i + int n < credit v + int (chain_failures uni c tr)"
  using assms
proof (induction n arbitrary: i v d tr)
  case 0
  then show ?case by (auto simp: credit_def vars_ok_def split: if_splits)
next
  case (Suc n)
  from Suc.prems obtain v1 lg d1 tr1 where 1: "invoke_turn uni c (ws i) i v d = Some (Again v1, lg, d1)"
    "invoke_loop uni c ws retries n (Suc i) v1 d1 = Some (None, tr1, d')" "tr = lg @ tr1"
    by (auto split: if_splits option.splits prod.splits turn.splits)
  from invoke_turn_again [OF 1(1) Suc.prems(2)] have "vars_ok v1" "credit v1 \<le> credit v + int (chain_failures uni c lg)"
    by auto
  with Suc.IH [OF 1(2)] show ?case by (simp add: 1(3) chain_failures_def)
qed

lemma invoke_turn_log:
  assumes "invoke_turn uni c att i v d = Some (t, lg, d1)"
  shows "length lg \<le> 1"
proof (cases "if i > 0 then paused (at_pause att) else None")
  case None
  then show ?thesis using assms by (auto simp: invoke_turn_def Let_def split: option.splits prod.splits sum.splits)
qed (use assms in \<open>simp add: invoke_turn_def\<close>)

text \<open>No attempt waits for ever (\<open>send_returns_and_cleans_up\<close> says when that is so).\<close>

definition sends_return :: "(nat \<Rightarrow> attempt) \<Rightarrow> bool" where
  "sends_return ws \<longleftrightarrow> (\<forall>i m q b d. Send (at_env (ws i)) (at_world (ws i)) m q b d \<noteq> None)"

lemma invoke_turn_returns:
  assumes "\<And>m q b d. Send (at_env att) (at_world att) m q b d \<noteq> None"
  obtains t lg d1 where "invoke_turn uni c att i v d = Some (t, lg, d1)" "length lg \<le> 1"
proof (cases "if i > 0 then paused (at_pause att) else None")
  case None
  obtain m sq dm where a: "allocate (at_env att) d = ((m, sq), dm)" by (metis surj_pair)
  show thesis
  proof (cases "attempt_query c m dm")
    case (Inr q)
    obtain r d2 where "Send (at_env att) (at_world att) m sq q dm = Some (r, d2)" using assms by fastforce
    then show thesis using that None a Inr by (simp add: invoke_turn_def case_prod_beta)
  qed (use that None a in \<open>simp add: invoke_turn_def\<close>)
qed (use that in \<open>simp add: invoke_turn_def\<close>)

lemma invoke_loop_returns:
  assumes "sends_return ws"
  shows "\<exists>r tr d'. invoke_loop uni c ws retries n i v d = Some (r, tr, d') \<and> length tr \<le> n"
proof (induction n arbitrary: i v d)
  case (Suc n)
  obtain t lg d1 where t: "invoke_turn uni c (ws i) i v d = Some (t, lg, d1)" "length lg \<le> 1"
    by (rule invoke_turn_returns [of "ws i" uni c i v d]) (use assms in \<open>simp_all add: sends_return_def\<close>)
  then show ?case
  proof (cases t)
    case (Again v1)
    then show ?thesis using t Suc.IH [of "Suc i" v1 d1] by auto
  qed (use t in simp)
qed simp

lemma chain_failures_none: "call_chain c = None \<Longrightarrow> chain_failures uni c tr = 0"
  by (simp add: chain_failures_def chain_wait_failed_def)

text \<open>Property C10 (termination): Invoke ends: a call that is not part of a chain makes at most three attempts more than the
  caller asked for (one after a bad salt, two after recoverable errors) and returns; a chained call
  makes one more for every MSG_WAIT_FAILED answer, so it returns within \<open>k\<close> further attempts unless
  more than \<open>k\<close> attempts are answered that way.\<close>

theorem invoke_attempts_bounded:
  assumes "sends_return ws"
  shows "\<exists>r tr d'. Invoke uni (nat retries + 3 + k) c ws retries d = Some (r, tr, d') \<and>
    length tr \<le> nat retries + 3 + k \<and>
    (r \<noteq> None \<or> k < chain_failures uni c tr) \<and> (call_chain c = None \<longrightarrow> r \<noteq> None)"
proof -
  let ?n = "nat retries + 3 + k"
  obtain r tr d' where run: "Invoke uni ?n c ws retries d = Some (r, tr, d')" "length tr \<le> ?n"
    using invoke_loop_returns [OF assms, where n = ?n and i = 0 and v = "start_vars retries"] unfolding Invoke_def by blast
  have "k < chain_failures uni c tr" if "r = None"
    using invoke_loop_unfinished [of uni c ws retries ?n 0 "start_vars retries" d tr d'] run that
    by (simp add: Invoke_def start_vars_def vars_ok_def credit_def split: if_splits)
  then show ?thesis using run chain_failures_none [of c uni tr] by (metis not_less_zero)
qed

lemma invoke_loop_log:
  assumes "invoke_loop uni c ws retries n i v d = Some (r, tr, d')" and "vars_ok v" and "Suc j < length tr"
  shows "logged (ws (i + j)) (tr ! j) \<and>
    (snd (al_result (tr ! j)) = None \<or>
     (\<exists>err. snd (al_result (tr ! j)) = Some err \<and> at_ctxErr (ws (i + j)) = None \<and> \<not> errors_as_delivery err))"
  using assms
proof (induction n arbitrary: i v d tr j)
  case (Suc n)
  show ?case
  proof (cases "\<exists>v1 lg d1 tr1. invoke_turn uni c (ws i) i v d = Some (Again v1, lg, d1) \<and>
      invoke_loop uni c ws retries n (Suc i) v1 d1 = Some (r, tr1, d') \<and> tr = lg @ tr1")
    case True
    then obtain v1 lg d1 tr1 where 1: "invoke_turn uni c (ws i) i v d = Some (Again v1, lg, d1)"
      "invoke_loop uni c ws retries n (Suc i) v1 d1 = Some (r, tr1, d')" "tr = lg @ tr1" by blast
    obtain al where al: "lg = [al]" "logged (ws i) al" "vars_ok v1" "snd (al_result al) = None \<or>
        (\<exists>err. snd (al_result al) = Some err \<and> at_ctxErr (ws i) = None \<and> \<not> errors_as_delivery err)"
      using invoke_turn_again [OF 1(1) Suc.prems(2)] by blast
    show ?thesis
      using Suc.IH [OF 1(2) al(3)] Suc.prems(3) al 1(3) by (cases j) auto
  next
    case False
    then have "length tr \<le> 1"
      using Suc.prems(1) invoke_turn_log
      by (fastforce split: if_splits option.splits prod.splits turn.splits)
    then show ?thesis using Suc.prems(3) by simp
  qed
qed (auto split: if_splits)

text \<open>After which attempts sending again is sound.\<close>

definition may_resend :: "attempt_log \<Rightarrow> bool" where
  "may_resend al \<longleftrightarrow>
     snd (al_result al) = None \<or>
     (\<exists>err. snd (al_result al) = Some err \<and> (errors_is err ErrMsgNotReceived \<or> errors_is err ErrRPCDropped)) \<or>
     \<not> committed (al_id al) (al_after al)"

text \<open>Property C5 (safety): Invoke does not send a request twice blindly. Whenever another attempt follows, the earlier
  one was answered by the server, or was reported as not received or dropped, or its message was
  neither handed to the transport nor queued.\<close>

theorem invoke_resends_only_undelivered:
  assumes "Invoke uni fuel c ws retries d = Some (r, tr, d')" and "Suc j < length tr"
    and "\<And>i x err. fst (sw_wake (at_world (ws i)) x) = WakeCtx err \<Longrightarrow> at_ctxErr (ws i) \<noteq> None"
    and "\<And>i m x. \<not> committed m x \<Longrightarrow> \<not> committed m (sw_saltWait (at_world (ws i)) x)"
    and "\<not> committed (al_id (tr ! j)) (al_before (tr ! j))"
  shows "may_resend (tr ! j)"
proof -
  have "vars_ok (start_vars retries)" by (simp add: vars_ok_def start_vars_def)
  from invoke_loop_log [OF assms(1) [unfolded Invoke_def] this assms(2)]
  obtain seqNo where l: "Send (at_env (ws j)) (at_world (ws j)) (al_id (tr ! j)) seqNo (al_query (tr ! j)) (al_before (tr ! j)) =
        Some (al_result (tr ! j), al_after (tr ! j))"
    and cont: "snd (al_result (tr ! j)) = None \<or>
     (\<exists>err. snd (al_result (tr ! j)) = Some err \<and> at_ctxErr (ws j) = None \<and> \<not> errors_as_delivery err)"
    by (auto simp: logged_def)
  show ?thesis
  proof (cases "snd (al_result (tr ! j))")
    case (Some err)
    then have "al_result (tr ! j) = (fst (al_result (tr ! j)), Some err)" by (simp add: prod_eq_iff)
    with l have "Send (at_env (ws j)) (at_world (ws j)) (al_id (tr ! j)) seqNo (al_query (tr ! j)) (al_before (tr ! j)) =
        Some ((fst (al_result (tr ! j)), Some err), al_after (tr ! j))" by simp
    from Send_error [OF this assms(5) assms(4)] show ?thesis
      using Some cont assms(3) [of j] by (fastforce simp: delivery_known_def may_resend_def)
  qed (simp add: may_resend_def)
qed

section \<open>Examples\<close>

definition plain_call :: rpc_call where
  "plain_call =
     \<lparr>cl_query = Plain ''*tg.MessagesSendMessageRequest'' (Inr [1, 2, 3, 4]), cl_prepare = None, cl_chain = None,
      cl_recovery = False, cl_pfs = False\<rparr>"

definition quiet_attempt :: "send_world \<Rightarrow> attempt" where
  "quiet_attempt w =
     \<lparr>at_pause = PauseElapsed, at_env = plain_env 1000, at_world = w, at_ctxErr = None, at_second = PauseElapsed,
      at_rebind = (\<lambda>d. (None, d))\<rparr>"

text \<open>While the caller waits, somebody completes every pending call with \<open>f\<close>.\<close>

definition answering :: "(i64 \<Rightarrow> pending_manager \<Rightarrow> bool \<times> pending_manager) \<Rightarrow> send_world" where
  "answering f =
     idle_world\<lparr>sw_wake := \<lambda>d. (WakeDone, on_pm (\<lambda>pm. foldl (\<lambda>pm e. snd (f (fst e) pm)) pm (pm_pending pm)) d)\<rparr>"

definition dropping_world :: send_world where
  "dropping_world = answering (\<lambda>m. Reject m (Sentinel ErrRPCDropped))"

definition direct_sender :: sender where
  "direct_sender = fresh_sender\<lparr>sd_batcher := None\<rparr>"

lemma dropped_run:
  "map_option (\<lambda>(r, tr, d). map (\<lambda>al. (al_query al, al_result al)) tr)
     (Invoke (\<lambda>_. False) 2 plain_call (\<lambda>_. quiet_attempt dropping_world) 2 direct_sender) =
   Some [(cl_query plain_call, (None, Some (Sentinel ErrRPCDropped))), (cl_query plain_call, (None, Some (Sentinel ErrRPCDropped)))]"
  by code_simp

lemma Send_returns_unless_closed:
  assumes "\<And>x. fst (sw_wake w x) \<noteq> WakeClosed"
  shows "Send e w m q b d \<noteq> None"
proof -
  have aw: "await pick dropped m a (fst (sw_wake w x)) y \<noteq> None"
    for pick :: "call_handle \<Rightarrow> rpc_value option" and dropped a x y
    using assms [of x] by (cases "fst (sw_wake w x)") (simp_all add: await_def Let_def)
  have wait: "waitResponse e' w a m y \<noteq> None" for e' a y
    unfolding waitResponse_def case_prod_beta Let_def by (rule aw)
  then show ?thesis
    by (simp add: Send_def case_prod_beta Let_def del: not_None_eq split: option.split sum.split)
qed

theorem invoke_attempts_bounded_witness:
  "\<exists>r tr d'. Invoke (\<lambda>_. False) 5 plain_call (\<lambda>_. quiet_attempt timeout_world) 2 direct_sender = Some (Some r, tr, d') \<and>
     length tr \<le> 5"
proof -
  have "sends_return (\<lambda>_. quiet_attempt timeout_world)"
    unfolding sends_return_def
    by (intro allI Send_returns_unless_closed) (simp add: quiet_attempt_def timeout_world_def)
  moreover have "call_chain plain_call = None" by (simp add: call_chain_def plain_call_def ChainIDFromContext_def)
  ultimately show ?thesis
    using invoke_attempts_bounded [where retries = 2 and k = 0 and c = plain_call and uni = "\<lambda>_. False" and d = direct_sender]
    by fastforce
qed

theorem invoke_resends_only_undelivered_witness:
  "\<exists>r tr d'. Invoke (\<lambda>_. False) 2 plain_call (\<lambda>_. quiet_attempt dropping_world) 2 direct_sender = Some (r, tr, d') \<and>
     length tr = 2 \<and> may_resend (tr ! 0)"
proof -
  from dropped_run obtain r tr d' where run:
    "Invoke (\<lambda>_. False) 2 plain_call (\<lambda>_. quiet_attempt dropping_world) 2 direct_sender = Some (r, tr, d')"
    "map (\<lambda>al. (al_query al, al_result al)) tr =
       [(cl_query plain_call, (None, Some (Sentinel ErrRPCDropped))), (cl_query plain_call, (None, Some (Sentinel ErrRPCDropped)))]"
    by auto
  then have len: "length tr = 2" by (auto simp: map_eq_Cons_conv)
  have fresh: "\<not> committed (al_id (tr ! 0)) (al_before (tr ! 0))"
  proof -
    have "map_option (\<lambda>(r, tr, d). sd_handed (al_before (tr ! 0)) = [] \<and> sd_batcher (al_before (tr ! 0)) = None)
       (Invoke (\<lambda>_. False) 2 plain_call (\<lambda>_. quiet_attempt dropping_world) 2 direct_sender) = Some True"
      by code_simp
    then show ?thesis by (simp add: run(1) committed_def)
  qed
  have "may_resend (tr ! 0)"
    by (rule invoke_resends_only_undelivered [OF run(1) _ _ _ fresh])
      (simp_all add: len quiet_attempt_def dropping_world_def answering_def idle_world_def)
  then show ?thesis using run(1) len by blast
qed

text \<open>A defect: a call dropped by DropRPC does not end with ErrRPCDropped. The rejection reaches Invoke as a plain
  error, which is retried: with two attempts allowed the dropped request is sent to the server
  again.\<close>

theorem dropped_call_is_sent_again:
  assumes "Invoke uni (Suc (Suc n)) c ws retries d = Some (r, tr, d')" and "2 \<le> retries" and "tr \<noteq> []"
    and "snd (al_result (tr ! 0)) = Some err" and "errors_is err ErrRPCDropped" and "\<not> errors_as_delivery err"
    and "at_ctxErr (ws 0) = None" and "paused (at_pause (ws 1)) = None"
    and "cl_prepare c = None" and "call_chain c = None"
  shows "1 < length tr \<and> al_query (tr ! 0) = cl_query c \<and> al_query (tr ! 1) = cl_query c"
proof -
  have q: "attempt_query c m x = Inr (cl_query c)" for m x using assms(9,10) by (simp add: attempt_query_def)
  have lg: "al_query (hd lg) = cl_query c" "length lg = 1"
    if "invoke_turn uni c att i v x = Some (t, lg, y)" "i = 0 \<or> paused (at_pause att) = None" for att i v x t lg y
    using that by (auto simp: invoke_turn_def q case_prod_beta Let_def split: option.splits prod.splits if_splits)
  obtain t lg d1 where t: "invoke_turn uni c (ws 0) 0 (start_vars retries) d = Some (t, lg, d1)"
    using assms(1,2) by (auto simp: Invoke_def start_vars_def split: option.splits)
  have tr0: "tr ! 0 = hd lg"
    using assms(1,2) t lg(2) [OF t]
    by (auto simp: Invoke_def start_vars_def nth_append hd_conv_nth length_Suc_conv split: turn.splits)
  have "snd (al_result (hd lg)) = Some err" using assms(4) tr0 by simp
  then obtain v1 where again: "t = Again v1" "lv_maxAttempts v1 = retries"
    using t assms(6,7) by (auto simp: invoke_turn_def q case_prod_beta Let_def after_send_def start_vars_def split: option.splits)
  obtain t2 lg2 d2 where t2: "invoke_turn uni c (ws 1) 1 v1 d1 = Some (t2, lg2, d2)"
    using assms(1,2) t again by (auto simp: Invoke_def start_vars_def split: option.splits)
  obtain tr1 where "tr = lg @ lg2 @ tr1"
    using assms(1,2) t again t2 by (cases t2) (auto simp: Invoke_def start_vars_def)
  then show ?thesis
    using lg [OF t] lg [OF t2] assms(8) tr0 by (auto simp: nth_append hd_conv_nth length_Suc_conv)
qed

theorem dropped_call_is_sent_again_witness:
  "\<exists>r tr d'. Invoke (\<lambda>_. False) 2 plain_call (\<lambda>_. quiet_attempt dropping_world) 2 direct_sender = Some (r, tr, d') \<and>
     1 < length tr \<and> al_query (tr ! 1) = cl_query plain_call"
proof -
  from dropped_run obtain r tr d' where run:
    "Invoke (\<lambda>_. False) (Suc (Suc 0)) plain_call (\<lambda>_. quiet_attempt dropping_world) 2 direct_sender = Some (r, tr, d')"
    "map (\<lambda>al. (al_query al, al_result al)) tr =
       [(cl_query plain_call, (None, Some (Sentinel ErrRPCDropped))), (cl_query plain_call, (None, Some (Sentinel ErrRPCDropped)))]"
    by (auto simp: numeral_2_eq_2)
  then have "tr \<noteq> []" "snd (al_result (tr ! 0)) = Some (Sentinel ErrRPCDropped)"
    by (auto simp: map_eq_Cons_conv)
  then show ?thesis
    using dropped_call_is_sent_again [OF run(1)] run(1)
    by (auto simp: quiet_attempt_def paused_def plain_call_def call_chain_def ChainIDFromContext_def numeral_2_eq_2)
qed

section \<open>Chains\<close>

lemma after_send_success:
  assumes "after_send uni c att i m r v d = (Return obj None, d1)" and "call_chain c = Some ch" and "answer_view obj = AnswerOther"
  shows "map_of (sd_chains d1) ch = Some m"
proof -
  have "\<not> (after_rpc_error uni c att (fst r) (code, msg) v d = (Return obj None, d1) \<and> answer_view (fst r) = AnswerError code msg)"
    for code msg
    using assms(3)
    by (auto simp: after_rpc_error_def after_served_error_def Let_def split: if_splits prod.splits bool.splits pause.splits option.splits)
  then show ?thesis
    using assms
    by (auto simp: after_send_def Let_def set_guards_def SetChain_def update_conv' split: option.splits answer_view.splits if_splits)
qed

lemma invoke_loop_success:
  assumes "invoke_loop uni c ws retries n i v d = Some (Some (obj, None), tr, d')"
    and "call_chain c = Some ch" and "answer_view obj = AnswerOther"
  shows "tr \<noteq> [] \<and> map_of (sd_chains d') ch = Some (al_id (last tr))"
  using assms(1)
proof (induction n arbitrary: i v d tr)
  case (Suc n)
  from Suc.prems obtain t lg d1 where t: "invoke_turn uni c (ws i) i v d = Some (t, lg, d1)"
    by (auto split: if_splits option.splits)
  show ?case
  proof (cases t)
    case (Return o' e')
    with Suc.prems t have eq: "o' = obj" "e' = None" "lg = tr" "d1 = d'" by (auto split: if_splits)
    from t [unfolded Return eq] obtain m q r d0 d2 where
      "after_send uni c (ws i) (int i) m r v d2 = (Return obj None, d')"
      "tr = [\<lparr>al_id = m, al_query = q, al_before = d0, al_result = r, al_after = d2\<rparr>]"
      by (auto simp: invoke_turn_def Let_def split: option.splits prod.splits sum.splits)
    then show ?thesis using after_send_success [OF _ assms(2,3)] by auto
  next
    case (Again v1)
    then obtain tr1 where "invoke_loop uni c ws retries n (Suc i) v1 d1 = Some (Some (obj, None), tr1, d')" "tr = lg @ tr1"
      using Suc.prems t by (auto split: if_splits)
    then show ?thesis using Suc.IH by auto
  qed
qed (auto split: if_splits)

text \<open>Calls of one chain made one after the other are tied together: after a chained call has been
  answered, the next call of the chain is sent as invokeAfterMsg of the message that was answered,
  around its own query.\<close>

theorem chained_call_follows_answer:
  assumes "Invoke uni fuel c ws retries d = Some (Some (obj, None), tr, d')" and "answer_view obj = AnswerOther"
    and "call_chain c = Some ch" and "call_chain c2 = Some ch" and "al_id (last tr) \<noteq> 0"
    and "Invoke uni fuel2 c2 ws2 retries2 d' = Some (r2, tr2, d2)" and "tr2 \<noteq> []"
  shows "al_query (hd tr2) = InvokeAfterMsgRequest (al_id (last tr)) (cl_query c2)"
proof -
  have ch: "map_of (sd_chains d') ch = Some (al_id (last tr))"
    using invoke_loop_success [OF assms(1) [unfolded Invoke_def] assms(3,2)] by blast
  have "cl_prepare c2 = None" using assms(4) by (auto simp: call_chain_def bindingTempKey_def split: if_splits)
  then have q: "attempt_query c2 m x = Inr (wrapChain ch (cl_query c2) (sd_chains x))" for m x
    using assms(4) by (simp add: attempt_query_def)
  have ne: "fuel2 \<noteq> 0" using assms(6,7) by (cases fuel2) (auto simp: Invoke_def)
  then obtain t lg y where t: "invoke_turn uni c2 (ws2 0) 0 (start_vars retries2) d' = Some (t, lg, y)"
    using assms(6,7) by (cases fuel2) (auto simp: Invoke_def split: option.splits if_splits)
  have "lg \<noteq> [] \<and> al_query (hd lg) = wrapChain ch (cl_query c2) (sd_chains d')"
    using t by (auto simp: invoke_turn_def q case_prod_beta Let_def allocate_def split: option.splits)
  moreover have "hd tr2 = hd lg"
    using assms(6,7) t ne calculation
    by (cases fuel2) (auto simp: Invoke_def hd_append split: if_splits turn.splits)
  ultimately show ?thesis using assms(5) ch by (simp add: wrapChain_def)
qed

definition chain_call :: rpc_call where
  "chain_call = plain_call\<lparr>cl_chain := Some 7\<rparr>"

definition ok_answer :: rpc_value where
  "ok_answer = ResultObject (TLBool True)"

lemma chain_call_chain [simp]: "call_chain chain_call = Some 7"
  by (simp add: call_chain_def chain_call_def plain_call_def ChainIDFromContext_def bindingTempKey_def)

lemma chained_run:
  "map_option (\<lambda>(r, tr, d). (r, al_id (last tr) \<noteq> 0, map_option (\<lambda>(r2, tr2, d2). tr2 \<noteq> [])
       (Invoke (\<lambda>_. False) 1 chain_call (\<lambda>_. quiet_attempt (answering (\<lambda>m. Resolve m ok_answer))) 1 d)))
     (Invoke (\<lambda>_. False) 1 chain_call (\<lambda>_. quiet_attempt (answering (\<lambda>m. Resolve m ok_answer))) 1 direct_sender) =
   Some (Some (Some ok_answer, None), True, Some True)"
  by code_simp

theorem chained_call_follows_answer_witness:
  "\<exists>r tr d r2 tr2 d2.
     Invoke (\<lambda>_. False) 1 chain_call (\<lambda>_. quiet_attempt (answering (\<lambda>m. Resolve m ok_answer))) 1 direct_sender = Some (r, tr, d) \<and>
     Invoke (\<lambda>_. False) 1 chain_call (\<lambda>_. quiet_attempt (answering (\<lambda>m. Resolve m ok_answer))) 1 d = Some (r2, tr2, d2) \<and>
     al_query (hd tr2) = InvokeAfterMsgRequest (al_id (last tr)) (cl_query chain_call)"
proof -
  from chained_run obtain tr d r2 tr2 d2 where run:
    "Invoke (\<lambda>_. False) 1 chain_call (\<lambda>_. quiet_attempt (answering (\<lambda>m. Resolve m ok_answer))) 1 direct_sender =
       Some (Some (Some ok_answer, None), tr, d)"
    "Invoke (\<lambda>_. False) 1 chain_call (\<lambda>_. quiet_attempt (answering (\<lambda>m. Resolve m ok_answer))) 1 d = Some (r2, tr2, d2)"
    "al_id (last tr) \<noteq> 0" "tr2 \<noteq> []"
    by auto
  have "answer_view (Some ok_answer) = AnswerOther" by (simp add: answer_view_def ok_answer_def)
  from chained_call_follows_answer [OF run(1) this chain_call_chain chain_call_chain run(3,2,4)] run(1,2)
  show ?thesis by blast
qed

text \<open>A server that answers every attempt of a chained call with MSG_WAIT_FAILED is asked again without end: the limit on the
  attempts grows with every such answer.\<close>

definition wait_failed_answer :: rpc_value where
  "wait_failed_answer = ResultObject (Generated RPCErrorTypeID
     (WriteString (WriteInt [] 400) (map (\<lambda>c. of_nat (of_char c)) ''MSG_WAIT_FAILED'')))"

lemma wait_failed_keeps_asking:
  "map_option (\<lambda>(r, tr, d). (r, length tr))
     (Invoke (\<lambda>_. False) 3 chain_call (\<lambda>_. quiet_attempt (answering (\<lambda>m. Resolve m wait_failed_answer))) 1 direct_sender) =
   Some (None, 3)"
  by code_simp

end
