(* ===== verification/Data_Centers.thy ===== *)
theory Data_Centers
  imports Mtgo_Prelude "HOL-Library.Multiset"
begin

text \<open>
  Data centers and the selection of an endpoint: \<^verbatim>\<open>src/internal/session/data_center.go\<close> and
  \<^verbatim>\<open>src/internal/session/dc_options.go\<close>. Times are nanoseconds and an argument of the operations; the
  zero time is 0. \<^verbatim>\<open>rand.Shuffle\<close> is an argument; \<^verbatim>\<open>sort.Slice\<close>, which leaves the order of equal
  elements open, is the stable sort.
\<close>

section \<open>Data centers\<close>

record data_center =
  dc_ID :: int
  dc_TestMode :: bool
  dc_IPv6 :: bool
  dc_IPAddress :: string
  dc_PortValue :: int

definition prodIPv4 :: "(int \<times> string) list" where
  "prodIPv4 = [(1, ''149.154.175.53''), (2, ''149.154.167.51''), (3, ''149.154.175.100''), (4, ''149.154.167.91''), (5, ''149.154.171.5'')]"

definition testIPv4 :: "(int \<times> string) list" where
  "testIPv4 = [(1, ''149.154.175.10''), (2, ''149.154.167.40''), (3, ''149.154.175.117''), (4, ''149.154.167.91''), (5, ''149.154.171.5'')]"

definition prodIPv6 :: "(int \<times> string) list" where
  "prodIPv6 = [(1, ''2001:b28:f23d:f001::a''), (2, ''2001:b28:f23d:f001::e''), (3, ''2001:b28:f23d:f001::d''),
     (4, ''2001:b28:f23d:f001::14''), (5, ''2001:b28:f23d:f001::5'')]"

definition testIPv6 :: "(int \<times> string) list" where
  "testIPv6 = [(1, ''2001:b28:f23f:f001::a''), (2, ''2001:67c:0468:f001::a''), (3, ''2001:b28:f23f:f001::d''),
     (4, ''2001:67c:0468:f001::a''), (5, ''2001:67c:0468:f001::a'')]"

definition prodMediaIPv4 :: "(int \<times> string) list" where
  "prodMediaIPv4 = [(2, ''149.154.167.223''), (4, ''149.154.165.96'')]"

text \<open>A missing key reads as the empty string.\<close>

definition go_lookup :: "(int \<times> string) list \<Rightarrow> int \<Rightarrow> string" where
  "go_lookup m k = (case map_of m k of None \<Rightarrow> [] | Some v \<Rightarrow> v)"

definition dcIPv4Address :: "int \<Rightarrow> bool \<Rightarrow> string" where
  "dcIPv4Address i testMode = go_lookup (if testMode then testIPv4 else prodIPv4) i"

definition dcIPv6Address :: "int \<Rightarrow> bool \<Rightarrow> string" where
  "dcIPv6Address i testMode = go_lookup (if testMode then testIPv6 else prodIPv6) i"

definition DC_Address :: "data_center \<Rightarrow> string" where
  "DC_Address dc =
     (if dc_IPAddress dc \<noteq> [] then dc_IPAddress dc
      else if dc_IPv6 dc then dcIPv6Address (dc_ID dc) (dc_TestMode dc)
      else dcIPv4Address (dc_ID dc) (dc_TestMode dc))"

definition DC_Port :: "data_center \<Rightarrow> int" where
  "DC_Port dc = (if dc_PortValue dc > 0 then dc_PortValue dc else 443)"

definition MediaAddress :: "data_center \<Rightarrow> string" where
  "MediaAddress dc = (if dc_TestMode dc then [] else go_lookup prodMediaIPv4 (dc_ID dc))"

definition TransferDataCenter :: "data_center \<Rightarrow> data_center" where
  "TransferDataCenter dc = (if MediaAddress dc \<noteq> [] then dc\<lparr>dc_IPAddress := MediaAddress dc\<rparr> else dc)"

section \<open>The endpoint pool\<close>

datatype health_state = HealthUntested | HealthChecking | HealthOk | HealthError

record endpoint_health =
  eh_State :: health_state
  eh_OkAt :: int
  eh_ErrorAt :: int
  eh_CheckAt :: int

type_synonym endpoint = "data_center \<times> endpoint_health"

definition untested :: endpoint_health where
  "untested = \<lparr>eh_State = HealthUntested, eh_OkAt = 0, eh_ErrorAt = 0, eh_CheckAt = 0\<rparr>"

record option_pool =
  dp_dcID :: int
  dp_options :: "endpoint list"
  dp_coolDown :: int
  dp_familyUnreachable :: "(bool \<times> int) list"
  dp_familyProbeInterval :: int

datatype dc_error = ErrNoEndpoints | ErrAllEndpointsFailing

definition defaultFamilyProbeInterval :: int where
  "defaultFamilyProbeInterval = 5 * 60 * 1000000000"

definition NewDCOptionPool :: "int \<Rightarrow> int \<Rightarrow> option_pool" where
  "NewDCOptionPool dcID coolDown =
     \<lparr>dp_dcID = dcID, dp_options = [], dp_coolDown = coolDown, dp_familyUnreachable = [],
      dp_familyProbeInterval = defaultFamilyProbeInterval\<rparr>"

text \<open>The loops of RecordSuccess and RecordFailure change the first endpoint that matches.\<close>

fun update_first :: "data_center \<Rightarrow> (endpoint_health \<Rightarrow> endpoint_health) \<Rightarrow> endpoint list \<Rightarrow> endpoint list" where
  "update_first x f [] = []"
| "update_first x f ((y, h) # eps) = (if y = x then (y, f h) # eps else (y, h) # update_first x f eps)"

definition RecordSuccess :: "int \<Rightarrow> data_center \<Rightarrow> option_pool \<Rightarrow> option_pool" where
  "RecordSuccess now x p =
     p\<lparr>dp_options := update_first x (\<lambda>h. h\<lparr>eh_State := HealthOk, eh_OkAt := now\<rparr>) (dp_options p)\<rparr>"

definition RecordFailure :: "int \<Rightarrow> data_center \<Rightarrow> option_pool \<Rightarrow> option_pool" where
  "RecordFailure now x p =
     p\<lparr>dp_options := update_first x (\<lambda>h. h\<lparr>eh_State := HealthError, eh_ErrorAt := now\<rparr>) (dp_options p)\<rparr>"

text \<open>\<open>unreachable\<close>: the error is one of those isFamilyUnreachableError recognises.\<close>

definition RecordDialFailure :: "int \<Rightarrow> data_center \<Rightarrow> bool \<Rightarrow> option_pool \<Rightarrow> option_pool" where
  "RecordDialFailure now x unreachable p =
     (let p1 = RecordFailure now x p
      in if \<not> unreachable then p1
         else p1\<lparr>dp_familyUnreachable := AList.update (dc_IPv6 x) now (dp_familyUnreachable p1)\<rparr>)"

definition AddOption :: "data_center \<Rightarrow> option_pool \<Rightarrow> option_pool" where
  "AddOption x p =
     (if x \<in> set (map fst (dp_options p)) then p else p\<lparr>dp_options := dp_options p @ [(x, untested)]\<rparr>)"

text \<open>The set of existing options is taken once, before the loop.\<close>

definition UpdateOptions :: "data_center list \<Rightarrow> option_pool \<Rightarrow> option_pool" where
  "UpdateOptions xs p =
     (let existing = set (map fst (dp_options p))
      in p\<lparr>dp_options := dp_options p @ map (\<lambda>x. (x, untested)) (filter (\<lambda>x. x \<notin> existing) xs)\<rparr>)"

definition ResetHealth :: "option_pool \<Rightarrow> option_pool" where
  "ResetHealth p = p\<lparr>dp_options := map (\<lambda>(x, _). (x, untested)) (dp_options p), dp_familyUnreachable := []\<rparr>"

definition family_suppressed :: "int \<Rightarrow> option_pool \<Rightarrow> bool \<Rightarrow> bool" where
  "family_suppressed now p v6 \<longleftrightarrow>
     (case map_of (dp_familyUnreachable p) v6 of None \<Rightarrow> False | Some t \<Rightarrow> now - t < dp_familyProbeInterval p)"

definition excludeUnreachableFamilies :: "int \<Rightarrow> option_pool \<Rightarrow> data_center list \<Rightarrow> data_center list" where
  "excludeUnreachableFamilies now p candidates =
     (if \<not> family_suppressed now p False \<and> \<not> family_suppressed now p True then candidates
      else filter (\<lambda>c. \<not> family_suppressed now p (dc_IPv6 c)) candidates)"

definition rested :: "int \<Rightarrow> option_pool \<Rightarrow> endpoint_health \<Rightarrow> bool" where
  "rested now p h \<longleftrightarrow> eh_ErrorAt h + dp_coolDown p < now"

definition okEndpoints :: "int \<Rightarrow> option_pool \<Rightarrow> endpoint list" where
  "okEndpoints dcID p = filter (\<lambda>(x, h). dc_ID x = dcID \<and> eh_State h = HealthOk) (dp_options p)"

definition untestedEndpoints :: "int \<Rightarrow> option_pool \<Rightarrow> endpoint list" where
  "untestedEndpoints dcID p =
     filter (\<lambda>(x, h). dc_ID x = dcID \<and> (eh_State h = HealthUntested \<or> eh_State h = HealthChecking)) (dp_options p)"

definition retryEndpoints :: "int \<Rightarrow> int \<Rightarrow> option_pool \<Rightarrow> endpoint list" where
  "retryEndpoints now dcID p =
     filter (\<lambda>(x, h). dc_ID x = dcID \<and> eh_State h = HealthError \<and> rested now p h) (dp_options p)"

definition ranked_endpoints :: "(endpoint list \<Rightarrow> endpoint list) \<Rightarrow> int \<Rightarrow> int \<Rightarrow> option_pool \<Rightarrow> endpoint list" where
  "ranked_endpoints shuffle now dcID p =
     sort_key (\<lambda>(x, h). - eh_OkAt h) (okEndpoints dcID p) @ shuffle (untestedEndpoints dcID p) @
     sort_key (\<lambda>(x, h). eh_ErrorAt h) (retryEndpoints now dcID p)"

text \<open>appendEndpoint in the three loops.\<close>

definition appendEndpoint :: "int \<Rightarrow> endpoint \<Rightarrow> data_center list \<Rightarrow> data_center list" where
  "appendEndpoint mx ep candidates =
     (if mx > 0 \<and> int (length candidates) \<ge> mx then candidates else candidates @ [fst ep])"

definition CandidatesForDC ::
  "(endpoint list \<Rightarrow> endpoint list) \<Rightarrow> int \<Rightarrow> int \<Rightarrow> int \<Rightarrow> option_pool \<Rightarrow> dc_error + data_center list" where
  "CandidatesForDC shuffle now dcID mx p =
     (if dp_options p = [] then Inl ErrNoEndpoints
      else
        let candidates = fold (appendEndpoint mx) (ranked_endpoints shuffle now dcID p) []
        in if candidates = [] then Inl ErrAllEndpointsFailing
           else let filtered = excludeUnreachableFamilies now p candidates
                in Inr (if filtered \<noteq> [] then filtered else candidates))"

definition Candidates :: "(endpoint list \<Rightarrow> endpoint list) \<Rightarrow> int \<Rightarrow> int \<Rightarrow> option_pool \<Rightarrow> dc_error + data_center list" where
  "Candidates shuffle now mx p = CandidatesForDC shuffle now (dp_dcID p) mx p"

definition FindBest :: "(endpoint list \<Rightarrow> endpoint list) \<Rightarrow> int \<Rightarrow> option_pool \<Rightarrow> dc_error + data_center" where
  "FindBest shuffle now p =
     (case Candidates shuffle now 1 p of Inl e \<Rightarrow> Inl e | Inr cs \<Rightarrow> Inr (hd cs))"

definition OptionCount :: "option_pool \<Rightarrow> nat" where
  "OptionCount p = length (dp_options p)"

section \<open>Selection\<close>

text \<open>Which endpoints may be offered, and which of two comes first.\<close>

definition eligible :: "int \<Rightarrow> int \<Rightarrow> option_pool \<Rightarrow> endpoint \<Rightarrow> bool" where
  "eligible now dcID p ep \<longleftrightarrow>
     ep \<in> set (dp_options p) \<and> dc_ID (fst ep) = dcID \<and> (eh_State (snd ep) = HealthError \<longrightarrow> rested now p (snd ep))"

fun health_class :: "health_state \<Rightarrow> nat" where
  "health_class HealthOk = 0"
| "health_class HealthUntested = 1"
| "health_class HealthChecking = 1"
| "health_class HealthError = 2"

definition not_worse :: "endpoint \<Rightarrow> endpoint \<Rightarrow> bool" where
  "not_worse a b \<longleftrightarrow>
     health_class (eh_State (snd a)) < health_class (eh_State (snd b)) \<or>
     health_class (eh_State (snd a)) = health_class (eh_State (snd b)) \<and>
     (eh_State (snd a) = HealthOk \<longrightarrow> eh_OkAt (snd b) \<le> eh_OkAt (snd a)) \<and>
     (eh_State (snd a) = HealthError \<longrightarrow> eh_ErrorAt (snd a) \<le> eh_ErrorAt (snd b))"

lemma fold_append_all: "mx \<le> 0 \<Longrightarrow> fold (appendEndpoint mx) eps cs = cs @ map fst eps"
  by (induction eps arbitrary: cs) (simp_all add: appendEndpoint_def)

lemma fold_append_take:
  "0 < mx \<Longrightarrow> int (length cs) \<le> mx \<Longrightarrow>
    fold (appendEndpoint mx) eps cs = cs @ map fst (take (nat mx - length cs) eps)"
proof (induction eps arbitrary: cs)
  case (Cons ep eps)
  show ?case
  proof (cases "int (length cs) = mx")
    case False
    then have "nat mx - length cs = Suc (nat mx - Suc (length cs))" using Cons.prems by linarith
    then show ?thesis using Cons False by (simp add: appendEndpoint_def)
  qed (use Cons in \<open>simp add: appendEndpoint_def\<close>)
qed simp

lemma candidates_take:
  "fold (appendEndpoint mx) eps [] = map fst (if mx > 0 then take (nat mx) eps else eps)"
  using fold_append_all [of mx eps "[]"] fold_append_take [of mx "[]" eps] by simp

lemma not_worse_untested:
  assumes "health_class (eh_State (snd a)) = 1" and "health_class (eh_State (snd b)) = 1"
  shows "not_worse a b"
  using assms by (cases "eh_State (snd a)") (simp_all add: not_worse_def)

lemma ranked_sorted:
  assumes "\<And>xs. mset (shuffle xs) = mset xs"
  shows "sorted_wrt not_worse (ranked_endpoints shuffle now dcID p)"
proof -
  have set: "set (shuffle xs) = set xs" for xs using assms by (metis set_mset_mset)
  have ok: "sorted_wrt not_worse (sort_key (\<lambda>(x, h). - eh_OkAt h) (okEndpoints dcID p))"
    using sorted_sort_key [of "\<lambda>(x, h). - eh_OkAt h" "okEndpoints dcID p"]
    unfolding sorted_map by (rule sorted_wrt_mono_rel [rotated]) (auto simp: not_worse_def okEndpoints_def)
  have err: "sorted_wrt not_worse (sort_key (\<lambda>(x, h). eh_ErrorAt h) (retryEndpoints now dcID p))"
    using sorted_sort_key [of "\<lambda>(x, h). eh_ErrorAt h" "retryEndpoints now dcID p"]
    unfolding sorted_map by (rule sorted_wrt_mono_rel [rotated]) (auto simp: not_worse_def retryEndpoints_def)
  have unt: "sorted_wrt not_worse xs" if "\<forall>a \<in> set xs. health_class (eh_State (snd a)) = 1" for xs
    using that by (induction xs) (simp_all add: not_worse_untested)
  have "sorted_wrt not_worse (shuffle (untestedEndpoints dcID p))"
    by (rule unt) (auto simp: set untestedEndpoints_def)
  then show ?thesis
    using ok err unfolding ranked_endpoints_def
    by (auto simp: sorted_wrt_append set not_worse_def okEndpoints_def untestedEndpoints_def retryEndpoints_def)
qed

lemma ranked_mset:
  assumes "\<And>xs. mset (shuffle xs) = mset xs"
  shows "mset (ranked_endpoints shuffle now dcID p) = mset (filter (eligible now dcID p) (dp_options p))"
proof -
  have "mset (filter (eligible now dcID p) eps) =
      mset (filter (\<lambda>(x, h). dc_ID x = dcID \<and> eh_State h = HealthOk) eps) +
      (mset (filter (\<lambda>(x, h). dc_ID x = dcID \<and> (eh_State h = HealthUntested \<or> eh_State h = HealthChecking)) eps) +
       mset (filter (\<lambda>(x, h). dc_ID x = dcID \<and> eh_State h = HealthError \<and> rested now p h) eps))"
    if "set eps \<subseteq> set (dp_options p)" for eps
    using that
  proof (induction eps)
    case (Cons ep eps)
    then show ?case by (cases ep; cases "eh_State (snd ep)") (auto simp: eligible_def)
  qed simp
  then show ?thesis by (simp add: ranked_endpoints_def assms okEndpoints_def untestedEndpoints_def retryEndpoints_def)
qed


definition sample_dc :: "bool \<Rightarrow> int \<Rightarrow> data_center" where
  "sample_dc v6 port = \<lparr>dc_ID = 2, dc_TestMode = False, dc_IPv6 = v6, dc_IPAddress = [], dc_PortValue = port\<rparr>"

definition sample_pool :: option_pool where
  "sample_pool =
     RecordDialFailure 20 (sample_dc True 444) True (RecordSuccess 10 (sample_dc True 443)
       (UpdateOptions [sample_dc False 443, sample_dc True 444] (AddOption (sample_dc True 443) (NewDCOptionPool 2 1000))))"


section \<open>The pool over time\<close>

text \<open>Every endpoint is in the pool once.\<close>

definition pool_wf :: "option_pool \<Rightarrow> bool" where
  "pool_wf p \<longleftrightarrow> gm_wf (dp_options p)"

lemma update_first_keys [simp]: "map fst (update_first x f eps) = map fst eps"
  by (induction x f eps rule: update_first.induct) auto

lemma pool_wf_steps [inv_intros]:
  "pool_wf (NewDCOptionPool i c)"
  "pool_wf p \<Longrightarrow> pool_wf (RecordSuccess now x p)"
  "pool_wf p \<Longrightarrow> pool_wf (RecordFailure now x p)"
  "pool_wf p \<Longrightarrow> pool_wf (RecordDialFailure now x u p)"
  "pool_wf p \<Longrightarrow> pool_wf (AddOption x p)"
  "pool_wf p \<Longrightarrow> pool_wf (ResetHealth p)"
  "pool_wf p \<Longrightarrow> distinct xs \<Longrightarrow> pool_wf (UpdateOptions xs p)"
  by (auto simp: pool_wf_def NewDCOptionPool_def RecordSuccess_def RecordFailure_def RecordDialFailure_def AddOption_def
      ResetHealth_def UpdateOptions_def Let_def comp_def case_prod_beta)

lemma update_first_get:
  "gm_wf eps \<Longrightarrow> (x, h) \<in> set (update_first x f eps) \<Longrightarrow> \<exists>h0. (x, h0) \<in> set eps \<and> h = f h0"
  by (induction x f eps rule: update_first.induct) (auto split: if_splits intro: rev_image_eqI)

lemma candidate_eligible:
  assumes "\<And>xs. mset (shuffle xs) = mset xs" and "CandidatesForDC shuffle now dcID mx p = Inr cs" and "x \<in> set cs"
  shows "\<exists>h. eligible now dcID p (x, h)"
proof -
  let ?eps = "ranked_endpoints shuffle now dcID p"
  have "set cs \<subseteq> set (map fst (if mx > 0 then take (nat mx) ?eps else ?eps))"
    using assms(2) by (auto simp: CandidatesForDC_def candidates_take excludeUnreachableFamilies_def Let_def split: if_splits)
  then have "set cs \<subseteq> fst ` set ?eps" by (auto dest: in_set_takeD split: if_splits)
  moreover have "set ?eps = {ep \<in> set (dp_options p). eligible now dcID p ep}"
    using arg_cong [OF ranked_mset [OF assms(1), where now = now and dcID = dcID and p = p], of set_mset] by simp
  ultimately show ?thesis using assms(3) by force
qed

text \<open>An endpoint that just failed is not offered until its cool-down is over, however the untested
  endpoints are shuffled and however few endpoints there are, and it is the only one the failure
  affects.\<close>

theorem failed_endpoint_rests:
  assumes "\<And>xs. mset (shuffle xs) = mset xs" and "pool_wf p" and "t \<le> now + dp_coolDown p"
    and "CandidatesForDC shuffle t dcID mx (RecordDialFailure now x unreachable p) = Inr cs"
  shows "x \<notin> set cs \<and>
    (\<forall>y h. y \<noteq> x \<longrightarrow>
       ((y, h) \<in> set (dp_options (RecordDialFailure now x unreachable p)) \<longleftrightarrow> (y, h) \<in> set (dp_options p)))"
proof
  let ?p = "RecordDialFailure now x unreachable p"
  have opts: "dp_options ?p = update_first x (\<lambda>h. h\<lparr>eh_State := HealthError, eh_ErrorAt := now\<rparr>) (dp_options p)"
    "dp_coolDown ?p = dp_coolDown p"
    by (simp_all add: RecordDialFailure_def RecordFailure_def Let_def)
  show "x \<notin> set cs"
  proof
    assume "x \<in> set cs"
    from candidate_eligible [OF assms(1,4) this] obtain h where "eligible t dcID ?p (x, h)" by blast
    moreover from this have "(x, h) \<in> set (update_first x (\<lambda>h. h\<lparr>eh_State := HealthError, eh_ErrorAt := now\<rparr>) (dp_options p))"
      by (simp add: eligible_def opts)
    from update_first_get [OF assms(2) [unfolded pool_wf_def] this]
    obtain h0 where "h = h0\<lparr>eh_State := HealthError, eh_ErrorAt := now\<rparr>" by blast
    ultimately show False using assms(3) by (simp add: eligible_def opts rested_def)
  qed
  have "(y, h) \<in> set (update_first x f eps) \<longleftrightarrow> (y, h) \<in> set eps" if "y \<noteq> x" for y h f eps
    using that by (induction x f eps rule: update_first.induct) auto
  then show "\<forall>y h. y \<noteq> x \<longrightarrow> ((y, h) \<in> set (dp_options ?p) \<longleftrightarrow> (y, h) \<in> set (dp_options p))"
    by (auto simp: opts)
qed

lemma sample_pool_wf: "pool_wf (RecordSuccess 10 (sample_dc True 443)
    (UpdateOptions [sample_dc False 443, sample_dc True 444] (AddOption (sample_dc True 443) (NewDCOptionPool 2 1000))))"
  by (intro inv_intros) (simp add: sample_dc_def)

theorem failed_endpoint_rests_witness:
  "CandidatesForDC rev 1000 2 0 sample_pool = Inr [sample_dc False 443] \<and> sample_dc True 444 \<notin> set [sample_dc False 443]"
proof -
  have "CandidatesForDC rev 1000 2 0 sample_pool = Inr [sample_dc False 443]" by code_simp
  moreover from this [unfolded sample_pool_def] have "sample_dc True 444 \<notin> set [sample_dc False 443]"
    using failed_endpoint_rests [OF _ sample_pool_wf, of rev 1000 20 2 0 "sample_dc True 444" True "[sample_dc False 443]"]
    by (simp add: RecordSuccess_def UpdateOptions_def AddOption_def NewDCOptionPool_def Let_def)
  ultimately show ?thesis by blast
qed

text \<open>A defect: the suppression of an unreachable address family has no effect when one endpoint is asked for.
  The list is cut to one before suppressed endpoints are removed, and is kept when nothing would
  remain, so FindBest returns the highest-ranked endpoint even if its family is suppressed and
  reachable endpoints of the other family are eligible.\<close>

theorem find_best_ignores_suppression:
  assumes "dp_options p \<noteq> []" and "ranked_endpoints shuffle now (dp_dcID p) p \<noteq> []"
  shows "FindBest shuffle now p = Inr (fst (hd (ranked_endpoints shuffle now (dp_dcID p) p)))"
proof -
  obtain ep eps where "ranked_endpoints shuffle now (dp_dcID p) p = ep # eps" using assms(2) by (cases rule: list.exhaust) auto
  moreover from this have "fold (appendEndpoint 1) (ranked_endpoints shuffle now (dp_dcID p) p) [] = [fst ep]"
    by (simp only: candidates_take) simp
  ultimately show ?thesis
    using assms(1) by (simp add: FindBest_def Candidates_def CandidatesForDC_def excludeUnreachableFamilies_def Let_def del: fold_simps)
qed

theorem find_best_ignores_suppression_witness:
  "family_suppressed 30 sample_pool True \<and> \<not> family_suppressed 30 sample_pool False \<and>
   eligible 30 2 sample_pool (sample_dc False 443, untested) \<and> FindBest rev 30 sample_pool = Inr (sample_dc True 443)"
proof -
  have "dp_options sample_pool \<noteq> []" "ranked_endpoints rev 30 (dp_dcID sample_pool) sample_pool \<noteq> []"
    "fst (hd (ranked_endpoints rev 30 (dp_dcID sample_pool) sample_pool)) = sample_dc True 443"
    by code_simp+
  then have "FindBest rev 30 sample_pool = Inr (sample_dc True 443)"
    using find_best_ignores_suppression [of sample_pool rev 30] by simp
  moreover have "family_suppressed 30 sample_pool True" "\<not> family_suppressed 30 sample_pool False"
    "eligible 30 2 sample_pool (sample_dc False 443, untested)"
    by code_simp+
  ultimately show ?thesis by blast
qed

text \<open>A batch that names a new endpoint twice adds it twice, and a failure then marks only the first copy: the endpoint
  is offered again at once.\<close>

lemma duplicate_update_defeats_cool_down:
  "CandidatesForDC rev 6 2 0 (RecordFailure 5 (sample_dc False 443)
      (UpdateOptions [sample_dc False 443, sample_dc False 443] (NewDCOptionPool 2 1000))) = Inr [sample_dc False 443]"
  by code_simp

end
