(* ===== verification/Conn_Pool.thy ===== *)
theory Conn_Pool
  imports Data_Centers
begin

text \<open>
  The pool of warm connections, \<^verbatim>\<open>src/internal/session/conn_pool.go\<close>. A connection is its identity, a
  number; \<open>cp_shut\<close> is a history variable: the connections the pool has closed, in order. The one
  expiry timer is its number and the time it fires. Times are nanoseconds, read by each operation.
\<close>

section \<open>Definitions\<close>

record pool_entry =
  pe_option :: data_center
  pe_conn :: nat
  pe_created :: int

record conn_pool =
  cp_entries :: "pool_entry list"
  cp_ttl :: int
  cp_timer :: "(nat \<times> int) option"
  cp_timerID :: nat
  cp_closed :: bool
  cp_shut :: "nat list"

definition NewConnectionPool :: "int \<Rightarrow> conn_pool" where
  "NewConnectionPool ttl =
     \<lparr>cp_entries = [], cp_ttl = ttl, cp_timer = None, cp_timerID = 0, cp_closed = False, cp_shut = []\<rparr>"

definition closeConnections :: "nat list \<Rightarrow> conn_pool \<Rightarrow> conn_pool" where
  "closeConnections conns p = p\<lparr>cp_shut := cp_shut p @ conns\<rparr>"

text \<open>The earliest expiry, by the loop over the entries after the first.\<close>

definition first_expiry :: "int \<Rightarrow> pool_entry list \<Rightarrow> int" where
  "first_expiry ttl es =
     fold (\<lambda>e t. if pe_created e + ttl < t then pe_created e + ttl else t) (tl es) (pe_created (hd es) + ttl)"

definition scheduleExpiryLocked :: "int \<Rightarrow> conn_pool \<Rightarrow> conn_pool" where
  "scheduleExpiryLocked now p =
     (if cp_closed p \<or> cp_ttl p \<le> 0 \<or> cp_entries p = []
      then if cp_timer p \<noteq> None then p\<lparr>cp_timerID := Suc (cp_timerID p), cp_timer := None\<rparr> else p
      else if cp_timer p \<noteq> None then p
      else
        let expiresAt = first_expiry (cp_ttl p) (cp_entries p);
            delay = (if expiresAt - now < 0 then 0 else expiresAt - now)
        in p\<lparr>cp_timerID := Suc (cp_timerID p), cp_timer := Some (Suc (cp_timerID p), now + delay)\<rparr>)"

definition entry_for :: "int \<Rightarrow> data_center \<Rightarrow> pool_entry \<Rightarrow> bool" where
  "entry_for dcID x e \<longleftrightarrow> dc_ID (pe_option e) = dcID \<and> pe_option e = x"

text \<open>The index of the first matching entry, as the loops find it.\<close>

fun find_entry :: "int \<Rightarrow> data_center \<Rightarrow> pool_entry list \<Rightarrow> nat option" where
  "find_entry dcID x [] = None"
| "find_entry dcID x (e # es) = (if entry_for dcID x e then Some 0 else map_option Suc (find_entry dcID x es))"

definition removeLocked :: "nat \<Rightarrow> conn_pool \<Rightarrow> conn_pool" where
  "removeLocked i p = p\<lparr>cp_entries := take i (cp_entries p) @ drop (Suc i) (cp_entries p)\<rparr>"

definition Pool_Get :: "int \<Rightarrow> int \<Rightarrow> data_center \<Rightarrow> conn_pool \<Rightarrow> nat option \<times> conn_pool" where
  "Pool_Get now dcID x p =
     (case find_entry dcID x (cp_entries p) of
        None \<Rightarrow> (None, p)
      | Some i \<Rightarrow>
          let e = cp_entries p ! i;
              p1 = scheduleExpiryLocked now (removeLocked i p)
          in if now - pe_created e < cp_ttl p then (Some (pe_conn e), p1)
             else (None, closeConnections [pe_conn e] p1))"

text \<open>A nil connection is ignored.\<close>

definition Pool_Put :: "int \<Rightarrow> int \<Rightarrow> data_center \<Rightarrow> nat option \<Rightarrow> conn_pool \<Rightarrow> conn_pool" where
  "Pool_Put now dcID x conn p =
     (case conn of
        None \<Rightarrow> p
      | Some c \<Rightarrow>
          if cp_closed p \<or> cp_ttl p \<le> 0 then closeConnections [c] p
          else
            let new = \<lparr>pe_option = x, pe_conn = c, pe_created = now\<rparr>
            in case find_entry dcID x (cp_entries p) of
                 Some i \<Rightarrow>
                   closeConnections [pe_conn (cp_entries p ! i)]
                     (scheduleExpiryLocked now (p\<lparr>cp_entries := (cp_entries p)[i := new]\<rparr>))
               | None \<Rightarrow> scheduleExpiryLocked now (p\<lparr>cp_entries := cp_entries p @ [new]\<rparr>))"

definition Pool_Evict :: "int \<Rightarrow> int \<Rightarrow> data_center \<Rightarrow> conn_pool \<Rightarrow> conn_pool" where
  "Pool_Evict now dcID x p =
     (case find_entry dcID x (cp_entries p) of
        None \<Rightarrow> p
      | Some i \<Rightarrow> closeConnections [pe_conn (cp_entries p ! i)] (scheduleExpiryLocked now (removeLocked i p)))"

definition drop_expired :: "int \<Rightarrow> conn_pool \<Rightarrow> nat list \<times> conn_pool" where
  "drop_expired now p =
     (let old = filter (\<lambda>e. now - pe_created e \<ge> cp_ttl p) (cp_entries p);
          kept = filter (\<lambda>e. \<not> now - pe_created e \<ge> cp_ttl p) (cp_entries p);
          p1 = scheduleExpiryLocked now (p\<lparr>cp_entries := kept\<rparr>)
      in (map pe_conn old, closeConnections (map pe_conn old) p1))"

definition Pool_Purge :: "int \<Rightarrow> conn_pool \<Rightarrow> nat \<times> conn_pool" where
  "Pool_Purge now p = (let (closed, p1) = drop_expired now p in (length closed, p1))"

definition takeAllLocked :: "conn_pool \<Rightarrow> pool_entry list \<times> conn_pool" where
  "takeAllLocked p = (cp_entries p, p\<lparr>cp_timerID := Suc (cp_timerID p), cp_timer := None, cp_entries := []\<rparr>)"

definition Pool_Clear :: "conn_pool \<Rightarrow> conn_pool" where
  "Pool_Clear p = (let (es, p1) = takeAllLocked p in closeConnections (map pe_conn es) p1)"

definition Pool_Close :: "conn_pool \<Rightarrow> conn_pool" where
  "Pool_Close p = (let (es, p1) = takeAllLocked (p\<lparr>cp_closed := True\<rparr>) in closeConnections (map pe_conn es) p1)"

definition Pool_expire :: "int \<Rightarrow> nat \<Rightarrow> conn_pool \<Rightarrow> conn_pool" where
  "Pool_expire now timerID p =
     (if timerID \<noteq> cp_timerID p then p
      else if cp_closed p then p\<lparr>cp_timer := None\<rparr>
      else snd (drop_expired now (p\<lparr>cp_timer := None\<rparr>)))"

definition Pool_Count :: "conn_pool \<Rightarrow> nat" where
  "Pool_Count p = length (cp_entries p)"

section \<open>Histories\<close>

text \<open>Operations with their clock reading. A timer callback may come late, after its timer was stopped, so any number
  may be passed to it.\<close>

datatype pool_op =
    OpGet int data_center
  | OpPut int data_center "nat option"
  | OpEvict int data_center
  | OpPurge
  | OpClear
  | OpClose
  | OpExpire nat

text \<open>The connections handed out, and the pool.\<close>

fun pool_exec :: "int \<Rightarrow> pool_op \<Rightarrow> nat list \<times> conn_pool \<Rightarrow> nat list \<times> conn_pool" where
  "pool_exec now (OpGet i x) (out, p) =
     (case Pool_Get now i x p of (Some c, p1) \<Rightarrow> (out @ [c], p1) | (None, p1) \<Rightarrow> (out, p1))"
| "pool_exec now (OpPut i x c) (out, p) = (out, Pool_Put now i x c p)"
| "pool_exec now (OpEvict i x) (out, p) = (out, Pool_Evict now i x p)"
| "pool_exec now OpPurge (out, p) = (out, snd (Pool_Purge now p))"
| "pool_exec now OpClear (out, p) = (out, Pool_Clear p)"
| "pool_exec now OpClose (out, p) = (out, Pool_Close p)"
| "pool_exec now (OpExpire n) (out, p) = (out, Pool_expire now n p)"

fun put_conns :: "pool_op list \<Rightarrow> nat list" where
  "put_conns (OpPut i x (Some c) # ops) = c # put_conns ops"
| "put_conns (op # ops) = put_conns ops"
| "put_conns [] = []"

text \<open>A run at increasing clock readings, from \<open>t0\<close>.\<close>

fun pool_run :: "(int \<times> pool_op) list \<Rightarrow> nat list \<times> conn_pool \<Rightarrow> nat list \<times> conn_pool" where
  "pool_run [] st = st"
| "pool_run ((now, op) # ops) st = pool_run ops (pool_exec now op st)"

fun run_end :: "int \<Rightarrow> (int \<times> pool_op) list \<Rightarrow> int" where
  "run_end t [] = t"
| "run_end t ((now, op) # ops) = run_end now ops"

fun clock_ok :: "int \<Rightarrow> (int \<times> pool_op) list \<Rightarrow> bool" where
  "clock_ok t [] \<longleftrightarrow> True"
| "clock_ok t ((now, op) # ops) \<longleftrightarrow> t \<le> now \<and> clock_ok now ops"

section \<open>Ownership\<close>

lemma find_entry_Some:
  "find_entry i x es = Some n \<Longrightarrow> n < length es \<and> entry_for i x (es ! n)"
  by (induction es arbitrary: n) (auto split: if_splits)

lemma schedule_fields [simp]:
  "cp_entries (scheduleExpiryLocked now p) = cp_entries p" "cp_shut (scheduleExpiryLocked now p) = cp_shut p"
  "cp_closed (scheduleExpiryLocked now p) = cp_closed p" "cp_ttl (scheduleExpiryLocked now p) = cp_ttl p"
  by (simp_all add: scheduleExpiryLocked_def Let_def)

lemma close_fields [simp]:
  "cp_entries (closeConnections cs p) = cp_entries p" "cp_shut (closeConnections cs p) = cp_shut p @ cs"
  "cp_closed (closeConnections cs p) = cp_closed p" "cp_ttl (closeConnections cs p) = cp_ttl p"
  "cp_timer (closeConnections cs p) = cp_timer p" "cp_timerID (closeConnections cs p) = cp_timerID p"
  by (simp_all add: closeConnections_def)

lemma mset_remove:
  "n < length es \<Longrightarrow> mset (map pe_conn es) = add_mset (pe_conn (es ! n)) (mset (map pe_conn (take n es @ drop (Suc n) es)))"
  by (subst id_take_nth_drop [of n es]) simp_all

lemma mset_replace:
  "n < length es \<Longrightarrow>
    add_mset (pe_conn (es ! n)) (image_mset pe_conn (mset (es[n := e]))) = add_mset (pe_conn e) (image_mset pe_conn (mset es))"
proof -
  assume "n < length es"
  then have "mset (map pe_conn (es[n := e])) = add_mset (pe_conn e) (mset (map pe_conn es) - {#pe_conn (es ! n)#})"
    "pe_conn (es ! n) \<in># mset (map pe_conn es)"
    by (simp_all add: map_update mset_update)
  then show ?thesis by simp
qed

text \<open>What the pool holds, has closed and has handed out.\<close>

definition owned :: "nat list \<times> conn_pool \<Rightarrow> nat multiset" where
  "owned st = mset (map pe_conn (cp_entries (snd st))) + mset (cp_shut (snd st)) + mset (fst st)"

lemma drop_expired_owned: "owned (out, snd (drop_expired now p)) = owned (out, p)"
proof -
  have "mset (map pe_conn es) = mset (map pe_conn (filter P es)) + mset (map pe_conn (filter (\<lambda>e. \<not> P e) es))" for P es
    by (induction es) auto
  from this [of "cp_entries p" "\<lambda>e. now - pe_created e \<ge> cp_ttl p"] show ?thesis
    by (simp add: owned_def drop_expired_def Let_def)
qed

lemma pool_exec_owned: "owned (pool_exec now op (out, p)) = owned (out, p) + mset (put_conns [op])"
proof (cases op)
  case (OpGet i x)
  show ?thesis
  proof (cases "find_entry i x (cp_entries p)")
    case (Some n)
    from mset_remove [OF conjunct1 [OF find_entry_Some [OF Some]]] show ?thesis
      by (simp add: OpGet Pool_Get_def Some Let_def owned_def removeLocked_def)
  qed (simp add: OpGet Pool_Get_def)
next
  case (OpPut i x c)
  show ?thesis
  proof (cases c)
    case (Some c')
    show ?thesis
      using find_entry_Some [of i x "cp_entries p"]
      by (auto simp: OpPut Some Pool_Put_def Let_def owned_def mset_replace split: option.splits)
  qed (simp add: OpPut Pool_Put_def)
next
  case (OpEvict i x)
  show ?thesis
  proof (cases "find_entry i x (cp_entries p)")
    case (Some n)
    from mset_remove [OF conjunct1 [OF find_entry_Some [OF Some]]] show ?thesis
      by (simp add: OpEvict Pool_Evict_def Some owned_def removeLocked_def)
  qed (simp add: OpEvict Pool_Evict_def)
next
  case OpPurge
  then show ?thesis using drop_expired_owned [of out now p] by (simp add: Pool_Purge_def case_prod_beta)
next
  case (OpExpire n)
  have "owned (out, p\<lparr>cp_timer := None\<rparr>) = owned (out, p)" by (simp add: owned_def)
  then show ?thesis using OpExpire drop_expired_owned [of out now "p\<lparr>cp_timer := None\<rparr>"] by (simp add: Pool_expire_def)
qed (simp_all add: Pool_Clear_def Pool_Close_def takeAllLocked_def owned_def)

lemma put_conns_Cons: "put_conns (op # ops) = put_conns [op] @ put_conns ops"
  by (cases "(op # ops)" rule: put_conns.cases) auto

lemma pool_run_owned: "owned (pool_run ops (out, p)) = owned (out, p) + mset (put_conns (map snd ops))"
proof (induction ops arbitrary: out p)
  case (Cons o' ops)
  obtain now op out' p' where "o' = (now, op)" "pool_exec now op (out, p) = (out', p')" by (metis surj_pair)
  then show ?case
    using Cons.IH [of out' p'] pool_exec_owned [of now op out p] put_conns_Cons [of op "map snd ops"] by simp
qed simp

text \<open>Property C30 (invariant): no connection is lost, used twice or closed twice. After any operations, in any order and at
  any clock readings, the connections put into the pool are exactly those it still holds, those it has
  closed and those it has handed out, each as often as it was put.\<close>

theorem connections_have_one_owner:
  "case pool_run ops ([], NewConnectionPool ttl) of (out, p) \<Rightarrow>
     mset (put_conns (map snd ops)) = mset (map pe_conn (cp_entries p) @ cp_shut p @ out)"
  using pool_run_owned [of ops "[]" "NewConnectionPool ttl"]
  by (simp add: owned_def NewConnectionPool_def case_prod_beta union_assoc)

section \<open>Expiry\<close>

lemma first_expiry_le:
  assumes "e \<in> set es"
  shows "first_expiry ttl es \<le> pe_created e + ttl"
proof -
  have fold: "fold (\<lambda>e t. if pe_created e + ttl < t then pe_created e + ttl else t) xs t \<le> t \<and>
      (\<forall>x \<in> set xs. fold (\<lambda>e t. if pe_created e + ttl < t then pe_created e + ttl else t) xs t \<le> pe_created x + ttl)" for xs t
  proof (induction xs arbitrary: t)
    case (Cons a xs)
    define t' where "t' = (if pe_created a + ttl < t then pe_created a + ttl else t)"
    have "t' \<le> t" "t' \<le> pe_created a + ttl" by (simp_all add: t'_def)
    moreover note Cons.IH [of t']
    ultimately show ?case by (simp flip: t'_def)
  qed simp
  show ?thesis
    using assms fold [of "tl es" "pe_created (hd es) + ttl"] by (cases es) (auto simp: first_expiry_def)
qed

text \<open>At time \<open>n\<close>: entries are not from the future; there is no timer without entries; and while the pool is in use and
  holds entries, the timer with the current number fires no later than any of them expires, or than \<open>n\<close>.\<close>

definition armed :: "int \<Rightarrow> conn_pool \<Rightarrow> bool" where
  "armed n p \<longleftrightarrow>
     (\<forall>e \<in> set (cp_entries p). pe_created e \<le> n) \<and>
     (cp_closed p \<or> cp_ttl p \<le> 0 \<longrightarrow> cp_entries p = []) \<and>
     (cp_entries p = [] \<longrightarrow> cp_timer p = None) \<and>
     (cp_entries p \<noteq> [] \<longrightarrow>
        (\<exists>t. cp_timer p = Some (cp_timerID p, t) \<and> (\<forall>e \<in> set (cp_entries p). t \<le> max (pe_created e + cp_ttl p) n)))"

text \<open>A timer that may stay: with the current number and early enough for entries made from now on.\<close>

definition timer_ok :: "int \<Rightarrow> conn_pool \<Rightarrow> bool" where
  "timer_ok n p \<longleftrightarrow>
     (case cp_timer p of
        None \<Rightarrow> True
      | Some (i, t) \<Rightarrow> i = cp_timerID p \<and> (\<forall>e \<in> set (cp_entries p). t \<le> max (pe_created e + cp_ttl p) n))"

lemma armed_schedule:
  assumes "timer_ok n p" and "\<forall>e \<in> set (cp_entries p). pe_created e \<le> n" and "cp_closed p \<or> cp_ttl p \<le> 0 \<longrightarrow> cp_entries p = []"
  shows "armed n (scheduleExpiryLocked n p)"
proof (cases "cp_timer p")
  case None
  show ?thesis
    using assms None first_expiry_le [of _ "cp_entries p" "cp_ttl p"]
    by (cases "cp_entries p = []") (auto simp: armed_def scheduleExpiryLocked_def Let_def le_max_iff_disj)
next
  case (Some it)
  then show ?thesis using assms by (auto simp: armed_def timer_ok_def scheduleExpiryLocked_def)
qed

lemma armed_later: "armed n p \<Longrightarrow> n \<le> n' \<Longrightarrow> armed n' p"
  by (fastforce simp: armed_def)

lemma armed_timer_ok: "armed n p \<Longrightarrow> timer_ok n p"
  by (auto simp: armed_def timer_ok_def split: option.splits)

lemma armed_subset:
  assumes "armed n p" and "set es \<subseteq> set (cp_entries p)"
  shows "armed n (scheduleExpiryLocked n (p\<lparr>cp_entries := es\<rparr>))"
  by (rule armed_schedule) (use assms armed_timer_ok [OF assms(1)] in \<open>auto simp: armed_def timer_ok_def split: option.splits\<close>)

lemma armed_put:
  assumes "armed n p" and "\<not> cp_closed p" and "0 < cp_ttl p" and "pe_created new = n"
    and "set es \<subseteq> insert new (set (cp_entries p))"
  shows "armed n (scheduleExpiryLocked n (p\<lparr>cp_entries := es\<rparr>))"
proof (rule armed_schedule)
  show "timer_ok n (p\<lparr>cp_entries := es\<rparr>)"
  proof (cases "cp_timer p")
    case (Some it)
    then obtain t where t: "cp_timer p = Some (cp_timerID p, t)"
      "\<forall>e \<in> set (cp_entries p). t \<le> max (pe_created e + cp_ttl p) n" "cp_entries p \<noteq> []"
      using assms(1) by (auto simp: armed_def)
    then obtain e where "e \<in> set (cp_entries p)" by (cases "cp_entries p") auto
    then have "pe_created e \<le> n" "t \<le> max (pe_created e + cp_ttl p) n" using assms(1) t(2) by (auto simp: armed_def)
    then have "t \<le> n + cp_ttl p" using assms(3) by linarith
    then show ?thesis using t assms(4,5) by (auto simp: timer_ok_def)
  qed (simp add: timer_ok_def)
qed (use assms in \<open>auto simp: armed_def\<close>)

lemma armed_close [simp]: "armed n (closeConnections cs p) = armed n p"
  by (simp add: armed_def)

lemma armed_drop_expired:
  assumes "armed n p \<or> (\<exists>p'. armed n p' \<and> p = p'\<lparr>cp_timer := None\<rparr>)"
  shows "armed n (snd (drop_expired n p))"
proof -
  have "timer_ok n p" "\<forall>e \<in> set (cp_entries p). pe_created e \<le> n" "cp_closed p \<or> cp_ttl p \<le> 0 \<longrightarrow> cp_entries p = []"
    using assms by (auto simp: armed_def timer_ok_def split: option.splits)
  then show ?thesis
    by (simp add: drop_expired_def Let_def) (rule armed_schedule, auto simp: timer_ok_def split: option.splits)
qed

lemma armed_exec:
  assumes "armed n p" and "n \<le> now"
  shows "armed now (snd (pool_exec now op (out, p)))"
proof -
  note a = armed_later [OF assms]
  have sub: "set (take i es @ drop (Suc i) es) \<subseteq> set es" for i and es :: "pool_entry list"
    by (auto dest: in_set_takeD in_set_dropD)
  have rem: "armed now (scheduleExpiryLocked now (removeLocked i p))" for i
    unfolding removeLocked_def by (rule armed_subset [OF a sub])
  show ?thesis
  proof (cases op)
    case (OpPut i x c)
    show ?thesis
    proof (cases c)
      case (Some c')
      note put = armed_put [OF a _ _, where new = "\<lparr>pe_option = x, pe_conn = c', pe_created = now\<rparr>"]
      show ?thesis
        using a put [OF _ _ _ set_update_subset_insert] put [of "cp_entries p @ [\<lparr>pe_option = x, pe_conn = c', pe_created = now\<rparr>]"]
        by (cases "find_entry i x (cp_entries p)") (simp_all add: OpPut Some Pool_Put_def Let_def)
    qed (use a in \<open>simp add: OpPut Pool_Put_def\<close>)
  next
    case (OpGet i x)
    then show ?thesis using a rem by (cases "find_entry i x (cp_entries p)") (simp_all add: Pool_Get_def Let_def)
  next
    case (OpEvict i x)
    then show ?thesis using a rem by (cases "find_entry i x (cp_entries p)") (simp_all add: Pool_Evict_def)
  next
    case OpPurge
    then show ?thesis using armed_drop_expired [of now p] a by (simp add: Pool_Purge_def case_prod_beta Let_def)
  next
    case (OpExpire k)
    have "armed now (p\<lparr>cp_timer := None\<rparr>)" if "cp_closed p" using a that by (simp add: armed_def)
    moreover have "armed now (snd (drop_expired now (p\<lparr>cp_timer := None\<rparr>)))"
      by (rule armed_drop_expired) (use a in blast)
    ultimately show ?thesis using a by (simp add: OpExpire Pool_expire_def)
  qed (simp_all add: Pool_Clear_def Pool_Close_def takeAllLocked_def armed_def)
qed

lemma armed_run:
  "armed t (snd st) \<Longrightarrow> clock_ok t ops \<Longrightarrow> armed (run_end t ops) (snd (pool_run ops st))"
proof (induction ops arbitrary: t st)
  case (Cons o' ops)
  obtain now op where o': "o' = (now, op)" by (cases o')
  have "armed now (snd (pool_exec now op st))"
    using armed_exec [of t "snd st" now op "fst st"] Cons.prems o' by simp
  then show ?case using Cons.IH Cons.prems(2) o' by simp
qed simp

lemma drop_expired_ttl [simp]: "cp_ttl (snd (drop_expired now p)) = cp_ttl p"
  by (simp add: drop_expired_def Let_def)

lemma pool_exec_ttl: "cp_ttl (snd (pool_exec now op (out, p))) = cp_ttl p"
proof (cases op)
  case (OpPut i x c)
  then show ?thesis by (cases c; cases "find_entry i x (cp_entries p)") (simp_all add: Pool_Put_def Let_def)
next
  case (OpGet i x)
  then show ?thesis by (cases "find_entry i x (cp_entries p)") (simp_all add: Pool_Get_def removeLocked_def Let_def)
next
  case (OpEvict i x)
  then show ?thesis by (cases "find_entry i x (cp_entries p)") (simp_all add: Pool_Evict_def removeLocked_def)
qed (simp_all add: Pool_Purge_def Pool_Clear_def Pool_Close_def Pool_expire_def takeAllLocked_def case_prod_beta Let_def)

lemma pool_run_ttl: "cp_ttl (snd (pool_run ops st)) = cp_ttl (snd st)"
proof (induction ops arbitrary: st)
  case (Cons o' ops)
  then show ?case using pool_exec_ttl [of "fst o'" "snd o'" "fst st" "snd st"] by (cases o') simp
qed simp

text \<open>Expired connections do not linger. As long as the pool holds connections, its timer is set and
  fires no later than the first of them expires (or at once, if that time has passed), and when it
  fires exactly the expired ones are closed and the timer is set again for the rest.\<close>

theorem expired_connections_are_closed:
  assumes "clock_ok t ops" and "pool_run ops ([], NewConnectionPool ttl) = (out, p)" and "cp_entries p \<noteq> []"
  shows "\<exists>fires. cp_timer p = Some (cp_timerID p, fires) \<and>
    (\<forall>e \<in> set (cp_entries p). fires \<le> max (pe_created e + ttl) (run_end t ops)) \<and>
    (\<forall>now \<ge> run_end t ops.
       cp_entries (Pool_expire now (cp_timerID p) p) = filter (\<lambda>e. now < pe_created e + ttl) (cp_entries p) \<and>
       armed now (Pool_expire now (cp_timerID p) p))"
proof -
  note ttl = pool_run_ttl [of ops]
  have a: "armed (run_end t ops) p"
    using armed_run [of t "([], NewConnectionPool ttl)" ops] assms(1,2) by (simp add: armed_def NewConnectionPool_def)
  have p: "cp_ttl p = ttl" "\<not> cp_closed p"
    using ttl [of "([], NewConnectionPool ttl)"] assms(2,3) a by (auto simp: NewConnectionPool_def armed_def)
  have "armed now (Pool_expire now (cp_timerID p) p)" if "now \<ge> run_end t ops" for now
    using armed_exec [OF a that, of "OpExpire (cp_timerID p)" out] by simp
  moreover have "cp_entries (Pool_expire now (cp_timerID p) p) = filter (\<lambda>e. now < pe_created e + ttl) (cp_entries p)" for now
    by (simp add: Pool_expire_def p drop_expired_def Let_def) (rule filter_cong, auto)
  ultimately show ?thesis using a assms(3) p(1) by (auto simp: armed_def)
qed

definition sample_ops :: "(int \<times> pool_op) list" where
  "sample_ops =
     [(1, OpPut 2 (sample_dc False 443) (Some 7)), (5, OpPut 2 (sample_dc True 443) (Some 8)), (6, OpPut 2 (sample_dc False 443) (Some 9)),
      (8, OpGet 2 (sample_dc True 443))]"

theorem expired_connections_are_closed_witness:
  "\<exists>fires. cp_timer (snd (pool_run sample_ops ([], NewConnectionPool 10))) = Some (1, fires) \<and> fires \<le> 16"
proof -
  let ?p = "snd (pool_run sample_ops ([], NewConnectionPool 10))"
  have p: "cp_timerID ?p = 1" "cp_entries ?p = [\<lparr>pe_option = sample_dc False 443, pe_conn = 9, pe_created = 6\<rparr>]"
    by code_simp+
  have "clock_ok 0 sample_ops" "run_end 0 sample_ops = 8" by code_simp+
  with expired_connections_are_closed [of 0 sample_ops 10 "fst (pool_run sample_ops ([], NewConnectionPool 10))" ?p]
  show ?thesis by (auto simp: p)
qed

end
