(* ===== verification/SRP_Secrets.thy ===== *)
theory SRP_Secrets
  imports Big_Integers
begin

text \<open>
  The password check by SRP, \<^verbatim>\<open>src/internal/crypto/srp.go\<close>, and the Diffie-Hellman part of secret
  chats in \<^verbatim>\<open>src/internal/crypto/secret.go\<close>. The hashes, PBKDF2 and ProbablyPrime(20) are parameters.
  Random reads are a sequence of answers; a password is its bytes.
\<close>

section \<open>SRP\<close>

datatype srp_error = SRPInvalidPrime | SRPInvalidGenerator | SRPServerBRange | SRPRandom

record srp_result =
  sr_SrpID :: i64
  sr_A :: bytes
  sr_M1 :: bytes

definition sha256sum :: "(bytes \<Rightarrow> bytes) \<Rightarrow> bytes list \<Rightarrow> bytes" where
  "sha256sum sha parts = sha (concat parts)"

definition xorBytes :: "bytes \<Rightarrow> bytes \<Rightarrow> bytes" where
  "xorBytes a b = map2 xor a b"

definition pad256 :: "int \<Rightarrow> bytes" where
  "pad256 n =
     (let b = Big_Bytes n
      in if length b > 256 then drop (length b - 256) b
         else if length b < 256 then replicate (256 - length b) 0 @ b
         else b)"

text \<open>\<open>pbkdf2 key salt iterations len\<close> is PBKDF2-HMAC-SHA512.\<close>

type_synonym pbkdf = "bytes \<Rightarrow> bytes \<Rightarrow> nat \<Rightarrow> nat \<Rightarrow> bytes"

definition ComputePasswordHash :: "(bytes \<Rightarrow> bytes) \<Rightarrow> pbkdf \<Rightarrow> bytes \<Rightarrow> bytes \<Rightarrow> bytes \<Rightarrow> bytes" where
  "ComputePasswordHash sha pbkdf2 password salt1 salt2 =
     (let hash1 = sha256sum sha [salt1, password, salt1];
          hash2 = sha256sum sha [salt2, hash1, salt2];
          hash3 = pbkdf2 hash2 salt1 100000 64
      in sha256sum sha [salt2, hash3, salt2])"

text \<open>ValidateSRPPrime and ValidateDHPrime have the same body. \<open>pp\<close> is ProbablyPrime(20).\<close>

definition ValidateSRPPrime :: "(int \<Rightarrow> bool) \<Rightarrow> int \<Rightarrow> bool" where
  "ValidateSRPPrime pp p = (if BitLen p \<noteq> 2048 then False else if \<not> pp p then False else pp ((p - 1) div 2))"

text \<open>The loop that draws the client's secret until the scrambler is not zero: the secret, the half that is
  sent, and the scrambler.\<close>

partial_function (option) srp_secret ::
  "(bytes \<Rightarrow> bytes) \<Rightarrow> int \<Rightarrow> int \<Rightarrow> int \<Rightarrow> (nat \<Rightarrow> bytes option) \<Rightarrow> nat \<Rightarrow> (srp_error + int \<times> bytes \<times> int) option" where
  [code]: "srp_secret sha g p B draws i =
     (case draws i of
        None \<Rightarrow> Some (Inl SRPRandom)
      | Some aBytes \<Rightarrow>
          let a = SetBytes aBytes;
              A = big_Exp g (nat a) p;
              ABytes = pad256 A;
              u = SetBytes (sha256sum sha [ABytes, pad256 B])
          in if u > 0 then Some (Inr (a, ABytes, u)) else srp_secret sha g p B draws (Suc i))"

definition ComputeSRP ::
  "(bytes \<Rightarrow> bytes) \<Rightarrow> pbkdf \<Rightarrow> (int \<Rightarrow> bool) \<Rightarrow> (nat \<Rightarrow> bytes option) \<Rightarrow> bytes \<Rightarrow> bytes \<Rightarrow> int \<Rightarrow> int \<Rightarrow> bytes
   \<Rightarrow> i64 \<Rightarrow> bytes \<Rightarrow> (srp_error + srp_result) option" where
  "ComputeSRP sha pbkdf2 pp draws salt1 salt2 g p srpB srpID password =
     (if \<not> ValidateSRPPrime pp p then Some (Inl SRPInvalidPrime)
      else if g < 2 \<or> g > 7 then Some (Inl SRPInvalidGenerator)
      else
        let x = SetBytes (ComputePasswordHash sha pbkdf2 password salt1 salt2);
            gBytes = pad256 g;
            pBytes = Big_Bytes p;
            k = SetBytes (sha256sum sha [pBytes, gBytes]);
            kgX = k * big_Exp g (nat x) p mod p;
            B = SetBytes srpB
        in if B \<le> 1 \<or> B \<ge> p - 1 then Some (Inl SRPServerBRange)
           else
             (case srp_secret sha g p B draws 0 of
                None \<Rightarrow> None
              | Some (Inl e) \<Rightarrow> Some (Inl e)
              | Some (Inr (a, ABytes, u)) \<Rightarrow>
                  let gB = (B - kgX) mod p;
                      S = big_Exp gB (nat (a + u * x)) p;
                      K = sha256sum sha [pad256 S];
                      M1 = sha256sum sha
                        [xorBytes (sha256sum sha [pBytes]) (sha256sum sha [gBytes]), sha256sum sha [salt1],
                         sha256sum sha [salt2], ABytes, srpB, K]
                  in Some (Inr \<lparr>sr_SrpID = srpID, sr_A = ABytes, sr_M1 = M1\<rparr>)))"

section \<open>Diffie-Hellman for secret chats\<close>

datatype dh_error = DHRandom | DHDivisionByZero

definition SecretChatKeyLen :: nat where "SecretChatKeyLen = 256"

definition SecretChatMinGA :: nat where "SecretChatMinGA = 2048 - 64"

text \<open>\<open>draw\<close> reads the given number of random bytes. Mod is Euclidean and panics for 0.\<close>

definition GenerateDHSecret :: "(nat \<Rightarrow> bytes option) \<Rightarrow> int \<Rightarrow> nat \<Rightarrow> dh_error + int" where
  "GenerateDHSecret draw dhPrime bits =
     (case draw (bits div 8) of
        None \<Rightarrow> Inl DHRandom
      | Some b \<Rightarrow>
          if dhPrime - 1 = 0 then Inl DHDivisionByZero
          else Inr (SetBytes b mod \<bar>dhPrime - 1\<bar> + 1))"

definition ComputeGA :: "u32 \<Rightarrow> int \<Rightarrow> int \<Rightarrow> int" where
  "ComputeGA g a dhPrime = big_Exp (sint g) (nat a) dhPrime"

definition ComputeSharedKey :: "int \<Rightarrow> int \<Rightarrow> int \<Rightarrow> bytes" where
  "ComputeSharedKey gaOrB secret dhPrime =
     (let key = Big_Bytes (big_Exp gaOrB (nat secret) dhPrime);
          key = (if length key < SecretChatKeyLen then replicate (SecretChatKeyLen - length key) 0 @ key else key)
      in take SecretChatKeyLen key)"

definition KeyFingerprint :: "(bytes \<Rightarrow> bytes) \<Rightarrow> bytes \<Rightarrow> i64" where
  "KeyFingerprint sha1 key = le_word (go_slice (sha1 key) 12 20)"

definition ValidateGA :: "int \<Rightarrow> int \<Rightarrow> bool" where
  "ValidateGA ga dhPrime =
     (if ga \<le> 1 then False
      else if ga \<ge> dhPrime - 1 then False
      else ga > 2 ^ SecretChatMinGA \<and> ga < dhPrime - 2 ^ SecretChatMinGA)"

definition ValidateDHPrime :: "(int \<Rightarrow> bool) \<Rightarrow> int \<Rightarrow> bool" where
  "ValidateDHPrime pp p = (if BitLen p \<noteq> 2048 then False else if \<not> pp p then False else pp ((p - 1) div 2))"

text \<open>Big-endian reads of 32 bits; an emoji is its code points.\<close>

definition be32 :: "bytes \<Rightarrow> nat \<Rightarrow> u32" where
  "be32 b i = le_word (rev (go_slice b i (i + 4)))"

definition emoji :: "nat list list" where
  "emoji =
     map (\<lambda>c. [c])
       [0x1F60E, 0x1F60A, 0x1F60D, 0x1F618, 0x1F61C, 0x1F60B, 0x1F61A, 0x1F638,
        0x1F431, 0x1F436, 0x1F433, 0x1F427, 0x1F42C, 0x1F981, 0x1F40E, 0x1F43B,
        0x1F40D, 0x1F42D, 0x1F437, 0x1F430, 0x1F43C, 0x1F42A, 0x1F43D, 0x1F435,
        0x1F612, 0x1F60F, 0x1F614, 0x1F61E, 0x1F616, 0x1F625, 0x1F630, 0x1F628,
        0x1F623, 0x1F62D, 0x1F602, 0x1F603, 0x1F604, 0x1F601, 0x1F606, 0x1F60B,
        0x1F609, 0x1F61B, 0x1F61D, 0x1F631, 0x1F620, 0x1F621, 0x1F624, 0x1F633,
        0x1F62C, 0x1F615, 0x1F2E0, 0x1F4A9, 0x1F44D, 0x1F44E] @
     [[0x2764, 0xFE0F], [0x1F495], [0x1F4A1], [0x2B50], [0x1F525], [0x1F4A8],
      [0x1F4A6], [0x1F3B5], [0x1F4BB], [0x1F517]]"

definition KeyVisualization :: "(bytes \<Rightarrow> bytes) \<Rightarrow> (bytes \<Rightarrow> bytes) \<Rightarrow> bytes \<Rightarrow> nat list list" where
  "KeyVisualization sha1 sha256 key =
     (let combined = take 16 (sha1 key) @ take 20 (sha256 key)
      in map (\<lambda>i. emoji ! unat (be32 combined (i * 4) mod of_nat (length emoji))) [0..<4])"

definition FileKeyFingerprint :: "(bytes \<Rightarrow> bytes) \<Rightarrow> bytes \<Rightarrow> bytes \<Rightarrow> u32" where
  "FileKeyFingerprint md5 key iv = (let h = md5 (key @ iv) in xor (be32 h 0) (be32 h 4))"

definition GenerateFileKeyIV :: "(nat \<Rightarrow> nat \<Rightarrow> bytes option) \<Rightarrow> (bytes \<times> bytes) option" where
  "GenerateFileKeyIV draw =
     (case draw 0 32 of
        None \<Rightarrow> None
      | Some key \<Rightarrow> (case draw 1 32 of None \<Rightarrow> None | Some iv \<Rightarrow> Some (key, iv)))"

section \<open>The server's side of SRP\<close>

text \<open>As the protocol prescribes it: the server keeps the verifier \<open>v = g^x mod p\<close>, sends
  \<open>B = k * v + g^b mod p\<close> for a secret \<open>b\<close>, and expects the proof below for the half \<open>A\<close> it receives.\<close>

definition srp_k :: "(bytes \<Rightarrow> bytes) \<Rightarrow> int \<Rightarrow> int \<Rightarrow> int" where
  "srp_k sha g p = SetBytes (sha (Big_Bytes p @ pad256 g))"

definition srp_server_B :: "(bytes \<Rightarrow> bytes) \<Rightarrow> int \<Rightarrow> int \<Rightarrow> int \<Rightarrow> nat \<Rightarrow> int" where
  "srp_server_B sha g p v b = (srp_k sha g p * v + g ^ b mod p) mod p"

definition srp_scrambler :: "(bytes \<Rightarrow> bytes) \<Rightarrow> bytes \<Rightarrow> int \<Rightarrow> int" where
  "srp_scrambler sha A B = SetBytes (sha (A @ pad256 B))"

definition srp_server_M1 ::
  "(bytes \<Rightarrow> bytes) \<Rightarrow> bytes \<Rightarrow> bytes \<Rightarrow> int \<Rightarrow> int \<Rightarrow> bytes \<Rightarrow> int \<Rightarrow> nat \<Rightarrow> bytes \<Rightarrow> bytes" where
  "srp_server_M1 sha salt1 salt2 g p srpB v b A =
     (let u = srp_scrambler sha A (SetBytes srpB);
          S = (SetBytes A * v ^ nat u) ^ b mod p
      in sha (map2 xor (sha (Big_Bytes p)) (sha (pad256 g)) @ sha salt1 @ sha salt2 @ A @ srpB @ sha (pad256 S)))"

section \<open>Facts\<close>

lemma SetBytes_pad256:
  assumes "BitLen p = 2048" and "0 \<le> x" and "x \<le> p"
  shows "length (pad256 x) = 256" and "SetBytes (pad256 x) = x"
  using length_Big_Bytes_2048 [OF assms] assms(2) by (auto simp: pad256_def Let_def)

lemma ValidateSRPPrime_BitLen: "ValidateSRPPrime pp p \<Longrightarrow> BitLen p = 2048"
  by (simp add: ValidateSRPPrime_def split: if_splits)

lemma ValidateDHPrime_SRP: "ValidateDHPrime pp p = ValidateSRPPrime pp p"
  by (simp add: ValidateDHPrime_def ValidateSRPPrime_def)

text \<open>The loop ends with the first draw whose scrambler is not zero.\<close>

lemma srp_secret_first:
  assumes "\<And>j. j < n \<Longrightarrow> \<exists>ab. draws (i + j) = Some ab \<and> srp_scrambler sha (pad256 (g ^ nat (SetBytes ab) mod p)) B = 0"
    and "draws (i + n) = Some aBytes"
    and "srp_scrambler sha (pad256 (g ^ nat (SetBytes aBytes) mod p)) B \<noteq> 0"
  shows "srp_secret sha g p B draws i =
    Some (Inr (SetBytes aBytes, pad256 (g ^ nat (SetBytes aBytes) mod p),
      srp_scrambler sha (pad256 (g ^ nat (SetBytes aBytes) mod p)) B))"
  using assms
proof (induction n arbitrary: i)
  case 0
  then have "srp_scrambler sha (pad256 (g ^ nat (SetBytes aBytes) mod p)) B > 0"
    using SetBytes_nonneg by (simp add: srp_scrambler_def order_le_neq_trans)
  then show ?case using 0
    by (subst srp_secret.simps) (simp add: Let_def srp_scrambler_def sha256sum_def big_Exp_def)
next
  case (Suc n)
  obtain ab where ab: "draws i = Some ab" "srp_scrambler sha (pad256 (g ^ nat (SetBytes ab) mod p)) B = 0"
    using Suc.prems(1) [of 0] by auto
  have "srp_secret sha g p B draws (Suc i) =
    Some (Inr (SetBytes aBytes, pad256 (g ^ nat (SetBytes aBytes) mod p),
      srp_scrambler sha (pad256 (g ^ nat (SetBytes aBytes) mod p)) B))"
    using Suc.prems(1) [of "Suc _"] Suc.prems(2,3) by (intro Suc.IH) auto
  then show ?case using ab
    by (subst srp_secret.simps) (simp add: Let_def srp_scrambler_def sha256sum_def big_Exp_def)
qed

text \<open>What it returns comes from a draw and has a positive scrambler.\<close>

lemma srp_secret_sound:
  assumes "srp_secret sha g p B draws i = Some (Inr (a, A, u))"
  shows "\<exists>j ab. draws j = Some ab \<and> a = SetBytes ab \<and> A = pad256 (g ^ nat a mod p) \<and> u = srp_scrambler sha A B \<and> u > 0"
proof -
  let ?P = "\<lambda>sha g p B draws (i :: nat) (r :: srp_error + int \<times> bytes \<times> int). \<forall>a A u. r = Inr (a, A, u) \<longrightarrow>
      (\<exists>j ab. draws j = Some ab \<and> a = SetBytes ab \<and> A = pad256 (g ^ nat a mod p) \<and> u = srp_scrambler sha A B \<and> u > 0)"
  have "?P sha g p B draws i (Inr (a, A, u))"
  proof (rule srp_secret.raw_induct [where P = ?P, OF _ assms], goal_cases)
    case (1 self sha g p B draws i r)
    show ?case
    proof (cases "draws i")
      case None
      with 1(2) show ?thesis by auto
    next
      case (Some ab)
      define a' where "a' = SetBytes ab"
      define A' where "A' = pad256 (g ^ nat a' mod p)"
      define u' where "u' = srp_scrambler sha A' B"
      have r: "(if u' > 0 then Some (Inr (a', A', u')) else self sha g p B draws (Suc i)) = Some r"
        using 1(2) by (simp add: Some Let_def srp_scrambler_def sha256sum_def big_Exp_def a'_def A'_def u'_def split: if_splits)
      show ?thesis
      proof (cases "u' > 0")
        case True
        with r have "r = Inr (a', A', u')" by simp
        with True Some show ?thesis by (intro allI impI exI [of _ i] exI [of _ ab]) (simp add: a'_def A'_def u'_def)
      next
        case False
        with r have "self sha g p B draws (Suc i) = Some r" by simp
        then show ?thesis by (rule 1(1))
      qed
    qed
  qed
  then show ?thesis by simp
qed

text \<open>Both sides raise \<open>g\<close> to \<open>b * (a + u * x)\<close>.\<close>

lemma srp_shared_value:
  fixes g p :: int
  shows "((k * v + g ^ b mod p) mod p - k * v mod p) mod p = g ^ b mod p"
    and "(g ^ b mod p) ^ (a + u * x) mod p = ((g ^ a mod p) * (g ^ x mod p) ^ u) ^ b mod p"
proof -
  show "((k * v + g ^ b mod p) mod p - k * v mod p) mod p = g ^ b mod p" by (simp add: mod_simps)
  have "(g ^ a mod p) * (g ^ x mod p) ^ u mod p = (g ^ a mod p) * ((g ^ x mod p) ^ u mod p) mod p"
    by (rule mod_mult_right_eq [symmetric])
  also have "\<dots> = g ^ a * (g ^ x) ^ u mod p" by (simp only: power_mod mod_mult_eq)
  finally have "((g ^ a mod p) * (g ^ x mod p) ^ u) ^ b mod p = (g ^ a * (g ^ x) ^ u) ^ b mod p"
    by (metis power_mod)
  also have "(g ^ a * (g ^ x) ^ u) ^ b = g ^ ((a + x * u) * b)" by (simp only: power_add power_mult)
  also have "(a + x * u) * b = b * (a + u * x)" by (simp add: mult.commute)
  also have "g ^ (b * (a + u * x)) mod p = (g ^ b) ^ (a + u * x) mod p" by (simp only: power_mult)
  finally show "(g ^ b mod p) ^ (a + u * x) mod p = ((g ^ a mod p) * (g ^ x mod p) ^ u) ^ b mod p"
    by (simp add: power_mod)
qed

text \<open>Property C20 (functional): the password proof is the one the server expects. For a prime and generator the client accepts and a
  server half made from the verifier of the password, the check returns as soon as one of the random draws
  gives a non-zero scrambler, and the proof it sends is the one the server computes from the
  verifier, its own secret and the half it receives.\<close>

theorem srp_proof_matches_server:
  assumes "ValidateSRPPrime pp p" and "0 < p" and "2 \<le> g" and "g \<le> 7"
    and v: "v = g ^ nat (SetBytes (ComputePasswordHash sha pbkdf2 password salt1 salt2)) mod p"
    and B: "SetBytes srpB = srp_server_B sha g p v b" and "1 < SetBytes srpB" and "SetBytes srpB < p - 1"
    and skipped: "\<And>j. j < n \<Longrightarrow> \<exists>ab. draws j = Some ab \<and>
      srp_scrambler sha (pad256 (g ^ nat (SetBytes ab) mod p)) (SetBytes srpB) = 0"
    and drawn: "draws n = Some aBytes"
      "srp_scrambler sha (pad256 (g ^ nat (SetBytes aBytes) mod p)) (SetBytes srpB) \<noteq> 0"
  shows "\<exists>r. ComputeSRP sha pbkdf2 pp draws salt1 salt2 g p srpB srpID password = Some (Inr r) \<and>
    sr_SrpID r = srpID \<and> sr_A r = pad256 (g ^ nat (SetBytes aBytes) mod p) \<and>
    sr_M1 r = srp_server_M1 sha salt1 salt2 g p srpB v b (sr_A r)"
proof -
  define x where "x = SetBytes (ComputePasswordHash sha pbkdf2 password salt1 salt2)"
  define a where "a = SetBytes aBytes"
  define A where "A = pad256 (g ^ nat a mod p)"
  define u where "u = srp_scrambler sha A (SetBytes srpB)"
  have nn: "0 \<le> x" "0 \<le> a" "0 \<le> u" by (simp_all add: x_def a_def u_def srp_scrambler_def SetBytes_nonneg)
  have A: "SetBytes A = g ^ nat a mod p"
    unfolding A_def using assms(2) by (intro SetBytes_pad256(2) [OF ValidateSRPPrime_BitLen [OF assms(1)]]) (simp_all add: order.strict_implies_order)
  have e: "nat (a + u * x) = nat a + nat u * nat x" using nn by (simp add: nat_add_distrib nat_mult_distrib)
  have secret: "srp_secret sha g p (SetBytes srpB) draws 0 = Some (Inr (a, A, u))"
    using srp_secret_first [where i = 0 and n = n, of draws sha g p "SetBytes srpB" aBytes] skipped drawn
    by (simp add: a_def A_def u_def)
  have S: "((SetBytes srpB - srp_k sha g p * v mod p) mod p) ^ nat (a + u * x) mod p =
      (SetBytes A * v ^ nat u) ^ b mod p"
    by (simp only: B srp_server_B_def srp_shared_value(1) e A v x_def [symmetric] srp_shared_value(2))
  have ok: "ValidateSRPPrime pp p = True" "(g < 2 \<or> 7 < g) = False"
    "(SetBytes srpB \<le> 1 \<or> p - 1 \<le> SetBytes srpB) = False"
    using assms(1,3,4,7,8) by simp_all
  have "ComputeSRP sha pbkdf2 pp draws salt1 salt2 g p srpB srpID password =
      Some (Inr \<lparr>sr_SrpID = srpID, sr_A = A, sr_M1 = srp_server_M1 sha salt1 salt2 g p srpB v b A\<rparr>)"
    unfolding ComputeSRP_def Let_def big_Exp_def sha256sum_def xorBytes_def srp_server_M1_def concat.simps append_Nil2
      x_def [symmetric] srp_k_def [symmetric] secret u_def [symmetric] v [unfolded x_def [symmetric], symmetric]
    using ok by (simp only: if_False if_True not_True_eq_False option.case sum.case prod.case S)
  then show ?thesis by (simp add: A_def a_def)
qed

text \<open>Toy primitives for a run: a constant hash, and a modulus for which the test of primality is taken to succeed.\<close>

definition srp_example_sha :: "bytes \<Rightarrow> bytes" where
  "srp_example_sha b = replicate 31 0 @ [1]"

definition srp_example_p :: int where
  "srp_example_p = 2 ^ 2047"

lemma srp_example_p_facts:
  "BitLen srp_example_p = 2048" "(16 :: int) < srp_example_p"
proof -
  have "BitLen (2 ^ n) = Suc n" for n by (simp add: BitLen_def nat_power_eq bit_len_power)
  from this [of 2047] show "BitLen srp_example_p = 2048" unfolding srp_example_p_def by simp
  have "(2 :: int) ^ 4 < 2 ^ 2047" by (rule power_strict_increasing) simp_all
  then show "16 < srp_example_p" by (simp add: srp_example_p_def)
qed

lemma srp_example_hash [simp]: "SetBytes (srp_example_sha b) = 1"
  unfolding srp_example_sha_def by (simp only: SetBytes_zeros) (simp add: SetBytes_def)

theorem srp_proof_matches_server_witness:
  "\<exists>r. ComputeSRP srp_example_sha (\<lambda>_ _ _ _. []) (\<lambda>_. True) (\<lambda>_. Some (replicate 256 7)) [1] [2] 2 srp_example_p [4] 5 [112]
     = Some (Inr r) \<and> sr_SrpID r = 5 \<and>
     sr_M1 r = srp_server_M1 srp_example_sha [1] [2] 2 srp_example_p [4] 2 1 (sr_A r)"
proof -
  have x: "SetBytes (ComputePasswordHash srp_example_sha (\<lambda>_ _ _ _. []) [112] [1] [2]) = 1"
    by (simp add: ComputePasswordHash_def sha256sum_def Let_def)
  have B: "SetBytes [4] = 4" by (simp add: SetBytes_def)
  note ok = srp_example_p_facts
  have "\<exists>r. ComputeSRP srp_example_sha (\<lambda>_ _ _ _. []) (\<lambda>_. True) (\<lambda>_. Some (replicate 256 7)) [1] [2] 2 srp_example_p [4] 5 [112]
      = Some (Inr r) \<and> sr_SrpID r = 5 \<and> sr_A r = pad256 (2 ^ nat (SetBytes (replicate 256 7)) mod srp_example_p) \<and>
     sr_M1 r = srp_server_M1 srp_example_sha [1] [2] 2 srp_example_p [4] 2 1 (sr_A r)"
  proof (rule srp_proof_matches_server [where n = 0])
    show "ValidateSRPPrime (\<lambda>_. True) srp_example_p" using ok(1) by (simp add: ValidateSRPPrime_def)
    show "0 < srp_example_p" "1 < SetBytes [4]" "SetBytes [4] < srp_example_p - 1" using ok(2) by (simp_all add: B)
    show "2 = 2 ^ nat (SetBytes (ComputePasswordHash srp_example_sha (\<lambda>_ _ _ _. []) [112] [1] [2])) mod srp_example_p"
      using ok(2) by (simp only: x) simp
    show "SetBytes [4] = srp_server_B srp_example_sha 2 srp_example_p 2 1"
      using ok(2) by (simp add: B srp_server_B_def srp_k_def)
    show "srp_scrambler srp_example_sha (pad256 (2 ^ nat (SetBytes (replicate 256 7)) mod srp_example_p)) (SetBytes [4]) \<noteq> 0"
      by (simp add: srp_scrambler_def)
  qed simp_all
  then show ?thesis by blast
qed

text \<open>A proof is sent only for a prime of 2048 bits that passes the test together with its half, for a generator
  from 2 to 7 and a server half strictly between 1 and \<open>p - 1\<close>, and with a secret from a random draw
  whose scrambler is not zero.\<close>

lemma srp_refuses_unsafe_parameters:
  assumes "ComputeSRP sha pbkdf2 pp draws salt1 salt2 g p srpB srpID password = Some (Inr r)"
  shows "BitLen p = 2048 \<and> pp p \<and> pp ((p - 1) div 2) \<and> 2 \<le> g \<and> g \<le> 7 \<and> 1 < SetBytes srpB \<and> SetBytes srpB < p - 1 \<and>
    (\<exists>j ab. draws j = Some ab \<and> sr_A r = pad256 (g ^ nat (SetBytes ab) mod p) \<and>
      srp_scrambler sha (sr_A r) (SetBytes srpB) > 0)"
proof -
  have ok: "ValidateSRPPrime pp p" "\<not> (g < 2 \<or> 7 < g)" "\<not> (SetBytes srpB \<le> 1 \<or> p - 1 \<le> SetBytes srpB)"
    using assms unfolding ComputeSRP_def Let_def by (auto split: if_splits)
  obtain a A u where s: "srp_secret sha g p (SetBytes srpB) draws 0 = Some (Inr (a, A, u))" and A: "sr_A r = A"
    using assms ok unfolding ComputeSRP_def Let_def by (auto split: if_splits option.splits sum.splits)
  show ?thesis using srp_secret_sound [OF s] ok A by (auto simp: ValidateSRPPrime_def split: if_splits)
qed

section \<open>Secret-chat keys\<close>

lemma ValidateGA_iff:
  "ValidateGA ga p \<longleftrightarrow> 2 ^ SecretChatMinGA < ga \<and> ga < p - 2 ^ SecretChatMinGA"
proof -
  have "(1 :: int) \<le> 2 ^ SecretChatMinGA" by simp
  then show ?thesis unfolding ValidateGA_def by (smt (verit))
qed

lemma GenerateDHSecret_range:
  assumes "GenerateDHSecret draw p bits = Inr a" and "1 < p"
  shows "1 \<le> a" and "a < p"
  using assms pos_mod_bound [of "p - 1"] by (auto simp: GenerateDHSecret_def simp flip: less_diff_eq split: option.splits)

text \<open>The key is the 256-byte big-endian form of the shared value.\<close>

lemma ComputeSharedKey_value:
  assumes "BitLen p = 2048" and "0 < p"
  shows "length (ComputeSharedKey h a p) = 256" and "SetBytes (ComputeSharedKey h a p) = h ^ nat a mod p"
proof -
  have r: "0 \<le> h ^ nat a mod p" "h ^ nat a mod p \<le> p" using assms(2) by (simp_all add: order.strict_implies_order)
  note l = length_Big_Bytes_2048 [OF assms(1) r]
  then show "length (ComputeSharedKey h a p) = 256"
    by (simp add: ComputeSharedKey_def Let_def big_Exp_def SecretChatKeyLen_def)
  show "SetBytes (ComputeSharedKey h a p) = h ^ nat a mod p"
    using l r(1) by (auto simp: ComputeSharedKey_def Let_def big_Exp_def SecretChatKeyLen_def)
qed

text \<open>Both sides of a secret chat get the same key. For an accepted prime and secrets generated by either
  side from any random bytes, the secrets lie in range, the two shared keys are equal, have 256 bytes and are the
  big-endian form of the common power of the generator; so the fingerprints and visualisations shown to
  the two users agree as well.\<close>

theorem secret_chat_keys_agree:
  assumes "ValidateDHPrime pp p" and "0 < p"
    and "GenerateDHSecret draw p bits = Inr a" and "GenerateDHSecret draw' p bits' = Inr b"
  shows "1 \<le> a \<and> a < p \<and> length (ComputeSharedKey (ComputeGA g b p) a p) = 256 \<and>
    SetBytes (ComputeSharedKey (ComputeGA g b p) a p) = sint g ^ (nat a * nat b) mod p \<and>
    ComputeSharedKey (ComputeGA g b p) a p = ComputeSharedKey (ComputeGA g a p) b p"
proof -
  have p: "BitLen p = 2048" using assms(1) by (simp add: ValidateDHPrime_SRP ValidateSRPPrime_BitLen)
  have v: "SetBytes (ComputeSharedKey (ComputeGA g y p) x p) = sint g ^ (nat x * nat y) mod p" for x y
    by (simp add: ComputeSharedKey_value(2) [OF p assms(2)] ComputeGA_def big_Exp_def power_mod flip: power_mult)
      (simp add: mult.commute)
  have p1: "1 < p" using p assms(2) by (cases "p = 1") (auto simp: BitLen_def bit_len.simps)
  show ?thesis
    using v [of b a] v [of a b] ComputeSharedKey_value(1) [OF p assms(2)] GenerateDHSecret_range [OF assms(3)] p1
    by (auto intro!: SetBytes_inj simp: mult.commute)
qed

theorem secret_chat_keys_agree_witness:
  "ComputeSharedKey (ComputeGA 3 6 srp_example_p) 5 srp_example_p = ComputeSharedKey (ComputeGA 3 5 srp_example_p) 6 srp_example_p \<and>
   SetBytes (ComputeSharedKey (ComputeGA 3 6 srp_example_p) 5 srp_example_p) = 3 ^ 30 mod srp_example_p"
proof -
  have "GenerateDHSecret (\<lambda>_. Some [4]) srp_example_p 2048 = Inr 5" "GenerateDHSecret (\<lambda>_. Some [5]) srp_example_p 2048 = Inr 6"
    using srp_example_p_facts(2) by (simp_all add: GenerateDHSecret_def SetBytes_def)
  from secret_chat_keys_agree [OF _ _ this, of "\<lambda>_. True" 3] show ?thesis
    using srp_example_p_facts by (simp add: ValidateDHPrime_def) metis
qed

text \<open>The SHA-256 half of the visualised bytes has no effect: the four indices are read from the first sixteen
  bytes, which come from SHA-1.\<close>

lemma visualization_ignores_sha256:
  assumes "length (sha1 key) = 20"
  shows "KeyVisualization sha1 sha256 key = KeyVisualization sha1 sha256' key"
  using assms by (auto simp: KeyVisualization_def Let_def be32_def go_slice_def)

end
