(* ===== verification/File_Ids.thy ===== *)
theory File_Ids
  imports TL_Primitives
begin

text \<open>
  Bot API file identifiers, \<^verbatim>\<open>src/telegram/fileid\<close>: a little-endian record, zero runs shortened, in
  unpadded URL-safe base64. A reader is the bytes it has left. \<^verbatim>\<open>bytes.Reader.Read\<close> fails only at the end of
  the data; when some but not enough bytes are left it returns those, and the rest of the buffer stays zero.
\<close>

section \<open>Base64\<close>

text \<open>\<^verbatim>\<open>base64.RawURLEncoding\<close>: the decoder skips line ends and ignores the unused bits of the last character.\<close>

definition base64url :: string where
  "base64url = ''ABCDEFGHIJKLMNOPQRSTUVWXYZabcdefghijklmnopqrstuvwxyz0123456789-_''"

fun index_of :: "'a \<Rightarrow> 'a list \<Rightarrow> nat option" where
  "index_of x [] = None"
| "index_of x (y # ys) = (if x = y then Some 0 else map_option Suc (index_of x ys))"

fun sextets :: "nat list \<Rightarrow> nat list" where
  "sextets (a # b # c # bs) = (a div 4) # (a mod 4 * 16 + b div 16) # (b mod 16 * 4 + c div 64) # (c mod 64) # sextets bs"
| "sextets [a, b] = [a div 4, a mod 4 * 16 + b div 16, b mod 16 * 4]"
| "sextets [a] = [a div 4, a mod 4 * 16]"
| "sextets [] = []"

fun octets :: "nat list \<Rightarrow> nat list option" where
  "octets (a # b # c # d # vs) =
     map_option (\<lambda>bs. (a * 4 + b div 16) # (b mod 16 * 16 + c div 4) # (c mod 4 * 64 + d) # bs) (octets vs)"
| "octets [a, b, c] = Some [a * 4 + b div 16, b mod 16 * 16 + c div 4]"
| "octets [a, b] = Some [a * 4 + b div 16]"
| "octets [a] = None"
| "octets [] = Some []"

definition EncodeToString :: "bytes \<Rightarrow> string" where
  "EncodeToString bs = map (\<lambda>v. base64url ! v) (sextets (map unat bs))"

definition DecodeString :: "string \<Rightarrow> bytes option" where
  "DecodeString s =
     (case those (map (\<lambda>c. index_of c base64url) (filter (\<lambda>c. c \<noteq> CHR 0x0D \<and> c \<noteq> CHR 0x0A) s)) of
        None \<Rightarrow> None
      | Some vs \<Rightarrow> map_option (map word_of_nat) (octets vs))"

section \<open>Zero runs\<close>

text \<open>The inner loop counts from the zero at hand, up to 254.\<close>

definition zero_run :: "bytes \<Rightarrow> nat" where
  "zero_run bs = Suc (length (takeWhile (\<lambda>b. b = 0) (take 253 bs)))"

function rleEncode :: "bytes \<Rightarrow> bytes" where
  "rleEncode [] = []"
| "rleEncode (b # bs) =
     (if b = 0 then 0 # word_of_nat (zero_run bs) # rleEncode (drop (zero_run bs - 1) bs)
      else b # rleEncode bs)"
  by pat_completeness auto
termination by (relation "measure length") auto

text \<open>A zero at the very end, without a count, is dropped.\<close>

fun rleDecode :: "bytes \<Rightarrow> bytes" where
  "rleDecode [] = []"
| "rleDecode [b] = (if b = 0 then [] else [b])"
| "rleDecode (b # c # bs) = (if b = 0 then replicate (unat c) 0 @ rleDecode bs else b # rleDecode (c # bs))"

section \<open>The record\<close>

type_synonym file_type = u32

definition FileTypeThumbnail :: file_type where "FileTypeThumbnail = 0"
definition FileTypeProfilePhoto :: file_type where "FileTypeProfilePhoto = 1"
definition FileTypePhoto :: file_type where "FileTypePhoto = 2"

definition IsPhoto :: "file_type \<Rightarrow> bool" where
  "IsPhoto ft \<longleftrightarrow> ft = FileTypePhoto \<or> ft = FileTypeThumbnail \<or> ft = FileTypeProfilePhoto"

record photo_size_source =
  ps_Type :: u8
  ps_Secret :: i64
  ps_VolumeID :: i64
  ps_LocalID :: u32
  ps_PhotoID :: i64
  ps_ChatID :: i64
  ps_ChatAccessHash :: i64
  ps_StickerSetID :: i64
  ps_StickerSetAccessHash :: i64
  ps_ThumbnailFileType :: file_type
  ps_ThumbnailSize :: u32

record file_id =
  fi_Type :: file_type
  fi_DCID :: u32
  fi_ID :: i64
  fi_AccessHash :: i64
  fi_FileReference :: bytes
  fi_URL :: bytes
  fi_VolumeID :: i64
  fi_LocalID :: u32
  fi_Source :: photo_size_source

definition no_source :: photo_size_source where
  "no_source =
     \<lparr>ps_Type = 0, ps_Secret = 0, ps_VolumeID = 0, ps_LocalID = 0, ps_PhotoID = 0, ps_ChatID = 0, ps_ChatAccessHash = 0,
      ps_StickerSetID = 0, ps_StickerSetAccessHash = 0, ps_ThumbnailFileType = 0, ps_ThumbnailSize = 0\<rparr>"

definition zero_file_id :: file_id where
  "zero_file_id =
     \<lparr>fi_Type = 0, fi_DCID = 0, fi_ID = 0, fi_AccessHash = 0, fi_FileReference = [], fi_URL = [], fi_VolumeID = 0,
      fi_LocalID = 0, fi_Source = no_source\<rparr>"

definition persistentIDVersion :: u8 where "persistentIDVersion = 4"
definition latestSubVersion :: u8 where "latestSubVersion = 34"
definition webLocationFlag :: u32 where "webLocationFlag = push_bit 24 1"
definition fileReferenceFlag :: u32 where "fileReferenceFlag = push_bit 25 1"

text \<open>The padding is counted from the start of the buffer.\<close>

definition packBytes :: "bytes \<Rightarrow> bytes \<Rightarrow> bytes" where
  "packBytes w v =
     (let n = length v;
          w1 = (if n < 254 then w @ [word_of_nat n] @ v
                else w @ [254, word_of_nat n, word_of_nat (n div 2 ^ 8), word_of_nat (n div 2 ^ 16)] @ v)
      in w1 @ replicate (tl_padding (length w1) 0) 0)"

definition pack_source :: "photo_size_source \<Rightarrow> bytes" where
  "pack_source src =
     le_bytes 4 (ucast (ps_Type src) :: u32) @
     (if ps_Type src = 0 then le_bytes 8 (ps_Secret src)
      else if ps_Type src = 1 then le_bytes 4 (ps_ThumbnailFileType src) @ le_bytes 4 (ps_ThumbnailSize src)
      else if ps_Type src = 2 \<or> ps_Type src = 3 then le_bytes 8 (ps_ChatID src) @ le_bytes 8 (ps_ChatAccessHash src)
      else if ps_Type src = 4 then le_bytes 8 (ps_StickerSetID src) @ le_bytes 8 (ps_StickerSetAccessHash src)
      else [])"

definition type_word :: "file_id \<Rightarrow> u32" where
  "type_word f =
     (let t = (if fi_URL f \<noteq> [] then fi_Type f OR webLocationFlag else fi_Type f)
      in if fi_FileReference f \<noteq> [] then t OR fileReferenceFlag else t)"

definition pack_file_id :: "file_id \<Rightarrow> bytes" where
  "pack_file_id f =
     (let buf = le_bytes 4 (type_word f) @ le_bytes 4 (fi_DCID f);
          buf = (if fi_FileReference f \<noteq> [] then packBytes buf (fi_FileReference f) else buf)
      in if fi_URL f \<noteq> [] then packBytes buf (fi_URL f) @ [persistentIDVersion]
         else buf @ le_bytes 8 (fi_ID f) @ le_bytes 8 (fi_AccessHash f) @
              (if IsPhoto (fi_Type f) then pack_source (fi_Source f) else []) @
              [latestSubVersion, persistentIDVersion])"

definition FileID_Encode :: "file_id \<Rightarrow> string" where
  "FileID_Encode f = EncodeToString (rleEncode (pack_file_id f))"

section \<open>Reading\<close>

datatype file_error = FileBase64 | ErrDataTooShort | FileVersion u8 | FileEOF

text \<open>\<open>reader_Read n\<close> reads into a zeroed buffer of \<open>n\<close> bytes.\<close>

definition reader_Read :: "nat \<Rightarrow> bytes \<Rightarrow> file_error + bytes \<times> bytes" where
  "reader_Read n r = (if r = [] then Inl FileEOF else Inr (take n (r @ replicate n 0), drop n r))"

definition unpack_word :: "nat \<Rightarrow> bytes \<Rightarrow> file_error + 'a::len word \<times> bytes" where
  "unpack_word n r = (case reader_Read n r of Inl e \<Rightarrow> Inl e | Inr (b, r1) \<Rightarrow> Inr (le_word b, r1))"

definition skip_pad :: "nat \<Rightarrow> bytes \<Rightarrow> file_error + bytes" where
  "skip_pad n r = (if length r < n then Inl FileEOF else Inr (drop n r))"

definition unpackBytes :: "bytes \<Rightarrow> file_error + bytes \<times> bytes" where
  "unpackBytes r =
     (case r of
        [] \<Rightarrow> Inl FileEOF
      | first # r1 \<Rightarrow>
          (case (if first = 254
                 then case reader_Read 3 r1 of Inl e \<Rightarrow> Inl e | Inr (b, r2) \<Rightarrow> Inr (4, len24 b, r2)
                 else Inr (1, unat first, r1)) of
             Inl e \<Rightarrow> Inl e
           | Inr (headerLen, sz, r2) \<Rightarrow>
               (case reader_Read sz r2 of
                  Inl e \<Rightarrow> Inl e
                | Inr (v, r3) \<Rightarrow>
                    (case skip_pad (tl_padding headerLen sz) r3 of Inl e \<Rightarrow> Inl e | Inr r4 \<Rightarrow> Inr (v, r4)))))"

definition unpack_source :: "bytes \<Rightarrow> file_error + photo_size_source" where
  "unpack_source r =
     (case unpack_word 4 r of
        Inl e \<Rightarrow> Inl e
      | Inr (srcType, r1) \<Rightarrow>
          let t = ucast (srcType :: u32) :: u8; src = no_source\<lparr>ps_Type := t\<rparr>
          in if t = 0
             then case unpack_word 8 r1 of Inl e \<Rightarrow> Inl e | Inr (x, _) \<Rightarrow> Inr (src\<lparr>ps_Secret := x\<rparr>)
             else if t = 1
             then case unpack_word 4 r1 of Inl e \<Rightarrow> Inl e
                  | Inr (x, r2) \<Rightarrow>
                      (case unpack_word 4 r2 of Inl e \<Rightarrow> Inl e
                       | Inr (y, _) \<Rightarrow> Inr (src\<lparr>ps_ThumbnailFileType := x, ps_ThumbnailSize := y\<rparr>))
             else if t = 2 \<or> t = 3
             then case unpack_word 8 r1 of Inl e \<Rightarrow> Inl e
                  | Inr (x, r2) \<Rightarrow>
                      (case unpack_word 8 r2 of Inl e \<Rightarrow> Inl e
                       | Inr (y, _) \<Rightarrow> Inr (src\<lparr>ps_ChatID := x, ps_ChatAccessHash := y\<rparr>))
             else if t = 4
             then case unpack_word 8 r1 of Inl e \<Rightarrow> Inl e
                  | Inr (x, r2) \<Rightarrow>
                      (case unpack_word 8 r2 of Inl e \<Rightarrow> Inl e
                       | Inr (y, _) \<Rightarrow> Inr (src\<lparr>ps_StickerSetID := x, ps_StickerSetAccessHash := y\<rparr>))
             else Inr src)"

text \<open>What follows the file reference.\<close>

definition unpack_location :: "bool \<Rightarrow> u8 \<Rightarrow> file_id \<Rightarrow> bytes \<Rightarrow> file_error + file_id" where
  "unpack_location hasWebLocation subVersion f r =
     (if hasWebLocation
      then case unpackBytes r of Inl e \<Rightarrow> Inl e | Inr (url, _) \<Rightarrow> Inr (f\<lparr>fi_URL := url\<rparr>)
      else
        case unpack_word 8 r of Inl e \<Rightarrow> Inl e
        | Inr (i, r1) \<Rightarrow>
            (case unpack_word 8 r1 of Inl e \<Rightarrow> Inl e
             | Inr (h, r2) \<Rightarrow>
                 let f1 = f\<lparr>fi_ID := i, fi_AccessHash := h\<rparr>
                 in if IsPhoto (fi_Type f) \<and> subVersion \<ge> 4
                    then case unpack_source r2 of Inl e \<Rightarrow> Inl e | Inr src \<Rightarrow> Inr (f1\<lparr>fi_Source := src\<rparr>)
                    else Inr f1))"

definition unpack_file_id :: "bytes \<Rightarrow> file_error + file_id" where
  "unpack_file_id input =
     (if length input < 2 then Inl ErrDataTooShort
      else if last input \<noteq> persistentIDVersion then Inl (FileVersion (last input))
      else
        let body = butlast input; subVersion = last body
        in case unpack_word 4 body of Inl e \<Rightarrow> Inl e
           | Inr (typeID, r1) \<Rightarrow>
               (case unpack_word 4 r1 of Inl e \<Rightarrow> Inl e
                | Inr (dcID, r2) \<Rightarrow>
                    let f = zero_file_id\<lparr>fi_Type := typeID AND NOT webLocationFlag AND NOT fileReferenceFlag, fi_DCID := dcID\<rparr>;
                        web = (typeID AND webLocationFlag \<noteq> 0)
                    in if typeID AND fileReferenceFlag \<noteq> 0
                       then case unpackBytes r2 of Inl e \<Rightarrow> Inl e
                            | Inr (ref, r3) \<Rightarrow> unpack_location web subVersion (f\<lparr>fi_FileReference := ref\<rparr>) r3
                       else unpack_location web subVersion f r2))"

definition FileID_Decode :: "string \<Rightarrow> file_error + file_id" where
  "FileID_Decode s =
     (case DecodeString s of None \<Rightarrow> Inl FileBase64 | Some decoded \<Rightarrow> unpack_file_id (rleDecode decoded))"

section \<open>Round trips\<close>

lemma index_of_nth: "distinct xs \<Longrightarrow> i < length xs \<Longrightarrow> index_of (xs ! i) xs = Some i"
proof (induction xs arbitrary: i)
  case (Cons x xs)
  then show ?case by (cases i) auto
qed simp

lemma sextets_less: "\<forall>b \<in> set bs. b < 256 \<Longrightarrow> v \<in> set (sextets bs) \<Longrightarrow> v < 64"
  by (induction bs rule: sextets.induct) auto

lemma octets_sextets: "\<forall>b \<in> set bs. b < 256 \<Longrightarrow> octets (sextets bs) = Some bs"
proof (induction bs rule: sextets.induct)
  case (1 a b c bs)
  then have "c div 64 < 4" "b div 16 < 16" by (simp_all add: less_mult_imp_div_less)
  with 1 show ?case by (simp add: div_add1_eq [of _ "b div 16"])
next
  case (2 a b)
  then have "b div 16 < 16" by (simp add: less_mult_imp_div_less)
  then show ?case by simp
qed simp_all

lemma base64url_ok: "length base64url = 64" "distinct base64url" "CHR 0x0D \<notin> set base64url" "CHR 0x0A \<notin> set base64url"
  by (simp_all add: base64url_def)

lemma those_map_Some [simp]: "those (map Some xs) = Some xs"
  by (induction xs) simp_all

lemma DecodeString_EncodeToString [simp]: "DecodeString (EncodeToString bs) = Some bs"
proof -
  let ?vs = "sextets (map unat bs)"
  have b: "\<forall>b \<in> set (map unat bs). b < 256" using unsigned_less [where ?'a = nat and ?'b = 8] by auto
  have v: "v < 64" if "v \<in> set ?vs" for v using sextets_less [OF b that] .
  have "base64url ! v \<noteq> CHR 0x0D \<and> base64url ! v \<noteq> CHR 0x0A" if "v \<in> set ?vs" for v
    using nth_mem [of v base64url] v [OF that] base64url_ok by metis
  then have "filter (\<lambda>c. c \<noteq> CHR 0x0D \<and> c \<noteq> CHR 0x0A) (map (\<lambda>v. base64url ! v) ?vs) = map (\<lambda>v. base64url ! v) ?vs"
    by (intro filter_True) auto
  moreover have "map (\<lambda>c. index_of c base64url) (map (\<lambda>v. base64url ! v) ?vs) = map Some ?vs"
    using v base64url_ok(1,2) by (simp add: index_of_nth)
  ultimately show ?thesis
    unfolding DecodeString_def EncodeToString_def
    by (simp only: those_map_Some option.case octets_sextets [OF b]) (simp add: comp_def)
qed

lemma zero_run_le: "zero_run bs \<le> 254"
  using length_takeWhile_le [of "\<lambda>b. b = 0" "take 253 bs"] by (simp add: zero_run_def)

lemma zero_run_take: "take (zero_run bs - 1) bs = replicate (zero_run bs - 1) 0"
proof -
  let ?z = "takeWhile (\<lambda>b. b = 0) (take 253 bs)"
  have "?z = take (length ?z) (take 253 bs)" by (rule takeWhile_eq_take)
  also have "\<dots> = take (length ?z) bs" using zero_run_le [of bs] by (simp add: zero_run_def min_absorb1)
  finally have "take (length ?z) bs = ?z" by simp
  also have "\<dots> = replicate (length ?z) 0" by (rule replicate_eqI [symmetric, THEN sym]) (auto dest: set_takeWhileD)
  finally show ?thesis by (simp add: zero_run_def)
qed

lemma rleDecode_rleEncode [simp]: "rleDecode (rleEncode bs) = bs"
proof (induction bs rule: rleEncode.induct)
  case (2 b bs)
  show ?case
  proof (cases "b = 0")
    case True
    have c: "unat (word_of_nat (zero_run bs) :: u8) = zero_run bs"
      using zero_run_le [of bs] by (simp add: unat_of_nat take_bit_eq_mod)
    have "replicate (zero_run bs) 0 = 0 # take (zero_run bs - 1) bs"
      unfolding zero_run_take by (simp add: zero_run_def)
    then show ?thesis using 2(1) True by (simp add: c)
  next
    case False
    with 2(2) show ?thesis by (cases "rleEncode bs") auto
  qed
qed simp

text \<open>The fields the format carries.\<close>

definition carried_source :: "photo_size_source \<Rightarrow> photo_size_source" where
  "carried_source src =
     (let s = no_source\<lparr>ps_Type := ps_Type src\<rparr>
      in if ps_Type src = 0 then s\<lparr>ps_Secret := ps_Secret src\<rparr>
         else if ps_Type src = 1
         then s\<lparr>ps_ThumbnailFileType := ps_ThumbnailFileType src, ps_ThumbnailSize := ps_ThumbnailSize src\<rparr>
         else if ps_Type src = 2 \<or> ps_Type src = 3 then s\<lparr>ps_ChatID := ps_ChatID src, ps_ChatAccessHash := ps_ChatAccessHash src\<rparr>
         else if ps_Type src = 4
         then s\<lparr>ps_StickerSetID := ps_StickerSetID src, ps_StickerSetAccessHash := ps_StickerSetAccessHash src\<rparr>
         else s)"

definition carried :: "file_id \<Rightarrow> file_id" where
  "carried f =
     (let g = zero_file_id\<lparr>fi_Type := fi_Type f, fi_DCID := fi_DCID f, fi_FileReference := fi_FileReference f\<rparr>
      in if fi_URL f \<noteq> [] then g\<lparr>fi_URL := fi_URL f\<rparr>
         else g\<lparr>fi_ID := fi_ID f, fi_AccessHash := fi_AccessHash f,
                fi_Source := (if IsPhoto (fi_Type f) then carried_source (fi_Source f) else no_source)\<rparr>)"

definition file_id_ok :: "file_id \<Rightarrow> bool" where
  "file_id_ok f \<longleftrightarrow>
     fi_Type f AND webLocationFlag = 0 \<and> fi_Type f AND fileReferenceFlag = 0 \<and>
     length (fi_FileReference f) < 2 ^ 24 \<and> length (fi_URL f) < 2 ^ 24"

lemma reader_Read_append: "xs \<noteq> [] \<Longrightarrow> n = length xs \<Longrightarrow> reader_Read n (xs @ r) = Inr (xs, r)"
  by (simp add: reader_Read_def)

lemma unpack_word_32 [simp]: "unpack_word 4 (le_bytes 4 (w :: u32) @ r) = Inr (w, r)"
  by (simp add: unpack_word_def reader_Read_append flip: length_0_conv)

lemma unpack_word_64 [simp]: "unpack_word 8 (le_bytes 8 (w :: i64) @ r) = Inr (w, r)"
  by (simp add: unpack_word_def reader_Read_append flip: length_0_conv)

lemma unpackBytes_short:
  "first \<noteq> 254 \<Longrightarrow> reader_Read (unat first) r1 = Inr (v, r2) \<Longrightarrow> skip_pad (tl_padding 1 (unat first)) r2 = Inr r3 \<Longrightarrow>
   unpackBytes (first # r1) = Inr (v, r3)"
  by (simp add: unpackBytes_def)

lemma unpackBytes_long:
  "reader_Read 3 r1 = Inr (b, r2) \<Longrightarrow> reader_Read (len24 b) r2 = Inr (v, r3) \<Longrightarrow> skip_pad (tl_padding 4 (len24 b)) r3 = Inr r4 \<Longrightarrow>
   unpackBytes (254 # r1) = Inr (v, r4)"
  by (simp add: unpackBytes_def)

lemma unpackBytes_packBytes:
  assumes "v \<noteq> []" and "length v < 2 ^ 24" and "length w mod 4 = 0"
  shows "\<exists>tail. packBytes w v = w @ tail \<and> (\<forall>r. unpackBytes (tail @ r) = Inr (v, r)) \<and> length (packBytes w v) mod 4 = 0"
proof -
  define h where "h = (if length v < 254 then [word_of_nat (length v) :: u8]
    else [254, word_of_nat (length v), word_of_nat (length v div 2 ^ 8), word_of_nat (length v div 2 ^ 16)])"
  define k where "k = tl_padding (length h) (length v)"
  have k: "tl_padding (length (w @ h @ v)) 0 = k"
    using assms(3) by (simp add: k_def tl_padding_def mod_add_left_eq [of "length w", symmetric])
  have p: "packBytes w v = w @ h @ v @ replicate k 0"
    using k by (simp add: packBytes_def Let_def h_def split: if_splits)
  have "unpackBytes ((h @ v @ replicate k 0) @ r) = Inr (v, r)" for r
  proof (cases "length v < 254")
    case True
    then have b: "unat (word_of_nat (length v) :: u8) = length v" by (simp add: unat_of_nat take_bit_eq_mod)
    then have "(word_of_nat (length v) :: u8) \<noteq> 254" using True by auto
    moreover have "h = [word_of_nat (length v)]" using True by (simp add: h_def)
    ultimately show ?thesis
      using assms(1) by (auto intro!: unpackBytes_short simp: k_def b reader_Read_append skip_pad_def)
  next
    case False
    let ?b = "[word_of_nat (length v), word_of_nat (length v div 2 ^ 8), word_of_nat (length v div 2 ^ 16)] :: bytes"
    have h: "h = 254 # ?b" using False by (simp add: h_def)
    have l: "len24 ?b = length v" by (rule len24_encode) (rule assms(2))
    have "length h = 4" by (simp add: h)
    then have "skip_pad (tl_padding 4 (len24 ?b)) (replicate k 0 @ r) = Inr r" by (simp only: k_def l) (simp add: skip_pad_def)
    moreover have "reader_Read 3 (?b @ v @ replicate k 0 @ r) = Inr (?b, v @ replicate k 0 @ r)"
      by (rule reader_Read_append) simp_all
    moreover have "reader_Read (len24 ?b) (v @ replicate k 0 @ r) = Inr (v, replicate k 0 @ r)"
      unfolding l by (rule reader_Read_append) (simp_all add: assms(1))
    ultimately show ?thesis unfolding h append_Cons append_assoc by (intro unpackBytes_long) simp_all
  qed
  moreover have "length (packBytes w v) mod 4 = 0"
    using tl_padding_aligns [of "length (w @ h @ v)" 0] by (simp add: p k [symmetric] add.assoc)
  ultimately show ?thesis using p by auto
qed

lemma unpack_source_pack_source: "r \<noteq> [] \<Longrightarrow> unpack_source (pack_source src @ r) = Inr (carried_source src)"
proof -
  have t: "ucast (ucast (ps_Type src) :: u32) = ps_Type src"
    by (rule bit_word_eqI) (auto simp: bit_simps)
  consider "ps_Type src = 0" | "ps_Type src = 1" | "ps_Type src = 2" | "ps_Type src = 3" | "ps_Type src = 4"
    | "ps_Type src \<notin> {0, 1, 2, 3, 4}" by auto
  then show ?thesis
    by cases (simp_all add: unpack_source_def pack_source_def carried_source_def Let_def t)
qed

lemma unpack_location_web:
  "v \<noteq> [] \<Longrightarrow> (\<And>r. unpackBytes (tail @ r) = Inr (v, r)) \<Longrightarrow> unpack_location True sv f (tail @ r) = Inr (f\<lparr>fi_URL := v\<rparr>)"
  by (simp add: unpack_location_def)

lemma unpack_location_file:
  "unpack_location False latestSubVersion f
     (le_bytes 8 i @ le_bytes 8 h @ (if IsPhoto (fi_Type f) then pack_source src else []) @ [latestSubVersion]) =
   Inr (f\<lparr>fi_ID := i, fi_AccessHash := h, fi_Source := (if IsPhoto (fi_Type f) then carried_source src else fi_Source f)\<rparr>)"
  by (simp add: unpack_location_def unpack_source_pack_source latestSubVersion_def Let_def)

lemma flag_bits:
  assumes "t AND webLocationFlag = 0" and "t AND fileReferenceFlag = 0"
  defines "t' \<equiv> (\<lambda>web ref. let t = (if web then t OR webLocationFlag else t) in if ref then t OR fileReferenceFlag else t)"
  shows "t' web ref AND webLocationFlag \<noteq> 0 \<longleftrightarrow> web" and "t' web ref AND fileReferenceFlag \<noteq> 0 \<longleftrightarrow> ref"
    and "t' web ref AND NOT webLocationFlag AND NOT fileReferenceFlag = t"
proof -
  have w: "bit webLocationFlag n \<longleftrightarrow> n = 24" "bit fileReferenceFlag n \<longleftrightarrow> n = 25" for n
    by (simp_all only: webLocationFlag_def fileReferenceFlag_def bit_push_bit_iff bit_1_iff) auto
  have b: "\<not> bit t 24" "\<not> bit t 25"
    using assms(1,2) w bit_and_iff [of t webLocationFlag 24] bit_and_iff [of t fileReferenceFlag 25] by simp_all
  have z: "x AND webLocationFlag \<noteq> 0 \<longleftrightarrow> bit x 24" "x AND fileReferenceFlag \<noteq> 0 \<longleftrightarrow> bit x 25" for x
    using bit_and_iff [of x webLocationFlag] bit_and_iff [of x fileReferenceFlag] w
    by (metis bit_0_eq bot_apply bot_bool_def bit_word_eqI)+
  show "t' web ref AND webLocationFlag \<noteq> 0 \<longleftrightarrow> web" "t' web ref AND fileReferenceFlag \<noteq> 0 \<longleftrightarrow> ref"
    unfolding z using b w by (simp_all add: t'_def Let_def bit_or_iff)
  show "t' web ref AND NOT webLocationFlag AND NOT fileReferenceFlag = t"
    by (rule bit_word_eqI) (use b in \<open>auto simp: t'_def Let_def bit_simps w\<close>)
qed

text \<open>The encoding after the optional reference, and how it is read.\<close>

definition located :: "file_id \<Rightarrow> file_id \<Rightarrow> file_id" where
  "located f g =
     (if fi_URL f \<noteq> [] then g\<lparr>fi_URL := fi_URL f\<rparr>
      else g\<lparr>fi_ID := fi_ID f, fi_AccessHash := fi_AccessHash f,
             fi_Source := (if IsPhoto (fi_Type f) then carried_source (fi_Source f) else fi_Source g)\<rparr>)"

lemma unpack_packed_location:
  assumes "length buf mod 4 = 0" and "length (fi_URL f) < 2 ^ 24"
  shows "\<exists>rest. rest \<noteq> [] \<and>
    (if fi_URL f \<noteq> [] then packBytes buf (fi_URL f) @ [persistentIDVersion]
     else buf @ le_bytes 8 (fi_ID f) @ le_bytes 8 (fi_AccessHash f) @
          (if IsPhoto (fi_Type f) then pack_source (fi_Source f) else []) @ [latestSubVersion, persistentIDVersion]) =
    buf @ rest @ [persistentIDVersion] \<and>
    (\<forall>g. fi_Type g = fi_Type f \<longrightarrow> unpack_location (fi_URL f \<noteq> []) (last rest) g rest = Inr (located f g))"
proof (cases "fi_URL f = []")
  case True
  let ?rest = "le_bytes 8 (fi_ID f) @ le_bytes 8 (fi_AccessHash f) @
    (if IsPhoto (fi_Type f) then pack_source (fi_Source f) else []) @ [latestSubVersion]"
  have "last ?rest = latestSubVersion" by simp
  moreover have "unpack_location False latestSubVersion g ?rest = Inr (located f g)" if "fi_Type g = fi_Type f" for g
    using unpack_location_file [of g "fi_ID f" "fi_AccessHash f" "fi_Source f"] that True by (simp add: located_def)
  ultimately show ?thesis using True by (intro exI [of _ ?rest]) simp
next
  case False
  from unpackBytes_packBytes [OF False assms(2,1)] obtain tail where t: "packBytes buf (fi_URL f) = buf @ tail"
    "\<And>r. unpackBytes (tail @ r) = Inr (fi_URL f, r)" by blast
  from t(2) [of "[]"] have "tail \<noteq> []" by (auto simp: unpackBytes_def)
  moreover have "unpack_location True (last tail) g tail = Inr (located f g)" for g
    using unpack_location_web [OF False t(2), of "last tail" g "[]"] False by (simp add: located_def)
  ultimately show ?thesis using False t(1) by (intro exI [of _ tail]) simp
qed

lemma unpack_pack_file_id:
  assumes "file_id_ok f"
  shows "unpack_file_id (pack_file_id f) = Inr (carried f)"
proof -
  define buf where "buf = le_bytes 4 (type_word f) @ le_bytes 4 (fi_DCID f)"
  define r where "r = (fi_FileReference f \<noteq> [])"
  note ok = assms [unfolded file_id_ok_def]
  have "\<exists>tail. (if r then packBytes buf (fi_FileReference f) else buf) = buf @ tail \<and> (length (buf @ tail)) mod 4 = 0 \<and>
      (if r then \<forall>x. unpackBytes (tail @ x) = Inr (fi_FileReference f, x) else tail = [])"
    using unpackBytes_packBytes [of "fi_FileReference f" buf] ok by (cases r) (auto simp: r_def buf_def)
  then obtain tail where t: "(if r then packBytes buf (fi_FileReference f) else buf) = buf @ tail" "length (buf @ tail) mod 4 = 0"
    "if r then \<forall>x. unpackBytes (tail @ x) = Inr (fi_FileReference f, x) else tail = []"
    by (elim exE conjE)
  have p: "pack_file_id f =
    (if fi_URL f \<noteq> [] then packBytes (buf @ tail) (fi_URL f) @ [persistentIDVersion]
     else (buf @ tail) @ le_bytes 8 (fi_ID f) @ le_bytes 8 (fi_AccessHash f) @
          (if IsPhoto (fi_Type f) then pack_source (fi_Source f) else []) @ [latestSubVersion, persistentIDVersion])"
    unfolding pack_file_id_def Let_def buf_def [symmetric] r_def [symmetric] t(1) by (rule refl)
  have "length (fi_URL f) < 2 ^ 24" using ok by blast
  from unpack_packed_location [OF t(2) this, folded p] obtain rest where rest: "rest \<noteq> []"
    "pack_file_id f = (buf @ tail) @ rest @ [persistentIDVersion]"
    "\<And>g. fi_Type g = fi_Type f \<Longrightarrow> unpack_location (fi_URL f \<noteq> []) (last rest) g rest = Inr (located f g)" by blast
  have b: "butlast (pack_file_id f) = le_bytes 4 (type_word f) @ le_bytes 4 (fi_DCID f) @ tail @ rest"
    "last (pack_file_id f) = persistentIDVersion" "last (le_bytes 4 (type_word f) @ le_bytes 4 (fi_DCID f) @ tail @ rest) = last rest"
    using rest(1) by (simp_all add: rest(2) buf_def butlast_append)
  have l: "\<not> length (pack_file_id f) < 2" using rest(1) by (cases rest) (simp_all add: rest(2))
  have fl: "type_word f AND webLocationFlag \<noteq> 0 \<longleftrightarrow> fi_URL f \<noteq> []" "type_word f AND fileReferenceFlag \<noteq> 0 \<longleftrightarrow> r"
    "type_word f AND NOT webLocationFlag AND NOT fileReferenceFlag = fi_Type f"
    unfolding type_word_def r_def using flag_bits [of "fi_Type f"] ok by simp_all
  have u: "unpack_file_id (pack_file_id f) = Inr (located f
      (zero_file_id\<lparr>fi_Type := fi_Type f, fi_DCID := fi_DCID f, fi_FileReference := fi_FileReference f\<rparr>))"
  proof (cases r)
    case True
    with t(3) show ?thesis
      unfolding unpack_file_id_def Let_def by (simp only: l b fl if_False if_True not_True_eq_False unpack_word_32 sum.case prod.case) (simp add: rest(3))
  next
    case False
    then have "fi_FileReference f = []" "tail = []" using t(3) by (simp_all add: r_def)
    with False show ?thesis
      unfolding unpack_file_id_def Let_def by (simp only: l b fl if_False if_True not_True_eq_False unpack_word_32 sum.case prod.case) (simp add: rest(1,3) zero_file_id_def)
  qed
  then show ?thesis by (simp add: carried_def located_def Let_def zero_file_id_def)
qed

text \<open>A file identifier survives its string form. Decoding an encoded identifier gives back its type,
  data center, reference and either its URL or its id, access hash and, for photos, the source fields of the
  source's kind, for every identifier whose type leaves the two flag bits free and whose reference and
  URL are shorter than 2^24 bytes. The other fields (volume and local ids, those of other kinds) come
  back as zero.\<close>

theorem file_id_roundtrip:
  assumes "file_id_ok f"
  shows "FileID_Decode (FileID_Encode f) = Inr (carried f)"
  using unpack_pack_file_id [OF assms] by (simp add: FileID_Decode_def FileID_Encode_def)

theorem file_id_roundtrip_witness:
  "FileID_Decode (FileID_Encode (zero_file_id\<lparr>fi_Type := 2, fi_DCID := 4, fi_ID := 77, fi_FileReference := [1, 0, 0, 3],
     fi_VolumeID := 9, fi_Source := no_source\<lparr>ps_Type := 3, ps_ChatID := 5, ps_Secret := 8\<rparr>\<rparr>)) =
   Inr (zero_file_id\<lparr>fi_Type := 2, fi_DCID := 4, fi_ID := 77, fi_FileReference := [1, 0, 0, 3],
     fi_Source := no_source\<lparr>ps_Type := 3, ps_ChatID := 5\<rparr>\<rparr>)"
proof -
  let ?f = "zero_file_id\<lparr>fi_Type := 2, fi_DCID := 4, fi_ID := 77, fi_FileReference := [1, 0, 0, 3],
     fi_VolumeID := 9, fi_Source := no_source\<lparr>ps_Type := 3, ps_ChatID := 5, ps_Secret := 8\<rparr>\<rparr>"
  have "file_id_ok ?f" by (simp add: file_id_ok_def zero_file_id_def webLocationFlag_def fileReferenceFlag_def)
  moreover have "carried ?f = zero_file_id\<lparr>fi_Type := 2, fi_DCID := 4, fi_ID := 77, fi_FileReference := [1, 0, 0, 3],
     fi_Source := no_source\<lparr>ps_Type := 3, ps_ChatID := 5\<rparr>\<rparr>" by code_simp
  ultimately show ?thesis using file_id_roundtrip [of ?f] by (simp only:)
qed

text \<open>A defect: a truncated identifier is accepted. Dropping the last bytes of a reference-less document, down to one
  byte of the access hash, is not noticed: the missing bytes read as zero.\<close>

lemma truncated_file_id_accepted:
  "FileID_Decode (EncodeToString (rleEncode (le_bytes 4 (5 :: u32) @ le_bytes 4 (4 :: u32) @ le_bytes 8 (77 :: i64) @ [9, persistentIDVersion]))) =
   Inr (zero_file_id\<lparr>fi_Type := 5, fi_DCID := 4, fi_ID := 77, fi_AccessHash := 9\<rparr>)"
  by (simp only: FileID_Decode_def DecodeString_EncodeToString rleDecode_rleEncode option.case) code_simp

end
