(* ===== verification/Memory_Storage.thy ===== *)
theory Memory_Storage
  imports File_Ids "HOL-Library.AList"
begin

text \<open>
  The in-memory session store, \<^verbatim>\<open>src/telegram/memory_storage.go\<close>: peers with their index of usernames,
  update states, the bounded memory of update keys, durable updates, and the session string. The peer
  type belongs to another module; the record has the fields its users in this repository read or write. Usernames and phone
  numbers are taken as ASCII. Of the plain session fields the record has those ExportSessionString reads. The
  maps, which NewMemoryStorage allocates, are not nil.
\<close>

section \<open>Definitions\<close>

datatype peer_type = PeerTypeUser | PeerTypeChat | PeerTypeChannel | PeerTypeOther

record peer =
  pr_ID :: i64
  pr_Type :: peer_type
  pr_AccessHash :: i64
  pr_Username :: string
  pr_FirstName :: string
  pr_LastName :: string
  pr_PhoneNumber :: string
  pr_IsBot :: bool
  pr_Language :: string

record update_state =
  us_SessionID :: string
  us_Pts :: u32
  us_Qts :: u32
  us_Date :: u32
  us_Seq :: u32

record channel_update_state =
  cs_SessionID :: string
  cs_ChannelID :: i64
  cs_Pts :: u32

record durable_update =
  du_SessionID :: string
  du_ID :: string
  du_Payload :: bytes
  du_Attempts :: int
  du_LastError :: string

text \<open>A key-value store of authorizations; the entries belong to another module.\<close>

record 'auth memory_storage =
  ms_dcID :: int
  ms_apiID :: u32
  ms_testMode :: bool
  ms_authKey :: bytes
  ms_userID :: i64
  ms_isBot :: bool
  ms_peers :: "(i64 \<times> peer) list"
  ms_peerUsernames :: "(string \<times> i64) list"
  ms_dcAuths :: "(int \<times> 'auth) list"
  ms_updateStates :: "(string \<times> update_state) list"
  ms_channelStates :: "(string \<times> (i64 \<times> channel_update_state) list) list"
  ms_updateDedup :: "(string \<times> (string \<times> int) list) list"
  ms_dedupOrder :: "(string \<times> string list) list"
  ms_durableUpdates :: "(string \<times> (string \<times> durable_update) list) list"

definition NewMemoryStorage :: "'auth memory_storage" where
  "NewMemoryStorage =
     \<lparr>ms_dcID = 0, ms_apiID = 0, ms_testMode = False, ms_authKey = [], ms_userID = 0, ms_isBot = False,
      ms_peers = [], ms_peerUsernames = [], ms_dcAuths = [], ms_updateStates = [], ms_channelStates = [],
      ms_updateDedup = [], ms_dedupOrder = [], ms_durableUpdates = []\<rparr>"

text \<open>Reading a missing key of a map of maps or slices gives the empty one.\<close>

definition inner :: "('k \<times> 'v list) list \<Rightarrow> 'k \<Rightarrow> 'v list" where
  "inner m k = (case map_of m k of None \<Rightarrow> [] | Some v \<Rightarrow> v)"

subsection \<open>Peers\<close>

text \<open>\<^verbatim>\<open>strings.ToLower\<close> and \<^verbatim>\<open>strings.TrimSpace\<close> on ASCII.\<close>

definition lower_char :: "char \<Rightarrow> char" where
  "lower_char c = (if 65 \<le> (of_char c :: nat) \<and> (of_char c :: nat) \<le> 90 then char_of ((of_char c :: nat) + 32) else c)"

definition ToLower :: "string \<Rightarrow> string" where
  "ToLower s = map lower_char s"

definition is_space :: "char \<Rightarrow> bool" where
  "is_space c \<longleftrightarrow> c = CHR '' '' \<or> (9 \<le> (of_char c :: nat) \<and> (of_char c :: nat) \<le> 13)"

definition TrimSpace :: "string \<Rightarrow> string" where
  "TrimSpace s = rev (dropWhile is_space (rev (dropWhile is_space s)))"

definition trim_prefix :: "string \<Rightarrow> string \<Rightarrow> string" where
  "trim_prefix p s = (if take (length p) s = p then drop (length p) s else s)"

text \<open>Empty fields of an update keep what was stored.\<close>

definition merge_peer :: "peer \<Rightarrow> peer \<Rightarrow> peer" where
  "merge_peer p old =
     p\<lparr>pr_AccessHash := (if pr_AccessHash p = 0 then pr_AccessHash old else pr_AccessHash p),
       pr_Username := (if pr_Username p = [] then pr_Username old else pr_Username p),
       pr_FirstName := (if pr_FirstName p = [] then pr_FirstName old else pr_FirstName p),
       pr_LastName := (if pr_LastName p = [] then pr_LastName old else pr_LastName p),
       pr_PhoneNumber := (if pr_PhoneNumber p = [] then pr_PhoneNumber old else pr_PhoneNumber p),
       pr_IsBot := (if \<not> pr_IsBot p then pr_IsBot old else pr_IsBot p),
       pr_Language := (if pr_Language p = [] then pr_Language old else pr_Language p)\<rparr>"

definition SavePeer :: "peer \<Rightarrow> 'auth memory_storage \<Rightarrow> 'auth memory_storage" where
  "SavePeer p m =
     (let (merged, names) =
        (case map_of (ms_peers m) (pr_ID p) of
           None \<Rightarrow> (p, ms_peerUsernames m)
         | Some old \<Rightarrow>
             let merged = merge_peer p old
             in (merged,
                 if pr_Username old \<noteq> [] \<and> pr_Username merged \<noteq> pr_Username old
                 then AList.delete (ToLower (pr_Username old)) (ms_peerUsernames m)
                 else ms_peerUsernames m));
        names' = (if pr_Username merged \<noteq> [] then AList.update (ToLower (pr_Username merged)) (pr_ID merged) names else names)
      in m\<lparr>ms_peerUsernames := names', ms_peers := AList.update (pr_ID merged) merged (ms_peers m)\<rparr>)"

definition GetPeer :: "i64 \<Rightarrow> 'auth memory_storage \<Rightarrow> peer option" where
  "GetPeer i m = map_of (ms_peers m) i"

definition GetPeerByUsername :: "string \<Rightarrow> 'auth memory_storage \<Rightarrow> peer option" where
  "GetPeerByUsername username m =
     (case map_of (ms_peerUsernames m) (ToLower username) of None \<Rightarrow> None | Some i \<Rightarrow> map_of (ms_peers m) i)"

definition GetPeerByPhone :: "string \<Rightarrow> 'auth memory_storage \<Rightarrow> peer option" where
  "GetPeerByPhone phone m =
     (let needle = trim_prefix ''00'' (trim_prefix ''+'' (TrimSpace phone))
      in List.find (\<lambda>p. pr_PhoneNumber p = needle) (map snd (ms_peers m)))"

definition LoadPeers :: "'auth memory_storage \<Rightarrow> peer list" where
  "LoadPeers m = map snd (ms_peers m)"

definition DeletePeer :: "i64 \<Rightarrow> 'auth memory_storage \<Rightarrow> 'auth memory_storage" where
  "DeletePeer i m =
     (let names = (case map_of (ms_peers m) i of
                     Some old \<Rightarrow> if pr_Username old \<noteq> [] then AList.delete (ToLower (pr_Username old)) (ms_peerUsernames m)
                                 else ms_peerUsernames m
                   | None \<Rightarrow> ms_peerUsernames m)
      in m\<lparr>ms_peerUsernames := names, ms_peers := AList.delete i (ms_peers m)\<rparr>)"

subsection \<open>Update states and authorizations\<close>

definition SaveDCAuth :: "int \<Rightarrow> 'auth \<Rightarrow> 'auth memory_storage \<Rightarrow> 'auth memory_storage" where
  "SaveDCAuth dcID entry m = m\<lparr>ms_dcAuths := AList.update dcID entry (ms_dcAuths m)\<rparr>"

definition LoadDCAuth :: "int \<Rightarrow> 'auth memory_storage \<Rightarrow> 'auth option" where
  "LoadDCAuth dcID m = map_of (ms_dcAuths m) dcID"

definition LoadUpdateState :: "string \<Rightarrow> 'auth memory_storage \<Rightarrow> update_state option" where
  "LoadUpdateState sid m = map_of (ms_updateStates m) sid"

definition SaveUpdateState :: "update_state \<Rightarrow> 'auth memory_storage \<Rightarrow> 'auth memory_storage" where
  "SaveUpdateState s m = m\<lparr>ms_updateStates := AList.update (us_SessionID s) s (ms_updateStates m)\<rparr>"

definition LoadChannelUpdateState :: "string \<Rightarrow> i64 \<Rightarrow> 'auth memory_storage \<Rightarrow> channel_update_state option" where
  "LoadChannelUpdateState sid cid m = map_of (inner (ms_channelStates m) sid) cid"

definition LoadAllChannelUpdateStates :: "string \<Rightarrow> 'auth memory_storage \<Rightarrow> channel_update_state list" where
  "LoadAllChannelUpdateStates sid m = map snd (inner (ms_channelStates m) sid)"

definition SaveChannelUpdateState :: "channel_update_state \<Rightarrow> 'auth memory_storage \<Rightarrow> 'auth memory_storage" where
  "SaveChannelUpdateState s m =
     m\<lparr>ms_channelStates := AList.update (cs_SessionID s)
         (AList.update (cs_ChannelID s) s (inner (ms_channelStates m) (cs_SessionID s))) (ms_channelStates m)\<rparr>"

subsection \<open>Keys of handled updates\<close>

definition maxDedupKeysPerSession :: nat where "maxDedupKeysPerSession = 10000"

definition dedupExpiry :: int where "dedupExpiry = 30 * 60 * 1000000000"

text \<open>The eviction loop: from the oldest key on, until a key younger than the expiry has been removed or half of
  the capacity has been cleared.\<close>

fun evict :: "int \<Rightarrow> nat \<Rightarrow> string list \<Rightarrow> (string \<times> int) list \<Rightarrow> string list \<times> (string \<times> int) list" where
  "evict now cleared [] seen = ([], seen)"
| "evict now cleared (oldest # order) seen =
     (if cleared < maxDedupKeysPerSession div 2
      then case map_of seen oldest of
             None \<Rightarrow> evict now cleared order seen
           | Some ts \<Rightarrow>
               (if now - ts < dedupExpiry then (order, AList.delete oldest seen)
                else evict now (Suc cleared) order (AList.delete oldest seen))
      else (oldest # order, seen))"

text \<open>\<open>now\<close> and \<open>now'\<close> are the two clock readings.\<close>

definition SaveUpdateDedupKey ::
  "int \<Rightarrow> int \<Rightarrow> string \<Rightarrow> string \<Rightarrow> 'auth memory_storage \<Rightarrow> bool \<times> 'auth memory_storage" where
  "SaveUpdateDedupKey now now' sid key m =
     (let m = (if map_of (ms_updateDedup m) sid = None
               then m\<lparr>ms_updateDedup := AList.update sid [] (ms_updateDedup m), ms_dedupOrder := AList.update sid [] (ms_dedupOrder m)\<rparr>
               else m);
          seen = inner (ms_updateDedup m) sid;
          order = inner (ms_dedupOrder m) sid
      in if map_of seen key \<noteq> None then (False, m)
         else
           let (order, seen) = (if length seen \<ge> maxDedupKeysPerSession then evict now 0 order seen else (order, seen))
           in (True, m\<lparr>ms_updateDedup := AList.update sid (AList.update key now' seen) (ms_updateDedup m),
                       ms_dedupOrder := AList.update sid (order @ [key]) (ms_dedupOrder m)\<rparr>))"

definition UpdateDedupKeyExists :: "string \<Rightarrow> string \<Rightarrow> 'auth memory_storage \<Rightarrow> bool" where
  "UpdateDedupKeyExists sid key m = (map_of (inner (ms_updateDedup m) sid) key \<noteq> None)"

subsection \<open>Durable updates\<close>

definition EnqueueDurableUpdate :: "durable_update \<Rightarrow> 'auth memory_storage \<Rightarrow> 'auth memory_storage" where
  "EnqueueDurableUpdate u m =
     m\<lparr>ms_durableUpdates := AList.update (du_SessionID u)
         (AList.update (du_ID u) u (inner (ms_durableUpdates m) (du_SessionID u))) (ms_durableUpdates m)\<rparr>"

definition DeleteDurableUpdate :: "string \<Rightarrow> string \<Rightarrow> 'auth memory_storage \<Rightarrow> 'auth memory_storage" where
  "DeleteDurableUpdate sid i m =
     (case map_of (ms_durableUpdates m) sid of
        None \<Rightarrow> m
      | Some us \<Rightarrow> m\<lparr>ms_durableUpdates := AList.update sid (AList.delete i us) (ms_durableUpdates m)\<rparr>)"

text \<open>The loop stops when it has \<open>limit\<close> items, if that is positive.\<close>

definition LoadDurableUpdates :: "string \<Rightarrow> int \<Rightarrow> 'auth memory_storage \<Rightarrow> durable_update list" where
  "LoadDurableUpdates sid limit m =
     (let items = map snd (inner (ms_durableUpdates m) sid) in if limit > 0 then take (nat limit) items else items)"

definition MarkDurableUpdateFailed :: "string \<Rightarrow> string \<Rightarrow> int \<Rightarrow> string \<Rightarrow> 'auth memory_storage \<Rightarrow> 'auth memory_storage" where
  "MarkDurableUpdateFailed sid i attempts lastErr m =
     (case map_of (inner (ms_durableUpdates m) sid) i of
        None \<Rightarrow> m
      | Some item \<Rightarrow>
          m\<lparr>ms_durableUpdates := AList.update sid
              (AList.update i (item\<lparr>du_Attempts := attempts, du_LastError := lastErr\<rparr>) (inner (ms_durableUpdates m) sid))
              (ms_durableUpdates m)\<rparr>)"

subsection \<open>The session string\<close>

text \<open>Padded base64 with the padding trimmed is the unpadded form. No key gives the empty string, a missing
  api_id an error.\<close>

definition be_bytes :: "nat \<Rightarrow> 'a::len word \<Rightarrow> bytes" where
  "be_bytes n w = rev (le_bytes n w)"

definition session_bytes :: "'auth memory_storage \<Rightarrow> bytes" where
  "session_bytes m =
     [word_of_int (ms_dcID m)] @ be_bytes 4 (ms_apiID m) @ [if ms_testMode m then 1 else 0] @ ms_authKey m @
     be_bytes 8 (ms_userID m) @ [if ms_isBot m then 1 else 0]"

definition ExportSessionString :: "'auth memory_storage \<Rightarrow> string option" where
  "ExportSessionString m =
     (if ms_authKey m = [] then Some [] else if ms_apiID m = 0 then None else Some (EncodeToString (session_bytes m)))"

section \<open>The index of usernames\<close>

definition peers_wf :: "'auth memory_storage \<Rightarrow> bool" where
  "peers_wf m \<longleftrightarrow>
     gm_wf (ms_peers m) \<and> gm_wf (ms_peerUsernames m) \<and> (\<forall>i p. map_of (ms_peers m) i = Some p \<longrightarrow> pr_ID p = i) \<and>
     (\<forall>k i. map_of (ms_peerUsernames m) k = Some i \<longrightarrow>
        (\<exists>p. map_of (ms_peers m) i = Some p \<and> pr_Username p \<noteq> [] \<and> ToLower (pr_Username p) = k))"

text \<open>What SavePeer stores, and under which name.\<close>

definition stored_peer :: "peer \<Rightarrow> 'auth memory_storage \<Rightarrow> peer" where
  "stored_peer p m = (case map_of (ms_peers m) (pr_ID p) of None \<Rightarrow> p | Some old \<Rightarrow> merge_peer p old)"

lemma stored_peer_simps [simp]: "pr_ID (stored_peer p m) = pr_ID p"
  by (simp add: stored_peer_def merge_peer_def split: option.split)

lemma SavePeer_peers: "map_of (ms_peers (SavePeer p m)) = (map_of (ms_peers m))(pr_ID p \<mapsto> stored_peer p m)"
  by (simp add: SavePeer_def stored_peer_def Let_def update_conv' merge_peer_def split: option.split)

lemma SavePeer_names:
  "map_of (ms_peerUsernames (SavePeer p m)) =
     (let names = (case map_of (ms_peers m) (pr_ID p) of
                     None \<Rightarrow> map_of (ms_peerUsernames m)
                   | Some old \<Rightarrow>
                       if pr_Username old \<noteq> [] \<and> pr_Username (stored_peer p m) \<noteq> pr_Username old
                       then (map_of (ms_peerUsernames m))(ToLower (pr_Username old) := None)
                       else map_of (ms_peerUsernames m))
      in if pr_Username (stored_peer p m) \<noteq> [] then names(ToLower (pr_Username (stored_peer p m)) \<mapsto> pr_ID p) else names)"
  by (simp add: SavePeer_def stored_peer_def Let_def update_conv' delete_conv' merge_peer_def split: option.split)

lemma SavePeer_gm_wf:
  "gm_wf (ms_peers m) \<Longrightarrow> gm_wf (ms_peers (SavePeer p m))"
  "gm_wf (ms_peerUsernames m) \<Longrightarrow> gm_wf (ms_peerUsernames (SavePeer p m))"
  by (auto simp: SavePeer_def Let_def distinct_update distinct_delete split: option.split)

lemma peers_wf_SavePeer:
  assumes "peers_wf m"
  shows "peers_wf (SavePeer p m)"
proof -
  note wf = assms [unfolded peers_wf_def]
  have "\<exists>q. map_of (ms_peers (SavePeer p m)) i = Some q \<and> pr_Username q \<noteq> [] \<and> ToLower (pr_Username q) = k"
    if k: "map_of (ms_peerUsernames (SavePeer p m)) k = Some i" for k i
  proof (cases "map_of (ms_peers m) (pr_ID p)")
    case None
    then have "i \<noteq> pr_ID p" if "map_of (ms_peerUsernames m) k = Some i" using wf that by fastforce
    with k None wf show ?thesis by (auto simp: SavePeer_names SavePeer_peers Let_def split: if_splits)
  next
    case (Some old)
    have u: "pr_Username (stored_peer p m) = [] \<longrightarrow> pr_Username old = []"
      by (simp add: stored_peer_def Some merge_peer_def)
    have "k = ToLower (pr_Username old) \<and> pr_Username old \<noteq> []" if "map_of (ms_peerUsernames m) k = Some (pr_ID p)"
      using wf that Some by fastforce
    with k Some u wf show ?thesis by (fastforce simp: SavePeer_names SavePeer_peers Let_def split: if_splits)
  qed
  then show ?thesis
    using wf SavePeer_gm_wf [of m p] by (auto simp: peers_wf_def SavePeer_peers split: if_splits)
qed

lemma peers_wf_DeletePeer:
  assumes "peers_wf m"
  shows "peers_wf (DeletePeer i m)"
proof -
  note wf = assms [unfolded peers_wf_def]
  have p: "map_of (ms_peers (DeletePeer i m)) = (map_of (ms_peers m))(i := None)"
    by (simp add: DeletePeer_def Let_def delete_conv')
  have "j \<noteq> i \<and> map_of (ms_peerUsernames m) k = Some j" if k: "map_of (ms_peerUsernames (DeletePeer i m)) k = Some j" for k j
  proof -
    have n: "map_of (ms_peerUsernames m) k = Some j"
      using k by (auto simp: DeletePeer_def Let_def delete_conv' split: option.splits if_splits)
    with wf obtain q where "map_of (ms_peers m) j = Some q" "pr_Username q \<noteq> []" "ToLower (pr_Username q) = k" by blast
    with k n show ?thesis by (auto simp: DeletePeer_def Let_def delete_conv' split: option.splits if_splits)
  qed
  moreover have "gm_wf (ms_peers (DeletePeer i m))" "gm_wf (ms_peerUsernames (DeletePeer i m))"
    using wf by (auto simp: DeletePeer_def Let_def distinct_delete split: option.split)
  ultimately show ?thesis using wf by (auto simp: peers_wf_def p)
qed

datatype peer_op = SavesPeer peer | DeletesPeer i64

fun peer_exec :: "peer_op \<Rightarrow> 'auth memory_storage \<Rightarrow> 'auth memory_storage" where
  "peer_exec (SavesPeer p) m = SavePeer p m"
| "peer_exec (DeletesPeer i) m = DeletePeer i m"

lemma peers_wf_run: "peers_wf m \<Longrightarrow> peers_wf (fold peer_exec ops m)"
proof (induction ops arbitrary: m)
  case (Cons x ops)
  then show ?case by (cases x) (simp_all add: peers_wf_SavePeer peers_wf_DeletePeer)
qed simp

text \<open>Looking a peer up by username never finds the wrong one. After any saves and deletions, what
  GetPeerByUsername returns is a stored peer that has the username, up to case; a saved peer is found by its
  identifier with the fields the update left empty kept from before; and, if it has a username, by every
  spelling of it.\<close>

theorem peer_lookup_sound:
  fixes ops :: "peer_op list" and m :: "'auth memory_storage"
  defines "m \<equiv> fold peer_exec ops NewMemoryStorage"
  shows "(\<forall>u q. GetPeerByUsername u m = Some q \<longrightarrow> ToLower (pr_Username q) = ToLower u \<and> GetPeer (pr_ID q) m = Some q) \<and>
    (\<forall>p. GetPeer (pr_ID p) (SavePeer p m) = Some (case GetPeer (pr_ID p) m of None \<Rightarrow> p | Some old \<Rightarrow> merge_peer p old)) \<and>
    (\<forall>p u. pr_Username p \<noteq> [] \<longrightarrow> ToLower u = ToLower (pr_Username p) \<longrightarrow>
       GetPeerByUsername u (SavePeer p m) = GetPeer (pr_ID p) (SavePeer p m))"
proof -
  have "peers_wf m"
    unfolding m_def by (rule peers_wf_run) (simp add: peers_wf_def NewMemoryStorage_def)
  then have wf: "\<And>i p. map_of (ms_peers m) i = Some p \<Longrightarrow> pr_ID p = i"
    "\<And>k i p. map_of (ms_peerUsernames m) k = Some i \<Longrightarrow> map_of (ms_peers m) i = Some p \<Longrightarrow> ToLower (pr_Username p) = k"
    unfolding peers_wf_def by (blast, metis option.inject)
  have "ToLower (pr_Username q) = ToLower u \<and> GetPeer (pr_ID q) m = Some q" if "GetPeerByUsername u m = Some q" for u q
    using that wf by (auto simp: GetPeerByUsername_def GetPeer_def split: option.splits)
  moreover have "pr_Username (stored_peer p m) = pr_Username p" if "pr_Username p \<noteq> []" for p
    using that by (simp add: stored_peer_def merge_peer_def split: option.split)
  ultimately show ?thesis
    by (auto simp: GetPeer_def SavePeer_peers stored_peer_def [symmetric] GetPeerByUsername_def SavePeer_names Let_def)
qed

definition sample_peer :: "i64 \<Rightarrow> string \<Rightarrow> peer" where
  "sample_peer i name =
     \<lparr>pr_ID = i, pr_Type = PeerTypeUser, pr_AccessHash = 7, pr_Username = name, pr_FirstName = [], pr_LastName = [], pr_PhoneNumber = [], pr_IsBot = False,
      pr_Language = []\<rparr>"

theorem peer_lookup_sound_witness:
  "GetPeerByUsername ''BOB'' (SavePeer (sample_peer 2 ''Bob'')
     (fold peer_exec [SavesPeer (sample_peer 1 ''alice''), DeletesPeer 1] (NewMemoryStorage :: unit memory_storage))) =
   Some (sample_peer 2 ''Bob'')"
proof -
  let ?m = "fold peer_exec [SavesPeer (sample_peer 1 ''alice''), DeletesPeer 1] (NewMemoryStorage :: unit memory_storage)"
  have "GetPeer 2 ?m = None" by (simp add: GetPeer_def DeletePeer_def SavePeer_def Let_def NewMemoryStorage_def sample_peer_def)
  moreover have "ToLower ''BOB'' = ToLower ''Bob''" "pr_ID (sample_peer 2 ''Bob'') = 2" "pr_Username (sample_peer 2 ''Bob'') = ''Bob''"
    by code_simp+
  ultimately show ?thesis
    using peer_lookup_sound [where ?'auth = unit, of "[SavesPeer (sample_peer 1 ''alice''), DeletesPeer 1]"] by fastforce
qed

text \<open>A defect: the index can forget a peer. When a username has moved to another peer, deleting the one that had it
  before removes the index entry of the new holder.\<close>

lemma transferred_username_forgotten:
  fixes m :: "unit memory_storage"
  defines "m \<equiv> fold peer_exec [SavesPeer (sample_peer 1 ''bob''), SavesPeer (sample_peer 2 ''Bob''), DeletesPeer 1] NewMemoryStorage"
  shows "GetPeer 2 m = Some (sample_peer 2 ''Bob'') \<and> GetPeerByUsername ''bob'' m = None"
  unfolding m_def by (simp add: GetPeer_def GetPeerByUsername_def DeletePeer_def SavePeer_def Let_def NewMemoryStorage_def sample_peer_def
      ToLower_def lower_char_def)

section \<open>The memory of update keys\<close>

text \<open>The order list has exactly the keys of the map, each once.\<close>

definition order_ok :: "string list \<Rightarrow> (string \<times> int) list \<Rightarrow> bool" where
  "order_ok order seen \<longleftrightarrow> gm_wf seen \<and> distinct order \<and> set order = dom (map_of seen)"

lemma order_ok_length: "order_ok order seen \<Longrightarrow> length seen = length order"
  unfolding order_ok_def by (metis distinct_card gm.len_card)

text \<open>Eviction removes a prefix of the order: at least one key, at most what is left of half the capacity.\<close>

lemma evict_prefix:
  assumes "order_ok order seen" and "order \<noteq> []" and "cleared < maxDedupKeysPerSession div 2"
  shows "\<exists>n seen'. evict now cleared order seen = (drop n order, seen') \<and> 1 \<le> n \<and> n \<le> maxDedupKeysPerSession div 2 - cleared \<and>
    order_ok (drop n order) seen'"
  using assms
proof (induction now cleared order seen rule: evict.induct)
  case (2 now cleared oldest order seen)
  have "oldest \<in> dom (map_of seen)" using 2(3) unfolding order_ok_def by (metis list.set_intros(1))
  then obtain ts where ts: "map_of seen oldest = Some ts" by blast
  let ?seen = "AList.delete oldest seen"
  have ok: "order_ok order ?seen"
  proof -
    have "dom (map_of seen) = insert oldest (set order)" using 2(3) unfolding order_ok_def by simp
    then show ?thesis using 2(3) by (simp add: order_ok_def gm.dom_del distinct_delete)
  qed
  show ?case
  proof (cases "now - ts < dedupExpiry")
    case True
    then show ?thesis using ts ok 2(5) by (intro exI [of _ 1] exI [of _ ?seen]) auto
  next
    case False
    note step = 2(2) [OF 2(5) ts False ok]
    have e: "evict now cleared (oldest # order) seen = evict now (Suc cleared) order ?seen"
      using False ts 2(5) by simp
    show ?thesis
    proof (cases "order = [] \<or> \<not> Suc cleared < maxDedupKeysPerSession div 2")
      case True
      then have "evict now (Suc cleared) order ?seen = (order, ?seen)" by (cases order) auto
      then show ?thesis using e ok 2(5) by (intro exI [of _ 1] exI [of _ ?seen]) auto
    next
      case rest: False
      with step obtain n seen' where "evict now (Suc cleared) order ?seen = (drop n order, seen')" "1 \<le> n"
        "n \<le> maxDedupKeysPerSession div 2 - Suc cleared" "order_ok (drop n order) seen'" by blast
      then show ?thesis using e rest by (intro exI [of _ "Suc n"] exI [of _ seen']) auto
    qed
  qed
qed simp

lemma room_for_key:
  assumes ok: "order_ok order seen" and le: "length order \<le> maxDedupKeysPerSession"
    and step: "(order', seen') = (if length seen \<ge> maxDedupKeysPerSession then evict now 0 order seen else (order, seen))"
  shows "\<exists>k. order' = drop k order \<and> order_ok order' seen' \<and> k \<le> length order \<and> length order' < maxDedupKeysPerSession \<and>
    (k = 0 \<or> maxDedupKeysPerSession div 2 \<le> length order')"
proof (cases "length seen \<ge> maxDedupKeysPerSession")
  case True
  then have l: "length order = maxDedupKeysPerSession" using le order_ok_length [OF ok] by simp
  then have "order \<noteq> []" by (auto simp: maxDedupKeysPerSession_def)
  with evict_prefix [OF ok, of 0 now] obtain k where "order' = drop k order" "1 \<le> k" "k \<le> maxDedupKeysPerSession div 2"
    "order_ok order' seen'"
    using step True by (auto simp: maxDedupKeysPerSession_def)
  then show ?thesis using l by (intro exI [of _ k]) (auto simp: maxDedupKeysPerSession_def)
next
  case False
  then show ?thesis using step order_ok_length [OF ok] ok by (intro exI [of _ 0]) simp
qed

text \<open>The keys of one session that were reported new, oldest first, and what the store has of them.\<close>

definition keys_of :: "string \<Rightarrow> (string \<times> string) list \<Rightarrow> string list" where
  "keys_of sid acc = map snd (filter (\<lambda>(s, k). s = sid) acc)"

definition dedup_inv :: "(string \<times> string) list \<Rightarrow> 'auth memory_storage \<Rightarrow> string \<Rightarrow> bool" where
  "dedup_inv acc m sid \<longleftrightarrow>
     (\<exists>n. inner (ms_dedupOrder m) sid = drop n (keys_of sid acc) \<and> n \<le> length (keys_of sid acc) \<and>
        length (drop n (keys_of sid acc)) \<le> maxDedupKeysPerSession \<and>
        (n = 0 \<or> maxDedupKeysPerSession div 2 \<le> length (drop n (keys_of sid acc)))) \<and>
     order_ok (inner (ms_dedupOrder m) sid) (inner (ms_updateDedup m) sid)"

text \<open>Keys of handled updates with the clock readings and the session.\<close>

fun dedup_run ::
  "(int \<times> int \<times> string \<times> string) list \<Rightarrow> (string \<times> string) list \<times> 'auth memory_storage \<Rightarrow> (string \<times> string) list \<times> 'auth memory_storage"
where
  "dedup_run [] st = st"
| "dedup_run ((now, now', sid, key) # calls) (acc, m) =
     (let (new, m') = SaveUpdateDedupKey now now' sid key m in dedup_run calls (if new then acc @ [(sid, key)] else acc, m'))"

lemma inner_update: "inner (AList.update k v m) k' = (if k' = k then v else inner m k')"
  by (simp add: inner_def update_conv')

text \<open>One call: the outcome, and the order list and map it leaves.\<close>

lemma SaveUpdateDedupKey_cases:
  assumes "order_ok (inner (ms_dedupOrder m) sid) (inner (ms_updateDedup m) sid)"
  obtains (seen) m' where "SaveUpdateDedupKey now now' sid key m = (False, m')" and "key \<in> set (inner (ms_dedupOrder m) sid)"
      "inner (ms_dedupOrder m') = inner (ms_dedupOrder m)" "inner (ms_updateDedup m') = inner (ms_updateDedup m)"
  | (new) order seen' m' where "SaveUpdateDedupKey now now' sid key m = (True, m')" and "key \<notin> set (inner (ms_dedupOrder m) sid)"
      "(order, seen') =
         (if length (inner (ms_updateDedup m) sid) \<ge> maxDedupKeysPerSession
          then evict now 0 (inner (ms_dedupOrder m) sid) (inner (ms_updateDedup m) sid)
          else (inner (ms_dedupOrder m) sid, inner (ms_updateDedup m) sid))"
      "inner (ms_dedupOrder m') = (inner (ms_dedupOrder m))(sid := order @ [key])"
      "inner (ms_updateDedup m') = (inner (ms_updateDedup m))(sid := AList.update key now' seen')"
proof -
  define m1 where "m1 = (if map_of (ms_updateDedup m) sid = None
               then m\<lparr>ms_updateDedup := AList.update sid [] (ms_updateDedup m), ms_dedupOrder := AList.update sid [] (ms_dedupOrder m)\<rparr>
               else m)"
  have e: "inner (ms_dedupOrder m) sid = []" if "map_of (ms_updateDedup m) sid = None"
    using that order_ok_length [OF assms] by (simp add: inner_def [of "ms_updateDedup m"])
  have m1: "inner (ms_dedupOrder m1) = inner (ms_dedupOrder m)" "inner (ms_updateDedup m1) = inner (ms_updateDedup m)"
    using e by (auto simp: m1_def inner_update fun_eq_iff) (simp add: inner_def)
  have k: "map_of (inner (ms_updateDedup m) sid) key \<noteq> None \<longleftrightarrow> key \<in> set (inner (ms_dedupOrder m) sid)"
    using assms by (auto simp: order_ok_def)
  obtain order seen' where os: "(order, seen') =
         (if length (inner (ms_updateDedup m) sid) \<ge> maxDedupKeysPerSession
          then evict now 0 (inner (ms_dedupOrder m) sid) (inner (ms_updateDedup m) sid)
          else (inner (ms_dedupOrder m) sid, inner (ms_updateDedup m) sid))" by (metis surj_pair)
  let ?m' = "m1\<lparr>ms_updateDedup := AList.update sid (AList.update key now' seen') (ms_updateDedup m1),
                       ms_dedupOrder := AList.update sid (order @ [key]) (ms_dedupOrder m1)\<rparr>"
  have s: "SaveUpdateDedupKey now now' sid key m = (if key \<in> set (inner (ms_dedupOrder m) sid) then (False, m1) else (True, ?m'))"
    unfolding SaveUpdateDedupKey_def Let_def m1_def [symmetric] m1 k os [symmetric] by simp
  show ?thesis
  proof (cases "key \<in> set (inner (ms_dedupOrder m) sid)")
    case True
    then show ?thesis using s seen m1 by simp
  next
    case False
    then show ?thesis using s os by (intro new [of ?m' order seen']) (simp_all add: inner_update fun_eq_iff m1)
  qed
qed

lemma dedup_inv_save:
  assumes inv: "\<And>sid. dedup_inv acc m sid"
    and save: "SaveUpdateDedupKey now now' sid key m = (new, m')"
  shows "dedup_inv (if new then acc @ [(sid, key)] else acc) m' sid'"
proof -
  have ok: "order_ok (inner (ms_dedupOrder m) sid) (inner (ms_updateDedup m) sid)" using inv [of sid] by (simp add: dedup_inv_def)
  show ?thesis
  proof (cases rule: SaveUpdateDedupKey_cases [OF ok, of now now' key])
    case (1 m'')
    with save inv [of sid'] show ?thesis by (simp add: dedup_inv_def)
  next
    case (2 order seen' m'')
    show ?thesis
    proof (cases "sid' = sid")
      case False
      with 2 save inv [of sid'] show ?thesis by (simp add: dedup_inv_def keys_of_def)
    next
      case True
      let ?keys = "keys_of sid acc"
      from inv [of sid] obtain n where n: "inner (ms_dedupOrder m) sid = drop n ?keys" "n \<le> length ?keys"
        "length (drop n ?keys) \<le> maxDedupKeysPerSession" "n = 0 \<or> maxDedupKeysPerSession div 2 \<le> length (drop n ?keys)"
        by (auto simp: dedup_inv_def)
      from room_for_key [OF ok _ 2(3)] n(3) obtain k where k0: "order = drop k (drop n ?keys)" "order_ok order seen'"
        "k \<le> length (drop n ?keys)" "length order < maxDedupKeysPerSession" "k = 0 \<or> maxDedupKeysPerSession div 2 \<le> length order"
        unfolding n(1) by blast
      then have k: "order = drop (n + k) ?keys" "n + k \<le> length ?keys" using n(2) by (simp_all add: add.commute)
      note k = k(1) k0(2) k(2) k0(4,5)
      have "key \<notin> set order" using 2(2) k(1) n(1) by (metis drop_drop add.commute in_set_dropD)
      then have "order_ok (order @ [key]) (AList.update key now' seen')"
        using k(2) by (auto simp: order_ok_def distinct_update update_conv')
      moreover have "order @ [key] = drop (n + k) (keys_of sid (acc @ [(sid, key)]))"
        using k(1,3) by (simp add: keys_of_def)
      ultimately show ?thesis
        using 2 save True k n(4)
        by (auto simp: dedup_inv_def keys_of_def intro!: exI [of _ "n + k"])
    qed
  qed
qed

lemma dedup_inv_run:
  assumes "\<And>sid. dedup_inv (fst st) (snd st) sid"
  shows "dedup_inv (fst (dedup_run calls st)) (snd (dedup_run calls st)) sid"
  using assms
proof (induction calls arbitrary: st)
  case (Cons c calls)
  obtain now now' sd key where c: "c = (now, now', sd, key)" by (metis prod_cases4)
  obtain acc m where st: "st = (acc, m)" by fastforce
  obtain new m' where s: "SaveUpdateDedupKey now now' sd key m = (new, m')" by fastforce
  have "dedup_inv (if new then acc @ [(sd, key)] else acc) m' sid" for sid
    using Cons.prems s by (intro dedup_inv_save [where m = m and sid = sd]) (simp_all add: st)
  with Cons.IH [of "(if new then acc @ [(sd, key)] else acc, m')"] show ?case by (simp add: c st s)
qed simp

text \<open>The memory of update keys is bounded and forgets only old keys. After any calls for any sessions
  and at any times, what the store holds for a session is the end of the list of keys it reported as
  new: all of it, or at least the last 5000 and never more than 10000. A key is reported as new exactly
  when it is not among them.\<close>

theorem dedup_memory_bounded:
  fixes m :: "'auth memory_storage"
  assumes "dedup_run calls ([], NewMemoryStorage) = (acc, m)"
  shows "\<exists>n. (let recent = drop n (keys_of sid acc) in
    distinct recent \<and> length recent \<le> 10000 \<and> (n = 0 \<or> 5000 \<le> length recent) \<and>
    length (inner (ms_updateDedup m) sid) = length recent \<and>
    (\<forall>key. UpdateDedupKeyExists sid key m \<longleftrightarrow> key \<in> set recent) \<and>
    (\<forall>now now' key. fst (SaveUpdateDedupKey now now' sid key m) \<longleftrightarrow> key \<notin> set recent))"
proof -
  have "dedup_inv acc m sid"
    using dedup_inv_run [of "([], NewMemoryStorage :: 'auth memory_storage)" calls sid] assms
    by (simp add: dedup_inv_def keys_of_def NewMemoryStorage_def inner_def order_ok_def)
  then obtain n where "inner (ms_dedupOrder m) sid = drop n (keys_of sid acc)"
    "length (drop n (keys_of sid acc)) \<le> maxDedupKeysPerSession"
    "n = 0 \<or> maxDedupKeysPerSession div 2 \<le> length (drop n (keys_of sid acc))"
    "order_ok (inner (ms_dedupOrder m) sid) (inner (ms_updateDedup m) sid)"
    unfolding dedup_inv_def by blast
  then have n: "inner (ms_dedupOrder m) sid = drop n (keys_of sid acc)"
    "length (drop n (keys_of sid acc)) \<le> 10000" "n = 0 \<or> 5000 \<le> length (drop n (keys_of sid acc))"
    "order_ok (drop n (keys_of sid acc)) (inner (ms_updateDedup m) sid)"
    by (simp_all add: maxDedupKeysPerSession_def)
  have "fst (SaveUpdateDedupKey now now' sid key m) \<longleftrightarrow> key \<notin> set (drop n (keys_of sid acc))" for now now' key
    by (rule SaveUpdateDedupKey_cases [of m sid now now' key]) (use n in simp_all)
  moreover have "UpdateDedupKeyExists sid key m \<longleftrightarrow> key \<in> set (drop n (keys_of sid acc))" for key
    using n(4) by (auto simp: UpdateDedupKeyExists_def order_ok_def)
  ultimately show ?thesis
    using n(2,3) order_ok_length [OF n(4)] n(4) unfolding Let_def order_ok_def by blast
qed

theorem dedup_memory_bounded_witness:
  "\<not> fst (SaveUpdateDedupKey 8 9 ''s'' ''k1'' (snd (dedup_run [(1, 2, ''s'', ''k1''), (3, 4, ''t'', ''k2''), (5, 6, ''s'', ''k3'')]
     ([], NewMemoryStorage :: unit memory_storage))))"
proof -
  let ?r = "dedup_run [(1, 2, ''s'', ''k1''), (3, 4, ''t'', ''k2''), (5, 6, ''s'', ''k3'')] ([], NewMemoryStorage :: unit memory_storage)"
  have "keys_of ''s'' (fst ?r) = [''k1'', ''k3'']"
    by (simp add: keys_of_def SaveUpdateDedupKey_def Let_def NewMemoryStorage_def inner_def maxDedupKeysPerSession_def)
  moreover from dedup_memory_bounded [of _ "fst ?r" "snd ?r", where sid = "''s''"] obtain n where
    "n = 0 \<or> 5000 \<le> length (drop n (keys_of ''s'' (fst ?r)))"
    "fst (SaveUpdateDedupKey 8 9 ''s'' ''k1'' (snd ?r)) \<longleftrightarrow> ''k1'' \<notin> set (drop n (keys_of ''s'' (fst ?r)))"
    unfolding Let_def by (metis prod.collapse)
  ultimately show ?thesis by auto
qed

section \<open>The exported session\<close>

text \<open>The session string gives back the bytes; for two sessions with keys of 256 bytes equal strings mean equal keys,
  identifiers and flags, and the same data center as far as one byte tells.\<close>

lemma le_bytes_inj: "le_bytes 4 (a :: u32) = le_bytes 4 b \<longleftrightarrow> a = b" "le_bytes 8 (x :: i64) = le_bytes 8 y \<longleftrightarrow> x = y"
  by (metis le_word_le_bytes_32, metis le_word_le_bytes_64)

lemma session_string_faithful:
  assumes "ExportSessionString m = Some s" and "ExportSessionString m' = Some s"
    and "length (ms_authKey m) = 256" and "length (ms_authKey m') = 256"
  shows "ms_authKey m = ms_authKey m' \<and> ms_apiID m = ms_apiID m' \<and> ms_userID m = ms_userID m' \<and>
    ms_testMode m = ms_testMode m' \<and> ms_isBot m = ms_isBot m' \<and>
    (word_of_int (ms_dcID m) :: u8) = word_of_int (ms_dcID m')"
proof -
  have "s = EncodeToString (session_bytes m)" "s = EncodeToString (session_bytes m')"
    using assms by (auto simp: ExportSessionString_def split: if_splits)
  then have "session_bytes m = session_bytes m'" by (metis DecodeString_EncodeToString option.inject)
  then show ?thesis
    using assms(3,4) by (simp add: session_bytes_def le_bytes_inj be_bytes_def append_eq_append_conv split: if_splits)
qed

end
