(* ===== verification/Peer_Ids.thy ===== *)
theory Peer_Ids
  imports Mtgo_Prelude
begin

text \<open>
  Marked chat identifiers, \<^verbatim>\<open>src/internal/peerid/peerid.go\<close>, on 64-bit integers.
\<close>

section \<open>Definitions\<close>

text \<open>\<^verbatim>\<open>tg.PeerClass\<close>; the last constructor is nil or a kind the switch does not know.\<close>

datatype peer_class = PeerUser i64 | PeerChat i64 | PeerChannel i64 | PeerOther

definition ChannelPrefix :: i64 where
  "ChannelPrefix = - 1000000000000"

definition MarkChannel :: "i64 \<Rightarrow> i64" where
  "MarkChannel channelID = ChannelPrefix - channelID"

definition MarkChat :: "i64 \<Rightarrow> i64" where
  "MarkChat chatID = - chatID"

definition IsMarkedChannel :: "i64 \<Rightarrow> bool" where
  "IsMarkedChannel i \<longleftrightarrow> sint i \<le> sint ChannelPrefix"

definition UnmarkChannel :: "i64 \<Rightarrow> i64 \<times> bool" where
  "UnmarkChannel i = (if IsMarkedChannel i then (ChannelPrefix - i, True) else (0, False))"

fun MarkFromPeer :: "peer_class \<Rightarrow> i64" where
  "MarkFromPeer (PeerUser u) = u"
| "MarkFromPeer (PeerChat c) = MarkChat c"
| "MarkFromPeer (PeerChannel c) = MarkChannel c"
| "MarkFromPeer PeerOther = 0"

fun RawFromPeer :: "peer_class \<Rightarrow> i64 \<times> bool" where
  "RawFromPeer (PeerUser u) = (u, True)"
| "RawFromPeer (PeerChat c) = (c, True)"
| "RawFromPeer (PeerChannel c) = (c, True)"
| "RawFromPeer PeerOther = (0, False)"

section \<open>Ranges\<close>

text \<open>The raw identifiers the convention is made for: users are positive, basic groups positive and below \<open>10^12\<close>,
  channels not negative and small enough not to leave the 64-bit range when they are marked.\<close>

fun raw_ok :: "peer_class \<Rightarrow> bool" where
  "raw_ok (PeerUser u) \<longleftrightarrow> 0 < sint u"
| "raw_ok (PeerChat c) \<longleftrightarrow> 0 < sint c \<and> sint c < 1000000000000"
| "raw_ok (PeerChannel c) \<longleftrightarrow> 0 \<le> sint c \<and> sint c \<le> 2 ^ 63 - 1000000000000"
| "raw_ok PeerOther \<longleftrightarrow> False"

lemma sint_ChannelPrefix: "sint ChannelPrefix = - 1000000000000"
  by (simp add: ChannelPrefix_def)

lemma sint_fits: "- (2 ^ 63) \<le> k \<Longrightarrow> k < 2 ^ 63 \<Longrightarrow> sint (word_of_int k :: i64) = k"
  by (simp add: sint_sbintrunc' signed_take_bit_int_eq_self)

lemma sint_MarkChannel:
  assumes "0 \<le> sint c" and "sint c \<le> 2 ^ 63 - 1000000000000"
  shows "sint (MarkChannel c) = - 1000000000000 - sint c"
proof -
  have "MarkChannel c = word_of_int (- 1000000000000 - sint c)"
    by (simp add: MarkChannel_def ChannelPrefix_def)
  then show ?thesis using assms by (simp only:) (rule sint_fits, simp_all)
qed

lemma sint_MarkChat:
  assumes "0 < sint c"
  shows "sint (MarkChat c) = - sint c"
proof -
  have "MarkChat c = word_of_int (- sint c)" by (simp add: MarkChat_def)
  moreover have "sint c < 2 ^ 63" using sint_less [of c] by simp
  ultimately show ?thesis using assms by (simp only:) (rule sint_fits, simp_all)
qed

text \<open>Property C39 (type): a marked identifier says what kind of peer it is and which. For raw identifiers in their ranges users
  are positive, groups lie between the channel prefix and zero, channels at or below the prefix; no
  two peers share a marked identifier; and a channel is recovered from its own.\<close>

theorem marked_id_determines_peer:
  assumes "raw_ok p" and "raw_ok q"
  shows "(MarkFromPeer p = MarkFromPeer q \<longleftrightarrow> p = q) \<and>
    (IsMarkedChannel (MarkFromPeer p) \<longleftrightarrow> (\<exists>c. p = PeerChannel c)) \<and>
    (sint (MarkFromPeer p) > 0 \<longleftrightarrow> (\<exists>u. p = PeerUser u)) \<and>
    UnmarkChannel (MarkFromPeer p) = (case p of PeerChannel c \<Rightarrow> (c, True) | _ \<Rightarrow> (0, False))"
proof -
  have kind: "(IsMarkedChannel (MarkFromPeer p) \<longleftrightarrow> (\<exists>c. p = PeerChannel c)) \<and> (sint (MarkFromPeer p) > 0 \<longleftrightarrow> (\<exists>u. p = PeerUser u))"
    if "raw_ok p" for p
    using that by (cases p) (simp_all add: IsMarkedChannel_def sint_ChannelPrefix sint_MarkChannel sint_MarkChat)
  have "p = q" if "MarkFromPeer p = MarkFromPeer q"
    using that kind [OF assms(1)] kind [OF assms(2)] assms
    by (cases p; cases q) (simp_all add: MarkChat_def MarkChannel_def)
  moreover have "UnmarkChannel (MarkFromPeer p) = (case p of PeerChannel c \<Rightarrow> (c, True) | _ \<Rightarrow> (0, False))"
    using kind [OF assms(1)] by (cases p) (simp_all add: UnmarkChannel_def MarkChannel_def)
  ultimately show ?thesis using kind [OF assms(1)] by blast
qed

theorem marked_id_determines_peer_witness:
  "IsMarkedChannel (MarkFromPeer (PeerChannel 1234567890)) \<and>
   UnmarkChannel (MarkFromPeer (PeerChannel 1234567890)) = (1234567890, True) \<and>
   MarkFromPeer (PeerChannel 1234567890) \<noteq> MarkFromPeer (PeerChat 1234567890)"
  using marked_id_determines_peer [of "PeerChannel 1234567890" "PeerChat 1234567890"] by simp

end
