(* ===== verification/MTProxy.thy ===== *)
theory MTProxy
  imports Transport_Framing
begin

text \<open>
  Connections through an MTProxy, \<^verbatim>\<open>src/mtproxy\<close>: secrets, the obfuscated header with its keys, and the imitated
  TLS handshake with its records. The block cipher \<open>E\<close>, SHA-256 and HMAC-SHA-256 are parameters; random
  reads are arguments. A connection is the bytes still to come from the peer; operations return the bytes they
  write.
\<close>

section \<open>Secrets\<close>

type_synonym u16 = "16 word"

datatype proxy_error =
    ErrInvalidHex | ErrSecretTag u8 | ErrInvalidSecretLen | ErrServerHelloFailed | ErrHelloTooShort nat
  | ErrRecordType u8 | ErrRecordTooLarge nat | ErrProxyEOF | ErrProxyCipher aes_error

datatype secret_type = SecretSimple | SecretSecured | SecretTLS

record secret =
  se_Type :: secret_type
  se_Secret :: bytes
  se_Tag :: u8
  se_Domain :: bytes

text \<open>\<^verbatim>\<open>hex.DecodeString\<close>.\<close>

definition hex_digit :: "char \<Rightarrow> nat option" where
  "hex_digit c =
     (let n = of_char c :: nat
      in if 48 \<le> n \<and> n \<le> 57 then Some (n - 48)
         else if 97 \<le> n \<and> n \<le> 102 then Some (n - 87)
         else if 65 \<le> n \<and> n \<le> 70 then Some (n - 55)
         else None)"

fun hex_DecodeString :: "string \<Rightarrow> bytes option" where
  "hex_DecodeString [] = Some []"
| "hex_DecodeString [c] = None"
| "hex_DecodeString (c # d # s) =
     (case (hex_digit c, hex_digit d) of
        (Some x, Some y) \<Rightarrow> map_option (\<lambda>bs. word_of_nat (16 * x + y) # bs) (hex_DecodeString s)
      | _ \<Rightarrow> None)"

definition ParseSecretBytes :: "bytes \<Rightarrow> proxy_error + secret" where
  "ParseSecretBytes raw =
     (if length raw = 16
      then Inr \<lparr>se_Type = SecretSimple, se_Secret = raw, se_Tag = 0, se_Domain = []\<rparr>
      else if length raw = 17
      then (let tag = raw ! 0
            in if tag \<noteq> 0xdd \<and> tag \<noteq> 0xee then Inl (ErrSecretTag tag)
               else Inr \<lparr>se_Type = SecretSecured, se_Secret = go_slice raw 1 17, se_Tag = tag, se_Domain = []\<rparr>)
      else if length raw > 17
      then Inr \<lparr>se_Type = SecretTLS, se_Secret = go_slice raw 1 17, se_Tag = raw ! 0, se_Domain = drop 17 raw\<rparr>
      else Inl ErrInvalidSecretLen)"

definition ParseSecret :: "string \<Rightarrow> proxy_error + secret" where
  "ParseSecret s = (case hex_DecodeString s of None \<Rightarrow> Inl ErrInvalidHex | Some raw \<Rightarrow> ParseSecretBytes raw)"

definition Secret_Codec :: "secret \<Rightarrow> u8" where
  "Secret_Codec s =
     (case se_Type s of
        SecretSimple \<Rightarrow> 0xee
      | SecretSecured \<Rightarrow> se_Tag s
      | SecretTLS \<Rightarrow> if se_Tag s \<noteq> 0 then se_Tag s else 0xee)"

definition NeedsFakeTLS :: "secret \<Rightarrow> bool" where
  "NeedsFakeTLS s \<longleftrightarrow> se_Type s = SecretTLS"

section \<open>The obfuscated header\<close>

record obfuscated_keys =
  ok_encKey :: bytes
  ok_encIV :: bytes
  ok_decKey :: bytes
  ok_decIV :: bytes

text \<open>The 16 bytes of the secret follow the 32 bytes of the header in the hashed buffer.\<close>

definition deriveObfuscatedKeys :: "(bytes \<Rightarrow> bytes) \<Rightarrow> bytes \<Rightarrow> bytes \<Rightarrow> obfuscated_keys" where
  "deriveObfuscatedKeys sha header sec =
     (let reversed = nonce_reversed header
      in \<lparr>ok_encKey = sha (go_slice header 8 40 @ copy16 sec), ok_encIV = go_slice header 40 56,
          ok_decKey = sha (take 32 reversed @ copy16 sec), ok_decIV = go_slice reversed 32 48\<rparr>)"

definition header_refused :: "bytes \<Rightarrow> bool" where
  "header_refused header \<longleftrightarrow>
     header ! 0 = 0xEF \<or>
     (le_word (rev (take 4 header)) :: u32) \<in>
       {0x44415441, 0x504F5354, 0x47455420, 0x4F505449, 0xDDDDDDDD, 0xEEEEEEEE} \<or>
     (le_word (go_slice header 4 8) :: u32) = 0"

partial_function (option) draw_header :: "(nat \<Rightarrow> bytes) \<Rightarrow> nat \<Rightarrow> bytes option" where
  [code]: "draw_header draws i = (if header_refused (draws i) then draw_header draws (Suc i) else Some (draws i))"

record obfuscated_conn =
  oc_encKey :: bytes
  oc_enc :: ctr_cipher
  oc_decKey :: bytes
  oc_dec :: ctr_cipher

text \<open>The header as it is written, and the two ciphers after it.\<close>

definition obfuscated_header ::
  "(bytes \<Rightarrow> bytes \<Rightarrow> bytes) \<Rightarrow> (bytes \<Rightarrow> bytes) \<Rightarrow> bytes \<Rightarrow> bytes \<Rightarrow> int \<Rightarrow> u8 \<Rightarrow> proxy_error + bytes \<times> obfuscated_conn" where
  "obfuscated_header E sha header sec dcID codec =
     (let keys = deriveObfuscatedKeys sha header sec
      in case NewCTRCipher E (ok_encKey keys) (ok_encIV keys) of
           Inl e \<Rightarrow> Inl (ErrProxyCipher e)
         | Inr enc \<Rightarrow>
             (case NewCTRCipher E (ok_decKey keys) (ok_decIV keys) of
                Inl e \<Rightarrow> Inl (ErrProxyCipher e)
              | Inr dec \<Rightarrow>
                  let tail = [codec, codec, codec, codec] @ le_bytes 2 (word_of_int dcID :: u16) @ go_slice header 62 64;
                      (encrypted, enc') = CTR_Process (E (ok_encKey keys)) tail enc
                  in Inr (take 56 header @ encrypted,
                          \<lparr>oc_encKey = ok_encKey keys, oc_enc = enc', oc_decKey = ok_decKey keys, oc_dec = dec\<rparr>)))"

definition obfuscated2Handshake ::
  "(bytes \<Rightarrow> bytes \<Rightarrow> bytes) \<Rightarrow> (bytes \<Rightarrow> bytes) \<Rightarrow> (nat \<Rightarrow> bytes) \<Rightarrow> bytes \<Rightarrow> int \<Rightarrow> u8 \<Rightarrow> (proxy_error + bytes \<times> obfuscated_conn) option"
where
  "obfuscated2Handshake E sha draws sec dcID codec =
     map_option (\<lambda>header. obfuscated_header E sha header sec dcID codec) (draw_header draws 0)"

section \<open>The imitated ClientHello\<close>

definition writeUint16 :: "u16 \<Rightarrow> bytes" where
  "writeUint16 v = rev (le_bytes 2 v)"

definition uint16_at :: "bytes \<Rightarrow> nat \<Rightarrow> nat" where
  "uint16_at b i = unat (le_word (rev (go_slice b i (i + 2))) :: u16)"

definition writeExtension :: "u16 \<Rightarrow> bytes \<Rightarrow> bytes" where
  "writeExtension extType v = writeUint16 extType @ writeUint16 (word_of_nat (length v)) @ v"

definition chromeCipherSuites :: "u16 list" where
  "chromeCipherSuites =
     [0x1301, 0x1302, 0x1303, 0xC02B, 0xC02F, 0xC02C, 0xC030, 0xCCA9, 0xCCA8, 0xC013, 0xC014, 0x009C, 0x009D, 0x002F, 0x0035]"

definition chromeSigAlgs :: "u16 list" where
  "chromeSigAlgs =
     [0x0403, 0x0804, 0x0404, 0x0805, 0x0503, 0x0806, 0x0807, 0x0809, 0x080A, 0x080B, 0x0601, 0x0501, 0x0E07, 0x0603, 0x0401, 0x0501, 0x0201]"

definition chromeCertSigAlgs :: "u16 list" where
  "chromeCertSigAlgs = [0x0403, 0x0804, 0x0404, 0x0805, 0x0503, 0x0806, 0x0601, 0x0501, 0x0603]"

definition chromeSupportedGroups :: "u16 list" where
  "chromeSupportedGroups = [0x001D, 0x0017, 0x0018]"

definition greaseValues :: "u16 list" where
  "greaseValues =
     [0x0A0A, 0x1A1A, 0x2A2A, 0x3A3A, 0x4A4A, 0x5A5A, 0x6A6A, 0x7A7A, 0x8A8A, 0x9A9A, 0xAAAA, 0xBABA, 0xCACA, 0xDADA, 0xEAEA]"

definition randomGrease :: "u8 \<Rightarrow> u16" where
  "randomGrease b = greaseValues ! (unat b mod length greaseValues)"

text \<open>What buildClientHello draws: a byte for each grease value, the session id and the key share; and the time.\<close>

record hello_random =
  hr_cipher :: u8
  hr_ext :: u8
  hr_group :: u8
  hr_version :: u8
  hr_keyShare :: u8
  hr_sessionID :: bytes
  hr_share :: bytes
  hr_time :: u32

definition prefixed16 :: "bytes \<Rightarrow> bytes" where
  "prefixed16 v = writeUint16 (word_of_nat (length v)) @ v"

definition sni_extension :: "bytes \<Rightarrow> bytes" where
  "sni_extension domain = writeExtension 0x0000 (prefixed16 (writeUint16 0x0001 @ prefixed16 domain))"

definition client_extensions :: "hello_random \<Rightarrow> bytes \<Rightarrow> bytes" where
  "client_extensions r domain =
     writeUint16 (randomGrease (hr_ext r)) @ writeUint16 0 @
     sni_extension domain @
     writeExtension 0x0017 [] @
     writeExtension 0xFF01 [0x00] @
     writeExtension 0x000A (prefixed16 (writeUint16 (randomGrease (hr_group r)) @ concat (map writeUint16 chromeSupportedGroups))) @
     writeExtension 0x000B [0x01, 0x00] @
     writeExtension 0x0023 [] @
     writeExtension 0x0010 [0x00, 0x06, 0x02, 0x68, 0x32, 0x08, 0x68, 0x74, 0x74, 0x70, 0x2F, 0x31, 0x2E, 0x31] @
     writeExtension 0x0005 [0x01, 0x00, 0x00, 0x00, 0x00] @
     writeExtension 0x0032 (prefixed16 (concat (map writeUint16 chromeCertSigAlgs))) @
     writeExtension 0x000D (prefixed16 (concat (map writeUint16 chromeSigAlgs))) @
     writeExtension 0x0033 (prefixed16
       (writeUint16 (randomGrease (hr_keyShare r)) @ writeUint16 1 @ [0x00] @ writeUint16 0x001D @ writeUint16 32 @ hr_share r)) @
     writeExtension 0x002D [0x01, 0x01] @
     writeExtension 0x002B (prefixed16 (writeUint16 (randomGrease (hr_version r)) @ writeUint16 0x0304 @ writeUint16 0x0303)) @
     writeExtension 0x001B [0x00, 0x02, 0x00, 0x02] @
     writeUint16 (randomGrease (hr_ext r)) @ writeUint16 0"

text \<open>The body with the given 32 bytes as its random field.\<close>

definition client_hello_body :: "hello_random \<Rightarrow> bytes \<Rightarrow> bytes \<Rightarrow> bytes" where
  "client_hello_body r domain random =
     [0x03, 0x03] @ random @ [0x20] @ hr_sessionID r @
     prefixed16 (writeUint16 (randomGrease (hr_cipher r)) @ concat (map writeUint16 chromeCipherSuites)) @
     [0x01, 0x00] @ prefixed16 (client_extensions r domain)"

definition client_hello_record :: "bytes \<Rightarrow> bytes" where
  "client_hello_record body =
     (let n = length body
      in [0x16, 0x03, 0x01] @ writeUint16 (word_of_nat (4 + n)) @
         [0x01, word_of_nat (n div 2 ^ 16), word_of_nat (n div 2 ^ 8), word_of_nat n] @ body)"

text \<open>\<open>copy(out[i:], v)\<close>.\<close>

definition overwrite :: "bytes \<Rightarrow> nat \<Rightarrow> bytes \<Rightarrow> bytes" where
  "overwrite b i v = take i b @ take (length b - i) v @ drop (i + length v) b"

definition stamp_digest :: "bytes \<Rightarrow> u32 \<Rightarrow> bytes" where
  "stamp_digest digest ts = take 28 digest @ map2 xor (drop 28 digest) (le_bytes 4 ts)"

definition buildClientHello ::
  "(bytes \<Rightarrow> bytes \<Rightarrow> bytes) \<Rightarrow> hello_random \<Rightarrow> bytes \<Rightarrow> bytes \<Rightarrow> bytes \<times> bytes" where
  "buildClientHello hmac r sec domain =
     (let out = client_hello_record (client_hello_body r domain (replicate 32 0));
          digest = stamp_digest (hmac sec out) (hr_time r)
      in (overwrite out 11 digest, digest))"

section \<open>The handshake and the records\<close>

definition verifyServerHello :: "(bytes \<Rightarrow> bytes \<Rightarrow> bytes) \<Rightarrow> bytes \<Rightarrow> bytes \<Rightarrow> bytes \<Rightarrow> proxy_error + unit" where
  "verifyServerHello hmac sec clientRandom response =
     (if length response < 74 then Inl (ErrHelloTooShort (length response))
      else if go_slice response 11 43 \<noteq> hmac sec (clientRandom @ overwrite response 11 (replicate 32 0))
      then Inl ErrServerHelloFailed
      else Inr ())"

text \<open>readFull of this package passes the error of the connection on.\<close>

definition mt_readFull :: "nat \<Rightarrow> bytes \<Rightarrow> proxy_error + bytes \<times> bytes" where
  "mt_readFull n s = (if length s < n then Inl ErrProxyEOF else Inr (take n s, drop n s))"

record tls_conn =
  tc_encKey :: bytes
  tc_enc :: ctr_cipher
  tc_decKey :: bytes
  tc_dec :: ctr_cipher
  tc_firstWrite :: bool

definition change_cipher_spec :: bytes where
  "change_cipher_spec = [0x14, 0x03, 0x03, 0x00, 0x01, 0x01]"

text \<open>The keys and vectors of the record ciphers are drawn at random: \<open>ks\<close> holds encKey, encIV, decKey, decIV.
  The result is what was written, the connection and the bytes not yet read.\<close>

definition fakeTLSHandshake ::
  "(bytes \<Rightarrow> bytes \<Rightarrow> bytes) \<Rightarrow> (bytes \<Rightarrow> bytes \<Rightarrow> bytes) \<Rightarrow> hello_random \<Rightarrow> bytes \<times> bytes \<times> bytes \<times> bytes \<Rightarrow> bytes \<Rightarrow> bytes \<Rightarrow> bytes
   \<Rightarrow> proxy_error + bytes \<times> tls_conn \<times> bytes" where
  "fakeTLSHandshake E hmac r ks sec domain s =
     (let (hello, clientRandom) = buildClientHello hmac r sec domain; (encKey, encIV, decKey, decIV) = ks
      in case mt_readFull 5 s of Inl e \<Rightarrow> Inl e
         | Inr (header, s1) \<Rightarrow>
             if header ! 0 \<noteq> 0x16 then Inl (ErrRecordType (header ! 0))
             else
               (case mt_readFull (uint16_at header 3) s1 of Inl e \<Rightarrow> Inl e
                | Inr (serverHello, s2) \<Rightarrow>
                    (case verifyServerHello hmac sec clientRandom (header @ serverHello) of Inl e \<Rightarrow> Inl e
                     | Inr _ \<Rightarrow>
                         (case NewCTRCipher E encKey encIV of Inl e \<Rightarrow> Inl (ErrProxyCipher e)
                          | Inr enc \<Rightarrow>
                              (case NewCTRCipher E decKey decIV of Inl e \<Rightarrow> Inl (ErrProxyCipher e)
                               | Inr dec \<Rightarrow>
                                   Inr (hello @ change_cipher_spec,
                                        \<lparr>tc_encKey = encKey, tc_enc = enc, tc_decKey = decKey, tc_dec = dec, tc_firstWrite = True\<rparr>, s2))))))"

text \<open>The header of the next record that is not ChangeCipherSpec.\<close>

function next_header :: "bytes \<Rightarrow> proxy_error + bytes \<times> bytes" where
  "next_header s =
     (case mt_readFull 5 s of Inl e \<Rightarrow> Inl e
      | Inr (header, s1) \<Rightarrow>
          if header ! 0 = 0x14
          then (case mt_readFull (uint16_at header 3) s1 of Inl e \<Rightarrow> Inl e | Inr (_, s2) \<Rightarrow> next_header s2)
          else Inr (header, s1))"
  by pat_completeness auto
termination
  by (relation "measure length") (auto simp: mt_readFull_def split: if_splits)

declare next_header.simps [simp del]

definition maxTLSRecordPayload :: nat where "maxTLSRecordPayload = 16384"

text \<open>Read into a buffer of \<open>n\<close> bytes. What does not fit is not kept.\<close>

definition tls_Read ::
  "(bytes \<Rightarrow> bytes \<Rightarrow> bytes) \<Rightarrow> nat \<Rightarrow> tls_conn \<Rightarrow> bytes \<Rightarrow> proxy_error + bytes \<times> tls_conn \<times> bytes" where
  "tls_Read E n t s =
     (case next_header s of Inl e \<Rightarrow> Inl e
      | Inr (header, s1) \<Rightarrow>
          if header ! 0 \<noteq> 0x17 then Inl (ErrRecordType (header ! 0))
          else if uint16_at header 3 > maxTLSRecordPayload then Inl (ErrRecordTooLarge (uint16_at header 3))
          else
            (case mt_readFull (uint16_at header 3) s1 of Inl e \<Rightarrow> Inl e
             | Inr (body, s2) \<Rightarrow>
                 let (decrypted, dec') = CTR_Process (E (tc_decKey t)) body (tc_dec t)
                 in Inr (take n decrypted, t\<lparr>tc_dec := dec'\<rparr>, s2)))"

definition tls_Write :: "(bytes \<Rightarrow> bytes \<Rightarrow> bytes) \<Rightarrow> bytes \<Rightarrow> tls_conn \<Rightarrow> bytes \<times> tls_conn" where
  "tls_Write E p t =
     (let prefix = (if tc_firstWrite t then change_cipher_spec else []);
          (encrypted, enc') = CTR_Process (E (tc_encKey t)) p (tc_enc t)
      in (prefix @ [0x17, 0x03, 0x03] @ writeUint16 (word_of_nat (length encrypted)) @ encrypted,
          t\<lparr>tc_enc := enc', tc_firstWrite := False\<rparr>))"

text \<open>\<^verbatim>\<open>io.ReadFull\<close> over the records: reads until \<open>n\<close> bytes are there. Every read takes at least a header from
  the stream.\<close>

lemma next_header_shorter: "next_header s = Inr (header, s1) \<Longrightarrow> length s1 < length s"
proof (induction s rule: next_header.induct)
  case (1 s)
  show ?case
  proof (cases "mt_readFull 5 s")
    case (Inr q)
    obtain h s' where q: "q = (h, s')" by fastforce
    then have less: "length s' < length s" using Inr by (auto simp: mt_readFull_def split: if_splits)
    have len: "length s2 \<le> length s'" if "mt_readFull k s' = Inr (b, s2)" for k b s2
      using that by (auto simp: mt_readFull_def split: if_splits)
    show ?thesis
    proof (cases "h ! 0 = 0x14")
      case True
      then obtain b s2 where s2: "mt_readFull (uint16_at h 3) s' = Inr (b, s2)" "next_header s2 = Inr (header, s1)"
        using 1(2) Inr q by (subst (asm) next_header.simps) (auto split: sum.splits)
      with 1(1) [OF Inr q [symmetric] True s2(1) refl s2(2)] len [OF s2(1)] less show ?thesis by simp
    next
      case False
      with 1(2) Inr q less show ?thesis by (subst (asm) next_header.simps) simp
    qed
  qed (use 1(2) in \<open>simp add: next_header.simps [of s]\<close>)
qed

lemma tls_Read_shorter: "tls_Read E n t s = Inr (p, t', s') \<Longrightarrow> length s' < length s"
  by (auto simp: tls_Read_def mt_readFull_def case_prod_beta split: sum.splits if_splits dest!: next_header_shorter)

function tls_ReadFull ::
  "(bytes \<Rightarrow> bytes \<Rightarrow> bytes) \<Rightarrow> nat \<Rightarrow> tls_conn \<Rightarrow> bytes \<Rightarrow> proxy_error + bytes \<times> tls_conn \<times> bytes" where
  "tls_ReadFull E n t s =
     (if n = 0 then Inr ([], t, s)
      else case tls_Read E n t s of Inl e \<Rightarrow> Inl e
           | Inr (p, t1, s1) \<Rightarrow>
               (case tls_ReadFull E (n - length p) t1 s1 of Inl e \<Rightarrow> Inl e
                | Inr (q, t2, s2) \<Rightarrow> Inr (p @ q, t2, s2)))"
  by pat_completeness auto
termination
  by (relation "measure (\<lambda>(E, n, t, s). length s)") (auto dest: tls_Read_shorter)

declare tls_ReadFull.simps [simp del]

section \<open>The whole connection\<close>

datatype proxy_stream = RawConn | TLSConn tls_conn

record proxy_conn =
  pc_stream :: proxy_stream
  pc_obfs :: obfuscated_conn

fun stream_Write :: "(bytes \<Rightarrow> bytes \<Rightarrow> bytes) \<Rightarrow> bytes \<Rightarrow> proxy_stream \<Rightarrow> bytes \<times> proxy_stream" where
  "stream_Write E p RawConn = (p, RawConn)"
| "stream_Write E p (TLSConn t) = (let (w, t') = tls_Write E p t in (w, TLSConn t'))"

fun stream_ReadFull :: "(bytes \<Rightarrow> bytes \<Rightarrow> bytes) \<Rightarrow> nat \<Rightarrow> proxy_stream \<Rightarrow> bytes \<Rightarrow> proxy_error + bytes \<times> proxy_stream \<times> bytes" where
  "stream_ReadFull E n RawConn s = (case mt_readFull n s of Inl e \<Rightarrow> Inl e | Inr (p, s1) \<Rightarrow> Inr (p, RawConn, s1))"
| "stream_ReadFull E n (TLSConn t) s = (case tls_ReadFull E n t s of Inl e \<Rightarrow> Inl e | Inr (p, t1, s1) \<Rightarrow> Inr (p, TLSConn t1, s1))"

definition Proxy_Read ::
  "(bytes \<Rightarrow> bytes \<Rightarrow> bytes) \<Rightarrow> nat \<Rightarrow> proxy_conn \<Rightarrow> bytes \<Rightarrow> proxy_error + bytes \<times> proxy_conn \<times> bytes" where
  "Proxy_Read E n c s =
     (case stream_ReadFull E n (pc_stream c) s of Inl e \<Rightarrow> Inl e
      | Inr (b, st, s1) \<Rightarrow>
          let (p, dec') = CTR_Process (E (oc_decKey (pc_obfs c))) b (oc_dec (pc_obfs c))
          in Inr (p, c\<lparr>pc_stream := st, pc_obfs := (pc_obfs c)\<lparr>oc_dec := dec'\<rparr>\<rparr>, s1))"

definition Proxy_Write :: "(bytes \<Rightarrow> bytes \<Rightarrow> bytes) \<Rightarrow> bytes \<Rightarrow> proxy_conn \<Rightarrow> bytes \<times> proxy_conn" where
  "Proxy_Write E p c =
     (let (b, enc') = CTR_Process (E (oc_encKey (pc_obfs c))) p (oc_enc (pc_obfs c));
          (w, st) = stream_Write E b (pc_stream c)
      in (w, c\<lparr>pc_stream := st, pc_obfs := (pc_obfs c)\<lparr>oc_enc := enc'\<rparr>\<rparr>))"

definition default_domain :: bytes where
  "default_domain = map (\<lambda>c. of_char c) ''www.google.com''"

text \<open>Handshake, on the bytes the peer sends. None: no acceptable header is ever drawn.\<close>

definition Handshake ::
  "(bytes \<Rightarrow> bytes \<Rightarrow> bytes) \<Rightarrow> (bytes \<Rightarrow> bytes) \<Rightarrow> (bytes \<Rightarrow> bytes \<Rightarrow> bytes) \<Rightarrow> hello_random \<Rightarrow> bytes \<times> bytes \<times> bytes \<times> bytes
   \<Rightarrow> (nat \<Rightarrow> bytes) \<Rightarrow> secret \<Rightarrow> int \<Rightarrow> bytes \<Rightarrow> (proxy_error + bytes \<times> proxy_conn \<times> bytes) option" where
  "Handshake E sha hmac r ks draws sec dcID s =
     (case (if NeedsFakeTLS sec
            then case fakeTLSHandshake E hmac r ks (se_Secret sec) (if se_Domain sec = [] then default_domain else se_Domain sec) s of
                   Inl e \<Rightarrow> Inl e | Inr (w, t, s1) \<Rightarrow> Inr (w, TLSConn t, s1)
            else Inr ([], RawConn, s)) of
        Inl e \<Rightarrow> Some (Inl e)
      | Inr (w, st, s1) \<Rightarrow>
          (case obfuscated2Handshake E sha draws (se_Secret sec) dcID (Secret_Codec sec) of
             None \<Rightarrow> None
           | Some (Inl e) \<Rightarrow> Some (Inl e)
           | Some (Inr (header, obfs)) \<Rightarrow>
               let (w', st') = stream_Write E header st
               in Some (Inr (w @ w', \<lparr>pc_stream = st', pc_obfs = obfs\<rparr>, s1))))"

section \<open>Secrets\<close>

text \<open>Which secrets are accepted, and that the 16 secret bytes are kept.\<close>

lemma ParseSecretBytes_accepts:
  "(\<exists>s. ParseSecretBytes raw = Inr s) \<longleftrightarrow>
     length raw = 16 \<or> length raw = 17 \<and> raw ! 0 \<in> {0xdd, 0xee} \<or> length raw > 17"
  by (auto simp: ParseSecretBytes_def Let_def)

lemma ParseSecretBytes_secret: "ParseSecretBytes raw = Inr s \<Longrightarrow> length (se_Secret s) = 16"
  by (auto simp: ParseSecretBytes_def Let_def split: if_splits)

section \<open>The digest of the ClientHello\<close>

lemma length_writeUint16 [simp]: "length (writeUint16 v) = 2"
  by (simp add: writeUint16_def)

lemma length_prefixed16 [simp]: "length (prefixed16 v) = 2 + length v"
  by (simp add: prefixed16_def)

lemma length_writeExtension [simp]: "length (writeExtension t v) = 4 + length v"
  by (simp add: writeExtension_def)

lemma length_uint16s [simp]: "length (concat (map writeUint16 vs)) = 2 * length vs"
  by (induction vs) simp_all

lemma uint16_at_writeUint16: "length pre = i \<Longrightarrow> uint16_at (pre @ writeUint16 v @ post) i = unat v"
proof -
  assume "length pre = i"
  then have "go_slice (pre @ writeUint16 v @ post) i (i + 2) = writeUint16 v" by (simp add: go_slice_append_right)
  moreover have "le_word (le_bytes 2 v) = v" by (rule le_word_le_bytes_full) simp
  ultimately show ?thesis by (simp add: uint16_at_def writeUint16_def)
qed

lemma overwrite_middle: "length pre = i \<Longrightarrow> length v = length w \<Longrightarrow> overwrite (pre @ v @ post) i w = pre @ w @ post"
  by (simp add: overwrite_def)

lemma client_hello_shape:
  "\<exists>pre post. length pre = 11 \<and>
     (\<forall>random. length random = 32 \<longrightarrow> client_hello_record (client_hello_body r domain random) = pre @ random @ post)"
proof -
  define post where "post = [0x20] @ hr_sessionID r @
     prefixed16 (writeUint16 (randomGrease (hr_cipher r)) @ concat (map writeUint16 chromeCipherSuites)) @
     [0x01, 0x00] @ prefixed16 (client_extensions r domain)"
  define n where "n = 34 + length post"
  let ?pre = "[0x16, 0x03, 0x01] @ writeUint16 (word_of_nat (4 + n)) @
         [0x01, word_of_nat (n div 2 ^ 16), word_of_nat (n div 2 ^ 8), word_of_nat n] @ [0x03, 0x03]"
  have "client_hello_record (client_hello_body r domain random) = ?pre @ random @ post" if "length random = 32" for random
  proof -
    have "client_hello_body r domain random = [0x03, 0x03] @ random @ post" by (simp add: client_hello_body_def post_def)
    moreover have "length \<dots> = n" using that by (simp add: n_def)
    ultimately show ?thesis by (simp add: client_hello_record_def Let_def)
  qed
  then show ?thesis by (intro exI [of _ ?pre] exI [of _ post]) simp
qed

lemma length_client_hello:
  assumes "length (hr_sessionID r) = 32" and "length (hr_share r) = 32" and "length random = 32"
  shows "length (client_hello_record (client_hello_body r domain random)) \<le> 500 + length domain"
  using assms
  by (simp add: client_hello_record_def client_hello_body_def client_extensions_def sni_extension_def Let_def
      chromeCipherSuites_def chromeSupportedGroups_def chromeSigAlgs_def chromeCertSigAlgs_def)

lemma xor_stamp_digest:
  assumes "length d = 32"
  shows "map2 xor d (stamp_digest d ts) = replicate 28 0 @ le_bytes 4 ts"
proof -
  have self: "map2 xor xs xs = replicate (length xs) 0" for xs :: bytes by (induction xs) simp_all
  have cancel: "length xs = length ys \<Longrightarrow> map2 xor xs (map2 xor xs ys) = ys" for xs ys :: bytes
    by (induction xs ys rule: list_induct2) (simp_all add: xor.assoc [symmetric])
  have "map2 xor d (stamp_digest d ts) =
      map2 xor (take 28 d @ drop 28 d) (take 28 d @ map2 xor (drop 28 d) (le_bytes 4 ts))"
    by (simp add: stamp_digest_def)
  also have "\<dots> = map2 xor (take 28 d) (take 28 d) @ map2 xor (drop 28 d) (map2 xor (drop 28 d) (le_bytes 4 ts))"
    by (simp only: zip_append) (simp add: zip_append)
  finally show ?thesis using assms by (simp add: self cancel)
qed

text \<open>The proxy can authenticate the ClientHello. For every domain and all random choices the field at
  offset 11 is the client random that is also used to check the answer; combined with the digest of the message
  with that field zeroed it gives 28 zero bytes and the time of sending; and the length in the record header is that of
  the message, for domains of up to 65000 bytes.\<close>

theorem client_hello_authenticates:
  assumes "\<And>m. length (hmac sec m) = 32" and "length (hr_sessionID r) = 32" and "length (hr_share r) = 32"
    and "buildClientHello hmac r sec domain = (hello, clientRandom)"
  shows "go_slice hello 11 43 = clientRandom \<and>
    map2 xor (hmac sec (overwrite hello 11 (replicate 32 0))) clientRandom = replicate 28 0 @ le_bytes 4 (hr_time r) \<and>
    (length domain \<le> 65000 \<longrightarrow> uint16_at hello 3 = length hello - 5)"
proof -
  let ?out = "client_hello_record (client_hello_body r domain (replicate 32 0))"
  have c: "clientRandom = stamp_digest (hmac sec ?out) (hr_time r)" "hello = overwrite ?out 11 clientRandom"
    using assms(4) by (auto simp: buildClientHello_def Let_def)
  have l: "length clientRandom = 32" using assms(1) by (simp add: c(1) stamp_digest_def)
  obtain pre post where p: "length pre = 11"
    "\<And>random. length random = 32 \<Longrightarrow> client_hello_record (client_hello_body r domain random) = pre @ random @ post"
    using client_hello_shape [of r domain] by blast
  have h: "hello = pre @ clientRandom @ post" using p l by (simp add: c(2) overwrite_middle)
  have z: "overwrite hello 11 (replicate 32 0) = ?out" using p l by (simp add: h overwrite_middle)
  have "uint16_at hello 3 = length hello - 5" if "length domain \<le> 65000"
  proof -
    let ?b = "client_hello_body r domain clientRandom"
    have hb: "hello = client_hello_record ?b" using h p(2) [OF l] by simp
    have n: "length hello \<le> 500 + length domain" unfolding hb by (rule length_client_hello [OF assms(2,3) l])
    have m: "4 + length ?b = length hello - 5" by (simp add: hb client_hello_record_def Let_def)
    have fits: "unat (word_of_nat k :: u16) = k" if "k < 65536" for k using that by (simp add: unat_of_nat take_bit_eq_mod)
    have "unat (word_of_nat (4 + length ?b) :: u16) = length hello - 5" unfolding m by (rule fits) (use n that in simp)
    then show ?thesis
      unfolding hb client_hello_record_def Let_def by (subst uint16_at_writeUint16) simp_all
  qed
  moreover have "go_slice hello 11 43 = clientRandom" unfolding h by (rule go_slice_append_right) (simp_all add: p(1) l)
  ultimately show ?thesis using xor_stamp_digest [OF assms(1)] by (simp add: z c(1))
qed

definition sample_random :: hello_random where
  "sample_random =
     \<lparr>hr_cipher = 0, hr_ext = 1, hr_group = 2, hr_version = 3, hr_keyShare = 4, hr_sessionID = replicate 32 5, hr_share = replicate 32 6,
      hr_time = 0x12345678\<rparr>"

theorem client_hello_authenticates_witness:
  "map2 xor (replicate 32 9) (snd (buildClientHello (\<lambda>_ _. replicate 32 9) sample_random (replicate 16 1) default_domain)) =
     replicate 28 0 @ [0x78, 0x56, 0x34, 0x12] \<and>
   uint16_at (fst (buildClientHello (\<lambda>_ _. replicate 32 9) sample_random (replicate 16 1) default_domain)) 3 =
     length (fst (buildClientHello (\<lambda>_ _. replicate 32 9) sample_random (replicate 16 1) default_domain)) - 5"
proof -
  have "le_bytes 4 (0x12345678 :: u32) = [0x78, 0x56, 0x34, 0x12]" by code_simp
  moreover have "length default_domain \<le> 65000" by (simp add: default_domain_def)
  ultimately show ?thesis
    using client_hello_authenticates [of "\<lambda>_ _. replicate 32 9" "replicate 16 1" sample_random default_domain
        "fst (buildClientHello (\<lambda>_ _. replicate 32 9) sample_random (replicate 16 1) default_domain)"
        "snd (buildClientHello (\<lambda>_ _. replicate 32 9) sample_random (replicate 16 1) default_domain)"]
    by (simp add: sample_random_def)
qed

text \<open>The answer is accepted exactly when it is long enough and carries the digest of both messages.\<close>

lemma verifyServerHello_iff:
  "verifyServerHello hmac sec clientRandom response = Inr () \<longleftrightarrow>
     74 \<le> length response \<and> go_slice response 11 43 = hmac sec (clientRandom @ overwrite response 11 (replicate 32 0))"
  by (simp add: verifyServerHello_def)

section \<open>The handshake returns\<close>

text \<open>The drawing loop ends with the first acceptable header.\<close>

lemma draw_header_first:
  "(\<And>j. j < n \<Longrightarrow> header_refused (draws (i + j))) \<Longrightarrow> \<not> header_refused (draws (i + n)) \<Longrightarrow> draw_header draws i = Some (draws (i + n))"
proof (induction n arbitrary: i)
  case 0
  then show ?case by (subst draw_header.simps) simp
next
  case (Suc n)
  have "draw_header draws (Suc i) = Some (draws (Suc i + n))"
    using Suc.prems(1) [of "Suc _"] Suc.prems(2) by (intro Suc.IH) auto
  moreover have "header_refused (draws i)" using Suc.prems(1) [of 0] by simp
  ultimately show ?case by (subst draw_header.simps) simp
qed

lemma handshake_returns:
  assumes "\<And>j. j < n \<Longrightarrow> header_refused (draws j)" and "\<not> header_refused (draws n)"
  shows "\<exists>res. Handshake E sha hmac r ks draws sec dcID s = Some res"
  using draw_header_first [where i = 0, OF _ , of n draws] assms
  by (auto simp: Handshake_def obfuscated2Handshake_def case_prod_beta Let_def split: sum.split)

section \<open>Keystreams\<close>

text \<open>A CTR cipher adds a keystream that does not depend on the data.\<close>

definition keystream :: "(bytes \<Rightarrow> bytes) \<Rightarrow> ctr_cipher \<Rightarrow> nat \<Rightarrow> bytes" where
  "keystream enc c n = fst (CTR_Process enc (replicate n 0) c)"

lemma length_keystream [simp]: "length (keystream enc c n) = n"
  by (simp add: keystream_def)

lemma CTR_Process_keystream:
  "CTR_Process enc bs c = (map2 xor bs (keystream enc c (length bs)), snd (CTR_Process enc (replicate (length bs) 0) c))"
  by (induction bs arbitrary: c) (simp_all add: keystream_def case_prod_beta Let_def)

lemma keystream_add:
  "keystream enc c (m + n) = keystream enc c m @ keystream enc (snd (CTR_Process enc (replicate m 0) c)) n"
  by (simp add: keystream_def replicate_add CTR_Process_append case_prod_beta Let_def)

lemma xor_twice: "length a = length k \<Longrightarrow> map2 xor (map2 xor a k) k = (a :: bytes)"
  by (induction a k rule: list_induct2) (simp_all add: xor.assoc)

lemma xor_bytes_eq_iff:
  "length a = length k \<Longrightarrow> length k = length l \<Longrightarrow> map2 xor (map2 xor a k) l = (a :: bytes) \<longleftrightarrow> k = l"
proof (induction a k l rule: list_induct3)
  case (Cons x xs y ys z zs)
  have "(x XOR y) XOR z = x \<longleftrightarrow> y = z" by (metis xor.assoc xor.commute xor_self_eq xor.left_neutral)
  with Cons show ?case by auto
qed simp

section \<open>Defects\<close>

text \<open>A defect: the tag of the header is encrypted with the wrong part of the stream. A proxy that decrypts the 64
  bytes of the header, as the accepting side of \<^verbatim>\<open>src/internal/transport\<close> does, reads the four tag bytes only if the
  stream repeats itself after 56 bytes.\<close>

lemma header_tag_misplaced:
  assumes "obfuscated_header E sha header sec dcID codec = Inr (wire, c)" and "length header = 64"
    and "NewCTRCipher E (oc_encKey c) (go_slice wire 40 56) = Inr start"
  shows "go_slice (fst (CTR_Process (E (oc_encKey c)) wire start)) 56 60 = replicate 4 codec \<longleftrightarrow>
    take 4 (keystream (E (oc_encKey c)) start 64) = go_slice (keystream (E (oc_encKey c)) start 64) 56 60"
proof -
  let ?enc = "E (oc_encKey c)"
  define tail where "tail = [codec, codec, codec, codec] @ le_bytes 2 (word_of_int dcID :: u16) @ go_slice header 62 64"
  let ?keys = "deriveObfuscatedKeys sha header sec"
  obtain e0 where e0: "NewCTRCipher E (ok_encKey ?keys) (ok_encIV ?keys) = Inr e0"
    and w: "wire = take 56 header @ fst (CTR_Process (E (ok_encKey ?keys)) tail e0)" and k: "oc_encKey c = ok_encKey ?keys"
    using assms(1) by (auto simp: obfuscated_header_def Let_def tail_def case_prod_beta split: sum.splits)
  have "go_slice wire 40 56 = ok_encIV ?keys" using assms(2) by (simp add: w deriveObfuscatedKeys_def Let_def go_slice_def drop_take)
  then have start: "start = e0" using assms(3) e0 k by simp
  have tl: "length tail = 8" using assms(2) by (simp add: tail_def)
  define K where "K = keystream ?enc start 64"
  have K8: "keystream ?enc start 8 = take 8 K"
    using keystream_add [of ?enc start 8 56] by (simp add: K_def)
  have wire: "wire = take 56 header @ map2 xor tail (take 8 K)"
    using CTR_Process_keystream [of ?enc tail start] by (simp add: w k start [symmetric] tl K8 [unfolded k])
  have "fst (CTR_Process ?enc wire start) = map2 xor wire K"
    using CTR_Process_keystream [of ?enc wire start] assms(2) tl by (simp add: wire K_def)
  moreover have "take 4 (drop 56 (map2 xor wire K)) = map2 xor (take 4 (drop 56 wire)) (take 4 (drop 56 K))"
    by (simp add: drop_map take_map drop_zip take_zip)
  moreover have "take 4 (drop 56 wire) = map2 xor (replicate 4 codec) (take 4 K)"
    using assms(2) by (simp add: wire take_map take_zip tail_def numeral_eq_Suc)
  ultimately have "go_slice (fst (CTR_Process ?enc wire start)) 56 60 =
      map2 xor (map2 xor (replicate 4 codec) (take 4 K)) (take 4 (drop 56 K))" by (simp add: go_slice_def)
  then show ?thesis using xor_bytes_eq_iff [of "replicate 4 codec" "take 4 K" "take 4 (drop 56 K)"]
    by (simp add: K_def go_slice_def)
qed

text \<open>A defect: reading less than a record loses the rest of it. After a peer with the matching cipher has written \<open>p\<close>,
  a read into a smaller buffer returns its beginning and leaves nothing for the next read.\<close>

lemma next_header_app_data:
  "next_header ([0x17, 0x03, 0x03] @ writeUint16 v @ s) = Inr ([0x17, 0x03, 0x03] @ writeUint16 v, s)"
proof -
  have "mt_readFull 5 ([0x17, 0x03, 0x03] @ writeUint16 v @ s) = Inr ([0x17, 0x03, 0x03] @ writeUint16 v, s)"
    by (simp add: mt_readFull_def numeral_eq_Suc)
  then show ?thesis by (subst next_header.simps) simp
qed

lemma tls_read_loses_rest:
  assumes "\<not> tc_firstWrite t" and "length p \<le> maxTLSRecordPayload"
    and "tc_encKey t = tc_decKey u" and "tc_enc t = tc_dec u"
  shows "\<exists>u'. tls_Read E n u (fst (tls_Write E p t)) = Inr (take n p, u', [])"
proof -
  obtain w e' where w: "CTR_Process (E (tc_encKey t)) p (tc_enc t) = (w, e')" by fastforce
  have lw: "length w = length p" using CTR_Process_length [of "E (tc_encKey t)" p "tc_enc t"] w by simp
  have inv: "CTR_Process (E (tc_decKey u)) w (tc_dec u) = (p, e')"
    using CTR_Process_inverse [of "E (tc_encKey t)" p "tc_enc t"] w assms(3,4) by simp
  let ?h = "[0x17, 0x03, 0x03] @ writeUint16 (word_of_nat (length w))"
  have wire: "fst (tls_Write E p t) = [0x17, 0x03, 0x03] @ writeUint16 (word_of_nat (length w)) @ w"
    using assms(1) w by (simp add: tls_Write_def Let_def)
  have "uint16_at ?h 3 = length w"
    using uint16_at_writeUint16 [of "[0x17, 0x03, 0x03]" 3 "word_of_nat (length w)" "[]"] assms(2) lw
    by (simp add: maxTLSRecordPayload_def unat_of_nat take_bit_eq_mod)
  then show ?thesis
    unfolding tls_Read_def wire next_header_app_data
    using assms(2) lw inv by (simp add: mt_readFull_def)
qed

text \<open>A defect: the imitated TLS layer encrypts with keys its peer never learns. The bytes of the handshake do not
  depend on the four random strings the record ciphers are made from, so for two choices with different
  keystreams, everything the client sends for one message under the first choice is also what it sends for
  a different message under the second: no proxy can recover what was written.\<close>

theorem fake_tls_undecodable:
  assumes "fakeTLSHandshake E hmac r ks sec domain s = Inr (w, t, rest)"
    and "fakeTLSHandshake E hmac r ks' sec domain s = Inr (w', t', rest')"
    and "keystream (E (tc_encKey t)) (tc_enc t) (length p) \<noteq> keystream (E (tc_encKey t')) (tc_enc t') (length p)"
  shows "w = w' \<and> (\<exists>q. q \<noteq> p \<and> w @ fst (tls_Write E p t) = w' @ fst (tls_Write E q t'))"
proof -
  have w: "w = w'" and f: "tc_firstWrite t" "tc_firstWrite t'"
    using assms(1,2) by (auto simp: fakeTLSHandshake_def Let_def case_prod_beta split: sum.splits if_splits)
  let ?k = "keystream (E (tc_encKey t)) (tc_enc t) (length p)" and ?k' = "keystream (E (tc_encKey t')) (tc_enc t') (length p)"
  let ?q = "map2 xor (map2 xor p ?k) ?k'"
  have "fst (CTR_Process (E (tc_encKey t')) ?q (tc_enc t')) = map2 xor ?q ?k'"
    using CTR_Process_keystream [of "E (tc_encKey t')" ?q "tc_enc t'"] by simp
  also have "\<dots> = map2 xor p ?k" by (rule xor_twice) simp
  also have "\<dots> = fst (CTR_Process (E (tc_encKey t)) p (tc_enc t))"
    using CTR_Process_keystream [of "E (tc_encKey t)" p "tc_enc t"] by simp
  finally have "fst (tls_Write E ?q t') = fst (tls_Write E p t)" using f by (simp add: tls_Write_def Let_def case_prod_beta)
  moreover have "?q \<noteq> p" using xor_bytes_eq_iff [of p ?k ?k'] assms(3) by simp
  ultimately show ?thesis using w by metis
qed

text \<open>A peer that answers with a correct digest, for a constant one.\<close>

definition sample_server_hello :: bytes where
  "sample_server_hello = [0x16, 0x03, 0x03, 0x00, 70] @ replicate 6 0 @ replicate 32 9 @ replicate 32 0"

theorem fake_tls_undecodable_witness:
  "\<exists>t t' q. q \<noteq> [1, 2, 3] \<and>
     fakeTLSHandshake (\<lambda>key b. replicate 16 (key ! 0)) (\<lambda>_ _. replicate 32 9) sample_random
       (replicate 32 1, replicate 16 0, replicate 32 1, replicate 16 0) (replicate 16 1) default_domain sample_server_hello = Inr t \<and>
     fakeTLSHandshake (\<lambda>key b. replicate 16 (key ! 0)) (\<lambda>_ _. replicate 32 9) sample_random
       (replicate 32 2, replicate 16 0, replicate 32 2, replicate 16 0) (replicate 16 1) default_domain sample_server_hello = Inr t' \<and>
     fst (tls_Write (\<lambda>key b. replicate 16 (key ! 0)) [1, 2, 3] (fst (snd t))) =
     fst (tls_Write (\<lambda>key b. replicate 16 (key ! 0)) q (fst (snd t')))"
proof -
  let ?E = "\<lambda>key (b :: bytes). replicate 16 (key ! 0 :: u8)"
  let ?hello = "fst (buildClientHello (\<lambda>_ _. replicate 32 9) sample_random (replicate 16 1) default_domain)"
  define conn where "conn = (\<lambda>k :: u8. \<lparr>tc_encKey = replicate 32 k, tc_enc = \<lparr>ctr_iv = replicate 16 0, ctr_keystream = replicate 16 k, ctr_pos = 0\<rparr>,
    tc_decKey = replicate 32 k, tc_dec = \<lparr>ctr_iv = replicate 16 0, ctr_keystream = replicate 16 k, ctr_pos = 0\<rparr>, tc_firstWrite = True\<rparr>)"
  have v: "verifyServerHello (\<lambda>_ _. replicate 32 9) (replicate 16 1) cr sample_server_hello = Inr ()" for cr
    by (simp add: verifyServerHello_iff sample_server_hello_def go_slice_def)
  have u: "uint16_at [0x16, 0x03, 0x03, 0x00, 70] 3 = 70" by code_simp
  let ?body = "replicate 6 0 @ replicate 32 9 @ replicate 32 0 :: bytes"
  have r: "mt_readFull 5 ([0x16, 0x03, 0x03, 0x00, 70] @ ?body) = Inr ([0x16, 0x03, 0x03, 0x00, 70], ?body)"
    "mt_readFull 70 ?body = Inr (?body, [])" by (simp_all add: mt_readFull_def)
  have "fakeTLSHandshake ?E (\<lambda>_ _. replicate 32 9) sample_random (replicate 32 k, replicate 16 0, replicate 32 k, replicate 16 0)
      (replicate 16 1) default_domain sample_server_hello = Inr (?hello @ change_cipher_spec, conn k, [])" for k
    using v unfolding fakeTLSHandshake_def sample_server_hello_def Let_def
    by (simp only: r u sum.case prod.case case_prod_beta) (simp add: u r [simplified] NewCTRCipher_def GetAESBlock_def copy16_def conn_def)
  note h = this
  have "keystream (?E (tc_encKey (conn 1))) (tc_enc (conn 1)) 3 \<noteq> keystream (?E (tc_encKey (conn 2))) (tc_enc (conn 2)) 3"
    by (simp add: keystream_def conn_def numeral_eq_Suc Let_def ctr_step_def)
  then obtain q where "q \<noteq> [1, 2, 3]"
    "?hello @ change_cipher_spec @ fst (tls_Write ?E [1, 2, 3] (conn 1)) = ?hello @ change_cipher_spec @ fst (tls_Write ?E q (conn 2))"
    using fake_tls_undecodable [OF h [of 1] h [of 2], of "[1, 2, 3]"] by (auto simp: numeral_3_eq_3)
  then show ?thesis using h by auto
qed

text \<open>A read takes as many bytes from the stream as it returns, at least.\<close>

lemma tls_Read_consumes:
  "tls_Read E n t s = Inr (p, t', s') \<Longrightarrow> length p \<le> n \<and> length p + length s' \<le> length s"
  by (auto simp: tls_Read_def mt_readFull_def case_prod_beta Let_def split: sum.splits if_splits dest!: next_header_shorter)

lemma tls_ReadFull_consumes:
  "tls_ReadFull E n t s = Inr (p, t', s') \<Longrightarrow> length p = n \<and> n + length s' \<le> length s"
proof (induction E n t s arbitrary: p t' s' rule: tls_ReadFull.induct)
  case (1 E n t s)
  show ?case
  proof (cases "n = 0")
    case False
    with 1(2) obtain p1 t1 s1 q t2 s2 where r: "tls_Read E n t s = Inr (p1, t1, s1)"
      "tls_ReadFull E (n - length p1) t1 s1 = Inr (q, t2, s2)" "p = p1 @ q" "s' = s2"
      by (subst (asm) tls_ReadFull.simps) (auto split: sum.splits)
    with 1(1) [OF False r(1) refl refl r(2)] tls_Read_consumes [OF r(1)] show ?thesis by (auto simp: r(3,4))
  next
    case True
    with 1(2) show ?thesis by (subst (asm) tls_ReadFull.simps) simp
  qed
qed

lemma stream_ReadFull_consumes:
  "stream_ReadFull E n st s = Inr (p, st', s') \<Longrightarrow> length p = n \<and> n + length s' \<le> length s"
  by (cases st) (auto simp: mt_readFull_def split: sum.splits if_splits dest!: tls_ReadFull_consumes)

text \<open>A defect: a connection through a proxy delivers nothing until the caller's whole buffer can be filled. If fewer
  bytes than the buffer holds are still to come, a read fails (on a live connection: blocks) without a byte,
  with and without the TLS layer; over plain TCP it succeeds exactly when the buffer can be filled. The transport the
  client puts on top reads into buffers of 1 MiB.\<close>

theorem proxy_read_needs_full_buffer:
  assumes "length s < n"
  shows "(\<exists>e. Proxy_Read E n c s = Inl e) \<and>
         (pc_stream c = RawConn \<longrightarrow> (\<forall>more. (\<exists>r. Proxy_Read E n c (s @ more) = Inr r) \<longleftrightarrow> n \<le> length s + length more))"
proof -
  have "Proxy_Read E n c s \<noteq> Inr r" for r
    using assms stream_ReadFull_consumes [of E n "pc_stream c" s]
    by (force simp: Proxy_Read_def case_prod_beta Let_def split: sum.splits)
  then have "\<exists>e. Proxy_Read E n c s = Inl e" by (metis sum.exhaust)
  moreover have "(\<exists>r. Proxy_Read E n c (s @ more) = Inr r) \<longleftrightarrow> n \<le> length s + length more" if "pc_stream c = RawConn" for more
    using that by (auto simp: Proxy_Read_def mt_readFull_def case_prod_beta Let_def)
  ultimately show ?thesis by blast
qed

theorem proxy_read_needs_full_buffer_witness:
  "\<exists>e. Proxy_Read (\<lambda>_. rev) (2 ^ 20)
     \<lparr>pc_stream = RawConn, pc_obfs = \<lparr>oc_encKey = [], oc_enc = \<lparr>ctr_iv = [], ctr_keystream = [], ctr_pos = 0\<rparr>,
        oc_decKey = [], oc_dec = \<lparr>ctr_iv = [], ctr_keystream = [], ctr_pos = 0\<rparr>\<rparr>\<rparr> (replicate 100 7) = Inl e"
  by (rule proxy_read_needs_full_buffer [THEN conjunct1]) simp

end
