(* ===== verification/Temp_Keys.thy ===== *)
theory Temp_Keys
  imports Message_Crypto
begin

text \<open>
  Temporary authorization keys, \<^verbatim>\<open>src/internal/session/pfs.go\<close>, with the recovery and renewal of \<^verbatim>\<open>session.go\<close>. Times are
  nanoseconds since 1970, read by the operations. SHA-1, the block cipher and random reads are parameters; the
  call that carries the binding request is represented by its answer and by what other goroutines do to the
  manager meanwhile.
\<close>

section \<open>The manager\<close>

record temp_keys =
  tk_dcID :: int
  tk_testMode :: bool
  tk_permKey :: bytes
  tk_tempKey :: bytes
  tk_tempKeyID :: i64
  tk_expiresAt :: int
  tk_issuedAt :: int
  tk_bindExpiresAt :: u32
  tk_bound :: bool
  tk_enabled :: bool
  tk_createdAt :: int
  tk_needInit :: bool
  tk_bindEpoch :: i64

definition second :: int where "second = 1000000000"

text \<open>The zero \<^verbatim>\<open>time.Time\<close>, January 1 of the year 1.\<close>

definition zero_time :: int where "zero_time = - 62135596800 * second"

definition computeAuthKeyIDInt64 :: "(bytes \<Rightarrow> bytes) \<Rightarrow> bytes \<Rightarrow> i64" where
  "computeAuthKeyIDInt64 sha1 authKey = le_word (go_slice (sha1 authKey) 12 20)"

definition NewTempKeyManager :: "int \<Rightarrow> bool \<Rightarrow> bytes \<Rightarrow> bool \<Rightarrow> int option \<Rightarrow> temp_keys" where
  "NewTempKeyManager dcID testMode permKey enabled permKeyCreatedAt =
     \<lparr>tk_dcID = dcID, tk_testMode = testMode, tk_permKey = permKey, tk_tempKey = [], tk_tempKeyID = 0, tk_expiresAt = zero_time,
      tk_issuedAt = zero_time, tk_bindExpiresAt = 0, tk_bound = False, tk_enabled = enabled,
      tk_createdAt = (case permKeyCreatedAt of None \<Rightarrow> zero_time | Some t \<Rightarrow> t), tk_needInit = False, tk_bindEpoch = 0\<rparr>"

definition GetKey :: "(bytes \<Rightarrow> bytes) \<Rightarrow> temp_keys \<Rightarrow> bytes \<times> i64" where
  "GetKey sha1 m =
     (if \<not> tk_enabled m \<or> tk_tempKey m = [] then (tk_permKey m, computeAuthKeyIDInt64 sha1 (tk_permKey m))
      else (tk_tempKey m, tk_tempKeyID m))"

definition MarkInitConnectionDone :: "temp_keys \<Rightarrow> temp_keys" where
  "MarkInitConnectionDone m = m\<lparr>tk_needInit := False\<rparr>"

definition rotationDueInLocked :: "int \<Rightarrow> temp_keys \<Rightarrow> int" where
  "rotationDueInLocked now m =
     (let lifetime = tk_expiresAt m - tk_issuedAt m;
          margin = (if lifetime > 0
                    then (if lifetime div 4 < 30 * second then 30 * second else lifetime div 4)
                    else 30 * second)
      in (tk_expiresAt m - margin) - now)"

definition NeedsRotation :: "int \<Rightarrow> temp_keys \<Rightarrow> bool" where
  "NeedsRotation now m = (if \<not> tk_enabled m \<or> tk_tempKey m = [] then False else rotationDueInLocked now m \<le> 0)"

definition rotationDueIn :: "int \<Rightarrow> temp_keys \<Rightarrow> int" where
  "rotationDueIn now m = (if \<not> tk_enabled m \<or> tk_tempKey m = [] then 0 else rotationDueInLocked now m)"

definition FallbackToPermKey :: "temp_keys \<Rightarrow> temp_keys" where
  "FallbackToPermKey m =
     m\<lparr>tk_enabled := False, tk_tempKey := [], tk_tempKeyID := 0, tk_bindExpiresAt := 0, tk_bound := False\<rparr>"

definition installGeneratedKey :: "(bytes \<Rightarrow> bytes) \<Rightarrow> bytes \<Rightarrow> u32 \<Rightarrow> u32 \<Rightarrow> int \<Rightarrow> temp_keys \<Rightarrow> temp_keys" where
  "installGeneratedKey sha1 authKey serverTime expiresIn localNow m =
     m\<lparr>tk_tempKey := authKey, tk_tempKeyID := computeAuthKeyIDInt64 sha1 authKey, tk_issuedAt := localNow,
       tk_expiresAt := localNow + sint expiresIn * second, tk_bindExpiresAt := serverTime + expiresIn, tk_bound := False\<rparr>"

text \<open>Generate, for the key and server time the exchange for a temporary key returned, if it did.\<close>

definition Generate :: "(bytes \<Rightarrow> bytes) \<Rightarrow> ('e + bytes \<times> u32) \<Rightarrow> int \<Rightarrow> temp_keys \<Rightarrow> ('e + unit) \<times> temp_keys" where
  "Generate sha1 exchange localNow m =
     (case exchange of
        Inl e \<Rightarrow> (Inl e, m)
      | Inr (authKey, serverTime) \<Rightarrow> (Inr (), installGeneratedKey sha1 authKey serverTime (24 * 60 * 60) localNow m))"

section \<open>The binding message\<close>

definition deriveMsgAESKeyIV :: "(bytes \<Rightarrow> bytes) \<Rightarrow> bytes \<Rightarrow> bytes \<Rightarrow> nat \<Rightarrow> bytes \<times> bytes" where
  "deriveMsgAESKeyIV sha1 authKey msgKey x =
     (let a = sha1 (msgKey @ go_slice authKey x (x + 32));
          b = sha1 (go_slice authKey (x + 32) (x + 48) @ msgKey @ go_slice authKey (x + 48) (x + 64));
          c = sha1 (go_slice authKey (x + 64) (x + 96) @ msgKey);
          d = sha1 (msgKey @ go_slice authKey (x + 96) (x + 128))
      in (take 8 a @ go_slice b 8 20 @ go_slice c 4 16, go_slice a 8 20 @ take 8 b @ go_slice c 16 20 @ take 8 d))"

record bind_auth_key_inner =
  bi_Nonce :: i64
  bi_TempAuthKeyID :: i64
  bi_PermAuthKeyID :: i64
  bi_TempSessionID :: i64
  bi_ExpiresAt :: u32

definition BindAuthKeyInnerTypeID :: u32 where "BindAuthKeyInnerTypeID = 0x75a3f765"

definition Encode_BindAuthKeyInner :: "bind_auth_key_inner \<Rightarrow> bytes" where
  "Encode_BindAuthKeyInner v =
     WriteInt (WriteLong (WriteLong (WriteLong (WriteLong (WriteInt [] BindAuthKeyInnerTypeID) (bi_Nonce v)) (bi_TempAuthKeyID v))
       (bi_PermAuthKeyID v)) (bi_TempSessionID v)) (bi_ExpiresAt v)"

definition bind_plaintext :: "bytes \<Rightarrow> i64 \<Rightarrow> bytes \<Rightarrow> bytes" where
  "bind_plaintext randPrefix outerMsgID innerBytes =
     randPrefix @ le_bytes 8 outerMsgID @ le_bytes 4 (0 :: u32) @ le_bytes 4 (word_of_nat (length innerBytes) :: u32) @ innerBytes"

text \<open>\<open>rand1\<close> reads the prefix, \<open>rand2\<close> the padding.\<close>

definition buildEncryptedBindMessage ::
  "(bytes \<Rightarrow> bytes) \<Rightarrow> (bytes \<Rightarrow> bytes \<Rightarrow> bytes) \<Rightarrow> rand_read \<Rightarrow> rand_read \<Rightarrow> bytes \<Rightarrow> bytes \<Rightarrow> i64 \<Rightarrow> i64 \<Rightarrow> i64 \<Rightarrow> i64 \<Rightarrow> u32
   \<Rightarrow> crypto_error + bytes" where
  "buildEncryptedBindMessage sha1 E rand1 rand2 permKey tempKey permKeyID nonce sessionID outerMsgID expiresAt =
     (let inner = \<lparr>bi_Nonce = nonce, bi_TempAuthKeyID = computeAuthKeyIDInt64 sha1 tempKey, bi_PermAuthKeyID = permKeyID,
                   bi_TempSessionID = sessionID, bi_ExpiresAt = expiresAt\<rparr>
      in case rand1 16 of
           None \<Rightarrow> Inl CryptoRandom
         | Some randPrefix \<Rightarrow>
             let msg = bind_plaintext randPrefix outerMsgID (Encode_BindAuthKeyInner inner);
                 msgKey = go_slice (sha1 msg) 4 20;
                 padLen = (16 - length msg mod 16) mod 16
             in case (if padLen > 0 then rand2 padLen else Some []) of
                  None \<Rightarrow> Inl CryptoRandom
                | Some pad \<Rightarrow>
                    let (aesKey, aesIV) = deriveMsgAESKeyIV sha1 permKey msgKey 0
                    in case IGEEncrypt E (msg @ pad) aesKey aesIV of
                         Inl e \<Rightarrow> Inl (CryptoAES e)
                       | Inr encrypted \<Rightarrow> Inr (le_bytes 8 permKeyID @ msgKey @ encrypted))"

record bind_query =
  bq_permKey :: bytes
  bq_tempKey :: bytes
  bq_permKeyID :: i64
  bq_sessionID :: i64
  bq_expiresAt :: u32

record bind_request =
  br_PermAuthKeyID :: i64
  br_Nonce :: i64
  br_ExpiresAt :: u32
  br_EncryptedMessage :: bytes

definition prepareForMessageID ::
  "(bytes \<Rightarrow> bytes) \<Rightarrow> (bytes \<Rightarrow> bytes \<Rightarrow> bytes) \<Rightarrow> rand_read \<Rightarrow> rand_read \<Rightarrow> rand_read \<Rightarrow> bind_query \<Rightarrow> i64 \<Rightarrow> crypto_error + bind_request"
where
  "prepareForMessageID sha1 E rand0 rand1 rand2 q msgID =
     (case rand0 8 of
        None \<Rightarrow> Inl CryptoRandom
      | Some nonceBytes \<Rightarrow>
          let nonce = le_word nonceBytes :: i64
          in case buildEncryptedBindMessage sha1 E rand1 rand2 (bq_permKey q) (bq_tempKey q) (bq_permKeyID q) nonce (bq_sessionID q)
                    msgID (bq_expiresAt q) of
               Inl e \<Rightarrow> Inl e
             | Inr encMsg \<Rightarrow>
                 Inr \<lparr>br_PermAuthKeyID = bq_permKeyID q, br_Nonce = nonce, br_ExpiresAt = bq_expiresAt q, br_EncryptedMessage = encMsg\<rparr>)"

section \<open>Binding\<close>

datatype bind_error =
    BindNoTempKey | BindPermKeyTooShort nat | ErrBindRequiresKeyRotation | BindInvalidYoungKey | BindCallFailed | BindUnexpected
  | BindNoInitCallback | BindInitFailed

text \<open>The answer of the call: an error, with whether it is ENCRYPTED_MESSAGE_INVALID, or an object.\<close>

datatype bind_answer = BindErr bool | BindObj tl_object

definition bind_succeeded :: "tl_object \<Rightarrow> bool" where
  "bind_succeeded obj = (case obj of TLBool b \<Rightarrow> b | Generated c _ \<Rightarrow> c = BoolTrueID | _ \<Rightarrow> False)"

text \<open>What bind reads before the call.\<close>

definition bind_begin :: "(bytes \<Rightarrow> bytes) \<Rightarrow> i64 \<Rightarrow> temp_keys \<Rightarrow> bind_error + bind_query" where
  "bind_begin sha1 sessionID m =
     (let expiresAt = (if tk_bindExpiresAt m = 0 then word_of_int (tk_expiresAt m div second) else tk_bindExpiresAt m)
      in if tk_tempKey m = [] then Inl BindNoTempKey
         else if length (tk_permKey m) < 256 then Inl (BindPermKeyTooShort (length (tk_permKey m)))
         else Inr \<lparr>bq_permKey = tk_permKey m, bq_tempKey = tk_tempKey m, bq_permKeyID = computeAuthKeyIDInt64 sha1 (tk_permKey m),
                   bq_sessionID = sessionID, bq_expiresAt = expiresAt\<rparr>)"

text \<open>What it does after the call; \<open>createdAt\<close> was read before it.\<close>

definition bind_finish :: "int \<Rightarrow> int \<Rightarrow> bind_answer \<Rightarrow> temp_keys \<Rightarrow> bind_error option \<times> temp_keys" where
  "bind_finish now createdAt ans m =
     (case ans of
        BindErr invalid \<Rightarrow>
          (if invalid then (if now - createdAt > 60 * second then Some ErrBindRequiresKeyRotation else Some BindInvalidYoungKey)
           else Some BindCallFailed, m\<lparr>tk_bound := False\<rparr>)
      | BindObj obj \<Rightarrow>
          if \<not> bind_succeeded obj then (Some BindUnexpected, m\<lparr>tk_bound := False\<rparr>)
          else (None, m\<lparr>tk_bound := True, tk_needInit := True, tk_bindEpoch := tk_bindEpoch m + 1\<rparr>))"

text \<open>\<open>call q m\<close> is the answer to the request and the manager as other goroutines left it; \<open>now\<close> is read after it.\<close>

type_synonym bind_call = "bind_query \<Rightarrow> temp_keys \<Rightarrow> bind_answer \<times> temp_keys"

definition Bind :: "(bytes \<Rightarrow> bytes) \<Rightarrow> int \<Rightarrow> i64 \<Rightarrow> bind_call \<Rightarrow> temp_keys \<Rightarrow> bind_error option \<times> temp_keys" where
  "Bind sha1 now sessionID call m =
     (case bind_begin sha1 sessionID m of
        Inl e \<Rightarrow> (Some e, m)
      | Inr q \<Rightarrow> (let (ans, m1) = call q m in bind_finish now (tk_createdAt m) ans m1))"

definition Rebind ::
  "(bytes \<Rightarrow> bytes) \<Rightarrow> int \<Rightarrow> i64 \<Rightarrow> i64 \<Rightarrow> bind_call \<Rightarrow> temp_keys \<Rightarrow> (bool \<times> bind_error option) \<times> temp_keys" where
  "Rebind sha1 now sessionID observedEpoch call m =
     (if tk_bindEpoch m \<noteq> observedEpoch then ((False, None), m)
      else let (err, m1) = Bind sha1 now sessionID call m in ((True, err), m1))"

text \<open>recoverPFSBinding: the error, whether the session is stopped, and the manager. \<open>initConnection\<close> is the callback, if
  set: whether it succeeded and the manager after it.\<close>

definition recoverPFSBinding ::
  "(bytes \<Rightarrow> bytes) \<Rightarrow> int \<Rightarrow> i64 \<Rightarrow> i64 \<Rightarrow> bind_call \<Rightarrow> (temp_keys \<Rightarrow> bool \<times> temp_keys) option \<Rightarrow> temp_keys
   \<Rightarrow> bind_error option \<times> bool \<times> temp_keys" where
  "recoverPFSBinding sha1 now sessionID observedEpoch call initConnection m =
     (let ((_, err), m1) = Rebind sha1 now sessionID observedEpoch call m
      in if err \<noteq> None then (err, True, m1)
         else if \<not> tk_needInit m1 then (None, False, m1)
         else case initConnection of
                None \<Rightarrow> (Some BindNoInitCallback, True, m1)
              | Some f \<Rightarrow>
                  (let (ok, m2) = f m1
                   in if \<not> ok then (Some BindInitFailed, True, m2) else (None, False, MarkInitConnectionDone m2)))"

text \<open>pfsRenewalLoop: when it ends the session, counted from \<open>now\<close>; None while it only waits for the end of the context.\<close>

definition pfsRenewalLoop :: "int \<Rightarrow> temp_keys option \<Rightarrow> int option" where
  "pfsRenewalLoop now pfs =
     (case pfs of
        None \<Rightarrow> None
      | Some m \<Rightarrow>
          if \<not> tk_enabled m then None
          else let wait = rotationDueIn now m in Some (if wait \<le> 0 then 0 else wait))"

section \<open>The binding message opens under the permanent key\<close>

text \<open>What the server does with a binding message: the key id selects the permanent key, the message key gives the AES key
  and IV, and the decrypted message is accepted if its hash gives the message key back. The result is the message id, the
  sequence number and the body.\<close>

definition open_bind_message ::
  "(bytes \<Rightarrow> bytes) \<Rightarrow> (bytes \<Rightarrow> bytes \<Rightarrow> bytes) \<Rightarrow> bytes \<Rightarrow> bytes \<Rightarrow> (i64 \<times> u32 \<times> bytes) option" where
  "open_bind_message sha1 D permKey enc =
     (let msgKey = go_slice enc 8 24;
          (key, iv) = deriveMsgAESKeyIV sha1 permKey msgKey 0
      in if le_word (take 8 enc) \<noteq> computeAuthKeyIDInt64 sha1 permKey then None
         else case IGEDecrypt D (drop 24 enc) key iv of
                Inl _ \<Rightarrow> None
              | Inr plain \<Rightarrow>
                  let n = unat (le_word (go_slice plain 28 32) :: u32);
                      msg = take (32 + n) plain
                  in if go_slice (sha1 msg) 4 20 \<noteq> msgKey then None
                     else Some (le_word (go_slice plain 16 24), le_word (go_slice plain 24 28), drop 32 msg))"

lemma deriveMsgAESKeyIV_lengths:
  assumes "\<And>m. length (sha1 m) = 20" and "deriveMsgAESKeyIV sha1 authKey msgKey x = (key, iv)"
  shows "length key = 32 \<and> length iv = 32"
  using assms by (auto simp: deriveMsgAESKeyIV_def Let_def)

lemma length_Encode_BindAuthKeyInner [simp]: "length (Encode_BindAuthKeyInner v) = 40"
  by (simp add: Encode_BindAuthKeyInner_def WriteInt_def WriteLong_def)

lemma length_bind_plaintext [simp]:
  "length (bind_plaintext p i (Encode_BindAuthKeyInner v)) = length p + 56"
  by (simp add: bind_plaintext_def)

lemma bind_plaintext_fields:
  assumes "length p = 16"
  shows "le_word (go_slice (bind_plaintext p i (Encode_BindAuthKeyInner v) @ pad) 16 24) = i"
    and "le_word (go_slice (bind_plaintext p i (Encode_BindAuthKeyInner v) @ pad) 24 28) = (0 :: u32)"
    and "le_word (go_slice (bind_plaintext p i (Encode_BindAuthKeyInner v) @ pad) 28 32) = (40 :: u32)"
    and "drop 32 (bind_plaintext p i (Encode_BindAuthKeyInner v)) = Encode_BindAuthKeyInner v"
  using assms by (simp_all add: bind_plaintext_def go_slice_def le_word_le_bytes_full)

lemma open_encrypted:
  assumes sha: "\<And>m. length (sha1 m) = 20" and ok: "\<And>k. length k = 32 \<Longrightarrow> block_cipher_ok E D k"
    and p: "length p = 16" and pad: "length pad = 8"
    and msg: "msg = bind_plaintext p i (Encode_BindAuthKeyInner v)" and mk: "msgKey = go_slice (sha1 msg) 4 20"
    and k: "deriveMsgAESKeyIV sha1 permKey msgKey 0 = (key, iv)" and id: "kid = computeAuthKeyIDInt64 sha1 permKey"
  shows "\<exists>c. IGEEncrypt E (msg @ pad) key iv = Inr c \<and>
             open_bind_message sha1 D permKey (le_bytes 8 kid @ msgKey @ c) = Some (i, 0, Encode_BindAuthKeyInner v)"
proof -
  from deriveMsgAESKeyIV_lengths [OF sha k] have l: "length key = 32" "length iv = 32" by auto
  have "GetAESBlock key = Inr ()" using l(1) by (simp add: GetAESBlock_def)
  moreover have "length (msg @ pad) mod 16 = 0" using p pad by (simp add: msg)
  ultimately obtain c where c: "IGEEncrypt E (msg @ pad) key iv = Inr c" "IGEDecrypt D c key iv = Inr (msg @ pad)"
    using IGE_decrypt_encrypt [OF ok [OF l(1)] _ l(2), of "msg @ pad"] by metis
  have mkl: "length msgKey = 16" using sha [of msg] by (simp add: mk)
  have parts: "le_word (take 8 (le_bytes 8 kid @ msgKey @ c)) = kid" "go_slice (le_bytes 8 kid @ msgKey @ c) 8 24 = msgKey"
    "drop 24 (le_bytes 8 kid @ msgKey @ c) = c"
    using mkl by (simp_all add: go_slice_def)
  have whole: "take (32 + unat (40 :: u32)) (msg @ pad) = msg" using p by (simp add: msg)
  have "open_bind_message sha1 D permKey (le_bytes 8 kid @ msgKey @ c) = Some (i, 0, Encode_BindAuthKeyInner v)"
    unfolding open_bind_message_def parts k Let_def prod.case c(2) sum.case
    using bind_plaintext_fields(1-3) [OF p, of i v pad] bind_plaintext_fields(4) [OF p, of i v] whole
    by (simp add: id mk msg)
  with c(1) show ?thesis by blast
qed

text \<open>Property C16 (roundtrip): the request that binds a temporary key opens on the server. For any manager whose temporary
  key is set and whose permanent key has 256 bytes, and for any outer message id, preparing the request succeeds, and the
  holder of the permanent key who receives it finds the key id, decrypts it, verifies its message key and recovers exactly
  the outer message id, sequence number 0 and the inner record with the nonce, the permanent key id and the expiry the
  request itself carries, the id of the manager's temporary key, and the session.\<close>

theorem bind_message_opens:
  assumes "\<And>m. length (sha1 m) = 20" and "\<And>k. length k = 32 \<Longrightarrow> block_cipher_ok E D k"
    and "rand0 8 = Some n" and "rand1 16 = Some p" and "length p = 16" and "rand2 8 = Some pad" and "length pad = 8"
    and "bind_begin sha1 sessionID m = Inr q"
  shows "\<exists>r. prepareForMessageID sha1 E rand0 rand1 rand2 q msgID = Inr r \<and>
             br_PermAuthKeyID r = computeAuthKeyIDInt64 sha1 (tk_permKey m) \<and>
             open_bind_message sha1 D (tk_permKey m) (br_EncryptedMessage r) =
               Some (msgID, 0, Encode_BindAuthKeyInner
                 \<lparr>bi_Nonce = br_Nonce r, bi_TempAuthKeyID = computeAuthKeyIDInt64 sha1 (tk_tempKey m),
                  bi_PermAuthKeyID = br_PermAuthKeyID r, bi_TempSessionID = sessionID, bi_ExpiresAt = br_ExpiresAt r\<rparr>)"
proof -
  from assms(8) have q: "bq_permKey q = tk_permKey m" "bq_tempKey q = tk_tempKey m" "bq_sessionID q = sessionID"
    "bq_permKeyID q = computeAuthKeyIDInt64 sha1 (tk_permKey m)"
    by (auto simp: bind_begin_def Let_def split: if_splits)
  define v where "v = \<lparr>bi_Nonce = le_word n, bi_TempAuthKeyID = computeAuthKeyIDInt64 sha1 (tk_tempKey m),
    bi_PermAuthKeyID = bq_permKeyID q, bi_TempSessionID = sessionID, bi_ExpiresAt = bq_expiresAt q\<rparr>"
  define msg where "msg = bind_plaintext p msgID (Encode_BindAuthKeyInner v)"
  define msgKey where "msgKey = go_slice (sha1 msg) 4 20"
  obtain key iv where k: "deriveMsgAESKeyIV sha1 (tk_permKey m) msgKey 0 = (key, iv)" by fastforce
  from open_encrypted [OF assms(1) assms(2) assms(5,7) msg_def msgKey_def k q(4)]
  obtain c where c: "IGEEncrypt E (msg @ pad) key iv = Inr c"
    "open_bind_message sha1 D (tk_permKey m) (le_bytes 8 (bq_permKeyID q) @ msgKey @ c) = Some (msgID, 0, Encode_BindAuthKeyInner v)"
    by blast
  have pl: "(16 - length msg mod 16) mod 16 = 8" using assms(5) by (simp add: msg_def)
  have "buildEncryptedBindMessage sha1 E rand1 rand2 (tk_permKey m) (tk_tempKey m) (bq_permKeyID q) (le_word n) sessionID msgID
      (bq_expiresAt q) = Inr (le_bytes 8 (bq_permKeyID q) @ msgKey @ c)"
    unfolding buildEncryptedBindMessage_def Let_def assms(4) option.case v_def [symmetric] msg_def [symmetric]
      msgKey_def [symmetric] pl k prod.case c(1) sum.case
    using assms(6) c(1) k by simp
  then show ?thesis
    using c(2) q assms(3) by (auto simp: prepareForMessageID_def Let_def v_def)
qed

definition sample_pfs :: temp_keys where
  "sample_pfs = installGeneratedKey (\<lambda>m. take 20 (m @ replicate 20 7)) (replicate 256 9) 1000 86400 0
     (NewTempKeyManager 2 False (replicate 256 1) True None)"

theorem bind_message_opens_witness:
  "\<exists>r. prepareForMessageID (\<lambda>m. take 20 (m @ replicate 20 7)) (\<lambda>_. rev) (\<lambda>n. Some (replicate n 3)) (\<lambda>n. Some (replicate n 4))
         (\<lambda>n. Some (replicate n 5))
         (projr (bind_begin (\<lambda>m. take 20 (m @ replicate 20 7)) 77 sample_pfs)) 123 = Inr r \<and>
       br_PermAuthKeyID r = computeAuthKeyIDInt64 (\<lambda>m. take 20 (m @ replicate 20 7)) (tk_permKey sample_pfs) \<and>
       open_bind_message (\<lambda>m. take 20 (m @ replicate 20 7)) (\<lambda>_. rev) (tk_permKey sample_pfs) (br_EncryptedMessage r) =
         Some (123, 0, Encode_BindAuthKeyInner
           \<lparr>bi_Nonce = br_Nonce r, bi_TempAuthKeyID = computeAuthKeyIDInt64 (\<lambda>m. take 20 (m @ replicate 20 7)) (tk_tempKey sample_pfs),
            bi_PermAuthKeyID = br_PermAuthKeyID r, bi_TempSessionID = 77, bi_ExpiresAt = br_ExpiresAt r\<rparr>)"
  by (rule bind_message_opens [where n = "replicate 8 3" and p = "replicate 16 4" and pad = "replicate 8 5"])
    (simp_all add: block_cipher_ok_def sample_pfs_def installGeneratedKey_def NewTempKeyManager_def bind_begin_def Let_def)

section \<open>Which key is bound\<close>

text \<open>The steps of a manager. A bind holds \<open>bindMu\<close> from its first read to its last write, so at most one is in flight; the
  server's answer may come at any moment of it. The connection code generates the key on a new manager, before any bind is
  in flight. \<open>ps_accepted\<close> records, newest first, the temporary keys the server said it bound.\<close>

record pfs_state =
  ps_mgr :: temp_keys
  ps_bind :: "(bind_query \<times> int) option"
  ps_accepted :: "bytes list"

inductive pfs_step :: "(bytes \<Rightarrow> bytes) \<Rightarrow> pfs_state \<Rightarrow> pfs_state \<Rightarrow> bool" for sha1 where
  generated: "ps_bind s = None \<Longrightarrow> pfs_step sha1 s (s\<lparr>ps_mgr := snd (Generate sha1 (exchange :: string + bytes \<times> u32) now (ps_mgr s))\<rparr>)"
| begins: "ps_bind s = None \<Longrightarrow> bind_begin sha1 sessionID (ps_mgr s) = Inr q
    \<Longrightarrow> pfs_step sha1 s (s\<lparr>ps_bind := Some (q, tk_createdAt (ps_mgr s))\<rparr>)"
| answered: "ps_bind s = Some (q, createdAt) \<Longrightarrow> bind_finish now createdAt ans (ps_mgr s) = (err, m)
    \<Longrightarrow> pfs_step sha1 s (s\<lparr>ps_mgr := m, ps_bind := None,
          ps_accepted := (if err = None then bq_tempKey q # ps_accepted s else ps_accepted s)\<rparr>)"
| initialized: "pfs_step sha1 s (s\<lparr>ps_mgr := MarkInitConnectionDone (ps_mgr s)\<rparr>)"
| fell_back: "pfs_step sha1 s (s\<lparr>ps_mgr := FallbackToPermKey (ps_mgr s)\<rparr>)"

inductive pfs_reachable :: "(bytes \<Rightarrow> bytes) \<Rightarrow> pfs_state \<Rightarrow> bool" for sha1 where
  start: "pfs_reachable sha1 \<lparr>ps_mgr = NewTempKeyManager dc tm pk en ca, ps_bind = None, ps_accepted = []\<rparr>"
| step: "pfs_reachable sha1 s \<Longrightarrow> pfs_step sha1 s s' \<Longrightarrow> pfs_reachable sha1 s'"

definition pfs_ok :: "(bytes \<Rightarrow> bytes) \<Rightarrow> pfs_state \<Rightarrow> bool" where
  "pfs_ok sha1 s \<longleftrightarrow>
     (tk_bound (ps_mgr s) \<longrightarrow> tk_tempKey (ps_mgr s) \<noteq> [] \<longrightarrow> tk_tempKey (ps_mgr s) \<in> set (ps_accepted s)) \<and>
     (tk_tempKey (ps_mgr s) \<noteq> [] \<longrightarrow> tk_tempKeyID (ps_mgr s) = computeAuthKeyIDInt64 sha1 (tk_tempKey (ps_mgr s))) \<and>
     (\<forall>q c. ps_bind s = Some (q, c) \<longrightarrow> tk_tempKey (ps_mgr s) = [] \<or> bq_tempKey q = tk_tempKey (ps_mgr s)) \<and>
     tk_bindEpoch (ps_mgr s) = word_of_nat (length (ps_accepted s))"

lemmas tk_op_defs = installGeneratedKey_def MarkInitConnectionDone_def FallbackToPermKey_def NewTempKeyManager_def

lemma bind_finish_cases:
  assumes "bind_finish now createdAt ans m = (err, m')"
  obtains "err = None" and "m' = m\<lparr>tk_bound := True, tk_needInit := True, tk_bindEpoch := tk_bindEpoch m + 1\<rparr>"
  | "err \<noteq> None" and "m' = m\<lparr>tk_bound := False\<rparr>"
  using assms by (auto simp: bind_finish_def split: bind_answer.splits if_splits)

lemma bind_begin_tempKey: "bind_begin sha1 sid m = Inr q \<Longrightarrow> bq_tempKey q = tk_tempKey m"
  by (auto simp: bind_begin_def Let_def split: if_splits)

lemma Generate_snd:
  "snd (Generate sha1 ex now m) = m \<or> (\<exists>k t. snd (Generate sha1 ex now m) = installGeneratedKey sha1 k t (24 * 60 * 60) now m)"
  by (auto simp: Generate_def split: sum.splits)

lemma pfs_step_ok:
  assumes "pfs_step sha1 s s'" and "pfs_ok sha1 s"
  shows "pfs_ok sha1 s'"
  using assms
proof cases
  case (generated exchange now)
  then show ?thesis
    using assms(2) Generate_snd [of sha1 exchange now "ps_mgr s"] by (auto simp: pfs_ok_def tk_op_defs)
next
  case (begins sessionID q)
  then show ?thesis using assms(2) bind_begin_tempKey [OF begins(3)] by (auto simp: pfs_ok_def)
next
  case (answered q createdAt now ans err m)
  from answered(3) show ?thesis
    by (rule bind_finish_cases) (use answered(1,2) assms(2) in \<open>auto simp: pfs_ok_def\<close>)
qed (use assms(2) in \<open>auto simp: pfs_ok_def tk_op_defs\<close>)


definition sample_bound :: pfs_state where
  "sample_bound = \<lparr>ps_mgr = sample_pfs\<lparr>tk_bound := True, tk_needInit := True, tk_bindEpoch := 1\<rparr>, ps_bind = None,
     ps_accepted = [replicate 256 9]\<rparr>"

lemma sample_bound_reachable: "pfs_reachable (\<lambda>m. take 20 (m @ replicate 20 7)) sample_bound"
proof -
  let ?h = "\<lambda>m. take 20 (m @ replicate 20 7) :: bytes"
  let ?q = "projr (bind_begin ?h 77 sample_pfs)"
  have b: "bind_begin ?h 77 sample_pfs = Inr ?q"
    by (simp add: bind_begin_def sample_pfs_def installGeneratedKey_def NewTempKeyManager_def Let_def)
  let ?s1 = "\<lparr>ps_mgr = sample_pfs, ps_bind = None, ps_accepted = []\<rparr>"
  have "pfs_reachable ?h ?s1"
    using pfs_reachable.step [OF pfs_reachable.start [where dc = 2 and tm = False and pk = "replicate 256 1" and en = True
          and ca = None and ?sha1.0 = ?h] pfs_step.generated [where exchange = "Inr (replicate 256 9, 1000)" and now = 0]]
    by (simp add: Generate_def sample_pfs_def)
  from pfs_reachable.step [OF this pfs_step.begins [where sessionID = 77 and q = ?q]] b
  have r: "pfs_reachable ?h (?s1\<lparr>ps_bind := Some (?q, tk_createdAt sample_pfs)\<rparr>)" by simp
  have "bq_tempKey ?q = replicate 256 9"
    using bind_begin_tempKey [OF b] by (simp add: sample_pfs_def installGeneratedKey_def)
  moreover have "tk_bindEpoch sample_pfs = 0" by (simp add: sample_pfs_def installGeneratedKey_def NewTempKeyManager_def)
  ultimately show ?thesis
    using pfs_reachable.step [OF r pfs_step.answered [where q = ?q and err = None and ans = "BindObj (TLBool True)" and now = 0]]
    by (simp add: bind_finish_def bind_succeeded_def sample_bound_def)
qed


text \<open>Bind does not check that the key it bound is still the manager's: a key generated while the answer is on its way is
  marked bound although the server was never asked. The connection code never generates a key on a manager in use.\<close>

lemma generate_during_bind_marks_unbound_key:
  assumes "bind_begin sha1 sid m = Inr q"
  shows "tk_bound (snd (Bind sha1 now sid (\<lambda>_ m. (BindObj (TLBool True), snd (Generate sha1 (Inr (k, t)) now m))) m)) \<and>
         tk_tempKey (snd (Bind sha1 now sid (\<lambda>_ m. (BindObj (TLBool True), snd (Generate sha1 (Inr (k, t)) now m))) m)) = k"
  using assms by (simp add: Bind_def bind_finish_def bind_succeeded_def Generate_def installGeneratedKey_def)

section \<open>Recovery and renewal\<close>

lemma Rebind_sends_iff:
  "fst (fst (Rebind sha1 now sid observed call m)) \<longleftrightarrow> tk_bindEpoch m = observed"
  by (simp add: Rebind_def split: prod.splits)

lemma Rebind_success_epoch:
  assumes "Rebind sha1 now sid observed call m = ((True, None), m')" and "\<And>q. tk_bindEpoch (snd (call q m)) = tk_bindEpoch m"
  shows "tk_bindEpoch m' = observed + 1"
proof -
  from assms(1) have e: "tk_bindEpoch m = observed" and b: "Bind sha1 now sid call m = (None, m')"
    by (auto simp: Rebind_def split: if_splits prod.splits)
  from b obtain q where "bind_begin sha1 sid m = Inr q" by (auto simp: Bind_def split: sum.splits)
  with b have "bind_finish now (tk_createdAt m) (fst (call q m)) (snd (call q m)) = (None, m')"
    by (simp add: Bind_def split: prod.splits)
  then show ?thesis by (rule bind_finish_cases) (use e assms(2) in auto)
qed

text \<open>Of several recoveries that observed the same epoch, one that follows a success sends nothing and leaves the manager
  as it is.\<close>

lemma rebinds_coalesce:
  assumes "Rebind sha1 now sid observed call m = ((True, None), m')" and "\<And>q. tk_bindEpoch (snd (call q m)) = tk_bindEpoch m"
  shows "Rebind sha1 now' sid observed call' m' = ((False, None), m')"
  using Rebind_success_epoch [OF assms] by (simp add: Rebind_def)

text \<open>A recovery that reports success leaves no initConnection owed; one that fails stops the session.\<close>

lemma recovery_outcome:
  assumes "recoverPFSBinding sha1 now sid observed call ic m = (err, stopped, m')"
  shows "(err = None \<longrightarrow> \<not> tk_needInit m') \<and> (stopped \<longleftrightarrow> err \<noteq> None)"
  using assms by (auto simp: recoverPFSBinding_def MarkInitConnectionDone_def Let_def split: prod.splits if_splits option.splits)

text \<open>A key from a successful Generate is replaced a quarter of its life before it expires: the renewal loop ends the
  session 18 hours after the key was installed, 6 hours before the local expiry.\<close>

lemma renewal_time:
  assumes "tk_enabled m" and "Generate sha1 (Inr (k, t)) issued m = (Inr (), m')" and "k \<noteq> []" and "issued \<le> now"
  shows "pfsRenewalLoop now (Some m') = Some (max 0 (issued + 18 * 60 * 60 * second - now)) \<and>
         tk_expiresAt m' = issued + 24 * 60 * 60 * second \<and>
         (NeedsRotation now m' \<longleftrightarrow> issued + 18 * 60 * 60 * second \<le> now)"
proof -
  from assms(2) have m': "m' = installGeneratedKey sha1 k t (24 * 60 * 60) issued m" by (simp add: Generate_def)
  have e: "sint (24 * 60 * 60 :: u32) = 86400" by simp
  show ?thesis
    using assms(1,3)
    by (auto simp: m' pfsRenewalLoop_def rotationDueIn_def rotationDueInLocked_def NeedsRotation_def installGeneratedKey_def
        second_def Let_def)
qed

end
