(* ===== verification/DC_Auth.thy ===== *)
theory DC_Auth
  imports Mtgo_Prelude
begin

text \<open>
  The transfer of an authorization to another data center, \<^verbatim>\<open>src/internal/session/dc_auth.go\<close>. DCLoop keeps a pointer to
  the entry it works on while others may replace the table, so entries are cells of a heap. The calls it makes and
  what other goroutines do to the manager in each turn of the loop are parameters.
\<close>

section \<open>The manager\<close>

datatype dc_auth_state_type = DcAuthWaiting | DcAuthExport | DcAuthImport | DcAuthBeforeOk | DcAuthOk

record dc_auth_state =
  das_DCID :: int
  das_State :: dc_auth_state_type
  das_ExportBytes :: bytes
  das_ExportID :: i64
  das_Attempts :: nat

text \<open>Importers are represented by the data centers that have one.\<close>

record dc_auth_manager =
  dam_mainDCID :: int
  dam_dcs :: "(int \<times> nat) list"
  dam_cells :: "dc_auth_state list"
  dam_importers :: "int list"

definition NewDcAuthManager :: "int \<Rightarrow> dc_auth_manager" where
  "NewDcAuthManager mainDCID = \<lparr>dam_mainDCID = mainDCID, dam_dcs = [], dam_cells = [], dam_importers = []\<rparr>"

definition SetImporter :: "int \<Rightarrow> bool \<Rightarrow> dc_auth_manager \<Rightarrow> dc_auth_manager" where
  "SetImporter dcID present m =
     m\<lparr>dam_importers := (if present then dcID # removeAll dcID (dam_importers m) else removeAll dcID (dam_importers m))\<rparr>"

definition AddDC :: "int \<Rightarrow> dc_auth_manager \<Rightarrow> dc_auth_manager" where
  "AddDC dcID m =
     (case map_of (dam_dcs m) dcID of
        Some _ \<Rightarrow> m
      | None \<Rightarrow>
          m\<lparr>dam_dcs := AList.update dcID (length (dam_cells m)) (dam_dcs m),
            dam_cells := dam_cells m @ [\<lparr>das_DCID = dcID, das_State = DcAuthWaiting, das_ExportBytes = [], das_ExportID = 0, das_Attempts = 0\<rparr>]\<rparr>)"

definition UpdateMainDC :: "int \<Rightarrow> dc_auth_manager \<Rightarrow> dc_auth_manager" where
  "UpdateMainDC newMainDCID m = m\<lparr>dam_mainDCID := newMainDCID\<rparr>"

definition GetState :: "int \<Rightarrow> dc_auth_manager \<Rightarrow> dc_auth_state_type" where
  "GetState dcID m = (case map_of (dam_dcs m) dcID of None \<Rightarrow> DcAuthWaiting | Some r \<Rightarrow> das_State (dam_cells m ! r))"

definition IsAuthorized :: "int \<Rightarrow> dc_auth_manager \<Rightarrow> bool" where
  "IsAuthorized dcID m =
     (case map_of (dam_dcs m) dcID of
        None \<Rightarrow> False
      | Some r \<Rightarrow> das_State (dam_cells m ! r) = DcAuthOk \<or> das_State (dam_cells m ! r) = DcAuthBeforeOk)"

definition ExportID :: "int \<Rightarrow> dc_auth_manager \<Rightarrow> i64" where
  "ExportID dcID m = (case map_of (dam_dcs m) dcID of None \<Rightarrow> 0 | Some r \<Rightarrow> das_ExportID (dam_cells m ! r))"

definition on_cell :: "nat \<Rightarrow> (dc_auth_state \<Rightarrow> dc_auth_state) \<Rightarrow> dc_auth_manager \<Rightarrow> dc_auth_manager" where
  "on_cell r f m = m\<lparr>dam_cells := (dam_cells m)[r := f (dam_cells m ! r)]\<rparr>"

definition SetState :: "int \<Rightarrow> dc_auth_state_type \<Rightarrow> dc_auth_manager \<Rightarrow> dc_auth_manager" where
  "SetState dcID st m =
     (case map_of (dam_dcs m) dcID of None \<Rightarrow> m | Some r \<Rightarrow> on_cell r (\<lambda>c. c\<lparr>das_State := st\<rparr>) m)"

definition DcAuth_Cleanup :: "dc_auth_manager \<Rightarrow> dc_auth_manager" where
  "DcAuth_Cleanup m = m\<lparr>dam_dcs := []\<rparr>"

section \<open>The loop\<close>

datatype dc_auth_error = ExportFailed | ImportFailed | NoImporter int

text \<open>The calls, with their answers.\<close>

datatype dc_call = ExportCall int int "(i64 \<times> bytes) option" | ImportCall i64 bytes bool

text \<open>What the outside does in turn \<open>n\<close>: the answer to an export, to an import, and to the manager while the loop calls or
  sleeps.\<close>

record dc_world =
  dw_export :: "nat \<Rightarrow> (i64 \<times> bytes) option"
  dw_import :: "nat \<Rightarrow> bool"
  dw_others :: "nat \<Rightarrow> dc_auth_manager \<Rightarrow> dc_auth_manager"

datatype dc_next = Again | Returned "dc_auth_error option"

definition dc_failed :: "dc_auth_error \<Rightarrow> nat \<Rightarrow> dc_auth_manager \<Rightarrow> dc_next \<times> dc_auth_manager" where
  "dc_failed e r m =
     (let m1 = on_cell r (\<lambda>c. c\<lparr>das_Attempts := Suc (das_Attempts c)\<rparr>) m
      in (if das_Attempts (dam_cells m1 ! r) \<ge> 3 then Returned (Some e) else Again, m1))"

definition dc_turn :: "dc_world \<Rightarrow> int \<Rightarrow> nat \<Rightarrow> nat \<Rightarrow> dc_auth_manager \<Rightarrow> dc_next \<times> dc_call list \<times> dc_auth_manager" where
  "dc_turn w dcID r n m =
     (let dc = dam_cells m ! r
      in case das_State dc of
           DcAuthWaiting \<Rightarrow>
             let call = ExportCall (dam_mainDCID m) dcID (dw_export w n); m1 = dw_others w n m
             in (case dw_export w n of
                   None \<Rightarrow> let (nx, m2) = dc_failed ExportFailed r m1 in (nx, [call], m2)
                 | Some (i, b) \<Rightarrow>
                     (Again, [call], on_cell r (\<lambda>c. c\<lparr>das_ExportBytes := b, das_ExportID := i, das_State := DcAuthImport\<rparr>) m1))
         | DcAuthExport \<Rightarrow> (Again, [], dw_others w n m)
         | DcAuthImport \<Rightarrow>
             if dcID \<notin> set (dam_importers m) then (Returned (Some (NoImporter dcID)), [], m)
             else let call = ImportCall (das_ExportID dc) (das_ExportBytes dc) (dw_import w n); m1 = dw_others w n m
                  in if \<not> dw_import w n then let (nx, m2) = dc_failed ImportFailed r m1 in (nx, [call], m2)
                     else (Again, [call], on_cell r (\<lambda>c. c\<lparr>das_State := DcAuthBeforeOk\<rparr>) m1)
         | DcAuthBeforeOk \<Rightarrow> (Returned None, [], on_cell r (\<lambda>c. c\<lparr>das_State := DcAuthOk\<rparr>) m)
         | DcAuthOk \<Rightarrow> (Returned None, [], m))"

partial_function (option) dc_turns ::
  "dc_world \<Rightarrow> int \<Rightarrow> nat \<Rightarrow> nat \<Rightarrow> dc_auth_manager \<Rightarrow> (dc_auth_error option \<times> dc_call list \<times> dc_auth_manager) option" where
  [code]: "dc_turns w dcID r n m =
     (case dc_turn w dcID r n m of
        (Returned e, calls, m1) \<Rightarrow> Some (e, calls, m1)
      | (Again, calls, m1) \<Rightarrow>
          Option.bind (dc_turns w dcID r (Suc n) m1) (\<lambda>(e, calls', m2). Some (e, calls @ calls', m2)))"

definition DCLoop ::
  "dc_world \<Rightarrow> int \<Rightarrow> dc_auth_manager \<Rightarrow> (dc_auth_error option \<times> dc_call list \<times> dc_auth_manager) option" where
  "DCLoop w dcID m =
     (let m1 = AddDC dcID m
      in case map_of (dam_dcs m1) dcID of None \<Rightarrow> None | Some r \<Rightarrow> dc_turns w dcID r 0 m1)"

section \<open>The table and its cells\<close>

definition dc_table_ok :: "dc_auth_manager \<Rightarrow> bool" where
  "dc_table_ok m \<longleftrightarrow> (\<forall>d r. map_of (dam_dcs m) d = Some r \<longrightarrow> r < length (dam_cells m) \<and> das_DCID (dam_cells m ! r) = d)"

lemma dc_ops_ok:
  "dc_table_ok (NewDcAuthManager d)"
  "dc_table_ok m \<Longrightarrow> dc_table_ok (AddDC d m)"
  "dc_table_ok m \<Longrightarrow> dc_table_ok (SetState d st m)"
  "dc_table_ok m \<Longrightarrow> dc_table_ok (SetImporter d p m)"
  "dc_table_ok m \<Longrightarrow> dc_table_ok (UpdateMainDC d m)"
  "dc_table_ok m \<Longrightarrow> dc_table_ok (DcAuth_Cleanup m)"
proof -
  assume ok: "dc_table_ok m"
  show "dc_table_ok (AddDC d m)"
    using ok by (fastforce simp: dc_table_ok_def AddDC_def nth_append gm.get_put split: option.splits if_splits)
  show "dc_table_ok (SetState d st m)"
    using ok by (auto simp: dc_table_ok_def SetState_def on_cell_def nth_list_update split: option.splits)
qed (auto simp: dc_table_ok_def NewDcAuthManager_def SetImporter_def UpdateMainDC_def DcAuth_Cleanup_def)

lemma AddDC_present: "\<exists>r. map_of (dam_dcs (AddDC d m)) d = Some r"
  by (auto simp: AddDC_def gm.get_put split: option.splits)

section \<open>The loop returns\<close>

text \<open>Nobody else touches the entry while the loop runs.\<close>

definition dc_quiet :: "dc_world \<Rightarrow> nat \<Rightarrow> bool" where
  "dc_quiet w r \<longleftrightarrow>
     (\<forall>n m. r < length (dam_cells m) \<longrightarrow>
        r < length (dam_cells (dw_others w n m)) \<and> dam_cells (dw_others w n m) ! r = dam_cells m ! r)"

fun dc_call_failed :: "dc_call \<Rightarrow> bool" where
  "dc_call_failed (ExportCall _ _ res) = (res = None)"
| "dc_call_failed (ImportCall _ _ ok) = (\<not> ok)"

fun dc_rank :: "dc_auth_state_type \<Rightarrow> nat" where
  "dc_rank DcAuthWaiting = 2"
| "dc_rank DcAuthImport = 1"
| "dc_rank _ = 0"

text \<open>What a run from an entry guarantees.\<close>

definition dc_outcome :: "int \<Rightarrow> dc_auth_state \<Rightarrow> dc_auth_error option \<Rightarrow> dc_call list \<Rightarrow> dc_auth_state \<Rightarrow> bool" where
  "dc_outcome dcID c e calls c' \<longleftrightarrow>
     (e = None \<longleftrightarrow> das_State c' = DcAuthOk) \<and>
     length (filter dc_call_failed calls) \<le> max 1 (3 - das_Attempts c) \<and>
     (e = None \<longrightarrow> das_State c = DcAuthImport \<longrightarrow> ImportCall (das_ExportID c) (das_ExportBytes c) True \<in> set calls) \<and>
     (e = None \<longrightarrow> das_State c = DcAuthWaiting \<longrightarrow>
        (\<exists>main i b. ExportCall main dcID (Some (i, b)) \<in> set calls \<and> ImportCall i b True \<in> set calls))"

lemma dc_quietD:
  assumes "dc_quiet w r" and "r < length (dam_cells m)"
  shows "r < length (dam_cells (dw_others w n m))" and "dam_cells (dw_others w n m) ! r = dam_cells m ! r"
  using assms by (auto simp: dc_quiet_def)

lemma on_cell_read [simp]:
  "r < length (dam_cells m) \<Longrightarrow> dam_cells (on_cell r f m) ! r = f (dam_cells m ! r)"
  "length (dam_cells (on_cell r f m)) = length (dam_cells m)"
  by (simp_all add: on_cell_def)

text \<open>A turn either ends the loop with a good outcome or brings it closer to the end.\<close>

lemma dc_turn_cases:
  assumes q: "dc_quiet w r" and l: "r < length (dam_cells m)" and ne: "das_State (dam_cells m ! r) \<noteq> DcAuthExport"
    and t: "dc_turn w dcID r n m = (nx, calls, m1)"
  shows "r < length (dam_cells m1) \<and> das_State (dam_cells m1 ! r) \<noteq> DcAuthExport \<and>
    (\<forall>e. nx = Returned e \<longrightarrow> dc_outcome dcID (dam_cells m ! r) e calls (dam_cells m1 ! r)) \<and>
    (nx = Again \<longrightarrow>
       (3 - das_Attempts (dam_cells m1 ! r)) + dc_rank (das_State (dam_cells m1 ! r)) <
       (3 - das_Attempts (dam_cells m ! r)) + dc_rank (das_State (dam_cells m ! r)) \<and>
       (\<forall>e calls' c. dc_outcome dcID (dam_cells m1 ! r) e calls' c \<longrightarrow> dc_outcome dcID (dam_cells m ! r) e (calls @ calls') c))"
  using dc_quietD [OF q l, of n] l ne t
  by (cases "das_State (dam_cells m ! r)")
    (auto simp: dc_turn_def dc_failed_def dc_outcome_def Let_def split: option.splits if_splits, blast)

lemma dc_turns_outcome:
  assumes q: "dc_quiet w r" and "r < length (dam_cells m)" and "das_State (dam_cells m ! r) \<noteq> DcAuthExport"
  shows "\<exists>e calls m'. dc_turns w dcID r n m = Some (e, calls, m') \<and> r < length (dam_cells m') \<and>
           dc_outcome dcID (dam_cells m ! r) e calls (dam_cells m' ! r)"
  using assms(2,3)
proof (induction "(3 - das_Attempts (dam_cells m ! r)) + dc_rank (das_State (dam_cells m ! r))" arbitrary: n m rule: less_induct)
  case less
  obtain nx calls m1 where t: "dc_turn w dcID r n m = (nx, calls, m1)" by (metis prod_cases3)
  note c = dc_turn_cases [OF q less.prems t]
  show ?case
  proof (cases nx)
    case (Returned e)
    with c t show ?thesis by (subst dc_turns.simps) simp
  next
    case Again
    with c less.hyps [of m1 "Suc n"] obtain e calls' m' where
      "dc_turns w dcID r (Suc n) m1 = Some (e, calls', m')" "r < length (dam_cells m')"
      "dc_outcome dcID (dam_cells m1 ! r) e calls' (dam_cells m' ! r)" by blast
    with c t Again show ?thesis by (subst dc_turns.simps) simp
  qed
qed

text \<open>The transfer of an authorization ends. Whatever the two data centers answer, DCLoop returns
  for every entry that is not in the polling state, if nobody else changes that entry; at most three of its calls fail
  (one if earlier runs used the attempts up); and it reports success exactly when the entry is confirmed, which for an
  entry that was waiting means that an authorization exported for this data center was imported there.\<close>

theorem dc_loop_ends:
  assumes "dc_table_ok m" and "map_of (dam_dcs m) dcID = Some r" and "dc_quiet w r"
    and "das_State (dam_cells m ! r) \<noteq> DcAuthExport"
  shows "\<exists>e calls m'. DCLoop w dcID m = Some (e, calls, m') \<and>
           length (filter dc_call_failed calls) \<le> max 1 (3 - das_Attempts (dam_cells m ! r)) \<and>
           (e = None \<longleftrightarrow> das_State (dam_cells m' ! r) = DcAuthOk) \<and>
           (e = None \<and> das_State (dam_cells m ! r) = DcAuthWaiting \<longrightarrow>
              (\<exists>main i b. ExportCall main dcID (Some (i, b)) \<in> set calls \<and> ImportCall i b True \<in> set calls))"
proof -
  have l: "r < length (dam_cells m)" using assms(1,2) by (simp add: dc_table_ok_def)
  have "DCLoop w dcID m = dc_turns w dcID r 0 m" using assms(2) by (simp add: DCLoop_def AddDC_def)
  then show ?thesis
    using dc_turns_outcome [OF assms(3) l assms(4), of dcID 0] unfolding dc_outcome_def by metis
qed

definition sample_dc_world :: dc_world where
  "sample_dc_world = \<lparr>dw_export = (\<lambda>n. if n = 0 then None else Some (5, [1, 2])), dw_import = (\<lambda>n. 2 < n), dw_others = (\<lambda>_ m. m)\<rparr>"

definition sample_dc_manager :: dc_auth_manager where
  "sample_dc_manager = SetImporter 4 True (AddDC 4 (NewDcAuthManager 2))"

theorem dc_loop_ends_witness:
  "\<exists>e calls m'. DCLoop sample_dc_world 4 sample_dc_manager = Some (e, calls, m') \<and>
     length (filter dc_call_failed calls) \<le> 3 \<and>
     (e = None \<longleftrightarrow> das_State (dam_cells m' ! 0) = DcAuthOk)"
proof -
  have "dc_table_ok sample_dc_manager" by (simp add: sample_dc_manager_def dc_ops_ok)
  moreover have "dc_quiet sample_dc_world 0" by (simp add: sample_dc_world_def dc_quiet_def)
  ultimately show ?thesis
    using dc_loop_ends [of sample_dc_manager 4 0 sample_dc_world]
    by (fastforce simp: sample_dc_manager_def NewDcAuthManager_def AddDC_def SetImporter_def)
qed

text \<open>A defect: attempts are counted over all runs and both calls, so two failed exports and one failed import give up, and a
  run after a failed one gives up at its first error.\<close>

lemma attempts_never_reset:
  assumes "das_Attempts (dam_cells m ! r) \<ge> 2" and "das_State (dam_cells m ! r) = DcAuthWaiting" and "r < length (dam_cells m)"
    and "dw_export w n = None" and "dc_quiet w r"
  shows "\<exists>calls m'. dc_turns w dcID r n m = Some (Some ExportFailed, calls, m') \<and> length calls = 1"
  using dc_quietD [OF assms(5,3), of n] assms(1-4)
  by (subst dc_turns.simps) (simp add: dc_turn_def dc_failed_def Let_def)

text \<open>A defect: the polling state has no way out of its own. Nothing in the package enters it or ends it, so without another
  goroutine that calls SetState the loop never returns.\<close>

lemma polling_never_returns:
  assumes "dc_quiet w r"
  shows "dc_turns w dcID r n m = Some res \<Longrightarrow> r < length (dam_cells m) \<Longrightarrow> das_State (dam_cells m ! r) \<noteq> DcAuthExport"
proof (rule dc_turns.raw_induct [where P = "\<lambda>w' d r' n m res. dc_quiet w' r' \<longrightarrow> r' < length (dam_cells m) \<longrightarrow>
      das_State (dam_cells m ! r') \<noteq> DcAuthExport", rule_format], goal_cases)
  case (1 f w' d r' n' m' res')
  show ?case
  proof
    assume "das_State (dam_cells m' ! r') = DcAuthExport"
    with 1(4) dc_quietD [OF 1(5,6), of n'] 1(3) [OF _ 1(5), of d "Suc n'" "dw_others w' n' m'"] show False
      by (auto simp: dc_turn_def split: bind_splits)
  qed
qed (use assms in auto)

text \<open>A run outlives the table: after Cleanup the loop finishes on its own entry, and the data center is not authorized.\<close>

lemma cleanup_forgets: "\<not> IsAuthorized d (DcAuth_Cleanup m)" "GetState d (DcAuth_Cleanup m) = DcAuthWaiting"
  by (simp_all add: IsAuthorized_def GetState_def DcAuth_Cleanup_def)

end
