(* ===== verification/Session_Loops.thy ===== *)
theory Session_Loops
  imports Outbound_Batcher "HOL-Library.Signed_Division" "HOL-Library.Sublist"
begin

text \<open>
  The timer loops of a session, \<^verbatim>\<open>src/internal/session/session.go\<close>: acknowledgements, pings with the measured round-trip time,
  future salts. A loop is a function of the events its select statement receives, in order; each event comes with
  what other goroutines did to the session before it and with the environment (clock, writer) of that turn. An event
  that is not ready in the state it arrives in changes nothing. Durations and times are nanoseconds.
\<close>

section \<open>Round-trip times\<close>

record rtt =
  rt_EWMA :: int
  rt_Variance :: int

definition recordPingRTT :: "int \<Rightarrow> rtt \<Rightarrow> rtt" where
  "recordPingRTT sample t =
     (if rt_EWMA t > 0
      then let delta = rt_EWMA t - sample;
               delta' = (if delta < 0 then - delta else delta)
           in \<lparr>rt_EWMA = (7 * rt_EWMA t + sample) sdiv 8, rt_Variance = (3 * rt_Variance t + delta') sdiv 4\<rparr>
      else \<lparr>rt_EWMA = sample, rt_Variance = sample sdiv 2\<rparr>)"

definition adaptivePongTimeout :: "int \<Rightarrow> rtt \<Rightarrow> int" where
  "adaptivePongTimeout pongTimeout t =
     (let configured = (if pongTimeout \<le> 0 then 30 * go_second else pongTimeout)
      in if rt_EWMA t \<le> 0 then configured
         else max (max (rt_EWMA t + 4 * rt_Variance t) go_second) configured)"

definition adaptiveReadTimeout :: "int \<Rightarrow> session \<Rightarrow> rtt \<Rightarrow> int" where
  "adaptiveReadTimeout pingInterval s t =
     (let idle = (if pingInterval * 2 < 30 * go_second then 30 * go_second else pingInterval * 2)
      in if \<not> pm_totalPending (ss_pending s) > 0 then idle
         else if rt_EWMA t \<le> 0 then idle
         else min (max (rt_EWMA t * 4 + 4 * rt_Variance t) (15 * go_second)) idle)"

text \<open>The delay after which the server closes the connection, in seconds, as an int32.\<close>

definition disconnect_delay :: "int \<Rightarrow> int \<Rightarrow> u32" where
  "disconnect_delay pingInterval pongTimeout =
     (let d = word_of_int ((pingInterval + pongTimeout + go_second - 1) sdiv go_second) :: u32
      in if sint d < 1 then 1 else d)"

section \<open>Acknowledgements\<close>

datatype loop_error = LoopCancelled | FlushFailed session_error | PingWriteFailed session_error | PongTimedOut

definition ackFlushThreshold :: nat where "ackFlushThreshold = 16"

record ack_state =
  ak_buf :: "i64 list"
  ak_seen :: "i64 list"

definition Encode_MsgsAck :: "i64 list \<Rightarrow> bytes" where
  "Encode_MsgsAck ids = WriteVectorLong (WriteInt [] MsgsAckTypeID) ids"

text \<open>The closure flush: its error, the batch it sent, and what it leaves.\<close>

definition ack_flush :: "env \<Rightarrow> ack_state \<Rightarrow> session \<Rightarrow> session_error option \<times> i64 list list \<times> ack_state \<times> session" where
  "ack_flush e a s =
     (if ak_buf a = [] then (None, [], a, s)
      else case sendServiceMessage e (Encode_MsgsAck (ak_buf a)) s of
             (Some err, s1) \<Rightarrow> (Some err, [], a, s1)
           | (None, s1) \<Rightarrow> (None, [ak_buf a], \<lparr>ak_buf = [], ak_seen = []\<rparr>, s1))"

datatype ack_event = AckReceive | AckTick | AckCtxDone

definition ack_flush_turn ::
  "env \<Rightarrow> ack_state \<Rightarrow> session \<Rightarrow> loop_error option \<times> i64 list list \<times> ack_state \<times> session" where
  "ack_flush_turn e a s =
     (let (err, sent, a1, s1) = ack_flush e a s in (map_option FlushFailed err, sent, a1, s1))"

text \<open>One turn of ackLoop: the error it returns, if it does; the id it took from the channel; the batch it sent.\<close>

fun ack_turn ::
  "env \<Rightarrow> ack_event \<Rightarrow> ack_state \<Rightarrow> session \<Rightarrow> loop_error option \<times> i64 list \<times> i64 list list \<times> ack_state \<times> session" where
  "ack_turn e AckCtxDone a s = (let (_, sent, a1, s1) = ack_flush e a s in (Some LoopCancelled, [], sent, a1, s1))"
| "ack_turn e AckTick a s = (let (res, sent, a1, s1) = ack_flush_turn e a s in (res, [], sent, a1, s1))"
| "ack_turn e AckReceive a s =
     (case ss_ackCh s of
        [] \<Rightarrow> (None, [], [], a, s)
      | msgID # rest \<Rightarrow>
          let s1 = s\<lparr>ss_ackCh := rest\<rparr>
          in if msgID \<in> set (ak_seen a) then (None, [msgID], [], a, s1)
             else let a1 = \<lparr>ak_buf = ak_buf a @ [msgID], ak_seen = msgID # ak_seen a\<rparr>
                  in if length (ak_buf a1) \<ge> ackFlushThreshold
                     then (let (res, sent, a2, s2) = ack_flush_turn e a1 s1 in (res, [msgID], sent, a2, s2))
                     else (None, [msgID], [], a1, s1))"

type_synonym 'ev loop_input = "env \<times> (session \<Rightarrow> session) \<times> 'ev"

fun ack_loop_run ::
  "ack_event loop_input list \<Rightarrow> ack_state \<Rightarrow> session \<Rightarrow> loop_error option \<times> i64 list \<times> i64 list list \<times> ack_state \<times> session" where
  "ack_loop_run [] a s = (None, [], [], a, s)"
| "ack_loop_run ((e, meanwhile, ev) # evs) a s =
     (case ack_turn e ev a (meanwhile s) of
        (Some err, taken, sent, a1, s1) \<Rightarrow> (Some err, taken, sent, a1, s1)
      | (None, taken, sent, a1, s1) \<Rightarrow>
          (let (res, taken', sent', a2, s2) = ack_loop_run evs a1 s1 in (res, taken @ taken', sent @ sent', a2, s2)))"

definition ackLoop :: "ack_event loop_input list \<Rightarrow> session \<Rightarrow> loop_error option \<times> i64 list \<times> i64 list list \<times> ack_state \<times> session" where
  "ackLoop evs s = ack_loop_run evs \<lparr>ak_buf = [], ak_seen = []\<rparr> s"

section \<open>Pings\<close>

definition PingDelayDisconnectTypeID :: u32 where "PingDelayDisconnectTypeID = 0xf3427b8c"

definition Encode_PingDelayDisconnect :: "i64 \<Rightarrow> u32 \<Rightarrow> bytes" where
  "Encode_PingDelayDisconnect pingID delay = WriteInt (WriteLong (WriteInt [] PingDelayDisconnectTypeID) pingID) delay"

text \<open>The ping that is waited for, with the time it was sent, and the measurements.\<close>

record ping_state =
  pg_wait :: "(i64 \<times> int) option"
  pg_rtt :: rtt

datatype ping_event = PingTick int | PingAnswered int | PongTimer | PingCtxDone

definition ping_jitter :: "i64 \<Rightarrow> int \<Rightarrow> int" where
  "ping_jitter sessionID pingInterval = uint sessionID mod pingInterval"

definition removePingCallback :: "i64 \<Rightarrow> session \<Rightarrow> session" where
  "removePingCallback pingID s = s\<lparr>ss_pingCbs := AList.delete pingID (ss_pingCbs s)\<rparr>"

definition send_ping :: "int \<Rightarrow> int \<Rightarrow> env \<Rightarrow> int \<Rightarrow> ping_state \<Rightarrow> session \<Rightarrow> loop_error option \<times> ping_state \<times> session" where
  "send_ping pingInterval pongTimeout e now p s =
     (let pingID = word_of_int now :: i64;
          delay = disconnect_delay pingInterval (adaptivePongTimeout pongTimeout (pg_rtt p));
          s1 = s\<lparr>ss_pingCbs := AList.update pingID () (ss_pingCbs s)\<rparr>
      in case sendServiceMessage e (Encode_PingDelayDisconnect pingID delay) s1 of
           (Some err, s2) \<Rightarrow> (Some (PingWriteFailed err), p, removePingCallback pingID s2)
         | (None, s2) \<Rightarrow> (None, p\<lparr>pg_wait := Some (pingID, now)\<rparr>, s2))"

text \<open>The channel of a ping is closed when its callback is gone from the table.\<close>

definition ping_turn ::
  "int \<Rightarrow> int \<Rightarrow> env \<Rightarrow> ping_event \<Rightarrow> ping_state \<Rightarrow> session \<Rightarrow> loop_error option \<times> ping_state \<times> session" where
  "ping_turn pingInterval pongTimeout e ev p s =
     (case pg_wait p of
        None \<Rightarrow>
          (case ev of
             PingTick now \<Rightarrow> send_ping pingInterval pongTimeout e now p s
           | PingCtxDone \<Rightarrow> (Some LoopCancelled, p, s)
           | _ \<Rightarrow> (None, p, s))
      | Some (pingID, started) \<Rightarrow>
          (case ev of
             PingAnswered now \<Rightarrow>
               if map_of (ss_pingCbs s) pingID = None
               then (None, \<lparr>pg_wait = None, pg_rtt = recordPingRTT (now - started) (pg_rtt p)\<rparr>, s)
               else (None, p, s)
           | PongTimer \<Rightarrow> (Some PongTimedOut, p\<lparr>pg_wait := None\<rparr>, removePingCallback pingID s)
           | PingCtxDone \<Rightarrow> (Some LoopCancelled, p\<lparr>pg_wait := None\<rparr>, removePingCallback pingID s)
           | PingTick _ \<Rightarrow> (None, p, s)))"

fun ping_run ::
  "int \<Rightarrow> int \<Rightarrow> ping_event loop_input list \<Rightarrow> ping_state \<Rightarrow> session \<Rightarrow> loop_error option \<times> ping_state \<times> session" where
  "ping_run iv pt [] p s = (None, p, s)"
| "ping_run iv pt ((e, meanwhile, ev) # evs) p s =
     (case ping_turn iv pt e ev p (meanwhile s) of
        (Some err, p1, s1) \<Rightarrow> (Some err, p1, s1)
      | (None, p1, s1) \<Rightarrow> ping_run iv pt evs p1 s1)"

text \<open>With no interval the loop only waits for the end; the initial jitter delays the first tick.\<close>

definition pingLoop ::
  "int \<Rightarrow> int \<Rightarrow> ping_event loop_input list \<Rightarrow> rtt \<Rightarrow> session \<Rightarrow> loop_error option \<times> ping_state \<times> session" where
  "pingLoop pingInterval pongTimeout evs t s =
     ping_run pingInterval pongTimeout
       (if pingInterval \<le> 0 then filter (\<lambda>(_, _, ev). ev = PingCtxDone) evs else evs) \<lparr>pg_wait = None, pg_rtt = t\<rparr> s"

section \<open>Salts\<close>

definition saltPrefetchRetryBase :: int where "saltPrefetchRetryBase = 5 * go_second"
definition saltPrefetchMaxRetries :: nat where "saltPrefetchMaxRetries = 3"

text \<open>What one attempt meets: the environment when it starts and after the wait, whether the context is over before the
  request and during the wait, and what happens to the session in the wait.\<close>

record salt_attempt =
  sa_env :: env
  sa_env' :: env
  sa_over :: bool
  sa_over' :: bool
  sa_others :: "session \<Rightarrow> session"

text \<open>The requests sent, the time waited and the session, for \<open>left\<close> attempts from number \<open>i\<close> on.\<close>

fun fetch_attempts :: "nat \<Rightarrow> (nat \<Rightarrow> salt_attempt) \<Rightarrow> nat \<Rightarrow> session \<Rightarrow> nat \<times> int \<times> session" where
  "fetch_attempts 0 w i s = (0, 0, s)"
| "fetch_attempts (Suc left) w i s =
     (if sa_over (w i) \<or> \<not> sm_isActive (ss_state s) then (0, 0, s)
      else let s1 = snd (sendServiceMessage (sa_env (w i)) (WriteInt (WriteInt [] GetFutureSaltsTypeID) numFutureSalts) s);
               s2 = sa_others (w i) s1
           in if sa_over' (w i) then (1, 0, s2)
              else let (expired, sm) = IsExpired (salt_now (sa_env' (w i)) s2) (ss_saltMgr s2);
                       s3 = s2\<lparr>ss_saltMgr := sm\<rparr>;
                       pause = saltPrefetchRetryBase * 2 ^ i
                   in if \<not> expired then (1, pause, s3)
                      else let (n, t, s4) = fetch_attempts left w (Suc i) s3 in (Suc n, pause + t, s4))"

definition fetchSaltsWithRetry :: "(nat \<Rightarrow> salt_attempt) \<Rightarrow> session \<Rightarrow> nat \<times> int \<times> session" where
  "fetchSaltsWithRetry w s = fetch_attempts saltPrefetchMaxRetries w 0 s"

text \<open>How long saltLoop waits before the next refresh.\<close>

definition salt_wait :: "(int \<Rightarrow> rat \<Rightarrow> int) \<Rightarrow> int \<Rightarrow> salt_manager \<Rightarrow> int" where
  "salt_wait fmul now m =
     (let wait = nextRefreshInLocked fmul now m in if wait \<le> 0 then defaultSaltRefreshMin else wait)"

section \<open>Acknowledgements are sent\<close>

lemma sendServiceMessage_keeps:
  "ss_ackCh (snd (sendServiceMessage e body s)) = ss_ackCh s"
  "ss_pingCbs (snd (sendServiceMessage e body s)) = ss_pingCbs s"
  by (simp_all add: sendServiceMessage_def buildServiceMessage_def writeEncryptedImpl_def case_prod_beta Let_def split: option.split)

definition ack_inv :: "ack_state \<Rightarrow> bool" where
  "ack_inv a \<longleftrightarrow> distinct (ak_buf a) \<and> set (ak_seen a) = set (ak_buf a) \<and> length (ak_buf a) < ackFlushThreshold"

text \<open>What a run makes of the ids it holds and takes.\<close>

definition ack_account :: "ack_state \<Rightarrow> i64 list \<Rightarrow> i64 list list \<Rightarrow> ack_state \<Rightarrow> bool" where
  "ack_account a taken sent a' \<longleftrightarrow>
     subseq (concat sent @ ak_buf a') (ak_buf a @ taken) \<and>
     set (concat sent) \<union> set (ak_buf a') = set (ak_buf a) \<union> set taken \<and>
     (\<forall>b \<in> set sent. distinct b \<and> b \<noteq> [] \<and> length b \<le> ackFlushThreshold)"

lemma ack_flush_cases:
  assumes "ack_flush e a s = (err, sent, a', s')"
  obtains "err = None" "sent = []" "ak_buf a = []" "a' = a" | "err = None" "sent = [ak_buf a]" "ak_buf a \<noteq> []" "a' = \<lparr>ak_buf = [], ak_seen = []\<rparr>"
  | "err \<noteq> None" "sent = []" "a' = a"
  using assms by (auto simp: ack_flush_def split: if_splits prod.splits option.splits)

lemma ack_flush_account:
  assumes "ack_flush e a s = (err, sent, a', s')" and "distinct (ak_buf a)" and "set (ak_seen a) = set (ak_buf a)"
    and "length (ak_buf a) \<le> ackFlushThreshold" and "ak_buf a = b @ t" and "b' = b"
  shows "subseq (concat sent @ ak_buf a') (b' @ t) \<and> set (concat sent) \<union> set (ak_buf a') = set b' \<union> set t \<and>
    (\<forall>b \<in> set sent. distinct b \<and> b \<noteq> [] \<and> length b \<le> ackFlushThreshold) \<and>
    (err = None \<longrightarrow> ak_buf a' = [] \<and> ack_inv a')"
  using assms(1) by (rule ack_flush_cases) (use assms(2-) in \<open>auto simp: ack_inv_def ackFlushThreshold_def\<close>)

lemma ack_turn_account:
  assumes "ack_inv a" and "ack_turn e ev a s = (res, taken, sent, a', s')"
  shows "ack_account a taken sent a' \<and> (res = None \<longrightarrow> ack_inv a') \<and> (res = None \<and> ev = AckTick \<longrightarrow> ak_buf a' = [])"
proof (cases ev)
  case AckCtxDone
  with assms obtain err where "ack_flush e a s = (err, sent, a', s')" "taken = []" "res \<noteq> None"
    by (auto split: prod.splits)
  with ack_flush_account [OF this(1), of "ak_buf a" "[]"] assms(1) AckCtxDone show ?thesis
    by (auto simp: ack_account_def ack_inv_def)
next
  case AckTick
  with assms obtain err where "ack_flush e a s = (err, sent, a', s')" "taken = []" "res = map_option FlushFailed err"
    by (auto simp: ack_flush_turn_def split: prod.splits)
  with ack_flush_account [OF this(1), of "ak_buf a" "[]"] assms(1) show ?thesis
    by (auto simp: ack_account_def ack_inv_def)
next
  case AckReceive
  show ?thesis
  proof (cases "ss_ackCh s")
    case Nil
    with assms AckReceive show ?thesis by (auto simp: ack_account_def)
  next
    case (Cons m rest)
    show ?thesis
    proof (cases "m \<in> set (ak_seen a)")
      case True
      with assms AckReceive Cons have r: "res = None" "taken = [m]" "sent = []" "a' = a" by simp_all
      have "subseq (ak_buf a) (ak_buf a @ [m])" by (rule list_emb_prefix) simp
      with r assms(1) True AckReceive show ?thesis by (simp add: ack_account_def ack_inv_def insert_absorb)
    next
      case False
      define a1 where "a1 = \<lparr>ak_buf = ak_buf a @ [m], ak_seen = m # ak_seen a\<rparr>"
      have a1: "distinct (ak_buf a1)" "set (ak_seen a1) = set (ak_buf a1)" "length (ak_buf a1) \<le> ackFlushThreshold"
        using assms(1) False by (auto simp: a1_def ack_inv_def)
      show ?thesis
      proof (cases "length (ak_buf a1) \<ge> ackFlushThreshold")
        case True
        with assms(2) AckReceive Cons False obtain err s1 where "ack_flush e a1 s1 = (err, sent, a', s')" "taken = [m]"
          "res = map_option FlushFailed err"
          by (auto simp: a1_def [symmetric] ack_flush_turn_def Let_def split: prod.splits if_splits)
        with ack_flush_account [OF this(1) a1, of "ak_buf a" "[m]"] AckReceive show ?thesis
          by (auto simp: ack_account_def a1_def)
      next
        case False2: False
        with assms(2) AckReceive Cons False have "res = None" "taken = [m]" "sent = []" "a' = a1"
          by (auto simp: a1_def Let_def)
        with a1 False2 AckReceive show ?thesis by (auto simp: ack_account_def ack_inv_def a1_def)
      qed
    qed
  qed
qed

lemma ack_account_trans:
  assumes "ack_account a t1 b1 a1" and "ack_account a1 t2 b2 a2"
  shows "ack_account a (t1 @ t2) (b1 @ b2) a2"
proof -
  have "subseq (concat b1 @ concat b2 @ ak_buf a2) (concat b1 @ ak_buf a1 @ t2)"
    by (rule list_emb_append_mono) (use assms(2) in \<open>auto simp: ack_account_def\<close>)
  moreover have "subseq ((concat b1 @ ak_buf a1) @ t2) ((ak_buf a @ t1) @ t2)"
    by (rule list_emb_append_mono) (use assms(1) in \<open>auto simp: ack_account_def\<close>)
  ultimately have "subseq (concat b1 @ concat b2 @ ak_buf a2) (ak_buf a @ t1 @ t2)"
    using subseq_order.trans by fastforce
  then show ?thesis using assms by (auto simp: ack_account_def)
qed

lemma ack_loop_run_account:
  assumes "ack_inv a" and "ack_loop_run evs a s = (res, taken, sent, a', s')"
  shows "ack_account a taken sent a' \<and> (res = None \<and> evs \<noteq> [] \<and> snd (snd (last evs)) = AckTick \<longrightarrow> ak_buf a' = [])"
  using assms
proof (induction evs arbitrary: a s res taken sent s')
  case Nil
  then show ?case by (auto simp: ack_account_def)
next
  case (Cons x evs)
  obtain e f ev where x: "x = (e, f, ev)" by (metis prod_cases3)
  obtain res1 t1 b1 a1 s1 where t: "ack_turn e ev a (f s) = (res1, t1, b1, a1, s1)" by (metis prod_cases5)
  note h = ack_turn_account [OF Cons.prems(1) t]
  show ?case
  proof (cases res1)
    case None
    obtain t2 b2 s2 where r: "ack_loop_run evs a1 s1 = (res, t2, b2, a', s2)" "taken = t1 @ t2" "sent = b1 @ b2"
      using Cons.prems(2) t None by (auto simp: x split: prod.splits)
    with Cons.IH [OF _ r(1)] h None ack_account_trans [of a t1 b1 a1 t2 b2 a'] show ?thesis
      by (auto simp: x)
  next
    case (Some err)
    with Cons.prems(2) t h show ?thesis by (auto simp: x)
  qed
qed

text \<open>Property C26 (safety): acknowledgements are neither lost nor repeated while they are batched. For every sequence of received
  ids, ticks and write results: the ids sent together with those still held are, in order, ids taken from the channel,
  none twice unless it arrived twice, and every id taken is among them; every batch has between 1 and 16 different ids;
  and after a tick without an error nothing is held back.\<close>

theorem acks_sent_in_batches:
  assumes "ackLoop evs s = (res, taken, sent, a, s')"
  shows "subseq (concat sent @ ak_buf a) taken \<and> set (concat sent) \<union> set (ak_buf a) = set taken \<and>
         (\<forall>b \<in> set sent. distinct b \<and> b \<noteq> [] \<and> length b \<le> 16) \<and>
         (res = None \<and> evs \<noteq> [] \<and> snd (snd (last evs)) = AckTick \<longrightarrow> ak_buf a = [])"
  using ack_loop_run_account [OF _ assms [unfolded ackLoop_def]]
  by (auto simp: ack_account_def ack_inv_def ackFlushThreshold_def)

theorem acks_sent_in_batches_witness:
  "\<exists>taken sent a s'. ackLoop [(plain_env 1000, id, AckReceive), (plain_env 1000, addAck 8, AckReceive), (plain_env 1000, id, AckReceive)]
       ((NewSession 1)\<lparr>ss_ackCh := [8, 12]\<rparr>) = (None, taken, sent, a, s') \<and>
     taken = [8, 12, 8] \<and> ak_buf a = [8, 12] \<and> subseq (concat sent @ ak_buf a) taken"
proof -
  let ?evs = "[(plain_env 1000, id, AckReceive), (plain_env 1000, addAck 8, AckReceive), (plain_env 1000, id, AckReceive)]"
  let ?s = "(NewSession 1)\<lparr>ss_ackCh := [8, 12]\<rparr>"
  have r: "ackLoop ?evs ?s = (None, [8, 12, 8], [], \<lparr>ak_buf = [8, 12], ak_seen = [12, 8]\<rparr>, ?s\<lparr>ss_ackCh := []\<rparr>)"
    by (simp add: ackLoop_def ackFlushThreshold_def addAck_def NewSession_def)
  from acks_sent_in_batches [OF r] r show ?thesis by auto
qed

section \<open>Pings\<close>

lemma delete_last_key: "fst ` set m \<subseteq> {k} \<Longrightarrow> AList.delete k m = []"
  by (auto simp: gm_delete_filter filter_empty_conv)

definition ping_inv :: "ping_state \<Rightarrow> session \<Rightarrow> bool" where
  "ping_inv p s \<longleftrightarrow> fst ` set (ss_pingCbs s) \<subseteq> (case pg_wait p of None \<Rightarrow> {} | Some (pingID, _) \<Rightarrow> {pingID})"

lemma send_ping_inv:
  assumes "pg_wait p = None" and "ping_inv p s" and "send_ping iv pt e now p s = (res, p', s')"
  shows "ping_inv p' s' \<and> (res \<noteq> None \<longrightarrow> ss_pingCbs s' = [])"
proof -
  define i where "i = (word_of_int now :: i64)"
  have s: "ss_pingCbs s = []" using assms(1,2) by (simp add: ping_inv_def)
  define s1 where "s1 = s\<lparr>ss_pingCbs := [(i, ())]\<rparr>"
  define d where "d = disconnect_delay iv (adaptivePongTimeout pt (pg_rtt p))"
  obtain err s2 where w: "sendServiceMessage e (Encode_PingDelayDisconnect i d) s1 = (err, s2)" by fastforce
  have "ss_pingCbs s2 = [(i, ())]"
    using sendServiceMessage_keeps(2) [of e "Encode_PingDelayDisconnect i d" s1] w s by (simp add: s1_def)
  then show ?thesis
    using assms w s by (auto simp: send_ping_def Let_def i_def [symmetric] d_def [symmetric] s1_def [symmetric] ping_inv_def
        removePingCallback_def split: option.splits)
qed

lemma ping_turn_inv:
  assumes "ping_inv p s" and "ping_turn iv pt e ev p s = (res, p', s')"
  shows "ping_inv p' s' \<and> (res \<noteq> None \<longrightarrow> ss_pingCbs s' = [])"
proof (cases "pg_wait p")
  case None
  with assms show ?thesis
    using send_ping_inv [OF None assms(1), of iv pt e] by (cases ev) (auto simp: ping_turn_def ping_inv_def)
next
  case (Some w)
  obtain i t where w: "w = (i, t)" by fastforce
  have "AList.delete i (ss_pingCbs s) = []" using assms(1) Some w by (intro delete_last_key) (simp add: ping_inv_def)
  moreover have "ss_pingCbs s = []" if "map_of (ss_pingCbs s) i = None"
  proof -
    have "fst ` set (ss_pingCbs s) \<subseteq> {i}" using assms(1) Some w by (simp add: ping_inv_def)
    moreover have "i \<notin> fst ` set (ss_pingCbs s)" using that by (simp add: map_of_eq_None_iff)
    ultimately have "fst ` set (ss_pingCbs s) = {}" by (metis subset_singletonD singletonI)
    then show ?thesis by simp
  qed
  ultimately show ?thesis
    using assms Some w by (cases ev) (auto simp: ping_turn_def ping_inv_def removePingCallback_def split: if_splits)
qed

lemma ping_run_inv:
  assumes "\<And>e f ev s. (e, f, ev) \<in> set evs \<Longrightarrow> set (ss_pingCbs (f s)) \<subseteq> set (ss_pingCbs s)"
    and "ping_inv p s" and "ping_run iv pt evs p s = (res, p', s')"
  shows "ping_inv p' s' \<and> (res \<noteq> None \<longrightarrow> ss_pingCbs s' = [])"
  using assms
proof (induction evs arbitrary: p s)
  case (Cons x evs)
  obtain e f ev where x: "x = (e, f, ev)" by (metis prod_cases3)
  have "set (ss_pingCbs (f s)) \<subseteq> set (ss_pingCbs s)" using Cons.prems(1) [of e f ev s] by (simp add: x)
  with Cons.prems(2) have "ping_inv p (f s)" by (force simp: ping_inv_def split: option.splits)
  moreover obtain r1 p1 s1 where t: "ping_turn iv pt e ev p (f s) = (r1, p1, s1)" by (metis prod_cases3)
  ultimately have i: "ping_inv p1 s1 \<and> (r1 \<noteq> None \<longrightarrow> ss_pingCbs s1 = [])" by (rule ping_turn_inv)
  show ?case
  proof (cases r1)
    case None
    with Cons.prems(3) t have "ping_run iv pt evs p1 s1 = (res, p', s')" by (simp add: x)
    with Cons.IH [of p1 s1] Cons.prems(1) i show ?thesis by (simp add: x) blast
  qed (use Cons.prems(3) t i in \<open>auto simp: x\<close>)
qed auto

text \<open>The ping loop leaves nothing behind. Whatever ticks, answers, timeouts and write errors arrive, if
  the other goroutines only remove ping callbacks, then the table never holds a callback other than that of the one
  ping the loop waits for, and none once the loop has ended.\<close>

theorem ping_loop_cleans_up:
  assumes "\<And>e f ev s. (e, f, ev) \<in> set evs \<Longrightarrow> set (ss_pingCbs (f s)) \<subseteq> set (ss_pingCbs s)"
    and "ss_pingCbs s = []" and "pingLoop iv pt evs t s = (res, p, s')"
  shows "length (remdups (map fst (ss_pingCbs s'))) \<le> 1 \<and>
         (\<forall>k. k \<in> fst ` set (ss_pingCbs s') \<longrightarrow> (\<exists>started. pg_wait p = Some (k, started))) \<and>
         (res \<noteq> None \<longrightarrow> ss_pingCbs s' = [])"
proof -
  let ?evs = "if iv \<le> 0 then filter (\<lambda>(_, _, ev). ev = PingCtxDone) evs else evs"
  have "ping_inv p s' \<and> (res \<noteq> None \<longrightarrow> ss_pingCbs s' = [])"
  proof (rule ping_run_inv [of ?evs "\<lparr>pg_wait = None, pg_rtt = t\<rparr>" s iv pt])
    show "set (ss_pingCbs (f u)) \<subseteq> set (ss_pingCbs u)" if "(e, f, ev) \<in> set ?evs" for e f ev u
      using assms(1) [of e f ev u] that by (auto split: if_splits)
    show "ping_run iv pt ?evs \<lparr>pg_wait = None, pg_rtt = t\<rparr> s = (res, p, s')"
      using assms(3) by (simp only: pingLoop_def)
  qed (simp add: ping_inv_def assms(2))
  moreover have "length (remdups xs) \<le> 1" if "set xs \<subseteq> {k}" for xs :: "i64 list" and k
    using card_mono [OF _ that] by (simp add: length_remdups_card_conv)
  ultimately show ?thesis by (auto simp: ping_inv_def split: option.splits)
qed

theorem ping_loop_cleans_up_witness:
  "\<exists>p s'. pingLoop (60 * go_second) (30 * go_second) [(plain_env 1000, id, PingTick 5), (plain_env 1000, id, PongTimer)]
       \<lparr>rt_EWMA = 0, rt_Variance = 0\<rparr> (NewSession 1000) = (Some PongTimedOut, p, s') \<and> ss_pingCbs s' = []"
proof -
  let ?evs = "[(plain_env 1000, id, PingTick 5), (plain_env 1000, id, PongTimer)]"
  let ?t = "\<lparr>rt_EWMA = 0, rt_Variance = 0\<rparr>"
  let ?s1 = "(NewSession 1000)\<lparr>ss_pingCbs := [(5, ())]\<rparr>"
  have w: "fst (sendServiceMessage (plain_env 1000) (Encode_PingDelayDisconnect 5 d) ?s1) = None" for d
    by (simp add: sendServiceMessage_def buildServiceMessage_def writeEncryptedImpl_def write_admitted_def NewSession_def plain_env_def
        new_guards_def newStateMachine_def case_prod_beta Let_def)
  obtain p s' where r: "pingLoop (60 * go_second) (30 * go_second) ?evs ?t (NewSession 1000) = (Some PongTimedOut, p, s')"
  proof -
    obtain s2 where s2: "sendServiceMessage (plain_env 1000)
        (Encode_PingDelayDisconnect 5 (disconnect_delay (60 * go_second) (adaptivePongTimeout (30 * go_second) ?t))) ?s1 = (None, s2)"
      using w by (metis prod.exhaust_sel)
    have "ss_pingCbs (NewSession 1000) = []" by (simp add: NewSession_def)
    with s2 show ?thesis
      by (intro that) (simp add: pingLoop_def ping_turn_def send_ping_def Let_def go_second_def)
  qed
  moreover have "ss_pingCbs (NewSession 1000) = []" by (simp add: NewSession_def)
  ultimately have "ss_pingCbs s' = []"
    by (intro ping_loop_cleans_up [OF _ _ r, THEN conjunct2, THEN conjunct2, rule_format]) auto
  with r show ?thesis by blast
qed

section \<open>Timeouts\<close>

definition rtt_in :: "int \<Rightarrow> int \<Rightarrow> rtt \<Rightarrow> bool" where
  "rtt_in lo hi t \<longleftrightarrow> lo \<le> rt_EWMA t \<and> rt_EWMA t \<le> hi \<and> 0 \<le> rt_Variance t \<and> rt_Variance t \<le> hi"

lemma sdiv_nonneg: "0 \<le> (a :: int) \<Longrightarrow> 0 < b \<Longrightarrow> a sdiv b = a div b"
  by (simp add: signed_divide_int_def sgn_if)

lemma recordPingRTT_in:
  assumes "0 \<le> lo" and "lo \<le> sample" and "sample \<le> hi" and "rt_EWMA t \<le> 0 \<or> rtt_in lo hi t"
  shows "rtt_in lo hi (recordPingRTT sample t)"
proof (cases "rt_EWMA t > 0")
  case True
  with assms have t: "lo \<le> rt_EWMA t" "rt_EWMA t \<le> hi" "0 \<le> rt_Variance t" "rt_Variance t \<le> hi" by (auto simp: rtt_in_def)
  define delta where "delta = (if rt_EWMA t - sample < 0 then - (rt_EWMA t - sample) else rt_EWMA t - sample)"
  have d: "0 \<le> delta" "delta \<le> hi" using assms t by (auto simp: delta_def)
  have "(7 * rt_EWMA t + sample) sdiv 8 = (7 * rt_EWMA t + sample) div 8"
    "(3 * rt_Variance t + delta) sdiv 4 = (3 * rt_Variance t + delta) div 4"
    using assms t d by (simp_all add: sdiv_nonneg)
  moreover have "recordPingRTT sample t = \<lparr>rt_EWMA = (7 * rt_EWMA t + sample) sdiv 8, rt_Variance = (3 * rt_Variance t + delta) sdiv 4\<rparr>"
    using True by (simp only: recordPingRTT_def delta_def Let_def if_True)
  moreover have "lo \<le> (7 * rt_EWMA t + sample) div 8" "(7 * rt_EWMA t + sample) div 8 \<le> hi"
    "0 \<le> (3 * rt_Variance t + delta) div 4" "(3 * rt_Variance t + delta) div 4 \<le> hi"
    using assms(2,3) t d by linarith+
  ultimately show ?thesis by (simp add: rtt_in_def)
next
  case False
  with assms show ?thesis by (simp add: rtt_in_def recordPingRTT_def sdiv_nonneg)
qed

lemma samples_in:
  assumes "0 \<le> lo" and "\<And>x. x \<in> set samples \<Longrightarrow> lo \<le> x \<and> x \<le> hi" and "samples \<noteq> []"
  shows "rtt_in lo hi (fold recordPingRTT samples \<lparr>rt_EWMA = 0, rt_Variance = 0\<rparr>)"
  using assms(2,3)
proof (induction samples rule: rev_induct)
  case (snoc x xs)
  then show ?case using assms(1) by (cases "xs = []") (auto intro!: recordPingRTT_in)
qed simp

lemma disconnect_delay_covers:
  assumes "0 < iv + pt" and "iv + pt \<le> 2147483647 * go_second"
  shows "iv + pt \<le> sint (disconnect_delay iv pt) * go_second \<and> sint (disconnect_delay iv pt) * go_second < iv + pt + go_second"
proof -
  define n where "n = (iv + pt + go_second - 1) div go_second"
  have n: "1 \<le> n" "n \<le> 2147483647" "iv + pt \<le> n * go_second" "n * go_second < iv + pt + go_second"
    using assms by (auto simp: n_def go_second_def)
  have "(iv + pt + go_second - 1) sdiv go_second = n" using assms(1) by (simp add: n_def sdiv_nonneg go_second_def)
  moreover have "sint (word_of_int n :: u32) = n" using n by (simp add: signed_of_int signed_take_bit_int_eq_self)
  ultimately have "sint (disconnect_delay iv pt) = n" using n(1) by (simp add: disconnect_delay_def)
  with n show ?thesis by simp
qed

text \<open>Property C31 (bounds): the adaptive timeouts stay between the configured values and what the measurements justify. If all
  measured round trips lie between \<open>lo\<close> and \<open>hi\<close>, so does their average; the pong timeout is at least the
  configured one and at most the larger of it, a second and five times \<open>hi\<close>; the read timeout is between 15 seconds and
  the idle timeout; and the server is told to keep the connection until the next ping would have timed out,
  rounded up to the second.\<close>

theorem timeouts_bounded:
  assumes "0 \<le> lo" and "\<And>x. x \<in> set samples \<Longrightarrow> lo \<le> x \<and> x \<le> hi" and "samples \<noteq> []"
    and "t = fold recordPingRTT samples \<lparr>rt_EWMA = 0, rt_Variance = 0\<rparr>"
    and "0 < iv" and "0 < pt" and "iv + max pt (max go_second (5 * hi)) \<le> 2147483647 * go_second"
  shows "lo \<le> rt_EWMA t \<and> rt_EWMA t \<le> hi \<and>
         pt \<le> adaptivePongTimeout pt t \<and> adaptivePongTimeout pt t \<le> max pt (max go_second (5 * hi)) \<and>
         15 * go_second \<le> adaptiveReadTimeout iv s t \<and> adaptiveReadTimeout iv s t \<le> max (30 * go_second) (2 * iv) \<and>
         iv + adaptivePongTimeout pt t \<le> sint (disconnect_delay iv (adaptivePongTimeout pt t)) * go_second \<and>
         sint (disconnect_delay iv (adaptivePongTimeout pt t)) * go_second < iv + adaptivePongTimeout pt t + go_second"
proof -
  have r: "rtt_in lo hi t" unfolding assms(4) by (rule samples_in [OF assms(1-3)])
  then have p: "pt \<le> adaptivePongTimeout pt t" "adaptivePongTimeout pt t \<le> max pt (max go_second (5 * hi))"
    using assms(6) by (auto simp: adaptivePongTimeout_def rtt_in_def)
  have "15 * go_second \<le> adaptiveReadTimeout iv s t" "adaptiveReadTimeout iv s t \<le> max (30 * go_second) (2 * iv)"
    by (auto simp: adaptiveReadTimeout_def Let_def go_second_def)
  moreover have "0 < iv + adaptivePongTimeout pt t" "iv + adaptivePongTimeout pt t \<le> 2147483647 * go_second"
    using p assms(5-7) by auto
  ultimately show ?thesis using r p disconnect_delay_covers by (simp add: rtt_in_def)
qed

theorem timeouts_bounded_witness:
  "adaptivePongTimeout (30 * go_second) (fold recordPingRTT [40000000, 900000000, 7000000000] \<lparr>rt_EWMA = 0, rt_Variance = 0\<rparr>)
     \<le> 35 * go_second"
proof -
  let ?ss = "[40000000, 900000000, 7000000000] :: int list"
  have "x \<in> set ?ss \<Longrightarrow> 0 \<le> x \<and> x \<le> 7 * go_second" for x by (auto simp: go_second_def)
  then have "adaptivePongTimeout (30 * go_second) (fold recordPingRTT ?ss \<lparr>rt_EWMA = 0, rt_Variance = 0\<rparr>)
      \<le> max (30 * go_second) (max go_second (5 * (7 * go_second)))"
    by (intro timeouts_bounded [where lo = 0 and samples = ?ss and hi = "7 * go_second" and iv = "60 * go_second" and s = "NewSession 0",
          OF _ _ _ refl, THEN conjunct2, THEN conjunct2, THEN conjunct2, THEN conjunct1]) (auto simp: go_second_def)
  then show ?thesis by (simp add: go_second_def)
qed

section \<open>Salts\<close>

text \<open>A refresh sends at most three requests and takes at most 35 seconds; saltLoop never waits zero time.\<close>

lemma fetch_attempts_bounded:
  assumes "fetch_attempts left w i s = (n, d, s')"
  shows "n \<le> left \<and> 0 \<le> d \<and> d \<le> saltPrefetchRetryBase * (2 ^ (i + left) - 2 ^ i)"
  using assms
proof (induction left arbitrary: i s n d s')
  case (Suc left)
  let ?p = "saltPrefetchRetryBase * 2 ^ i"
  have mono: "?p \<le> saltPrefetchRetryBase * (2 ^ (i + Suc left) - 2 ^ i)" "0 \<le> ?p"
    "?p + saltPrefetchRetryBase * (2 ^ (Suc i + left) - 2 ^ Suc i) = saltPrefetchRetryBase * (2 ^ (i + Suc left) - 2 ^ i)"
    by (simp_all add: saltPrefetchRetryBase_def go_second_def power_add algebra_simps)
  then have nn: "0 \<le> saltPrefetchRetryBase * (2 ^ (i + Suc left) - 2 ^ i)" by linarith
  define s1 where "s1 = sa_others (w i) (snd (sendServiceMessage (sa_env (w i)) (WriteInt (WriteInt [] GetFutureSaltsTypeID) numFutureSalts) s))"
  show ?case
  proof (cases "sa_over (w i) \<or> \<not> sm_isActive (ss_state s) \<or> sa_over' (w i)")
    case True
    with Suc.prems nn show ?thesis by (auto simp: Let_def split: if_splits)
  next
    case False
    obtain ex sm where x: "IsExpired (salt_now (sa_env' (w i)) s1) (ss_saltMgr s1) = (ex, sm)" by fastforce
    obtain n1 d1 s2 where r: "fetch_attempts left w (Suc i) (s1\<lparr>ss_saltMgr := sm\<rparr>) = (n1, d1, s2)" by (metis prod_cases3)
    from Suc.IH [OF r] Suc.prems False x r mono nn show ?thesis
      by (auto simp: Let_def s1_def [symmetric] split: if_splits)
  qed
qed (simp add: saltPrefetchRetryBase_def go_second_def)

lemma salt_refresh_bounded:
  assumes "fetchSaltsWithRetry w s = (n, d, s')"
  shows "n \<le> 3 \<and> d \<le> 35 * go_second"
  using fetch_attempts_bounded [OF assms [unfolded fetchSaltsWithRetry_def]]
  by (simp add: saltPrefetchMaxRetries_def saltPrefetchRetryBase_def)

lemma salt_wait_pos: "0 < salt_wait fmul now m"
  by (simp add: salt_wait_def defaultSaltRefreshMin_def go_second_def Let_def)

end
