(* ===== verification/Session_Lifecycle.thy ===== *)
theory Session_Lifecycle
  imports Session_Receive
begin

text \<open>
  Start and end of a session, \<^verbatim>\<open>src/internal/session/session.go\<close>: ConnectContext, ConnectWithAuthContext,
  startContextLocked, runInitWithCtx, runLoop, RequestStop and the ownership of the transport. The chains, which a start resets too, belong to the sender. Connecting holds
  \<open>lifecycleMu\<close>, so the only other goroutine that matters is one that calls RequestStop; it may do so at
  the numbered points of an operation that \<open>stops\<close> selects. Transports are numbers; storage, the key
  exchange and the first ping are represented by their results.
\<close>

section \<open>State\<close>

text \<open>\<open>lc_stored\<close> is the key in the storage, if the session has one; \<open>lc_closed\<close> lists the transports closed so far;
  \<open>lc_doneClosed\<close> counts how often the present done channel was closed (twice is a panic); \<open>lc_running\<close> is
  whether runLoop runs.\<close>

record lifecycle =
  lc_session :: session
  lc_authKey :: bytes
  lc_stored :: "bytes option"
  lc_transport :: "nat option"
  lc_closed :: "nat list"
  lc_runCancel :: bool
  lc_cancelled :: bool
  lc_doneClosed :: nat
  lc_running :: bool

definition new_lifecycle :: "i64 \<Rightarrow> bytes \<Rightarrow> bool \<Rightarrow> lifecycle" where
  "new_lifecycle now authKey has_storage =
     \<lparr>lc_session = NewSession now, lc_authKey = authKey, lc_stored = (if has_storage then Some authKey else None),
      lc_transport = None, lc_closed = [], lc_runCancel = False, lc_cancelled = False, lc_doneClosed = 0, lc_running = False\<rparr>"

abbreviation lc_stopping :: "lifecycle \<Rightarrow> bool" where
  "lc_stopping l \<equiv> ss_stopping (lc_session l)"

abbreviation lc_state :: "lifecycle \<Rightarrow> session_state" where
  "lc_state l \<equiv> ss_state (lc_session l)"

definition on_session :: "(session \<Rightarrow> session) \<Rightarrow> lifecycle \<Rightarrow> lifecycle" where
  "on_session f l = l\<lparr>lc_session := f (lc_session l)\<rparr>"

definition SetAuthKey :: "bytes \<Rightarrow> lifecycle \<Rightarrow> lifecycle" where
  "SetAuthKey key l = l\<lparr>lc_authKey := key\<rparr>"

definition attachTransport :: "nat option \<Rightarrow> lifecycle \<Rightarrow> bool \<times> lifecycle" where
  "attachTransport t l =
     (if lc_stopping l then (False, case t of None \<Rightarrow> l | Some n \<Rightarrow> l\<lparr>lc_closed := lc_closed l @ [n]\<rparr>)
      else (True, l\<lparr>lc_transport := t\<rparr>))"

definition closeTransport :: "lifecycle \<Rightarrow> lifecycle" where
  "closeTransport l =
     (case lc_transport l of
        None \<Rightarrow> l
      | Some n \<Rightarrow> l\<lparr>lc_transport := None, lc_closed := lc_closed l @ [n]\<rparr>)"

text \<open>Closing the outbound batcher is not repeated here.\<close>

definition RequestStop :: "lifecycle \<Rightarrow> lifecycle" where
  "RequestStop l =
     closeTransport (on_session (\<lambda>s. s\<lparr>ss_stopping := True\<rparr>)
       (l\<lparr>lc_cancelled := lc_cancelled l \<or> lc_runCancel l\<rparr>))"

definition stop_at :: "(nat \<Rightarrow> bool) \<Rightarrow> nat \<Rightarrow> lifecycle \<Rightarrow> lifecycle" where
  "stop_at stops n l = (if stops n then RequestStop l else l)"

section \<open>Starting\<close>

definition not_connectable :: "lifecycle \<Rightarrow> session_error" where
  "not_connectable l = (if lc_state l = StateClosed then Sentinel ErrSessionClosed else OtherError)"

definition fresh_channels :: "session \<Rightarrow> session" where
  "fresh_channels s =
     s\<lparr>ss_ackCh := [], ss_pingCbs := [], ss_done := False, ss_stateReqs := [],
       ss_guards := (ss_guards s)\<lparr>sg_consecWriteFailures := 0, sg_writeBreakerOpen := False, sg_shutdownCause := None\<rparr>\<rparr>"

text \<open>\<open>ping\<close> is the error of the initial ping, if it failed. A stop may arrive while it runs (point 2).\<close>

definition runInitWithCtx :: "(nat \<Rightarrow> bool) \<Rightarrow> session_error option \<Rightarrow> lifecycle \<Rightarrow> session_error option \<times> lifecycle" where
  "runInitWithCtx stops ping l =
     (if lc_authKey l = [] then (Some (Sentinel ErrAuthKeyNotSet), l)
      else if lc_transport l = None then (Some (Sentinel ErrTransportNotSet), l)
      else
        let l1 = (on_session fresh_channels l)\<lparr>lc_doneClosed := 0\<rparr>;
            (moved, st) = transition StateIdle StateConnecting (lc_state l1)
        in if \<not> moved then (Some (not_connectable l1), l1)
           else
             let l2 = stop_at stops 2 (on_session (\<lambda>s. s\<lparr>ss_state := st\<rparr>) l1)
             in case ping of
                  Some err \<Rightarrow>
                    (let l3 = closeTransport (on_session (\<lambda>s. s\<lparr>ss_done := True\<rparr>) (l2\<lparr>lc_doneClosed := Suc (lc_doneClosed l2)\<rparr>))
                     in (Some (Wrapped err), on_session (\<lambda>s. s\<lparr>ss_state := snd (transition StateConnecting StateClosed (ss_state s))\<rparr>) l3))
                | None \<Rightarrow>
                    (None, (on_session (\<lambda>s. s\<lparr>ss_state := snd (transition StateConnecting StateActive (ss_state s))\<rparr>) l2)\<lparr>lc_running := True\<rparr>))"

definition startContextLocked :: "(nat \<Rightarrow> bool) \<Rightarrow> session_error option \<Rightarrow> lifecycle \<Rightarrow> session_error option \<times> lifecycle" where
  "startContextLocked stops ping l =
     (if lc_stopping l then (Some (Sentinel ErrSessionClosed), l)
      else if \<not> canConnect (lc_state l) then (Some (not_connectable l), l)
      else
        let l1 = stop_at stops 0 l
        in if lc_stopping l1 then (Some (Sentinel ErrSessionClosed), l1)
           else
             let l2 = stop_at stops 1 (l1\<lparr>lc_runCancel := True\<rparr>)
             in case runInitWithCtx stops ping l2 of
                  (Some err, l3) \<Rightarrow> (Some err, l3\<lparr>lc_cancelled := True\<rparr>)
                | (None, l3) \<Rightarrow> (None, l3))"

definition ConnectContext ::
  "(nat \<Rightarrow> bool) \<Rightarrow> session_error option \<Rightarrow> nat option \<Rightarrow> lifecycle \<Rightarrow> session_error option \<times> lifecycle" where
  "ConnectContext stops ping tp l =
     (if \<not> canConnect (lc_state l) then (Some (not_connectable l), l)
      else
        let (ok, l1) = (if tp = None then (True, l) else attachTransport tp l)
        in if \<not> ok then (Some (Sentinel ErrSessionClosed), l1)
           else if lc_authKey l1 = [] then (Some (Sentinel ErrConnectNoAuthKey), l1)
           else startContextLocked stops ping l1)"

text \<open>What an exchange returns, with the clock reading at which it is adopted.\<close>

record auth_result =
  ax_AuthKey :: bytes
  ax_ServerSalt :: i64
  ax_ServerTime :: u32
  ax_now :: i64

definition adopt_key :: "auth_result \<Rightarrow> lifecycle \<Rightarrow> lifecycle" where
  "adopt_key r l =
     on_session (\<lambda>s. s\<lparr>ss_saltMgr := StoreSimple (sint (ax_now r) + sint (ServerTimeOffset (ss_msgFactory s))) (ax_ServerSalt r) (ss_saltMgr s),
         ss_msgFactory := Factory_UpdateServerTime (signed (ax_ServerTime r)) (ax_now r) (ss_msgFactory s)\<rparr>)
       (SetAuthKey (ax_AuthKey r) l)"

text \<open>\<open>authFunc\<close> is the result of the exchange or its error, None when there is no such function; the storage
  accepts or refuses each write as \<open>saves\<close> says (0: the new key, 1: the first clearing, 2: the second). Stops may
  arrive during the exchange (point 3), before the key is saved (4) and after (5).\<close>

definition store_key :: "(nat \<Rightarrow> bool) \<Rightarrow> nat \<Rightarrow> bytes \<Rightarrow> lifecycle \<Rightarrow> bool \<times> lifecycle" where
  "store_key saves n key l =
     (case lc_stored l of
        None \<Rightarrow> (True, l)
      | Some _ \<Rightarrow> if saves n then (True, l\<lparr>lc_stored := Some key\<rparr>) else (False, l))"

definition generate_key ::
  "(nat \<Rightarrow> bool) \<Rightarrow> (nat \<Rightarrow> bool) \<Rightarrow> session_error + auth_result \<Rightarrow> lifecycle \<Rightarrow> session_error option \<times> lifecycle" where
  "generate_key stops saves result l =
     (let l1 = stop_at stops 3 l
      in case result of
           Inl err \<Rightarrow> (Some (Wrapped err), l1)
         | Inr r \<Rightarrow>
             if lc_stopping l1 then (Some (Sentinel ErrSessionClosed), l1)
             else
               let l2 = stop_at stops 4 l1; (saved, l3) = store_key saves 0 (ax_AuthKey r) l2
               in if \<not> saved then (Some (Wrapped OtherError), l3)
                  else
                    let l4 = stop_at stops 5 l3
                    in if lc_stopping l4 then (Some (Sentinel ErrSessionClosed), snd (store_key saves 1 [] l4))
                       else (None, adopt_key r l4))"

definition ConnectWithAuthContext ::
  "(nat \<Rightarrow> bool) \<Rightarrow> (nat \<Rightarrow> bool) \<Rightarrow> (session_error + auth_result) option \<Rightarrow> session_error option \<Rightarrow> nat option \<Rightarrow> lifecycle
   \<Rightarrow> session_error option \<times> lifecycle" where
  "ConnectWithAuthContext stops saves authFunc ping tp l =
     (if \<not> canConnect (lc_state l) then (Some (not_connectable l), l)
      else
        let (ok, l1) = (if tp = None then (True, l) else attachTransport tp l)
        in if \<not> ok then (Some (Sentinel ErrSessionClosed), l1)
           else if lc_stopping l1 then (Some (Sentinel ErrSessionClosed), l1)
           else if lc_authKey l1 \<noteq> [] \<or> authFunc = None then startContextLocked stops ping l1
           else
             (case generate_key stops saves (the authFunc) l1 of
                (Some err, l2) \<Rightarrow> (Some err, l2)
              | (None, l2) \<Rightarrow>
                  (case startContextLocked stops ping l2 of
                     (Some err, l3) \<Rightarrow>
                       if errors_is err ErrSessionClosed then (Some err, snd (store_key saves 2 [] (SetAuthKey [] l3)))
                       else (Some err, l3)
                   | (None, l3) \<Rightarrow> (None, l3))))"

section \<open>Ending\<close>

text \<open>The end of runLoop: handleClose has run, every goroutine has returned. Nothing happens when it does not run.\<close>

definition end_run :: "lifecycle \<Rightarrow> lifecycle" where
  "end_run l =
     (if \<not> lc_running l then l
      else let l1 = closeTransport (on_session handleClose (l\<lparr>lc_doneClosed := Suc (lc_doneClosed l)\<rparr>))
           in (on_session (\<lambda>s. s\<lparr>ss_stopping := True, ss_state := snd (transitionTo StateClosed (ss_state s))\<rparr>) l1)\<lparr>lc_running := False\<rparr>)"

datatype lc_op =
    LSetTransport nat | LSetAuthKey bytes | LConnect "nat \<Rightarrow> bool" "session_error option" nat
  | LConnectWithAuth "nat \<Rightarrow> bool" "nat \<Rightarrow> bool" "(session_error + auth_result) option" "session_error option" nat
  | LStart "nat \<Rightarrow> bool" "session_error option" | LRequestStop | LEnd

fun lc_exec :: "lc_op \<Rightarrow> lifecycle \<Rightarrow> lifecycle" where
  "lc_exec (LSetTransport t) l = snd (attachTransport (Some t) l)"
| "lc_exec (LSetAuthKey k) l = SetAuthKey k l"
| "lc_exec (LConnect stops ping t) l = snd (ConnectContext stops ping (Some t) l)"
| "lc_exec (LConnectWithAuth stops saves auth ping t) l = snd (ConnectWithAuthContext stops saves auth ping (Some t) l)"
| "lc_exec (LStart stops ping) l = snd (startContextLocked stops ping l)"
| "lc_exec LRequestStop l = RequestStop l"
| "lc_exec LEnd l = end_run l"

text \<open>The transports an operation is given.\<close>

fun lc_given :: "lc_op \<Rightarrow> nat list" where
  "lc_given (LSetTransport t) = [t]"
| "lc_given (LConnect _ _ t) = [t]"
| "lc_given (LConnectWithAuth _ _ _ _ t) = [t]"
| "lc_given _ = []"

section \<open>Transports and channels are closed once\<close>

definition tr_ok :: "nat set \<Rightarrow> lifecycle \<Rightarrow> bool" where
  "tr_ok G l \<longleftrightarrow> distinct (lc_closed l) \<and> set (lc_closed l) \<subseteq> G \<and>
     (\<forall>t. lc_transport l = Some t \<longrightarrow> t \<in> G \<and> t \<notin> set (lc_closed l))"

definition ph_ok :: "lifecycle \<Rightarrow> bool" where
  "ph_ok l \<longleftrightarrow> lc_doneClosed l \<le> 1 \<and>
     (if lc_running l then lc_doneClosed l = 0 \<and> lc_state l = StateActive else lc_state l \<in> {StateIdle, StateClosed})"

definition lc_ok :: "nat set \<Rightarrow> lifecycle \<Rightarrow> bool" where
  "lc_ok G l \<longleftrightarrow> tr_ok G l \<and> ph_ok l"

lemmas lc_simps = lc_ok_def tr_ok_def ph_ok_def on_session_def

lemma closeTransport_ok: "tr_ok G l \<Longrightarrow> tr_ok G (closeTransport l)"
  by (auto simp: tr_ok_def closeTransport_def split: option.splits)

lemma closeTransport_fields [simp]:
  "lc_session (closeTransport l) = lc_session l" "lc_doneClosed (closeTransport l) = lc_doneClosed l"
  "lc_running (closeTransport l) = lc_running l" "lc_authKey (closeTransport l) = lc_authKey l"
  "lc_stored (closeTransport l) = lc_stored l" "lc_transport (closeTransport l) = None"
  by (simp_all add: closeTransport_def split: option.splits)

lemma tr_ok_cong: "lc_closed l' = lc_closed l \<Longrightarrow> lc_transport l' = lc_transport l \<Longrightarrow> tr_ok G l' = tr_ok G l"
  by (simp add: tr_ok_def)

lemma ph_ok_cong:
  "lc_doneClosed l' = lc_doneClosed l \<Longrightarrow> lc_running l' = lc_running l \<Longrightarrow> lc_state l' = lc_state l \<Longrightarrow> ph_ok l' = ph_ok l"
  by (simp add: ph_ok_def)

lemma RequestStop_fields [simp]:
  "lc_state (RequestStop l) = lc_state l" "lc_stopping (RequestStop l)" "lc_doneClosed (RequestStop l) = lc_doneClosed l"
  "lc_running (RequestStop l) = lc_running l" "lc_authKey (RequestStop l) = lc_authKey l" "lc_stored (RequestStop l) = lc_stored l"
  "lc_transport (RequestStop l) = None"
  by (simp_all add: RequestStop_def on_session_def)

lemma RequestStop_tr_ok: "tr_ok G l \<Longrightarrow> tr_ok G (RequestStop l)"
  unfolding RequestStop_def by (rule closeTransport_ok) (simp add: tr_ok_def on_session_def)

lemma stop_at_fields [simp]:
  "lc_state (stop_at stops n l) = lc_state l" "lc_doneClosed (stop_at stops n l) = lc_doneClosed l"
  "lc_running (stop_at stops n l) = lc_running l" "lc_authKey (stop_at stops n l) = lc_authKey l"
  "lc_stored (stop_at stops n l) = lc_stored l"
  by (simp_all add: stop_at_def)

lemma stop_at_tr_ok: "tr_ok G l \<Longrightarrow> tr_ok G (stop_at stops n l)"
  by (simp add: stop_at_def RequestStop_tr_ok)

lemma attachTransport_ok:
  assumes "tr_ok G l" and "t \<notin> G" and "attachTransport (Some t) l = (ok, l')"
  shows "tr_ok (insert t G) l' \<and> lc_state l' = lc_state l \<and> lc_doneClosed l' = lc_doneClosed l \<and> lc_running l' = lc_running l"
  using assms by (auto simp: attachTransport_def tr_ok_def split: if_splits)

lemma runInit_ok:
  assumes "tr_ok G l" and "ph_ok l" and "lc_state l = StateIdle" and "runInitWithCtx stops ping l = (err, l')"
  shows "lc_ok G l'"
proof (cases "lc_authKey l = [] \<or> lc_transport l = None")
  case True
  with assms have "l' = l" by (auto simp: runInitWithCtx_def split: if_splits)
  with assms(1,2) show ?thesis by (simp add: lc_ok_def)
next
  case False
  define l1 where "l1 = (on_session fresh_channels l)\<lparr>lc_doneClosed := 0\<rparr>"
  define l2 where "l2 = stop_at stops 2 (on_session (\<lambda>s. s\<lparr>ss_state := StateConnecting\<rparr>) l1)"
  have tr2: "tr_ok G l2" unfolding l2_def
    by (rule stop_at_tr_ok) (use assms(1) in \<open>simp add: l1_def tr_ok_def on_session_def\<close>)
  have st2: "lc_state l2 = StateConnecting" "lc_doneClosed l2 = 0" "\<not> lc_running l2"
    using assms(2,3) by (simp_all add: l2_def l1_def on_session_def ph_ok_def split: if_splits)
  have t: "transition StateIdle StateConnecting (lc_state l1) = (True, StateConnecting)"
    using assms(3) by (simp add: l1_def on_session_def fresh_channels_def transition_def doTransition_def allowedTransitions_def)
  have c: "transition StateConnecting st StateConnecting = (True, st)" if "st \<in> {StateActive, StateClosed}" for st
    using that by (auto simp: transition_def doTransition_def allowedTransitions_def)
  have r: "runInitWithCtx stops ping l =
    (case ping of
       Some e \<Rightarrow>
         (let l3 = closeTransport (on_session (\<lambda>s. s\<lparr>ss_done := True\<rparr>) (l2\<lparr>lc_doneClosed := Suc (lc_doneClosed l2)\<rparr>))
          in (Some (Wrapped e), on_session (\<lambda>s. s\<lparr>ss_state := snd (transition StateConnecting StateClosed (ss_state s))\<rparr>) l3))
     | None \<Rightarrow>
         (None, (on_session (\<lambda>s. s\<lparr>ss_state := snd (transition StateConnecting StateActive (ss_state s))\<rparr>) l2)\<lparr>lc_running := True\<rparr>))"
    using False t by (auto simp: runInitWithCtx_def Let_def l1_def [symmetric] l2_def [symmetric] split: option.split)
  show ?thesis
  proof (cases ping)
    case None
    with r assms(4) tr2 st2 c show ?thesis by (auto simp: lc_simps)
  next
    case (Some e)
    have "tr_ok G (closeTransport (on_session (\<lambda>s. s\<lparr>ss_done := True\<rparr>) (l2\<lparr>lc_doneClosed := Suc (lc_doneClosed l2)\<rparr>)))"
      by (rule closeTransport_ok) (use tr2 in \<open>simp add: tr_ok_def on_session_def\<close>)
    with Some r assms(4) st2 c show ?thesis by (auto simp: lc_simps Let_def)
  qed
qed

lemma start_ok:
  assumes "lc_ok G l" and "startContextLocked stops ping l = (err, l')"
  shows "lc_ok G l'"
proof (cases "lc_stopping l \<or> \<not> canConnect (lc_state l) \<or> lc_stopping (stop_at stops 0 l)")
  case True
  with assms show ?thesis by (auto simp: startContextLocked_def Let_def lc_ok_def stop_at_tr_ok ph_ok_cong [of "stop_at _ _ _" l] split: if_splits)
next
  case False
  define l2 where "l2 = stop_at stops 1 ((stop_at stops 0 l)\<lparr>lc_runCancel := True\<rparr>)"
  have "tr_ok G l2" unfolding l2_def
    by (rule stop_at_tr_ok) (use assms(1) stop_at_tr_ok [of G l stops 0] in \<open>simp add: lc_ok_def tr_ok_def\<close>)
  moreover have "ph_ok l2" "lc_state l2 = StateIdle"
    using assms(1) False by (auto simp: l2_def lc_ok_def ph_ok_def canConnect_def split: if_splits)
  moreover obtain e l3 where r: "runInitWithCtx stops ping l2 = (e, l3)" by fastforce
  ultimately have "lc_ok G l3" by (metis runInit_ok)
  moreover have "l' = (if e = None then l3 else l3\<lparr>lc_cancelled := True\<rparr>)"
    using assms(2) False r unfolding startContextLocked_def Let_def l2_def [symmetric] by (auto split: option.splits)
  ultimately show ?thesis by (cases e) (auto simp: lc_simps split: if_splits)
qed

lemma store_key_fields [simp]:
  "lc_session (snd (store_key saves n k l)) = lc_session l" "lc_transport (snd (store_key saves n k l)) = lc_transport l"
  "lc_closed (snd (store_key saves n k l)) = lc_closed l" "lc_doneClosed (snd (store_key saves n k l)) = lc_doneClosed l"
  "lc_running (snd (store_key saves n k l)) = lc_running l" "lc_authKey (snd (store_key saves n k l)) = lc_authKey l"
  by (simp_all add: store_key_def split: option.split)

lemma store_key_ok: "lc_ok G (snd (store_key saves n k l)) = lc_ok G l"
  by (simp add: lc_simps)

lemma stop_at_ok: "lc_ok G l \<Longrightarrow> lc_ok G (stop_at stops n l)"
  using ph_ok_cong [of "stop_at stops n l" l] by (simp add: lc_ok_def stop_at_tr_ok)

lemma SetAuthKey_ok: "lc_ok G (SetAuthKey k l) = lc_ok G l"
  by (simp add: lc_simps SetAuthKey_def)

lemma adopt_key_ok: "lc_ok G (adopt_key r l) = lc_ok G l"
  by (simp add: adopt_key_def lc_simps SetAuthKey_def)

lemma generate_key_ok:
  assumes "lc_ok G l" and "generate_key stops saves res l = (err, l')"
  shows "lc_ok G l'"
  using assms stop_at_ok store_key_ok adopt_key_ok
  by (simp add: generate_key_def Let_def case_prod_beta split: sum.splits if_splits) (metis | fastforce)+

lemma attach_step_ok:
  assumes "lc_ok G l" and "t \<notin> G" and "attachTransport (Some t) l = (ok, l')"
  shows "lc_ok (insert t G) l'"
  using assms attachTransport_ok [of G l t ok l'] ph_ok_cong [of l' l] by (simp add: lc_ok_def)

lemma lc_ok_mono: "lc_ok G l \<Longrightarrow> lc_ok (insert t G) l"
  by (auto simp: lc_ok_def tr_ok_def)

lemma ConnectContext_ok:
  assumes "lc_ok G l" and "t \<notin> G" and "ConnectContext stops ping (Some t) l = (err, l')"
  shows "lc_ok (insert t G) l'"
proof (cases "canConnect (lc_state l)")
  case True
  obtain ok l1 where a: "attachTransport (Some t) l = (ok, l1)" by fastforce
  with True assms(3) attach_step_ok [OF assms(1,2) a] start_ok [of "insert t G" l1 stops ping err l'] show ?thesis
    by (auto simp: ConnectContext_def split: if_splits)
next
  case False
  with assms show ?thesis by (auto simp: ConnectContext_def intro: lc_ok_mono)
qed

lemma ConnectWithAuthContext_ok:
  assumes "lc_ok G l" and "t \<notin> G" and "ConnectWithAuthContext stops saves auth ping (Some t) l = (err, l')"
  shows "lc_ok (insert t G) l'"
proof (cases "canConnect (lc_state l)")
  case True
  obtain ok l1 where a: "attachTransport (Some t) l = (ok, l1)" by fastforce
  note l1 = attach_step_ok [OF assms(1,2) a]
  show ?thesis
  proof (cases "\<not> ok \<or> lc_stopping l1 \<or> lc_authKey l1 \<noteq> [] \<or> auth = None")
    case True2: True
    with True assms(3) a l1 start_ok [OF l1, of stops ping err l'] show ?thesis
      by (auto simp: ConnectWithAuthContext_def split: if_splits)
  next
    case False
    obtain e2 l2 where g: "generate_key stops saves (the auth) l1 = (e2, l2)" by fastforce
    note l2 = generate_key_ok [OF l1 g]
    obtain e3 l3 where s: "startContextLocked stops ping l2 = (e3, l3)" by fastforce
    have "l' \<in> {l2, l3, snd (store_key saves 2 [] (SetAuthKey [] l3))}"
      using True False assms(3) a g s by (auto simp: ConnectWithAuthContext_def split: if_splits option.splits)
    then show ?thesis using l2 start_ok [OF l2 s] by (auto simp: store_key_ok SetAuthKey_ok)
  qed
next
  case False
  with assms show ?thesis by (auto simp: ConnectWithAuthContext_def intro: lc_ok_mono)
qed

lemma end_run_ok: "lc_ok G l \<Longrightarrow> lc_ok G (end_run l)"
proof (cases "lc_running l")
  case True
  assume ok: "lc_ok G l"
  define l0 where "l0 = on_session handleClose (l\<lparr>lc_doneClosed := Suc (lc_doneClosed l)\<rparr>)"
  have "tr_ok G (closeTransport l0)"
    by (rule closeTransport_ok) (use ok in \<open>simp add: l0_def lc_simps\<close>)
  moreover have "lc_state l0 = StateDraining" "lc_doneClosed l0 = 1"
    using ok True by (simp_all add: l0_def lc_simps handleClose_def transitionTo_def doTransition_def allowedTransitions_def)
  ultimately show ?thesis
    using True unfolding end_run_def l0_def [symmetric] Let_def
    by (simp add: lc_simps transitionTo_def doTransition_def allowedTransitions_def)
qed (simp add: end_run_def)

lemma lc_exec_ok:
  assumes "lc_ok G l" and "set (lc_given op) \<inter> G = {}"
  shows "lc_ok (set (lc_given op) \<union> G) (lc_exec op l)"
proof (cases op)
  case (LSetTransport t)
  obtain ok l' where "attachTransport (Some t) l = (ok, l')" by fastforce
  with attach_step_ok [OF assms(1) _ this] LSetTransport assms(2) show ?thesis by simp
next
  case (LConnect stops ping t)
  obtain err l' where "ConnectContext stops ping (Some t) l = (err, l')" by fastforce
  with ConnectContext_ok [OF assms(1) _ this] LConnect assms(2) show ?thesis by simp
next
  case (LConnectWithAuth stops saves auth ping t)
  obtain err l' where "ConnectWithAuthContext stops saves auth ping (Some t) l = (err, l')" by fastforce
  with ConnectWithAuthContext_ok [OF assms(1) _ this] LConnectWithAuth assms(2) show ?thesis by simp
next
  case (LStart stops ping)
  obtain err l' where "startContextLocked stops ping l = (err, l')" by fastforce
  with start_ok [OF assms(1) this] LStart show ?thesis by simp
next
  case LRequestStop
  with stop_at_ok [OF assms(1), of "\<lambda>_. True" 0] show ?thesis by (simp add: stop_at_def)
qed (use assms(1) in \<open>auto simp: SetAuthKey_ok end_run_ok\<close>)

lemma lc_history_ok:
  assumes "lc_ok G l" and "distinct (concat (map lc_given ops))" and "set (concat (map lc_given ops)) \<inter> G = {}"
  shows "lc_ok (set (concat (map lc_given ops)) \<union> G) (fold lc_exec ops l)"
  using assms
proof (induction ops arbitrary: G l)
  case (Cons op ops)
  have "set (lc_given op) \<inter> G = {}" using Cons.prems(3) by auto
  from Cons.IH [OF lc_exec_ok [OF Cons.prems(1) this]] Cons.prems(2,3) show ?case
    by (auto simp: Un_assoc Un_left_commute Un_commute)
qed simp

lemma new_lifecycle_ok: "lc_ok {} (new_lifecycle now key st)"
  by (simp add: lc_simps new_lifecycle_def NewSession_def newStateMachine_def)



section \<open>Cancelled connects\<close>

lemma runInit_keys:
  "runInitWithCtx stops ping l = (err, l') \<Longrightarrow> lc_authKey l' = lc_authKey l \<and> lc_stored l' = lc_stored l"
  by (auto simp: runInitWithCtx_def Let_def on_session_def split: if_splits option.splits prod.splits)

lemma start_keys:
  assumes "startContextLocked stops ping l = (err, l')"
  shows "lc_authKey l' = lc_authKey l \<and> lc_stored l' = lc_stored l"
proof -
  define l2 where "l2 = stop_at stops 1 ((stop_at stops 0 l)\<lparr>lc_runCancel := True\<rparr>)"
  obtain e l3 where r: "runInitWithCtx stops ping l2 = (e, l3)" by fastforce
  have "lc_authKey l2 = lc_authKey l" "lc_stored l2 = lc_stored l" by (simp_all add: l2_def)
  with runInit_keys [OF r] assms r show ?thesis
    unfolding startContextLocked_def Let_def l2_def [symmetric] by (auto split: if_splits option.splits)
qed

lemma attach_keys:
  "attachTransport t l = (ok, l') \<Longrightarrow> lc_authKey l' = lc_authKey l \<and> lc_stored l' = lc_stored l"
  by (auto simp: attachTransport_def split: if_splits option.splits)

lemma start_needs_key:
  assumes "startContextLocked stops ping l = (None, l')"
  shows "lc_authKey l' \<noteq> []"
proof -
  have "lc_authKey l \<noteq> []"
    using assms by (auto simp: startContextLocked_def runInitWithCtx_def Let_def split: if_splits option.splits prod.splits)
  with start_keys [OF assms] show ?thesis by simp
qed

lemma generate_key_keys:
  assumes "generate_key stops saves res l = (err, l')" and "\<And>n. saves n" and "lc_authKey l = []" and "lc_stored l \<in> {None, Some []}"
  shows "(err \<noteq> None \<longrightarrow> lc_authKey l' = [] \<and> lc_stored l' \<in> {None, Some []}) \<and>
         (err = None \<longrightarrow> (\<exists>r. res = Inr r \<and> lc_authKey l' = ax_AuthKey r \<and> lc_stored l' \<in> {None, Some (ax_AuthKey r)} \<and>
            (lc_stored l' = None \<longleftrightarrow> lc_stored l = None)))"
  using assms
  by (auto simp: generate_key_def store_key_def adopt_key_def on_session_def SetAuthKey_def Let_def split: sum.splits if_splits option.splits)

text \<open>A connect that was cancelled leaves no key behind, and one that succeeded has one. For a session without
  a key whose storage works, whenever the stop arrives: if ConnectWithAuthContext fails because the session
  was stopped, neither the session nor its storage holds a key; if it succeeds, the session has the key of
  the exchange, which is also in the storage, if there is one.\<close>

theorem cancelled_connect_drops_key:
  assumes "ConnectWithAuthContext stops saves auth ping tp l = (err, l')" and "\<And>n. saves n"
    and "lc_authKey l = []" and "lc_stored l \<in> {None, Some []}"
  shows "(\<forall>e. err = Some e \<and> errors_is e ErrSessionClosed \<longrightarrow> lc_authKey l' = [] \<and> lc_stored l' \<in> {None, Some []}) \<and>
         (err = None \<longrightarrow> (\<exists>r. auth = Some (Inr r) \<and> lc_authKey l' = ax_AuthKey r) \<and> lc_authKey l' \<noteq> [] \<and>
            lc_stored l' = (if lc_stored l = None then None else Some (lc_authKey l')))"
proof (cases "canConnect (lc_state l)")
  case False
  with assms show ?thesis by (auto simp: ConnectWithAuthContext_def)
next
  case True
  obtain ok l1 where a: "(if tp = None then (True, l) else attachTransport tp l) = (ok, l1)" by fastforce
  then have k1: "lc_authKey l1 = []" "lc_stored l1 = lc_stored l"
    using assms(3) attach_keys [of tp l ok l1] by (auto split: if_splits)
  show ?thesis
  proof (cases "\<not> ok \<or> lc_stopping l1 \<or> auth = None")
    case True2: True
    obtain e2 l2 where s: "startContextLocked stops ping l1 = (e2, l2)" by fastforce
    have "e2 \<noteq> None" using start_needs_key [of stops ping l1 l2] start_keys [OF s] s k1(1) by auto
    with True True2 assms a k1 s start_keys [OF s] show ?thesis
      by (auto simp: ConnectWithAuthContext_def split: if_splits)
  next
    case False
    obtain e2 l2 where g: "generate_key stops saves (the auth) l1 = (e2, l2)" by fastforce
    note gk = generate_key_keys [OF g assms(2) k1(1)]
    obtain e3 l3 where s: "startContextLocked stops ping l2 = (e3, l3)" by fastforce
    have r: "(err, l') = (if e2 \<noteq> None then (e2, l2)
        else if e3 \<noteq> None \<and> errors_is (the e3) ErrSessionClosed then (e3, snd (store_key saves 2 [] (SetAuthKey [] l3)))
        else (e3, l3))"
      using True False assms(1) a g s k1(1) by (auto simp: ConnectWithAuthContext_def split: if_splits option.splits)
    have c: "lc_authKey (snd (store_key saves 2 [] (SetAuthKey [] l3))) = []"
      "lc_stored (snd (store_key saves 2 [] (SetAuthKey [] l3))) \<in> {None, Some []}"
      using assms(2) by (auto simp: store_key_def SetAuthKey_def split: option.splits)
    show ?thesis
    proof (cases "e2 = None")
      case True3: True
      with gk k1(2) assms(4) obtain x where k: "the auth = Inr x" "lc_authKey l2 = ax_AuthKey x" "lc_stored l2 \<in> {None, Some (ax_AuthKey x)}"
        "lc_stored l2 = None \<longleftrightarrow> lc_stored l = None" by auto
      with r True3 c start_keys [OF s] start_needs_key [of stops ping l2 l3] s False show ?thesis
        by (cases e3) (auto split: if_splits)
    next
      case False3: False
      with r gk k1(2) assms(4) show ?thesis by auto
    qed
  qed
qed

theorem cancelled_connect_drops_key_witness:
  "lc_authKey (snd (ConnectWithAuthContext (\<lambda>n. n = 5) (\<lambda>_. True) (Some (Inr \<lparr>ax_AuthKey = [7], ax_ServerSalt = 1, ax_ServerTime = 2, ax_now = 3\<rparr>)) None (Some 1) (new_lifecycle 0 [] True))) = [] \<and>
   lc_stored (snd (ConnectWithAuthContext (\<lambda>n. n = 5) (\<lambda>_. True) (Some (Inr \<lparr>ax_AuthKey = [7], ax_ServerSalt = 1, ax_ServerTime = 2, ax_now = 3\<rparr>)) None (Some 1) (new_lifecycle 0 [] True))) \<in> {None, Some []}"
proof -
  let ?r = "ConnectWithAuthContext (\<lambda>n. n = 5) (\<lambda>_. True) (Some (Inr \<lparr>ax_AuthKey = [7], ax_ServerSalt = 1, ax_ServerTime = 2, ax_now = 3\<rparr>)) None (Some 1) (new_lifecycle 0 [] True)"
  have "fst ?r = Some (Sentinel ErrSessionClosed)"
    by (simp add: new_lifecycle_def NewSession_def newStateMachine_def ConnectWithAuthContext_def generate_key_def store_key_def
        attachTransport_def canConnect_def stop_at_def on_session_def RequestStop_def closeTransport_def Let_def)
  then have "?r = (Some (Sentinel ErrSessionClosed), snd ?r)" by (metis prod.collapse)
  from cancelled_connect_drops_key [OF this] show ?thesis by (simp add: new_lifecycle_def)
qed

end
