(* ===== verification/WebSocket.thy ===== *)
theory WebSocket
  imports Transport_Framing
begin

text \<open>
  WebSocket connections, \<^verbatim>\<open>src/internal/transport/ws_stdlib.go\<close> and the obfuscated layer of \<^verbatim>\<open>ws.go\<close>: frames, the byte
  stream over them, and the two sides of the obfuscated handshake. A connection is the bytes still to come from the peer;
  writes return their bytes. The block cipher is a parameter and random reads are arguments. The HTTP upgrade, dialing
  and the listener are not modelled.
\<close>

section \<open>Frames\<close>

datatype ws_error = WsIO transport_error | WsFrameTooLarge int

definition wsOpText :: u8 where "wsOpText = 0x1"
definition wsOpBinary :: u8 where "wsOpBinary = 0x2"
definition wsOpClose :: u8 where "wsOpClose = 0x8"
definition wsOpPing :: u8 where "wsOpPing = 0x9"
definition wsOpPong :: u8 where "wsOpPong = 0xA"
definition wsFin :: u8 where "wsFin = 0x80"
definition wsMask :: u8 where "wsMask = 0x80"
definition wsLen16 :: u8 where "wsLen16 = 126"
definition wsLen64 :: u8 where "wsLen64 = 127"

lemmas ws_consts = wsOpText_def wsOpBinary_def wsOpClose_def wsOpPing_def wsOpPong_def wsFin_def wsMask_def wsLen16_def wsLen64_def

definition ws_xor :: "bytes \<Rightarrow> bytes \<Rightarrow> bytes" where
  "ws_xor maskKey payload = map (\<lambda>i. payload ! i XOR maskKey ! (i mod 4)) [0..<length payload]"

definition ws_then :: "(transport_error + 'a) \<times> bytes \<Rightarrow> ('a \<Rightarrow> bytes \<Rightarrow> (ws_error + 'b) \<times> bytes) \<Rightarrow> (ws_error + 'b) \<times> bytes" where
  "ws_then r k = (case r of (Inl e, s) \<Rightarrow> (Inl (WsIO e), s) | (Inr a, s) \<Rightarrow> k a s)"

text \<open>The length as an int64: the low bits of the second byte, or the two or eight bytes that follow.\<close>

definition ws_read_length :: "u8 \<Rightarrow> bytes \<Rightarrow> (ws_error + int) \<times> bytes" where
  "ws_read_length b s =
     (if b AND 0x7F = wsLen16 then ws_then (conn_ReadFull 2 s) (\<lambda>v s1. (Inr (uint (le_word (rev v) :: 16 word)), s1))
      else if b AND 0x7F = wsLen64 then ws_then (conn_ReadFull 8 s) (\<lambda>v s1. (Inr (sint (le_word (rev v) :: i64)), s1))
      else (Inr (uint (b AND 0x7F)), s))"

definition ws_read_payload :: "bool \<Rightarrow> int \<Rightarrow> bytes \<Rightarrow> (ws_error + bytes) \<times> bytes" where
  "ws_read_payload masked len s =
     (if len < 0 \<or> len > int MaxPayloadLen then (Inl (WsFrameTooLarge len), s)
      else if masked
      then ws_then (conn_ReadFull 4 s) (\<lambda>maskKey s1. ws_then (conn_ReadFull (nat len) s1) (\<lambda>p s2. (Inr (ws_xor maskKey p), s2)))
      else ws_then (conn_ReadFull (nat len) s) (\<lambda>p s1. (Inr p, s1)))"

definition readFrame :: "bytes \<Rightarrow> (ws_error + u8 \<times> bytes) \<times> bytes" where
  "readFrame s =
     ws_then (conn_ReadFull 2 s) (\<lambda>header s1.
       case ws_read_length (header ! 1) s1 of
         (Inl e, s2) \<Rightarrow> (Inl e, s2)
       | (Inr len, s2) \<Rightarrow>
           (case ws_read_payload (header ! 1 AND wsMask \<noteq> 0) len s2 of
              (Inl e, s3) \<Rightarrow> (Inl e, s3)
            | (Inr payload, s3) \<Rightarrow> (Inr (header ! 0 AND 0x0F, payload), s3)))"

definition ws_write_length :: "nat \<Rightarrow> u8 \<Rightarrow> bytes" where
  "ws_write_length len flag =
     (if len \<le> 125 then [of_nat len OR flag]
      else if len \<le> 65535 then [wsLen16 OR flag, of_nat (len div 256), of_nat len]
      else [wsLen64 OR flag] @ rev (le_bytes 8 (of_nat len :: i64)))"

definition writeFrame :: "bytes \<Rightarrow> u8 \<Rightarrow> bytes \<Rightarrow> bytes" where
  "writeFrame maskKey opcode payload =
     [opcode OR wsFin] @ ws_write_length (length payload) wsMask @ maskKey @ ws_xor maskKey payload"

definition writeControl :: "bytes \<Rightarrow> u8 \<Rightarrow> bytes \<Rightarrow> bytes" where
  "writeControl maskKey opcode payload =
     [opcode OR wsFin, of_nat (length payload) OR wsMask] @ maskKey @ ws_xor maskKey payload"

definition writeCloseFrame :: "bytes \<Rightarrow> nat \<Rightarrow> bytes \<Rightarrow> bytes" where
  "writeCloseFrame maskKey code reason = writeControl maskKey wsOpClose (rev (le_bytes 2 (of_nat code :: 16 word)) @ reason)"

section \<open>The byte stream\<close>

record ws_conn =
  wc_readBuf :: bytes
  wc_readErr :: "ws_error option"

definition newWSConn :: ws_conn where
  "newWSConn = \<lparr>wc_readBuf = [], wc_readErr = None\<rparr>"

lemma conn_ReadFull_le: "conn_ReadFull n s = (r, s') \<Longrightarrow> length s' \<le> length s"
  by (auto simp: conn_ReadFull_def split: if_splits)

lemma conn_ReadFull_less: "conn_ReadFull n s = (Inr b, s') \<Longrightarrow> 0 < n \<Longrightarrow> length s' < length s"
  by (auto simp: conn_ReadFull_def split: if_splits)

lemma ws_read_length_le: "ws_read_length b s = (r, s') \<Longrightarrow> length s' \<le> length s"
  by (auto simp: ws_read_length_def ws_then_def split: if_splits prod.splits sum.splits dest: conn_ReadFull_le)

lemma ws_read_payload_le: "ws_read_payload m n s = (r, s') \<Longrightarrow> length s' \<le> length s"
  by (auto simp: ws_read_payload_def ws_then_def split: if_splits prod.splits sum.splits dest!: conn_ReadFull_le)

lemma readFrame_shorter: "readFrame s = (Inr x, s') \<Longrightarrow> length s' < length s"
proof -
  assume a: "readFrame s = (Inr x, s')"
  then obtain h s1 len s2 p where r: "conn_ReadFull 2 s = (Inr h, s1)" "ws_read_length (h ! 1) s1 = (Inr len, s2)"
    "ws_read_payload (h ! 1 AND wsMask \<noteq> 0) len s2 = (Inr p, s')"
    by (auto simp: readFrame_def ws_then_def split: prod.splits sum.splits)
  have "length s1 < length s" using conn_ReadFull_less [OF r(1)] by simp
  with ws_read_length_le [OF r(2)] ws_read_payload_le [OF r(3)] show ?thesis by linarith
qed

text \<open>The loop of Read until there are bytes to return; pongs are masked with \<open>masks i\<close>, \<open>masks (i + 1)\<close>, and so on.
  The result is an error or nothing, the connection, the bytes to come and the bytes written.\<close>

function ws_fill :: "(nat \<Rightarrow> bytes) \<Rightarrow> nat \<Rightarrow> ws_conn \<Rightarrow> bytes \<Rightarrow> ws_error option \<times> ws_conn \<times> bytes \<times> bytes" where
  "ws_fill masks i c s =
     (if wc_readBuf c \<noteq> [] \<or> wc_readErr c \<noteq> None then (None, c, s, [])
      else case readFrame s of
             (Inl e, s1) \<Rightarrow> (Some e, c\<lparr>wc_readErr := Some e\<rparr>, s1, [])
           | (Inr (op, payload), s1) \<Rightarrow>
               if op = wsOpBinary \<or> op = wsOpText then ws_fill masks i (c\<lparr>wc_readBuf := payload\<rparr>) s1
               else if op = wsOpClose then (Some (WsIO ErrEOF), c\<lparr>wc_readErr := Some (WsIO ErrEOF)\<rparr>, s1, [])
               else if op = wsOpPing
               then (let (res, c1, s2, w) = ws_fill masks (Suc i) c s1 in (res, c1, s2, writeControl (masks i) wsOpPong payload @ w))
               else ws_fill masks i c s1)"
  by pat_completeness auto
termination
  by (relation "measure (\<lambda>(_, _, _, s). length s)") (auto dest: readFrame_shorter [OF sym])

declare ws_fill.simps [simp del]

definition ws_Read :: "(nat \<Rightarrow> bytes) \<Rightarrow> nat \<Rightarrow> ws_conn \<Rightarrow> bytes \<Rightarrow> (ws_error + bytes) \<times> ws_conn \<times> bytes \<times> bytes" where
  "ws_Read masks n c s =
     (case wc_readErr c of
        Some e \<Rightarrow>
          if wc_readBuf c = [] then (Inl e, c, s, [])
          else (Inr (take n (wc_readBuf c)), c\<lparr>wc_readBuf := drop n (wc_readBuf c)\<rparr>, s, [])
      | None \<Rightarrow>
          (case ws_fill masks 0 c s of
             (Some e, c1, s1, w) \<Rightarrow> (Inl e, c1, s1, w)
           | (None, c1, s1, w) \<Rightarrow> (Inr (take n (wc_readBuf c1)), c1\<lparr>wc_readBuf := drop n (wc_readBuf c1)\<rparr>, s1, w)))"

definition ws_Write :: "bytes \<Rightarrow> bytes \<Rightarrow> bytes" where
  "ws_Write maskKey p = writeFrame maskKey (wsOpBinary OR wsFin) p"

section \<open>The obfuscated layer\<close>

definition invalidObfuscated2Nonce :: "bytes \<Rightarrow> bool" where
  "invalidObfuscated2Nonce nonce \<longleftrightarrow>
     length nonce < 8 \<or> nonce ! 0 = 0xEF \<or>
     (le_word (take 4 nonce) :: u32) \<in> {0x02010316, 0xDDDDDDDD, 0xEEEEEEEE, 0x54534F50, 0x20544547, 0x44414548, 0x4954504F} \<or>
     (nonce ! 4 = 0 \<and> nonce ! 5 = 0 \<and> nonce ! 6 = 0 \<and> nonce ! 7 = 0)"

text \<open>The bytes written and the ciphers, for the nonce that was drawn.\<close>

definition dialObfuscated2 :: "(bytes \<Rightarrow> bytes \<Rightarrow> bytes) \<Rightarrow> u8 \<Rightarrow> bytes \<Rightarrow> transport_error + bytes \<times> obf_ciphers" where
  "dialObfuscated2 E marker drawn =
     (let nonce = drawn[56 := marker, 57 := marker, 58 := marker, 59 := marker];
          encKey = go_slice nonce 8 40; encIV = go_slice nonce 40 56;
          reversed = map (\<lambda>i. nonce ! (55 - i)) [0..<48];
          decKey = take 32 reversed; decIV = go_slice reversed 32 48
      in case NewCTRCipher E encKey encIV of
           Inl e \<Rightarrow> Inl (ErrCipher e)
         | Inr enc \<Rightarrow>
             (case NewCTRCipher E decKey decIV of
                Inl e \<Rightarrow> Inl (ErrCipher e)
              | Inr dec \<Rightarrow>
                  let (encrypted, enc') = CTR_Process (E encKey) nonce enc
                  in Inr (take 56 nonce @ go_slice encrypted 56 64,
                          \<lparr>obf_encKey = encKey, obf_enc = enc', obf_decKey = decKey, obf_dec = dec\<rparr>)))"

definition acceptObfuscated2 :: "(bytes \<Rightarrow> bytes \<Rightarrow> bytes) \<Rightarrow> bytes \<Rightarrow> transport_error + obf_ciphers" where
  "acceptObfuscated2 E nonce =
     (let reversed = map (\<lambda>i. nonce ! (55 - i)) [0..<48];
          encKey = take 32 reversed; encIV = go_slice reversed 32 48;
          decKey = go_slice nonce 8 40; decIV = go_slice nonce 40 56
      in case NewCTRCipher E encKey encIV of
           Inl e \<Rightarrow> Inl (ErrCipher e)
         | Inr enc \<Rightarrow>
             (case NewCTRCipher E decKey decIV of
                Inl e \<Rightarrow> Inl (ErrCipher e)
              | Inr dec \<Rightarrow>
                  Inr \<lparr>obf_encKey = encKey, obf_enc = enc, obf_decKey = decKey,
                       obf_dec = snd (CTR_Process (E decKey) (replicate 64 0) dec)\<rparr>))"

record obfs_conn =
  ob_ws :: ws_conn
  ob_ciphers :: obf_ciphers

definition obfs_Read ::
  "(bytes \<Rightarrow> bytes \<Rightarrow> bytes) \<Rightarrow> (nat \<Rightarrow> bytes) \<Rightarrow> nat \<Rightarrow> obfs_conn \<Rightarrow> bytes \<Rightarrow> (ws_error + bytes) \<times> obfs_conn \<times> bytes \<times> bytes" where
  "obfs_Read E masks n c s =
     (case ws_Read masks n (ob_ws c) s of
        (Inl e, w1, s1, out) \<Rightarrow> (Inl e, c\<lparr>ob_ws := w1\<rparr>, s1, out)
      | (Inr b, w1, s1, out) \<Rightarrow>
          let (p, dec') = CTR_Process (E (obf_decKey (ob_ciphers c))) b (obf_dec (ob_ciphers c))
          in (Inr p, \<lparr>ob_ws = w1, ob_ciphers = (ob_ciphers c)\<lparr>obf_dec := dec'\<rparr>\<rparr>, s1, out))"

definition obfs_Write :: "(bytes \<Rightarrow> bytes \<Rightarrow> bytes) \<Rightarrow> bytes \<Rightarrow> bytes \<Rightarrow> obfs_conn \<Rightarrow> bytes \<times> obfs_conn" where
  "obfs_Write E maskKey p c =
     (let (encrypted, enc') = CTR_Process (E (obf_encKey (ob_ciphers c))) p (obf_enc (ob_ciphers c))
      in (ws_Write maskKey encrypted, c\<lparr>ob_ciphers := (ob_ciphers c)\<lparr>obf_enc := enc'\<rparr>\<rparr>))"

section \<open>Frames are read back\<close>

lemma ws_xor_length [simp]: "length (ws_xor k p) = length p"
  by (simp add: ws_xor_def)

lemma ws_xor_twice [simp]: "ws_xor k (ws_xor k p) = p"
  by (rule nth_equalityI) (simp_all add: ws_xor_def xor.assoc)

lemma low7: "w < 0x80 \<Longrightarrow> w AND 0x7F = (w :: u8)"
proof -
  assume "w < 0x80"
  then have "unat (take_bit 7 w) = unat w" by (simp add: unsigned_take_bit_eq take_bit_nat_eq_self word_less_nat_alt)
  then have "take_bit 7 w = w" by (simp only: word_unat_eq_iff)
  then show ?thesis by (simp add: take_bit_eq_mask mask_eq_exp_minus_1)
qed

lemma low7_flag: "w < 0x80 \<Longrightarrow> flag \<in> {0, 0x80} \<Longrightarrow> (w OR flag) AND 0x7F = (w :: u8)"
  using low7 [of w] by (auto simp: bit.conj_disj_distrib2)

lemma flag_bit: "w < 0x80 \<Longrightarrow> flag \<in> {0, 0x80} \<Longrightarrow> (w OR flag) AND 0x80 = (flag :: u8)"
proof -
  assume w: "w < 0x80" and f: "flag \<in> {0, 0x80}"
  have "w AND 0x80 = (w AND 0x7F) AND 0x80" using low7 [OF w] by simp
  also have "\<dots> = 0" by (simp add: and.assoc)
  finally show ?thesis using f by (auto simp: bit.conj_disj_distrib2)
qed

lemma op_low4: "(op OR wsFin) AND 0x0F = op AND (0x0F :: u8)"
  by (simp add: wsFin_def bit.conj_disj_distrib2)

lemma be16_bytes:
  assumes "n \<le> 65535"
  shows "[of_nat (n div 256), of_nat n] = rev (le_bytes 2 (of_nat n :: 16 word))"
proof -
  have u: "unat (of_nat n :: 16 word) = n" using assms by (simp add: unat_of_nat take_bit_eq_mod)
  have "unat (drop_bit 8 (of_nat n :: 16 word)) = n div 256" by (simp only: unat_drop_bit_eq u) (simp add: drop_bit_eq_div)
  then have "(ucast (drop_bit 8 (of_nat n :: 16 word)) :: u8) = of_nat (n div 256)" by (metis of_nat_unat)
  moreover have "(ucast (of_nat n :: 16 word) :: u8) = of_nat n" using u by (metis of_nat_unat)
  ultimately show ?thesis by (simp add: numeral_2_eq_2)
qed

lemma ws_length_read:
  assumes "n \<le> MaxPayloadLen" and "flag \<in> {0, 0x80}"
  obtains b r where "ws_write_length n flag = b # r" and "\<And>s. ws_read_length b (r @ s) = (Inr (int n), s)"
    and "b AND wsMask = flag"
proof -
  consider (small) "n \<le> 125" | (mid) "125 < n" "n \<le> 65535" | (big) "65535 < n" by linarith
  then show ?thesis
  proof cases
    case small
    then have u: "unat (of_nat n :: u8) = n" by (simp add: unat_of_nat take_bit_eq_mod)
    then have l: "(of_nat n :: u8) < 0x80" using small by (simp add: word_less_nat_alt)
    have ne: "(of_nat n :: u8) \<noteq> 126" "(of_nat n :: u8) \<noteq> 127" using small u by (auto simp: word_unat_eq_iff)
    have "uint (of_nat n :: u8) = int n" using u by (metis uint_nat)
    with small low7_flag [OF l assms(2)] flag_bit [OF l assms(2)] ne show ?thesis
      by (intro that [of "of_nat n OR flag" "[]"]) (simp_all add: ws_write_length_def ws_read_length_def ws_consts)
  next
    case mid
    have u: "uint (of_nat n :: 16 word) = int n" using mid by (simp add: unsigned_of_nat take_bit_nat_eq_self)
    have w: "le_word (le_bytes 2 (of_nat n :: 16 word)) = (of_nat n :: 16 word)" by (rule le_word_le_bytes_full) simp
    have "ws_read_length (wsLen16 OR flag) ([of_nat (n div 256), of_nat n] @ s) = (Inr (int n), s)" for s
      unfolding be16_bytes [OF mid(2)] ws_read_length_def
      using low7_flag [of wsLen16 flag] assms(2) u w by (simp add: ws_consts ws_then_def conn_ReadFull_append)
    with mid flag_bit [of wsLen16 flag] assms(2) show ?thesis
      by (intro that [of "wsLen16 OR flag" "[of_nat (n div 256), of_nat n]"]) (simp_all add: ws_write_length_def ws_consts)
  next
    case big
    have u: "sint (of_nat n :: i64) = int n"
      using assms(1) by (simp add: signed_of_nat signed_take_bit_int_eq_self MaxPayloadLen_def)
    have "ws_read_length (wsLen64 OR flag) (rev (le_bytes 8 (of_nat n :: i64)) @ s) = (Inr (int n), s)" for s
      using low7_flag [of wsLen64 flag] assms(2) u by (simp add: ws_read_length_def ws_consts ws_then_def conn_ReadFull_append)
    with big flag_bit [of wsLen64 flag] assms(2) show ?thesis
      by (intro that [of "wsLen64 OR flag" "rev (le_bytes 8 (of_nat n :: i64))"]) (simp_all add: ws_write_length_def ws_consts)
  qed
qed

text \<open>A frame of a peer: opcode, mask if any, payload.\<close>

definition peer_frame :: "u8 \<times> bytes option \<times> bytes \<Rightarrow> bytes" where
  "peer_frame f =
     (case f of
        (op, None, p) \<Rightarrow> [op OR wsFin] @ ws_write_length (length p) 0 @ p
      | (op, Some maskKey, p) \<Rightarrow> writeFrame maskKey op p)"

definition frame_ok :: "u8 \<times> bytes option \<times> bytes \<Rightarrow> bool" where
  "frame_ok f \<longleftrightarrow> length (snd (snd f)) \<le> MaxPayloadLen \<and> (\<forall>k. fst (snd f) = Some k \<longrightarrow> length k = 4)"

lemma readFrame_peer:
  assumes "frame_ok (op, m, p)"
  shows "readFrame (peer_frame (op, m, p) @ s) = (Inr (op AND 0x0F, p), s)"
proof -
  let ?flag = "if m = None then 0 else 0x80 :: u8"
  let ?tail = "case m of None \<Rightarrow> p | Some k \<Rightarrow> k @ ws_xor k p"
  have len: "length p \<le> MaxPayloadLen" using assms by (simp add: frame_ok_def)
  obtain b r where b: "ws_write_length (length p) ?flag = b # r"
    "\<And>s. ws_read_length b (r @ s) = (Inr (int (length p)), s)" "b AND wsMask = ?flag"
    using ws_length_read [OF len, of ?flag] by (metis insertCI)
  have f: "peer_frame (op, m, p) @ s = [op OR wsFin, b] @ r @ ?tail @ s"
    using b(1) by (cases m) (simp_all add: peer_frame_def writeFrame_def wsMask_def)
  have h: "conn_ReadFull 2 ([op OR wsFin, b] @ r @ ?tail @ s) = (Inr [op OR wsFin, b], r @ ?tail @ s)"
    by (rule conn_ReadFull_append) simp
  have "ws_read_payload (m \<noteq> None) (int (length p)) (?tail @ s) = (Inr p, s)"
    using assms len by (cases m) (auto simp: ws_read_payload_def ws_then_def frame_ok_def conn_ReadFull_append)
  moreover have "(b AND wsMask \<noteq> 0) = (m \<noteq> None)" using b(3) by simp
  ultimately show ?thesis
    unfolding readFrame_def f h using b(2) [of "?tail @ s"] by (simp add: ws_then_def op_low4)
qed

section \<open>The stream\<close>

text \<open>Frames a peer sends while the connection is open, and the data they carry.\<close>

definition stream_ok :: "u8 \<times> bytes option \<times> bytes \<Rightarrow> bool" where
  "stream_ok f \<longleftrightarrow> frame_ok f \<and> fst f \<in> {wsOpText, wsOpBinary, wsOpPing, wsOpPong}"

definition ws_data :: "(u8 \<times> bytes option \<times> bytes) list \<Rightarrow> bytes" where
  "ws_data fs = concat (map (\<lambda>(op, _, p). if op = wsOpBinary \<or> op = wsOpText then p else []) fs)"

abbreviation ws_wire :: "(u8 \<times> bytes option \<times> bytes) list \<Rightarrow> bytes" where
  "ws_wire fs \<equiv> concat (map peer_frame fs)"

lemma op_and: "op \<in> {wsOpText, wsOpBinary, wsOpPing, wsOpPong} \<Longrightarrow> op AND 0x0F = op"
  by (auto simp: ws_consts)

lemma ws_data_simps [simp]:
  "ws_data [] = []" "ws_data ((op, m, p) # fs) = (if op = wsOpBinary \<or> op = wsOpText then p else []) @ ws_data fs"
  by (simp_all add: ws_data_def)

lemma ws_fill_frames:
  assumes "list_all stream_ok fs" and "wc_readErr c = None" and "wc_readBuf c @ ws_data fs \<noteq> []"
  shows "\<exists>c' fs' w. ws_fill masks i c (ws_wire fs @ rest) = (None, c', ws_wire fs' @ rest, w) \<and> wc_readErr c' = None \<and>
           wc_readBuf c' \<noteq> [] \<and> wc_readBuf c' @ ws_data fs' = wc_readBuf c @ ws_data fs \<and> list_all stream_ok fs'"
  using assms
proof (induction fs arbitrary: c i)
  case Nil
  then show ?case by (intro exI [of _ c] exI [of _ "[]"]) (simp add: ws_fill.simps)
next
  case (Cons f fs)
  obtain op m p where f: "f = (op, m, p)" by (metis prod_cases3)
  have ok: "frame_ok (op, m, p)" "op \<in> {wsOpText, wsOpBinary, wsOpPing, wsOpPong}" "list_all stream_ok fs"
    using Cons.prems(1) stream_ok_def [of f] by (simp_all add: f)
  have r: "readFrame (ws_wire (f # fs) @ rest) = (Inr (op, p), ws_wire fs @ rest)"
    using readFrame_peer [OF ok(1)] op_and [OF ok(2)] by (simp add: f)
  show ?case
  proof (cases "wc_readBuf c = []")
    case False
    then show ?thesis using Cons.prems by (intro exI [of _ c] exI [of _ "f # fs"]) (simp add: ws_fill.simps)
  next
    case True
    show ?thesis
    proof (cases "op = wsOpBinary \<or> op = wsOpText")
      case data: True
      have "ws_fill masks i c (ws_wire (f # fs) @ rest) = ws_fill masks i (c\<lparr>wc_readBuf := p\<rparr>) (ws_wire fs @ rest)"
        using True data Cons.prems(2) r by (subst ws_fill.simps) simp
      moreover have "wc_readBuf (c\<lparr>wc_readBuf := p\<rparr>) @ ws_data fs \<noteq> []" using Cons.prems(3) True data by (simp add: f)
      ultimately show ?thesis
        using Cons.IH [OF ok(3), of "c\<lparr>wc_readBuf := p\<rparr>" i] Cons.prems(2) True data by (simp add: f)
    next
      case ctl: False
      have nc: "op \<noteq> wsOpClose" using ok(2) by (auto simp: ws_consts)
      have ne: "wc_readBuf c @ ws_data fs \<noteq> []" using Cons.prems(3) True ctl by (simp add: f)
      have e: "ws_fill masks i c (ws_wire (f # fs) @ rest) =
        (if op = wsOpPing
         then (let (res, c1, s2, w) = ws_fill masks (Suc i) c (ws_wire fs @ rest) in (res, c1, s2, writeControl (masks i) wsOpPong p @ w))
         else ws_fill masks i c (ws_wire fs @ rest))"
        using True ctl Cons.prems(2) r nc by (subst ws_fill.simps) simp
      moreover have d: "ws_data (f # fs) = ws_data fs" using ctl by (simp add: f)
      ultimately show ?thesis
      proof (cases "op = wsOpPing")
        case True
        from Cons.IH [OF ok(3) Cons.prems(2) ne, of "Suc i"] obtain c' fs' w where
          "ws_fill masks (Suc i) c (ws_wire fs @ rest) = (None, c', ws_wire fs' @ rest, w)" "wc_readErr c' = None" "wc_readBuf c' \<noteq> []"
          "wc_readBuf c' @ ws_data fs' = wc_readBuf c @ ws_data fs" "list_all stream_ok fs'" by blast
        with e True d show ?thesis by (intro exI [of _ c'] exI [of _ fs']) simp
      next
        case False
        with e d Cons.IH [OF ok(3) Cons.prems(2) ne, of i] show ?thesis by simp
      qed
    qed
  qed
qed

lemma ws_Read_frames:
  assumes "list_all stream_ok fs" and "wc_readErr c = None" and "wc_readBuf c @ ws_data fs \<noteq> []" and "0 < n"
  shows "\<exists>p c' fs' w. ws_Read masks n c (ws_wire fs @ rest) = (Inr p, c', ws_wire fs' @ rest, w) \<and> wc_readErr c' = None \<and>
           p \<noteq> [] \<and> length p \<le> n \<and> p @ wc_readBuf c' @ ws_data fs' = wc_readBuf c @ ws_data fs \<and> list_all stream_ok fs'"
proof -
  from ws_fill_frames [OF assms(1-3)] obtain c1 fs' w where r:
    "ws_fill masks 0 c (ws_wire fs @ rest) = (None, c1, ws_wire fs' @ rest, w)" "wc_readErr c1 = None" "wc_readBuf c1 \<noteq> []"
    "wc_readBuf c1 @ ws_data fs' = wc_readBuf c @ ws_data fs" "list_all stream_ok fs'" by blast
  have "take n (wc_readBuf c1) @ drop n (wc_readBuf c1) @ ws_data fs' = wc_readBuf c @ ws_data fs"
    using r(4) by (metis append.assoc append_take_drop_id)
  moreover have "take n (wc_readBuf c1) \<noteq> []" using r(3) assms(4) by simp
  ultimately show ?thesis
    unfolding ws_Read_def assms(2) option.case r(1) prod.case
    using r(2,5) by (intro exI [of _ "take n (wc_readBuf c1)"] exI [of _ "c1\<lparr>wc_readBuf := drop n (wc_readBuf c1)\<rparr>"] exI [of _ fs'] exI [of _ w]) simp
qed

section \<open>The obfuscated layer over the stream\<close>

text \<open>The WebSocket handshake is the one of the obfuscated TCP transport.\<close>

lemma dialObfuscated2_eq: "length drawn = 64 \<Longrightarrow> dialObfuscated2 E marker drawn = Obf_Connect E marker drawn"
  by (simp add: dialObfuscated2_def Obf_Connect_def obf_setup_def nonce_reversed_def go_slice_def case_prod_beta Let_def
      split: sum.split)

lemma acceptObfuscated2_eq: "acceptObfuscated2 E nonce = connectReverse E nonce"
  by (simp add: acceptObfuscated2_def connectReverse_def obf_setup_def nonce_reversed_def go_slice_def Let_def split: sum.split)

lemma le_word4_zero: "(le_word [a, b, c, d] :: u32) = 0 \<longleftrightarrow> a = 0 \<and> b = 0 \<and> c = 0 \<and> d = 0"
proof
  assume z: "(le_word [a, b, c, d] :: u32) = 0"
  have "le_bytes 4 (le_word [a, b, c, d] :: u32) = [a, b, c, d]" by (rule le_bytes_le_word) simp_all
  moreover have "le_bytes 4 (0 :: u32) = [0, 0, 0, 0]" by code_simp
  ultimately show "a = 0 \<and> b = 0 \<and> c = 0 \<and> d = 0" using z by simp
qed simp

lemma invalidObfuscated2Nonce_eq:
  assumes "8 \<le> length nonce"
  shows "invalidObfuscated2Nonce nonce = isForbiddenNonce nonce"
proof -
  have "go_slice nonce 4 8 = [nonce ! 4, nonce ! 5, nonce ! 6, nonce ! 7]"
    using assms by (intro nth_equalityI) (auto simp: go_slice_def nth_Cons numeral_eq_Suc less_Suc_eq split: nat.splits)
  then show ?thesis
    using assms le_word4_zero [of "nonce ! 4" "nonce ! 5" "nonce ! 6" "nonce ! 7"]
    by (auto simp: invalidObfuscated2Nonce_def isForbiddenNonce_def forbiddenFirstInts_def)
qed

lemma ws_fill_None:
  "ws_fill masks i c s = (None, c', s', w) \<Longrightarrow> wc_readErr c = None \<Longrightarrow> wc_readBuf c' \<noteq> []"
proof (induction "length s" arbitrary: i c s w rule: less_induct)
  case less
  note eq = less.prems(1) [unfolded ws_fill.simps [of masks i c s]]
  obtain r s1 where rf: "readFrame s = (r, s1)" by fastforce
  show ?case
  proof (cases "wc_readBuf c \<noteq> []")
    case True
    with eq less.prems(2) show ?thesis by auto
  next
    case False
    with eq rf less.prems(2) obtain op p where r: "r = Inr (op, p)" by (cases r) auto
    have IH: "ws_fill masks j d s1 = (None, c', s', v) \<Longrightarrow> wc_readErr d = None \<Longrightarrow> wc_readBuf c' \<noteq> []" for j d v
      using less.hyps [of s1] readFrame_shorter rf r by blast
    from False eq rf r less.prems(2) show ?thesis
      by (auto split: if_splits prod.splits dest: IH)
  qed
qed

lemma ws_Read_nonempty: "ws_Read masks n c s = (Inr p, c', s', w) \<Longrightarrow> 0 < n \<Longrightarrow> p \<noteq> []"
  by (auto simp: ws_Read_def split: option.splits if_splits prod.splits dest: ws_fill_None)

lemma obfs_Read_nonempty: "obfs_Read E masks n c s = (Inr p, c', s', w) \<Longrightarrow> 0 < n \<Longrightarrow> p \<noteq> []"
proof -
  assume a: "obfs_Read E masks n c s = (Inr p, c', s', w)" and n: "0 < n"
  then obtain b c1 where r: "ws_Read masks n (ob_ws c) s = (Inr b, c1, s', w)"
    and p: "p = fst (CTR_Process (E (obf_decKey (ob_ciphers c))) b (obf_dec (ob_ciphers c)))"
    by (auto simp: obfs_Read_def Let_def split: sum.splits prod.splits)
  from ws_Read_nonempty [OF r n] show ?thesis by (metis p CTR_Process_length length_0_conv)
qed

text \<open>\<^verbatim>\<open>io.ReadFull\<close> on the connection: every read returns at least a byte or an error.\<close>

function obfs_ReadFull :: "(bytes \<Rightarrow> bytes \<Rightarrow> bytes) \<Rightarrow> (nat \<Rightarrow> bytes) \<Rightarrow> nat \<Rightarrow> obfs_conn \<Rightarrow> bytes \<Rightarrow> (ws_error + bytes) \<times> obfs_conn \<times> bytes" where
  "obfs_ReadFull E masks n c s =
     (if n = 0 then (Inr [], c, s)
      else case obfs_Read E masks n c s of
             (Inl e, c1, s1, w) \<Rightarrow> (Inl e, c1, s1)
           | (Inr p, c1, s1, w) \<Rightarrow>
               (case obfs_ReadFull E masks (n - length p) c1 s1 of
                  (Inl e, c2, s2) \<Rightarrow> (Inl e, c2, s2)
                | (Inr q, c2, s2) \<Rightarrow> (Inr (p @ q), c2, s2)))"
  by pat_completeness auto
termination
  by (relation "measure (\<lambda>(_, _, n, _, _). n)") (auto dest: obfs_Read_nonempty [OF sym])

declare obfs_ReadFull.simps [simp del]

lemma obfs_ReadFull_frames:
  assumes "list_all stream_ok fs" and "wc_readErr (ob_ws c) = None" and "n \<le> length (wc_readBuf (ob_ws c) @ ws_data fs)"
    and "pl = fst (CTR_Process (E (obf_decKey (ob_ciphers c))) (wc_readBuf (ob_ws c) @ ws_data fs) (obf_dec (ob_ciphers c)))"
  shows "\<exists>c' s'. obfs_ReadFull E masks n c (ws_wire fs) = (Inr (take n pl), c', s')"
  using assms
proof (induction n arbitrary: fs c pl rule: less_induct)
  case (less n)
  show ?case
  proof (cases "n = 0")
    case True
    then show ?thesis by (simp add: obfs_ReadFull.simps)
  next
    case False
    then have ne: "wc_readBuf (ob_ws c) @ ws_data fs \<noteq> []" using less.prems(3) by auto
    from ws_Read_frames [OF less.prems(1,2) ne, of n masks "[]"] False obtain b w1 fs' out where r:
      "ws_Read masks n (ob_ws c) (ws_wire fs) = (Inr b, w1, ws_wire fs', out)" "wc_readErr w1 = None" "b \<noteq> []" "length b \<le> n"
      "b @ wc_readBuf w1 @ ws_data fs' = wc_readBuf (ob_ws c) @ ws_data fs" "list_all stream_ok fs'" by auto
    let ?e = "E (obf_decKey (ob_ciphers c))"
    obtain p d where p: "CTR_Process ?e b (obf_dec (ob_ciphers c)) = (p, d)" by fastforce
    have lp: "length p = length b" using CTR_Process_length [of ?e b "obf_dec (ob_ciphers c)"] p by simp
    define c1 where "c1 = \<lparr>ob_ws = w1, ob_ciphers = (ob_ciphers c)\<lparr>obf_dec := d\<rparr>\<rparr>"
    have rd: "obfs_Read E masks n c (ws_wire fs) = (Inr p, c1, ws_wire fs', out)" by (simp add: obfs_Read_def r(1) p c1_def)
    define pl1 where "pl1 = fst (CTR_Process ?e (wc_readBuf w1 @ ws_data fs') d)"
    have pl: "pl = p @ pl1"
      using CTR_Process_append [of ?e b "wc_readBuf w1 @ ws_data fs'" "obf_dec (ob_ciphers c)"] p
      by (simp add: less.prems(4) r(5) [symmetric] pl1_def case_prod_beta Let_def)
    have "n - length p \<le> length (wc_readBuf (ob_ws c1) @ ws_data fs')"
      using less.prems(3) r(5) lp by (metis c1_def obfs_conn.select_convs(1) diff_le_mono length_append diff_add_inverse)
    then obtain c2 s2 where "obfs_ReadFull E masks (n - length p) c1 (ws_wire fs') = (Inr (take (n - length p) pl1), c2, s2)"
      using less.IH [of "n - length p" fs' c1 pl1] r(2,3,6) lp False by (auto simp: c1_def pl1_def)
    with rd False show ?thesis
      using r(4) lp by (subst obfs_ReadFull.simps) (simp add: pl)
  qed
qed

section \<open>A connection delivers what is written\<close>

primrec obfs_send :: "(bytes \<Rightarrow> bytes \<Rightarrow> bytes) \<Rightarrow> obfs_conn \<Rightarrow> (bytes \<times> bytes) list \<Rightarrow> bytes \<times> obfs_conn" where
  "obfs_send E c [] = ([], c)"
| "obfs_send E c (kp # kps) =
     (let (w, c1) = obfs_Write E (fst kp) (snd kp) c; (ws, c2) = obfs_send E c1 kps in (w @ ws, c2))"

lemma ws_Write_frame: "ws_Write k p = peer_frame (wsOpBinary, Some k, p)"
  by (simp add: ws_Write_def peer_frame_def writeFrame_def ws_consts)

lemma obfs_send_frames:
  assumes "\<And>k p. (k, p) \<in> set kps \<Longrightarrow> length k = 4 \<and> length p \<le> MaxPayloadLen"
  shows "\<exists>fs. fst (obfs_send E c kps) = ws_wire fs \<and> list_all stream_ok fs \<and>
           ws_data fs = fst (CTR_Process (E (obf_encKey (ob_ciphers c))) (concat (map snd kps)) (obf_enc (ob_ciphers c)))"
  using assms
proof (induction kps arbitrary: c)
  case Nil
  show ?case by (intro exI [of _ "[]"]) simp
next
  case (Cons kp kps)
  obtain k p where kp: "kp = (k, p)" by fastforce
  let ?e = "E (obf_encKey (ob_ciphers c))"
  obtain x d where x: "CTR_Process ?e p (obf_enc (ob_ciphers c)) = (x, d)" by fastforce
  have lx: "length x = length p" using CTR_Process_length [of ?e p "obf_enc (ob_ciphers c)"] x by simp
  define c1 where "c1 = c\<lparr>ob_ciphers := (ob_ciphers c)\<lparr>obf_enc := d\<rparr>\<rparr>"
  have w: "obfs_Write E k p c = (peer_frame (wsOpBinary, Some k, x), c1)"
    by (simp add: obfs_Write_def x c1_def ws_Write_frame)
  from Cons.IH [of c1] Cons.prems obtain fs where fs: "fst (obfs_send E c1 kps) = ws_wire fs" "list_all stream_ok fs"
    "ws_data fs = fst (CTR_Process ?e (concat (map snd kps)) d)" by (auto simp: c1_def)
  have "stream_ok (wsOpBinary, Some k, x)" using Cons.prems [of k p] lx by (simp add: kp stream_ok_def frame_ok_def)
  moreover have "fst (CTR_Process ?e (p @ concat (map snd kps)) (obf_enc (ob_ciphers c))) = x @ ws_data fs"
    using x fs(3) by (simp add: CTR_Process_append case_prod_beta Let_def)
  ultimately show ?case
    using fs w by (intro exI [of _ "(wsOpBinary, Some k, x) # fs"]) (simp add: kp case_prod_beta)
qed

lemma obfs_delivers:
  assumes "\<And>k p. (k, p) \<in> set kps \<Longrightarrow> length k = 4 \<and> length p \<le> MaxPayloadLen" and "n \<le> length (concat (map snd kps))"
    and "obf_encKey (ob_ciphers c) = obf_decKey (ob_ciphers d)" and "obf_enc (ob_ciphers c) = obf_dec (ob_ciphers d)"
    and "ob_ws d = newWSConn"
  shows "\<exists>d' s'. obfs_ReadFull E masks n d (fst (obfs_send E c kps)) = (Inr (take n (concat (map snd kps))), d', s')"
proof -
  from obfs_send_frames [OF assms(1), where E = E and c = c] obtain fs where fs: "fst (obfs_send E c kps) = ws_wire fs" "list_all stream_ok fs"
    "ws_data fs = fst (CTR_Process (E (obf_encKey (ob_ciphers c))) (concat (map snd kps)) (obf_enc (ob_ciphers c)))" by blast
  have l: "length (ws_data fs) = length (concat (map snd kps))" by (simp add: fs(3))
  have "concat (map snd kps) = fst (CTR_Process (E (obf_decKey (ob_ciphers d))) (wc_readBuf (ob_ws d) @ ws_data fs) (obf_dec (ob_ciphers d)))"
    using CTR_Process_inverse [of "E (obf_decKey (ob_ciphers d))" "concat (map snd kps)" "obf_dec (ob_ciphers d)"]
    by (simp add: assms(3-5) newWSConn_def fs(3))
  from obfs_ReadFull_frames [where E = E and c = d, OF fs(2) _ _ this, of n masks] assms(2,5) l show ?thesis by (simp add: newWSConn_def fs(1))
qed

text \<open>Property C13 (roundtrip): a WebSocket connection delivers what is written, in both directions. For every drawn nonce the
  handshake of the two sides succeeds; then, whatever pieces one side writes, under any masks, the other reads any
  number of bytes up to their total and gets exactly the beginning of what was written, however the pieces
  were cut into frames and decrypted in parts.\<close>

theorem ws_connection_delivers:
  assumes "length drawn = 64"
  shows "\<exists>wire a b. dialObfuscated2 E marker drawn = Inr (wire, a) \<and> length wire = 64 \<and> acceptObfuscated2 E wire = Inr b \<and>
    (\<forall>kps n masks. (\<forall>(k, p) \<in> set kps. length k = 4 \<and> length p \<le> MaxPayloadLen) \<and> n \<le> length (concat (map snd kps)) \<longrightarrow>
       (\<exists>d s. obfs_ReadFull E masks n \<lparr>ob_ws = newWSConn, ob_ciphers = b\<rparr>
                (fst (obfs_send E \<lparr>ob_ws = newWSConn, ob_ciphers = a\<rparr> kps)) = (Inr (take n (concat (map snd kps))), d, s)) \<and>
       (\<exists>d s. obfs_ReadFull E masks n \<lparr>ob_ws = newWSConn, ob_ciphers = a\<rparr>
                (fst (obfs_send E \<lparr>ob_ws = newWSConn, ob_ciphers = b\<rparr> kps)) = (Inr (take n (concat (map snd kps))), d, s)))"
proof -
  obtain wire a b where h: "Obf_Connect E marker drawn = Inr (wire, a)" "length wire = 64" "connectReverse E wire = Inr b"
    "obf_encKey a = obf_decKey b" "obf_enc a = obf_dec b" "obf_decKey a = obf_encKey b" "obf_dec a = obf_enc b"
    by (rule obf_handshake [OF assms])
  have k: "length k = 4 \<and> length p \<le> MaxPayloadLen"
    if "\<forall>(k, p) \<in> set kps. length k = 4 \<and> length p \<le> MaxPayloadLen" "(k, p) \<in> set kps" for kps :: "(bytes \<times> bytes) list" and k p
    using that by auto
  show ?thesis
    using h dialObfuscated2_eq [OF assms] acceptObfuscated2_eq
    by (intro exI [of _ wire] exI [of _ a] exI [of _ b]) (auto intro!: obfs_delivers dest: k)
qed

theorem ws_connection_delivers_witness:
  "\<exists>wire a b. dialObfuscated2 (\<lambda>_. rev) 0xEE (replicate 64 5) = Inr (wire, a) \<and> acceptObfuscated2 (\<lambda>_. rev) wire = Inr b \<and>
     (\<exists>d s. obfs_ReadFull (\<lambda>_. rev) (\<lambda>_. [1, 2, 3, 4]) 3 \<lparr>ob_ws = newWSConn, ob_ciphers = b\<rparr>
        (fst (obfs_send (\<lambda>_. rev) \<lparr>ob_ws = newWSConn, ob_ciphers = a\<rparr> [([9, 9, 9, 9], [1, 2]), ([8, 8, 8, 8], [3, 4])])) = (Inr [1, 2, 3], d, s))"
proof -
  let ?kps = "[([9, 9, 9, 9], [1, 2]), ([8, 8, 8, 8], [3, 4])] :: (bytes \<times> bytes) list"
  obtain wire a b where h: "dialObfuscated2 (\<lambda>_. rev) 0xEE (replicate 64 5) = Inr (wire, a)" "acceptObfuscated2 (\<lambda>_. rev) wire = Inr b"
    and d: "\<forall>kps n masks. (\<forall>(k, p) \<in> set kps. length k = 4 \<and> length p \<le> MaxPayloadLen) \<and> n \<le> length (concat (map snd kps)) \<longrightarrow>
       (\<exists>d s. obfs_ReadFull (\<lambda>_. rev) masks n \<lparr>ob_ws = newWSConn, ob_ciphers = b\<rparr>
                (fst (obfs_send (\<lambda>_. rev) \<lparr>ob_ws = newWSConn, ob_ciphers = a\<rparr> kps)) = (Inr (take n (concat (map snd kps))), d, s))"
    using ws_connection_delivers [where drawn = "replicate 64 5" and E = "\<lambda>_. rev" and marker = "0xEE"] by auto
  have "(\<forall>(k, p) \<in> set ?kps. length k = 4 \<and> length p \<le> MaxPayloadLen) \<and> 3 \<le> length (concat (map snd ?kps))"
    by (simp add: MaxPayloadLen_def)
  from d [rule_format, OF this, of "\<lambda>_. [1, 2, 3, 4]"] h show ?thesis by auto
qed

section \<open>Defects\<close>

text \<open>A defect: the continuation of a fragmented message is dropped. A message in two frames, the first without FIN and the second
  with opcode 0, is read as its first part only.\<close>

lemma continuation_dropped:
  assumes "length p \<le> MaxPayloadLen" and "list_all stream_ok fs" and "wc_readErr c = None" and "wc_readBuf c = []"
  shows "ws_fill masks i c (peer_frame (0, None, p) @ ws_wire fs @ rest) = ws_fill masks i c (ws_wire fs @ rest)"
proof -
  have "readFrame (peer_frame (0, None, p) @ ws_wire fs @ rest) = (Inr (0, p), ws_wire fs @ rest)"
    using readFrame_peer [of 0 None p "ws_wire fs @ rest"] assms(1) by (simp add: frame_ok_def)
  then show ?thesis using assms(3,4) by (subst ws_fill.simps) (simp add: ws_consts)
qed

text \<open>A defect: the answer to a ping with a payload of 128 bytes announces an empty payload.\<close>

lemma pong_length_wraps:
  "length payload = 128 \<Longrightarrow> writeControl k wsOpPong payload = [0x8A, 0x80] @ k @ ws_xor k payload"
  by (simp add: writeControl_def ws_consts)

end
