(* ===== verification/Peer_Cache.thy ===== *)
theory Peer_Cache
  imports Peer_Ids Memory_Storage
begin

text \<open>
  The cache of peers with their access hashes, \<^verbatim>\<open>src/telegram/peers\<close>: \<^verbatim>\<open>manager.go\<close>, \<^verbatim>\<open>cache.go\<close>, \<^verbatim>\<open>ingest.go\<close>,
  \<^verbatim>\<open>anchors.go\<close> and Invalidate of \<^verbatim>\<open>invalidation.go\<close>, and the peers of the in-memory adapter of
  \<^verbatim>\<open>src/internal/storage/storage.go\<close>. Everything outside the manager, the persistent store and the server, is one
  state \<open>'w\<close>; the store is a record of operations on it. Each operation is one critical section or, as the code
  has it, a sequence of them by one caller. Maps are association lists, times are nanoseconds. The keys of the maps
  of times the code forgets to delete are kept.
\<close>

section \<open>Definitions\<close>

text \<open>The constructors of \<^verbatim>\<open>tg.InputPeerClass\<close>.\<close>

datatype input_peer =
    InputPeerEmpty
  | InputPeerSelf
  | InputPeerChat i64
  | InputPeerUser i64 i64
  | InputPeerChannel i64 i64
  | InputPeerUserFromMessage input_peer u32 i64
  | InputPeerChannelFromMessage input_peer i64 u32

text \<open>Entities, with the fields the peer manager reads. \<open>UserOther\<close> and \<open>ChatOther\<close> are the constructors the type
  switches skip.\<close>

record tg_user =
  u_ID :: i64
  u_AccessHash :: i64
  u_Min :: bool
  u_Username :: string
  u_Phone :: string
  u_FirstName :: string
  u_LastName :: string
  u_Bot :: bool
  u_LangCode :: string

record tg_channel =
  c_ID :: i64
  c_AccessHash :: i64
  c_Min :: bool
  c_Username :: string

datatype user_class = User tg_user | UserOther

datatype chat_class = Chat i64 | Channel tg_channel | ChatOther

subsection \<open>The store\<close>

text \<open>\<^verbatim>\<open>Store\<close>: the callers treat an error of SavePeer, GetPeer and DeletePeer like success without a result. The
  last field is the optional \<^verbatim>\<open>PhoneStore\<close>.\<close>

record 'w peer_store =
  st_SavePeer :: "peer \<Rightarrow> 'w \<Rightarrow> 'w"
  st_GetPeer :: "i64 \<Rightarrow> 'w \<Rightarrow> peer option"
  st_LoadPeers :: "'w \<Rightarrow> peer list option"
  st_DeletePeer :: "i64 \<Rightarrow> 'w \<Rightarrow> 'w"
  st_GetPeerByPhone :: "(string \<Rightarrow> 'w \<Rightarrow> peer option) option"

text \<open>The peers of the in-memory adapter of \<^verbatim>\<open>storage.go\<close>: a save replaces the whole record.\<close>

record memory_adapter =
  ma_peers :: "(i64 \<times> peer) list"
  ma_peerByUsername :: "(string \<times> i64) list"

definition newMemoryAdapter :: memory_adapter where
  "newMemoryAdapter = \<lparr>ma_peers = [], ma_peerByUsername = []\<rparr>"

definition ma_SavePeer :: "peer \<Rightarrow> memory_adapter \<Rightarrow> memory_adapter" where
  "ma_SavePeer p m =
     m\<lparr>ma_peers := AList.update (pr_ID p) p (ma_peers m),
       ma_peerByUsername :=
         (if pr_Username p \<noteq> [] then AList.update (pr_Username p) (pr_ID p) (ma_peerByUsername m) else ma_peerByUsername m)\<rparr>"

definition ma_GetPeer :: "i64 \<Rightarrow> memory_adapter \<Rightarrow> peer option" where
  "ma_GetPeer i m = map_of (ma_peers m) i"

definition ma_GetPeerByUsername :: "string \<Rightarrow> memory_adapter \<Rightarrow> peer option" where
  "ma_GetPeerByUsername username m =
     (case map_of (ma_peerByUsername m) username of None \<Rightarrow> None | Some i \<Rightarrow> map_of (ma_peers m) i)"

definition ma_LoadPeers :: "memory_adapter \<Rightarrow> peer list" where
  "ma_LoadPeers m = map snd (ma_peers m)"

definition ma_DeletePeer :: "i64 \<Rightarrow> memory_adapter \<Rightarrow> memory_adapter" where
  "ma_DeletePeer i m =
     (case map_of (ma_peers m) i of
        None \<Rightarrow> m
      | Some p \<Rightarrow>
          m\<lparr>ma_peerByUsername :=
              (if pr_Username p \<noteq> [] then AList.delete (pr_Username p) (ma_peerByUsername m) else ma_peerByUsername m),
            ma_peers := AList.delete i (ma_peers m)\<rparr>)"

text \<open>The two stores of the repository as \<^verbatim>\<open>Store\<close> values. Only \<^verbatim>\<open>MemoryStorage\<close> has GetPeerByPhone.\<close>

definition adapter_store :: "memory_adapter peer_store" where
  "adapter_store =
     \<lparr>st_SavePeer = ma_SavePeer, st_GetPeer = ma_GetPeer, st_LoadPeers = (\<lambda>m. Some (ma_LoadPeers m)),
      st_DeletePeer = ma_DeletePeer, st_GetPeerByPhone = None\<rparr>"

definition memory_store :: "'auth memory_storage peer_store" where
  "memory_store =
     \<lparr>st_SavePeer = SavePeer, st_GetPeer = GetPeer, st_LoadPeers = (\<lambda>m. Some (LoadPeers m)),
      st_DeletePeer = DeletePeer, st_GetPeerByPhone = Some GetPeerByPhone\<rparr>"

subsection \<open>The manager\<close>

text \<open>\<^verbatim>\<open>Deps\<close>, read at the call: what its functions return. The store is None when there is none; a missing IndexTTL is
  the default one.\<close>

record 'w deps =
  CacheSize :: int
  SavePeers :: bool
  IsBot :: bool
  IndexTTL :: "int option"
  Store :: "'w peer_store option"

definition DefaultIndexTTL :: int where "DefaultIndexTTL = 24 * 3600 * 1000000000"

definition indexTTL :: "'w deps \<Rightarrow> int" where
  "indexTTL d = (case IndexTTL d of None \<Rightarrow> DefaultIndexTTL | Some ttl \<Rightarrow> ttl)"

record anchor =
  an_chatID :: i64
  an_msgID :: u32

record anchor_store =
  as_byPeer :: "(i64 \<times> anchor) list"
  as_order :: "i64 list"
  as_limit :: int

record 'w manager =
  byID :: "(i64 \<times> input_peer) list"
  idOrder :: "i64 list"
  usernameToID :: "(string \<times> i64) list"
  idToUsername :: "(i64 \<times> string) list"
  usernameOrder :: "string list"
  phoneToID :: "(string \<times> i64) list"
  idToPhone :: "(i64 \<times> string) list"
  phoneOrder :: "string list"
  usernameSeen :: "(string \<times> int) list"
  phoneSeen :: "(string \<times> int) list"
  anchors :: "anchor_store option"
  outside :: 'w

definition NewManager :: "'w \<Rightarrow> 'w manager" where
  "NewManager w =
     \<lparr>byID = [], idOrder = [], usernameToID = [], idToUsername = [], usernameOrder = [], phoneToID = [], idToPhone = [],
      phoneOrder = [], usernameSeen = [], phoneSeen = [], anchors = None, outside = w\<rparr>"

definition Reset :: "'w manager \<Rightarrow> 'w manager" where
  "Reset m =
     m\<lparr>byID := [], idOrder := [], usernameToID := [], idToUsername := [], usernameOrder := [], phoneToID := [], idToPhone := [],
       phoneOrder := [], usernameSeen := [], phoneSeen := []\<rparr>"

subsection \<open>Identifiers\<close>

definition peerLookupIDs :: "i64 \<Rightarrow> i64 list" where
  "peerLookupIDs i = (case UnmarkChannel i of (raw, True) \<Rightarrow> [raw, i] | (_, False) \<Rightarrow> [i])"

definition canonicalPeerID :: "i64 \<Rightarrow> input_peer \<Rightarrow> i64" where
  "canonicalPeerID i peer =
     (let unmarked = (case UnmarkChannel i of (raw, True) \<Rightarrow> raw | (_, False) \<Rightarrow> i)
      in case peer of InputPeerChannel c h \<Rightarrow> (if c \<noteq> 0 then c else unmarked) | _ \<Rightarrow> unmarked)"

fun preserveAccessHash :: "input_peer \<Rightarrow> input_peer \<Rightarrow> input_peer" where
  "preserveAccessHash (InputPeerChannel c' e) (InputPeerChannel c h) =
     (if h = 0 \<and> e \<noteq> 0 then InputPeerChannel c e else InputPeerChannel c h)"
| "preserveAccessHash (InputPeerUser u' e) (InputPeerUser u h) =
     (if h = 0 \<and> e \<noteq> 0 then InputPeerUser u e else InputPeerUser u h)"
| "preserveAccessHash existing incoming = incoming"

subsection \<open>Usernames\<close>

definition deleteUsernameLocked :: "string \<Rightarrow> 'w manager \<Rightarrow> 'w manager" where
  "deleteUsernameLocked username m =
     m\<lparr>idToUsername := (case map_of (usernameToID m) username of
                          Some i \<Rightarrow> AList.delete i (idToUsername m)
                        | None \<Rightarrow> idToUsername m),
       usernameToID := AList.delete username (usernameToID m),
       usernameSeen := AList.delete username (usernameSeen m)\<rparr>"

definition cacheUsernameLocked :: "int \<Rightarrow> string \<Rightarrow> i64 \<Rightarrow> 'w manager \<Rightarrow> 'w manager" where
  "cacheUsernameLocked now username i m =
     (let order = (if map_of (usernameToID m) username = None then usernameOrder m @ [username] else usernameOrder m);
          (names, seen) =
            (case map_of (idToUsername m) i of
               Some prev \<Rightarrow> if prev \<noteq> username then (AList.delete prev (usernameToID m), AList.delete prev (usernameSeen m))
                            else (usernameToID m, usernameSeen m)
             | None \<Rightarrow> (usernameToID m, usernameSeen m))
      in m\<lparr>usernameOrder := order, usernameToID := AList.update username i names,
           idToUsername := AList.update i username (idToUsername m), usernameSeen := AList.update username now seen\<rparr>)"

text \<open>The eviction loop runs over the order list, from its front, until the map has at most \<open>limit\<close> entries.\<close>

fun evict_usernames :: "int \<Rightarrow> string list \<Rightarrow> 'w manager \<Rightarrow> 'w manager" where
  "evict_usernames limit [] m = m\<lparr>usernameOrder := []\<rparr>"
| "evict_usernames limit (oldest # rest) m =
     (if limit < int (length (usernameToID m)) then evict_usernames limit rest (deleteUsernameLocked oldest m)
      else m\<lparr>usernameOrder := oldest # rest\<rparr>)"

definition CacheUsername :: "'w deps \<Rightarrow> int \<Rightarrow> string \<Rightarrow> i64 \<Rightarrow> 'w manager \<Rightarrow> 'w manager" where
  "CacheUsername d now username i m =
     (let m = cacheUsernameLocked now username i m; limit = CacheSize d
      in if limit \<le> 0 \<or> int (length (usernameToID m)) \<le> limit then m
         else evict_usernames limit (usernameOrder m) m)"

subsection \<open>Phone numbers\<close>

definition NormalizePhone :: "string \<Rightarrow> string" where
  "NormalizePhone phone = trim_prefix ''00'' (trim_prefix ''+'' (TrimSpace phone))"

fun evict_phones :: "int \<Rightarrow> string list \<Rightarrow> 'w manager \<Rightarrow> 'w manager" where
  "evict_phones limit [] m = m\<lparr>phoneOrder := []\<rparr>"
| "evict_phones limit (oldest # rest) m =
     (if limit < int (length (phoneToID m)) then evict_phones limit rest (m\<lparr>phoneToID := AList.delete oldest (phoneToID m)\<rparr>)
      else m\<lparr>phoneOrder := oldest # rest\<rparr>)"

definition CachePhone :: "'w deps \<Rightarrow> int \<Rightarrow> string \<Rightarrow> i64 \<Rightarrow> 'w manager \<Rightarrow> 'w manager" where
  "CachePhone d now raw_phone i m =
     (let phone = NormalizePhone raw_phone
      in if phone = [] then m
         else
           let order = (if map_of (phoneToID m) phone = None then phoneOrder m @ [phone] else phoneOrder m);
               numbers = (case map_of (idToPhone m) i of
                            Some prev \<Rightarrow> if prev \<noteq> phone then AList.delete prev (phoneToID m) else phoneToID m
                          | None \<Rightarrow> phoneToID m);
               m = m\<lparr>phoneOrder := order, phoneToID := AList.update phone i numbers,
                     idToPhone := AList.update i phone (idToPhone m), phoneSeen := AList.update phone now (phoneSeen m)\<rparr>;
               limit = CacheSize d
           in if limit \<le> 0 \<or> int (length (phoneToID m)) \<le> limit then m
              else evict_phones limit (phoneOrder m) m)"

definition LookupUsername :: "'w manager \<Rightarrow> i64 \<Rightarrow> string" where
  "LookupUsername m i = (case map_of (idToUsername m) i of None \<Rightarrow> [] | Some u \<Rightarrow> u)"

definition LookupPhone :: "'w manager \<Rightarrow> i64 \<Rightarrow> string" where
  "LookupPhone m i = (case map_of (idToPhone m) i of None \<Rightarrow> [] | Some p \<Rightarrow> p)"

subsection \<open>Peers\<close>

definition evict_id :: "i64 \<Rightarrow> 'w manager \<Rightarrow> 'w manager" where
  "evict_id oldest m =
     (let m = m\<lparr>byID := AList.delete oldest (byID m)\<rparr>
      in case map_of (idToUsername m) oldest of Some u \<Rightarrow> deleteUsernameLocked u m | None \<Rightarrow> m)"

fun evict_ids :: "int \<Rightarrow> i64 list \<Rightarrow> 'w manager \<Rightarrow> 'w manager" where
  "evict_ids limit [] m = m\<lparr>idOrder := []\<rparr>"
| "evict_ids limit (oldest # rest) m =
     (if limit < int (length (byID m)) then evict_ids limit rest (evict_id oldest m)
      else m\<lparr>idOrder := oldest # rest\<rparr>)"

definition evictOldestLocked :: "'w deps \<Rightarrow> 'w manager \<Rightarrow> 'w manager" where
  "evictOldestLocked d m =
     (let limit = CacheSize d
      in if limit \<le> 0 \<or> int (length (byID m)) \<le> limit then m else evict_ids limit (idOrder m) m)"

definition empty_peer :: peer where
  "empty_peer =
     \<lparr>pr_ID = 0, pr_Type = PeerTypeOther, pr_AccessHash = 0, pr_Username = [], pr_FirstName = [], pr_LastName = [],
      pr_PhoneNumber = [], pr_IsBot = False, pr_Language = []\<rparr>"

text \<open>The record Cache writes to the store, none for a kind it does not know.\<close>

fun cache_entry :: "i64 \<Rightarrow> input_peer \<Rightarrow> peer option" where
  "cache_entry i (InputPeerUser u h) = Some (empty_peer\<lparr>pr_ID := i, pr_Type := PeerTypeUser, pr_AccessHash := h\<rparr>)"
| "cache_entry i (InputPeerChat c) = Some (empty_peer\<lparr>pr_ID := i, pr_Type := PeerTypeChat\<rparr>)"
| "cache_entry i (InputPeerChannel c h) = Some (empty_peer\<lparr>pr_ID := c, pr_Type := PeerTypeChannel, pr_AccessHash := h\<rparr>)"
| "cache_entry i _ = None"

definition Cache :: "'w deps \<Rightarrow> i64 \<Rightarrow> input_peer \<Rightarrow> 'w manager \<Rightarrow> 'w manager" where
  "Cache d raw_id incoming m =
     (let i = canonicalPeerID raw_id incoming;
          peer = (case map_of (byID m) i of Some existing \<Rightarrow> preserveAccessHash existing incoming | None \<Rightarrow> incoming);
          order = (if map_of (byID m) i = None then idOrder m @ [i] else idOrder m);
          m = evictOldestLocked d (m\<lparr>idOrder := order, byID := AList.update i peer (byID m)\<rparr>)
      in case (if SavePeers d then Store d else None) of
           None \<Rightarrow> m
         | Some ps \<Rightarrow> (case cache_entry i peer of None \<Rightarrow> m | Some entry \<Rightarrow> m\<lparr>outside := st_SavePeer ps entry (outside m)\<rparr>))"

definition peerFromStorageEntry :: "peer \<Rightarrow> input_peer option" where
  "peerFromStorageEntry p =
     (case pr_Type p of
        PeerTypeUser \<Rightarrow> Some (InputPeerUser (pr_ID p) (pr_AccessHash p))
      | PeerTypeChat \<Rightarrow> Some (InputPeerChat (pr_ID p))
      | PeerTypeChannel \<Rightarrow> Some (InputPeerChannel (pr_ID p) (pr_AccessHash p))
      | PeerTypeOther \<Rightarrow> None)"

fun unmark_peer :: "input_peer \<Rightarrow> input_peer" where
  "unmark_peer (InputPeerChannel c h) = (case UnmarkChannel c of (raw, True) \<Rightarrow> InputPeerChannel raw h | (_, False) \<Rightarrow> InputPeerChannel c h)"
| "unmark_peer p = p"

text \<open>The part of Cached that asks the store; None is \<^verbatim>\<open>ErrNotFound\<close>, the only error there is.\<close>

fun cached_store :: "'w deps \<Rightarrow> int \<Rightarrow> 'w peer_store \<Rightarrow> i64 list \<Rightarrow> 'w manager \<Rightarrow> input_peer option \<times> 'w manager" where
  "cached_store d now ps [] m = (None, m)"
| "cached_store d now ps (lookupID # ids) m =
     (case st_GetPeer ps lookupID (outside m) of
        None \<Rightarrow> cached_store d now ps ids m
      | Some p \<Rightarrow>
          (case peerFromStorageEntry p of
             None \<Rightarrow> (None, m)
           | Some q \<Rightarrow>
               let peer = unmark_peer q;
                   m = Cache d lookupID peer m;
                   m = (if pr_Username p \<noteq> [] then CacheUsername d now (pr_Username p) (pr_ID p) m else m);
                   m = (if pr_PhoneNumber p \<noteq> [] then CachePhone d now (pr_PhoneNumber p) (pr_ID p) m else m)
               in (Some peer, m)))"

definition Cached :: "'w deps \<Rightarrow> int \<Rightarrow> i64 \<Rightarrow> 'w manager \<Rightarrow> input_peer option \<times> 'w manager" where
  "Cached d now i m =
     (case List.find (\<lambda>k. map_of (byID m) k \<noteq> None) (peerLookupIDs i) of
        Some k \<Rightarrow> (map_of (byID m) k, m)
      | None \<Rightarrow>
          (case (if SavePeers d then Store d else None) of
             None \<Rightarrow> (None, m)
           | Some ps \<Rightarrow> cached_store d now ps (peerLookupIDs i) m))"

text \<open>\<^verbatim>\<open>time.Since\<close> of a time that was never recorded, the zero time, is the largest duration.\<close>

definition freshLocked :: "'w deps \<Rightarrow> int \<Rightarrow> int option \<Rightarrow> bool" where
  "freshLocked d now at \<longleftrightarrow>
     (let ttl = indexTTL d
      in ttl \<le> 0 \<or> (case at of None \<Rightarrow> 2 ^ 63 - 1 | Some t \<Rightarrow> now - t) \<le> ttl)"

definition cachedByUsername :: "'w deps \<Rightarrow> int \<Rightarrow> string \<Rightarrow> 'w manager \<Rightarrow> input_peer option \<times> 'w manager" where
  "cachedByUsername d now username m =
     (case map_of (usernameToID m) username of
        None \<Rightarrow> (None, m)
      | Some cachedID \<Rightarrow>
          (case (if freshLocked d now (map_of (usernameSeen m) username) then map_of (byID m) cachedID else None) of
             Some p \<Rightarrow> (Some p, m)
           | None \<Rightarrow> (None, deleteUsernameLocked username m)))"

definition cachedByPhone :: "'w deps \<Rightarrow> int \<Rightarrow> string \<Rightarrow> 'w manager \<Rightarrow> input_peer option \<times> 'w manager" where
  "cachedByPhone d now phone m =
     (case map_of (phoneToID m) phone of
        None \<Rightarrow> (None, m)
      | Some cachedID \<Rightarrow>
          (case (if freshLocked d now (map_of (phoneSeen m) phone) then map_of (byID m) cachedID else None) of
             Some p \<Rightarrow> (Some p, m)
           | None \<Rightarrow>
               (None, m\<lparr>idToPhone := (if map_of (idToPhone m) cachedID = Some phone then AList.delete cachedID (idToPhone m)
                                       else idToPhone m),
                        phoneToID := AList.delete phone (phoneToID m),
                        phoneSeen := AList.delete phone (phoneSeen m)\<rparr>)))"

text \<open>Invalidate drops the entries of every form of an identifier.\<close>

definition invalidate_username :: "i64 \<Rightarrow> 'w manager \<Rightarrow> 'w manager" where
  "invalidate_username key m =
     (case map_of (idToUsername m) key of
        Some u \<Rightarrow> m\<lparr>usernameToID := AList.delete u (usernameToID m), idToUsername := AList.delete key (idToUsername m)\<rparr>
      | None \<Rightarrow> m)"

definition invalidate_phone :: "i64 \<Rightarrow> 'w manager \<Rightarrow> 'w manager" where
  "invalidate_phone key m =
     (case map_of (idToPhone m) key of
        Some p \<Rightarrow> m\<lparr>phoneToID := AList.delete p (phoneToID m), idToPhone := AList.delete key (idToPhone m)\<rparr>
      | None \<Rightarrow> m)"

definition invalidate_key :: "i64 \<Rightarrow> 'w manager \<Rightarrow> 'w manager" where
  "invalidate_key key m =
     (let m = invalidate_phone key (invalidate_username key m) in m\<lparr>byID := AList.delete key (byID m)\<rparr>)"

definition Invalidate :: "'w deps \<Rightarrow> i64 \<Rightarrow> 'w manager \<Rightarrow> 'w manager" where
  "Invalidate d i m =
     (let m = fold invalidate_key (peerLookupIDs i) m
      in case Store d of
           None \<Rightarrow> m
         | Some ps \<Rightarrow> m\<lparr>outside := fold (st_DeletePeer ps) (peerLookupIDs i) (outside m)\<rparr>)"

subsection \<open>Entities\<close>

definition persist :: "'w deps \<Rightarrow> peer list \<Rightarrow> 'w manager \<Rightarrow> 'w manager" where
  "persist d entries m =
     (if \<not> SavePeers d \<or> entries = [] then m
      else case Store d of None \<Rightarrow> m | Some ps \<Rightarrow> m\<lparr>outside := fold (st_SavePeer ps) entries (outside m)\<rparr>)"

definition cache_names :: "'w deps \<Rightarrow> int \<Rightarrow> string \<Rightarrow> string \<Rightarrow> i64 \<Rightarrow> 'w manager \<Rightarrow> 'w manager" where
  "cache_names d now username phone i m =
     (let m = (if username \<noteq> [] then CacheUsername d now username i m else m)
      in if phone \<noteq> [] then CachePhone d now phone i m else m)"

definition user_entry :: "tg_user \<Rightarrow> i64 \<Rightarrow> peer" where
  "user_entry u hash =
     \<lparr>pr_ID = u_ID u, pr_Type = PeerTypeUser, pr_AccessHash = hash, pr_Username = u_Username u, pr_FirstName = u_FirstName u,
      pr_LastName = u_LastName u, pr_PhoneNumber = u_Phone u, pr_IsBot = u_Bot u, pr_Language = u_LangCode u\<rparr>"

definition channel_entry :: "tg_channel \<Rightarrow> i64 \<Rightarrow> peer" where
  "channel_entry c hash =
     empty_peer\<lparr>pr_ID := c_ID c, pr_Type := PeerTypeChannel, pr_AccessHash := hash, pr_Username := c_Username c\<rparr>"

definition chat_entry :: "i64 \<Rightarrow> peer" where
  "chat_entry c = empty_peer\<lparr>pr_ID := c, pr_Type := PeerTypeChat\<rparr>"

definition user_hash :: "tg_user \<Rightarrow> i64" where
  "user_hash u = (if u_Min u then 0 else u_AccessHash u)"

definition channel_hash :: "tg_channel \<Rightarrow> i64" where
  "channel_hash c = (if c_Min c then 0 else c_AccessHash c)"

text \<open>The loops of Ingest and ingestResolved over users and chats; they return the entries to persist. A min entity
  counts as one without hash in Ingest; ingestResolved skips the entities without hash.\<close>

fun ingest_users :: "'w deps \<Rightarrow> int \<Rightarrow> user_class list \<Rightarrow> 'w manager \<Rightarrow> peer list \<times> 'w manager" where
  "ingest_users d now [] m = ([], m)"
| "ingest_users d now (UserOther # us) m = ingest_users d now us m"
| "ingest_users d now (User u # us) m =
     (let hash = user_hash u;
          m = cache_names d now (u_Username u) (u_Phone u) (u_ID u) (Cache d (u_ID u) (InputPeerUser (u_ID u) hash) m);
          (entries, m) = ingest_users d now us m
      in (user_entry u hash # entries, m))"

fun ingest_chats :: "'w deps \<Rightarrow> int \<Rightarrow> chat_class list \<Rightarrow> 'w manager \<Rightarrow> peer list \<times> 'w manager" where
  "ingest_chats d now [] m = ([], m)"
| "ingest_chats d now (ChatOther # cs) m = ingest_chats d now cs m"
| "ingest_chats d now (Chat c # cs) m =
     (let (entries, m) = ingest_chats d now cs (Cache d c (InputPeerChat c) m) in (chat_entry c # entries, m))"
| "ingest_chats d now (Channel c # cs) m =
     (let hash = channel_hash c;
          m = cache_names d now (c_Username c) [] (c_ID c) (Cache d (c_ID c) (InputPeerChannel (c_ID c) hash) m);
          (entries, m) = ingest_chats d now cs m
      in (channel_entry c hash # entries, m))"

definition Ingest :: "'w deps \<Rightarrow> int \<Rightarrow> user_class list \<Rightarrow> chat_class list \<Rightarrow> 'w manager \<Rightarrow> 'w manager" where
  "Ingest d now users chats m =
     (let (es, m) = ingest_users d now users m; (es', m) = ingest_chats d now chats m in persist d (es @ es') m)"

fun resolved_users :: "'w deps \<Rightarrow> int \<Rightarrow> user_class list \<Rightarrow> 'w manager \<Rightarrow> peer list \<times> 'w manager" where
  "resolved_users d now [] m = ([], m)"
| "resolved_users d now (UserOther # us) m = resolved_users d now us m"
| "resolved_users d now (User u # us) m =
     (if u_AccessHash u = 0 then resolved_users d now us m
      else
        let m = cache_names d now (u_Username u) (u_Phone u) (u_ID u) (Cache d (u_ID u) (InputPeerUser (u_ID u) (u_AccessHash u)) m);
            (entries, m) = resolved_users d now us m
        in (user_entry u (u_AccessHash u) # entries, m))"

fun resolved_chats :: "'w deps \<Rightarrow> int \<Rightarrow> chat_class list \<Rightarrow> 'w manager \<Rightarrow> peer list \<times> 'w manager" where
  "resolved_chats d now [] m = ([], m)"
| "resolved_chats d now (ChatOther # cs) m = resolved_chats d now cs m"
| "resolved_chats d now (Chat c # cs) m =
     (let (entries, m) = resolved_chats d now cs (Cache d c (InputPeerChat c) m) in (chat_entry c # entries, m))"
| "resolved_chats d now (Channel c # cs) m =
     (if c_AccessHash c = 0 then resolved_chats d now cs m
      else
        let m = cache_names d now (c_Username c) [] (c_ID c) (Cache d (c_ID c) (InputPeerChannel (c_ID c) (c_AccessHash c)) m);
            (entries, m) = resolved_chats d now cs m
        in (channel_entry c (c_AccessHash c) # entries, m))"

definition ingestResolved :: "'w deps \<Rightarrow> int \<Rightarrow> user_class list \<Rightarrow> chat_class list \<Rightarrow> 'w manager \<Rightarrow> 'w manager" where
  "ingestResolved d now users chats m =
     (let (es, m) = resolved_users d now users m; (es', m) = resolved_chats d now chats m in persist d (es @ es') m)"

text \<open>LoadFromStore; entries of an unknown kind are skipped.\<close>

fun load_peers :: "'w deps \<Rightarrow> int \<Rightarrow> peer list \<Rightarrow> 'w manager \<Rightarrow> 'w manager" where
  "load_peers d now [] m = m"
| "load_peers d now (p # ps) m =
     (case peerFromStorageEntry p of
        None \<Rightarrow> load_peers d now ps m
      | Some peer \<Rightarrow> load_peers d now ps (cache_names d now (pr_Username p) [] (pr_ID p) (Cache d (pr_ID p) peer m)))"

definition LoadFromStore :: "'w deps \<Rightarrow> int \<Rightarrow> 'w manager \<Rightarrow> 'w manager" where
  "LoadFromStore d now m =
     (case (if SavePeers d then Store d else None) of
        None \<Rightarrow> m
      | Some ps \<Rightarrow> (case st_LoadPeers ps (outside m) of None \<Rightarrow> m | Some peers \<Rightarrow> load_peers d now peers m))"

subsection \<open>Anchors\<close>

definition anchorLimit :: int where "anchorLimit = 1000"

definition newAnchorStore :: "int \<Rightarrow> anchor_store" where
  "newAnchorStore limit = \<lparr>as_byPeer = [], as_order = [], as_limit = limit\<rparr>"

fun evict_anchors :: "i64 list \<Rightarrow> anchor_store \<Rightarrow> anchor_store" where
  "evict_anchors [] a = a\<lparr>as_order := []\<rparr>"
| "evict_anchors (oldest # rest) a =
     (if 0 < as_limit a \<and> as_limit a < int (length (as_byPeer a))
      then evict_anchors rest (a\<lparr>as_byPeer := AList.delete oldest (as_byPeer a)\<rparr>)
      else a\<lparr>as_order := oldest # rest\<rparr>)"

definition as_CacheAnchor :: "i64 \<Rightarrow> i64 \<Rightarrow> u32 \<Rightarrow> anchor_store \<Rightarrow> anchor_store" where
  "as_CacheAnchor peerID chatID msgID a =
     (if peerID = 0 \<or> chatID = 0 \<or> msgID = 0 then a
      else
        let order = (if map_of (as_byPeer a) peerID = None then as_order a @ [peerID] else as_order a);
            a = a\<lparr>as_byPeer := AList.update peerID \<lparr>an_chatID = chatID, an_msgID = msgID\<rparr> (as_byPeer a)\<rparr>
        in evict_anchors order a)"

definition CacheAnchor :: "i64 \<Rightarrow> i64 \<Rightarrow> u32 \<Rightarrow> 'w manager \<Rightarrow> 'w manager" where
  "CacheAnchor peerID chatID msgID m =
     (let a = (case anchors m of None \<Rightarrow> newAnchorStore anchorLimit | Some a \<Rightarrow> a)
      in m\<lparr>anchors := Some (as_CacheAnchor peerID chatID msgID a)\<rparr>)"

definition anchorInputPeer :: "'w deps \<Rightarrow> int \<Rightarrow> i64 \<Rightarrow> 'w manager \<Rightarrow> input_peer option \<times> 'w manager" where
  "anchorInputPeer d now i m =
     (case anchors m of
        None \<Rightarrow> (None, m)
      | Some a \<Rightarrow>
          (case map_of (as_byPeer a) i of
             None \<Rightarrow> (None, m)
           | Some an \<Rightarrow>
               (case Cached d now (an_chatID an) m of
                  (None, m) \<Rightarrow> (None, m)
                | (Some chatPeer, m) \<Rightarrow>
                    (Some (if 0 < sint i then InputPeerUserFromMessage chatPeer (an_msgID an) i
                           else InputPeerChannelFromMessage chatPeer i (an_msgID an)), m))))"

section \<open>Eviction loops\<close>

text \<open>The four loops drop the entries of an order list from its front while the map is too long. What they need of the
  order list is only that it covers the keys of the map.\<close>

locale fifo_loop =
  fixes loop :: "'k list \<Rightarrow> 'm \<Rightarrow> 'm"
    and keys :: "'m \<Rightarrow> 'k set"
    and order :: "'m \<Rightarrow> 'k list"
    and over :: "'m \<Rightarrow> bool"
    and evict_one :: "'k \<Rightarrow> 'm \<Rightarrow> 'm"
    and keep :: "'k list \<Rightarrow> 'm \<Rightarrow> 'm"
  assumes loop_Nil: "loop [] m = keep [] m"
    and loop_Cons: "loop (x # xs) m = (if over m then loop xs (evict_one x m) else keep (x # xs) m)"
    and keys_keep: "keys (keep xs m) = keys m"
    and order_keep: "order (keep xs m) = xs"
    and over_keep: "over (keep xs m) = over m"
    and keys_evict: "keys (evict_one x m) \<subseteq> keys m - {x}"
begin

lemma loop_covers: "keys m \<subseteq> set xs \<Longrightarrow> keys (loop xs m) \<subseteq> set (order (loop xs m))"
proof (induction xs arbitrary: m)
  case (Cons x xs)
  have "keys (evict_one x m) \<subseteq> set xs" using Cons.prems keys_evict [of x m] by auto
  with Cons show ?case by (auto simp: loop_Cons keys_keep order_keep)
qed (simp add: loop_Nil keys_keep order_keep)

lemma loop_stops: "keys m \<subseteq> set xs \<Longrightarrow> over (loop xs m) \<Longrightarrow> keys (loop xs m) = {}"
proof (induction xs arbitrary: m)
  case (Cons x xs)
  have "keys (evict_one x m) \<subseteq> set xs" using Cons.prems keys_evict [of x m] by auto
  with Cons show ?case by (auto simp: loop_Cons over_keep split: if_splits)
qed (simp add: loop_Nil keys_keep over_keep)

lemma loop_invariant:
  assumes "\<And>x m. P m \<Longrightarrow> P (evict_one x m)" and "\<And>xs m. P m \<Longrightarrow> P (keep xs m)"
  shows "P m \<Longrightarrow> P (loop xs m)"
  by (induction xs arbitrary: m) (auto simp: loop_Nil loop_Cons assms)

end

lemma deleteUsernameLocked_fields [simp]:
  "usernameToID (deleteUsernameLocked u m) = AList.delete u (usernameToID m)"
  "byID (deleteUsernameLocked u m) = byID m" "idOrder (deleteUsernameLocked u m) = idOrder m"
  "usernameOrder (deleteUsernameLocked u m) = usernameOrder m" "phoneToID (deleteUsernameLocked u m) = phoneToID m"
  "idToPhone (deleteUsernameLocked u m) = idToPhone m" "phoneOrder (deleteUsernameLocked u m) = phoneOrder m"
  "anchors (deleteUsernameLocked u m) = anchors m" "outside (deleteUsernameLocked u m) = outside m"
  by (simp_all add: deleteUsernameLocked_def)

lemma evict_id_fields [simp]:
  "byID (evict_id i m) = AList.delete i (byID m)" "idOrder (evict_id i m) = idOrder m"
  "usernameOrder (evict_id i m) = usernameOrder m" "phoneToID (evict_id i m) = phoneToID m"
  "idToPhone (evict_id i m) = idToPhone m" "phoneOrder (evict_id i m) = phoneOrder m"
  "anchors (evict_id i m) = anchors m" "outside (evict_id i m) = outside m"
  by (simp_all add: evict_id_def Let_def split: option.split)

interpretation name_loop: fifo_loop "evict_usernames limit" "\<lambda>m. dom (map_of (usernameToID m))" usernameOrder
  "\<lambda>m. limit < int (length (usernameToID m))" deleteUsernameLocked "\<lambda>xs m. m\<lparr>usernameOrder := xs\<rparr>" for limit
  by unfold_locales (auto simp: delete_conv')

interpretation phone_loop: fifo_loop "evict_phones limit" "\<lambda>m. dom (map_of (phoneToID m))" phoneOrder
  "\<lambda>m. limit < int (length (phoneToID m))" "\<lambda>x m. m\<lparr>phoneToID := AList.delete x (phoneToID m)\<rparr>" "\<lambda>xs m. m\<lparr>phoneOrder := xs\<rparr>"
  for limit
  by unfold_locales (auto simp: delete_conv')

interpretation id_loop: fifo_loop "evict_ids limit" "\<lambda>m. dom (map_of (byID m))" idOrder
  "\<lambda>m. limit < int (length (byID m))" evict_id "\<lambda>xs m. m\<lparr>idOrder := xs\<rparr>" for limit
  by unfold_locales (auto simp: delete_conv')

interpretation anchor_loop: fifo_loop evict_anchors "\<lambda>a. dom (map_of (as_byPeer a))" as_order
  "\<lambda>a. 0 < as_limit a \<and> as_limit a < int (length (as_byPeer a))" "\<lambda>x a. a\<lparr>as_byPeer := AList.delete x (as_byPeer a)\<rparr>"
  "\<lambda>xs a. a\<lparr>as_order := xs\<rparr>"
  by unfold_locales (auto simp: delete_conv')

section \<open>The invariant of the cache\<close>

text \<open>The part that holds whatever the limit: the order lists cover the maps, and the index of names and its
  reverse agree.\<close>

definition index_ok :: "(string \<times> i64) list \<Rightarrow> (i64 \<times> string) list \<Rightarrow> string list \<Rightarrow> bool" where
  "index_ok fwd bwd order \<longleftrightarrow>
     gm_wf fwd \<and> dom (map_of fwd) \<subseteq> set order \<and> (\<forall>s i. map_of fwd s = Some i \<longrightarrow> map_of bwd i = Some s)"

definition ids_ok :: "'w manager \<Rightarrow> bool" where
  "ids_ok m \<longleftrightarrow>
     gm_wf (byID m) \<and> dom (map_of (byID m)) \<subseteq> set (idOrder m) \<and>
     (\<forall>k c h. map_of (byID m) k = Some (InputPeerChannel c h) \<longrightarrow> c = k \<or> c = 0)"

definition anchors_ok :: "'w manager \<Rightarrow> bool" where
  "anchors_ok m \<longleftrightarrow>
     (\<forall>a. anchors m = Some a \<longrightarrow>
        as_limit a = anchorLimit \<and> gm_wf (as_byPeer a) \<and> dom (map_of (as_byPeer a)) \<subseteq> set (as_order a) \<and>
        int (length (as_byPeer a)) \<le> anchorLimit)"

definition cache_inv :: "int \<Rightarrow> 'w manager \<Rightarrow> bool" where
  "cache_inv limit m \<longleftrightarrow>
     ids_ok m \<and> anchors_ok m \<and>
     index_ok (usernameToID m) (idToUsername m) (usernameOrder m) \<and> index_ok (phoneToID m) (idToPhone m) (phoneOrder m) \<and>
     (0 < limit \<longrightarrow>
        int (length (byID m)) \<le> limit \<and> int (length (usernameToID m)) \<le> limit \<and> int (length (phoneToID m)) \<le> limit)"

lemma cache_inv_New [inv_intros]: "cache_inv limit (NewManager w)"
  by (simp add: cache_inv_def NewManager_def ids_ok_def anchors_ok_def index_ok_def)

lemma cache_inv_Reset [inv_intros]: "cache_inv limit m \<Longrightarrow> cache_inv limit (Reset m)"
  by (simp add: cache_inv_def Reset_def ids_ok_def anchors_ok_def index_ok_def)

lemma cache_inv_outside [simp]: "cache_inv limit (m\<lparr>outside := w\<rparr>) = cache_inv limit m"
  by (simp add: cache_inv_def ids_ok_def anchors_ok_def)

lemma length_delete_le: "length (AList.delete k m) \<le> length m"
  by (simp add: AList.delete_eq)

lemma length_delete_bound: "int (length m) \<le> limit \<Longrightarrow> int (length (AList.delete k m)) \<le> limit"
  using length_delete_le [of k m] by linarith

lemma index_ok_delete: "index_ok fwd bwd order \<Longrightarrow> index_ok (AList.delete s fwd) bwd order"
  by (auto simp: index_ok_def distinct_delete delete_conv' split: if_splits)

lemma index_ok_unlink: "index_ok fwd bwd order \<Longrightarrow> map_of bwd i = Some s \<Longrightarrow> index_ok (AList.delete s fwd) (AList.delete i bwd) order"
  by (auto simp: index_ok_def distinct_delete delete_conv' split: if_splits)

lemma index_ok_bind:
  assumes "index_ok fwd bwd order"
    and "fwd' = (case map_of bwd i of Some prev \<Rightarrow> if prev \<noteq> s then AList.delete prev fwd else fwd | None \<Rightarrow> fwd)"
  shows "index_ok (AList.update s i fwd') (AList.update i s bwd) (if map_of fwd s = None then order @ [s] else order)"
proof -
  have "gm_wf fwd'" "map_of fwd' t = Some j \<Longrightarrow> map_of fwd t = Some j \<and> map_of bwd j = Some t \<and> (j = i \<longrightarrow> t = s)" for t j
    using assms by (auto simp: index_ok_def distinct_delete delete_conv' simp del: map_of_eq_Some_iff split: option.splits if_splits)
  then show ?thesis
    using assms(1) by (fastforce simp: index_ok_def distinct_update update_conv' split: if_splits)
qed

lemma index_ok_deleteUsername:
  assumes "index_ok (usernameToID m) (idToUsername m) order"
  shows "index_ok (usernameToID (deleteUsernameLocked u m)) (idToUsername (deleteUsernameLocked u m)) order"
proof (cases "map_of (usernameToID m) u")
  case (Some i)
  then have "map_of (idToUsername m) i = Some u" using assms by (simp add: index_ok_def)
  then show ?thesis using assms Some by (simp add: deleteUsernameLocked_def index_ok_unlink)
qed (use assms in \<open>simp add: deleteUsernameLocked_def index_ok_delete\<close>)

text \<open>Leaving an eviction loop, the map is not too long, and the order list still covers it.\<close>

lemma evicted_length: "\<not> limit < int (length m) \<or> dom (map_of m) = {} \<Longrightarrow> 0 < limit \<Longrightarrow> int (length m) \<le> limit"
  by (cases m) auto

lemma evict_usernames_ok:
  fixes m :: "'w manager" and limit :: int
  defines "m' \<equiv> evict_usernames limit (usernameOrder m) m"
  assumes "index_ok (usernameToID m) (idToUsername m) (usernameOrder m)" and "0 < limit"
  shows "index_ok (usernameToID m') (idToUsername m') (usernameOrder m') \<and> int (length (usernameToID m')) \<le> limit \<and>
    byID m' = byID m \<and> idOrder m' = idOrder m \<and> anchors m' = anchors m \<and> phoneToID m' = phoneToID m \<and>
    idToPhone m' = idToPhone m \<and> phoneOrder m' = phoneOrder m \<and> outside m' = outside m"
proof -
  let ?P = "\<lambda>m'. index_ok (usernameToID m') (idToUsername m') (usernameOrder m) \<and> byID m' = byID m \<and> idOrder m' = idOrder m \<and>
    anchors m' = anchors m \<and> phoneToID m' = phoneToID m \<and> idToPhone m' = idToPhone m \<and> phoneOrder m' = phoneOrder m \<and>
    outside m' = outside m"
  have keys: "dom (map_of (usernameToID m)) \<subseteq> set (usernameOrder m)" using assms(2) by (simp add: index_ok_def)
  have P: "?P m'"
    unfolding m'_def
    by (rule name_loop.loop_invariant [where P = ?P]) (use assms(2) index_ok_deleteUsername in auto)
  moreover have "dom (map_of (usernameToID m')) \<subseteq> set (usernameOrder m')"
    unfolding m'_def by (rule name_loop.loop_covers [OF keys])
  moreover have "int (length (usernameToID m')) \<le> limit"
    using name_loop.loop_stops [OF keys, of limit] assms(3) unfolding m'_def by (intro evicted_length) auto
  ultimately show ?thesis by (auto simp: index_ok_def)
qed

lemma evict_phones_ok:
  fixes m :: "'w manager" and limit :: int
  defines "m' \<equiv> evict_phones limit (phoneOrder m) m"
  assumes "index_ok (phoneToID m) (idToPhone m) (phoneOrder m)" and "0 < limit"
  shows "index_ok (phoneToID m') (idToPhone m') (phoneOrder m') \<and> int (length (phoneToID m')) \<le> limit \<and>
    byID m' = byID m \<and> idOrder m' = idOrder m \<and> anchors m' = anchors m \<and> usernameToID m' = usernameToID m \<and>
    idToUsername m' = idToUsername m \<and> usernameOrder m' = usernameOrder m \<and> outside m' = outside m"
proof -
  let ?P = "\<lambda>m'. index_ok (phoneToID m') (idToPhone m') (phoneOrder m) \<and> byID m' = byID m \<and> idOrder m' = idOrder m \<and>
    anchors m' = anchors m \<and> usernameToID m' = usernameToID m \<and> idToUsername m' = idToUsername m \<and>
    usernameOrder m' = usernameOrder m \<and> outside m' = outside m"
  have keys: "dom (map_of (phoneToID m)) \<subseteq> set (phoneOrder m)" using assms(2) by (simp add: index_ok_def)
  have P: "?P m'"
    unfolding m'_def
    by (rule phone_loop.loop_invariant [where P = ?P]) (use assms(2) index_ok_delete in auto)
  moreover have "dom (map_of (phoneToID m')) \<subseteq> set (phoneOrder m')"
    unfolding m'_def by (rule phone_loop.loop_covers [OF keys])
  moreover have "int (length (phoneToID m')) \<le> limit"
    using phone_loop.loop_stops [OF keys, of limit] assms(3) unfolding m'_def by (intro evicted_length) auto
  ultimately show ?thesis by (auto simp: index_ok_def)
qed

lemma evict_ids_ok:
  fixes m :: "'w manager" and limit :: int
  defines "m' \<equiv> evict_ids limit (idOrder m) m"
  assumes "ids_ok m" and "index_ok (usernameToID m) (idToUsername m) (usernameOrder m)" and "0 < limit"
  shows "ids_ok m' \<and> int (length (byID m')) \<le> limit \<and>
    index_ok (usernameToID m') (idToUsername m') (usernameOrder m') \<and> length (usernameToID m') \<le> length (usernameToID m) \<and>
    anchors m' = anchors m \<and> phoneToID m' = phoneToID m \<and> idToPhone m' = idToPhone m \<and> phoneOrder m' = phoneOrder m \<and>
    outside m' = outside m"
proof -
  let ?P = "\<lambda>m'. gm_wf (byID m') \<and> (\<forall>k c h. map_of (byID m') k = Some (InputPeerChannel c h) \<longrightarrow> c = k \<or> c = 0) \<and>
    index_ok (usernameToID m') (idToUsername m') (usernameOrder m') \<and> length (usernameToID m') \<le> length (usernameToID m) \<and>
    anchors m' = anchors m \<and> phoneToID m' = phoneToID m \<and> idToPhone m' = idToPhone m \<and> phoneOrder m' = phoneOrder m \<and>
    outside m' = outside m"
  have keys: "dom (map_of (byID m)) \<subseteq> set (idOrder m)" using assms(2) by (simp add: ids_ok_def)
  have step: "?P (evict_id x n)" if "?P n" for x n
  proof -
    have "usernameToID (evict_id x n) = (case map_of (idToUsername n) x of Some u \<Rightarrow> AList.delete u (usernameToID n) | None \<Rightarrow> usernameToID n)"
      by (simp add: evict_id_def Let_def split: option.split)
    then have "length (usernameToID (evict_id x n)) \<le> length (usernameToID n)"
      by (simp add: length_delete_le split: option.split)
    moreover have "index_ok (usernameToID (evict_id x n)) (idToUsername (evict_id x n)) (usernameOrder n)"
      using that index_ok_deleteUsername [of "n\<lparr>byID := AList.delete x (byID n)\<rparr>" "usernameOrder n"]
      by (simp add: evict_id_def Let_def split: option.split)
    ultimately show ?thesis using that by (auto simp: distinct_delete delete_conv' split: if_splits)
  qed
  have P: "?P m'"
    unfolding m'_def
  proof (rule id_loop.loop_invariant [where P = ?P], goal_cases)
    case (1 x n) then show ?case by (rule step)
  next
    case (2 xs n) then show ?case by simp
  next
    case 3 then show ?case using assms(2,3) by (simp only: ids_ok_def) blast
  qed
  moreover have "dom (map_of (byID m')) \<subseteq> set (idOrder m')"
    unfolding m'_def by (rule id_loop.loop_covers [OF keys])
  moreover have "int (length (byID m')) \<le> limit"
    using id_loop.loop_stops [OF keys, of limit] assms(4) unfolding m'_def by (intro evicted_length) auto
  ultimately show ?thesis by (auto simp: ids_ok_def)
qed

section \<open>Every operation keeps the invariant\<close>

lemma index_ok_cacheUsername:
  assumes "index_ok (usernameToID m) (idToUsername m) (usernameOrder m)"
  shows "index_ok (usernameToID (cacheUsernameLocked now u i m)) (idToUsername (cacheUsernameLocked now u i m))
    (usernameOrder (cacheUsernameLocked now u i m))"
proof -
  have "usernameToID (cacheUsernameLocked now u i m) =
      AList.update u i (case map_of (idToUsername m) i of
        Some prev \<Rightarrow> if prev \<noteq> u then AList.delete prev (usernameToID m) else usernameToID m | None \<Rightarrow> usernameToID m)"
    "idToUsername (cacheUsernameLocked now u i m) = AList.update i u (idToUsername m)"
    "usernameOrder (cacheUsernameLocked now u i m) =
      (if map_of (usernameToID m) u = None then usernameOrder m @ [u] else usernameOrder m)"
    by (simp_all add: cacheUsernameLocked_def Let_def split: option.split)
  then show ?thesis by (simp only:) (rule index_ok_bind [OF assms refl])
qed

lemma cacheUsernameLocked_fields [simp]:
  "byID (cacheUsernameLocked now u i m) = byID m" "idOrder (cacheUsernameLocked now u i m) = idOrder m"
  "anchors (cacheUsernameLocked now u i m) = anchors m" "phoneToID (cacheUsernameLocked now u i m) = phoneToID m"
  "idToPhone (cacheUsernameLocked now u i m) = idToPhone m" "phoneOrder (cacheUsernameLocked now u i m) = phoneOrder m"
  "outside (cacheUsernameLocked now u i m) = outside m"
  by (simp_all add: cacheUsernameLocked_def Let_def split: option.split)

lemma cache_inv_CacheUsername [inv_intros]:
  assumes "cache_inv (CacheSize d) m"
  shows "cache_inv (CacheSize d) (CacheUsername d now u i m)"
proof -
  let ?m = "cacheUsernameLocked now u i m"
  have ok: "index_ok (usernameToID ?m) (idToUsername ?m) (usernameOrder ?m)"
    using assms by (intro index_ok_cacheUsername) (simp add: cache_inv_def)
  show ?thesis
  proof (cases "CacheSize d \<le> 0 \<or> int (length (usernameToID ?m)) \<le> CacheSize d")
    case True
    then show ?thesis using assms ok
      by (auto simp: CacheUsername_def Let_def cache_inv_def ids_ok_def anchors_ok_def)
  next
    case False
    then have "CacheUsername d now u i m = evict_usernames (CacheSize d) (usernameOrder ?m) ?m"
      by (simp add: CacheUsername_def Let_def)
    with evict_usernames_ok [OF ok, of "CacheSize d"] False assms show ?thesis
      by (simp add: cache_inv_def ids_ok_def anchors_ok_def)
  qed
qed

lemma cache_inv_CachePhone [inv_intros]:
  assumes "cache_inv (CacheSize d) m"
  shows "cache_inv (CacheSize d) (CachePhone d now ph i m)"
proof (cases "NormalizePhone ph = []")
  case False
  let ?p = "NormalizePhone ph"
  let ?fwd = "case map_of (idToPhone m) i of
    Some prev \<Rightarrow> if prev \<noteq> ?p then AList.delete prev (phoneToID m) else phoneToID m | None \<Rightarrow> phoneToID m"
  let ?m = "m\<lparr>phoneOrder := if map_of (phoneToID m) ?p = None then phoneOrder m @ [?p] else phoneOrder m,
    phoneToID := AList.update ?p i ?fwd, idToPhone := AList.update i ?p (idToPhone m),
    phoneSeen := AList.update ?p now (phoneSeen m)\<rparr>"
  have ok: "index_ok (phoneToID ?m) (idToPhone ?m) (phoneOrder ?m)"
    using assms index_ok_bind [OF _ refl, of "phoneToID m" "idToPhone m" "phoneOrder m" ?p i] by (simp add: cache_inv_def)
  have eq: "CachePhone d now ph i m =
      (if CacheSize d \<le> 0 \<or> int (length (phoneToID ?m)) \<le> CacheSize d then ?m else evict_phones (CacheSize d) (phoneOrder ?m) ?m)"
    using False by (simp only: CachePhone_def Let_def if_False)
  show ?thesis
  proof (cases "CacheSize d \<le> 0 \<or> int (length (phoneToID ?m)) \<le> CacheSize d")
    case True
    then have "cache_inv (CacheSize d) ?m" using assms ok by (auto simp: cache_inv_def ids_ok_def anchors_ok_def)
    then show ?thesis using True by (simp only: eq if_True)
  next
    case nle: False
    then have "cache_inv (CacheSize d) (evict_phones (CacheSize d) (phoneOrder ?m) ?m)"
      using evict_phones_ok [OF ok, of "CacheSize d"] assms by (simp add: cache_inv_def ids_ok_def anchors_ok_def)
    then show ?thesis using nle by (simp only: eq if_False)
  qed
qed (use assms in \<open>simp add: CachePhone_def\<close>)

text \<open>A channel is filed under its own identifier.\<close>

lemma channel_key:
  assumes "(case map_of ids (canonicalPeerID i p) of Some e \<Rightarrow> preserveAccessHash e p | None \<Rightarrow> p) = InputPeerChannel c h"
  shows "c = canonicalPeerID i p \<or> c = 0"
  using assms by (cases p) (auto simp: canonicalPeerID_def Let_def split: option.splits if_splits elim!: preserveAccessHash.elims)

definition cache_insert :: "'w deps \<Rightarrow> i64 \<Rightarrow> input_peer \<Rightarrow> 'w manager \<Rightarrow> 'w manager" where
  "cache_insert d i peer m =
     evictOldestLocked d
       (m\<lparr>idOrder := (if map_of (byID m) i = None then idOrder m @ [i] else idOrder m),
          byID := AList.update i peer (byID m)\<rparr>)"

definition merged_peer :: "i64 \<Rightarrow> input_peer \<Rightarrow> 'w manager \<Rightarrow> input_peer" where
  "merged_peer i incoming m = (case map_of (byID m) i of Some existing \<Rightarrow> preserveAccessHash existing incoming | None \<Rightarrow> incoming)"

lemma Cache_eq:
  "Cache d raw incoming m =
     (let i = canonicalPeerID raw incoming; peer = merged_peer i incoming m; m' = cache_insert d i peer m
      in case (if SavePeers d then Store d else None) of
           None \<Rightarrow> m'
         | Some ps \<Rightarrow> (case cache_entry i peer of None \<Rightarrow> m' | Some entry \<Rightarrow> m'\<lparr>outside := st_SavePeer ps entry (outside m')\<rparr>))"
  by (simp only: Cache_def cache_insert_def merged_peer_def Let_def)

lemma cache_inv_insert:
  assumes inv: "cache_inv (CacheSize d) m" and "\<And>c h. peer = InputPeerChannel c h \<Longrightarrow> c = i \<or> c = 0"
  shows "cache_inv (CacheSize d) (cache_insert d i peer m)"
proof -
  let ?m = "m\<lparr>idOrder := if map_of (byID m) i = None then idOrder m @ [i] else idOrder m, byID := AList.update i peer (byID m)\<rparr>"
  have ids: "ids_ok ?m"
    using assms by (auto simp: cache_inv_def ids_ok_def distinct_update update_conv' simp del: map_of_eq_Some_iff split: if_splits)
  have names: "index_ok (usernameToID ?m) (idToUsername ?m) (usernameOrder ?m)" using inv by (simp add: cache_inv_def)
  show ?thesis
  proof (cases "CacheSize d \<le> 0 \<or> int (length (byID ?m)) \<le> CacheSize d")
    case True
    then have "cache_inv (CacheSize d) ?m" using inv ids by (auto simp: cache_inv_def anchors_ok_def)
    then show ?thesis using True by (simp only: cache_insert_def evictOldestLocked_def Let_def if_True)
  next
    case False
    then have "cache_inv (CacheSize d) (evict_ids (CacheSize d) (idOrder ?m) ?m)"
      using evict_ids_ok [OF ids names, of "CacheSize d"] inv by (simp add: cache_inv_def anchors_ok_def)
    then show ?thesis using False by (simp only: cache_insert_def evictOldestLocked_def Let_def if_False)
  qed
qed

lemma cache_inv_Cache [inv_intros]:
  assumes "cache_inv (CacheSize d) m"
  shows "cache_inv (CacheSize d) (Cache d i p m)"
proof -
  have "cache_inv (CacheSize d) (cache_insert d (canonicalPeerID i p) (merged_peer (canonicalPeerID i p) p m) m)"
    using assms
  proof (rule cache_inv_insert)
    show "c = canonicalPeerID i p \<or> c = 0" if "merged_peer (canonicalPeerID i p) p m = InputPeerChannel c h" for c h
      using that by (intro channel_key [where ids = "byID m" and h = h]) (simp add: merged_peer_def)
  qed
  then show ?thesis by (simp add: Cache_eq Let_def split: option.split)
qed

lemma cache_inv_names [inv_intros]: "cache_inv (CacheSize d) m \<Longrightarrow> cache_inv (CacheSize d) (cache_names d now u p i m)"
  by (simp add: cache_names_def Let_def cache_inv_CacheUsername cache_inv_CachePhone)

lemma cache_inv_cached_store:
  "cache_inv (CacheSize d) m \<Longrightarrow> cache_inv (CacheSize d) (snd (cached_store d now ps ids m))"
  by (induction ids) (auto simp: Let_def inv_intros split: option.split)

lemma cache_inv_Cached [inv_intros]: "cache_inv (CacheSize d) m \<Longrightarrow> cache_inv (CacheSize d) (snd (Cached d now i m))"
  by (auto simp: Cached_def cache_inv_cached_store split: option.split)

lemma cache_inv_deleteUsername: "cache_inv limit m \<Longrightarrow> cache_inv limit (deleteUsernameLocked u m)"
  using index_ok_deleteUsername [of m "usernameOrder m" u] length_delete_le [of u "usernameToID m"]
  by (auto simp: cache_inv_def ids_ok_def anchors_ok_def)

lemma cache_inv_byUsername [inv_intros]: "cache_inv limit m \<Longrightarrow> cache_inv limit (snd (cachedByUsername d now u m))"
  by (auto simp: cachedByUsername_def cache_inv_deleteUsername split: option.split)

lemma cache_inv_byPhone [inv_intros]:
  assumes "cache_inv limit m"
  shows "cache_inv limit (snd (cachedByPhone d now p m))"
proof -
  have "length (AList.delete p (phoneToID m)) \<le> length (phoneToID m)" by (rule length_delete_le)
  then show ?thesis
    using assms
    by (auto simp: cachedByPhone_def cache_inv_def ids_ok_def anchors_ok_def index_ok_delete index_ok_unlink split: option.split)
qed

lemma cache_inv_invalidate_names:
  assumes "cache_inv limit m"
  shows "cache_inv limit (invalidate_username i m)" and "cache_inv limit (invalidate_phone i m)"
proof -
  show "cache_inv limit (invalidate_username i m)"
    using assms
    by (auto simp: invalidate_username_def cache_inv_def ids_ok_def anchors_ok_def index_ok_unlink length_delete_bound split: option.split)
  show "cache_inv limit (invalidate_phone i m)"
    using assms
    by (auto simp: invalidate_phone_def cache_inv_def ids_ok_def anchors_ok_def index_ok_unlink length_delete_bound split: option.split)
qed

lemma cache_inv_delete_id: "cache_inv limit m \<Longrightarrow> cache_inv limit (m\<lparr>byID := AList.delete k (byID m)\<rparr>)"
  using length_delete_le [of k "byID m"]
  by (auto simp: cache_inv_def ids_ok_def anchors_ok_def distinct_delete delete_conv' simp del: map_of_eq_Some_iff split: if_splits)

lemma cache_inv_invalidate_key: "cache_inv limit m \<Longrightarrow> cache_inv limit (invalidate_key k m)"
  unfolding invalidate_key_def Let_def by (intro cache_inv_delete_id cache_inv_invalidate_names)

lemma cache_inv_invalidate_keys: "cache_inv limit m \<Longrightarrow> cache_inv limit (fold invalidate_key ks m)"
  by (induction ks arbitrary: m) (simp_all add: cache_inv_invalidate_key)

lemma cache_inv_Invalidate [inv_intros]: "cache_inv limit m \<Longrightarrow> cache_inv limit (Invalidate d i m)"
  by (simp add: Invalidate_def Let_def cache_inv_invalidate_keys split: option.split)

lemma cache_inv_persist [simp]: "cache_inv limit (persist d es m) = cache_inv limit m"
  by (simp add: persist_def split: option.split)

lemma cache_inv_ingest_users: "cache_inv (CacheSize d) m \<Longrightarrow> cache_inv (CacheSize d) (snd (ingest_users d now us m))"
  by (induction d now us m rule: ingest_users.induct) (auto simp: Let_def inv_intros split: prod.split prod.splits)

lemma cache_inv_ingest_chats: "cache_inv (CacheSize d) m \<Longrightarrow> cache_inv (CacheSize d) (snd (ingest_chats d now cs m))"
  by (induction d now cs m rule: ingest_chats.induct) (auto simp: Let_def inv_intros split: prod.split prod.splits)

lemma cache_inv_resolved_users: "cache_inv (CacheSize d) m \<Longrightarrow> cache_inv (CacheSize d) (snd (resolved_users d now us m))"
  by (induction d now us m rule: resolved_users.induct) (auto simp: Let_def inv_intros split: prod.split prod.splits)

lemma cache_inv_resolved_chats: "cache_inv (CacheSize d) m \<Longrightarrow> cache_inv (CacheSize d) (snd (resolved_chats d now cs m))"
  by (induction d now cs m rule: resolved_chats.induct) (auto simp: Let_def inv_intros split: prod.split prod.splits)

lemma cache_inv_Ingest [inv_intros]:
  "cache_inv (CacheSize d) m \<Longrightarrow> cache_inv (CacheSize d) (Ingest d now us cs m)"
  "cache_inv (CacheSize d) m \<Longrightarrow> cache_inv (CacheSize d) (ingestResolved d now us cs m)"
  using cache_inv_ingest_users [of d m now us] cache_inv_resolved_users [of d m now us]
    cache_inv_ingest_chats [of d "snd (ingest_users d now us m)" now cs]
    cache_inv_resolved_chats [of d "snd (resolved_users d now us m)" now cs]
  by (simp_all add: Ingest_def ingestResolved_def Let_def case_prod_unfold)

lemma cache_inv_load: "cache_inv (CacheSize d) m \<Longrightarrow> cache_inv (CacheSize d) (load_peers d now ps m)"
  by (induction ps arbitrary: m) (auto simp: inv_intros split: option.split)

lemma cache_inv_LoadFromStore [inv_intros]: "cache_inv (CacheSize d) m \<Longrightarrow> cache_inv (CacheSize d) (LoadFromStore d now m)"
  by (simp add: LoadFromStore_def cache_inv_load split: option.split)

lemma cache_inv_CacheAnchor [inv_intros]:
  assumes "cache_inv limit m"
  shows "cache_inv limit (CacheAnchor p c msg m)"
proof -
  define a where "a = (case anchors m of None \<Rightarrow> newAnchorStore anchorLimit | Some a \<Rightarrow> a)"
  let ?P = "\<lambda>b. as_limit b = anchorLimit \<and> gm_wf (as_byPeer b)"
  have a: "?P a \<and> dom (map_of (as_byPeer a)) \<subseteq> set (as_order a) \<and> int (length (as_byPeer a)) \<le> anchorLimit"
    using assms by (auto simp: a_def cache_inv_def anchors_ok_def newAnchorStore_def anchorLimit_def split: option.split)
  let ?a = "a\<lparr>as_byPeer := AList.update p \<lparr>an_chatID = c, an_msgID = msg\<rparr> (as_byPeer a)\<rparr>"
  let ?order = "if map_of (as_byPeer a) p = None then as_order a @ [p] else as_order a"
  let ?b = "evict_anchors ?order ?a"
  have keys: "dom (map_of (as_byPeer ?a)) \<subseteq> set ?order" using a by (auto simp: update_conv')
  have P: "?P ?b"
    by (rule anchor_loop.loop_invariant [where P = ?P]) (use a in \<open>auto simp: distinct_delete distinct_update\<close>)
  moreover have "dom (map_of (as_byPeer ?b)) \<subseteq> set (as_order ?b)" by (rule anchor_loop.loop_covers [OF keys])
  moreover have "int (length (as_byPeer ?b)) \<le> anchorLimit"
    using anchor_loop.loop_stops [OF keys] P by (intro evicted_length) (auto simp: anchorLimit_def)
  ultimately have "anchors_ok (m\<lparr>anchors := Some (as_CacheAnchor p c msg a)\<rparr>)"
    using a by (simp add: anchors_ok_def as_CacheAnchor_def Let_def)
  then show ?thesis
    using assms by (simp add: CacheAnchor_def a_def [symmetric] Let_def cache_inv_def ids_ok_def)
qed

lemma cache_inv_anchorInputPeer [inv_intros]:
  assumes "cache_inv (CacheSize d) m"
  shows "cache_inv (CacheSize d) (snd (anchorInputPeer d now i m))"
  using cache_inv_Cached [OF assms, of now] assms
  by (auto simp: anchorInputPeer_def split: option.split prod.split) (metis snd_conv)+

section \<open>Histories\<close>

text \<open>What can happen to a manager, with the dependencies and the time each call sees; \<open>Elsewhere\<close> is a change of the store
  by another process.\<close>

datatype 'w cache_op =
    CachesPeer i64 input_peer
  | CachesUsername string i64
  | CachesPhone string i64
  | LooksUp i64
  | LooksUpUsername string
  | LooksUpPhone string
  | Invalidates i64
  | Ingests "user_class list" "chat_class list"
  | IngestsResolved "user_class list" "chat_class list"
  | LoadsStore
  | Resets
  | CachesAnchor i64 i64 u32
  | LooksUpAnchor i64
  | Elsewhere 'w

fun cache_exec :: "'w deps \<times> int \<times> 'w cache_op \<Rightarrow> 'w manager \<Rightarrow> 'w manager" where
  "cache_exec (d, now, CachesPeer i p) m = Cache d i p m"
| "cache_exec (d, now, CachesUsername u i) m = CacheUsername d now u i m"
| "cache_exec (d, now, CachesPhone p i) m = CachePhone d now p i m"
| "cache_exec (d, now, LooksUp i) m = snd (Cached d now i m)"
| "cache_exec (d, now, LooksUpUsername u) m = snd (cachedByUsername d now u m)"
| "cache_exec (d, now, LooksUpPhone p) m = snd (cachedByPhone d now p m)"
| "cache_exec (d, now, Invalidates i) m = Invalidate d i m"
| "cache_exec (d, now, Ingests us cs) m = Ingest d now us cs m"
| "cache_exec (d, now, IngestsResolved us cs) m = ingestResolved d now us cs m"
| "cache_exec (d, now, LoadsStore) m = LoadFromStore d now m"
| "cache_exec (d, now, Resets) m = Reset m"
| "cache_exec (d, now, CachesAnchor p c msg) m = CacheAnchor p c msg m"
| "cache_exec (d, now, LooksUpAnchor i) m = snd (anchorInputPeer d now i m)"
| "cache_exec (d, now, Elsewhere w) m = m\<lparr>outside := w\<rparr>"

lemma cache_inv_exec: "cache_inv (CacheSize d) m \<Longrightarrow> cache_inv (CacheSize d) (cache_exec (d, now, op) m)"
  by (cases op) (simp_all add: inv_intros)

lemma cache_inv_run:
  "cache_inv limit m \<Longrightarrow> list_all (\<lambda>(d, now, op). CacheSize d = limit) hist \<Longrightarrow> cache_inv limit (fold cache_exec hist m)"
proof (induction hist arbitrary: m)
  case (Cons x hist)
  obtain d now op where [simp]: "x = (d, now, op)" by (cases x)
  have "cache_inv limit (cache_exec x m)" using Cons.prems cache_inv_exec [of d m now op] by simp
  with Cons show ?case by simp
qed simp

text \<open>Property C32 (invariant): the peer cache stays within its limit and its indexes stay right. Whatever is cached, looked up,
  loaded, invalidated or changed in the store, with a positive limit none of the maps of peers, usernames and phone
  numbers is longer than it, and there are never more than a thousand anchors; a username or phone number that
  resolves to a peer is the one the peer is known by, so no peer answers to two names; and a channel is filed under
  its own identifier.\<close>

theorem peer_cache_sound:
  fixes hist :: "('w deps \<times> int \<times> 'w cache_op) list" and w :: 'w
  assumes "list_all (\<lambda>(d, now, op). CacheSize d = limit) hist"
  defines "m \<equiv> fold cache_exec hist (NewManager w)"
  shows "(0 < limit \<longrightarrow> int (length (byID m)) \<le> limit \<and> int (length (usernameToID m)) \<le> limit \<and> int (length (phoneToID m)) \<le> limit) \<and>
    (\<forall>a. anchors m = Some a \<longrightarrow> length (as_byPeer a) \<le> 1000) \<and>
    (\<forall>u i. map_of (usernameToID m) u = Some i \<longrightarrow> LookupUsername m i = u) \<and>
    (\<forall>p i. map_of (phoneToID m) p = Some i \<longrightarrow> LookupPhone m i = p) \<and>
    (\<forall>k c h. map_of (byID m) k = Some (InputPeerChannel c h) \<longrightarrow> c \<in> {k, 0})"
proof -
  have inv: "cache_inv limit m" unfolding m_def by (rule cache_inv_run [OF cache_inv_New assms(1)])
  have "length (as_byPeer a) \<le> 1000" if "anchors m = Some a" for a
    using inv that by (simp add: cache_inv_def anchors_ok_def anchorLimit_def)
  moreover have "LookupUsername m i = u" if "map_of (usernameToID m) u = Some i" for u i
    using inv that by (simp add: cache_inv_def index_ok_def LookupUsername_def)
  moreover have "LookupPhone m i = p" if "map_of (phoneToID m) p = Some i" for p i
    using inv that by (simp add: cache_inv_def index_ok_def LookupPhone_def)
  moreover have "c \<in> {k, 0}" if "map_of (byID m) k = Some (InputPeerChannel c h)" for k c h
    using inv that by (simp add: cache_inv_def ids_ok_def)
  ultimately show ?thesis using inv by (auto simp: cache_inv_def)
qed

definition plain_deps :: "int \<Rightarrow> 'w deps" where
  "plain_deps limit = \<lparr>CacheSize = limit, SavePeers = False, IsBot = False, IndexTTL = None, Store = None\<rparr>"

definition renames :: "(unit deps \<times> int \<times> unit cache_op) list" where
  "renames =
     [(plain_deps 2, 0, CachesPeer 5 (InputPeerUser 5 77)), (plain_deps 2, 1, CachesUsername ''ann'' 5),
      (plain_deps 2, 2, CachesUsername ''bea'' 5), (plain_deps 2, 3, CachesUsername ''cy'' 6),
      (plain_deps 2, 4, CachesUsername ''dan'' 7), (plain_deps 2, 5, CachesPhone '' +0049123 '' 5)]"

lemma renames_result:
  "map_of (usernameToID (fold cache_exec renames (NewManager ()))) ''dan'' = Some 7 \<and>
   map_of (usernameToID (fold cache_exec renames (NewManager ()))) ''ann'' = None \<and>
   map_of (phoneToID (fold cache_exec renames (NewManager ()))) ''49123'' = Some 5"
  by code_simp

theorem peer_cache_sound_witness:
  "length (usernameToID (fold cache_exec renames (NewManager ()))) \<le> 2 \<and>
   LookupUsername (fold cache_exec renames (NewManager ())) 7 = ''dan'' \<and>
   LookupPhone (fold cache_exec renames (NewManager ())) 5 = ''49123''"
proof -
  have "list_all (\<lambda>(d, now, op). CacheSize d = 2) renames" by code_simp
  from peer_cache_sound [OF this, of "()"] renames_result show ?thesis by auto
qed

text \<open>Two defects. Invalidate leaves the identifier in the order list, so a peer that is cached again is in it twice and the
  older occurrence evicts the newest entry. And the map is keyed by raw identifiers, which users and channels do not
  keep apart: a channel displaces the user with the same number.\<close>

lemma stale_order_evicts_newest:
  fixes m :: "unit manager"
  defines "m \<equiv> fold cache_exec
    [(plain_deps 1, 0, CachesPeer 5 (InputPeerUser 5 77)), (plain_deps 1, 0, Invalidates 5), (plain_deps 1, 0, CachesPeer 5 (InputPeerUser 5 77)),
     (plain_deps 1, 0, CachesPeer 6 (InputPeerUser 6 78))] (NewManager ())"
  shows "map_of (byID (Cache (plain_deps 1) 5 (InputPeerUser 5 77) m)) 5 = None"
  unfolding m_def by code_simp

lemma raw_identifiers_collide:
  "fst (Cached (plain_deps 0) 0 5
     (Cache (plain_deps 0) 5 (InputPeerChannel 5 8) (Cache (plain_deps 0) 5 (InputPeerUser 5 77) (NewManager ())))) =
   Some (InputPeerChannel 5 8)"
  by code_simp

section \<open>The hash of a user\<close>

text \<open>The specification: of the hashes an update batch brings for a user, a zero one, which a min entity counts as, says
  nothing, and the last of the others wins.\<close>

fun hashes :: "i64 \<Rightarrow> user_class list \<Rightarrow> i64 list" where
  "hashes i [] = []"
| "hashes i (UserOther # us) = hashes i us"
| "hashes i (User u # us) = (if u_ID u = i then user_hash u # hashes i us else hashes i us)"

lemma hashes_append: "hashes i (xs @ ys) = hashes i xs @ hashes i ys"
  by (induction i xs rule: hashes.induct) simp_all

definition put_hash :: "i64 \<Rightarrow> i64 option \<Rightarrow> i64 option" where
  "put_hash x h = Some (if x = 0 then (case h of None \<Rightarrow> 0 | Some e \<Rightarrow> e) else x)"

text \<open>The batches the specification is for: no identifier is a marked one, and no chat has the number of the user.\<close>

definition batch_ok :: "i64 \<Rightarrow> user_class list \<Rightarrow> chat_class list \<Rightarrow> bool" where
  "batch_ok i us cs \<longleftrightarrow>
     list_all (\<lambda>x. case x of User u \<Rightarrow> \<not> IsMarkedChannel (u_ID u) | UserOther \<Rightarrow> True) us \<and>
     list_all (\<lambda>x. case x of Chat c \<Rightarrow> \<not> IsMarkedChannel c \<and> c \<noteq> i
                           | Channel c \<Rightarrow> \<not> IsMarkedChannel (c_ID c) \<and> c_ID c \<noteq> i
                           | ChatOther \<Rightarrow> True) cs"

lemma put_hashes: "fold put_hash hs h =
  (if hs = [] then h else if filter (\<lambda>x. x \<noteq> 0) hs = [] then put_hash 0 h else Some (last (filter (\<lambda>x. x \<noteq> 0) hs)))"
  by (induction hs arbitrary: h rule: rev_induct) (auto simp: put_hash_def split: option.split)

lemma put_hashes_again: "fold put_hash hs (fold put_hash hs h) = fold put_hash hs h"
  unfolding put_hashes [of hs h] by (auto simp: put_hashes [of hs]) (auto simp: put_hash_def split: option.split)

text \<open>What caching does to the entry of one identifier; eviction can only remove it.\<close>

lemma canonical_unmarked: "\<not> IsMarkedChannel i \<Longrightarrow> canonicalPeerID i p = (case p of InputPeerChannel c h \<Rightarrow> if c \<noteq> 0 then c else i | _ \<Rightarrow> i)"
  by (simp add: canonicalPeerID_def UnmarkChannel_def split: input_peer.split)

lemma lookup_unmarked: "\<not> IsMarkedChannel i \<Longrightarrow> peerLookupIDs i = [i]"
  by (simp add: peerLookupIDs_def UnmarkChannel_def)

lemma evict_ids_shrink: "map_of (byID (evict_ids limit xs m)) \<subseteq>\<^sub>m map_of (byID m) \<and> outside (evict_ids limit xs m) = outside m"
  by (rule id_loop.loop_invariant [where P = "\<lambda>n. map_of (byID n) \<subseteq>\<^sub>m map_of (byID m) \<and> outside n = outside m"])
    (auto simp: map_le_def delete_conv' split: if_splits)

lemma cache_insert_byID:
  "map_of (byID (cache_insert d i p m)) \<subseteq>\<^sub>m (map_of (byID m))(i \<mapsto> p)"
  "CacheSize d \<le> 0 \<Longrightarrow> map_of (byID (cache_insert d i p m)) = (map_of (byID m))(i \<mapsto> p)"
  "outside (cache_insert d i p m) = outside m"
  using evict_ids_shrink [of "CacheSize d" "if map_of (byID m) i = None then idOrder m @ [i] else idOrder m"
      "m\<lparr>idOrder := if map_of (byID m) i = None then idOrder m @ [i] else idOrder m, byID := AList.update i p (byID m)\<rparr>"]
  by (simp_all add: cache_insert_def evictOldestLocked_def Let_def update_conv')

lemma Cache_byID:
  "map_of (byID (Cache d r p m)) \<subseteq>\<^sub>m (map_of (byID m))(canonicalPeerID r p \<mapsto> merged_peer (canonicalPeerID r p) p m)"
  "CacheSize d \<le> 0 \<Longrightarrow>
    map_of (byID (Cache d r p m)) = (map_of (byID m))(canonicalPeerID r p \<mapsto> merged_peer (canonicalPeerID r p) p m)"
  using cache_insert_byID [where i = "canonicalPeerID r p" and d = d and m = m]
  by (simp_all add: Cache_eq Let_def split: option.split)

lemma Cache_entry:
  assumes "map_of (byID (Cache d r p m)) k = Some q"
  shows "((map_of (byID m))(canonicalPeerID r p \<mapsto> merged_peer (canonicalPeerID r p) p m)) k = Some q"
  using Cache_byID(1) [of d r p m] assms unfolding map_le_def by (metis domI)

lemma Cache_outside:
  "outside (Cache d r p m) =
     (case (if SavePeers d then Store d else None) of
        None \<Rightarrow> outside m
      | Some ps \<Rightarrow> (case cache_entry (canonicalPeerID r p) (merged_peer (canonicalPeerID r p) p m) of
                      None \<Rightarrow> outside m | Some entry \<Rightarrow> st_SavePeer ps entry (outside m)))"
  by (simp add: Cache_eq Let_def cache_insert_byID split: option.split)

lemma entry_ID:
  assumes "cache_entry i (merged_peer i p m) = Some e"
  shows "pr_ID e = (case p of InputPeerChannel c h \<Rightarrow> c | _ \<Rightarrow> i)"
proof -
  have "pr_ID e = (case q of InputPeerChannel c h \<Rightarrow> c | _ \<Rightarrow> i)" if "cache_entry i q = Some e" for q
    using that by (cases q) auto
  moreover have "(case preserveAccessHash x p of InputPeerChannel c h \<Rightarrow> c | _ \<Rightarrow> i) = (case p of InputPeerChannel c h \<Rightarrow> c | _ \<Rightarrow> i)" for x
    by (cases "(x, p)" rule: preserveAccessHash.cases) auto
  ultimately show ?thesis using assms by (auto simp: merged_peer_def split: option.splits)
qed

lemma cache_names_byID [simp]:
  "byID (cache_names d now u p i m) = byID m" "outside (cache_names d now u p i m) = outside m"
proof -
  have n: "byID (evict_usernames limit xs m) = byID m \<and> outside (evict_usernames limit xs m) = outside m"
    for limit xs and m :: "'a manager"
    by (rule name_loop.loop_invariant [where P = "\<lambda>n. byID n = byID m \<and> outside n = outside m"]) auto
  have p: "byID (evict_phones limit xs m) = byID m \<and> outside (evict_phones limit xs m) = outside m"
    for limit xs and m :: "'a manager"
    by (rule phone_loop.loop_invariant [where P = "\<lambda>n. byID n = byID m \<and> outside n = outside m"]) auto
  show "byID (cache_names d now u p i m) = byID m" "outside (cache_names d now u p i m) = outside m"
    by (simp_all add: cache_names_def CacheUsername_def CachePhone_def Let_def n p)
qed

lemma persist_byID [simp]: "byID (persist d es m) = byID m"
  by (simp add: persist_def split: option.split)

lemma ingest_users_hash:
  assumes "CacheSize d \<le> 0" and "batch_ok i us cs"
    and "map_of (byID m) i = map_option (InputPeerUser i) h"
  shows "map_of (byID (snd (ingest_users d now us m))) i = map_option (InputPeerUser i) (fold put_hash (hashes i us) h)"
  using assms(2,3)
proof (induction i us arbitrary: m h rule: hashes.induct)
  case (3 i u us)
  let ?x = "user_hash u"
  let ?m = "Cache d (u_ID u) (InputPeerUser (u_ID u) ?x) m"
  have c: "canonicalPeerID (u_ID u) (InputPeerUser (u_ID u) ?x) = u_ID u" "batch_ok i us cs"
    using 3 by (simp_all add: canonical_unmarked batch_ok_def)
  have "map_of (byID ?m) i = map_option (InputPeerUser i) (if u_ID u = i then put_hash ?x h else h)"
  proof (cases h)
    case None
    then show ?thesis using "3.prems"(2) by (auto simp: Cache_byID(2) [OF assms(1)] c(1) merged_peer_def put_hash_def)
  next
    case (Some e)
    then show ?thesis using "3.prems"(2) by (auto simp: Cache_byID(2) [OF assms(1)] c(1) merged_peer_def put_hash_def)
  qed
  with 3 c(2) show ?case by (cases "u_ID u = i") (auto simp: Let_def case_prod_unfold)
qed (simp_all add: batch_ok_def)

lemma ingest_chats_hash:
  assumes "CacheSize d \<le> 0" and "batch_ok i us cs"
  shows "map_of (byID (snd (ingest_chats d now cs m))) i = map_of (byID m) i"
  using assms
  by (induction d now cs m rule: ingest_chats.induct)
    (auto simp: batch_ok_def Let_def case_prod_unfold Cache_byID(2) canonical_unmarked split: input_peer.split if_splits)


definition sample_user :: "i64 \<Rightarrow> i64 \<Rightarrow> bool \<Rightarrow> tg_user" where
  "sample_user i h mn =
     \<lparr>u_ID = i, u_AccessHash = h, u_Min = mn, u_Username = ''ann'', u_Phone = [], u_FirstName = ''Ann'', u_LastName = [], u_Bot = False,
      u_LangCode = []\<rparr>"


section \<open>The store\<close>

lemma invalidate_keys_fields:
  "map_of (byID (fold invalidate_key ks m)) k = (if k \<in> set ks then None else map_of (byID m) k) \<and>
   outside (fold invalidate_key ks m) = outside m"
  by (induction ks arbitrary: m)
    (auto simp: invalidate_key_def invalidate_phone_def invalidate_username_def Let_def delete_conv' split: option.split)

text \<open>What the manager relies on: a saved peer is found again under its identifier, with its kind and with its hash
  unless that is zero, and a deleted one is not. How a save combines with the record there was is up to the store.\<close>

locale peer_backend =
  fixes ps :: "'w peer_store"
    and ok :: "'w \<Rightarrow> bool"
    and combine :: "peer \<Rightarrow> peer option \<Rightarrow> peer"
  assumes ok_save: "ok w \<Longrightarrow> ok (st_SavePeer ps p w)"
    and ok_delete: "ok w \<Longrightarrow> ok (st_DeletePeer ps i w)"
    and get_save: "ok w \<Longrightarrow> st_GetPeer ps j (st_SavePeer ps p w) =
      (if j = pr_ID p then Some (combine p (st_GetPeer ps j w)) else st_GetPeer ps j w)"
    and get_delete: "ok w \<Longrightarrow> st_GetPeer ps j (st_DeletePeer ps i w) = (if j = i then None else st_GetPeer ps j w)"
    and combine_ID: "pr_ID (combine p old) = pr_ID p"
    and combine_Type: "pr_Type (combine p old) = pr_Type p"
    and combine_hash: "pr_AccessHash p \<noteq> 0 \<Longrightarrow> pr_AccessHash (combine p old) = pr_AccessHash p"
begin

lemma get_deletes: "ok w \<Longrightarrow> st_GetPeer ps j (fold (st_DeletePeer ps) ks w) = (if j \<in> set ks then None else st_GetPeer ps j w)"
  by (induction ks arbitrary: w) (auto simp: ok_delete get_delete)

text \<open>After a run of invalidations no form of any of the identifiers is in memory or in the store.\<close>

lemma Invalidate_fields:
  assumes "Store d = Some ps" and "ok (outside m)"
  shows "map_of (byID (Invalidate d i m)) k = (if k \<in> set (peerLookupIDs i) then None else map_of (byID m) k)"
    and "st_GetPeer ps k (outside (Invalidate d i m)) = (if k \<in> set (peerLookupIDs i) then None else st_GetPeer ps k (outside m))"
    and "ok (outside (Invalidate d i m))"
proof -
  have "ok w \<Longrightarrow> ok (fold (st_DeletePeer ps) ks w)" for ks w by (induction ks arbitrary: w) (simp_all add: ok_delete)
  then show "map_of (byID (Invalidate d i m)) k = (if k \<in> set (peerLookupIDs i) then None else map_of (byID m) k)"
    "st_GetPeer ps k (outside (Invalidate d i m)) = (if k \<in> set (peerLookupIDs i) then None else st_GetPeer ps k (outside m))"
    "ok (outside (Invalidate d i m))"
    using assms by (simp_all add: Invalidate_def Let_def invalidate_keys_fields get_deletes)
qed

lemma absent_not_cached:
  assumes "Store d = Some ps"
    and "\<forall>k \<in> set (peerLookupIDs i). map_of (byID m) k = None \<and> st_GetPeer ps k (outside m) = None"
  shows "fst (Cached d now i m) = None"
proof -
  have "List.find (\<lambda>k. map_of (byID m) k \<noteq> None) (peerLookupIDs i) = None"
    unfolding find_None_iff using assms(2) by simp
  moreover have "cached_store d now ps ks m = (None, m)" if "set ks \<subseteq> set (peerLookupIDs i)" for ks
    using that assms(2) by (induction ks) auto
  ultimately show ?thesis using assms(1) by (simp add: Cached_def)
qed

lemma invalidated_absent:
  assumes "Store d = Some ps" and "ok (outside m)" and "i \<in> set ids"
  shows "fst (Cached d now i (fold (Invalidate d) ids m)) = None"
proof -
  have "ok (outside m) \<Longrightarrow> i \<in> set ids \<or> (\<forall>k \<in> set (peerLookupIDs i). map_of (byID m) k = None \<and> st_GetPeer ps k (outside m) = None) \<Longrightarrow>
      \<forall>k \<in> set (peerLookupIDs i). map_of (byID (fold (Invalidate d) ids m)) k = None \<and>
        st_GetPeer ps k (outside (fold (Invalidate d) ids m)) = None"
    by (induction ids arbitrary: m) (auto simp: Invalidate_fields [OF assms(1)])
  then show ?thesis using assms absent_not_cached by blast
qed

end

text \<open>A store that merges, as the manager's comments expect: an empty field keeps what was stored.\<close>

locale merging_backend = peer_backend +
  assumes combine_None: "combine p None = p"
    and combine_merges: "pr_AccessHash p = 0 \<Longrightarrow> pr_AccessHash (combine p (Some q)) = pr_AccessHash q"
begin

text \<open>The stored record of user \<open>i\<close> is there exactly when the specification has a hash, and has it.\<close>

definition stored_hash :: "i64 \<Rightarrow> i64 option \<Rightarrow> 'a \<Rightarrow> bool" where
  "stored_hash i h w \<longleftrightarrow>
     ok w \<and> (case h of
       None \<Rightarrow> st_GetPeer ps i w = None
     | Some e \<Rightarrow> (case st_GetPeer ps i w of None \<Rightarrow> False
                 | Some q \<Rightarrow> pr_ID q = i \<and> pr_Type q = PeerTypeUser \<and> pr_AccessHash q = e))"

lemma stored_hash_other: "stored_hash i h w \<Longrightarrow> pr_ID p \<noteq> i \<Longrightarrow> stored_hash i h (st_SavePeer ps p w)"
  by (auto simp: stored_hash_def ok_save get_save split: option.splits)

lemma stored_hash_save:
  assumes "stored_hash i h w" and "pr_ID p = i" and "pr_Type p = PeerTypeUser"
  shows "stored_hash i (put_hash (pr_AccessHash p) h) (st_SavePeer ps p w)"
  using assms combine_hash [of p] combine_merges [of p]
  by (cases "pr_AccessHash p = 0"; cases h)
    (auto simp: stored_hash_def ok_save get_save combine_ID combine_Type combine_None put_hash_def split: option.splits)

lemma stored_hash_entries:
  assumes "stored_hash i h w"
    and "\<And>p. p \<in> set es \<Longrightarrow> pr_ID p = i \<Longrightarrow> pr_Type p = PeerTypeUser"
  shows "stored_hash i (fold put_hash (map pr_AccessHash (filter (\<lambda>p. pr_ID p = i) es)) h) (fold (st_SavePeer ps) es w)"
  using assms
proof (induction es arbitrary: h w)
  case (Cons p es)
  then show ?case by (cases "pr_ID p = i") (simp_all add: stored_hash_save stored_hash_other)
qed simp

text \<open>The relation the loops keep: a hash in memory is the stored one or zero.\<close>

definition hash_rel :: "i64 \<Rightarrow> i64 option \<Rightarrow> 'a manager \<Rightarrow> bool" where
  "hash_rel i h m \<longleftrightarrow>
     stored_hash i h (outside m) \<and>
     (\<forall>q. map_of (byID m) i = Some q \<longrightarrow> (\<exists>e. q = InputPeerUser i e \<and> (e = 0 \<or> h = Some e)))"

lemma hash_rel_names: "hash_rel i h m \<Longrightarrow> hash_rel i h (cache_names d now u p j m)"
  by (simp add: hash_rel_def)

lemma hash_rel_other:
  assumes "hash_rel i h m" and "canonicalPeerID r p \<noteq> i" and "SavePeers d" and "Store d = Some ps"
    and "\<And>c h. p = InputPeerChannel c h \<Longrightarrow> c \<noteq> i"
  shows "hash_rel i h (Cache d r p m)"
proof -
  have "map_of (byID m) i = Some q" if "map_of (byID (Cache d r p m)) i = Some q" for q
    using Cache_entry [OF that] assms(2) by simp
  moreover have "stored_hash i h (outside (Cache d r p m))"
    using assms entry_ID [of "canonicalPeerID r p" p m]
    by (auto simp: Cache_outside hash_rel_def stored_hash_other split: option.split input_peer.splits)
  ultimately show ?thesis using assms(1) by (auto simp: hash_rel_def)
qed

lemma hash_rel_user:
  assumes rel: "hash_rel i h m" and "\<not> IsMarkedChannel i" and "SavePeers d" and "Store d = Some ps"
  shows "hash_rel i (put_hash x h) (Cache d i (InputPeerUser i x) m)"
proof -
  let ?p = "InputPeerUser i x"
  have c: "canonicalPeerID i ?p = i" using assms(2) by (simp add: canonical_unmarked)
  define y where "y = (case map_of (byID m) i of Some (InputPeerUser u e) \<Rightarrow> if x = 0 \<and> e \<noteq> 0 then e else x | _ \<Rightarrow> x)"
  have y: "merged_peer i ?p m = InputPeerUser i y" "put_hash y h = put_hash x h" "y = 0 \<or> put_hash x h = Some y"
    using rel by (auto simp: hash_rel_def y_def merged_peer_def put_hash_def split: option.splits if_splits)
  have "stored_hash i (put_hash x h) (outside (Cache d i ?p m))"
    using rel assms(3,4) y(1,2) stored_hash_save [of i h "outside m" "empty_peer\<lparr>pr_ID := i, pr_Type := PeerTypeUser, pr_AccessHash := y\<rparr>"]
    by (simp add: Cache_outside c hash_rel_def)
  moreover have "q = InputPeerUser i y" if "map_of (byID (Cache d i ?p m)) i = Some q" for q
    using Cache_entry [OF that] y(1) by (simp add: c)
  ultimately show ?thesis using y(3) by (auto simp: hash_rel_def)
qed

lemma hash_rel_users:
  assumes "hash_rel i h m" and "batch_ok i us cs" and "SavePeers d" and "Store d = Some ps"
  shows "hash_rel i (fold put_hash (hashes i us) h) (snd (ingest_users d now us m)) \<and>
    map pr_AccessHash (filter (\<lambda>p. pr_ID p = i) (fst (ingest_users d now us m))) = hashes i us \<and>
    (\<forall>p \<in> set (fst (ingest_users d now us m)). pr_Type p = PeerTypeUser)"
  using assms(1,2)
proof (induction i us arbitrary: m h rule: hashes.induct)
  case (3 i u us)
  let ?m = "Cache d (u_ID u) (InputPeerUser (u_ID u) (user_hash u)) m"
  have b: "\<not> IsMarkedChannel (u_ID u)" "batch_ok i us cs" using 3 by (simp_all add: batch_ok_def)
  have "hash_rel i (if u_ID u = i then put_hash (user_hash u) h else h) ?m"
    using "3.prems"(1) b(1) assms(3,4) hash_rel_user [of i h m d "user_hash u"]
    by (cases "u_ID u = i") (auto simp: canonical_unmarked intro: hash_rel_other)
  then have "hash_rel i (if u_ID u = i then put_hash (user_hash u) h else h) (cache_names d now (u_Username u) (u_Phone u) (u_ID u) ?m)"
    by (rule hash_rel_names)
  with 3 b(2) show ?case
    by (cases "u_ID u = i") (auto simp: Let_def case_prod_unfold user_entry_def)
qed (auto simp: batch_ok_def)

lemma hash_rel_chats:
  assumes "hash_rel i h m" and "batch_ok i us cs" and "SavePeers d" and "Store d = Some ps"
  shows "hash_rel i h (snd (ingest_chats d now cs m)) \<and> (\<forall>p \<in> set (fst (ingest_chats d now cs m)). pr_ID p \<noteq> i)"
  using assms
proof (induction d now cs m rule: ingest_chats.induct)
  case (3 d now c cs m)
  then have "hash_rel i h (Cache d c (InputPeerChat c) m)"
    by (auto simp: batch_ok_def canonical_unmarked intro!: hash_rel_other)
  with 3 show ?case by (auto simp: batch_ok_def Let_def case_prod_unfold chat_entry_def)
next
  case (4 d now c cs m)
  then have "hash_rel i h (Cache d (c_ID c) (InputPeerChannel (c_ID c) (channel_hash c)) m)"
    by (auto simp: batch_ok_def canonical_unmarked intro!: hash_rel_other)
  then have "hash_rel i h (cache_names d now (c_Username c) [] (c_ID c) (Cache d (c_ID c) (InputPeerChannel (c_ID c) (channel_hash c)) m))"
    by (rule hash_rel_names)
  with 4 show ?case by (auto simp: batch_ok_def Let_def case_prod_unfold channel_entry_def)
qed (auto simp: batch_ok_def)

lemma hash_rel_Ingest:
  assumes "hash_rel i h m" and "batch_ok i us cs" and "SavePeers d" and "Store d = Some ps"
  shows "hash_rel i (fold put_hash (hashes i us) h) (Ingest d now us cs m)"
proof -
  let ?h = "fold put_hash (hashes i us) h"
  let ?u = "ingest_users d now us m" let ?c = "ingest_chats d now cs (snd (ingest_users d now us m))"
  note users = hash_rel_users [OF assms, of now]
  note chats = hash_rel_chats [OF conjunct1 [OF users] assms(2-4), of now]
  have none: "filter (\<lambda>p. pr_ID p = i) (fst ?c) = []" using chats by (simp add: filter_empty_conv)
  have "stored_hash i (fold put_hash (map pr_AccessHash (filter (\<lambda>p. pr_ID p = i) (fst ?u @ fst ?c))) ?h)
      (fold (st_SavePeer ps) (fst ?u @ fst ?c) (outside (snd ?c)))"
    by (rule stored_hash_entries) (use users chats in \<open>auto simp: hash_rel_def\<close>)
  then have "stored_hash i ?h (fold (st_SavePeer ps) (fst ?u @ fst ?c) (outside (snd ?c)))"
    using users none by (simp add: put_hashes_again)
  then show ?thesis
    using chats assms(3,4) by (auto simp: Ingest_def Let_def case_prod_unfold persist_def hash_rel_def)
qed

lemma restart_finds_hash:
  assumes "hash_rel i (Some e) m" and "\<not> IsMarkedChannel i" and "SavePeers d" and "Store d = Some ps"
  shows "fst (Cached d now i (NewManager (outside m))) = Some (InputPeerUser i e)"
  using assms
  by (auto simp: Cached_def NewManager_def lookup_unmarked hash_rel_def stored_hash_def peerFromStorageEntry_def Let_def
      split: option.splits)

end

lemma merge_peer_fields [simp]:
  "pr_ID (merge_peer p old) = pr_ID p" "pr_Type (merge_peer p old) = pr_Type p"
  "pr_AccessHash (merge_peer p old) = (if pr_AccessHash p = 0 then pr_AccessHash old else pr_AccessHash p)"
  by (simp_all add: merge_peer_def)

interpretation memory_backend: merging_backend memory_store peers_wf "\<lambda>p old. case old of None \<Rightarrow> p | Some q \<Rightarrow> merge_peer p q"
proof unfold_locales
  show "st_GetPeer memory_store j (st_SavePeer memory_store p w) =
      (if j = pr_ID p then Some (case st_GetPeer memory_store j w of None \<Rightarrow> p | Some q \<Rightarrow> merge_peer p q)
       else st_GetPeer memory_store j w)" for j p and w :: "'a memory_storage"
    by (simp add: memory_store_def GetPeer_def SavePeer_peers stored_peer_def)
  show "st_GetPeer memory_store j (st_DeletePeer memory_store i w) = (if j = i then None else st_GetPeer memory_store j w)"
    for i j and w :: "'a memory_storage"
    by (simp add: memory_store_def GetPeer_def DeletePeer_def Let_def delete_conv')
qed (auto simp: memory_store_def peers_wf_SavePeer peers_wf_DeletePeer split: option.split)

interpretation adapter_backend: peer_backend adapter_store "\<lambda>_. True" "\<lambda>p old. p"
  by unfold_locales
    (auto simp: adapter_store_def ma_GetPeer_def ma_SavePeer_def ma_DeletePeer_def update_conv' delete_conv' split: option.split)


definition saving_deps :: "'w peer_store \<Rightarrow> 'w deps" where
  "saving_deps ps = \<lparr>CacheSize = 1, SavePeers = True, IsBot = False, IndexTTL = None, Store = Some ps\<rparr>"


text \<open>The same with the in-memory adapter, which does not merge, fails: a min entity of a known user erases the stored hash.
  And in either store a hash does not help a manager that has not looked: an entity without hash is cached as it is, and
  then hides the stored one.\<close>

lemma adapter_forgets_hash:
  "fst (Cached (saving_deps adapter_store) 9 5
     (NewManager (outside (Ingest (saving_deps adapter_store) 2 [User (sample_user 5 88 True)] []
        (Ingest (saving_deps adapter_store) 1 [User (sample_user 5 77 False)] [] (NewManager newMemoryAdapter)))))) =
   Some (InputPeerUser 5 0)"
  by code_simp

lemma min_entity_hides_stored_hash:
  fixes d :: "unit memory_storage deps"
  defines "d \<equiv> saving_deps memory_store"
  defines "w \<equiv> outside (Ingest d 1 [User (sample_user 5 77 False)] [] (NewManager NewMemoryStorage))"
  shows "fst (Cached d 3 5 (NewManager w)) = Some (InputPeerUser 5 77)"
    and "fst (Cached d 3 5 (Ingest d 2 [User (sample_user 5 88 True)] [] (NewManager w))) = Some (InputPeerUser 5 0)"
  unfolding d_def w_def by code_simp+

end
