(* ===== verification/Peer_Resolution.thy ===== *)
theory Peer_Resolution
  imports Peer_Cache RPC_Errors
begin

text \<open>
  Resolving peer references, \<^verbatim>\<open>src/telegram/peers\<close>: \<^verbatim>\<open>cascade.go\<close>, \<^verbatim>\<open>rpc.go\<close>, \<^verbatim>\<open>errors.go\<close>, \<^verbatim>\<open>invalidation.go\<close> and
  the middleware of \<^verbatim>\<open>response_ingest.go\<close>. The server is a record of calls on the outside state of the manager,
  which any call may change. An operation sees one time; the RPC client is there. The coalescer, which lets concurrent
  callers share a call, is a step function of its own, and a single caller always leads.
\<close>

section \<open>Definitions\<close>

subsection \<open>Errors\<close>

text \<open>What the callers can tell of an error: whether it wraps \<^verbatim>\<open>ErrNotFound\<close> and \<^verbatim>\<open>ErrInvalid\<close>, and the failed call
  behind it.\<close>

datatype call_failure = ServerError tg_error | OtherFailure

record peer_error =
  e_notFound :: bool
  e_invalid :: bool
  e_cause :: "call_failure option"

definition ErrNotFound :: peer_error where
  "ErrNotFound = \<lparr>e_notFound = True, e_invalid = False, e_cause = None\<rparr>"

definition tgerr_Is :: "peer_error \<Rightarrow> int list list \<Rightarrow> bool" where
  "tgerr_Is err tt \<longleftrightarrow> (case e_cause err of Some (ServerError e) \<Rightarrow> IsOneOf e tt | _ \<Rightarrow> False)"

definition notFoundTypes :: "int list list" where
  "notFoundTypes = map codes
     [''USERNAME_NOT_OCCUPIED'', ''USERNAME_INVALID'', ''PHONE_NUMBER_INVALID'', ''PHONE_NUMBER_BANNED'', ''PHONE_NUMBER_UNPRIVACY'',
      ''PEER_ID_INVALID'', ''USER_ID_INVALID'', ''CHANNEL_INVALID'', ''CHANNEL_PRIVATE'']"

definition isNotFoundRPC :: "peer_error \<Rightarrow> bool" where
  "isNotFoundRPC err \<longleftrightarrow> tgerr_Is err notFoundTypes"

definition IsStaleHashError :: "peer_error \<Rightarrow> bool" where
  "IsStaleHashError err \<longleftrightarrow> tgerr_Is err [codes ''PEER_ID_INVALID'', codes ''CHANNEL_INVALID'']"

text \<open>The wrapping of a failed resolution call: with \<^verbatim>\<open>ErrNotFound\<close> if the server says so, else as it is.\<close>

definition wrap_rpc :: "peer_error \<Rightarrow> peer_error" where
  "wrap_rpc err = (if isNotFoundRPC err then err\<lparr>e_notFound := True\<rparr> else err)"

subsection \<open>Calls\<close>

record resolved_peer =
  rs_Peer :: peer_class
  rs_Users :: "user_class list"
  rs_Chats :: "chat_class list"

datatype dialog_class = Dialog peer_class u32 | DialogOther

datatype message_class = Message u32 u32 | MessageService u32 u32 | MessageOther

datatype dialogs_class =
    MessagesDialogs "dialog_class list" "message_class list" "user_class list" "chat_class list"
  | MessagesDialogsSlice "dialog_class list" "message_class list" "user_class list" "chat_class list"
  | MessagesDialogsNotModified
  | DialogsOther

text \<open>Results declared as \<^verbatim>\<open>tg.TLObject\<close>; an item of a vector that is not a user is None.\<close>

datatype tl_result =
    GenericVector "user_class option list"
  | MessagesChats "chat_class list"
  | MessagesChatsSlice "chat_class list"
  | OtherObject

record 'w invoker =
  ContactsResolveUsername :: "string \<Rightarrow> 'w \<Rightarrow> (peer_error + resolved_peer) \<times> 'w"
  ContactsResolvePhone :: "string \<Rightarrow> 'w \<Rightarrow> (peer_error + resolved_peer) \<times> 'w"
  UsersGetUsers :: "i64 \<Rightarrow> 'w \<Rightarrow> (peer_error + tl_result) \<times> 'w"
  ChannelsGetChannels :: "i64 \<Rightarrow> 'w \<Rightarrow> (peer_error + tl_result) \<times> 'w"
  MessagesGetDialogs :: "input_peer \<times> u32 \<times> u32 \<Rightarrow> 'w \<Rightarrow> (peer_error + dialogs_class) \<times> 'w"

definition call :: "('a \<Rightarrow> 'w \<Rightarrow> (peer_error + 'b) \<times> 'w) \<Rightarrow> 'a \<Rightarrow> 'w manager \<Rightarrow> (peer_error + 'b) \<times> 'w manager" where
  "call f x m = (let (r, w) = f x (outside m) in (r, m\<lparr>outside := w\<rparr>))"

subsection \<open>Conversions\<close>

fun hasAccessHash :: "input_peer \<Rightarrow> bool" where
  "hasAccessHash (InputPeerChannel c h) = (h \<noteq> 0)"
| "hasAccessHash (InputPeerUser u h) = (h \<noteq> 0)"
| "hasAccessHash _ = True"

fun makeUserMap :: "user_class list \<Rightarrow> (i64 \<times> tg_user) list \<Rightarrow> (i64 \<times> tg_user) list" where
  "makeUserMap [] m = m"
| "makeUserMap (UserOther # us) m = makeUserMap us m"
| "makeUserMap (User u # us) m = makeUserMap us (if u_ID u \<noteq> 0 then AList.update (u_ID u) u m else m)"

text \<open>The values are \<^verbatim>\<open>chatInfo\<close>, an identifier and a hash.\<close>

fun makeChatMap :: "chat_class list \<Rightarrow> (i64 \<times> i64 \<times> i64) list \<Rightarrow> (i64 \<times> i64 \<times> i64) list" where
  "makeChatMap [] m = m"
| "makeChatMap (ChatOther # cs) m = makeChatMap cs m"
| "makeChatMap (Chat c # cs) m = makeChatMap cs (AList.update c (c, 0) m)"
| "makeChatMap (Channel c # cs) m = makeChatMap cs (AList.update (c_ID c) (c_ID c, c_AccessHash c) m)"

definition PeerToInputPeer :: "peer_class \<Rightarrow> user_class list \<Rightarrow> chat_class list \<Rightarrow> peer_error + input_peer" where
  "PeerToInputPeer peer users chats =
     (case peer of
        PeerUser i \<Rightarrow>
          (case map_of (makeUserMap users []) i of
             None \<Rightarrow> if i = 0 then Inr InputPeerSelf else Inl ErrNotFound
           | Some u \<Rightarrow> if u_AccessHash u \<noteq> 0 then Inr (InputPeerUser (u_ID u) (u_AccessHash u)) else Inl ErrNotFound)
      | PeerChat i \<Rightarrow>
          (case map_of (makeChatMap chats []) i of None \<Rightarrow> Inl ErrNotFound | Some (c, h) \<Rightarrow> Inr (InputPeerChat c))
      | PeerChannel i \<Rightarrow>
          (case map_of (makeChatMap chats []) i of None \<Rightarrow> Inl ErrNotFound | Some (c, h) \<Rightarrow> Inr (InputPeerChannel c h))
      | PeerOther \<Rightarrow> Inl ErrNotFound)"

datatype input_user = InputUser i64 i64 | InputUserSelf

datatype input_channel = InputChannel_of i64 i64 | InputChannelEmpty

text \<open>\<^verbatim>\<open>NotUserError\<close> and \<^verbatim>\<open>NotChannelError\<close> wrap neither sentinel.\<close>

definition wrong_kind :: peer_error where
  "wrong_kind = \<lparr>e_notFound = False, e_invalid = False, e_cause = None\<rparr>"

fun InputPeerToUser :: "input_peer \<Rightarrow> peer_error + input_user" where
  "InputPeerToUser (InputPeerUser u h) = Inr (InputUser u h)"
| "InputPeerToUser InputPeerSelf = Inr InputUserSelf"
| "InputPeerToUser _ = Inl wrong_kind"

fun InputPeerToChannel :: "input_peer \<Rightarrow> peer_error + input_channel" where
  "InputPeerToChannel (InputPeerChannel c h) = Inr (InputChannel_of c h)"
| "InputPeerToChannel InputPeerSelf = Inr InputChannelEmpty"
| "InputPeerToChannel _ = Inl wrong_kind"

definition inputPeerFromBareChatID :: "i64 \<Rightarrow> input_peer option" where
  "inputPeerFromBareChatID i = (if sint i < 0 \<and> \<not> IsMarkedChannel i then Some (InputPeerChat (- i)) else None)"

fun peerClassFromInput :: "input_peer \<Rightarrow> peer_class" where
  "peerClassFromInput (InputPeerUser u h) = PeerUser u"
| "peerClassFromInput (InputPeerChat c) = PeerChat c"
| "peerClassFromInput (InputPeerChannel c h) = PeerChannel c"
| "peerClassFromInput _ = PeerOther"

definition bare_user :: "i64 \<Rightarrow> i64 \<Rightarrow> tg_user" where
  "bare_user i h =
     \<lparr>u_ID = i, u_AccessHash = h, u_Min = False, u_Username = [], u_Phone = [], u_FirstName = [], u_LastName = [], u_Bot = False,
      u_LangCode = []\<rparr>"

definition bare_channel :: "i64 \<Rightarrow> i64 \<Rightarrow> tg_channel" where
  "bare_channel i h = \<lparr>c_ID = i, c_AccessHash = h, c_Min = False, c_Username = []\<rparr>"

definition resolvedFromCached :: "input_peer \<Rightarrow> resolved_peer" where
  "resolvedFromCached p =
     \<lparr>rs_Peer = peerClassFromInput p,
      rs_Users = (case p of InputPeerUser u h \<Rightarrow> [User (bare_user u h)] | _ \<Rightarrow> []),
      rs_Chats = (case p of InputPeerChat c \<Rightarrow> [Chat c] | InputPeerChannel c h \<Rightarrow> [Channel (bare_channel c h)] | _ \<Rightarrow> [])\<rparr>"

fun unpackDialogs :: "dialogs_class \<Rightarrow> (dialog_class list \<times> message_class list \<times> user_class list \<times> chat_class list) option" where
  "unpackDialogs (MessagesDialogs ds ms us cs) = Some (ds, ms, us, cs)"
| "unpackDialogs (MessagesDialogsSlice ds ms us cs) = Some (ds, ms, us, cs)"
| "unpackDialogs _ = None"

fun chatsFromChatsClass :: "tl_result \<Rightarrow> chat_class list" where
  "chatsFromChatsClass (MessagesChats cs) = cs"
| "chatsFromChatsClass (MessagesChatsSlice cs) = cs"
| "chatsFromChatsClass _ = []"

fun usersFromUsersGetUsers :: "tl_result \<Rightarrow> user_class list" where
  "usersFromUsersGetUsers (GenericVector items) = List.map_filter (\<lambda>x. x) items"
| "usersFromUsersGetUsers _ = []"

fun messageDate :: "message_class list \<Rightarrow> u32 \<Rightarrow> u32" where
  "messageDate [] i = 0"
| "messageDate (Message k date # ms) i = (if k = i then date else messageDate ms i)"
| "messageDate (MessageService k date # ms) i = (if k = i then date else messageDate ms i)"
| "messageDate (MessageOther # ms) i = messageDate ms i"

subsection \<open>Names\<close>

definition ResolveUsernameFull ::
    "'w deps \<Rightarrow> 'w invoker \<Rightarrow> int \<Rightarrow> string \<Rightarrow> 'w manager \<Rightarrow> (peer_error + resolved_peer) \<times> 'w manager" where
  "ResolveUsernameFull d iv now name m =
     (let username = trim_prefix ''@'' name
      in case cachedByUsername d now username m of
           (Some p, m) \<Rightarrow> (Inr (resolvedFromCached p), m)
         | (None, m) \<Rightarrow>
             (case cachedByUsername d now username m of
                (Some p, m) \<Rightarrow> (Inr (resolvedFromCached p), m)
              | (None, m) \<Rightarrow>
                  (case call (ContactsResolveUsername iv) username m of
                     (Inl err, m) \<Rightarrow> (Inl (wrap_rpc err), m)
                   | (Inr result, m) \<Rightarrow> (Inr result, ingestResolved d now (rs_Users result) (rs_Chats result) m))))"

definition to_input_peer :: "resolved_peer \<Rightarrow> peer_error + input_peer" where
  "to_input_peer result = PeerToInputPeer (rs_Peer result) (rs_Users result) (rs_Chats result)"

definition InputPeerByUsername ::
    "'w deps \<Rightarrow> 'w invoker \<Rightarrow> int \<Rightarrow> string \<Rightarrow> 'w manager \<Rightarrow> (peer_error + input_peer) \<times> 'w manager" where
  "InputPeerByUsername d iv now name m =
     (let username = trim_prefix ''@'' name
      in case cachedByUsername d now username m of
           (Some p, m) \<Rightarrow> (Inr p, m)
         | (None, m) \<Rightarrow>
             (case ResolveUsernameFull d iv now username m of
                (Inl err, m) \<Rightarrow> (Inl err, m)
              | (Inr result, m) \<Rightarrow> (to_input_peer result, m)))"

text \<open>The part of InputPeerByPhone that asks the store, if it can be asked for numbers.\<close>

definition phone_from_store :: "'w deps \<Rightarrow> string \<Rightarrow> 'w manager \<Rightarrow> peer option" where
  "phone_from_store d phone m =
     (case Option.bind (Store d) st_GetPeerByPhone of
        None \<Rightarrow> None
      | Some get \<Rightarrow>
          (case get phone (outside m) of
             None \<Rightarrow> None
           | Some entry \<Rightarrow> if pr_Type entry = PeerTypeUser then Some entry else None))"

definition InputPeerByPhone ::
    "'w deps \<Rightarrow> 'w invoker \<Rightarrow> int \<Rightarrow> string \<Rightarrow> 'w manager \<Rightarrow> (peer_error + input_peer) \<times> 'w manager" where
  "InputPeerByPhone d iv now raw_phone m =
     (let phone = NormalizePhone raw_phone
      in case cachedByPhone d now phone m of
           (Some p, m) \<Rightarrow> (Inr p, m)
         | (None, m) \<Rightarrow>
             (case phone_from_store d phone m of
                Some entry \<Rightarrow>
                  let peer = InputPeerUser (pr_ID entry) (pr_AccessHash entry)
                  in (Inr peer, CachePhone d now phone (pr_ID entry) (Cache d (pr_ID entry) peer m))
              | None \<Rightarrow>
                  (case call (ContactsResolvePhone iv) phone m of
                     (Inl err, m) \<Rightarrow> (Inl (wrap_rpc err), m)
                   | (Inr result, m) \<Rightarrow>
                       (to_input_peer result, ingestResolved d now (rs_Users result) (rs_Chats result) m))))"

subsection \<open>Bots\<close>

text \<open>The first user or channel of an answer that has the identifier and a hash.\<close>

fun find_user :: "i64 \<Rightarrow> user_class list \<Rightarrow> tg_user option" where
  "find_user i [] = None"
| "find_user i (UserOther # us) = find_user i us"
| "find_user i (User u # us) = (if u_ID u = i \<and> u_AccessHash u \<noteq> 0 then Some u else find_user i us)"

fun find_channel :: "i64 \<Rightarrow> chat_class list \<Rightarrow> tg_channel option" where
  "find_channel i [] = None"
| "find_channel i (Channel c # cs) = (if c_ID c = i \<and> c_AccessHash c \<noteq> 0 then Some c else find_channel i cs)"
| "find_channel i (_ # cs) = find_channel i cs"

definition botUserAccessHash ::
    "'w deps \<Rightarrow> 'w invoker \<Rightarrow> int \<Rightarrow> i64 \<Rightarrow> 'w manager \<Rightarrow> (peer_error + input_peer) \<times> 'w manager" where
  "botUserAccessHash d iv now userID m =
     (case call (UsersGetUsers iv) userID m of
        (Inl err, m) \<Rightarrow> (Inl (wrap_rpc err), m)
      | (Inr result, m) \<Rightarrow>
          let users = usersFromUsersGetUsers result; m = Ingest d now users [] m
          in case find_user userID users of
               None \<Rightarrow> (Inl ErrNotFound, m)
             | Some u \<Rightarrow> let peer = InputPeerUser (u_ID u) (u_AccessHash u) in (Inr peer, Cache d (u_ID u) peer m))"

definition botChannelAccessHash ::
    "'w deps \<Rightarrow> 'w invoker \<Rightarrow> int \<Rightarrow> i64 \<Rightarrow> 'w manager \<Rightarrow> (peer_error + input_peer) \<times> 'w manager" where
  "botChannelAccessHash d iv now channelID m =
     (case call (ChannelsGetChannels iv) channelID m of
        (Inl err, m) \<Rightarrow> (Inl (wrap_rpc err), m)
      | (Inr result, m) \<Rightarrow>
          let chats = chatsFromChatsClass result; m = Ingest d now [] chats m
          in case find_channel channelID chats of
               None \<Rightarrow> (Inl ErrNotFound, m)
             | Some c \<Rightarrow> let peer = InputPeerChannel (c_ID c) (c_AccessHash c) in (Inr peer, Cache d (c_ID c) peer m))"

fun EnsureUsable :: "'w deps \<Rightarrow> 'w invoker \<Rightarrow> int \<Rightarrow> input_peer \<Rightarrow> 'w manager \<Rightarrow> (peer_error + input_peer) \<times> 'w manager" where
  "EnsureUsable d iv now (InputPeerUser u h) m =
     (if h \<noteq> 0 then (Inr (InputPeerUser u h), m) else botUserAccessHash d iv now u m)"
| "EnsureUsable d iv now (InputPeerChannel c h) m =
     (if h \<noteq> 0 then (Inr (InputPeerChannel c h), m) else botChannelAccessHash d iv now c m)"
| "EnsureUsable d iv now peer m = (Inr peer, m)"

definition numericForBot :: "'w deps \<Rightarrow> 'w invoker \<Rightarrow> int \<Rightarrow> i64 \<Rightarrow> 'w manager \<Rightarrow> (peer_error + input_peer) \<times> 'w manager" where
  "numericForBot d iv now i m =
     (case inputPeerFromBareChatID i of
        Some peer \<Rightarrow> (Inr peer, m)
      | None \<Rightarrow>
          (case UnmarkChannel i of
             (raw, True) \<Rightarrow> botChannelAccessHash d iv now raw m
           | (_, False) \<Rightarrow>
               if 0 < sint i then EnsureUsable d iv now (InputPeerUser i 0) m else (Inl ErrNotFound, m)))"

subsection \<open>Accounts\<close>

definition nextDialogOffset ::
    "'w deps \<Rightarrow> int \<Rightarrow> dialog_class list \<Rightarrow> message_class list \<Rightarrow> 'w manager \<Rightarrow> (input_peer \<times> u32 \<times> u32) option \<times> 'w manager" where
  "nextDialogOffset d now dialogs messages m =
     (case last dialogs of
        DialogOther \<Rightarrow> (None, m)
      | Dialog peer topMessage \<Rightarrow>
          (case RawFromPeer peer of
             (_, False) \<Rightarrow> (None, m)
           | (peerID, True) \<Rightarrow>
               (case Cached d now peerID m of
                  (None, m) \<Rightarrow> (None, m)
                | (Some p, m) \<Rightarrow> (Some (p, topMessage, messageDate messages topMessage), m))))"

definition maxDialogPages :: nat where "maxDialogPages = 20"

text \<open>How preloadDialogPeer ends; its caller tells the plain \<^verbatim>\<open>ErrNotFound\<close> from other errors. The offset is the peer, the
  message identifier and the date.\<close>

datatype preload_result = Preloaded | PreloadNotFound | PreloadFailed peer_error

fun preload_pages ::
    "'w deps \<Rightarrow> 'w invoker \<Rightarrow> int \<Rightarrow> i64 \<Rightarrow> nat \<Rightarrow> input_peer \<times> u32 \<times> u32 \<Rightarrow> 'w manager \<Rightarrow> preload_result \<times> 'w manager" where
  "preload_pages d iv now i 0 offset m = (PreloadNotFound, m)"
| "preload_pages d iv now i (Suc pages) offset m =
     (case call (MessagesGetDialogs iv) offset m of
        (Inl err, m) \<Rightarrow> (PreloadFailed err, m)
      | (Inr result, m) \<Rightarrow>
          (case unpackDialogs result of
             None \<Rightarrow> (PreloadNotFound, m)
           | Some (dialogs, messages, users, chats) \<Rightarrow>
               (case Cached d now i (Ingest d now users chats m) of
                  (Some _, m) \<Rightarrow> (Preloaded, m)
                | (None, m) \<Rightarrow>
                    if dialogs = [] then (PreloadNotFound, m)
                    else (case nextDialogOffset d now dialogs messages m of
                            (None, m) \<Rightarrow> (PreloadNotFound, m)
                          | (Some next, m) \<Rightarrow> preload_pages d iv now i pages next m))))"

definition preloadDialogPeer :: "'w deps \<Rightarrow> 'w invoker \<Rightarrow> int \<Rightarrow> i64 \<Rightarrow> 'w manager \<Rightarrow> preload_result \<times> 'w manager" where
  "preloadDialogPeer d iv now i m = preload_pages d iv now i maxDialogPages (InputPeerEmpty, 0, 0) m"

definition peerByUsername :: "'w deps \<Rightarrow> 'w invoker \<Rightarrow> int \<Rightarrow> i64 \<Rightarrow> 'w manager \<Rightarrow> (peer_error + input_peer) \<times> 'w manager" where
  "peerByUsername d iv now i m =
     (let username = LookupUsername m i
      in if username = [] then (Inl ErrNotFound, m) else InputPeerByUsername d iv now username m)"

text \<open>The fallbacks of numericForAccount for a peer without hash: its username, its phone number, a message it was seen in.\<close>

definition hash_fallbacks :: "'w deps \<Rightarrow> 'w invoker \<Rightarrow> int \<Rightarrow> i64 \<Rightarrow> input_peer \<Rightarrow> 'w manager \<Rightarrow> input_peer \<times> 'w manager" where
  "hash_fallbacks d iv now i peer m =
     (case peerByUsername d iv now i m of
        (Inr resolved, m) \<Rightarrow> (resolved, m)
      | (Inl _, m) \<Rightarrow>
          (case (if LookupPhone m i \<noteq> [] then InputPeerByPhone d iv now (LookupPhone m i) m else (Inl ErrNotFound, m)) of
             (Inr resolved, m) \<Rightarrow> (resolved, m)
           | (Inl _, m) \<Rightarrow>
               (case anchorInputPeer d now i m of
                  (Some resolved, m) \<Rightarrow> (resolved, m)
                | (None, m) \<Rightarrow> (peer, m))))"

definition numericForAccount :: "'w deps \<Rightarrow> 'w invoker \<Rightarrow> int \<Rightarrow> i64 \<Rightarrow> 'w manager \<Rightarrow> (peer_error + input_peer) \<times> 'w manager" where
  "numericForAccount d iv now i m =
     (case inputPeerFromBareChatID i of
        Some peer \<Rightarrow> (Inr peer, m)
      | None \<Rightarrow>
          (case preloadDialogPeer d iv now i m of
             (PreloadFailed err, m) \<Rightarrow> (Inl err, m)
           | (_, m) \<Rightarrow>
               (case Cached d now i m of
                  (None, m) \<Rightarrow> (Inl ErrNotFound, m)
                | (Some peer, m) \<Rightarrow>
                    if hasAccessHash peer then (Inr peer, m)
                    else let (p, m) = hash_fallbacks d iv now i peer m in (Inr p, m))))"

subsection \<open>The cascade\<close>

definition cachedForUse :: "'w deps \<Rightarrow> int \<Rightarrow> i64 \<Rightarrow> 'w manager \<Rightarrow> input_peer option \<times> 'w manager" where
  "cachedForUse d now i m =
     (if i = 0 then (Some InputPeerSelf, m)
      else case Cached d now i m of
             (Some peer, m) \<Rightarrow> (if hasAccessHash peer then Some peer else None, m)
           | (None, m) \<Rightarrow> (None, m))"

definition inputPeerByID :: "'w deps \<Rightarrow> 'w invoker \<Rightarrow> int \<Rightarrow> i64 \<Rightarrow> 'w manager \<Rightarrow> (peer_error + input_peer) \<times> 'w manager" where
  "inputPeerByID d iv now i m =
     (case cachedForUse d now i m of
        (Some peer, m) \<Rightarrow> (Inr peer, m)
      | (None, m) \<Rightarrow> if IsBot d then numericForBot d iv now i m else numericForAccount d iv now i m)"

record ref =
  r_ID :: i64
  r_Username :: string
  r_Phone :: string
  r_Peer :: "input_peer option"

definition InputPeer :: "'w deps \<Rightarrow> 'w invoker \<Rightarrow> int \<Rightarrow> ref \<Rightarrow> 'w manager \<Rightarrow> (peer_error + input_peer) \<times> 'w manager" where
  "InputPeer d iv now r m =
     (case (case r_Peer r of
              Some peer \<Rightarrow> (Inr peer, m)
            | None \<Rightarrow>
                if r_Phone r \<noteq> [] then InputPeerByPhone d iv now (r_Phone r) m
                else if r_Username r \<noteq> [] then InputPeerByUsername d iv now (r_Username r) m
                else if r_ID r = 0 then (Inr InputPeerSelf, m)
                else inputPeerByID d iv now (r_ID r) m) of
        (Inl err, m) \<Rightarrow> (Inl err, m)
      | (Inr peer, m) \<Rightarrow> if IsBot d then EnsureUsable d iv now peer m else (Inr peer, m))"

definition InputUser_ref :: "'w deps \<Rightarrow> 'w invoker \<Rightarrow> int \<Rightarrow> ref \<Rightarrow> 'w manager \<Rightarrow> (peer_error + input_user) \<times> 'w manager" where
  "InputUser_ref d iv now r m =
     (case InputPeer d iv now r m of (Inl err, m) \<Rightarrow> (Inl err, m) | (Inr peer, m) \<Rightarrow> (InputPeerToUser peer, m))"

definition InputChannel_ref :: "'w deps \<Rightarrow> 'w invoker \<Rightarrow> int \<Rightarrow> ref \<Rightarrow> 'w manager \<Rightarrow> (peer_error + input_channel) \<times> 'w manager" where
  "InputChannel_ref d iv now r m =
     (case InputPeer d iv now r m of (Inl err, m) \<Rightarrow> (Inl err, m) | (Inr peer, m) \<Rightarrow> (InputPeerToChannel peer, m))"

subsection \<open>Rejected hashes\<close>

text \<open>A request as reflection sees it. \<open>PeerPtr\<close> is a pointer, possibly in an interface, to one of the peer types; \<open>Ptr\<close> is
  any other pointer or interface, None when nil. Structs have their exported fields; arrays are slices.\<close>

datatype go_value = PeerPtr i64 | Ptr "go_value option" | Struct "go_value list" | Slice "go_value list" | Scalar

fun collectPeerIDs :: "go_value \<Rightarrow> nat \<Rightarrow> i64 list" where
  "collectPeerIDs v depth =
     (if 2 < depth then []
      else case v of
             PeerPtr i \<Rightarrow> [i]
           | Ptr None \<Rightarrow> []
           | Ptr (Some v') \<Rightarrow> collectPeerIDs v' depth
           | Struct fs \<Rightarrow> concat (map (\<lambda>f. collectPeerIDs f (depth + 1)) fs)
           | Slice vs \<Rightarrow> concat (map (\<lambda>f. collectPeerIDs f (depth + 1)) vs)
           | Scalar \<Rightarrow> [])"

declare collectPeerIDs.simps [simp del]

definition requestPeerIDs :: "go_value option \<Rightarrow> i64 list" where
  "requestPeerIDs input =
     (case input of
        Some (Struct fs) \<Rightarrow> collectPeerIDs (Struct fs) 0
      | Some (Ptr (Some (Struct fs))) \<Rightarrow> collectPeerIDs (Struct fs) 0
      | _ \<Rightarrow> [])"

text \<open>RPCInvoke and RPCInvokeRaw of \<^verbatim>\<open>staleHashInvoker\<close>, which differ in the type of the result. The next invoker sees the
  manager, since calls of other parts of the client change it.\<close>

definition stale_RPCInvoke ::
    "'w deps \<Rightarrow> (go_value option \<Rightarrow> 'w manager \<Rightarrow> (peer_error + 'r) \<times> 'w manager) \<Rightarrow> go_value option \<Rightarrow> 'w manager \<Rightarrow>
     (peer_error + 'r) \<times> 'w manager" where
  "stale_RPCInvoke d next input m =
     (case next input m of
        (Inr res, m) \<Rightarrow> (Inr res, m)
      | (Inl err, m) \<Rightarrow>
          if \<not> IsStaleHashError err \<or> e_invalid err then (Inl err, m)
          else
            let ids = requestPeerIDs input
            in if ids = [] then (Inl err, m)
               else
                 (case next input (fold (Invalidate d) ids m) of
                    (Inl rerr, m) \<Rightarrow> (Inl (if IsStaleHashError rerr then rerr\<lparr>e_invalid := True\<rparr> else rerr), m)
                  | (Inr res, m) \<Rightarrow> (Inr res, m)))"

subsection \<open>Entities in responses\<close>

datatype entity_kind = kindUsers | kindChats

text \<open>Types as reflection sees them: a field of a struct is a slice whose elements implement \<^verbatim>\<open>tg.UserClass\<close> or
  \<^verbatim>\<open>tg.ChatClass\<close>, or anything else.\<close>

datatype field_type = UserSlice | ChatSlice | PlainField

datatype go_type = PointerTo go_type | StructType string "field_type list" | OtherType string

record layout_tables =
  lt_layoutCache :: "(go_type \<times> (nat \<times> entity_kind) list) list"
  lt_noEntities :: "go_type list"

fun layout_fields :: "nat \<Rightarrow> field_type list \<Rightarrow> (nat \<times> entity_kind) list" where
  "layout_fields i [] = []"
| "layout_fields i (UserSlice # fs) = (i, kindUsers) # layout_fields (Suc i) fs"
| "layout_fields i (ChatSlice # fs) = (i, kindChats) # layout_fields (Suc i) fs"
| "layout_fields i (PlainField # fs) = layout_fields (Suc i) fs"

text \<open>A missing layout is the empty list.\<close>

definition layoutFor :: "go_type \<Rightarrow> layout_tables \<Rightarrow> (nat \<times> entity_kind) list \<times> layout_tables" where
  "layoutFor t tb =
     (case map_of (lt_layoutCache tb) t of
        Some l \<Rightarrow> (l, tb)
      | None \<Rightarrow>
          if t \<in> set (lt_noEntities tb) then ([], tb)
          else
            let t = (case t of PointerTo s \<Rightarrow> s | _ \<Rightarrow> t);
                l = (case t of StructType name fs \<Rightarrow> layout_fields 0 fs | _ \<Rightarrow> [])
            in if l = [] then ([], tb\<lparr>lt_noEntities := List.insert t (lt_noEntities tb)\<rparr>)
               else (l, tb\<lparr>lt_layoutCache := AList.update t l (lt_layoutCache tb)\<rparr>))"

text \<open>The value of a field; a slice of a concrete type is not a \<^verbatim>\<open>[]tg.UserClass\<close> and is skipped.\<close>

datatype field_value = UsersValue "user_class list" | ChatsValue "chat_class list" | PlainValue

fun layout_users :: "(nat \<times> entity_kind) list \<Rightarrow> field_value list \<Rightarrow> user_class list" where
  "layout_users [] vs = []"
| "layout_users ((i, kindUsers) # l) vs = (case vs ! i of UsersValue us \<Rightarrow> us | _ \<Rightarrow> []) @ layout_users l vs"
| "layout_users ((i, kindChats) # l) vs = layout_users l vs"

fun layout_chats :: "(nat \<times> entity_kind) list \<Rightarrow> field_value list \<Rightarrow> chat_class list" where
  "layout_chats [] vs = []"
| "layout_chats ((i, kindChats) # l) vs = (case vs ! i of ChatsValue cs \<Rightarrow> cs | _ \<Rightarrow> []) @ layout_chats l vs"
| "layout_chats ((i, kindUsers) # l) vs = layout_chats l vs"

text \<open>A result is a pointer to a struct with a value for every field; None is nil or not a pointer.\<close>

definition ingestResult ::
    "'w deps \<Rightarrow> int \<Rightarrow> (string \<times> field_type list \<times> field_value list) option \<Rightarrow> layout_tables \<Rightarrow> 'w manager \<Rightarrow> layout_tables \<times> 'w manager" where
  "ingestResult d now result tb m =
     (case result of
        None \<Rightarrow> (tb, m)
      | Some (name, fs, vs) \<Rightarrow>
          let (l, tb) = layoutFor (PointerTo (StructType name fs)) tb;
              users = layout_users l vs; chats = layout_chats l vs
          in (tb, if users \<noteq> [] \<or> chats \<noteq> [] then Ingest d now users chats m else m))"

section \<open>What resolution returns\<close>

lemma find_user_hash: "find_user i us = Some u \<Longrightarrow> u_ID u = i \<and> u_AccessHash u \<noteq> 0"
  by (induction i us rule: find_user.induct) (auto split: if_splits)

lemma find_channel_hash: "find_channel i cs = Some c \<Longrightarrow> c_ID c = i \<and> c_AccessHash c \<noteq> 0"
  by (induction i cs rule: find_channel.induct) (auto split: if_splits)

lemma botUser_usable: "botUserAccessHash d iv now u m = (Inr p, m') \<Longrightarrow> \<exists>h. p = InputPeerUser u h \<and> h \<noteq> 0"
  by (auto simp: botUserAccessHash_def Let_def dest: find_user_hash split: prod.splits sum.splits option.splits)

lemma botChannel_usable: "botChannelAccessHash d iv now c m = (Inr p, m') \<Longrightarrow> \<exists>h. p = InputPeerChannel c h \<and> h \<noteq> 0"
  by (auto simp: botChannelAccessHash_def Let_def dest: find_channel_hash split: prod.splits sum.splits option.splits)

lemma EnsureUsable_usable:
  assumes "EnsureUsable d iv now p m = (Inr q, m')"
  shows "hasAccessHash q \<and> peerClassFromInput q = peerClassFromInput p"
  using assms by (cases p) (auto split: if_splits dest!: botUser_usable botChannel_usable)

text \<open>Property C35 (safety): a bot never gets a peer it cannot use. Whatever the caches, the store and the server hold, when
  the client is a bot and InputPeer succeeds, the user or channel it returns carries a hash that is not zero; it is the
  peer the reference gave, if it gave one; and InputUser and InputChannel pass only such peers on.\<close>

theorem bot_resolution_usable:
  assumes "IsBot d"
  shows "(\<forall>p. fst (InputPeer d iv now r m) = Inr p \<longrightarrow>
       hasAccessHash p \<and> (\<forall>q. r_Peer r = Some q \<longrightarrow> peerClassFromInput p = peerClassFromInput q)) \<and>
    (\<forall>u h. fst (InputUser_ref d iv now r m) = Inr (InputUser u h) \<longrightarrow> h \<noteq> 0) \<and>
    (\<forall>c h. fst (InputChannel_ref d iv now r m) = Inr (InputChannel_of c h) \<longrightarrow> h \<noteq> 0)"
proof -
  have usable: "hasAccessHash p \<and> (\<forall>q. r_Peer r = Some q \<longrightarrow> peerClassFromInput p = peerClassFromInput q)"
    if res: "fst (InputPeer d iv now r m) = Inr p" for p
  proof -
    obtain m' where "InputPeer d iv now r m = (Inr p, m')" using res by (metis prod.collapse)
    then obtain q m1 where "EnsureUsable d iv now q m1 = (Inr p, m')" "\<forall>q'. r_Peer r = Some q' \<longrightarrow> q' = q"
      using assms by (auto simp: InputPeer_def split: prod.splits sum.splits option.splits)
    then show ?thesis using EnsureUsable_usable by blast
  qed
  have "h \<noteq> 0" if "fst (InputUser_ref d iv now r m) = Inr (InputUser u h)" for u h
    using that usable by (fastforce simp: InputUser_ref_def split: prod.splits sum.splits elim!: InputPeerToUser.elims)
  moreover have "h \<noteq> 0" if "fst (InputChannel_ref d iv now r m) = Inr (InputChannel_of c h)" for c h
    using that usable by (fastforce simp: InputChannel_ref_def split: prod.splits sum.splits elim!: InputPeerToChannel.elims)
  ultimately show ?thesis using usable by blast
qed

text \<open>A server that knows user 5, alone in the dialogs, and its username.\<close>

definition sample_server :: "'w invoker" where
  "sample_server =
     \<lparr>ContactsResolveUsername = (\<lambda>name w. (Inr \<lparr>rs_Peer = PeerUser 5, rs_Users = [User (sample_user 5 77 False)], rs_Chats = []\<rparr>, w)),
      ContactsResolvePhone = (\<lambda>p w. (Inl \<lparr>e_notFound = False, e_invalid = False, e_cause = Some OtherFailure\<rparr>, w)),
      UsersGetUsers = (\<lambda>i w. (Inr (GenericVector [None, Some (User (sample_user i 77 False))]), w)),
      ChannelsGetChannels = (\<lambda>i w. (Inr OtherObject, w)),
      MessagesGetDialogs = (\<lambda>off w. (Inr (MessagesDialogs [] [] [] []), w))\<rparr>"

definition id_ref :: "i64 \<Rightarrow> ref" where
  "id_ref i = \<lparr>r_ID = i, r_Username = [], r_Phone = [], r_Peer = None\<rparr>"

definition bot_deps :: "'w deps" where
  "bot_deps = (plain_deps 0)\<lparr>IsBot := True\<rparr>"

theorem bot_resolution_usable_witness:
  "fst (InputPeer bot_deps sample_server 0 (id_ref 5) (Cache bot_deps 5 (InputPeerUser 5 0) (NewManager ()))) = Inr (InputPeerUser 5 77) \<and>
   hasAccessHash (InputPeerUser 5 77)"
proof -
  have "fst (InputPeer bot_deps sample_server 0 (id_ref 5) (Cache bot_deps 5 (InputPeerUser 5 0) (NewManager ()))) = Inr (InputPeerUser 5 77)"
    by code_simp
  with bot_resolution_usable [of bot_deps sample_server 0 "id_ref 5" "Cache bot_deps 5 (InputPeerUser 5 0) (NewManager ())"]
  show ?thesis by (simp add: bot_deps_def)
qed

section \<open>Errors of resolution\<close>

text \<open>The RPC client knows nothing of the sentinels: its errors are failed calls.\<close>

definition call_errors :: "('a \<Rightarrow> 'w \<Rightarrow> (peer_error + 'b) \<times> 'w) \<Rightarrow> bool" where
  "call_errors f \<longleftrightarrow> (\<forall>x w e. fst (f x w) = Inl e \<longrightarrow> \<not> e_notFound e \<and> e_cause e \<noteq> None)"

definition rpc_errors :: "'w invoker \<Rightarrow> bool" where
  "rpc_errors iv \<longleftrightarrow>
     call_errors (ContactsResolveUsername iv) \<and> call_errors (ContactsResolvePhone iv) \<and> call_errors (UsersGetUsers iv) \<and>
     call_errors (ChannelsGetChannels iv) \<and> call_errors (MessagesGetDialogs iv)"

text \<open>A not-found error is definite: there is no failed call behind it, or one the server answered with a not-found type.\<close>

definition definite :: "peer_error \<Rightarrow> bool" where
  "definite e \<longleftrightarrow>
     (e_notFound e \<longrightarrow> (case e_cause e of None \<Rightarrow> True | Some (ServerError s) \<Rightarrow> IsOneOf s notFoundTypes | Some OtherFailure \<Rightarrow> False))"

lemma definite_ErrNotFound [simp]: "definite ErrNotFound"
  by (simp add: definite_def ErrNotFound_def)

lemma definite_wrap: "\<not> e_notFound e \<Longrightarrow> definite (wrap_rpc e)"
  by (auto simp: definite_def wrap_rpc_def isNotFoundRPC_def tgerr_Is_def split: option.splits call_failure.splits)

lemma definite_call: "call_errors f \<Longrightarrow> call f x m = (Inl e, m') \<Longrightarrow> \<not> e_notFound e \<and> definite e"
  unfolding call_errors_def call_def definite_def by (auto split: prod.splits) (metis fst_conv)+

lemma PeerToInputPeer_error: "PeerToInputPeer p us cs = Inl e \<Longrightarrow> e = ErrNotFound"
  by (auto simp: PeerToInputPeer_def split: peer_class.splits option.splits if_splits)

lemma definite_username:
  assumes "rpc_errors iv" and "InputPeerByUsername d iv now u m = (Inl e, m')"
  shows "definite e"
proof -
  have "definite e" if "ResolveUsernameFull d iv now u m = (Inl e, m')" for u m m' e
    using assms(1) that
    by (auto simp: ResolveUsernameFull_def Let_def rpc_errors_def definite_wrap dest!: definite_call
        split: prod.splits option.splits sum.splits)
  then show ?thesis
    using assms(2)
    by (auto simp: InputPeerByUsername_def to_input_peer_def Let_def dest!: PeerToInputPeer_error
        split: prod.splits option.splits sum.splits)
qed

lemma definite_phone: "rpc_errors iv \<Longrightarrow> InputPeerByPhone d iv now p m = (Inl e, m') \<Longrightarrow> definite e"
  by (auto simp: InputPeerByPhone_def to_input_peer_def Let_def rpc_errors_def definite_wrap
      dest!: definite_call PeerToInputPeer_error split: prod.splits option.splits sum.splits)

lemma definite_bot:
  "rpc_errors iv \<Longrightarrow> botUserAccessHash d iv now i m = (Inl e, m') \<Longrightarrow> definite e"
  "rpc_errors iv \<Longrightarrow> botChannelAccessHash d iv now i m = (Inl e, m') \<Longrightarrow> definite e"
  by (auto simp: botUserAccessHash_def botChannelAccessHash_def Let_def rpc_errors_def definite_wrap
      dest!: definite_call split: prod.splits option.splits sum.splits)

lemma definite_EnsureUsable: "rpc_errors iv \<Longrightarrow> EnsureUsable d iv now p m = (Inl e, m') \<Longrightarrow> definite e"
  by (cases p) (auto split: if_splits dest: definite_bot)

lemma definite_numericForBot: "rpc_errors iv \<Longrightarrow> numericForBot d iv now i m = (Inl e, m') \<Longrightarrow> definite e"
  by (auto simp: numericForBot_def dest: definite_bot definite_EnsureUsable split: option.splits prod.splits bool.splits if_splits
      simp del: EnsureUsable.simps)

lemma definite_preload: "rpc_errors iv \<Longrightarrow> preload_pages d iv now i n off m = (PreloadFailed e, m') \<Longrightarrow> definite e"
  by (induction d iv now i n off m rule: preload_pages.induct)
    (auto simp: rpc_errors_def dest!: definite_call split: prod.splits option.splits sum.splits if_splits)

lemma definite_numericForAccount: "rpc_errors iv \<Longrightarrow> numericForAccount d iv now i m = (Inl e, m') \<Longrightarrow> definite e"
  by (auto simp: numericForAccount_def preloadDialogPeer_def Let_def dest: definite_preload
      split: option.splits prod.splits preload_result.splits if_splits)


definition username_ref :: "string \<Rightarrow> ref" where
  "username_ref u = \<lparr>r_ID = 0, r_Username = u, r_Phone = [], r_Peer = None\<rparr>"

definition unoccupied_server :: "'w invoker" where
  "unoccupied_server =
     sample_server\<lparr>ContactsResolveUsername :=
       (\<lambda>name w. (Inl \<lparr>e_notFound = False, e_invalid = False,
                      e_cause = Some (ServerError (tgerr_New (\<lambda>_. False) 400 (codes ''USERNAME_NOT_OCCUPIED'')))\<rparr>, w))\<rparr>"


section \<open>Rejected hashes\<close>


text \<open>A request with a peer, a server that rejects every request that comes while it is cached.\<close>

definition sample_request :: "go_value option" where
  "sample_request = Some (Ptr (Some (Struct [Scalar, Ptr None, PeerPtr 5, Slice [Ptr (Some (Struct [PeerPtr 6]))]])))"

definition stale_error :: peer_error where
  "stale_error =
     \<lparr>e_notFound = False, e_invalid = False,
      e_cause = Some (ServerError (tgerr_New (\<lambda>_. False) 400 (codes ''PEER_ID_INVALID'')))\<rparr>"

definition picky_next :: "go_value option \<Rightarrow> unit memory_storage manager \<Rightarrow> (peer_error + nat) \<times> unit memory_storage manager" where
  "picky_next input m = (if map_of (byID m) 5 = None then Inr 1 else Inl stale_error, m)"


section \<open>Defects of the fallbacks\<close>

text \<open>The username fallback of numericForAccount is meant to ask the server for the hash of a peer cached without one. But the
  username resolves to that peer from the cache, so as long as the index entry is fresh the peer comes back as it was,
  no call is made, and the phone number and the anchor are not tried.\<close>

lemma peerByUsername_from_cache:
  assumes "map_of (idToUsername m) i = Some u" and "u \<noteq> []" and "trim_prefix ''@'' u = u" and "map_of (usernameToID m) u = Some i"
    and "freshLocked d now (map_of (usernameSeen m) u)" and "map_of (byID m) i = Some p"
  shows "peerByUsername d iv now i m = (Inr p, m)"
  using assms by (simp add: peerByUsername_def LookupUsername_def InputPeerByUsername_def cachedByUsername_def Let_def)

lemma hash_fallbacks_from_cache:
  assumes "peerByUsername d iv now i m = (Inr p, m)"
  shows "hash_fallbacks d iv now i p m = (p, m)"
  using assms by (simp add: hash_fallbacks_def)

lemma username_fallback_useless:
  fixes m :: "unit manager"
  defines "m \<equiv> CacheUsername (plain_deps 0) 0 ''ann'' 5 (Cache (plain_deps 0) 5 (InputPeerUser 5 0) (NewManager ()))"
  shows "fst (InputPeer (plain_deps 0) sample_server 0 (id_ref 5) m) = Inr (InputPeerUser 5 0)"
    and "fst (InputPeerByUsername (plain_deps 0) sample_server 0 ''ann'' (Reset m)) = Inr (InputPeerUser 5 77)"
  unfolding m_def by code_simp+

text \<open>The preload of the dialogs, too, is meant to find the hash, and stops at the first page if the peer is cached without one.\<close>

lemma Ingest_keeps_ids:
  assumes "CacheSize d \<le> 0"
  shows "dom (map_of (byID m)) \<subseteq> dom (map_of (byID (Ingest d now us cs m)))"
proof -
  have users: "dom (map_of (byID m)) \<subseteq> dom (map_of (byID (snd (ingest_users d now us m))))" for us and m :: "'a manager"
    using assms
  proof (induction d now us m rule: ingest_users.induct)
    case (3 d now u us m)
    let ?m = "cache_names d now (u_Username u) (u_Phone u) (u_ID u) (Cache d (u_ID u) (InputPeerUser (u_ID u) (user_hash u)) m)"
    have "dom (map_of (byID m)) \<subseteq> dom (map_of (byID ?m))" using 3 by (auto simp: Cache_byID(2))
    with 3 show ?case by (fastforce simp: Let_def case_prod_unfold)
  qed simp_all
  have chats: "dom (map_of (byID m)) \<subseteq> dom (map_of (byID (snd (ingest_chats d now cs m))))" for cs and m :: "'a manager"
    using assms
  proof (induction d now cs m rule: ingest_chats.induct)
    case (3 d now c cs m)
    have "dom (map_of (byID m)) \<subseteq> dom (map_of (byID (Cache d c (InputPeerChat c) m)))" using 3 by (auto simp: Cache_byID(2))
    with 3 show ?case by (fastforce simp: Let_def case_prod_unfold)
  next
    case (4 d now c cs m)
    let ?m = "cache_names d now (c_Username c) [] (c_ID c) (Cache d (c_ID c) (InputPeerChannel (c_ID c) (channel_hash c)) m)"
    have "dom (map_of (byID m)) \<subseteq> dom (map_of (byID ?m))" using 4 by (auto simp: Cache_byID(2))
    with 4 show ?case by (fastforce simp: Let_def case_prod_unfold)
  qed simp_all
  from users [of m us] chats [of "snd (ingest_users d now us m)" cs] show ?thesis
    by (auto simp: Ingest_def Let_def case_prod_unfold)
qed

lemma preload_one_page:
  assumes "CacheSize d \<le> 0" and "\<not> IsMarkedChannel i" and "map_of (byID m) i \<noteq> None"
  shows "preload_pages d iv now i (Suc n) off m = preload_pages d iv now i (Suc 0) off m"
proof -
  have hit: "\<exists>p. Cached d now i (Ingest d now us cs (m\<lparr>outside := w\<rparr>)) = (Some p, Ingest d now us cs (m\<lparr>outside := w\<rparr>))" for us cs w
    using Ingest_keeps_ids [OF assms(1), of "m\<lparr>outside := w\<rparr>" now us cs] assms(2,3)
    by (fastforce simp: Cached_def lookup_unmarked dom_def)
  have "m' = m\<lparr>outside := outside m'\<rparr>" if "call f x m = (r, m')" for f :: "'b \<Rightarrow> 'a \<Rightarrow> (peer_error + 'c) \<times> 'a" and x r m'
    using that by (auto simp: call_def split: prod.splits)
  then have "\<exists>p. Cached d now i (Ingest d now us cs m') = (Some p, Ingest d now us cs m')"
    if "call (MessagesGetDialogs iv) off m = (r, m')" for us cs r m'
    using that hit [of us cs "outside m'"] by metis
  note cached = this
  obtain r m' where r: "call (MessagesGetDialogs iv) off m = (r, m')" by (cases "call (MessagesGetDialogs iv) off m")
  show ?thesis
  proof (cases r)
    case (Inr result)
    show ?thesis
    proof (cases "unpackDialogs result")
      case (Some q)
      obtain ds ms us cs where q: "q = (ds, ms, us, cs)" by (cases q)
      obtain p where "Cached d now i (Ingest d now us cs m') = (Some p, Ingest d now us cs m')" using cached [OF r] by blast
      with r Inr Some q show ?thesis by simp
    qed (simp add: r Inr)
  qed (simp add: r)
qed

text \<open>The table of layouts is looked up under the pointer type of a response and filled under the struct type, so no response
  ever finds its layout there.\<close>

definition pointer_free :: "layout_tables \<Rightarrow> bool" where
  "pointer_free tb \<longleftrightarrow> (\<forall>t. map_of (lt_layoutCache tb) (PointerTo t) = None \<and> PointerTo t \<notin> set (lt_noEntities tb))"

lemma layout_never_found:
  assumes "pointer_free tb"
  shows "pointer_free (snd (layoutFor (PointerTo (StructType name fs)) tb))"
    and "fst (layoutFor (PointerTo (StructType name fs)) tb) = layout_fields 0 fs"
  using assms by (auto simp: layoutFor_def pointer_free_def Let_def update_conv')

section \<open>Resolution keeps the cache\<close>

text \<open>Resolving any reference keeps the invariant of the cache. The rules below are the ones of the cache and of the calls, stated
  for an operation that returned \<open>m'\<close>.\<close>

lemma cache_inv_call: "call f x m = (r, m') \<Longrightarrow> cache_inv limit m \<Longrightarrow> cache_inv limit m'"
  by (auto simp: call_def split: prod.splits)

lemma cache_inv_lookups:
  "Cached d now i m = (r, m') \<Longrightarrow> cache_inv (CacheSize d) m \<Longrightarrow> cache_inv (CacheSize d) m'"
  "cachedByUsername d now u m = (r, m') \<Longrightarrow> cache_inv limit m \<Longrightarrow> cache_inv limit m'"
  "cachedByPhone d now u m = (r, m') \<Longrightarrow> cache_inv limit m \<Longrightarrow> cache_inv limit m'"
  "anchorInputPeer d now i m = (r, m') \<Longrightarrow> cache_inv (CacheSize d) m \<Longrightarrow> cache_inv (CacheSize d) m'"
  using cache_inv_Cached [of d m now i] cache_inv_byUsername [of limit m d now u] cache_inv_byPhone [of limit m d now u]
    cache_inv_anchorInputPeer [of d m now i]
  by simp_all

lemmas cache_inv_steps = cache_inv_call cache_inv_lookups

lemma cache_inv_ResolveUsernameFull:
  "ResolveUsernameFull d iv now u m = (r, m') \<Longrightarrow> cache_inv (CacheSize d) m \<Longrightarrow> cache_inv (CacheSize d) m'"
  by (auto simp: ResolveUsernameFull_def Let_def cache_inv_Ingest split: prod.splits option.splits sum.splits dest!: cache_inv_steps)

lemma cache_inv_InputPeerByUsername:
  "InputPeerByUsername d iv now u m = (r, m') \<Longrightarrow> cache_inv (CacheSize d) m \<Longrightarrow> cache_inv (CacheSize d) m'"
  by (auto simp: InputPeerByUsername_def Let_def split: prod.splits option.splits sum.splits
      dest!: cache_inv_steps cache_inv_ResolveUsernameFull)

lemma cache_inv_InputPeerByPhone:
  "InputPeerByPhone d iv now u m = (r, m') \<Longrightarrow> cache_inv (CacheSize d) m \<Longrightarrow> cache_inv (CacheSize d) m'"
  by (auto simp: InputPeerByPhone_def Let_def inv_intros split: prod.splits option.splits sum.splits dest!: cache_inv_steps)

lemma cache_inv_bot:
  "botUserAccessHash d iv now i m = (r, m') \<Longrightarrow> cache_inv (CacheSize d) m \<Longrightarrow> cache_inv (CacheSize d) m'"
  "botChannelAccessHash d iv now i m = (r, m') \<Longrightarrow> cache_inv (CacheSize d) m \<Longrightarrow> cache_inv (CacheSize d) m'"
  by (auto simp: botUserAccessHash_def botChannelAccessHash_def Let_def inv_intros
      split: prod.splits option.splits sum.splits dest!: cache_inv_steps)

lemma cache_inv_EnsureUsable:
  "EnsureUsable d iv now p m = (r, m') \<Longrightarrow> cache_inv (CacheSize d) m \<Longrightarrow> cache_inv (CacheSize d) m'"
  by (cases p) (auto split: if_splits dest: cache_inv_bot)

lemma cache_inv_nextDialogOffset:
  "nextDialogOffset d now ds ms m = (r, m') \<Longrightarrow> cache_inv (CacheSize d) m \<Longrightarrow> cache_inv (CacheSize d) m'"
  by (auto simp: nextDialogOffset_def split: prod.splits option.splits dialog_class.splits bool.splits dest: cache_inv_steps)

lemma cache_inv_preload:
  "preload_pages d iv now i n off m = (r, m') \<Longrightarrow> cache_inv (CacheSize d) m \<Longrightarrow> cache_inv (CacheSize d) m'"
proof (induction d iv now i n off m arbitrary: r m' rule: preload_pages.induct)
  case (2 d iv now i pages off m)
  obtain c m1 where c: "call (MessagesGetDialogs iv) off m = (c, m1)" by (cases "call (MessagesGetDialogs iv) off m")
  have m1: "cache_inv (CacheSize d) m1" by (rule cache_inv_call [OF c "2.prems"(2)])
  show ?case
  proof (cases c)
    case (Inr result)
    show ?thesis
    proof (cases "unpackDialogs result")
      case (Some q)
      obtain ds ms us cs where q: "q = (ds, ms, us, cs)" by (cases q)
      obtain x m2 where x: "Cached d now i (Ingest d now us cs m1) = (x, m2)" by (cases "Cached d now i (Ingest d now us cs m1)")
      have m2: "cache_inv (CacheSize d) m2" by (rule cache_inv_lookups(1) [OF x cache_inv_Ingest(1) [OF m1]])
      obtain y m3 where y: "nextDialogOffset d now ds ms m2 = (y, m3)" by (cases "nextDialogOffset d now ds ms m2")
      have "cache_inv (CacheSize d) m3" by (rule cache_inv_nextDialogOffset [OF y m2])
      with 2 c Inr Some q x m2 y show ?thesis by (auto split: option.splits if_splits)
    qed (use 2 c Inr m1 in auto)
  qed (use 2 c m1 in auto)
qed simp

lemma cache_inv_hash_fallbacks:
  "hash_fallbacks d iv now i p m = (r, m') \<Longrightarrow> cache_inv (CacheSize d) m \<Longrightarrow> cache_inv (CacheSize d) m'"
  by (auto simp: hash_fallbacks_def peerByUsername_def Let_def split: prod.splits option.splits sum.splits if_splits
      dest!: cache_inv_steps cache_inv_InputPeerByUsername cache_inv_InputPeerByPhone)

lemma cache_inv_numericForAccount:
  "numericForAccount d iv now i m = (r, m') \<Longrightarrow> cache_inv (CacheSize d) m \<Longrightarrow> cache_inv (CacheSize d) m'"
  by (auto simp: numericForAccount_def preloadDialogPeer_def Let_def split: prod.splits option.splits preload_result.splits if_splits
      dest!: cache_inv_preload cache_inv_steps cache_inv_hash_fallbacks)

lemma cache_inv_inputPeerByID:
  "inputPeerByID d iv now i m = (r, m') \<Longrightarrow> cache_inv (CacheSize d) m \<Longrightarrow> cache_inv (CacheSize d) m'"
  by (auto simp: inputPeerByID_def cachedForUse_def numericForBot_def simp del: EnsureUsable.simps
      split: prod.splits option.splits bool.splits if_splits
      dest!: cache_inv_steps cache_inv_bot cache_inv_EnsureUsable cache_inv_numericForAccount)

lemma cache_inv_InputPeer:
  "InputPeer d iv now r m = (res, m') \<Longrightarrow> cache_inv (CacheSize d) m \<Longrightarrow> cache_inv (CacheSize d) m'"
  by (auto simp: InputPeer_def simp del: EnsureUsable.simps split: prod.splits option.splits sum.splits if_splits
      dest!: cache_inv_InputPeerByPhone cache_inv_InputPeerByUsername cache_inv_inputPeerByID cache_inv_EnsureUsable)

end
