(* ===== verification/Peer_Coalescer.thy ===== *)
theory Peer_Coalescer
  imports Mtgo_Prelude "HOL-Library.AList"
begin

text \<open>
  The coalescer of \<^verbatim>\<open>src/telegram/peers/cascade.go\<close>: concurrent callers of Do with the same key share one call. A caller is a
  number; its program is the sequence of steps below, which is where the source takes the lock, calls the function, sends
  on a channel or waits for one, interleaved in any order with the steps of others. A value is what the call returns, an error
  or a panic turned into one included.
\<close>

section \<open>Definitions\<close>

text \<open>Where a caller is: it runs the function, hands the result to the waiters it took, waits on its channel, or has returned,
  without a value if its context ended.\<close>

datatype 'v co_status = Leading | Handing 'v "nat list" | Waiting | Returned "'v option"

text \<open>The map from keys to waiters, the values in the channels, the callers with their keys, and the completed calls of the
  function, which the code does not keep. The channel of a waiter has the number of the waiter.\<close>

record 'v coalescer =
  inFlight :: "(string \<times> nat list) list"
  channels :: "(nat \<times> 'v) list"
  callers :: "(nat \<times> string \<times> 'v co_status) list"
  completed :: "(string \<times> 'v) list"

definition new_coalescer :: "'v coalescer" where
  "new_coalescer = \<lparr>inFlight = [], channels = [], callers = [], completed = []\<rparr>"

text \<open>\<open>Enter\<close> is the first critical section of Do, \<open>Finish\<close> the return of the function with the second critical section,
  \<open>Hand\<close> one turn of the loop over the waiters, \<open>Receive\<close> and \<open>Cancel\<close> the two cases of the select.\<close>

datatype 'v co_event = Enter nat string | Finish nat 'v | Hand nat | Receive nat | Cancel nat

definition move :: "nat \<Rightarrow> string \<Rightarrow> 'v co_status \<Rightarrow> 'v coalescer \<Rightarrow> 'v coalescer" where
  "move c key st s = s\<lparr>callers := AList.update c (key, st) (callers s)\<rparr>"

fun Do_step :: "'v co_event \<Rightarrow> 'v coalescer \<Rightarrow> 'v coalescer option" where
  "Do_step (Enter c key) s =
     (if map_of (callers s) c \<noteq> None then None
      else case map_of (inFlight s) key of
             Some waiters \<Rightarrow> Some (move c key Waiting (s\<lparr>inFlight := AList.update key (waiters @ [c]) (inFlight s)\<rparr>))
           | None \<Rightarrow> Some (move c key Leading (s\<lparr>inFlight := AList.update key [] (inFlight s)\<rparr>)))"
| "Do_step (Finish c v) s =
     (case map_of (callers s) c of
        Some (key, Leading) \<Rightarrow>
          let waiters = (case map_of (inFlight s) key of None \<Rightarrow> [] | Some ws \<Rightarrow> ws)
          in Some (move c key (Handing v waiters)
                (s\<lparr>inFlight := AList.delete key (inFlight s), completed := completed s @ [(key, v)]\<rparr>))
      | _ \<Rightarrow> None)"
| "Do_step (Hand c) s =
     (case map_of (callers s) c of
        Some (key, Handing v []) \<Rightarrow> Some (move c key (Returned (Some v)) s)
      | Some (key, Handing v (w # ws)) \<Rightarrow> Some (move c key (Handing v ws) (s\<lparr>channels := AList.update w v (channels s)\<rparr>))
      | _ \<Rightarrow> None)"
| "Do_step (Receive c) s =
     (case map_of (callers s) c of
        Some (key, Waiting) \<Rightarrow> (case map_of (channels s) c of None \<Rightarrow> None | Some v \<Rightarrow> Some (move c key (Returned (Some v)) s))
      | _ \<Rightarrow> None)"
| "Do_step (Cancel c) s =
     (case map_of (callers s) c of
        Some (key, Waiting) \<Rightarrow> Some (move c key (Returned None) s)
      | _ \<Rightarrow> None)"

inductive co_reach :: "'v coalescer \<Rightarrow> bool" where
  co_start: "co_reach new_coalescer"
| co_next: "co_reach s \<Longrightarrow> Do_step e s = Some s' \<Longrightarrow> co_reach s'"

section \<open>The invariant\<close>

abbreviation caller :: "'v coalescer \<Rightarrow> nat \<Rightarrow> (string \<times> 'v co_status) option" where
  "caller s c \<equiv> map_of (callers s) c"

text \<open>A key is in the map exactly while one caller leads it.\<close>

definition led :: "'v coalescer \<Rightarrow> bool" where
  "led s \<longleftrightarrow>
     (\<forall>key. map_of (inFlight s) key \<noteq> None \<longleftrightarrow> (\<exists>c. caller s c = Some (key, Leading))) \<and>
     (\<forall>key c c'. caller s c = Some (key, Leading) \<longrightarrow> caller s c' = Some (key, Leading) \<longrightarrow> c = c')"

text \<open>A caller that waits is listed for its key, is about to be handed the result, or has it.\<close>

definition waiters :: "'v coalescer \<Rightarrow> string \<Rightarrow> nat list" where
  "waiters s key = (case map_of (inFlight s) key of None \<Rightarrow> [] | Some ws \<Rightarrow> ws)"

definition sourced :: "'v coalescer \<Rightarrow> string \<Rightarrow> nat \<Rightarrow> bool" where
  "sourced s key c \<longleftrightarrow>
     c \<in> set (waiters s key) \<or> (\<exists>l v ws. caller s l = Some (key, Handing v ws) \<and> c \<in> set ws) \<or> map_of (channels s) c \<noteq> None"

definition served :: "'v coalescer \<Rightarrow> bool" where
  "served s \<longleftrightarrow> (\<forall>c key. caller s c = Some (key, Waiting) \<longrightarrow> sourced s key c)"

text \<open>Lists, channels and results belong to the right key.\<close>

definition of_key :: "'v coalescer \<Rightarrow> string \<Rightarrow> nat \<Rightarrow> bool" where
  "of_key s key c \<longleftrightarrow> (\<exists>st. caller s c = Some (key, st))"

definition keyed :: "'v coalescer \<Rightarrow> bool" where
  "keyed s \<longleftrightarrow>
     (\<forall>key ws. map_of (inFlight s) key = Some ws \<longrightarrow> list_all (of_key s key) ws) \<and>
     (\<forall>l key v ws. caller s l = Some (key, Handing v ws) \<longrightarrow> (key, v) \<in> set (completed s) \<and> list_all (of_key s key) ws) \<and>
     (\<forall>c v. map_of (channels s) c = Some v \<longrightarrow> (\<exists>key. of_key s key c \<and> (key, v) \<in> set (completed s))) \<and>
     (\<forall>c key v. caller s c = Some (key, Returned (Some v)) \<longrightarrow> (key, v) \<in> set (completed s))"

lemma move_simps [simp]:
  "inFlight (move c key st s) = inFlight s" "channels (move c key st s) = channels s" "completed (move c key st s) = completed s"
  "caller (move c key st s) x = (if x = c then Some (key, st) else caller s x)"
  by (simp_all add: move_def update_conv')

text \<open>The ways a step can go, with what the caller was before.\<close>

lemma Do_step_cases:
  assumes "Do_step e s = Some s'"
  obtains (wait) c key ws where "caller s c = None" "map_of (inFlight s) key = Some ws"
      "s' = move c key Waiting (s\<lparr>inFlight := AList.update key (ws @ [c]) (inFlight s)\<rparr>)"
  | (lead) c key where "caller s c = None" "map_of (inFlight s) key = None"
      "s' = move c key Leading (s\<lparr>inFlight := AList.update key [] (inFlight s)\<rparr>)"
  | (finish) c v key ws where "caller s c = Some (key, Leading)" "ws = (case map_of (inFlight s) key of None \<Rightarrow> [] | Some ws \<Rightarrow> ws)"
      "s' = move c key (Handing v ws) (s\<lparr>inFlight := AList.delete key (inFlight s), completed := completed s @ [(key, v)]\<rparr>)"
  | (hand) c key v w ws where "caller s c = Some (key, Handing v (w # ws))"
      "s' = move c key (Handing v ws) (s\<lparr>channels := AList.update w v (channels s)\<rparr>)"
  | (handed) c key v where "caller s c = Some (key, Handing v [])" "s' = move c key (Returned (Some v)) s"
  | (receive) c key v where "caller s c = Some (key, Waiting)" "map_of (channels s) c = Some v" "s' = move c key (Returned (Some v)) s"
  | (cancel) c key where "caller s c = Some (key, Waiting)" "s' = move c key (Returned None) s"
proof (cases e)
  case (Enter c key)
  with assms show ?thesis by (cases "caller s c"; cases "map_of (inFlight s) key") (auto intro: wait lead)
next
  case (Finish c v)
  with assms show ?thesis by (auto simp: Let_def intro: finish [OF _ refl] split: option.splits prod.splits co_status.splits)
next
  case (Hand c)
  with assms show ?thesis by (auto intro: hand handed split: option.splits prod.splits co_status.splits list.splits)
next
  case (Receive c)
  with assms show ?thesis by (auto intro: receive split: option.splits prod.splits co_status.splits)
next
  case (Cancel c)
  with assms show ?thesis by (auto intro: cancel split: option.splits prod.splits co_status.splits)
qed

lemma led_step:
  assumes "led s" and "Do_step e s = Some s'"
  shows "led s'"
  using assms(2)
proof (cases rule: Do_step_cases)
  case (wait c key ws)
  then have "caller s' x = Some (k, Leading) \<longleftrightarrow> caller s x = Some (k, Leading)" for x k by simp
  moreover have "map_of (inFlight s') k = None \<longleftrightarrow> map_of (inFlight s) k = None" for k using wait by (simp add: update_conv')
  ultimately show ?thesis using assms(1) unfolding led_def by simp
next
  case (lead c key)
  then have "caller s' x = Some (k, Leading) \<longleftrightarrow> x = c \<and> k = key \<or> caller s x = Some (k, Leading)" for x k by auto
  moreover have "map_of (inFlight s') k = None \<longleftrightarrow> k \<noteq> key \<and> map_of (inFlight s) k = None" for k using lead by (simp add: update_conv')
  ultimately show ?thesis using assms(1) lead unfolding led_def by metis
next
  case (finish c v key ws)
  then have "caller s' x = Some (k, Leading) \<longleftrightarrow> x \<noteq> c \<and> caller s x = Some (k, Leading)" for x k by auto
  moreover have "map_of (inFlight s') k = None \<longleftrightarrow> k = key \<or> map_of (inFlight s) k = None" for k using finish by (simp add: delete_conv')
  ultimately show ?thesis using assms(1) finish(1) unfolding led_def by (metis option.inject prod.inject)
next
  case (hand c key v w ws)
  then have "caller s' x = Some (k, Leading) \<longleftrightarrow> caller s x = Some (k, Leading)" for x k by auto
  then show ?thesis using assms(1) hand unfolding led_def by simp
next
  case (handed c key v)
  then have "caller s' x = Some (k, Leading) \<longleftrightarrow> caller s x = Some (k, Leading)" for x k by auto
  then show ?thesis using assms(1) handed unfolding led_def by simp
next
  case (receive c key v)
  then have "caller s' x = Some (k, Leading) \<longleftrightarrow> caller s x = Some (k, Leading)" for x k by auto
  then show ?thesis using assms(1) receive unfolding led_def by simp
next
  case (cancel c key)
  then have "caller s' x = Some (k, Leading) \<longleftrightarrow> caller s x = Some (k, Leading)" for x k by auto
  then show ?thesis using assms(1) cancel unfolding led_def by simp
qed

lemma sourced_step:
  assumes step: "Do_step e s = Some s'" and "sourced s k x"
  shows "sourced s' k x"
proof -
  consider (listed) "x \<in> set (waiters s k)" | (handing) l v ws where "caller s l = Some (k, Handing v ws)" "x \<in> set ws"
    | (sent) "map_of (channels s) x \<noteq> None"
    using assms(2) unfolding sourced_def by blast
  then show ?thesis
  proof cases
    case listed
    from step show ?thesis
    proof (cases rule: Do_step_cases)
      case (finish c v key ws)
      show ?thesis
      proof (cases "k = key")
        case True
        then have "caller s' c = Some (k, Handing v ws)" "x \<in> set ws" using finish listed by (simp_all add: waiters_def)
        then show ?thesis unfolding sourced_def by blast
      qed (use listed finish in \<open>simp add: sourced_def waiters_def delete_conv'\<close>)
    qed (use listed in \<open>auto simp: sourced_def waiters_def update_conv'\<close>)
  next
    case (handing l v ws)
    have still: ?thesis if "caller s' l = Some (k, Handing v ws)" using that handing(2) unfolding sourced_def by blast
    from step show ?thesis
    proof (cases rule: Do_step_cases)
      case (hand c key v' w ws')
      show ?thesis
      proof (cases "l = c")
        case True
        then have "x = w \<or> caller s' c = Some (k, Handing v ws') \<and> x \<in> set ws'" using hand handing by auto
        then show ?thesis using hand unfolding sourced_def by (auto simp: update_conv')
      qed (rule still, use hand handing in simp)
    qed (rule still, (use handing in \<open>auto split: if_splits\<close>) [1])+
  next
    case sent
    from step show ?thesis
      by (cases rule: Do_step_cases) (use sent in \<open>auto simp: sourced_def update_conv'\<close>)
  qed
qed

lemma served_step:
  assumes "served s" and step: "Do_step e s = Some s'"
  shows "served s'"
  unfolding served_def
proof (intro allI impI)
  fix x k
  assume x: "caller s' x = Some (k, Waiting)"
  from step show "sourced s' k x"
  proof (cases rule: Do_step_cases)
    case (wait c key ws)
    then show ?thesis
      using x assms(1) sourced_step [OF step] by (cases "x = c") (simp_all add: served_def sourced_def waiters_def update_conv')
  qed (use x assms(1) sourced_step [OF step] in \<open>auto simp: served_def split: if_splits\<close>)
qed

lemma of_key_step:
  assumes "Do_step e s = Some s'" and "of_key s k x"
  shows "of_key s' k x"
  using assms(1) by (cases rule: Do_step_cases) (use assms(2) in \<open>auto simp: of_key_def\<close>)

lemma list_of_key_step: "Do_step e s = Some s' \<Longrightarrow> list_all (of_key s k) ws \<Longrightarrow> list_all (of_key s' k) ws"
  by (auto simp: list_all_iff of_key_step)

lemma keyed_step:
  assumes "keyed s" and step: "Do_step e s = Some s'"
  shows "keyed s'"
proof -
  note mono = of_key_step [OF step] and lmono = list_of_key_step [OF step]
  have me: "of_key (move c key st s0) key c" for c key st and s0 :: "'a coalescer" by (simp add: of_key_def)
  from step show ?thesis
  proof (cases rule: Do_step_cases)
    case (wait c key ws)
    note mono = mono [unfolded wait(3)] and lmono = lmono [unfolded wait(3)]
    from wait show ?thesis using assms(1) me [of c key] unfolding keyed_def by (auto simp: update_conv' intro: lmono) (blast intro: mono lmono)+
  next
    case (lead c key)
    note mono = mono [unfolded lead(3)] and lmono = lmono [unfolded lead(3)]
    from lead show ?thesis using assms(1) unfolding keyed_def by (auto simp: update_conv' intro: lmono) (blast intro: mono lmono)+
  next
    case (finish c v key ws)
    note mono = mono [unfolded finish(3)] and lmono = lmono [unfolded finish(3)]
    have "list_all (of_key s key) ws" using assms(1) finish(2) by (auto simp: keyed_def split: option.splits)
    with finish(1,3) show ?thesis using assms(1) unfolding keyed_def by (auto simp: delete_conv' intro: lmono) (blast intro: mono lmono)+
  next
    case (hand c key v w ws)
    note mono = mono [unfolded hand(2)] and lmono = lmono [unfolded hand(2)]
    have "of_key s key w" "list_all (of_key s key) ws" "(key, v) \<in> set (completed s)"
      using assms(1) hand(1) by (fastforce simp: keyed_def)+
    with hand show ?thesis using assms(1) unfolding keyed_def by (auto simp: update_conv' intro: lmono) (blast intro: mono lmono)+
  next
    case (handed c key v)
    note mono = mono [unfolded handed(2)] and lmono = lmono [unfolded handed(2)]
    from handed show ?thesis using assms(1) unfolding keyed_def by (auto intro: lmono) (blast intro: mono lmono)+
  next
    case (receive c key v)
    note mono = mono [unfolded receive(3)] and lmono = lmono [unfolded receive(3)]
    have "\<exists>k. of_key s k c \<and> (k, v) \<in> set (completed s)" using assms(1) receive(2) unfolding keyed_def by blast
    then have "(key, v) \<in> set (completed s)" using receive(1) by (simp add: of_key_def)
    with receive show ?thesis using assms(1) unfolding keyed_def by (auto intro: lmono) (blast intro: mono lmono)+
  next
    case (cancel c key)
    note mono = mono [unfolded cancel(2)] and lmono = lmono [unfolded cancel(2)]
    from cancel show ?thesis using assms(1) unfolding keyed_def by (auto intro: lmono) (blast intro: mono lmono)+
  qed
qed

lemma co_invariant: "co_reach s \<Longrightarrow> led s \<and> served s \<and> keyed s"
proof (induction rule: co_reach.induct)
  case co_start
  show ?case by (simp add: new_coalescer_def led_def served_def keyed_def)
next
  case (co_next s e s')
  then show ?case using led_step served_step keyed_step by blast
qed

text \<open>Property C38 (liveness): concurrent resolutions of one name share a call and none is lost. In every interleaving at most one caller
  at a time runs the call for a key. A caller that waits has a caller that runs the call, or one that is handing it the
  result, or can take the result from its channel, so no waiter is left behind. And whoever returns a value returns the result of a completed
  call for its own key.\<close>

theorem coalescer_serves_every_waiter:
  assumes "co_reach s"
  shows "(\<forall>key c c'. caller s c = Some (key, Leading) \<longrightarrow> caller s c' = Some (key, Leading) \<longrightarrow> c = c') \<and>
    (\<forall>c key. caller s c = Some (key, Waiting) \<longrightarrow>
       (\<exists>l. caller s l = Some (key, Leading)) \<or> (\<exists>l v ws. caller s l = Some (key, Handing v ws) \<and> c \<in> set ws) \<or>
       Do_step (Receive c) s \<noteq> None) \<and>
    (\<forall>c key v. caller s c = Some (key, Returned (Some v)) \<longrightarrow> (key, v) \<in> set (completed s))"
proof -
  have inv: "led s" "served s" "keyed s" using co_invariant [OF assms] by simp_all
  have "(\<exists>l. caller s l = Some (key, Leading)) \<or> (\<exists>l v ws. caller s l = Some (key, Handing v ws) \<and> c \<in> set ws) \<or>
      Do_step (Receive c) s \<noteq> None" if w: "caller s c = Some (key, Waiting)" for c key
  proof -
    have "sourced s key c" using inv(2) w by (simp add: served_def)
    then consider "c \<in> set (waiters s key)" | "\<exists>l v ws. caller s l = Some (key, Handing v ws) \<and> c \<in> set ws"
      | "map_of (channels s) c \<noteq> None"
      unfolding sourced_def by blast
    then show ?thesis
    proof cases
      case 1
      then have "map_of (inFlight s) key \<noteq> None" by (cases "map_of (inFlight s) key") (simp_all add: waiters_def)
      then show ?thesis using inv(1) unfolding led_def by blast
    next
      case 3
      then show ?thesis using w by auto
    qed blast
  qed
  then show ?thesis using inv(1,3) unfolding led_def keyed_def by blast
qed

definition two_callers :: "nat co_event list" where
  "two_callers = [Enter 1 ''ann'', Enter 2 ''ann'', Finish 1 7, Hand 1, Hand 1]"

definition co_run :: "'v co_event list \<Rightarrow> 'v coalescer \<Rightarrow> 'v coalescer option" where
  "co_run es s = fold (\<lambda>e r. Option.bind r (Do_step e)) es (Some s)"

lemma co_reach_run: "co_reach s \<Longrightarrow> co_run es s = Some s' \<Longrightarrow> co_reach s'"
proof (induction es arbitrary: s)
  case (Cons e es)
  have "fold (\<lambda>e r. Option.bind r (Do_step e)) es None = None" for es :: "'a co_event list" by (induction es) simp_all
  with Cons.prems obtain s1 where "Do_step e s = Some s1" "co_run es s1 = Some s'"
    by (cases "Do_step e s") (simp_all add: co_run_def)
  with Cons show ?case using co_next by blast
qed (simp add: co_run_def)

theorem coalescer_serves_every_waiter_witness:
  "\<exists>s. co_run two_callers new_coalescer = Some s \<and> caller s 2 = Some (''ann'', Waiting) \<and>
     Do_step (Receive 2) s \<noteq> None \<and> (''ann'', 7) \<in> set (completed s)"
proof -
  let ?s = "\<lparr>inFlight = [], channels = [(2, 7)],
    callers = [(1, ''ann'', Returned (Some 7)), (2, ''ann'', Waiting)], completed = [(''ann'', 7)]\<rparr> :: nat coalescer"
  have run: "co_run two_callers new_coalescer = Some ?s" by code_simp
  have "co_reach ?s" by (rule co_reach_run [OF co_start run])
  note served = conjunct1 [OF conjunct2 [OF coalescer_serves_every_waiter [OF this]], rule_format, of 2 "''ann''"]
  have "caller ?s 2 = Some (''ann'', Waiting)" by simp
  from served [OF this]
  have "Do_step (Receive 2) ?s \<noteq> None" by (simp split: if_splits)
  with run show ?thesis by (intro exI [of _ ?s]) simp
qed

end
