(* ===== verification/Spec2Isabelle.thy ===== *)
theory Spec2Isabelle
  imports TL_Object Msg_Identifiers Pending_Calls Container_Tracker Salt_Manager
    Session_State AES_Modes Transport_Framing Session_Receive Message_Crypto Factorization RSA_Keys
    Key_Exchange Flood_Control Client_Limits Session_Invoke Conn_Pool SRP_Secrets Memory_Storage Peer_Ids
    MTProxy Temp_Keys DC_Auth Session_Loops Session_Lifecycle WebSocket
    Peer_Cache Peer_Resolution Peer_Coalescer
begin

text \<open>
  A verification library for mtgo, a Telegram MTProto client in Go (\<^verbatim>\<open>src/\<close>).

  \<^bold>\<open>The program.\<close> A client opens a connection to a Telegram data center through a transport
  (\<^verbatim>\<open>src/internal/transport\<close>), which cuts the TCP stream into packets and may hide it behind an AES-CTR
  stream. A session (\<^verbatim>\<open>src/internal/session\<close>) encrypts messages with AES-IGE
  (\<^verbatim>\<open>src/internal/crypto\<close>) under a key agreed with the server before, numbers them, keeps the table of calls that wait for an answer, the table of
  containers they were sent in, the server salts and the replay window, and dispatches what the
  server sends. Message bodies are TL objects (\<^verbatim>\<open>src/tg\<close>), written and read by hand-written
  primitives under a generated schema. The client (\<^verbatim>\<open>src/telegram\<close>) builds requests on top.

  \<^bold>\<open>The theories.\<close>

  \<^item> \<^verbatim>\<open>Mtgo_Prelude\<close>: byte strings, machine integers as words, little-endian encoding, slices,
    and Go maps as association lists behind the locale \<open>go_map\<close>.
  \<^item> \<^verbatim>\<open>TL_Primitives\<close> (\<^verbatim>\<open>src/tg/primitives.go\<close>, \<^verbatim>\<open>fields.go\<close>): Write*, the io.Reader based Read*, the
    count guards. \<^verbatim>\<open>TL_Reader\<close> (\<^verbatim>\<open>src/tg/reader.go\<close>): the cursor, whose methods are functions from a
    reader to a result and a reader. Shown: round trips of strings and vectors, the two readers
    agree, no method leaves the buffer.
  \<^item> \<^verbatim>\<open>TL_Object\<close> (\<^verbatim>\<open>src/tg/tl.go\<close>, \<^verbatim>\<open>message.go\<close>, \<^verbatim>\<open>msg_container.go\<close>, \<^verbatim>\<open>gzip.go\<close>): polymorphic objects,
    with the generated constructors and the gzip stream as parameters. ReadTLObject takes a
    recursion depth; one more than the bytes left, through the decompression bound, is shown to be
    enough for every input. Shown: that bound, and that containers round trip.
  \<^item> \<^verbatim>\<open>Msg_Identifiers\<close> (\<^verbatim>\<open>src/internal/session/msg_id.go\<close>, \<^verbatim>\<open>seq_no.go\<close>, \<^verbatim>\<open>msg_factory.go\<close>,
    \<^verbatim>\<open>msg_id_validator.go\<close>): the generators on 64-bit words, the compare-and-swap loop of Next as a
    step relation between goroutines, the replay window. Shown: ids increase, are distinct in
    every interleaving, and an accepted id is rejected a second time.
  \<^item> \<^verbatim>\<open>Session_Types\<close> (\<^verbatim>\<open>src/internal/session/errors.go\<close>): the errors with errors.Is and errors.As.
  \<^item> \<^verbatim>\<open>Pending_Calls\<close> (\<^verbatim>\<open>src/internal/session/pending.go\<close>): handles in a heap, because the table and the
    waiters share them, and the counters. Shown: the counters match the table in every reachable
    state, and a completed call keeps its result under every later operation.
  \<^item> \<^verbatim>\<open>Container_Tracker\<close> (\<^verbatim>\<open>container_tracker.go\<close>): the container table and its inverse index.
  \<^item> \<^verbatim>\<open>Salt_Manager\<close> (\<^verbatim>\<open>salt.go\<close>): the current and the announced salts, promotion, and the wake-up
    generation of WaitForValid; announced salts stay available and no waiter misses a change.
  \<^item> \<^verbatim>\<open>Session_State\<close> (\<^verbatim>\<open>state.go\<close>, the write guards of \<^verbatim>\<open>session.go\<close>, \<^verbatim>\<open>src/telegram/conn_state.go\<close>): the
    session and client state machines and the write circuit breaker.
  \<^item> \<^verbatim>\<open>AES_Modes\<close> (\<^verbatim>\<open>src/internal/crypto/aes.go\<close>): IGE and CTR over an abstract block cipher whose
    two directions are inverse on 16-byte blocks.
  \<^item> \<^verbatim>\<open>Transport_Framing\<close> (\<^verbatim>\<open>src/internal/transport\<close>): the framings over an explicit connection (the
    bytes still to come), behind the locale \<open>framing\<close>, interpreted on every transport, and the
    obfuscated handshake of both sides.
  \<^item> \<^verbatim>\<open>Session_Receive\<close> (\<^verbatim>\<open>session.go\<close>): one frame of readLoop, the raw and decoded handlers, and
    handleClose, over one record that joins the components above. The code the session calls
    outside these files (decryption, decoders, clock, the writer's answers) is the record \<open>env\<close>.
    handleRawPacket takes a depth, because the source recurses through gzip without a limit;
    packets whose gzip nesting is finite are shown to be handled, and a packet that unpacks to
    itself is shown never to be.

  \<^item> \<^verbatim>\<open>Message_Crypto\<close> (\<^verbatim>\<open>src/internal/crypto/mtproto.go\<close>, \<^verbatim>\<open>secret.go\<close>): key derivation, Pack, PackRaw,
    Unpack and UnpackEnvelope, secret-chat and file encryption, over abstract hashes and a block cipher.
    The predicate \<open>sealed\<close> says what a frame of a message is; UnpackEnvelope accepts exactly
    the sealed frames, Pack makes them, and the two receivers agree.
  \<^item> \<^verbatim>\<open>Big_Integers\<close>: the part of math/big the sources use. \<^verbatim>\<open>Factorization\<close>
    (\<^verbatim>\<open>src/internal/crypto/prime.go\<close>, factorPQ of \<^verbatim>\<open>auth.go\<close>): Pollard's rho with its unbounded loops as partial
    functions, shown to return for every input. \<^verbatim>\<open>RSA_Keys\<close> (\<^verbatim>\<open>keys.go\<close>, \<^verbatim>\<open>server_keys.go\<close>, \<^verbatim>\<open>rsa.go\<close>): the
    bundled table, the key set and its refresh, RSA_PAD, whose loop ends as soon as one of the drawn
    keys gives a block below the modulus.
  \<^item> \<^verbatim>\<open>Auth_Messages\<close> (\<^verbatim>\<open>src/tg/core_types_gen.go\<close>, \<^verbatim>\<open>core_methods_gen.go\<close>): the TL types of the key exchange;
    what they encode is read back. \<^verbatim>\<open>Key_Exchange\<close> (\<^verbatim>\<open>src/internal/session/auth.go\<close>,
    \<^verbatim>\<open>auth_helpers.go\<close>): the exchange as steps that record the packets sent, over an environment of the peer's
    answers and the random draws. The accepted prime is an argument of \<open>createKey_with\<close>. Shown: a key
    that is returned was confirmed by the peer and is the shared value; an honest peer yields it.

  \<^item> \<^verbatim>\<open>RPC_Errors\<close> (\<^verbatim>\<open>src/tgerr\<close>): server errors, their type and argument. \<^verbatim>\<open>Flood_Control\<close>
    (\<^verbatim>\<open>src/telegram/flood_control.go\<close>, \<^verbatim>\<open>retry.go\<close>): the sliding-window limiter behind the locale \<open>rate_limiter\<close>, the gate
    for connection attempts, the flood-wait policy. \<^verbatim>\<open>Client_Limits\<close> (\<^verbatim>\<open>overload.go\<close>, \<^verbatim>\<open>transfer_gate.go\<close>,
    \<^verbatim>\<open>dedup_cache.go\<close>): admission and the byte limiter as step relations between goroutines, duplicate
    suppression and its keys.

  \<^item> \<^verbatim>\<open>RPC_Queries\<close> (\<^verbatim>\<open>priority.go\<close>, \<^verbatim>\<open>chain.go\<close>): outgoing queries, their priority, message chains.
    \<^verbatim>\<open>Outbound_Batcher\<close> (\<^verbatim>\<open>outbound_batcher.go\<close>): the queue and its flush into containers, with the guarded write and the
    choice of a salt it shares with Send. \<^verbatim>\<open>Session_Send\<close> and \<^verbatim>\<open>Session_Invoke\<close> (\<^verbatim>\<open>session.go\<close>): one call with its
    wait, and the loops that retry it. What other goroutines do during a wait is a function on the
    sender; the relation \<open>others\<close> says which steps leave a call to its caller. Shown: the batches of a
    flush, that every queued call is settled, that Send returns and cleans up, what its errors mean, and
    that Invoke is bounded and repeats a request only when that is safe. Invoke takes the number of turns of its
    loop; three more than the retries are enough unless MSG_WAIT_FAILED is answered.

  \<^item> \<^verbatim>\<open>Data_Centers\<close> (\<^verbatim>\<open>data_center.go\<close>, \<^verbatim>\<open>dc_options.go\<close>): addresses and the choice of endpoints by
    health, refining a ranking of the eligible ones. \<^verbatim>\<open>Conn_Pool\<close> (\<^verbatim>\<open>conn_pool.go\<close>): warm connections with one expiry
    timer; a history of operations keeps every connection in one place, and expired ones are closed.

  \<^item> \<^verbatim>\<open>SRP_Secrets\<close> (\<^verbatim>\<open>srp.go\<close>, \<^verbatim>\<open>secret.go\<close>): the password check, whose drawing loop is a partial function shown to end with
    the first usable draw, against the server's side of the protocol, and the keys of secret chats. \<^verbatim>\<open>File_Ids\<close>
    (\<^verbatim>\<open>src/telegram/fileid\<close>): file identifiers through base64 and zero runs. \<^verbatim>\<open>Memory_Storage\<close>
    (\<^verbatim>\<open>src/telegram/memory_storage.go\<close>): peers and their index, the bounded memory of update keys. \<^verbatim>\<open>Peer_Ids\<close>
    (\<^verbatim>\<open>src/internal/peerid\<close>): marked identifiers.
  \<^item> \<^verbatim>\<open>Peer_Cache\<close> (\<^verbatim>\<open>src/telegram/peers\<close>: \<^verbatim>\<open>manager.go\<close>, \<^verbatim>\<open>cache.go\<close>, \<^verbatim>\<open>ingest.go\<close>, \<^verbatim>\<open>anchors.go\<close>, Invalidate): the maps of peers,
    usernames and phone numbers with their order lists, whose four eviction loops share the locale \<open>fifo_loop\<close>. The store is a record
    of operations behind the locales \<open>peer_backend\<close> and \<open>merging_backend\<close>, interpreted on the session store and, without
    merging, on the adapter of \<^verbatim>\<open>src/internal/storage\<close>. Shown: the invariant of the maps over all histories, that entities never
    lose a hash, and that a restart finds it. \<^verbatim>\<open>Peer_Resolution\<close> (\<^verbatim>\<open>cascade.go\<close>, \<^verbatim>\<open>rpc.go\<close>, \<^verbatim>\<open>errors.go\<close>, \<^verbatim>\<open>invalidation.go\<close>,
    \<^verbatim>\<open>response_ingest.go\<close>): the cascade from a reference to an input peer over a record of server calls. The dialogs are
    read in at most the twenty pages of the source. Shown: what a bot gets is usable, a failed call is
    never reported as a missing peer, a rejected hash is forgotten before the replay, and the cache keeps its invariant; and
    that two fallbacks for a peer without hash cannot work. \<^verbatim>\<open>Peer_Coalescer\<close> (\<^verbatim>\<open>cascade.go\<close>): the sharing of concurrent calls as a
    step function with its reachable states; no waiter is left behind.
  \<^item> \<^verbatim>\<open>MTProxy\<close> (\<^verbatim>\<open>src/mtproxy\<close>): secrets, the obfuscated header and the imitated TLS handshake and records, on
    the byte stream of the peer. The loop that draws a header is a partial function that ends with the first
    acceptable draw. Shown: a proxy authenticates the ClientHello; and why connections through a proxy do not
    work: reads wait for a full buffer, record keys are never shared, the tag is misplaced.
  \<^item> \<^verbatim>\<open>WebSocket\<close> (\<^verbatim>\<open>ws_stdlib.go\<close>, \<^verbatim>\<open>ws.go\<close>): frames, the byte stream over them and the obfuscated layer, whose handshake is
    shown to be that of the TCP transport; a connection delivers what is written.
  \<^item> \<^verbatim>\<open>Temp_Keys\<close> (\<^verbatim>\<open>pfs.go\<close>, the recovery and renewal of \<^verbatim>\<open>session.go\<close>): temporary keys as a record with operations
    and a step relation with at most one bind in flight. Shown: the binding message opens under the permanent key, a key that
    counts as bound was accepted, recoveries coalesce, renewal comes 6 hours before the expiry. \<^verbatim>\<open>DC_Auth\<close>
    (\<^verbatim>\<open>dc_auth.go\<close>): the transfer of an authorization, whose loop ends unless it is put into its polling state.
  \<^item> \<^verbatim>\<open>Session_Loops\<close> (\<^verbatim>\<open>session.go\<close>): the loops for acknowledgements, pings and salts as functions of the events their
    select statements receive, and the adaptive timeouts. \<^verbatim>\<open>Session_Lifecycle\<close> (\<^verbatim>\<open>session.go\<close>): connecting, starting,
    stopping and ending, with stops at every moment of a connect.

  \<^bold>\<open>Conventions.\<close> A Go struct is a record, an int64 or uint32 a word of its width (a Go int that is a
  length is a natural number), an error the left of a sum. A mutex-guarded method is one step; where
  the source uses atomics without a lock (Next), the interleaving is explicit. A Go map is an
  association list; no statement depends on its order. Handlers that start a goroutine for a
  service write are modelled with the write done in line.

  \<^bold>\<open>Not modelled.\<close> Dialing, the HTTP upgrade and the HTTP transport, the client API, the session fields of the adapter to persistent storage, the schema compiler and the
  generated types.
\<close>

end
